(* ===== verification/Prelude.thy ===== *)
theory Prelude
  imports Main "HOL-Library.Word" "HOL-Library.Monad_Syntax" "HOL-Library.Multiset"
    "HOL-Library.Signed_Division"
begin

text \<open>
  Shared vocabulary of the development: kernel faults as the option monad, the C integer
  types the kernel uses, the rounding macros of \<^verbatim>\<open>lib/round.h\<close>, and the generic
  facts on options, lists and numbers that the component theories rely on.

  A kernel computation that may hit \<^verbatim>\<open>ASSERT\<close>, \<^verbatim>\<open>PANIC\<close>, \<^verbatim>\<open>NOT_REACHED\<close> or read memory
  it does not own has an option type: \<open>None\<close> is the fault, \<open>Some\<close> the normal
  return. Error values that C returns (null, -1, false) stay values inside \<open>Some\<close>.
\<close>

named_theorems kernel_simps \<open>equations that unfold kernel operations\<close>

named_theorems c_arith \<open>facts on the C integer conversions\<close>

section \<open>Faults\<close>

definition ASSERT :: "bool \<Rightarrow> unit option" where
  "ASSERT b = (if b then Some () else None)"

lemma ASSERT_bind [simp]: "(ASSERT b \<bind> f) = (if b then f () else None)"
  by (simp add: ASSERT_def)

lemma ASSERT_eq_Some [simp]: "ASSERT b = Some u \<longleftrightarrow> b"
  by (simp add: ASSERT_def)

lemma ASSERT_simps [simp]: "ASSERT True = Some ()" "ASSERT False = None"
  by (simp_all add: ASSERT_def)

lemmas option_bind_Some = Option.bind_eq_Some_conv

text \<open>Iterated faulting steps: over a list of arguments, and a number of times collecting results.\<close>

primrec foldM :: "('s \<Rightarrow> 'a \<Rightarrow> 's option) \<Rightarrow> 's \<Rightarrow> 'a list \<Rightarrow> 's option" where
  "foldM f s [] = Some s"
| "foldM f s (x # xs) = do { s' \<leftarrow> f s x; foldM f s' xs }"

primrec unfoldM :: "('s \<Rightarrow> ('s \<times> 'a) option) \<Rightarrow> nat \<Rightarrow> 's \<Rightarrow> ('s \<times> 'a list) option" where
  "unfoldM f 0 s = Some (s, [])"
| "unfoldM f (Suc n) s = do { (s, x) \<leftarrow> f s; (s, xs) \<leftarrow> unfoldM f n s; Some (s, x # xs) }"

section \<open>C integers\<close>

text \<open>
  \<^verbatim>\<open>size_t\<close>, \<^verbatim>\<open>unsigned\<close> and \<^verbatim>\<open>block_sector_t\<close> are 32 bits wide on the x86 target. Where
  the code does arithmetic on them the model keeps a natural number and applies the
  wrap-around \<open>u32\<close>; signed quantities are integers wrapped by \<open>s32\<close> and \<open>s64\<close> as
  two's complement, which is what the compiler emits for the target. Bit patterns are
  words.
\<close>

definition u32 :: "nat \<Rightarrow> nat" where
  "u32 n = n mod 2 ^ 32"

definition s32 :: "int \<Rightarrow> int" where
  "s32 x = (x + 2 ^ 31) mod 2 ^ 32 - 2 ^ 31"

definition s64 :: "int \<Rightarrow> int" where
  "s64 x = (x + 2 ^ 63) mod 2 ^ 64 - 2 ^ 63"

lemma u32_id [simp, c_arith]: "n < 2 ^ 32 \<Longrightarrow> u32 n = n"
  by (simp add: u32_def)

lemma u32_less [simp]: "u32 n < 2 ^ 32"
  by (simp add: u32_def)

lemma u32_idem [simp]: "u32 (u32 n) = u32 n"
  by (simp add: u32_def)

lemma u32_add_left [simp]: "u32 (u32 m + n) = u32 (m + n)"
  by (simp add: u32_def mod_add_left_eq)

lemma u32_add_right [simp]: "u32 (m + u32 n) = u32 (m + n)"
  by (simp add: u32_def mod_add_right_eq)

lemma u32_Suc [simp]: "u32 (Suc (u32 n)) = u32 (Suc n)"
  using u32_add_left [of n 1] by simp

lemma s32_id [simp, c_arith]: "- (2 ^ 31) \<le> x \<Longrightarrow> x < 2 ^ 31 \<Longrightarrow> s32 x = x"
  by (simp add: s32_def)

lemma s32_range: "- (2 ^ 31) \<le> s32 x \<and> s32 x < 2 ^ 31"
proof -
  have "0 \<le> (x + 2 ^ 31) mod 2 ^ 32" "(x + 2 ^ 31) mod 2 ^ 32 < 2 ^ 32"
    by simp_all
  then show ?thesis by (simp add: s32_def)
qed

lemma s64_id [simp, c_arith]: "- (2 ^ 63) \<le> x \<Longrightarrow> x < 2 ^ 63 \<Longrightarrow> s64 x = x"
  by (simp add: s64_def)

section \<open>The rounding macros\<close>

definition DIV_ROUND_UP :: "nat \<Rightarrow> nat \<Rightarrow> nat" where
  "DIV_ROUND_UP x step = (x + step - 1) div step"

definition ROUND_UP :: "nat \<Rightarrow> nat \<Rightarrow> nat" where
  "ROUND_UP x step = (x + step - 1) div step * step"

definition ROUND_DOWN :: "nat \<Rightarrow> nat \<Rightarrow> nat" where
  "ROUND_DOWN x step = x div step * step"

lemma DIV_ROUND_UP_0 [simp]: "0 < s \<Longrightarrow> DIV_ROUND_UP 0 s = 0"
  by (simp add: DIV_ROUND_UP_def)

lemma DIV_ROUND_UP_le_iff: "0 < s \<Longrightarrow> DIV_ROUND_UP x s \<le> n \<longleftrightarrow> x \<le> n * s"
proof -
  assume s: "0 < s"
  have "DIV_ROUND_UP x s \<le> n \<longleftrightarrow> x + s - 1 < Suc n * s"
    using s by (simp add: DIV_ROUND_UP_def flip: less_Suc_eq_le) (simp add: div_less_iff_less_mult)
  also have "\<dots> \<longleftrightarrow> x \<le> n * s"
    using s by auto
  finally show ?thesis .
qed

lemma DIV_ROUND_UP_mono: "x \<le> y \<Longrightarrow> DIV_ROUND_UP x s \<le> DIV_ROUND_UP y s"
  by (simp add: DIV_ROUND_UP_def div_le_mono)

lemma DIV_ROUND_UP_cover: "0 < s \<Longrightarrow> x \<le> DIV_ROUND_UP x s * s"
  using DIV_ROUND_UP_le_iff [of s x "DIV_ROUND_UP x s"] by simp

end
