(* ===== verification/Kernel_List.thy ===== *)
theory Kernel_List
  imports Prelude
begin

text \<open>
  The kernel's doubly linked lists (\<^verbatim>\<open>lib/kernel/list.c\<close>), at pointer level. A heap maps
  the address of a \<^verbatim>\<open>struct list_elem\<close> to its two fields; a \<^verbatim>\<open>struct list\<close> at address
  \<open>l\<close> holds its head element at \<open>l\<close> and its tail element at \<open>l + 8\<close>. Every
  operation of the C file is a function on the heap that faults (\<open>None\<close>) where an
  \<^verbatim>\<open>ASSERT\<close> fails or an address that holds no element is read.

  \<open>wf_seq\<close> and \<open>dll\<close> relate a heap to the sequence of elements a list holds; the
  lemmas show that each operation implements its counterpart on sequences. The ordered
  operations (sort, merge, ordered insert, unique, max, min) are in \<open>Kernel_List_Sort\<close>.
\<close>

section \<open>Elements and lists in memory\<close>

type_synonym ptr = nat

abbreviation NULL :: ptr where "NULL \<equiv> 0"

record list_elem =
  le_prev :: ptr
  le_next :: ptr

type_synonym heap = "ptr \<Rightarrow> list_elem option"

definition load :: "heap \<Rightarrow> ptr \<Rightarrow> list_elem option" where
  "load h p = (if p = NULL then None else h p)"

definition get_prev :: "heap \<Rightarrow> ptr \<Rightarrow> ptr option" where
  "get_prev h p = map_option le_prev (load h p)"

definition get_next :: "heap \<Rightarrow> ptr \<Rightarrow> ptr option" where
  "get_next h p = map_option le_next (load h p)"

definition set_prev :: "heap \<Rightarrow> ptr \<Rightarrow> ptr \<Rightarrow> heap option" where
  "set_prev h p v = do { n \<leftarrow> load h p; Some (h(p \<mapsto> n\<lparr>le_prev := v\<rparr>)) }"

definition set_next :: "heap \<Rightarrow> ptr \<Rightarrow> ptr \<Rightarrow> heap option" where
  "set_next h p v = do { n \<leftarrow> load h p; Some (h(p \<mapsto> n\<lparr>le_next := v\<rparr>)) }"

text \<open>The two members of \<^verbatim>\<open>struct list\<close>: \<^verbatim>\<open>head\<close> at offset 0 and \<^verbatim>\<open>tail\<close> at offset 8.\<close>

definition head_of :: "ptr \<Rightarrow> ptr" where
  "head_of l = l"

definition tail_of :: "ptr \<Rightarrow> ptr" where
  "tail_of l = l + 8"

section \<open>Operations\<close>

definition is_head :: "heap \<Rightarrow> ptr \<Rightarrow> bool option" where
  "is_head h e = (if e = NULL then Some False
     else do { n \<leftarrow> load h e; Some (le_prev n = NULL \<and> le_next n \<noteq> NULL) })"

definition is_interior :: "heap \<Rightarrow> ptr \<Rightarrow> bool option" where
  "is_interior h e = (if e = NULL then Some False
     else do { n \<leftarrow> load h e; Some (le_prev n \<noteq> NULL \<and> le_next n \<noteq> NULL) })"

definition is_tail :: "heap \<Rightarrow> ptr \<Rightarrow> bool option" where
  "is_tail h e = (if e = NULL then Some False
     else do { n \<leftarrow> load h e; Some (le_prev n \<noteq> NULL \<and> le_next n = NULL) })"

definition list_init :: "heap \<Rightarrow> ptr \<Rightarrow> heap option" where
  "list_init h l = do {
     ASSERT (l \<noteq> NULL);
     h \<leftarrow> set_prev h (head_of l) NULL;
     h \<leftarrow> set_next h (head_of l) (tail_of l);
     h \<leftarrow> set_prev h (tail_of l) (head_of l);
     set_next h (tail_of l) NULL }"

definition list_begin :: "heap \<Rightarrow> ptr \<Rightarrow> ptr option" where
  "list_begin h l = do { ASSERT (l \<noteq> NULL); get_next h (head_of l) }"

definition list_next :: "heap \<Rightarrow> ptr \<Rightarrow> ptr option" where
  "list_next h e = do {
     a \<leftarrow> is_head h e; b \<leftarrow> is_interior h e; ASSERT (a \<or> b);
     get_next h e }"

definition list_end :: "ptr \<Rightarrow> ptr option" where
  "list_end l = do { ASSERT (l \<noteq> NULL); Some (tail_of l) }"

definition list_rbegin :: "heap \<Rightarrow> ptr \<Rightarrow> ptr option" where
  "list_rbegin h l = do { ASSERT (l \<noteq> NULL); get_prev h (tail_of l) }"

definition list_prev :: "heap \<Rightarrow> ptr \<Rightarrow> ptr option" where
  "list_prev h e = do {
     a \<leftarrow> is_interior h e; b \<leftarrow> is_tail h e; ASSERT (a \<or> b);
     get_prev h e }"

definition list_rend :: "ptr \<Rightarrow> ptr option" where
  "list_rend l = do { ASSERT (l \<noteq> NULL); Some (head_of l) }"

definition list_head :: "ptr \<Rightarrow> ptr option" where
  "list_head l = do { ASSERT (l \<noteq> NULL); Some (head_of l) }"

definition list_tail :: "ptr \<Rightarrow> ptr option" where
  "list_tail l = do { ASSERT (l \<noteq> NULL); Some (tail_of l) }"

definition list_insert :: "heap \<Rightarrow> ptr \<Rightarrow> ptr \<Rightarrow> heap option" where
  "list_insert h before e = do {
     a \<leftarrow> is_interior h before; b \<leftarrow> is_tail h before; ASSERT (a \<or> b);
     ASSERT (e \<noteq> NULL);
     p \<leftarrow> get_prev h before;
     h \<leftarrow> set_prev h e p;
     h \<leftarrow> set_next h e before;
     p \<leftarrow> get_prev h before;
     h \<leftarrow> set_next h p e;
     set_prev h before e }"

definition list_splice :: "heap \<Rightarrow> ptr \<Rightarrow> ptr \<Rightarrow> ptr \<Rightarrow> heap option" where
  "list_splice h before first lst = do {
     a \<leftarrow> is_interior h before; b \<leftarrow> is_tail h before; ASSERT (a \<or> b);
     if first = lst then Some h
     else do {
       lst \<leftarrow> list_prev h lst;
       a \<leftarrow> is_interior h first; ASSERT a;
       b \<leftarrow> is_interior h lst; ASSERT b;
       p \<leftarrow> get_prev h first; n \<leftarrow> get_next h lst; h \<leftarrow> set_next h p n;
       n \<leftarrow> get_next h lst; p \<leftarrow> get_prev h first; h \<leftarrow> set_prev h n p;
       p \<leftarrow> get_prev h before; h \<leftarrow> set_prev h first p;
       h \<leftarrow> set_next h lst before;
       p \<leftarrow> get_prev h before; h \<leftarrow> set_next h p first;
       set_prev h before lst } }"

definition list_push_front :: "heap \<Rightarrow> ptr \<Rightarrow> ptr \<Rightarrow> heap option" where
  "list_push_front h l e = do { b \<leftarrow> list_begin h l; list_insert h b e }"

definition list_push_back :: "heap \<Rightarrow> ptr \<Rightarrow> ptr \<Rightarrow> heap option" where
  "list_push_back h l e = do { b \<leftarrow> list_end l; list_insert h b e }"

definition list_remove :: "heap \<Rightarrow> ptr \<Rightarrow> (heap \<times> ptr) option" where
  "list_remove h e = do {
     a \<leftarrow> is_interior h e; ASSERT a;
     p \<leftarrow> get_prev h e; n \<leftarrow> get_next h e; h \<leftarrow> set_next h p n;
     n \<leftarrow> get_next h e; p \<leftarrow> get_prev h e; h \<leftarrow> set_prev h n p;
     n \<leftarrow> get_next h e;
     Some (h, n) }"

definition list_empty :: "heap \<Rightarrow> ptr \<Rightarrow> bool option" where
  "list_empty h l = do { b \<leftarrow> list_begin h l; t \<leftarrow> list_end l; Some (b = t) }"

definition list_front :: "heap \<Rightarrow> ptr \<Rightarrow> ptr option" where
  "list_front h l = do { e \<leftarrow> list_empty h l; ASSERT (\<not> e); get_next h (head_of l) }"

definition list_back :: "heap \<Rightarrow> ptr \<Rightarrow> ptr option" where
  "list_back h l = do { e \<leftarrow> list_empty h l; ASSERT (\<not> e); get_prev h (tail_of l) }"

definition list_pop_front :: "heap \<Rightarrow> ptr \<Rightarrow> (heap \<times> ptr) option" where
  "list_pop_front h l = do {
     front \<leftarrow> list_front h l; (h, _) \<leftarrow> list_remove h front; Some (h, front) }"

definition list_pop_back :: "heap \<Rightarrow> ptr \<Rightarrow> (heap \<times> ptr) option" where
  "list_pop_back h l = do {
     back \<leftarrow> list_back h l; (h, _) \<leftarrow> list_remove h back; Some (h, back) }"

text \<open>The counting loop of \<^verbatim>\<open>list_size\<close>; the counter is a \<^verbatim>\<open>size_t\<close>.\<close>

partial_function (option) list_size_loop :: "heap \<Rightarrow> ptr \<Rightarrow> ptr \<Rightarrow> nat \<Rightarrow> nat option" where
  [code]: "list_size_loop h e stop cnt =
    (if e = stop then Some cnt
     else do { e' \<leftarrow> list_next h e; list_size_loop h e' stop (u32 (cnt + 1)) })"

definition list_size :: "heap \<Rightarrow> ptr \<Rightarrow> nat option" where
  "list_size h l = do { e \<leftarrow> list_begin h l; t \<leftarrow> list_end l; list_size_loop h e t 0 }"

text \<open>\<^verbatim>\<open>swap\<close> exchanges two pointer fields, given by their addresses.\<close>

datatype link = Prev_of ptr | Next_of ptr

fun load_link :: "heap \<Rightarrow> link \<Rightarrow> ptr option" where
  "load_link h (Prev_of p) = get_prev h p"
| "load_link h (Next_of p) = get_next h p"

fun store_link :: "heap \<Rightarrow> link \<Rightarrow> ptr \<Rightarrow> heap option" where
  "store_link h (Prev_of p) v = set_prev h p v"
| "store_link h (Next_of p) v = set_next h p v"

definition swap_links :: "heap \<Rightarrow> link \<Rightarrow> link \<Rightarrow> heap option" where
  "swap_links h a b = do {
     t \<leftarrow> load_link h a;
     v \<leftarrow> load_link h b;
     h \<leftarrow> store_link h a v;
     store_link h b t }"

partial_function (option) list_reverse_loop :: "heap \<Rightarrow> ptr \<Rightarrow> ptr \<Rightarrow> heap option" where
  [code]: "list_reverse_loop h e stop =
    (if e = stop then Some h
     else do {
       h' \<leftarrow> swap_links h (Prev_of e) (Next_of e);
       e' \<leftarrow> get_prev h' e;
       list_reverse_loop h' e' stop })"

definition list_reverse :: "heap \<Rightarrow> ptr \<Rightarrow> heap option" where
  "list_reverse h l = do {
     e \<leftarrow> list_empty h l;
     if e then Some h
     else do {
       b \<leftarrow> list_begin h l; t \<leftarrow> list_end l;
       h \<leftarrow> list_reverse_loop h b t;
       h \<leftarrow> swap_links h (Next_of (head_of l)) (Prev_of (tail_of l));
       f \<leftarrow> get_next h (head_of l); g \<leftarrow> get_prev h (tail_of l);
       swap_links h (Prev_of f) (Next_of g) } }"

section \<open>Sequences in the heap\<close>

text \<open>
  \<open>chain h p xs q\<close>: the elements \<open>xs\<close> are linked in order, the first one's
  predecessor field holds \<open>p\<close> and the last one's successor field holds \<open>q\<close>.
\<close>

fun chain :: "heap \<Rightarrow> ptr \<Rightarrow> ptr list \<Rightarrow> ptr \<Rightarrow> bool" where
  "chain h p [] q = True"
| "chain h p (x # xs) q =
     (h x = Some \<lparr>le_prev = p, le_next = hd (xs @ [q])\<rparr> \<and> chain h x xs q)"

definition wf_seq :: "heap \<Rightarrow> ptr list \<Rightarrow> bool" where
  "wf_seq h ns \<longleftrightarrow> chain h NULL ns NULL \<and> distinct ns \<and> NULL \<notin> set ns"

definition nodes :: "ptr \<Rightarrow> ptr list \<Rightarrow> ptr list" where
  "nodes l xs = head_of l # xs @ [tail_of l]"

text \<open>The list at address \<open>l\<close> holds the elements \<open>xs\<close>, in this order.\<close>

definition dll :: "heap \<Rightarrow> ptr \<Rightarrow> ptr list \<Rightarrow> bool" where
  "dll h l xs \<longleftrightarrow> wf_seq h (nodes l xs)"

lemma chain_append:
  "chain h p (xs @ ys) q \<longleftrightarrow> chain h p xs (hd (ys @ [q])) \<and> chain h (last (p # xs)) ys q"
proof (induction xs arbitrary: p)
  case (Cons x xs)
  then show ?case by (cases xs) auto
qed simp

lemma chain_upd [simp]: "x \<notin> set xs \<Longrightarrow> chain (h(x \<mapsto> v)) p xs q = chain h p xs q"
  by (induction xs arbitrary: p) auto

lemma chain_cong: "(\<And>x. x \<in> set xs \<Longrightarrow> h x = h' x) \<Longrightarrow> chain h p xs q = chain h' p xs q"
  by (induction xs arbitrary: p) auto

lemma load_Some [simp]: "p \<noteq> NULL \<Longrightarrow> load h p = h p"
  by (simp add: load_def)

lemma load_NULL [simp]: "load h NULL = None"
  by (simp add: load_def)

lemma list_elem_upd_both [simp]:
  fixes n :: list_elem
  shows "n\<lparr>le_prev := a, le_next := b\<rparr> = \<lparr>le_prev = a, le_next = b\<rparr>"
  by (cases n) simp

lemmas field_defs = get_prev_def get_next_def set_prev_def set_next_def

lemma wf_seq_cong: "(\<And>x. x \<in> set ns \<Longrightarrow> h x = h' x) \<Longrightarrow> wf_seq h ns = wf_seq h' ns"
  using chain_cong [of ns h h'] by (auto simp: wf_seq_def)

lemma dll_cong: "(\<And>x. x \<in> set (nodes l xs) \<Longrightarrow> h x = h' x) \<Longrightarrow> dll h l xs = dll h' l xs"
  unfolding dll_def by (rule wf_seq_cong)

lemma dll_NULL: "dll h l xs \<Longrightarrow> l \<noteq> NULL"
  by (auto simp: dll_def wf_seq_def nodes_def head_of_def)

lemma list_end_dll [simp]: "l \<noteq> NULL \<Longrightarrow> list_end l = Some (tail_of l)"
  by (simp add: list_end_def)

lemma wf_seq_node:
  assumes "wf_seq h (as @ x # bs)"
  shows "h x = Some \<lparr>le_prev = last (NULL # as), le_next = hd (bs @ [NULL])\<rparr>" "x \<noteq> NULL"
  using assms by (auto simp: wf_seq_def chain_append)

lemma wf_seq_last_NULL: "wf_seq h (as @ bs) \<Longrightarrow> (last (NULL # as) = NULL) = (as = [])"
  by (cases as rule: rev_cases) (auto simp: wf_seq_def)

lemma wf_seq_hd_NULL: "wf_seq h (as @ bs) \<Longrightarrow> (hd (bs @ [NULL]) = NULL) = (bs = [])"
  by (cases bs) (auto simp: wf_seq_def)

lemma seq_is_head: "wf_seq h (as @ x # bs) \<Longrightarrow> is_head h x = Some (as = [] \<and> bs \<noteq> [])"
  using wf_seq_node [of h as x bs] wf_seq_last_NULL [of h as "x # bs"]
    wf_seq_hd_NULL [of h "as @ [x]" bs]
  by (auto simp: is_head_def split: if_splits)

lemma seq_is_interior: "wf_seq h (as @ x # bs) \<Longrightarrow> is_interior h x = Some (as \<noteq> [] \<and> bs \<noteq> [])"
  using wf_seq_node [of h as x bs] wf_seq_last_NULL [of h as "x # bs"]
    wf_seq_hd_NULL [of h "as @ [x]" bs]
  by (auto simp: is_interior_def split: if_splits)

lemma seq_is_tail: "wf_seq h (as @ x # bs) \<Longrightarrow> is_tail h x = Some (as \<noteq> [] \<and> bs = [])"
  using wf_seq_node [of h as x bs] wf_seq_last_NULL [of h as "x # bs"]
    wf_seq_hd_NULL [of h "as @ [x]" bs]
  by (auto simp: is_tail_def split: if_splits)

lemma seq_next: "wf_seq h (as @ x # y # bs) \<Longrightarrow> list_next h x = Some y"
  using wf_seq_node [of h as x "y # bs"]
  by (simp add: list_next_def seq_is_head seq_is_interior get_next_def)

lemma seq_prev: "wf_seq h (as @ x # y # bs) \<Longrightarrow> list_prev h y = Some x"
  using wf_seq_node [of h "as @ [x]" y "bs"] seq_is_tail [of h "as @ [x]" y "bs"]
    seq_is_interior [of h "as @ [x]" y "bs"]
  by (simp add: list_prev_def get_prev_def)

text \<open>Insertion, removal and splicing on sequences.\<close>

lemma seq_insert:
  assumes wf: "wf_seq h (as @ p # b # bs)" and e: "e \<notin> set (as @ p # b # bs)" "e \<noteq> NULL" "h e \<noteq> None"
  obtains h' where "list_insert h b e = Some h'" "wf_seq h' (as @ p # e # b # bs)"
    "\<And>x. x \<notin> {p, e, b} \<Longrightarrow> h' x = h x"
proof -
  let ?B = "\<lparr>le_prev = e, le_next = hd (bs @ [NULL])\<rparr>"
  let ?P = "\<lparr>le_prev = last (NULL # as), le_next = e\<rparr>"
  let ?E = "\<lparr>le_prev = p, le_next = b\<rparr>"
  let ?h = "h(e \<mapsto> ?E, p \<mapsto> ?P, b \<mapsto> ?B)"
  note nb = wf_seq_node [of h "as @ [p]" b bs] and np = wf_seq_node [of h as p "b # bs"]
  have d: "p \<noteq> NULL" "b \<noteq> NULL" "p \<noteq> b" "e \<noteq> p" "e \<noteq> b"
    using wf e by (auto simp: wf_seq_def)
  obtain n where n: "h e = Some n" using e by blast
  have "list_insert h b e = Some ?h"
    using wf e d n nb np seq_is_interior [of h "as @ [p]" b bs] seq_is_tail [of h "as @ [p]" b bs]
    by (auto simp: list_insert_def field_defs fun_upd_twist)
  moreover have "wf_seq ?h (as @ p # e # b # bs)"
    using wf e d by (auto simp: wf_seq_def chain_append)
  ultimately show ?thesis using that by simp
qed

lemma seq_remove:
  assumes wf: "wf_seq h (as @ p # e # n # bs)"
  obtains h' where "list_remove h e = Some (h', n)" "wf_seq h' (as @ p # n # bs)"
    "\<And>x. x \<notin> {p, n} \<Longrightarrow> h' x = h x"
proof -
  let ?P = "\<lparr>le_prev = last (NULL # as), le_next = n\<rparr>"
  let ?N = "\<lparr>le_prev = p, le_next = hd (bs @ [NULL])\<rparr>"
  let ?h = "h(p \<mapsto> ?P, n \<mapsto> ?N)"
  note np = wf_seq_node [of h as p "e # n # bs"] and ne = wf_seq_node [of h "as @ [p]" e "n # bs"]
    and nn = wf_seq_node [of h "as @ [p, e]" n bs]
  have d: "p \<noteq> NULL" "e \<noteq> NULL" "n \<noteq> NULL" "p \<noteq> e" "e \<noteq> n" "p \<noteq> n"
    using wf by (auto simp: wf_seq_def)
  have "list_remove h e = Some (?h, n)"
    using wf d np ne nn seq_is_interior [of h "as @ [p]" e "n # bs"]
    by (auto simp: list_remove_def field_defs)
  moreover have "wf_seq ?h (as @ p # n # bs)"
    using wf d by (auto simp: wf_seq_def chain_append)
  ultimately show ?thesis using that by simp
qed

text \<open>Moving one element of a sequence back in front of an earlier one.\<close>

lemma seq_splice_back:
  assumes wf: "wf_seq h (as @ p # ms @ x # y # bs)" and ms: "ms \<noteq> []"
  obtains h' where "list_splice h (hd ms) x y = Some h'" "wf_seq h' (as @ p # x # ms @ y # bs)"
    "\<And>z. z \<notin> set (p # ms @ [x, y]) \<Longrightarrow> h' z = h z"
proof -
  obtain b ms' where b: "ms = b # ms'" using ms by (cases ms) auto
  let ?X = "\<lparr>le_prev = p, le_next = b\<rparr>"
  let ?P = "\<lparr>le_prev = last (NULL # as), le_next = x\<rparr>"
  let ?Y = "\<lparr>le_prev = last ms, le_next = hd (bs @ [NULL])\<rparr>"
  note np = wf_seq_node [of h as p "ms @ x # y # bs"]
    and nb = wf_seq_node [of h "as @ [p]" b "ms' @ x # y # bs"]
    and nx = wf_seq_node [of h "as @ p # ms" x "y # bs"]
    and ny = wf_seq_node [of h "as @ p # ms @ [x]" y "bs"]
    and pv = seq_prev [of h "as @ p # ms" x y bs]
    and ib = seq_is_interior [of h "as @ [p]" b "ms' @ x # y # bs"]
      seq_is_tail [of h "as @ [p]" b "ms' @ x # y # bs"]
    and ix = seq_is_interior [of h "as @ p # ms" x "y # bs"]
  have d: "distinct (as @ p # ms @ x # y # bs)" "NULL \<notin> set (as @ p # ms @ x # y # bs)"
    using wf by (simp_all add: wf_seq_def)
  show ?thesis
  proof (cases ms' rule: rev_cases)
    case Nil
    let ?h = "h(x \<mapsto> ?X, p \<mapsto> ?P, y \<mapsto> ?Y, b \<mapsto> \<lparr>le_prev = x, le_next = y\<rparr>)"
    have "list_splice h (hd ms) x y = Some ?h"
      using wf d np nb nx ny pv ib ix Nil
      by (auto simp: list_splice_def field_defs b fun_upd_twist)
    moreover have "wf_seq ?h (as @ p # x # ms @ y # bs)"
      using wf d Nil by (auto simp: wf_seq_def chain_append b)
    ultimately show ?thesis using that b by simp
  next
    case (snoc ms2 q)
    let ?h = "h(x \<mapsto> ?X, p \<mapsto> ?P, y \<mapsto> ?Y, b \<mapsto> \<lparr>le_prev = x, le_next = hd (ms2 @ [q])\<rparr>,
      q \<mapsto> \<lparr>le_prev = last (b # ms2), le_next = y\<rparr>)"
    have nq: "h q = Some \<lparr>le_prev = last (b # ms2), le_next = x\<rparr>"
      using wf_seq_node [of h "as @ p # b # ms2" q "x # y # bs"] wf snoc b by simp
    have "list_splice h (hd ms) x y = Some ?h"
      using wf d np nb nx ny pv ib ix nq snoc
      by (auto simp: list_splice_def field_defs b fun_upd_twist)
    moreover have "wf_seq ?h (as @ p # x # ms @ y # bs)"
      using wf d snoc by (cases ms2) (auto simp: wf_seq_def chain_append b)
    ultimately show ?thesis using that b snoc by simp
  qed
qed

text \<open>Moving a whole range from one sequence to another.\<close>

lemma seq_splice_across:
  assumes wf: "wf_seq h (as @ p # fs @ l # bs)" and fs: "fs \<noteq> []"
    and wf2: "wf_seq h (cs @ q # b # ds)"
    and dj: "set (as @ p # fs @ l # bs) \<inter> set (cs @ q # b # ds) = {}"
  obtains h' where "list_splice h b (hd fs) l = Some h'" "wf_seq h' (as @ p # l # bs)"
    "wf_seq h' (cs @ q # fs @ b # ds)"
    "\<And>z. z \<notin> set (p # fs @ [l, q, b]) \<Longrightarrow> h' z = h z"
proof -
  let ?P = "\<lparr>le_prev = last (NULL # as), le_next = l\<rparr>"
  let ?L = "\<lparr>le_prev = p, le_next = hd (bs @ [NULL])\<rparr>"
  let ?Q = "\<lparr>le_prev = last (NULL # cs), le_next = hd fs\<rparr>"
  let ?B = "\<lparr>le_prev = last fs, le_next = hd (ds @ [NULL])\<rparr>"
  note np = wf_seq_node [of h as p "fs @ l # bs"]
    and nl = wf_seq_node [of h "as @ p # fs" l bs]
    and nq = wf_seq_node [of h cs q "b # ds"]
    and nb = wf_seq_node [of h "cs @ [q]" b ds]
    and ib = seq_is_interior [of h "cs @ [q]" b ds] seq_is_tail [of h "cs @ [q]" b ds]
  have d: "distinct (as @ p # fs @ l # bs)" "NULL \<notin> set (as @ p # fs @ l # bs)"
    "distinct (cs @ q # b # ds)" "NULL \<notin> set (cs @ q # b # ds)"
    using wf wf2 by (simp_all add: wf_seq_def)
  have nf: "hd fs \<noteq> l" using d fs by (cases fs) auto
  have pv: "list_prev h l = Some (last fs)"
    using seq_prev [of h "as @ p # butlast fs" "last fs" l bs] wf fs
    by (cases fs rule: rev_cases) auto
  obtain f fs' where f: "fs = f # fs'" using fs by (cases fs) auto
  have nfst: "h f = Some \<lparr>le_prev = p, le_next = hd (fs' @ [l])\<rparr>" "is_interior h f = Some True"
    using wf_seq_node [of h "as @ [p]" f "fs' @ l # bs"]
      seq_is_interior [of h "as @ [p]" f "fs' @ l # bs"] wf f
    by (cases fs'; simp)+
  show ?thesis
  proof (cases fs' rule: rev_cases)
    case Nil
    let ?h = "h(p \<mapsto> ?P, l \<mapsto> ?L, q \<mapsto> ?Q, b \<mapsto> ?B, f \<mapsto> \<lparr>le_prev = q, le_next = b\<rparr>)"
    have "list_splice h b (hd fs) l = Some ?h"
      using wf wf2 d dj np nl nq nb ib pv nf nfst Nil
      by (auto simp: list_splice_def field_defs f fun_upd_twist)
    moreover have "wf_seq ?h (as @ p # l # bs)" "wf_seq ?h (cs @ q # fs @ b # ds)"
      using wf wf2 d dj f Nil by (auto simp: wf_seq_def chain_append)
    ultimately show ?thesis using that f by simp
  next
    case (snoc fs2 g)
    let ?h = "h(p \<mapsto> ?P, l \<mapsto> ?L, q \<mapsto> ?Q, b \<mapsto> ?B,
      f \<mapsto> \<lparr>le_prev = q, le_next = hd (fs2 @ [g])\<rparr>, g \<mapsto> \<lparr>le_prev = last (f # fs2), le_next = b\<rparr>)"
    have ng: "h g = Some \<lparr>le_prev = last (f # fs2), le_next = l\<rparr>" "is_interior h g = Some True"
      using wf_seq_node [of h "as @ p # f # fs2" g "l # bs"]
        seq_is_interior [of h "as @ p # f # fs2" g "l # bs"] wf f snoc by simp_all
    have eq: "list_splice h b (hd fs) l = Some ?h"
      using wf wf2 d dj np nl nq nb ib pv nf nfst ng snoc
      by (auto simp: list_splice_def field_defs f fun_upd_twist)
    define h2 where "h2 = ?h"
    have ne: "distinct [p, l, q, b, f, g]" using d dj f snoc by auto
    then have look: "h2 p = Some ?P" "h2 l = Some ?L" "h2 q = Some ?Q" "h2 b = Some ?B"
      "h2 f = Some \<lparr>le_prev = q, le_next = hd (fs2 @ [g])\<rparr>"
      "h2 g = Some \<lparr>le_prev = last (f # fs2), le_next = b\<rparr>"
      by (simp_all add: h2_def)
    have c: "chain h2 r zs t = chain h r zs t" if "set zs \<inter> {p, l, q, b, f, g} = {}" for r zs t
      using that by (intro chain_cong) (auto simp: h2_def)
    have s: "set as \<inter> {p, l, q, b, f, g} = {}" "set bs \<inter> {p, l, q, b, f, g} = {}"
      "set cs \<inter> {p, l, q, b, f, g} = {}" "set ds \<inter> {p, l, q, b, f, g} = {}"
      "set fs2 \<inter> {p, l, q, b, f, g} = {}"
      using d dj f snoc by auto
    have "chain h2 NULL (as @ p # l # bs) NULL"
      using wf f snoc by (simp add: wf_seq_def chain_append c s look)
    then have "wf_seq h2 (as @ p # l # bs)" using d by (auto simp: wf_seq_def)
    moreover have "chain h2 NULL (cs @ q # fs @ b # ds) NULL"
      using wf wf2 f snoc by (simp add: wf_seq_def chain_append c s look hd_append)
    then have "wf_seq h2 (cs @ q # fs @ b # ds)" using d dj by (auto simp: wf_seq_def)
    moreover have "h2 z = h z" if "z \<notin> set (p # fs @ [l, q, b])" for z
      using that f snoc by (simp add: h2_def)
    ultimately show ?thesis using that [of h2] eq by (simp add: h2_def)
  qed
qed

section \<open>The operations on a list\<close>

lemma dll_distinct: "dll h l xs \<Longrightarrow> distinct xs"
  by (simp add: dll_def wf_seq_def nodes_def)

lemma dll_init:
  assumes "l \<noteq> NULL" "h (head_of l) \<noteq> None" "h (tail_of l) \<noteq> None"
  obtains h' where "list_init h l = Some h'" "dll h' l []"
    "\<And>x. x \<notin> {head_of l, tail_of l} \<Longrightarrow> h' x = h x"
proof -
  have d: "head_of l \<noteq> NULL" "tail_of l \<noteq> NULL" "head_of l \<noteq> tail_of l"
    using assms by (simp_all add: head_of_def tail_of_def)
  have "list_init h l = Some (h(head_of l \<mapsto> \<lparr>le_prev = NULL, le_next = tail_of l\<rparr>,
      tail_of l \<mapsto> \<lparr>le_prev = head_of l, le_next = NULL\<rparr>))"
    using assms d by (auto simp: list_init_def field_defs fun_upd_twist)
  with d that show ?thesis
    by (simp add: dll_def wf_seq_def nodes_def)
qed

lemma dll_begin: "dll h l xs \<Longrightarrow> list_begin h l = Some (hd (xs @ [tail_of l]))"
  using wf_seq_node [of h "[]" "head_of l" "xs @ [tail_of l]"] dll_NULL [of h l xs]
  by (simp add: dll_def nodes_def list_begin_def get_next_def) (simp add: hd_append)

lemma dll_rbegin: "dll h l xs \<Longrightarrow> list_rbegin h l = Some (last (head_of l # xs))"
  using wf_seq_node [of h "head_of l # xs" "tail_of l" "[]"] dll_NULL [of h l xs]
  by (simp add: dll_def nodes_def list_rbegin_def get_prev_def)

lemma dll_tail_notin: "dll h l xs \<Longrightarrow> tail_of l \<notin> set xs \<and> head_of l \<notin> set xs \<and> NULL \<notin> set xs"
  by (auto simp: dll_def wf_seq_def nodes_def)

lemma dll_empty: "dll h l xs \<Longrightarrow> list_empty h l = Some (xs = [])"
  using dll_tail_notin [of h l xs]
  by (cases xs) (auto simp: list_empty_def dll_begin dll_NULL)

lemma dll_front: "dll h l xs \<Longrightarrow> list_front h l = (if xs = [] then None else Some (hd xs))"
  using dll_begin [of h l xs] dll_NULL [of h l xs]
  by (simp add: list_front_def dll_empty list_begin_def)

lemma dll_back: "dll h l xs \<Longrightarrow> list_back h l = (if xs = [] then None else Some (last xs))"
  using dll_rbegin [of h l xs] dll_NULL [of h l xs]
  by (simp add: list_back_def dll_empty list_rbegin_def)

lemma dll_next: "dll h l (as @ x # bs) \<Longrightarrow> list_next h x = Some (hd (bs @ [tail_of l]))"
  using seq_next [of h "head_of l # as" x "hd (bs @ [tail_of l])" "tl (bs @ [tail_of l])"]
  by (simp add: dll_def nodes_def)

lemma dll_prev: "dll h l (as @ x # bs) \<Longrightarrow> list_prev h x = Some (last (head_of l # as))"
  using seq_prev [of h "butlast (head_of l # as)" "last (head_of l # as)" x "bs @ [tail_of l]"]
  by (cases as rule: rev_cases) (auto simp: dll_def nodes_def)

lemma dll_insert:
  assumes "dll h l (as @ bs)" "e \<notin> set (nodes l (as @ bs))" "e \<noteq> NULL" "h e \<noteq> None"
  obtains h' where "list_insert h (hd (bs @ [tail_of l])) e = Some h'" "dll h' l (as @ e # bs)"
    "\<And>x. x \<notin> set (e # nodes l (as @ bs)) \<Longrightarrow> h' x = h x"
proof -
  let ?as = "butlast (head_of l # as)" and ?p = "last (head_of l # as)"
    and ?b = "hd (bs @ [tail_of l])" and ?bs = "tl (bs @ [tail_of l])"
  have eq: "?as @ ?p # ys = head_of l # as @ ys" for ys
    by (cases as rule: rev_cases) auto
  have eq2: "?b # ?bs = bs @ [tail_of l]" by simp
  have w: "wf_seq h (?as @ ?p # ?b # ?bs)"
    using assms(1) by (simp only: eq eq2 dll_def nodes_def append_assoc)
  have n: "e \<notin> set (?as @ ?p # ?b # ?bs)"
    using assms(2) by (simp only: eq eq2 nodes_def append_assoc not_False_eq_True)
  obtain h' where h': "list_insert h ?b e = Some h'" and w': "wf_seq h' (?as @ ?p # e # ?b # ?bs)"
    and fr: "\<And>x. x \<notin> {?p, e, ?b} \<Longrightarrow> h' x = h x"
    using seq_insert [OF w n assms(3,4)] by blast
  have sub: "{?p, e, ?b} \<subseteq> set (e # nodes l (as @ bs))"
    by (cases as rule: rev_cases; cases bs) (auto simp: nodes_def)
  show ?thesis
  proof (rule that [OF h'])
    show "dll h' l (as @ e # bs)"
      using w' by (simp only: eq eq2 dll_def nodes_def append_assoc append_Cons)
    show "h' x = h x" if "x \<notin> set (e # nodes l (as @ bs))" for x
      using that sub by (intro fr) blast
  qed
qed

lemma dll_push_front:
  assumes "dll h l xs" "e \<notin> set (nodes l xs)" "e \<noteq> NULL" "h e \<noteq> None"
  obtains h' where "list_push_front h l e = Some h'" "dll h' l (e # xs)"
    "\<And>x. x \<notin> set (e # nodes l xs) \<Longrightarrow> h' x = h x"
proof -
  obtain h' where "list_insert h (hd (xs @ [tail_of l])) e = Some h'" "dll h' l (e # xs)"
    "\<And>x. x \<notin> set (e # nodes l xs) \<Longrightarrow> h' x = h x"
    by (rule dll_insert [of h l "[]" xs e]) (use assms in simp_all)
  with that dll_begin [OF assms(1)] show ?thesis by (simp add: list_push_front_def)
qed

lemma dll_push_back:
  assumes "dll h l xs" "e \<notin> set (nodes l xs)" "e \<noteq> NULL" "h e \<noteq> None"
  obtains h' where "list_push_back h l e = Some h'" "dll h' l (xs @ [e])"
    "\<And>x. x \<notin> set (e # nodes l xs) \<Longrightarrow> h' x = h x"
proof -
  obtain h' where "list_insert h (tail_of l) e = Some h'" "dll h' l (xs @ [e])"
    "\<And>x. x \<notin> set (e # nodes l xs) \<Longrightarrow> h' x = h x"
    by (rule dll_insert [of h l xs "[]" e]) (use assms in simp_all)
  with that dll_NULL [OF assms(1)] show ?thesis by (simp add: list_push_back_def)
qed

lemma dll_remove:
  assumes "dll h l (as @ e # bs)"
  obtains h' where "list_remove h e = Some (h', hd (bs @ [tail_of l]))" "dll h' l (as @ bs)"
    "\<And>x. x \<notin> set (nodes l (as @ bs)) \<Longrightarrow> h' x = h x"
proof -
  let ?as = "butlast (head_of l # as)" and ?p = "last (head_of l # as)"
    and ?b = "hd (bs @ [tail_of l])" and ?bs = "tl (bs @ [tail_of l])"
  have eq: "?as @ ?p # ys = head_of l # as @ ys" for ys
    by (cases as rule: rev_cases) auto
  have eq2: "?b # ?bs = bs @ [tail_of l]" by simp
  have w: "wf_seq h (?as @ ?p # e # ?b # ?bs)"
    using assms(1) by (simp only: eq eq2 dll_def nodes_def append_assoc append_Cons)
  obtain h' where h': "list_remove h e = Some (h', ?b)" and w': "wf_seq h' (?as @ ?p # ?b # ?bs)"
    and fr: "\<And>x. x \<notin> {?p, ?b} \<Longrightarrow> h' x = h x"
    using seq_remove [OF w] by blast
  have sub: "{?p, ?b} \<subseteq> set (nodes l (as @ bs))"
    by (cases as rule: rev_cases; cases bs) (auto simp: nodes_def)
  show ?thesis
  proof (rule that [OF h'])
    show "dll h' l (as @ bs)"
      using w' by (simp only: eq eq2 dll_def nodes_def append_assoc)
    show "h' x = h x" if "x \<notin> set (nodes l (as @ bs))" for x
      using that sub by (intro fr) blast
  qed
qed

lemma dll_pop_front:
  assumes "dll h l (x # xs)"
  obtains h' where "list_pop_front h l = Some (h', x)" "dll h' l xs"
    "\<And>z. z \<notin> set (nodes l xs) \<Longrightarrow> h' z = h z"
proof -
  obtain h' where "list_remove h x = Some (h', hd (xs @ [tail_of l]))" "dll h' l xs"
    "\<And>z. z \<notin> set (nodes l xs) \<Longrightarrow> h' z = h z"
    by (rule dll_remove [of h l "[]" x xs]) (use assms in simp_all)
  with that dll_front [OF assms] show ?thesis by (simp add: list_pop_front_def)
qed

lemma dll_pop_back:
  assumes "dll h l (xs @ [x])"
  obtains h' where "list_pop_back h l = Some (h', x)" "dll h' l xs"
    "\<And>z. z \<notin> set (nodes l xs) \<Longrightarrow> h' z = h z"
proof -
  obtain h' where "list_remove h x = Some (h', tail_of l)" "dll h' l xs"
    "\<And>z. z \<notin> set (nodes l xs) \<Longrightarrow> h' z = h z"
    by (rule dll_remove [of h l xs x "[]"]) (use assms in simp_all)
  with that dll_back [OF assms] show ?thesis by (simp add: list_pop_back_def)
qed

lemma dll_pop_empty: "dll h l [] \<Longrightarrow> list_pop_front h l = None \<and> list_pop_back h l = None"
  by (simp add: list_pop_front_def list_pop_back_def dll_front dll_back)

lemma list_size_loop_seq:
  "wf_seq h (as @ xs @ t # bs) \<Longrightarrow>
   list_size_loop h (hd (xs @ [t])) t (u32 c) = Some (u32 (c + length xs))"
proof (induction xs arbitrary: as c)
  case Nil
  then show ?case by (subst list_size_loop.simps) simp
next
  case (Cons x xs)
  have "x \<noteq> t" using Cons.prems by (auto simp: wf_seq_def)
  moreover have "list_next h x = Some (hd (xs @ [t]))"
    using seq_next [of h as x "hd (xs @ [t])" "tl (xs @ [t]) @ bs"] Cons.prems by (cases xs) auto
  ultimately show ?case
    using Cons.IH [of "as @ [x]" "Suc c"] Cons.prems
    by (subst list_size_loop.simps) simp
qed

lemma dll_size: "dll h l xs \<Longrightarrow> list_size h l = Some (u32 (length xs))"
  using list_size_loop_seq [of h "[head_of l]" xs "tail_of l" "[]" 0] dll_begin [of h l xs]
    dll_NULL [of h l xs]
  by (simp add: list_size_def dll_def nodes_def)

subsection \<open>Reversal\<close>

text \<open>What the loop of \<^verbatim>\<open>list_reverse\<close> does to an element: its two links change places.\<close>

definition flip :: "list_elem \<Rightarrow> list_elem" where
  "flip n = \<lparr>le_prev = le_next n, le_next = le_prev n\<rparr>"

definition flip_on :: "ptr set \<Rightarrow> heap \<Rightarrow> heap" where
  "flip_on A h = (\<lambda>x. if x \<in> A then map_option flip (h x) else h x)"

lemma flip_on_empty [simp]: "flip_on {} h = h"
  by (simp add: flip_on_def)

lemma swap_links_self:
  "e \<noteq> NULL \<Longrightarrow> h e = Some n \<Longrightarrow> swap_links h (Prev_of e) (Next_of e) = Some (h(e \<mapsto> flip n))"
  by (cases n) (simp add: swap_links_def field_defs flip_def)

lemma list_reverse_loop_chain:
  "chain h p xs t \<Longrightarrow> distinct (xs @ [t]) \<Longrightarrow> NULL \<notin> set xs \<Longrightarrow>
   list_reverse_loop h (hd (xs @ [t])) t = Some (flip_on (set xs) h)"
proof (induction xs arbitrary: p h)
  case Nil
  then show ?case by (subst list_reverse_loop.simps) simp
next
  case (Cons x xs)
  let ?h = "h(x \<mapsto> flip (the (h x)))"
  have hx: "h x = Some \<lparr>le_prev = p, le_next = hd (xs @ [t])\<rparr>" using Cons.prems by simp
  have c: "chain ?h x xs t" using Cons.prems by simp
  have IH: "list_reverse_loop ?h (hd (xs @ [t])) t = Some (flip_on (set xs) ?h)"
    by (rule Cons.IH [OF c]) (use Cons.prems in auto)
  have eq: "flip_on (set xs) ?h = flip_on (set (x # xs)) h"
    using Cons.prems hx by (auto simp: flip_on_def)
  have "get_prev ?h x = Some (hd (xs @ [t]))" and "x \<noteq> t" and "x \<noteq> NULL"
    using hx Cons.prems by (auto simp: get_prev_def flip_def)
  then show ?case
    using IH hx by (subst list_reverse_loop.simps) (use eq in \<open>simp add: swap_links_self\<close>)
qed

lemma chain_flip:
  "chain h p xs q \<Longrightarrow> distinct xs \<Longrightarrow> set xs \<subseteq> A \<Longrightarrow> chain (flip_on A h) q (rev xs) p"
proof (induction xs arbitrary: p)
  case (Cons x xs)
  then show ?case
    by (cases xs) (auto simp: chain_append flip_on_def flip_def last_rev hd_rev)
qed simp

lemma seq_reverse:
  assumes wf: "wf_seq h (a # xs @ [b])" and xs: "xs \<noteq> []"
  obtains h2 h3 where
    "swap_links (flip_on (set xs) h) (Next_of a) (Prev_of b) = Some h2"
    "get_next h2 a = Some (last xs)" "get_prev h2 b = Some (hd xs)"
    "swap_links h2 (Prev_of (last xs)) (Next_of (hd xs)) = Some h3"
    "wf_seq h3 (a # rev xs @ [b])" "\<And>x. x \<notin> set (a # xs @ [b]) \<Longrightarrow> h3 x = h x"
proof -
  let ?A = "\<lparr>le_prev = NULL, le_next = last xs\<rparr>" and ?B = "\<lparr>le_prev = hd xs, le_next = NULL\<rparr>"
  define h1 where "h1 = flip_on (set xs) h"
  let ?h2 = "h1(a \<mapsto> ?A, b \<mapsto> ?B)"
  have d: "distinct (a # xs @ [b])" "NULL \<notin> set (a # xs @ [b])"
    using wf by (simp_all add: wf_seq_def)
  have hab: "h1 a = Some \<lparr>le_prev = NULL, le_next = hd xs\<rparr>" "h1 b = Some \<lparr>le_prev = last xs, le_next = NULL\<rparr>"
    using wf xs d by (auto simp: h1_def flip_on_def wf_seq_def chain_append)
  have c1: "chain h1 b (rev xs) a"
    using wf d chain_flip [of h a xs b "set xs"] by (simp add: h1_def wf_seq_def chain_append)
  have sw: "swap_links h1 (Next_of a) (Prev_of b) = Some ?h2"
    using hab d by (auto simp: swap_links_def field_defs fun_upd_twist)
  have gn: "get_next ?h2 a = Some (last xs)" "get_prev ?h2 b = Some (hd xs)"
    using d by (auto simp: field_defs)
  have fr: "h1 x = h x" if "x \<notin> set (a # xs @ [b])" for x
    using that by (simp add: h1_def flip_on_def)
  obtain g rs where g: "rev xs = g # rs" using xs by (cases "rev xs") auto
  have dr: "distinct (g # rs)" "a \<notin> set (g # rs)" "b \<notin> set (g # rs)" "NULL \<notin> set (g # rs)" "a \<noteq> b"
    using d unfolding g [symmetric] by auto
  show ?thesis
  proof (cases rs rule: rev_cases)
    case Nil
    then have x: "xs = [g]" using g by (metis rev_singleton_conv)
    let ?h3 = "?h2(g \<mapsto> \<lparr>le_prev = a, le_next = b\<rparr>)"
    have "swap_links ?h2 (Prev_of (last xs)) (Next_of (hd xs)) = Some ?h3"
      using c1 x d by (auto simp: swap_links_def field_defs)
    moreover have "wf_seq ?h3 (a # rev xs @ [b])"
      using x d by (auto simp: wf_seq_def)
    ultimately show ?thesis using that sw gn fr x by (auto simp: h1_def)
  next
    case (snoc ms f)
    then have x: "xs = f # rev ms @ [g]" using g by (metis rev_rev_ident rev.simps(2) rev_append append_Cons append_Nil)
    let ?h3 = "?h2(g \<mapsto> \<lparr>le_prev = a, le_next = hd (ms @ [f])\<rparr>, f \<mapsto> \<lparr>le_prev = last (g # ms), le_next = b\<rparr>)"
    have "swap_links ?h2 (Prev_of (last xs)) (Next_of (hd xs)) = Some ?h3"
      using c1 x d g snoc by (auto simp: swap_links_def field_defs chain_append)
    moreover have "wf_seq ?h3 (a # rev xs @ [b])"
      using c1 x d g snoc by (auto simp: wf_seq_def chain_append hd_append)
    ultimately show ?thesis using that sw gn fr x by (auto simp: h1_def)
  qed
qed

lemma dll_reverse:
  assumes "dll h l xs"
  obtains h' where "list_reverse h l = Some h'" "dll h' l (rev xs)"
    "\<And>x. x \<notin> set (nodes l xs) \<Longrightarrow> h' x = h x"
proof (cases "xs = []")
  case True
  then show ?thesis using that assms by (simp add: list_reverse_def dll_empty)
next
  case False
  have w: "wf_seq h (head_of l # xs @ [tail_of l])" using assms by (simp add: dll_def nodes_def)
  have loop: "list_reverse_loop h (hd (xs @ [tail_of l])) (tail_of l) = Some (flip_on (set xs) h)"
    using w by (intro list_reverse_loop_chain [where p = "head_of l"]) (auto simp: wf_seq_def chain_append)
  have e: "list_empty h l = Some False" using dll_empty [OF assms] False by simp
  show ?thesis
  proof (rule seq_reverse [OF w False], goal_cases)
    case (1 h2 h3)
    then have "list_reverse h l = Some h3"
      using e loop dll_begin [OF assms] dll_NULL [OF assms] by (simp add: list_reverse_def)
    with 1 that show ?case by (simp add: dll_def nodes_def)
  qed
qed

section \<open>The list interface\<close>

text \<open>
  What the schedulers, semaphores and tables of the kernel rely on: a container that
  can be extended at the back and emptied from the front. \<open>repr h l xs\<close> says that the
  list \<open>l\<close> holds \<open>xs\<close> in the store \<open>h\<close>, \<open>avail h l xs e\<close> that \<open>e\<close> is a
  valid element that is not in the list.
\<close>

locale fifo_list =
  fixes repr :: "'h \<Rightarrow> 'l \<Rightarrow> 'e list \<Rightarrow> bool"
    and avail :: "'h \<Rightarrow> 'l \<Rightarrow> 'e list \<Rightarrow> 'e \<Rightarrow> bool"
    and push :: "'h \<Rightarrow> 'l \<Rightarrow> 'e \<Rightarrow> 'h option"
    and pop :: "'h \<Rightarrow> 'l \<Rightarrow> ('h \<times> 'e) option"
  assumes push_ok: "repr h l xs \<Longrightarrow> avail h l xs e \<Longrightarrow>
      \<exists>h'. push h l e = Some h' \<and> repr h' l (xs @ [e]) \<and>
        (\<forall>e'. e' \<noteq> e \<longrightarrow> avail h l xs e' \<longrightarrow> avail h' l (xs @ [e]) e')"
    and pop_ok: "repr h l (x # xs) \<Longrightarrow>
      \<exists>h'. pop h l = Some (h', x) \<and> repr h' l xs \<and> avail h' l xs x \<and>
        (\<forall>e. avail h l (x # xs) e \<longrightarrow> avail h' l xs e)"
    and pop_empty: "repr h l [] \<Longrightarrow> pop h l = None"
begin

lemma push_all_ok:
  "repr h l xs \<Longrightarrow> distinct es \<Longrightarrow> \<forall>e\<in>set es. avail h l xs e \<Longrightarrow>
   \<exists>h'. foldM (\<lambda>h e. push h l e) h es = Some h' \<and> repr h' l (xs @ es)"
proof (induction es arbitrary: h xs)
  case (Cons e es)
  then obtain h1 where "push h l e = Some h1" "repr h1 l (xs @ [e])"
    "\<forall>e'. e' \<noteq> e \<longrightarrow> avail h l xs e' \<longrightarrow> avail h1 l (xs @ [e]) e'"
    using push_ok [of h l xs e] by auto
  moreover from this Cons.prems have "\<forall>e'\<in>set es. avail h1 l (xs @ [e]) e'"
    by (metis distinct.simps(2) list.set_intros(2))
  ultimately show ?case using Cons.IH [of h1 "xs @ [e]"] Cons.prems by simp
qed simp

lemma drain_ok:
  "repr h l (es @ xs) \<Longrightarrow> \<exists>h'. unfoldM (\<lambda>h. pop h l) (length es) h = Some (h', es) \<and> repr h' l xs"
proof (induction es arbitrary: h)
  case (Cons e es)
  then obtain h1 where "pop h l = Some (h1, e)" "repr h1 l (es @ xs)"
    using pop_ok [of h l e "es @ xs"] by auto
  then show ?case using Cons.IH [of h1] by auto
qed simp

lemma fifo:
  "repr h l [] \<Longrightarrow> distinct es \<Longrightarrow> \<forall>e\<in>set es. avail h l [] e \<Longrightarrow>
   \<exists>h1 h2. foldM (\<lambda>h e. push h l e) h es = Some h1 \<and>
     unfoldM (\<lambda>h. pop h l) (length es) h1 = Some (h2, es) \<and> repr h2 l [] \<and> pop h2 l = None"
  using push_all_ok [of h l "[]" es] drain_ok [of _ l es "[]"] pop_empty by fastforce

end

text \<open>An element that a list at \<open>l\<close> can take: allocated, not null, and not one of its nodes.\<close>

definition avail :: "heap \<Rightarrow> ptr \<Rightarrow> ptr list \<Rightarrow> ptr \<Rightarrow> bool" where
  "avail h l xs e \<longleftrightarrow> e \<noteq> NULL \<and> h e \<noteq> None \<and> e \<notin> set (nodes l xs)"

interpretation kl: fifo_list dll avail list_push_back list_pop_front
proof unfold_locales
  fix h l xs e
  assume r: "dll h l xs" and a: "avail h l xs e"
  then obtain h' where h': "list_push_back h l e = Some h'" "dll h' l (xs @ [e])"
    and fr: "\<And>x. x \<notin> set (e # nodes l xs) \<Longrightarrow> h' x = h x"
    using dll_push_back [OF r, of e] by (auto simp: avail_def)
  have "avail h' l (xs @ [e]) e'" if "e' \<noteq> e" "avail h l xs e'" for e'
    using that fr [of e'] by (auto simp: avail_def nodes_def)
  with h' show "\<exists>h'. list_push_back h l e = Some h' \<and> dll h' l (xs @ [e]) \<and>
      (\<forall>e'. e' \<noteq> e \<longrightarrow> avail h l xs e' \<longrightarrow> avail h' l (xs @ [e]) e')" by blast
next
  fix h l x xs
  assume r: "dll h l (x # xs)"
  then obtain h' where h': "list_pop_front h l = Some (h', x)" "dll h' l xs"
    and fr: "\<And>z. z \<notin> set (nodes l xs) \<Longrightarrow> h' z = h z"
    using dll_pop_front [OF r] by blast
  have x: "x \<noteq> NULL" "h x \<noteq> None" "x \<notin> set (nodes l xs)"
    using r by (auto simp: dll_def wf_seq_def nodes_def)
  have "avail h' l xs e" if "avail h l (x # xs) e" for e
    using that fr [of e] by (auto simp: avail_def nodes_def)
  with h' x fr [of x] show "\<exists>h'. list_pop_front h l = Some (h', x) \<and> dll h' l xs \<and> avail h' l xs x \<and>
      (\<forall>e. avail h l (x # xs) e \<longrightarrow> avail h' l xs e)" by (auto simp: avail_def)
next
  show "list_pop_front h l = None" if "dll h l []" for h l
    using that dll_pop_empty by blast
qed

section \<open>Properties\<close>

text \<open>
  A kernel list is a first-in first-out queue. Appending any sequence of distinct free
  elements to an empty list and then popping as many from the front never faults, returns
  the elements in the order in which they were appended and leaves the list empty.
\<close>

theorem list_queue_fifo:
  assumes "dll h l []" "distinct es" "\<forall>e\<in>set es. avail h l [] e"
  shows "\<exists>h1 h2. foldM (\<lambda>h e. list_push_back h l e) h es = Some h1 \<and>
    unfoldM (\<lambda>h. list_pop_front h l) (length es) h1 = Some (h2, es) \<and> dll h2 l [] \<and> list_pop_front h2 l = None"
  using assms by (rule kl.fifo)

text \<open>A small heap: a list at 1000 with two elements, and two free elements.\<close>

definition demo_heap :: heap where
  "demo_heap = [1000 \<mapsto> \<lparr>le_prev = 0, le_next = 1008\<rparr>, 1008 \<mapsto> \<lparr>le_prev = 1000, le_next = 0\<rparr>,
     2000 \<mapsto> \<lparr>le_prev = 0, le_next = 16\<rparr>, 16 \<mapsto> \<lparr>le_prev = 2000, le_next = 32\<rparr>,
     32 \<mapsto> \<lparr>le_prev = 16, le_next = 2008\<rparr>, 2008 \<mapsto> \<lparr>le_prev = 32, le_next = 0\<rparr>,
     48 \<mapsto> \<lparr>le_prev = 0, le_next = 0\<rparr>, 64 \<mapsto> \<lparr>le_prev = 7, le_next = 9\<rparr>]"

lemmas demo_simps = demo_heap_def dll_def wf_seq_def nodes_def head_of_def tail_of_def avail_def

lemma list_queue_fifo_witness:
  "\<exists>h1 h2. foldM (\<lambda>h e. list_push_back h 1000 e) demo_heap [48, 64] = Some h1 \<and>
    unfoldM (\<lambda>h. list_pop_front h 1000) (length [48, 64 :: nat]) h1 = Some (h2, [48, 64]) \<and>
    dll h2 1000 [] \<and> list_pop_front h2 1000 = None"
  by (rule list_queue_fifo) (simp_all add: demo_simps)

text \<open>
  \<^verbatim>\<open>list_insert\<close> and \<^verbatim>\<open>list_remove\<close>. Inserting a free element before any position of a
  list puts it exactly there and changes no memory outside the list and the element;
  removing it again returns the element that follows it and gives back the original list.
\<close>

theorem list_insert_remove:
  assumes "dll h l (as @ bs)" "avail h l (as @ bs) e"
  shows "\<exists>h1 h2. list_insert h (hd (bs @ [tail_of l])) e = Some h1 \<and> dll h1 l (as @ e # bs) \<and>
    (\<forall>x. x \<notin> set (e # nodes l (as @ bs)) \<longrightarrow> h1 x = h x) \<and>
    list_remove h1 e = Some (h2, hd (bs @ [tail_of l])) \<and> dll h2 l (as @ bs)"
proof -
  have a: "e \<notin> set (nodes l (as @ bs))" "e \<noteq> NULL" "h e \<noteq> None" using assms(2) by (auto simp: avail_def)
  obtain h1 where h1: "list_insert h (hd (bs @ [tail_of l])) e = Some h1" "dll h1 l (as @ e # bs)"
    "\<And>x. x \<notin> set (e # nodes l (as @ bs)) \<Longrightarrow> h1 x = h x"
    using dll_insert [OF assms(1) a] by blast
  obtain h2 where "list_remove h1 e = Some (h2, hd (bs @ [tail_of l]))" "dll h2 l (as @ bs)"
    using dll_remove [OF h1(2)] by blast
  with h1 show ?thesis by blast
qed

lemma list_insert_remove_witness:
  "\<exists>h1 h2. list_insert demo_heap (hd ([32] @ [tail_of 2000])) 48 = Some h1 \<and> dll h1 2000 ([16] @ 48 # [32]) \<and>
    (\<forall>x. x \<notin> set (48 # nodes 2000 ([16] @ [32])) \<longrightarrow> h1 x = demo_heap x) \<and>
    list_remove h1 48 = Some (h2, hd ([32] @ [tail_of 2000])) \<and> dll h2 2000 ([16] @ [32])"
  by (rule list_insert_remove) (simp_all add: demo_simps)

text \<open>
  \<^verbatim>\<open>list_splice\<close>. Splicing a nonempty range out of one list and in front of any position of
  another, disjoint list moves exactly that range, keeps the order of everything else in
  both lists, and changes no other memory.
\<close>

theorem list_splice_moves:
  assumes "dll h l (xs @ ys @ zs)" "ys \<noteq> []" "dll h m (us @ vs)"
    "set (nodes l (xs @ ys @ zs)) \<inter> set (nodes m (us @ vs)) = {}"
  shows "\<exists>h'. list_splice h (hd (vs @ [tail_of m])) (hd ys) (hd (zs @ [tail_of l])) = Some h' \<and>
    dll h' l (xs @ zs) \<and> dll h' m (us @ ys @ vs) \<and>
    (\<forall>p. p \<notin> set (nodes l (xs @ ys @ zs)) \<union> set (nodes m (us @ vs)) \<longrightarrow> h' p = h p)"
proof -
  define a p where "a = butlast (head_of l # xs)" and "p = last (head_of l # xs)"
  define c q where "c = butlast (head_of m # us)" and "q = last (head_of m # us)"
  define z z' where "z = hd (zs @ [tail_of l])" and "z' = tl (zs @ [tail_of l])"
  define v v' where "v = hd (vs @ [tail_of m])" and "v' = tl (vs @ [tail_of m])"
  have e1: "a @ p # ws = head_of l # xs @ ws" for ws
    unfolding a_def p_def by (cases xs rule: rev_cases) auto
  have e2: "c @ q # ws = head_of m # us @ ws" for ws
    unfolding c_def q_def by (cases us rule: rev_cases) auto
  have e3: "z # z' = zs @ [tail_of l]" "v # v' = vs @ [tail_of m]" by (simp_all add: z_def z'_def v_def v'_def)
  note e = e1 e2 e3 dll_def nodes_def append_assoc
  have w1: "wf_seq h (a @ p # ys @ z # z')" using assms(1) by (simp only: e)
  have w2: "wf_seq h (c @ q # v # v')" using assms(3) by (simp only: e)
  have dj: "set (a @ p # ys @ z # z') \<inter> set (c @ q # v # v') = {}" using assms(4) by (simp only: e)
  obtain h' where h': "list_splice h v (hd ys) z = Some h'" "wf_seq h' (a @ p # z # z')"
    "wf_seq h' (c @ q # ys @ v # v')" and fr: "\<And>r. r \<notin> set (p # ys @ [z, q, v]) \<Longrightarrow> h' r = h r"
    using seq_splice_across [OF w1 assms(2) w2 dj] by blast
  have "set (p # ys @ [z, q, v]) \<subseteq> set (a @ p # ys @ z # z') \<union> set (c @ q # v # v')" by auto
  then have sub: "set (p # ys @ [z, q, v]) \<subseteq> set (nodes l (xs @ ys @ zs)) \<union> set (nodes m (us @ vs))"
    by (simp only: e)
  have "dll h' l (xs @ zs)" using h'(2) by (simp only: e)
  moreover have "dll h' m (us @ ys @ vs)" using h'(3) by (simp only: e)
  moreover have "\<forall>r. r \<notin> set (nodes l (xs @ ys @ zs)) \<union> set (nodes m (us @ vs)) \<longrightarrow> h' r = h r"
    using fr sub by blast
  ultimately show ?thesis using h'(1) unfolding z_def v_def by blast
qed

lemma list_splice_moves_witness:
  "\<exists>h'. list_splice demo_heap (hd ([] @ [tail_of 1000])) (hd [16, 32]) (hd ([] @ [tail_of 2000])) = Some h' \<and>
    dll h' 2000 ([] @ []) \<and> dll h' 1000 ([] @ [16, 32] @ []) \<and>
    (\<forall>p. p \<notin> set (nodes 2000 ([] @ [16, 32] @ [])) \<union> set (nodes 1000 ([] @ [])) \<longrightarrow> h' p = demo_heap p)"
  by (rule list_splice_moves) (simp_all add: demo_simps)

text \<open>
  \<^verbatim>\<open>list_reverse\<close> and \<^verbatim>\<open>list_size\<close>. Reversing a list in place gives the list with its
  elements in the opposite order and touches no other memory; the size is the number of
  elements, modulo the range of \<^verbatim>\<open>size_t\<close>, before and after.
\<close>

theorem list_reverse_reverses:
  assumes "dll h l xs"
  shows "\<exists>h'. list_reverse h l = Some h' \<and> dll h' l (rev xs) \<and>
    list_size h l = Some (u32 (length xs)) \<and> list_size h' l = Some (u32 (length xs)) \<and>
    (\<forall>x. x \<notin> set (nodes l xs) \<longrightarrow> h' x = h x)"
proof -
  obtain h' where "list_reverse h l = Some h'" "dll h' l (rev xs)" "\<And>x. x \<notin> set (nodes l xs) \<Longrightarrow> h' x = h x"
    using dll_reverse [OF assms] by blast
  moreover from this have "list_size h' l = Some (u32 (length xs))" using dll_size [of h' l "rev xs"] by simp
  ultimately show ?thesis using dll_size [OF assms] by blast
qed

lemma list_reverse_reverses_witness:
  "\<exists>h'. list_reverse demo_heap 2000 = Some h' \<and> dll h' 2000 (rev [16, 32]) \<and>
    list_size demo_heap 2000 = Some (u32 (length [16, 32 :: nat])) \<and>
    list_size h' 2000 = Some (u32 (length [16, 32 :: nat])) \<and>
    (\<forall>x. x \<notin> set (nodes 2000 [16, 32]) \<longrightarrow> h' x = demo_heap x)"
  by (rule list_reverse_reverses) (simp add: demo_simps)

end
