(* ===== verification/Ordered_Lists.thy ===== *)
theory Ordered_Lists
  imports Prelude
begin

text \<open>
  The order contract of the ordered list operations and the algorithms of
  \<^verbatim>\<open>lib/kernel/list.c\<close> on sequences: runs, merging, one pass of the natural merge sort,
  removal of adjacent duplicates, and the selection of an extreme element. The pointer
  programs are shown to implement these functions in \<open>Kernel_List_Sort\<close>; the facts on
  order, contents and stability are proved here once, for every comparison function that
  is a strict weak order.
\<close>

section \<open>Functions on sequences\<close>

fun ordered :: "('a \<Rightarrow> 'a \<Rightarrow> bool) \<Rightarrow> 'a list \<Rightarrow> bool" where
  "ordered lt (x # y # zs) = (\<not> lt y x \<and> ordered lt (y # zs))"
| "ordered lt _ = True"

fun split_run :: "('a \<Rightarrow> 'a \<Rightarrow> bool) \<Rightarrow> 'a list \<Rightarrow> 'a list \<times> 'a list" where
  "split_run lt (x # y # zs) =
     (if lt y x then ([x], y # zs) else let (r, s) = split_run lt (y # zs) in (x # r, s))"
| "split_run lt xs = (xs, [])"

fun runs :: "('a \<Rightarrow> 'a \<Rightarrow> bool) \<Rightarrow> 'a list \<Rightarrow> nat" where
  "runs lt (x # y # zs) = (if lt y x then Suc else id) (runs lt (y # zs))"
| "runs lt [x] = 1"
| "runs lt [] = 0"

fun merge :: "('a \<Rightarrow> 'a \<Rightarrow> bool) \<Rightarrow> 'a list \<Rightarrow> 'a list \<Rightarrow> 'a list" where
  "merge lt (a # as) (b # bs) =
     (if \<not> lt b a then a # merge lt as (b # bs) else b # merge lt (a # as) bs)"
| "merge lt [] bs = bs"
| "merge lt as [] = as"

lemma split_run_append: "split_run lt xs = (r, s) \<Longrightarrow> xs = r @ s"
  by (induction lt xs arbitrary: r rule: split_run.induct) (auto split: if_splits prod.splits)

lemma split_run_nonempty: "split_run lt xs = (r, s) \<Longrightarrow> xs \<noteq> [] \<Longrightarrow> r \<noteq> []"
  by (induction lt xs arbitrary: r rule: split_run.induct) (auto split: if_splits prod.splits)

lemma split_run_length: "split_run lt xs = (r, s) \<Longrightarrow> xs \<noteq> [] \<Longrightarrow> length s < length xs"
  using split_run_append [of lt xs r s] split_run_nonempty [of lt xs r s] by auto

text \<open>One pass over the list: pairs of adjacent runs are merged; the count is the number of runs output.\<close>

function sort_pass :: "('a \<Rightarrow> 'a \<Rightarrow> bool) \<Rightarrow> 'a list \<Rightarrow> 'a list \<times> nat" where
  "sort_pass lt xs =
     (if xs = [] then ([], 0)
      else let (as, rest) = split_run lt xs in
        if rest = [] then (as, 1)
        else let (bs, rest') = split_run lt rest; (ys, n) = sort_pass lt rest'
          in (merge lt as bs @ ys, Suc n))"
  by pat_completeness auto
termination
  by (relation "measure (\<lambda>(_, xs). length xs)") (auto dest!: split_run_length [OF sym] simp: less_trans)

declare sort_pass.simps [simp del]

fun unique :: "('a \<Rightarrow> 'a \<Rightarrow> bool) \<Rightarrow> 'a \<Rightarrow> 'a list \<Rightarrow> 'a list \<times> 'a list" where
  "unique lt x [] = ([x], [])"
| "unique lt x (y # ys) =
     (if \<not> lt x y \<and> \<not> lt y x
      then let (ks, ds) = unique lt x ys in (ks, y # ds)
      else let (ks, ds) = unique lt y ys in (x # ks, ds))"

section \<open>Facts that hold for every comparison\<close>

lemma ordered_runs: "ordered lt xs \<Longrightarrow> runs lt xs \<le> 1"
  by (induction lt xs rule: ordered.induct) auto

lemma runs_pos: "xs \<noteq> [] \<Longrightarrow> 0 < runs lt xs"
  by (induction lt xs rule: runs.induct) auto

lemma runs_le_length: "runs lt xs \<le> length xs"
  by (induction lt xs rule: runs.induct) auto

lemma runs_ordered: "runs lt xs \<le> 1 \<Longrightarrow> ordered lt xs"
proof (induction lt xs rule: ordered.induct)
  case (1 lt x y zs)
  have "0 < runs lt (y # zs)" by (simp add: runs_pos)
  then show ?case using 1 by (auto split: if_splits)
qed auto

lemma runs_append_le: "runs lt (xs @ ys) \<le> runs lt xs + runs lt ys"
proof (induction lt xs rule: runs.induct)
  case (2 lt x)
  then show ?case by (cases ys) auto
qed auto

lemma split_run_ordered: "split_run lt xs = (r, s) \<Longrightarrow> ordered lt r"
proof (induction lt xs arbitrary: r rule: split_run.induct)
  case (1 lt x y zs)
  show ?case
  proof (cases "lt y x")
    case False
    obtain r' s' where r': "split_run lt (y # zs) = (r', s')" by fastforce
    with False 1 have "ordered lt r'" "r = x # r'" by auto
    moreover have "hd r' = y" using split_run_append [OF r'] split_run_nonempty [OF r']
      by (cases r') auto
    ultimately show ?thesis using False by (cases r') auto
  qed (use 1 in auto)
qed auto

lemma split_run_runs: "split_run lt xs = (r, s) \<Longrightarrow> xs \<noteq> [] \<Longrightarrow> runs lt xs = Suc (runs lt s)"
  by (induction lt xs arbitrary: r rule: split_run.induct) (auto split: if_splits prod.splits)

lemma mset_merge [simp]: "mset (merge lt as bs) = mset as + mset bs"
  by (induction lt as bs rule: merge.induct) auto

lemma set_merge [simp]: "set (merge lt as bs) = set as \<union> set bs"
  using mset_merge [of lt as bs] by (metis set_mset_mset set_mset_union)

lemma mset_unique: "mset (fst (unique lt x xs)) + mset (snd (unique lt x xs)) = mset (x # xs)"
  by (induction lt x xs rule: unique.induct) (auto split: prod.splits)

lemma mset_sort_pass: "mset (fst (sort_pass lt xs)) = mset xs"
proof (induction lt xs rule: sort_pass.induct)
  case (1 lt xs)
  obtain as rest where s1: "split_run lt xs = (as, rest)" by fastforce
  obtain bs rest' where s2: "split_run lt rest = (bs, rest')" by fastforce
  show ?case
    using 1 [OF _ s1 [symmetric] _ _ s2 [symmetric]] s1 s2 split_run_append [OF s1] split_run_append [OF s2]
    by (subst sort_pass.simps) (auto split: prod.splits)
qed

section \<open>The contract of a comparison function\<close>

text \<open>
  A \<^verbatim>\<open>list_less_func\<close> must be a strict weak order: asymmetric, with a transitive
  "not less" relation.
\<close>

locale strict_weak_order =
  fixes lt :: "'a \<Rightarrow> 'a \<Rightarrow> bool"
  assumes asym: "lt x y \<Longrightarrow> \<not> lt y x"
    and neg_trans: "\<not> lt x y \<Longrightarrow> \<not> lt y z \<Longrightarrow> \<not> lt x z"
begin

lemma irrefl: "\<not> lt x x"
  using asym by blast

lemma trans: "lt x y \<Longrightarrow> lt y z \<Longrightarrow> lt x z"
  using asym neg_trans by blast

lemma ordered_Cons: "ordered lt (x # xs) \<longleftrightarrow> (\<forall>y\<in>set xs. \<not> lt y x) \<and> ordered lt xs"
proof (induction xs arbitrary: x)
  case (Cons y ys)
  then show ?case using neg_trans [of _ y x] by auto
qed simp

lemma ordered_iff: "ordered lt xs \<longleftrightarrow> sorted_wrt (\<lambda>x y. \<not> lt y x) xs"
  by (induction xs) (auto simp: ordered_Cons simp del: ordered.simps(1))

lemma ordered_append:
  "ordered lt (xs @ ys) \<longleftrightarrow> ordered lt xs \<and> ordered lt ys \<and> (\<forall>x\<in>set xs. \<forall>y\<in>set ys. \<not> lt y x)"
  by (auto simp: ordered_iff sorted_wrt_append)

lemma ordered_merge: "ordered lt as \<Longrightarrow> ordered lt bs \<Longrightarrow> ordered lt (merge lt as bs)"
proof (induction lt \<equiv> lt as bs rule: merge.induct)
  case (1 a as b bs)
  then show ?case
    using neg_trans [of _ b a] neg_trans [of _ a b] asym [of b a]
    by (auto simp: ordered_Cons simp del: ordered.simps(1))
qed auto

text \<open>On an ordered list the elements that \<open>unique\<close> keeps are strictly increasing.\<close>

lemma hd_unique: "fst (unique lt x xs) \<noteq> [] \<and> hd (fst (unique lt x xs)) = x"
  by (induction lt \<equiv> lt x xs rule: unique.induct) (auto split: prod.splits)

lemma set_unique: "set (fst (unique lt x xs)) \<subseteq> set (x # xs)"
  by (induction lt \<equiv> lt x xs rule: unique.induct) (auto split: prod.splits)

lemma sorted_unique: "ordered lt (x # xs) \<Longrightarrow> sorted_wrt lt (fst (unique lt x xs))"
proof (induction lt \<equiv> lt x xs rule: unique.induct)
  case (2 x y ys)
  show ?case
  proof (cases "\<not> lt x y \<and> \<not> lt y x")
    case True
    then show ?thesis using 2 by (auto simp: ordered_Cons simp del: ordered.simps(1) split: prod.splits)
  next
    case False
    have o: "ordered lt (y # ys)" "lt x y" using 2(3) False by auto
    have "\<forall>z\<in>set (y # ys). lt x z"
      using o neg_trans [of x _ y] by (auto simp: ordered_Cons simp del: ordered.simps(1))
    then show ?thesis using 2(2) [OF False] o set_unique [of y ys] False by (auto split: prod.splits)
  qed
qed simp

text \<open>Elements that compare equal keep their order: the merge, and the pass, are stable.\<close>

definition same :: "'a \<Rightarrow> 'a \<Rightarrow> bool" where
  "same x y \<longleftrightarrow> \<not> lt x y \<and> \<not> lt y x"

lemma merge_stable:
  "ordered lt as \<Longrightarrow> filter (same x) (merge lt as bs) = filter (same x) as @ filter (same x) bs"
proof (induction lt \<equiv> lt as bs rule: merge.induct)
  case (1 a as b bs)
  show ?case
  proof (cases "lt b a")
    case True
    have "\<not> same x a'" if "same x b" "a' \<in> set (a # as)" for a'
    proof -
      have "\<not> lt a' a" using that 1(3) irrefl by (auto simp: ordered_Cons simp del: ordered.simps(1))
      then have "lt b a'" using True neg_trans by blast
      then show ?thesis using that neg_trans [of b x a'] by (auto simp: same_def)
    qed
    then have "filter (same x) (a # as) = []" if "same x b"
      using that unfolding filter_empty_conv by blast
    then show ?thesis using True 1 by (cases "same x b") (auto split: if_splits)
  next
    case False
    then show ?thesis using 1 by (auto simp: ordered_Cons simp del: ordered.simps(1))
  qed
qed auto

lemma sort_pass_runs: "runs lt (fst (sort_pass lt xs)) \<le> snd (sort_pass lt xs)"
proof (induction lt \<equiv> lt xs rule: sort_pass.induct)
  case (1 xs)
  obtain as rest where s1: "split_run lt xs = (as, rest)" by fastforce
  obtain bs rest' where s2: "split_run lt rest = (bs, rest')" by fastforce
  have o: "ordered lt as" "ordered lt bs" using s1 s2 split_run_ordered by blast+
  have m: "runs lt (merge lt as bs @ ys) \<le> Suc (runs lt ys)" for ys
    using ordered_runs [OF ordered_merge [OF o]] runs_append_le [of lt "merge lt as bs" ys] by simp
  show ?case
  proof (cases "xs = [] \<or> rest = []")
    case True
    then show ?thesis using s1 ordered_runs [OF o(1)] by (subst (1 2) sort_pass.simps) auto
  next
    case False
    have "runs lt (fst (sort_pass lt rest')) \<le> snd (sort_pass lt rest')"
      using 1 [OF _ s1 [symmetric] _ _ s2 [symmetric]] False by auto
    then show ?thesis using False s1 s2 m [of "fst (sort_pass lt rest')"]
      by (subst (1 2) sort_pass.simps) (auto split: prod.splits intro: order_trans)
  qed
qed

lemma sort_pass_halves: "2 * snd (sort_pass lt xs) \<le> Suc (runs lt xs)"
proof (induction lt \<equiv> lt xs rule: sort_pass.induct)
  case (1 xs)
  obtain as rest where s1: "split_run lt xs = (as, rest)" by fastforce
  obtain bs rest' where s2: "split_run lt rest = (bs, rest')" by fastforce
  show ?case
  proof (cases "xs = [] \<or> rest = []")
    case True
    then show ?thesis using s1 runs_pos [of xs lt] by (subst sort_pass.simps) auto
  next
    case False
    then show ?thesis
      using 1 [OF _ s1 [symmetric] _ _ s2 [symmetric]] s1 s2 split_run_runs [OF s1] split_run_runs [OF s2]
      by (subst sort_pass.simps) (auto split: prod.splits)
  qed
qed

lemma sort_pass_stable: "filter (same x) (fst (sort_pass lt xs)) = filter (same x) xs"
proof (induction lt \<equiv> lt xs rule: sort_pass.induct)
  case (1 xs)
  obtain as rest where s1: "split_run lt xs = (as, rest)" by fastforce
  obtain bs rest' where s2: "split_run lt rest = (bs, rest')" by fastforce
  have eq: "xs = as @ rest" "rest = bs @ rest'" using s1 s2 split_run_append by blast+
  show ?case
    using 1 [OF _ s1 [symmetric] _ _ s2 [symmetric]] s1 s2 split_run_ordered [OF s1]
    by (subst sort_pass.simps) (auto split: prod.splits simp: merge_stable eq)
qed

lemma sort_pass_done: "snd (sort_pass lt xs) \<le> 1 \<Longrightarrow> ordered lt (fst (sort_pass lt xs))"
  using sort_pass_runs [of xs] by (intro runs_ordered) simp

lemma sort_pass_progress: "1 < snd (sort_pass lt xs) \<Longrightarrow> runs lt (fst (sort_pass lt xs)) < runs lt xs"
  using sort_pass_runs [of xs] sort_pass_halves [of xs] by simp

end

end
