(* ===== verification/Kernel_List_Sort.thy ===== *)
theory Kernel_List_Sort
  imports Kernel_List Ordered_Lists
begin

text \<open>
  The ordered operations of \<^verbatim>\<open>lib/kernel/list.c\<close> at pointer level: the in-place natural
  merge sort, ordered insertion, removal of duplicates and the extreme elements. The
  comparison function with its auxiliary data is the argument \<open>lt\<close>; the kernel's
  comparison functions read the structure an element is embedded in and never the links.
\<close>

type_synonym less_func = "ptr \<Rightarrow> ptr \<Rightarrow> bool"

section \<open>Operations\<close>

partial_function (option) is_sorted_loop :: "less_func \<Rightarrow> heap \<Rightarrow> ptr \<Rightarrow> ptr \<Rightarrow> bool option" where
  [code]: "is_sorted_loop lt h a b = do {
     a' \<leftarrow> list_next h a;
     if a' = b then Some True
     else do {
       p \<leftarrow> list_prev h a';
       if lt a' p then Some False else is_sorted_loop lt h a' b } }"

definition is_sorted :: "less_func \<Rightarrow> heap \<Rightarrow> ptr \<Rightarrow> ptr \<Rightarrow> bool option" where
  "is_sorted lt h a b = (if a \<noteq> b then is_sorted_loop lt h a b else Some True)"

partial_function (option) find_end_loop :: "less_func \<Rightarrow> heap \<Rightarrow> ptr \<Rightarrow> ptr \<Rightarrow> ptr option" where
  [code]: "find_end_loop lt h a b = do {
     a' \<leftarrow> list_next h a;
     if a' \<noteq> b then do {
       p \<leftarrow> list_prev h a';
       if \<not> lt a' p then find_end_loop lt h a' b else Some a' }
     else Some a' }"

definition find_end_of_run :: "less_func \<Rightarrow> heap \<Rightarrow> ptr \<Rightarrow> ptr \<Rightarrow> ptr option" where
  "find_end_of_run lt h a b = do {
     ASSERT (a \<noteq> NULL); ASSERT (b \<noteq> NULL); ASSERT (a \<noteq> b);
     find_end_loop lt h a b }"

partial_function (option) merge_loop :: "less_func \<Rightarrow> heap \<Rightarrow> ptr \<Rightarrow> ptr \<Rightarrow> ptr \<Rightarrow> heap option" where
  [code]: "merge_loop lt h a0 a1b0 b1 =
    (if a0 \<noteq> a1b0 \<and> a1b0 \<noteq> b1 then
       if \<not> lt a1b0 a0 then do { a0 \<leftarrow> list_next h a0; merge_loop lt h a0 a1b0 b1 }
       else do {
         a1b0 \<leftarrow> list_next h a1b0;
         p \<leftarrow> list_prev h a1b0;
         h \<leftarrow> list_splice h a0 p a1b0;
         merge_loop lt h a0 a1b0 b1 }
     else Some h)"

definition inplace_merge :: "less_func \<Rightarrow> heap \<Rightarrow> ptr \<Rightarrow> ptr \<Rightarrow> ptr \<Rightarrow> heap option" where
  "inplace_merge lt h a0 a1b0 b1 = do {
     ASSERT (a0 \<noteq> NULL); ASSERT (a1b0 \<noteq> NULL); ASSERT (b1 \<noteq> NULL);
     s \<leftarrow> is_sorted lt h a0 a1b0; ASSERT s;
     s \<leftarrow> is_sorted lt h a1b0 b1; ASSERT s;
     merge_loop lt h a0 a1b0 b1 }"

text \<open>The inner loop of \<^verbatim>\<open>list_sort\<close> (one pass) and its outer do-while loop.\<close>

partial_function (option) list_sort_pass :: "less_func \<Rightarrow> heap \<Rightarrow> ptr \<Rightarrow> ptr \<Rightarrow> nat \<Rightarrow> (heap \<times> nat) option" where
  [code]: "list_sort_pass lt h l a0 output_run_cnt = do {
     e \<leftarrow> list_end l;
     if a0 = e then Some (h, output_run_cnt)
     else do {
       a1b0 \<leftarrow> find_end_of_run lt h a0 e;
       if a1b0 = e then Some (h, u32 (output_run_cnt + 1))
       else do {
         b1 \<leftarrow> find_end_of_run lt h a1b0 e;
         h \<leftarrow> inplace_merge lt h a0 a1b0 b1;
         list_sort_pass lt h l b1 (u32 (output_run_cnt + 1)) } } }"

partial_function (option) list_sort_loop :: "less_func \<Rightarrow> heap \<Rightarrow> ptr \<Rightarrow> heap option" where
  [code]: "list_sort_loop lt h l = do {
     a0 \<leftarrow> list_begin h l;
     r \<leftarrow> list_sort_pass lt h l a0 0;
     if 1 < snd r then list_sort_loop lt (fst r) l else Some (fst r) }"

definition list_sort :: "less_func \<Rightarrow> heap \<Rightarrow> ptr \<Rightarrow> heap option" where
  "list_sort lt h l = do {
     ASSERT (l \<noteq> NULL);
     h \<leftarrow> list_sort_loop lt h l;
     b \<leftarrow> list_begin h l; e \<leftarrow> list_end l;
     s \<leftarrow> is_sorted lt h b e; ASSERT s;
     Some h }"

partial_function (option) insert_ordered_loop :: "less_func \<Rightarrow> heap \<Rightarrow> ptr \<Rightarrow> ptr \<Rightarrow> ptr \<Rightarrow> ptr option" where
  [code]: "insert_ordered_loop lt h x e stop =
    (if e = stop then Some e
     else if lt x e then Some e
     else do { e \<leftarrow> list_next h e; insert_ordered_loop lt h x e stop })"

definition list_insert_ordered :: "less_func \<Rightarrow> heap \<Rightarrow> ptr \<Rightarrow> ptr \<Rightarrow> heap option" where
  "list_insert_ordered lt h l x = do {
     ASSERT (l \<noteq> NULL); ASSERT (x \<noteq> NULL);
     b \<leftarrow> list_begin h l; t \<leftarrow> list_end l;
     e \<leftarrow> insert_ordered_loop lt h x b t;
     list_insert h e x }"

partial_function (option) unique_loop :: "less_func \<Rightarrow> heap \<Rightarrow> ptr \<Rightarrow> ptr \<Rightarrow> ptr \<Rightarrow> heap option" where
  [code]: "unique_loop lt h l duplicates e = do {
     nxt \<leftarrow> list_next h e;
     t \<leftarrow> list_end l;
     if nxt = t then Some h
     else if \<not> lt e nxt \<and> \<not> lt nxt e then do {
       r \<leftarrow> list_remove h nxt;
       h \<leftarrow> (if duplicates \<noteq> NULL then list_push_back (fst r) duplicates nxt else Some (fst r));
       unique_loop lt h l duplicates e }
     else unique_loop lt h l duplicates nxt }"

definition list_unique :: "less_func \<Rightarrow> heap \<Rightarrow> ptr \<Rightarrow> ptr \<Rightarrow> heap option" where
  "list_unique lt h l duplicates = do {
     ASSERT (l \<noteq> NULL);
     e \<leftarrow> list_empty h l;
     if e then Some h
     else do { b \<leftarrow> list_begin h l; unique_loop lt h l duplicates b } }"

partial_function (option) max_loop :: "less_func \<Rightarrow> heap \<Rightarrow> ptr \<Rightarrow> ptr \<Rightarrow> ptr \<Rightarrow> ptr option" where
  [code]: "max_loop lt h mx e stop =
    (if e = stop then Some mx
     else do {
       e' \<leftarrow> list_next h e;
       max_loop lt h (if lt mx e then e else mx) e' stop })"

definition list_max :: "less_func \<Rightarrow> heap \<Rightarrow> ptr \<Rightarrow> ptr option" where
  "list_max lt h l = do {
     mx \<leftarrow> list_begin h l; t \<leftarrow> list_end l;
     if mx \<noteq> t then do { e \<leftarrow> list_next h mx; max_loop lt h mx e t } else Some mx }"

partial_function (option) min_loop :: "less_func \<Rightarrow> heap \<Rightarrow> ptr \<Rightarrow> ptr \<Rightarrow> ptr \<Rightarrow> ptr option" where
  [code]: "min_loop lt h mn e stop =
    (if e = stop then Some mn
     else do {
       e' \<leftarrow> list_next h e;
       min_loop lt h (if lt e mn then e else mn) e' stop })"

definition list_min :: "less_func \<Rightarrow> heap \<Rightarrow> ptr \<Rightarrow> ptr option" where
  "list_min lt h l = do {
     mn \<leftarrow> list_begin h l; t \<leftarrow> list_end l;
     if mn \<noteq> t then do { e \<leftarrow> list_next h mn; min_loop lt h mn e t } else Some mn }"

section \<open>The loops compute the functions on sequences\<close>

lemma seq_next_hd: "wf_seq h (as @ x # xs @ t # bs) \<Longrightarrow> list_next h x = Some (hd (xs @ [t]))"
  using seq_next [of h as x "hd (xs @ [t])" "tl (xs @ [t]) @ bs"] by (cases xs) auto

lemma seq_prev_hd: "wf_seq h (as @ x # xs @ t # bs) \<Longrightarrow> list_prev h (hd (xs @ [t])) = Some x"
  using seq_prev [of h as x "hd (xs @ [t])" "tl (xs @ [t]) @ bs"] by (cases xs) auto

lemma seq_hd_notin: "wf_seq h (as @ x # xs @ t # bs) \<Longrightarrow> (hd (xs @ [t]) = t) = (xs = []) \<and> x \<noteq> t"
  by (cases xs) (auto simp: wf_seq_def)

lemmas seq_step = seq_next_hd seq_prev_hd seq_hd_notin

lemma is_sorted_loop_seq:
  "wf_seq h (as @ x # xs @ t # bs) \<Longrightarrow> is_sorted_loop lt h x t = Some (ordered lt (x # xs))"
proof (induction xs arbitrary: as x)
  case Nil
  then show ?case using seq_step [OF Nil] by (subst is_sorted_loop.simps) simp
next
  case (Cons y ys)
  then show ?case
    using Cons.IH [of "as @ [x]" y] seq_step [OF Cons.prems]
    by (subst is_sorted_loop.simps) simp
qed

lemma is_sorted_seq:
  assumes "wf_seq h (as @ xs @ t # bs)"
  shows "is_sorted lt h (hd (xs @ [t])) t = Some (ordered lt xs)"
proof (cases xs)
  case (Cons y ys)
  then show ?thesis using assms seq_hd_notin [of h as y ys t bs] is_sorted_loop_seq [of h as y ys t bs lt]
    by (simp add: is_sorted_def)
qed (simp add: is_sorted_def)

lemma find_end_loop_seq:
  "wf_seq h (as @ x # xs @ t # bs) \<Longrightarrow>
   find_end_loop lt h x t = Some (hd (snd (split_run lt (x # xs)) @ [t]))"
proof (induction xs arbitrary: as x)
  case Nil
  then show ?case using seq_step [OF Nil] by (subst find_end_loop.simps) simp
next
  case (Cons y ys)
  then show ?case
    using Cons.IH [of "as @ [x]" y] seq_step [OF Cons.prems]
    by (subst find_end_loop.simps) (auto split: prod.splits)
qed

lemma find_end_of_run_seq:
  assumes "wf_seq h (as @ xs @ t # bs)" "xs \<noteq> []"
  shows "find_end_of_run lt h (hd (xs @ [t])) t = Some (hd (snd (split_run lt xs) @ [t]))"
proof -
  obtain y ys where y: "xs = y # ys" using assms by (cases xs) auto
  then have "y \<noteq> t" "y \<noteq> NULL" "t \<noteq> NULL" using assms by (auto simp: wf_seq_def)
  then show ?thesis using y assms find_end_loop_seq [of h as y ys t bs lt]
    by (simp add: find_end_of_run_def)
qed

lemma merge_loop_seq:
  "wf_seq h (pre @ as @ bs @ t # post) \<Longrightarrow> pre \<noteq> [] \<Longrightarrow>
   \<exists>h'. merge_loop lt h (hd (as @ bs @ [t])) (hd (bs @ [t])) t = Some h' \<and>
     wf_seq h' (pre @ merge lt as bs @ t # post) \<and>
     (\<forall>z. z \<notin> set (pre @ as @ bs @ t # post) \<longrightarrow> h' z = h z)"
proof (induction lt as bs arbitrary: h pre rule: merge.induct)
  case (1 lt a as b bs)
  have d: "a \<noteq> b" "b \<noteq> t" using "1.prems" by (auto simp: wf_seq_def)
  show ?case
  proof (cases "lt b a")
    case False
    have n: "list_next h a = Some (hd (as @ b # bs @ [t]))"
      using seq_next_hd [of h pre a as b "bs @ t # post"] "1.prems" by (cases as) auto
    have "wf_seq h ((pre @ [a]) @ as @ (b # bs) @ t # post)" using "1.prems" by simp
    from "1.IH"(1) [OF False this] False d n show ?thesis
      by (subst merge_loop.simps) auto
  next
    case True
    let ?y = "hd (bs @ [t])" and ?ys = "tl (bs @ [t]) @ post"
    have eq: "?y # ?ys = bs @ t # post" by (cases bs) auto
    obtain ps p where p: "pre = ps @ [p]" using "1.prems" by (cases pre rule: rev_cases) auto
    have n: "list_next h b = Some ?y" "list_prev h ?y = Some b"
      using seq_step [of h "pre @ a # as" b bs t post] "1.prems" by simp_all
    have "wf_seq h (ps @ p # (a # as) @ b # ?y # ?ys)" using "1.prems" p by (simp add: eq)
    from seq_splice_back [OF this] obtain h1 where
      h1: "list_splice h a b ?y = Some h1" "wf_seq h1 (ps @ p # b # (a # as) @ ?y # ?ys)"
      and fr: "\<And>z. z \<notin> set (p # (a # as) @ [b, ?y]) \<Longrightarrow> h1 z = h z" by auto
    have "wf_seq h1 ((pre @ [b]) @ (a # as) @ bs @ t # post)" using h1(2) p by (simp add: eq)
    from "1.IH"(2) [OF _ this] True obtain h' where
      h': "merge_loop lt h1 a ?y t = Some h'" "wf_seq h' (pre @ b # merge lt (a # as) bs @ t # post)"
      and fr': "\<forall>z. z \<notin> set (pre @ b # a # as @ bs @ t # post) \<longrightarrow> h' z = h1 z" by auto
    have "?y \<in> set (bs @ [t])" by (cases bs) auto
    then have "\<forall>z. z \<notin> set (pre @ (a # as) @ (b # bs) @ t # post) \<longrightarrow> h' z = h z"
      using fr fr' p by auto
    with h' h1 True d n show ?thesis by (subst merge_loop.simps) auto
  qed
qed (subst merge_loop.simps; simp)+

lemma inplace_merge_seq:
  assumes "wf_seq h (pre @ as @ bs @ t # post)" "pre \<noteq> []" "as \<noteq> []" "bs \<noteq> []"
    "ordered lt as" "ordered lt bs"
  shows "\<exists>h'. inplace_merge lt h (hd as) (hd bs) t = Some h' \<and>
     wf_seq h' (pre @ merge lt as bs @ t # post) \<and>
     (\<forall>z. z \<notin> set (pre @ as @ bs @ t # post) \<longrightarrow> h' z = h z)"
proof -
  have "hd as \<noteq> NULL" "hd bs \<noteq> NULL" "t \<noteq> NULL"
    using assms by (cases as; cases bs; auto simp: wf_seq_def)+
  moreover have "is_sorted lt h (hd as) (hd bs) = Some True"
    using is_sorted_seq [of h pre as "hd bs" "tl bs @ t # post" lt] assms by (cases as; cases bs) auto
  moreover have "is_sorted lt h (hd bs) t = Some True"
    using is_sorted_seq [of h "pre @ as" bs t post lt] assms by (cases bs) auto
  ultimately show ?thesis
    using merge_loop_seq [of h pre as bs t post lt] assms by (simp add: inplace_merge_def)
qed

lemma list_sort_pass_seq:
  "wf_seq h (pre @ xs @ [tail_of l]) \<Longrightarrow> pre \<noteq> [] \<Longrightarrow> l \<noteq> NULL \<Longrightarrow>
   \<exists>h'. list_sort_pass lt h l (hd (xs @ [tail_of l])) (u32 c) = Some (h', u32 (c + snd (sort_pass lt xs))) \<and>
     wf_seq h' (pre @ fst (sort_pass lt xs) @ [tail_of l]) \<and>
     (\<forall>z. z \<notin> set (pre @ xs @ [tail_of l]) \<longrightarrow> h' z = h z)"
proof (induction lt xs arbitrary: h pre c rule: sort_pass.induct)
  case (1 lt xs)
  let ?t = "tail_of l"
  obtain as rest where s1: "split_run lt xs = (as, rest)" by fastforce
  obtain bs rest' where s2: "split_run lt rest = (bs, rest')" by fastforce
  note eq = split_run_append [OF s1] split_run_append [OF s2]
  show ?case
  proof (cases "xs = []")
    case True
    then show ?thesis using "1.prems" by (subst list_sort_pass.simps) (simp add: sort_pass.simps)
  next
    case False
    then have ne: "as \<noteq> []" using s1 split_run_nonempty by blast
    have hd: "hd (xs @ [?t]) \<noteq> ?t" using False "1.prems" by (cases xs) (auto simp: wf_seq_def)
    have f1: "find_end_of_run lt h (hd (xs @ [?t])) ?t = Some (hd (rest @ [?t]))"
      using find_end_of_run_seq [of h pre xs ?t "[]" lt] False "1.prems" s1 by simp
    show ?thesis
    proof (cases "rest = []")
      case True
      then show ?thesis using "1.prems" f1 hd False s1 eq
        by (subst list_sort_pass.simps) (simp add: sort_pass.simps)
    next
      case F2: False
      then have ne2: "bs \<noteq> []" using s2 split_run_nonempty by blast
      let ?b1 = "hd (rest' @ [?t])" and ?post = "tl (rest' @ [?t])"
      obtain y ys where "rest = y # ys" using F2 by (cases rest) auto
      then have hd2: "hd (rest @ [?t]) \<noteq> ?t"
        using "1.prems" eq(1) seq_hd_notin [of h "pre @ as" y ys ?t "[]"] by simp
      have "wf_seq h ((pre @ as) @ rest @ [?t])" using "1.prems" eq by simp
      from find_end_of_run_seq [OF this F2, of lt] s2
      have f2: "find_end_of_run lt h (hd (rest @ [?t])) ?t = Some ?b1" by simp
      have "wf_seq h (pre @ as @ bs @ ?b1 # ?post)" using "1.prems" eq by simp
      from inplace_merge_seq [OF this _ ne ne2] split_run_ordered [OF s1] split_run_ordered [OF s2] "1.prems"
      obtain h1 where h1: "inplace_merge lt h (hd as) (hd bs) ?b1 = Some h1"
        "wf_seq h1 (pre @ merge lt as bs @ ?b1 # ?post)"
        and fr: "\<forall>z. z \<notin> set (pre @ as @ bs @ ?b1 # ?post) \<longrightarrow> h1 z = h z" by blast
      have heads: "hd (xs @ [?t]) = hd as" "hd (rest @ [?t]) = hd bs" using ne ne2 eq by auto
      have w1: "wf_seq h1 ((pre @ merge lt as bs) @ rest' @ [?t])" using h1(2) by simp
      have IH: "\<exists>h'. list_sort_pass lt h1 l ?b1 (u32 (Suc c)) = Some (h', u32 (Suc c + snd (sort_pass lt rest'))) \<and>
          wf_seq h' ((pre @ merge lt as bs) @ fst (sort_pass lt rest') @ [?t]) \<and>
          (\<forall>z. z \<notin> set ((pre @ merge lt as bs) @ rest' @ [?t]) \<longrightarrow> h' z = h1 z)"
        using 1(1) [where c = "Suc c", OF False s1 [symmetric] refl F2 s2 [symmetric] refl w1] "1.prems"
        by simp
      obtain ys n where p: "sort_pass lt rest' = (ys, n)" by fastforce
      have sp: "sort_pass lt xs = (merge lt as bs @ ys, Suc n)"
        using False F2 s1 s2 p by (subst sort_pass.simps) simp
      from IH obtain h' where h': "list_sort_pass lt h1 l ?b1 (u32 (Suc c)) = Some (h', u32 (Suc c + n))"
        "wf_seq h' (pre @ (merge lt as bs @ ys) @ [?t])"
        and fr': "\<forall>z. z \<notin> set (pre @ merge lt as bs @ rest' @ [?t]) \<longrightarrow> h' z = h1 z"
        by (auto simp: p)
      have "\<forall>z. z \<notin> set (pre @ xs @ [?t]) \<longrightarrow> h' z = h z" using fr fr' eq by auto
      moreover have "list_sort_pass lt h l (hd (xs @ [?t])) (u32 c) = Some (h', u32 (Suc c + n))"
        using hd hd2 f1 f2 h1 h' heads "1.prems" by (subst list_sort_pass.simps) simp
      ultimately show ?thesis using h'(2) by (simp add: sp)
    qed
  qed
qed

section \<open>Sorting a list\<close>

locale list_order = strict_weak_order lt
  for lt :: less_func
begin

text \<open>
  The do-while loop of \<^verbatim>\<open>list_sort\<close> ends: each pass that outputs more than one run leaves
  fewer runs than it found.
\<close>

lemma list_sort_loop_dll:
  assumes "dll h l xs" "length xs < 2 ^ 32"
  shows "\<exists>h' ys. list_sort_loop lt h l = Some h' \<and> dll h' l ys \<and> mset ys = mset xs \<and> ordered lt ys \<and>
     (\<forall>x. filter (same x) ys = filter (same x) xs) \<and> (\<forall>z. z \<notin> set (nodes l xs) \<longrightarrow> h' z = h z)"
  using assms
proof (induction "runs lt xs" arbitrary: h xs rule: less_induct)
  case less
  let ?ys = "fst (sort_pass lt xs)" and ?n = "snd (sort_pass lt xs)"
  have m: "mset ?ys = mset xs" by (rule mset_sort_pass)
  then have set: "set ?ys = set xs" and len: "length ?ys = length xs"
    by (metis set_mset_mset, metis size_mset)
  have "wf_seq h ([head_of l] @ xs @ [tail_of l])" using less.prems by (simp add: dll_def nodes_def)
  from list_sort_pass_seq [OF this, of lt 0] dll_NULL [OF less.prems(1)]
  obtain h1 where h1: "list_sort_pass lt h l (hd (xs @ [tail_of l])) 0 = Some (h1, u32 ?n)"
    "dll h1 l ?ys" and fr: "\<forall>z. z \<notin> set (nodes l xs) \<longrightarrow> h1 z = h z"
    by (auto simp: dll_def nodes_def u32_def)
  have n: "u32 ?n = ?n"
    using sort_pass_halves [of xs] runs_le_length [of lt xs] less.prems(2) by simp
  show ?case
  proof (cases "1 < ?n")
    case False
    then have "list_sort_loop lt h l = Some h1"
      using h1 n dll_begin [OF less.prems(1)] by (subst list_sort_loop.simps) simp
    then show ?thesis using h1(2) m fr sort_pass_done [of xs] False sort_pass_stable [of _ xs] by auto
  next
    case True
    have nodes: "set (nodes l ?ys) = set (nodes l xs)" by (simp add: nodes_def set)
    obtain h' ys where "list_sort_loop lt h1 l = Some h'" "dll h' l ys" "mset ys = mset ?ys" "ordered lt ys"
      "\<forall>x. filter (same x) ys = filter (same x) ?ys" "\<forall>z. z \<notin> set (nodes l ?ys) \<longrightarrow> h' z = h1 z"
      using less.hyps [OF sort_pass_progress [OF True] h1(2)] len less.prems(2) by auto
    moreover from this have "list_sort_loop lt h l = Some h'"
      using True h1 n dll_begin [OF less.prems(1)] by (subst list_sort_loop.simps) simp
    ultimately show ?thesis using m fr sort_pass_stable [of _ xs] nodes by auto
  qed
qed

lemma list_sort_dll:
  assumes "dll h l xs" "length xs < 2 ^ 32"
  obtains h' ys where "list_sort lt h l = Some h'" "dll h' l ys" "mset ys = mset xs" "ordered lt ys"
     "\<And>x. filter (same x) ys = filter (same x) xs" "\<And>z. z \<notin> set (nodes l xs) \<Longrightarrow> h' z = h z"
proof -
  obtain h' ys where r: "list_sort_loop lt h l = Some h'" "dll h' l ys" "mset ys = mset xs" "ordered lt ys"
     "\<forall>x. filter (same x) ys = filter (same x) xs" "\<forall>z. z \<notin> set (nodes l xs) \<longrightarrow> h' z = h z"
    using list_sort_loop_dll [OF assms] by auto
  have "is_sorted lt h' (hd (ys @ [tail_of l])) (tail_of l) = Some True"
    using is_sorted_seq [of h' "[head_of l]" ys "tail_of l" "[]" lt] r by (simp add: dll_def nodes_def)
  then have "list_sort lt h l = Some h'"
    using r dll_NULL [OF assms(1)] dll_begin [OF r(2)] by (simp add: list_sort_def)
  with r that show ?thesis by auto
qed

end

text \<open>Comparing by a key is a strict weak order.\<close>

lemma key_strict_weak_order:
  fixes key :: "'a \<Rightarrow> 'k::linorder"
  shows "strict_weak_order (\<lambda>a b. key a < key b)"
  by unfold_locales auto

section \<open>Ordered insertion, duplicates, extremes\<close>

lemma insert_ordered_loop_seq:
  "wf_seq h (pre @ xs @ t # post) \<Longrightarrow>
   insert_ordered_loop lt h x (hd (xs @ [t])) t = Some (hd (dropWhile (\<lambda>e. \<not> lt x e) xs @ [t]))"
proof (induction xs arbitrary: pre)
  case Nil
  then show ?case by (subst insert_ordered_loop.simps) simp
next
  case (Cons y ys)
  then show ?case
    using Cons.IH [of "pre @ [y]"] seq_step [of h pre y ys t post]
    by (subst insert_ordered_loop.simps) simp
qed

lemma dll_insert_ordered:
  assumes d: "dll h l xs" and a: "avail h l xs x"
  obtains h' where "list_insert_ordered lt h l x = Some h'"
    "dll h' l (takeWhile (\<lambda>e. \<not> lt x e) xs @ x # dropWhile (\<lambda>e. \<not> lt x e) xs)"
    "\<And>z. z \<notin> set (x # nodes l xs) \<Longrightarrow> h' z = h z"
proof -
  let ?as = "takeWhile (\<lambda>e. \<not> lt x e) xs" and ?bs = "dropWhile (\<lambda>e. \<not> lt x e) xs"
  have d': "dll h l (?as @ ?bs)" using d by simp
  have a': "x \<notin> set (nodes l (?as @ ?bs))" "x \<noteq> NULL" "h x \<noteq> None" using a by (auto simp: avail_def)
  obtain h' where h': "list_insert h (hd (?bs @ [tail_of l])) x = Some h'" "dll h' l (?as @ x # ?bs)"
    "\<And>z. z \<notin> set (x # nodes l (?as @ ?bs)) \<Longrightarrow> h' z = h z"
    using dll_insert [OF d' a'] by blast
  have "insert_ordered_loop lt h x (hd (xs @ [tail_of l])) (tail_of l) = Some (hd (?bs @ [tail_of l]))"
    using insert_ordered_loop_seq [of h "[head_of l]" xs "tail_of l" "[]" lt x] d
    by (simp add: dll_def nodes_def)
  then have "list_insert_ordered lt h l x = Some h'"
    using h' a' dll_begin [OF d] dll_NULL [OF d] by (simp add: list_insert_ordered_def)
  with h' that show ?thesis by simp
qed

lemma unique_loop_dll:
  "dll h l (pre @ x # xs) \<Longrightarrow> d \<noteq> NULL \<Longrightarrow> dll h d ds \<Longrightarrow>
   set (nodes l (pre @ x # xs)) \<inter> set (nodes d ds) = {} \<Longrightarrow>
   \<exists>h'. unique_loop lt h l d x = Some h' \<and> dll h' l (pre @ fst (unique lt x xs)) \<and>
     dll h' d (ds @ snd (unique lt x xs)) \<and>
     (\<forall>z. z \<notin> set (nodes l (pre @ x # xs)) \<union> set (nodes d ds) \<longrightarrow> h' z = h z)"
proof (induction lt x xs arbitrary: h pre ds rule: unique.induct)
  case (1 lt x)
  then show ?case
    using dll_next [of h l pre x "[]"] dll_NULL [of h l]
    by (subst unique_loop.simps) simp
next
  case (2 lt x y ys)
  have nx: "list_next h x = Some y" "l \<noteq> NULL"
    using dll_next [of h l pre x "y # ys"] "2.prems" dll_NULL by auto
  have yt: "y \<noteq> tail_of l" using dll_tail_notin [OF "2.prems"(1)] by auto
  show ?case
  proof (cases "\<not> lt x y \<and> \<not> lt y x")
    case True
    have "dll h l ((pre @ [x]) @ y # ys)" using "2.prems" by simp
    from dll_remove [OF this] obtain h1 where h1: "list_remove h y = Some (h1, hd (ys @ [tail_of l]))"
      "dll h1 l (pre @ x # ys)" "\<And>z. z \<notin> set (nodes l (pre @ x # ys)) \<Longrightarrow> h1 z = h z" by auto
    have sub: "set (nodes l (pre @ x # ys)) \<subseteq> set (nodes l (pre @ x # y # ys))" by (auto simp: nodes_def)
    have y: "y \<in> set (nodes l (pre @ x # y # ys))" "y \<notin> set (nodes l (pre @ x # ys))"
      using "2.prems"(1) by (auto simp: nodes_def dll_def wf_seq_def)
    have "dll h1 d ds = dll h d ds"
      using sub "2.prems"(4) by (intro dll_cong h1(3)) blast
    then have d1: "dll h1 d ds" using "2.prems" by simp
    have "h y \<noteq> None" "y \<noteq> NULL" using "2.prems"(1) by (auto simp: dll_def wf_seq_def nodes_def chain_append)
    then have "h1 y \<noteq> None" "y \<notin> set (nodes d ds)" "y \<noteq> NULL" using h1(3) [of y] y "2.prems"(4) by auto
    with dll_push_back [OF d1] obtain h2 where h2: "list_push_back h1 d y = Some h2" "dll h2 d (ds @ [y])"
      "\<And>z. z \<notin> set (y # nodes d ds) \<Longrightarrow> h2 z = h1 z" by metis
    have "dll h2 l (pre @ x # ys) = dll h1 l (pre @ x # ys)"
      using sub y "2.prems"(4) by (intro dll_cong h2(3)) auto
    then have l2: "dll h2 l (pre @ x # ys)" using h1 by simp
    have dj: "set (nodes l (pre @ x # ys)) \<inter> set (nodes d (ds @ [y])) = {}"
      using sub y "2.prems"(4) by (auto simp: nodes_def)
    from "2.IH"(1) [OF True l2 "2.prems"(2) h2(2) dj] obtain h' where
      h': "unique_loop lt h2 l d x = Some h'" "dll h' l (pre @ fst (unique lt x ys))"
        "dll h' d ((ds @ [y]) @ snd (unique lt x ys))"
        "\<forall>z. z \<notin> set (nodes l (pre @ x # ys)) \<union> set (nodes d (ds @ [y])) \<longrightarrow> h' z = h2 z" by auto
    have "\<forall>z. z \<notin> set (nodes l (pre @ x # y # ys)) \<union> set (nodes d ds) \<longrightarrow> h' z = h z"
      using h'(4) h2(3) h1(3) sub y by (auto simp: nodes_def)
    with h' True nx yt h1 h2 "2.prems"(2) show ?thesis
      by (subst unique_loop.simps) (auto split: prod.splits)
  next
    case False
    have "dll h l ((pre @ [x]) @ y # ys)" using "2.prems" by simp
    from "2.IH"(2) [OF False this] "2.prems" False nx yt show ?thesis
      by (subst unique_loop.simps) (auto split: prod.splits)
  qed
qed

lemma dll_unique:
  assumes "dll h l (x # xs)" "dll h d ds" "set (nodes l (x # xs)) \<inter> set (nodes d ds) = {}"
  shows "\<exists>h'. list_unique lt h l d = Some h' \<and> dll h' l (fst (unique lt x xs)) \<and>
     dll h' d (ds @ snd (unique lt x xs))"
  using unique_loop_dll [of h l "[]" x xs d ds lt] assms dll_begin [OF assms(1)] dll_empty [OF assms(1)]
    dll_NULL [OF assms(1)] dll_NULL [OF assms(2)]
  by (auto simp: list_unique_def)

context list_order
begin

lemma max_loop_seq:
  "wf_seq h (pre @ xs @ t # post) \<Longrightarrow>
   \<exists>m. max_loop lt h m0 (hd (xs @ [t])) t = Some m \<and>
     (m = m0 \<and> (\<forall>y\<in>set xs. \<not> lt m0 y) \<or>
      (\<exists>as bs. xs = as @ m # bs \<and> lt m0 m \<and> (\<forall>a\<in>set as. lt a m) \<and> (\<forall>b\<in>set bs. \<not> lt m b)))"
proof (induction xs arbitrary: pre m0)
  case Nil
  then show ?case by (subst max_loop.simps) simp
next
  case (Cons y ys)
  have w: "wf_seq h ((pre @ [y]) @ ys @ t # post)" using Cons.prems by simp
  let ?m = "if lt m0 y then y else m0"
  obtain m where m: "max_loop lt h ?m (hd (ys @ [t])) t = Some m"
    "m = ?m \<and> (\<forall>z\<in>set ys. \<not> lt ?m z) \<or>
     (\<exists>as bs. ys = as @ m # bs \<and> lt ?m m \<and> (\<forall>a\<in>set as. lt a m) \<and> (\<forall>b\<in>set bs. \<not> lt m b))"
    using Cons.IH [OF w, of ?m] by blast
  have run: "max_loop lt h m0 (hd ((y # ys) @ [t])) t = Some m"
    using m(1) seq_step [of h pre y ys t post] Cons.prems
    by (subst max_loop.simps) (auto split: if_splits)
  consider (eq) "m = ?m" "\<forall>z\<in>set ys. \<not> lt ?m z"
    | (gt) as bs where "ys = as @ m # bs" "lt ?m m" "\<forall>a\<in>set as. lt a m" "\<forall>b\<in>set bs. \<not> lt m b"
    using m(2) by blast
  then show ?case
  proof cases
    case eq
    then have "m = m0 \<and> (\<forall>z\<in>set (y # ys). \<not> lt m0 z) \<or> y # ys = [] @ m # ys \<and> lt m0 m \<and> (\<forall>b\<in>set ys. \<not> lt m b)"
      by (cases "lt m0 y") auto
    then show ?thesis using run by (metis empty_iff list.set(1))
  next
    case gt
    have "lt m0 m \<and> lt y m"
      using gt(2) trans [of m0 y m] neg_trans [of m0 y m] by (auto split: if_splits)
    then show ?thesis using run gt by (intro exI [of _ m] conjI disjI2 exI [of _ "y # as"] exI [of _ bs]) auto
  qed
qed

text \<open>\<^verbatim>\<open>list_max\<close>: the first of the greatest elements; the tail of an empty list.\<close>

lemma dll_max:
  assumes "dll h l (x # xs)"
  shows "\<exists>m as bs. list_max lt h l = Some m \<and> x # xs = as @ m # bs \<and>
    (\<forall>a\<in>set as. lt a m) \<and> (\<forall>b\<in>set bs. \<not> lt m b)"
proof -
  have w: "wf_seq h ([head_of l, x] @ xs @ [tail_of l])" using assms by (simp add: dll_def nodes_def)
  obtain m where m: "max_loop lt h x (hd (xs @ [tail_of l])) (tail_of l) = Some m"
    "m = x \<and> (\<forall>y\<in>set xs. \<not> lt x y) \<or>
      (\<exists>as bs. xs = as @ m # bs \<and> lt x m \<and> (\<forall>a\<in>set as. lt a m) \<and> (\<forall>b\<in>set bs. \<not> lt m b))"
    using max_loop_seq [OF w, of x] by blast
  have "list_max lt h l = Some m"
    using m(1) dll_begin [OF assms] dll_next [of h l "[]" x xs] assms dll_tail_notin [OF assms] dll_NULL [OF assms]
    by (auto simp: list_max_def)
  with m(2) show ?thesis
    by (metis append_Cons append_Nil empty_iff list.set(1) set_ConsD)
qed

end

text \<open>\<^verbatim>\<open>list_min\<close> is \<^verbatim>\<open>list_max\<close> for the opposite order.\<close>

lemma min_loop_max_loop:
  "wf_seq h (pre @ xs @ t # post) \<Longrightarrow>
   min_loop lt h m (hd (xs @ [t])) t = max_loop (\<lambda>a b. lt b a) h m (hd (xs @ [t])) t"
proof (induction xs arbitrary: pre m)
  case Nil
  then show ?case by (subst min_loop.simps, subst max_loop.simps) simp
next
  case (Cons y ys)
  then show ?case using Cons.IH [of "pre @ [y]"] seq_step [of h pre y ys t post]
    by (subst min_loop.simps, subst max_loop.simps) simp
qed

lemma list_min_max: "dll h l xs \<Longrightarrow> list_min lt h l = list_max (\<lambda>a b. lt b a) h l"
proof (cases xs)
  case (Cons y ys)
  assume d: "dll h l xs"
  have "wf_seq h ([head_of l, y] @ ys @ [tail_of l])" using d Cons by (simp add: dll_def nodes_def)
  from min_loop_max_loop [OF this, of lt y] d Cons dll_next [of h l "[]" y ys] dll_begin [OF d] dll_NULL [OF d]
  show ?thesis by (simp add: list_min_def list_max_def)
qed (simp add: list_min_def list_max_def dll_begin dll_NULL)

section \<open>Properties\<close>

text \<open>
  C32: \<^verbatim>\<open>list_sort\<close>, the in-place natural merge sort. For a comparison of keys it terminates
  without a fault on every list and leaves exactly the stable sort of its elements (equal
  keys keep their order); no memory outside the list changes.
\<close>

theorem list_sort_sorts:
  fixes key :: "ptr \<Rightarrow> 'k::linorder"
  assumes d: "dll h l xs" and n: "length xs < 2 ^ 32"
  shows "\<exists>h'. list_sort (\<lambda>a b. key a < key b) h l = Some h' \<and> dll h' l (sort_key key xs) \<and>
    (\<forall>z. z \<notin> set (nodes l xs) \<longrightarrow> h' z = h z)"
proof -
  let ?lt = "\<lambda>a b. key a < key b"
  have swo: "strict_weak_order ?lt" by (rule key_strict_weak_order)
  have lo: "list_order ?lt" by (rule list_order.intro [OF swo])
  obtain h' ys where r: "list_sort ?lt h l = Some h'" "dll h' l ys" "mset ys = mset xs" "ordered ?lt ys"
     "\<And>x. filter (strict_weak_order.same ?lt x) ys = filter (strict_weak_order.same ?lt x) xs"
     "\<And>z. z \<notin> set (nodes l xs) \<Longrightarrow> h' z = h z"
    using list_order.list_sort_dll [OF lo d n] by blast
  have same: "strict_weak_order.same ?lt k = (\<lambda>x. key k = key x)" for k
    by (intro ext) (auto simp: strict_weak_order.same_def [OF swo])
  have "sort_key key xs = ys"
  proof (rule properties_for_sort_key)
    show "mset ys = mset xs" by (rule r(3))
    show "filter (\<lambda>x. key k = key x) ys = filter (\<lambda>x. key k = key x) xs" for k
      using r(5) [of k] by (simp add: same)
    show "sorted (map key ys)"
      using r(4) by (simp add: strict_weak_order.ordered_iff [OF swo] not_less sorted_map)
  qed
  with r show ?thesis by auto
qed

lemma list_sort_sorts_witness:
  "\<exists>h'. list_sort (\<lambda>a b. - int a < - int b) demo_heap 2000 = Some h' \<and>
    dll h' 2000 (sort_key (\<lambda>e. - int e) [16, 32]) \<and>
    (\<forall>z. z \<notin> set (nodes 2000 [16, 32]) \<longrightarrow> h' z = demo_heap z)"
  by (rule list_sort_sorts) (simp_all add: demo_simps)

text \<open>
  \<^verbatim>\<open>list_insert_ordered\<close>. Inserting a free element into a list sorted by key puts it behind
  every element whose key is not greater and gives a sorted list again.
\<close>

theorem list_insert_ordered_sorted:
  fixes key :: "ptr \<Rightarrow> 'k::linorder"
  assumes "dll h l xs" "avail h l xs x" "sorted (map key xs)"
  shows "\<exists>h' ys. list_insert_ordered (\<lambda>a b. key a < key b) h l x = Some h' \<and> dll h' l ys \<and>
    ys = takeWhile (\<lambda>e. key e \<le> key x) xs @ x # dropWhile (\<lambda>e. key e \<le> key x) xs \<and> sorted (map key ys)"
proof -
  let ?p = "\<lambda>e. key e \<le> key x"
  obtain h' where h': "list_insert_ordered (\<lambda>a b. key a < key b) h l x = Some h'"
    "dll h' l (takeWhile ?p xs @ x # dropWhile ?p xs)"
    using dll_insert_ordered [OF assms(1,2), of "\<lambda>a b. key a < key b"] by (auto simp: not_less)
  have s: "sorted (map key (takeWhile ?p xs))" "sorted (map key (dropWhile ?p xs))"
    using assms(3) by (metis map_append sorted_append takeWhile_dropWhile_id)+
  have "\<forall>e\<in>set (dropWhile ?p xs). key x < key e"
  proof (cases "dropWhile ?p xs")
    case (Cons y ys)
    then have "key x < key y" using hd_dropWhile [of ?p xs] by (simp add: not_le)
    then show ?thesis using s(2) Cons by (auto intro: less_le_trans)
  next
    case Nil
    show ?thesis unfolding Nil by simp
  qed
  then have "sorted (map key (takeWhile ?p xs @ x # dropWhile ?p xs))"
    using s by (fastforce simp: sorted_append dest: set_takeWhileD)
  with h' show ?thesis by blast
qed

lemma list_insert_ordered_sorted_witness:
  "\<exists>h' ys. list_insert_ordered (\<lambda>a b. a mod 45 < b mod 45) demo_heap 2000 48 = Some h' \<and> dll h' 2000 ys \<and>
    ys = takeWhile (\<lambda>e. e mod 45 \<le> 48 mod 45) [16, 32] @ 48 # dropWhile (\<lambda>e. e mod 45 \<le> 48 mod 45) [16, 32] \<and>
    sorted (map (\<lambda>e. e mod 45) ys)"
  by (rule list_insert_ordered_sorted) (simp_all add: demo_simps)

text \<open>
  \<^verbatim>\<open>list_unique\<close> and \<^verbatim>\<open>list_max\<close>. For a strict weak order and a list in nondecreasing order,
  \<^verbatim>\<open>list_unique\<close> leaves a strictly increasing list and appends every removed element to the
  duplicates list, losing none; \<^verbatim>\<open>list_max\<close> returns the first of the greatest elements.
\<close>

theorem list_unique_max:
  assumes swo: "strict_weak_order lt"
    and "dll h l (x # xs)" "dll h d ds" "set (nodes l (x # xs)) \<inter> set (nodes d ds) = {}" "ordered lt (x # xs)"
  shows "\<exists>h' ks es m as bs. list_unique lt h l d = Some h' \<and> dll h' l ks \<and> sorted_wrt lt ks \<and>
    dll h' d (ds @ es) \<and> mset ks + mset es = mset (x # xs) \<and>
    list_max lt h l = Some m \<and> x # xs = as @ m # bs \<and> (\<forall>a\<in>set as. lt a m) \<and> (\<forall>b\<in>set bs. \<not> lt m b)"
proof -
  have lo: "list_order lt" by (rule list_order.intro [OF swo])
  obtain h' where "list_unique lt h l d = Some h'" "dll h' l (fst (unique lt x xs))" "dll h' d (ds @ snd (unique lt x xs))"
    using dll_unique [OF assms(2-4)] by blast
  moreover have "sorted_wrt lt (fst (unique lt x xs))"
    using strict_weak_order.sorted_unique [OF swo assms(5)] .
  moreover have "mset (fst (unique lt x xs)) + mset (snd (unique lt x xs)) = mset (x # xs)" by (rule mset_unique)
  moreover obtain m as bs where "list_max lt h l = Some m" "x # xs = as @ m # bs"
      "\<forall>a\<in>set as. lt a m" "\<forall>b\<in>set bs. \<not> lt m b"
    using list_order.dll_max [OF lo assms(2)] by blast
  ultimately show ?thesis by blast
qed

lemma list_unique_max_witness:
  "\<exists>h' ks es m as bs. list_unique (\<lambda>a b. a div 20 < b div 20) demo_heap 2000 1000 = Some h' \<and> dll h' 2000 ks \<and>
    sorted_wrt (\<lambda>a b. a div 20 < b div 20) ks \<and> dll h' 1000 ([] @ es) \<and> mset ks + mset es = mset [16, 32] \<and>
    list_max (\<lambda>a b. a div 20 < b div 20) demo_heap 2000 = Some m \<and> [16, 32] = as @ m # bs \<and>
    (\<forall>a\<in>set as. a div 20 < m div 20) \<and> (\<forall>b\<in>set bs. \<not> m div 20 < b div 20)"
  by (rule list_unique_max [OF key_strict_weak_order [of "\<lambda>a. a div 20"]]) (simp_all add: demo_simps)

end
