(* ===== verification/Bitmap.thy ===== *)
theory Bitmap
  imports Prelude
begin

text \<open>
  Bitmaps (\<^verbatim>\<open>lib/kernel/bitmap.c\<close>): an array of bits stored in 32-bit elements. The
  operations work on the elements with masks, as the code does; \<open>bitmap_abs\<close> is the
  sequence of bits a bitmap stands for, and each operation is shown to implement the
  corresponding operation on that sequence. The page allocator, the swap table and the
  free-sector map are clients of \<open>bitmap_scan_and_flip\<close>, whose contract is the locale
  \<open>bit_allocator\<close>.
\<close>

unbundle bit_operations_syntax

section \<open>Operations\<close>

abbreviation (input) ELEM_BITS :: nat where "ELEM_BITS \<equiv> 32"

definition BITMAP_ERROR :: nat where
  "BITMAP_ERROR = 2 ^ 32 - 1"

record bitmap =
  bit_cnt :: nat
  bits :: "32 word list"

definition elem_idx :: "nat \<Rightarrow> nat" where
  "elem_idx bit_idx = bit_idx div ELEM_BITS"

definition bit_mask :: "nat \<Rightarrow> 32 word" where
  "bit_mask bit_idx = push_bit (bit_idx mod ELEM_BITS) 1"

definition elem_cnt :: "nat \<Rightarrow> nat" where
  "elem_cnt n = u32 (n + ELEM_BITS - 1) div ELEM_BITS"

definition byte_cnt :: "nat \<Rightarrow> nat" where
  "byte_cnt n = u32 (4 * elem_cnt n)"

definition last_mask :: "bitmap \<Rightarrow> 32 word" where
  "last_mask b = (let last_bits = bit_cnt b mod ELEM_BITS
     in if last_bits \<noteq> 0 then push_bit last_bits 1 - 1 else - 1)"

definition bitmap_size :: "bitmap \<Rightarrow> nat" where
  "bitmap_size b = bit_cnt b"

text \<open>The three single-bit instructions; an element outside the array is a fault.\<close>

definition bitmap_mark :: "bitmap \<Rightarrow> nat \<Rightarrow> bitmap option" where
  "bitmap_mark b bit_idx = (let idx = elem_idx bit_idx; mask = bit_mask bit_idx in
     do { ASSERT (idx < length (bits b));
          Some (b\<lparr>bits := (bits b)[idx := bits b ! idx OR mask]\<rparr>) })"

definition bitmap_reset :: "bitmap \<Rightarrow> nat \<Rightarrow> bitmap option" where
  "bitmap_reset b bit_idx = (let idx = elem_idx bit_idx; mask = bit_mask bit_idx in
     do { ASSERT (idx < length (bits b));
          Some (b\<lparr>bits := (bits b)[idx := bits b ! idx AND NOT mask]\<rparr>) })"

definition bitmap_flip :: "bitmap \<Rightarrow> nat \<Rightarrow> bitmap option" where
  "bitmap_flip b bit_idx = (let idx = elem_idx bit_idx; mask = bit_mask bit_idx in
     do { ASSERT (idx < length (bits b));
          Some (b\<lparr>bits := (bits b)[idx := bits b ! idx XOR mask]\<rparr>) })"

definition bitmap_set :: "bitmap \<Rightarrow> nat \<Rightarrow> bool \<Rightarrow> bitmap option" where
  "bitmap_set b idx v = do {
     ASSERT (idx < bit_cnt b);
     if v then bitmap_mark b idx else bitmap_reset b idx }"

definition bitmap_test :: "bitmap \<Rightarrow> nat \<Rightarrow> bool option" where
  "bitmap_test b idx = do {
     ASSERT (idx < bit_cnt b);
     ASSERT (elem_idx idx < length (bits b));
     Some (bits b ! elem_idx idx AND bit_mask idx \<noteq> 0) }"

definition bitmap_set_multiple :: "bitmap \<Rightarrow> nat \<Rightarrow> nat \<Rightarrow> bool \<Rightarrow> bitmap option" where
  "bitmap_set_multiple b start cnt v = do {
     ASSERT (start \<le> bit_cnt b);
     ASSERT (u32 (start + cnt) \<le> bit_cnt b);
     foldM (\<lambda>b i. bitmap_set b (u32 (start + i)) v) b [0..<cnt] }"

definition bitmap_set_all :: "bitmap \<Rightarrow> bool \<Rightarrow> bitmap option" where
  "bitmap_set_all b v = bitmap_set_multiple b 0 (bitmap_size b) v"

text \<open>
  Creation. The storage comes from \<^verbatim>\<open>malloc\<close>: \<open>hdr\<close> says whether the header was
  allocated, \<open>raw\<close> is the element block with whatever it holds, \<open>None\<close> for null.
\<close>

definition bitmap_create :: "bool \<Rightarrow> 32 word list option \<Rightarrow> nat \<Rightarrow> bitmap option option" where
  "bitmap_create hdr raw n =
     (if hdr then
        if raw \<noteq> None \<or> n = 0 then
          do { b \<leftarrow> bitmap_set_all \<lparr>bit_cnt = n, bits = (case raw of None \<Rightarrow> [] | Some ws \<Rightarrow> ws)\<rparr> False;
               Some (Some b) }
        else Some None
      else Some None)"

definition bitmap_buf_size :: "nat \<Rightarrow> nat" where
  "bitmap_buf_size n = u32 (8 + byte_cnt n)"

text \<open>\<open>raw\<close> are the elements that follow the 8-byte header in the caller's block.\<close>

definition bitmap_create_in_buf :: "nat \<Rightarrow> 32 word list \<Rightarrow> nat \<Rightarrow> bitmap option" where
  "bitmap_create_in_buf n raw block_size = do {
     ASSERT (block_size \<ge> bitmap_buf_size n);
     bitmap_set_all \<lparr>bit_cnt = n, bits = raw\<rparr> False }"

primrec count_loop :: "bitmap \<Rightarrow> nat \<Rightarrow> bool \<Rightarrow> nat \<Rightarrow> nat \<Rightarrow> nat \<Rightarrow> nat option" where
  "count_loop b start v 0 i value_cnt = Some value_cnt"
| "count_loop b start v (Suc n) i value_cnt = do {
     t \<leftarrow> bitmap_test b (u32 (start + i));
     count_loop b start v n (Suc i) (if t = v then u32 (value_cnt + 1) else value_cnt) }"

definition bitmap_count :: "bitmap \<Rightarrow> nat \<Rightarrow> nat \<Rightarrow> bool \<Rightarrow> nat option" where
  "bitmap_count b start cnt v = do {
     ASSERT (start \<le> bit_cnt b);
     ASSERT (u32 (start + cnt) \<le> bit_cnt b);
     count_loop b start v cnt 0 0 }"

primrec contains_loop :: "bitmap \<Rightarrow> nat \<Rightarrow> bool \<Rightarrow> nat \<Rightarrow> nat \<Rightarrow> bool option" where
  "contains_loop b start v 0 i = Some False"
| "contains_loop b start v (Suc n) i = do {
     t \<leftarrow> bitmap_test b (u32 (start + i));
     if t = v then Some True else contains_loop b start v n (Suc i) }"

definition bitmap_contains :: "bitmap \<Rightarrow> nat \<Rightarrow> nat \<Rightarrow> bool \<Rightarrow> bool option" where
  "bitmap_contains b start cnt v = do {
     ASSERT (start \<le> bit_cnt b);
     ASSERT (u32 (start + cnt) \<le> bit_cnt b);
     contains_loop b start v cnt 0 }"

definition bitmap_any :: "bitmap \<Rightarrow> nat \<Rightarrow> nat \<Rightarrow> bool option" where
  "bitmap_any b start cnt = bitmap_contains b start cnt True"

definition bitmap_none :: "bitmap \<Rightarrow> nat \<Rightarrow> nat \<Rightarrow> bool option" where
  "bitmap_none b start cnt = map_option Not (bitmap_contains b start cnt True)"

definition bitmap_all :: "bitmap \<Rightarrow> nat \<Rightarrow> nat \<Rightarrow> bool option" where
  "bitmap_all b start cnt = map_option Not (bitmap_contains b start cnt False)"

text \<open>The loop of \<^verbatim>\<open>bitmap_scan\<close>: the first argument is the number of positions left to try.\<close>

primrec scan_loop :: "nat \<Rightarrow> bitmap \<Rightarrow> nat \<Rightarrow> bool \<Rightarrow> nat \<Rightarrow> nat option" where
  "scan_loop 0 b cnt v i = Some BITMAP_ERROR"
| "scan_loop (Suc n) b cnt v i = do {
     c \<leftarrow> bitmap_contains b i cnt (\<not> v);
     if \<not> c then Some i else scan_loop n b cnt v (Suc i) }"

definition bitmap_scan :: "bitmap \<Rightarrow> nat \<Rightarrow> nat \<Rightarrow> bool \<Rightarrow> nat option" where
  "bitmap_scan b start cnt v = do {
     ASSERT (start \<le> bit_cnt b);
     if cnt \<le> bit_cnt b
     then let last = bit_cnt b - cnt in scan_loop (Suc last - start) b cnt v start
     else Some BITMAP_ERROR }"

definition bitmap_scan_and_flip :: "bitmap \<Rightarrow> nat \<Rightarrow> nat \<Rightarrow> bool \<Rightarrow> (nat \<times> bitmap) option" where
  "bitmap_scan_and_flip b start cnt v = do {
     idx \<leftarrow> bitmap_scan b start cnt v;
     if idx \<noteq> BITMAP_ERROR
     then do { b \<leftarrow> bitmap_set_multiple b idx cnt (\<not> v); Some (idx, b) }
     else Some (idx, b) }"

text \<open>
  Storing a bitmap in a file: the elements in little-endian byte order. \<open>bitmap_read\<close>
  takes the bytes that \<^verbatim>\<open>file_read_at\<close> delivered, \<open>bitmap_write\<close> gives the bytes it
  hands to \<^verbatim>\<open>file_write_at\<close> (whose byte count the callers check).
\<close>

definition word_bytes :: "32 word \<Rightarrow> 8 word list" where
  "word_bytes w = map (\<lambda>i. ucast (drop_bit (8 * i) w)) [0..<4]"

definition bytes_word :: "8 word list \<Rightarrow> 32 word" where
  "bytes_word bs = foldr (\<lambda>x acc. ucast x OR push_bit 8 acc) bs 0"

definition elems_bytes :: "32 word list \<Rightarrow> 8 word list" where
  "elems_bytes ws = concat (map word_bytes ws)"

fun bytes_elems :: "8 word list \<Rightarrow> 32 word list" where
  "bytes_elems (a # b # c # d # bs) = bytes_word [a, b, c, d] # bytes_elems bs"
| "bytes_elems _ = []"

definition bitmap_file_size :: "bitmap \<Rightarrow> nat" where
  "bitmap_file_size b = byte_cnt (bit_cnt b)"

definition bitmap_read :: "bitmap \<Rightarrow> 8 word list \<Rightarrow> (bool \<times> bitmap) option" where
  "bitmap_read b data =
     (if bit_cnt b > 0 then
        let size = byte_cnt (bit_cnt b);
            success = (length data = size);
            bytes = data @ drop (length data) (elems_bytes (bits b));
            ws = bytes_elems bytes;
            i = elem_cnt (bit_cnt b) - 1
        in do { ASSERT (i < length ws);
                Some (success, b\<lparr>bits := ws[i := ws ! i AND last_mask b]\<rparr>) }
      else Some (True, b))"

definition bitmap_write :: "bitmap \<Rightarrow> 8 word list" where
  "bitmap_write b = take (byte_cnt (bit_cnt b)) (elems_bytes (bits b))"

section \<open>The bits of a bitmap\<close>

definition bitmap_abs :: "bitmap \<Rightarrow> bool list" where
  "bitmap_abs b = map (\<lambda>i. bit (bits b ! (i div 32)) (i mod 32)) [0..<bit_cnt b]"

definition bitmap_wf :: "bitmap \<Rightarrow> bool" where
  "bitmap_wf b \<longleftrightarrow> bit_cnt b \<le> 2 ^ 32 - 32 \<and> length (bits b) = elem_cnt (bit_cnt b)"

text \<open>Setting a range of a sequence of bits.\<close>

definition set_range :: "nat \<Rightarrow> nat \<Rightarrow> 'a \<Rightarrow> 'a list \<Rightarrow> 'a list" where
  "set_range start cnt v xs = take start xs @ replicate cnt v @ drop (start + cnt) xs"

definition range_is :: "nat \<Rightarrow> nat \<Rightarrow> 'a \<Rightarrow> 'a list \<Rightarrow> bool" where
  "range_is start cnt v xs \<longleftrightarrow> (\<forall>i<cnt. xs ! (start + i) = v)"

lemma length_bitmap_abs [simp]: "length (bitmap_abs b) = bit_cnt b"
  by (simp add: bitmap_abs_def)

lemma bitmap_abs_nth [simp]: "i < bit_cnt b \<Longrightarrow> bitmap_abs b ! i = bit (bits b ! (i div 32)) (i mod 32)"
  by (simp add: bitmap_abs_def)

lemma elem_idx_wf: "bitmap_wf b \<Longrightarrow> i < bit_cnt b \<Longrightarrow> i div 32 < length (bits b)"
  by (auto simp: bitmap_wf_def elem_cnt_def u32_def)

lemma bit_mask_bit: "j < 32 \<Longrightarrow> bit (bit_mask i) j \<longleftrightarrow> j = i mod 32"
  by (auto simp: bit_mask_def bit_exp_iff)

lemma and_mask_nonzero: "w AND bit_mask i \<noteq> 0 \<longleftrightarrow> bit w (i mod 32)"
proof -
  have "bit (w AND bit_mask i) j \<longleftrightarrow> j = i mod 32 \<and> bit w (i mod 32)" for j
    by (auto simp: bit_and_iff bit_mask_def bit_exp_iff)
  then show ?thesis by (metis bit_0_eq bot_apply bot_bool_def bit_eq_iff)
qed

lemma bitmap_test_ok: "bitmap_wf b \<Longrightarrow> i < bit_cnt b \<Longrightarrow> bitmap_test b i = Some (bitmap_abs b ! i)"
  using elem_idx_wf [of b i] by (simp add: bitmap_test_def elem_idx_def and_mask_nonzero)

lemma div_mod_eq_iff: "i div 32 = j div 32 \<and> i mod 32 = j mod 32 \<longleftrightarrow> i = (j::nat)"
  by (metis div_mult_mod_eq)

lemma bitmap_wf_upd [simp]: "bitmap_wf (b\<lparr>bits := (bits b)[i := w]\<rparr>) = bitmap_wf b"
  by (simp add: bitmap_wf_def)

lemma bitmap_abs_upd:
  assumes wf: "bitmap_wf b" and i: "i < bit_cnt b"
    and w: "\<And>j. j < 32 \<Longrightarrow> bit w j = (if j = i mod 32 then v else bit (bits b ! (i div 32)) j)"
  shows "bitmap_abs (b\<lparr>bits := (bits b)[i div 32 := w]\<rparr>) = (bitmap_abs b)[i := v]"
proof (rule nth_equalityI)
  fix k assume "k < length (bitmap_abs (b\<lparr>bits := (bits b)[i div 32 := w]\<rparr>))"
  then have k: "k < bit_cnt b" by simp
  show "bitmap_abs (b\<lparr>bits := (bits b)[i div 32 := w]\<rparr>) ! k = (bitmap_abs b)[i := v] ! k"
    using k i elem_idx_wf [OF wf i] div_mod_eq_iff [of k i] w [of "k mod 32"]
    by (cases "k div 32 = i div 32") (auto simp: nth_list_update)
qed simp

lemma bitmap_mark_ok:
  assumes "bitmap_wf b" "i < bit_cnt b"
  shows "\<exists>b'. bitmap_mark b i = Some b' \<and> bitmap_wf b' \<and> bit_cnt b' = bit_cnt b \<and> bitmap_abs b' = (bitmap_abs b)[i := True]"
  using assms elem_idx_wf [OF assms]
  by (auto simp: bitmap_mark_def elem_idx_def Let_def bit_or_iff bit_mask_bit intro!: bitmap_abs_upd)

lemma bitmap_reset_ok:
  assumes "bitmap_wf b" "i < bit_cnt b"
  shows "\<exists>b'. bitmap_reset b i = Some b' \<and> bitmap_wf b' \<and> bit_cnt b' = bit_cnt b \<and> bitmap_abs b' = (bitmap_abs b)[i := False]"
  using assms elem_idx_wf [OF assms]
  by (auto simp: bitmap_reset_def elem_idx_def Let_def bit_and_iff bit_not_iff bit_mask_bit intro!: bitmap_abs_upd
      split: if_splits)

lemma bitmap_flip_ok:
  assumes "bitmap_wf b" "i < bit_cnt b"
  shows "\<exists>b'. bitmap_flip b i = Some b' \<and> bitmap_wf b' \<and> bit_cnt b' = bit_cnt b \<and> bitmap_abs b' = (bitmap_abs b)[i := \<not> bitmap_abs b ! i]"
  using assms elem_idx_wf [OF assms]
  by (auto simp: bitmap_flip_def elem_idx_def Let_def bit_xor_iff bit_mask_bit intro!: bitmap_abs_upd)

lemma bitmap_set_ok:
  assumes "bitmap_wf b" "i < bit_cnt b"
  shows "\<exists>b'. bitmap_set b i v = Some b' \<and> bitmap_wf b' \<and> bit_cnt b' = bit_cnt b \<and> bitmap_abs b' = (bitmap_abs b)[i := v]"
  using assms bitmap_mark_ok [OF assms] bitmap_reset_ok [OF assms] by (cases v) (auto simp: bitmap_set_def)

lemma length_set_range [simp]: "start + cnt \<le> length xs \<Longrightarrow> length (set_range start cnt v xs) = length xs"
  by (simp add: set_range_def)

lemma nth_set_range:
  "start + cnt \<le> length xs \<Longrightarrow> i < length xs \<Longrightarrow>
   set_range start cnt v xs ! i = (if start \<le> i \<and> i < start + cnt then v else xs ! i)"
  by (auto simp: set_range_def nth_append)

lemma set_range_Suc:
  "start + cnt < length xs \<Longrightarrow> set_range start (Suc cnt) v xs = (set_range start cnt v xs)[start + cnt := v]"
  by (rule nth_equalityI) (auto simp: nth_set_range nth_list_update)

lemma wf_bit_cnt: "bitmap_wf b \<Longrightarrow> bit_cnt b < 2 ^ 32"
  by (simp add: bitmap_wf_def)

lemma u32_in_range: "bitmap_wf b \<Longrightarrow> i \<le> bit_cnt b \<Longrightarrow> u32 i = i"
  using wf_bit_cnt [of b] by simp

lemma foldM_append: "foldM f s (xs @ ys) = do { s' \<leftarrow> foldM f s xs; foldM f s' ys }"
  by (induction xs arbitrary: s) (auto split: Option.bind_splits)

lemma set_loop_ok:
  assumes wf: "bitmap_wf b" and r: "start + cnt \<le> bit_cnt b"
  shows "\<exists>b'. foldM (\<lambda>b i. bitmap_set b (u32 (start + i)) v) b [0..<cnt] = Some b' \<and> bitmap_wf b' \<and>
     bit_cnt b' = bit_cnt b \<and> bitmap_abs b' = set_range start cnt v (bitmap_abs b)"
  using r
proof (induction cnt)
  case 0
  then show ?case using wf by (simp add: set_range_def)
next
  case (Suc cnt)
  then obtain b1 where b1: "foldM (\<lambda>b i. bitmap_set b (u32 (start + i)) v) b [0..<cnt] = Some b1"
    "bitmap_wf b1" "bit_cnt b1 = bit_cnt b" "bitmap_abs b1 = set_range start cnt v (bitmap_abs b)" by auto
  have "u32 (start + cnt) = start + cnt" using u32_in_range [OF wf] Suc.prems by simp
  with bitmap_set_ok [OF b1(2), of "start + cnt" v] b1 Suc.prems show ?case
    by (auto simp: foldM_append set_range_Suc)
qed

lemma bitmap_set_multiple_ok:
  assumes "bitmap_wf b" "start + cnt \<le> bit_cnt b"
  shows "\<exists>b'. bitmap_set_multiple b start cnt v = Some b' \<and> bitmap_wf b' \<and>
     bit_cnt b' = bit_cnt b \<and> bitmap_abs b' = set_range start cnt v (bitmap_abs b)"
  using set_loop_ok [OF assms] u32_in_range [OF assms(1)] assms by (simp add: bitmap_set_multiple_def)

lemma bitmap_set_all_ok:
  assumes "bitmap_wf b"
  shows "\<exists>b'. bitmap_set_all b v = Some b' \<and> bitmap_wf b' \<and>
     bit_cnt b' = bit_cnt b \<and> bitmap_abs b' = replicate (bit_cnt b) v"
  using bitmap_set_multiple_ok [OF assms, of 0 "bit_cnt b" v]
  by (simp add: bitmap_set_all_def bitmap_size_def set_range_def)

lemma contains_loop_ok:
  "bitmap_wf b \<Longrightarrow> start + i + n \<le> bit_cnt b \<Longrightarrow>
   contains_loop b start v n i = Some (\<exists>k. i \<le> k \<and> k < i + n \<and> bitmap_abs b ! (start + k) = v)"
proof (induction n arbitrary: i)
  case (Suc n)
  have t: "bitmap_test b (u32 (start + i)) = Some (bitmap_abs b ! (start + i))"
    using Suc.prems u32_in_range [of b "start + i"] by (simp add: bitmap_test_ok)
  have "(\<exists>k\<ge>i. k < i + Suc n \<and> bitmap_abs b ! (start + k) = v) \<longleftrightarrow>
    bitmap_abs b ! (start + i) = v \<or> (\<exists>k\<ge>Suc i. k < Suc i + n \<and> bitmap_abs b ! (start + k) = v)"
    by (metis Suc_le_eq add_Suc_right add_Suc le_eq_less_or_eq less_add_Suc1)
  then show ?case using t Suc.IH [of "Suc i"] Suc.prems by simp
qed simp

lemma bitmap_contains_ok:
  assumes "bitmap_wf b" "start + cnt \<le> bit_cnt b"
  shows "bitmap_contains b start cnt v = Some (\<not> range_is start cnt (\<not> v) (bitmap_abs b))"
  using contains_loop_ok [OF assms(1), of start 0 cnt v] u32_in_range [OF assms(1)] assms
  by (auto simp: bitmap_contains_def range_is_def)

text \<open>Counting, and the first group of equal bits at or after a position.\<close>

lemma count_loop_ok:
  "bitmap_wf b \<Longrightarrow> start + i + n \<le> bit_cnt b \<Longrightarrow>
   count_loop b start v n i (u32 c) =
     Some (u32 (c + length (filter (\<lambda>x. x = v) (take n (drop (start + i) (bitmap_abs b))))))"
proof (induction n arbitrary: i c)
  case (Suc n)
  have t: "bitmap_test b (u32 (start + i)) = Some (bitmap_abs b ! (start + i))"
    using Suc.prems u32_in_range [of b "start + i"] by (simp add: bitmap_test_ok)
  have d: "drop (start + i) (bitmap_abs b) = bitmap_abs b ! (start + i) # drop (start + Suc i) (bitmap_abs b)"
    using Suc.prems by (simp add: Cons_nth_drop_Suc del: bitmap_abs_nth)
  show ?case using t d Suc.IH [of "Suc i" c] Suc.IH [of "Suc i" "Suc c"] Suc.prems
    by (simp del: bitmap_abs_nth)
qed simp

lemma bitmap_count_ok:
  assumes "bitmap_wf b" "start + cnt \<le> bit_cnt b"
  shows "bitmap_count b start cnt v = Some (length (filter (\<lambda>x. x = v) (take cnt (drop start (bitmap_abs b)))))"
proof -
  have "length (filter (\<lambda>x. x = v) (take cnt (drop start (bitmap_abs b)))) \<le> cnt"
    by (rule order_trans [OF length_filter_le]) simp
  then have "u32 (length (filter (\<lambda>x. x = v) (take cnt (drop start (bitmap_abs b))))) =
    length (filter (\<lambda>x. x = v) (take cnt (drop start (bitmap_abs b))))"
    using u32_in_range [OF assms(1)] assms(2) by simp
  then show ?thesis
    using count_loop_ok [OF assms(1), of start 0 cnt v 0] u32_in_range [OF assms(1)] assms
    by (simp add: bitmap_count_def)
qed

definition first_fit :: "bool list \<Rightarrow> nat \<Rightarrow> nat \<Rightarrow> bool \<Rightarrow> nat option" where
  "first_fit xs start cnt v = List.find (\<lambda>i. range_is i cnt v xs) [start..<Suc (length xs) - cnt]"

lemma first_fit_Some:
  assumes "first_fit xs start cnt v = Some i" "cnt \<le> length xs"
  shows "start \<le> i" "i + cnt \<le> length xs" "range_is i cnt v xs"
    "\<And>j. start \<le> j \<Longrightarrow> j < i \<Longrightarrow> \<not> range_is j cnt v xs"
proof -
  from assms obtain k where k: "k < length [start..<Suc (length xs) - cnt]"
    "i = [start..<Suc (length xs) - cnt] ! k" "range_is i cnt v xs"
    "\<forall>j<k. \<not> range_is ([start..<Suc (length xs) - cnt] ! j) cnt v xs"
    unfolding first_fit_def find_Some_iff by metis
  then have i: "i = start + k" by (simp del: upt_Suc)
  then show "start \<le> i" "i + cnt \<le> length xs" "range_is i cnt v xs" using k assms(2) by auto
  show "\<not> range_is j cnt v xs" if "start \<le> j" "j < i" for j
  proof -
    have "j - start < k" using that i by simp
    moreover have "[start..<Suc (length xs) - cnt] ! (j - start) = j"
      using that i k(1) by (simp del: upt_Suc)
    ultimately show ?thesis using k(4) by metis
  qed
qed

lemma first_fit_None:
  "first_fit xs start cnt v = None \<longleftrightarrow> (\<forall>i\<ge>start. i + cnt \<le> length xs \<longrightarrow> \<not> range_is i cnt v xs)"
  by (auto simp: first_fit_def find_None_iff)

lemma first_fit_bound: "first_fit xs start cnt v = Some i \<Longrightarrow> i + cnt \<le> length xs"
  by (auto simp: first_fit_def find_Some_iff simp del: upt_Suc)

lemma scan_loop_ok:
  "bitmap_wf b \<Longrightarrow> i + n + cnt \<le> Suc (bit_cnt b) \<Longrightarrow>
   scan_loop n b cnt v i =
     Some (case List.find (\<lambda>i. range_is i cnt v (bitmap_abs b)) [i..<i + n] of None \<Rightarrow> BITMAP_ERROR | Some k \<Rightarrow> k)"
proof (induction n arbitrary: i)
  case (Suc n)
  have "[i..<i + Suc n] = i # [Suc i..<Suc i + n]" by (simp add: upt_rec)
  then show ?case
    using Suc bitmap_contains_ok [of b i cnt "\<not> v"] by (simp del: upt_Suc)
qed simp

lemma bitmap_scan_ok:
  assumes "bitmap_wf b" "start \<le> bit_cnt b"
  shows "bitmap_scan b start cnt v =
    Some (case first_fit (bitmap_abs b) start cnt v of None \<Rightarrow> BITMAP_ERROR | Some i \<Rightarrow> i)"
proof (cases "start \<le> Suc (bit_cnt b) - cnt \<and> cnt \<le> bit_cnt b")
  case True
  then have n: "start + (Suc (bit_cnt b) - cnt - start) + cnt \<le> Suc (bit_cnt b)"
    and eq: "start + (Suc (bit_cnt b) - cnt - start) = Suc (bit_cnt b) - cnt"
    and last: "Suc (bit_cnt b - cnt) = Suc (bit_cnt b) - cnt" by arith+
  show ?thesis
    using scan_loop_ok [OF assms(1) n, of v] True assms unfolding eq
    by (simp add: bitmap_scan_def first_fit_def Let_def last del: upt_Suc Suc_diff_le)
next
  case False
  then show ?thesis using assms
    by (auto simp: bitmap_scan_def first_fit_def Let_def simp del: upt_Suc)
qed

lemma bitmap_scan_and_flip_Some:
  assumes wf: "bitmap_wf b" and "start \<le> bit_cnt b" and f: "first_fit (bitmap_abs b) start cnt v = Some i"
  shows "\<exists>b'. bitmap_scan_and_flip b start cnt v = Some (i, b') \<and> bitmap_wf b' \<and> bit_cnt b' = bit_cnt b \<and>
    bitmap_abs b' = set_range i cnt (\<not> v) (bitmap_abs b)"
proof -
  have i: "i + cnt \<le> bit_cnt b" using first_fit_bound [OF f] by simp
  then have "i \<noteq> BITMAP_ERROR" using wf by (auto simp: BITMAP_ERROR_def bitmap_wf_def)
  then show ?thesis
    using bitmap_set_multiple_ok [OF wf i, of "\<not> v"] bitmap_scan_ok [OF wf assms(2), of cnt v] f
    by (auto simp: bitmap_scan_and_flip_def)
qed

lemma bitmap_scan_and_flip_None:
  "bitmap_wf b \<Longrightarrow> start \<le> bit_cnt b \<Longrightarrow> first_fit (bitmap_abs b) start cnt v = None \<Longrightarrow>
   bitmap_scan_and_flip b start cnt v = Some (BITMAP_ERROR, b)"
  by (simp add: bitmap_scan_and_flip_def bitmap_scan_ok)

lemma bitmap_create_ok:
  assumes "n \<le> 2 ^ 32 - 32" "length ws = elem_cnt n"
  shows "\<exists>b. bitmap_create True (Some ws) n = Some (Some b) \<and> bitmap_wf b \<and> bitmap_abs b = replicate n False"
  using bitmap_set_all_ok [of "\<lparr>bit_cnt = n, bits = ws\<rparr>" False] assms
  by (auto simp: bitmap_create_def bitmap_wf_def)

section \<open>Storing a bitmap in a file\<close>

lemma upt_0_4: "[0..<4] = [0, 1, 2, 3::nat]"
  by (simp add: upt_rec)

lemma bytes_word_bytes: "bytes_word (word_bytes w) = w"
proof (rule bit_word_eqI)
  fix n assume n: "n < LENGTH(32)"
  then consider "n < 8" | "8 \<le> n \<and> n < 16" | "16 \<le> n \<and> n < 24" | "24 \<le> n \<and> n < 32" by fastforce
  then show "bit (bytes_word (word_bytes w)) n = bit w n"
    by cases (auto simp: bytes_word_def word_bytes_def upt_0_4 bit_or_iff bit_push_bit_iff
      bit_ucast_iff bit_drop_bit_eq)
qed

lemma length_word_bytes [simp]: "length (word_bytes w) = 4"
  by (simp add: word_bytes_def)

lemma bytes_elems_bytes: "bytes_elems (elems_bytes ws) = ws"
proof (induction ws)
  case (Cons w ws)
  obtain a b c d where w: "word_bytes w = [a, b, c, d]"
    by (simp add: word_bytes_def upt_0_4)
  then show ?case using Cons bytes_word_bytes [of w] by (simp add: elems_bytes_def)
qed (simp add: elems_bytes_def)

lemma length_elems_bytes [simp]: "length (elems_bytes ws) = 4 * length ws"
  by (induction ws) (auto simp: elems_bytes_def)

lemma wf_byte_cnt: "bitmap_wf b \<Longrightarrow> byte_cnt (bit_cnt b) = 4 * length (bits b)"
  by (auto simp: bitmap_wf_def byte_cnt_def elem_cnt_def u32_def)

text \<open>Reading back what was written gives the same bits, into any bitmap of the same size.\<close>

lemma last_mask_bit:
  "j < 32 \<Longrightarrow> bit (last_mask b) j \<longleftrightarrow> bit_cnt b mod 32 = 0 \<or> j < bit_cnt b mod 32"
  by (auto simp: last_mask_def Let_def bit_mask_iff simp flip: mask_eq_exp_minus_1)

lemma div_round_up_32: "n mod 32 \<noteq> 0 \<Longrightarrow> (n + 31) div 32 = Suc (n div (32::nat))"
proof -
  assume "n mod 32 \<noteq> 0"
  moreover define q r where "q = n div 32" and "r = n mod 32"
  ultimately have r: "0 < r" "r < 32" "n = 32 * q + r" by simp_all
  then have "(n + 31) div 32 = Suc q" by (intro div_nat_eqI) simp_all
  then show ?thesis by (simp add: q_def)
qed

lemma bitmap_read_write:
  assumes wf: "bitmap_wf b" "bitmap_wf c" and same: "bit_cnt c = bit_cnt b"
  shows "\<exists>c'. bitmap_read c (bitmap_write b) = Some (True, c') \<and> bitmap_wf c' \<and> bitmap_abs c' = bitmap_abs b"
proof (cases "bit_cnt b = 0")
  case True
  then show ?thesis using wf same by (auto simp: bitmap_read_def bitmap_abs_def)
next
  case False
  let ?i = "elem_cnt (bit_cnt b) - 1"
  have len: "length (bits c) = length (bits b)" "?i < length (bits b)"
    using wf same False by (auto simp: bitmap_wf_def elem_cnt_def u32_def)
  have w: "bitmap_write b = elems_bytes (bits b)" using wf_byte_cnt [OF wf(1)] by (simp add: bitmap_write_def)
  let ?c = "c\<lparr>bits := (bits b)[?i := bits b ! ?i AND last_mask c]\<rparr>"
  have r: "bitmap_read c (bitmap_write b) = Some (True, ?c)"
    using False same len wf_byte_cnt [OF wf(2)] wf
    by (simp add: bitmap_read_def w Let_def bytes_elems_bytes)
  have "bitmap_abs ?c = bitmap_abs b"
  proof (rule nth_equalityI)
    fix k assume "k < length (bitmap_abs ?c)"
    then have k: "k < bit_cnt b" using same by simp
    then have "k div 32 < length (bits b)" using elem_idx_wf [OF wf(1)] by simp
    moreover have "bit (last_mask c) (k mod 32)" if "k div 32 = ?i"
    proof -
      have "bit_cnt b mod 32 = 0 \<or> k mod 32 < bit_cnt b mod 32"
      proof (rule ccontr)
        assume a: "\<not> ?thesis"
        have "u32 (bit_cnt b + 32 - 1) = bit_cnt b + 31" using wf(1) by (simp add: bitmap_wf_def)
        then have "?i = (bit_cnt b + 31) div 32 - 1" by (simp add: elem_cnt_def)
        also have "\<dots> = bit_cnt b div 32" using a by (simp add: div_round_up_32)
        finally have "k div 32 = bit_cnt b div 32" using that by simp
        then show False using a k div_mult_mod_eq [of k 32] div_mult_mod_eq [of "bit_cnt b" 32] by simp
      qed
      then show ?thesis using same last_mask_bit [of "k mod 32" c] by simp
    qed
    ultimately show "bitmap_abs ?c ! k = bitmap_abs b ! k"
      using k same len by (cases "k div 32 = ?i") (auto simp: bit_and_iff)
  qed (use same in simp)
  then show ?thesis using r wf same by (auto simp: bitmap_wf_def)
qed

section \<open>Allocating from a bitmap\<close>

text \<open>
  The contract the allocators use: a scan that flips the first free group, and the
  release of a group. The bits are the abstract state.
\<close>

locale bit_allocator =
  fixes invar :: "'b \<Rightarrow> bool"
    and bits_of :: "'b \<Rightarrow> bool list"
    and scan_flip :: "'b \<Rightarrow> nat \<Rightarrow> nat \<Rightarrow> bool \<Rightarrow> (nat \<times> 'b) option"
    and set_bits :: "'b \<Rightarrow> nat \<Rightarrow> nat \<Rightarrow> bool \<Rightarrow> 'b option"
    and err :: nat
  assumes scan_flip_Some: "invar b \<Longrightarrow> start \<le> length (bits_of b) \<Longrightarrow> first_fit (bits_of b) start cnt v = Some i \<Longrightarrow>
      \<exists>b'. scan_flip b start cnt v = Some (i, b') \<and> invar b' \<and> bits_of b' = set_range i cnt (\<not> v) (bits_of b)"
    and scan_flip_None: "invar b \<Longrightarrow> start \<le> length (bits_of b) \<Longrightarrow> first_fit (bits_of b) start cnt v = None \<Longrightarrow>
      scan_flip b start cnt v = Some (err, b)"
    and set_bits_ok: "invar b \<Longrightarrow> start + cnt \<le> length (bits_of b) \<Longrightarrow>
      \<exists>b'. set_bits b start cnt v = Some b' \<and> invar b' \<and> bits_of b' = set_range start cnt v (bits_of b)"
    and err_beyond: "invar b \<Longrightarrow> length (bits_of b) < err"
begin

lemma scan_flip_total:
  assumes "invar b" "start \<le> length (bits_of b)"
  obtains i b' where "scan_flip b start cnt v = Some (i, b')" "invar b'" "length (bits_of b') = length (bits_of b)"
proof (cases "first_fit (bits_of b) start cnt v")
  case None
  then show ?thesis using scan_flip_None [OF assms None] assms that by blast
next
  case (Some i)
  then show ?thesis using scan_flip_Some [OF assms Some] first_fit_bound [OF Some] that by auto
qed

text \<open>What a successful allocation returns was free, and is taken afterwards; nothing else changes.\<close>

lemma scan_flip_success:
  assumes "invar b" "start \<le> length (bits_of b)" "scan_flip b start cnt v = Some (i, b')" "i \<noteq> err"
  shows "invar b'" "i + cnt \<le> length (bits_of b)" "range_is i cnt v (bits_of b)"
    "bits_of b' = set_range i cnt (\<not> v) (bits_of b)"
proof -
  obtain k where k: "first_fit (bits_of b) start cnt v = Some k"
    using scan_flip_None [OF assms(1,2)] assms(3,4) by (cases "first_fit (bits_of b) start cnt v") auto
  then have "cnt \<le> length (bits_of b)" using first_fit_bound by fastforce
  with scan_flip_Some [OF assms(1,2) k] first_fit_Some [OF k] assms(3)
  show "invar b'" "i + cnt \<le> length (bits_of b)" "range_is i cnt v (bits_of b)"
    "bits_of b' = set_range i cnt (\<not> v) (bits_of b)" by auto
qed

lemma scan_flip_failure:
  assumes "invar b" "start \<le> length (bits_of b)" "scan_flip b start cnt v = Some (err, b')"
  shows "b' = b" "\<And>i. start \<le> i \<Longrightarrow> i + cnt \<le> length (bits_of b) \<Longrightarrow> \<not> range_is i cnt v (bits_of b)"
proof -
  have n: "first_fit (bits_of b) start cnt v = None"
  proof (rule ccontr)
    assume "first_fit (bits_of b) start cnt v \<noteq> None"
    then obtain k where k: "first_fit (bits_of b) start cnt v = Some k" by blast
    then show False using scan_flip_Some [OF assms(1,2) k] assms(3) first_fit_bound [OF k] err_beyond [OF assms(1)]
      by auto
  qed
  then show "b' = b" using scan_flip_None [OF assms(1,2) n] assms(3) by simp
  show "\<not> range_is i cnt v (bits_of b)" if "start \<le> i" "i + cnt \<le> length (bits_of b)" for i
    using n that by (simp add: first_fit_None)
qed

text \<open>Two groups that are allocated one after the other do not overlap.\<close>

lemma alloc_disjoint:
  assumes "invar b" "s1 \<le> length (bits_of b)" "scan_flip b s1 c1 v = Some (i, b1)" "i \<noteq> err"
    and "s2 \<le> length (bits_of b)" "scan_flip b1 s2 c2 v = Some (j, b2)" "j \<noteq> err"
  shows "{i..<i + c1} \<inter> {j..<j + c2} = {}"
proof -
  note s1 = scan_flip_success [OF assms(1-4)]
  have l: "length (bits_of b1) = length (bits_of b)" using s1 by simp
  note s2 = scan_flip_success [OF s1(1) _ assms(6,7)]
  have r: "range_is j c2 v (bits_of b1)" "j + c2 \<le> length (bits_of b)" using s2 assms(5) l by auto
  have False if "i \<le> k" "k < i + c1" "j \<le> k" "k < j + c2" for k
  proof -
    have "bits_of b1 ! k = v" using r(1) that unfolding range_is_def by (metis add_diff_inverse_nat nat_add_left_cancel_less not_less)
    moreover have "bits_of b1 ! k = (\<not> v)" using s1 that by (simp add: nth_set_range)
    ultimately show False by simp
  qed
  then show ?thesis unfolding disjoint_iff atLeastLessThan_iff by blast
qed

text \<open>Releasing what was allocated restores the bits.\<close>

lemma alloc_release:
  assumes "invar b" "start \<le> length (bits_of b)" "scan_flip b start cnt v = Some (i, b1)" "i \<noteq> err"
  shows "\<exists>b2. set_bits b1 i cnt v = Some b2 \<and> invar b2 \<and> bits_of b2 = bits_of b"
proof -
  note s = scan_flip_success [OF assms]
  have "set_range i cnt v (set_range i cnt (\<not> v) (bits_of b)) = bits_of b"
  proof (rule nth_equalityI)
    show "set_range i cnt v (set_range i cnt (\<not> v) (bits_of b)) ! k = bits_of b ! k"
      if "k < length (set_range i cnt v (set_range i cnt (\<not> v) (bits_of b)))" for k
    proof -
      have k: "k < length (bits_of b)" using that s(2) by simp
      show ?thesis
      proof (cases "i \<le> k \<and> k < i + cnt")
        case True
        then obtain m where "k = i + m" "m < cnt" by (metis le_Suc_ex nat_add_left_cancel_less)
        then show ?thesis using s(2,3) k by (simp add: nth_set_range range_is_def)
      next
        case False
        then show ?thesis using s(2) k by (auto simp: nth_set_range)
      qed
    qed
  qed (use s(2) in simp)
  then show ?thesis using set_bits_ok [OF s(1), of i cnt v] s(2,4) by auto
qed

end

interpretation bm: bit_allocator bitmap_wf bitmap_abs bitmap_scan_and_flip bitmap_set_multiple BITMAP_ERROR
proof unfold_locales
  show "length (bitmap_abs b) < BITMAP_ERROR" if "bitmap_wf b" for b
    using that by (auto simp: bitmap_wf_def BITMAP_ERROR_def)
qed (use bitmap_scan_and_flip_Some bitmap_scan_and_flip_None bitmap_set_multiple_ok in
  \<open>fastforce+\<close>)

section \<open>Properties\<close>

text \<open>
  Allocation with \<^verbatim>\<open>bitmap_scan_and_flip\<close>. On a well-formed bitmap the call never faults. It
  returns the first index at or after the start from which \<open>cnt\<close> consecutive bits have
  the wanted value and flips exactly those bits, or \<^verbatim>\<open>BITMAP_ERROR\<close> with the bitmap unchanged
  when there is no such group; setting the group back restores every bit.
\<close>

theorem scan_and_flip_allocates:
  assumes "bitmap_wf b" "start \<le> bit_cnt b"
  shows "\<exists>i b'. bitmap_scan_and_flip b start cnt v = Some (i, b') \<and> bitmap_wf b' \<and>
    (if i = BITMAP_ERROR
     then b' = b \<and> (\<forall>k\<ge>start. k + cnt \<le> bit_cnt b \<longrightarrow> \<not> range_is k cnt v (bitmap_abs b))
     else start \<le> i \<and> i + cnt \<le> bit_cnt b \<and> range_is i cnt v (bitmap_abs b) \<and>
       (\<forall>k. start \<le> k \<and> k < i \<longrightarrow> \<not> range_is k cnt v (bitmap_abs b)) \<and>
       bitmap_abs b' = set_range i cnt (\<not> v) (bitmap_abs b) \<and>
       (\<exists>b''. bitmap_set_multiple b' i cnt v = Some b'' \<and> bitmap_abs b'' = bitmap_abs b))"
proof (cases "first_fit (bitmap_abs b) start cnt v")
  case None
  then show ?thesis using bitmap_scan_and_flip_None [OF assms None] assms by (auto simp: first_fit_None)
next
  case (Some i)
  have c: "cnt \<le> length (bitmap_abs b)" using first_fit_bound [OF Some] by simp
  note f = first_fit_Some [OF Some c]
  obtain b' where b': "bitmap_scan_and_flip b start cnt v = Some (i, b')" "bitmap_wf b'"
    "bitmap_abs b' = set_range i cnt (\<not> v) (bitmap_abs b)"
    using bitmap_scan_and_flip_Some [OF assms Some] by blast
  have ne: "i \<noteq> BITMAP_ERROR" using bm.err_beyond [OF assms(1)] f(2) by auto
  have "\<exists>b''. bitmap_set_multiple b' i cnt v = Some b'' \<and> bitmap_wf b'' \<and> bitmap_abs b'' = bitmap_abs b"
    using bm.alloc_release [OF assms(1) _ b'(1) ne] assms(2) by simp
  then show ?thesis using b' f ne by auto
qed

definition demo_bitmap :: bitmap where
  "demo_bitmap = \<lparr>bit_cnt = 40, bits = [7, 0]\<rparr>"

lemma scan_and_flip_allocates_witness:
  "\<exists>i b'. bitmap_scan_and_flip demo_bitmap 1 2 False = Some (i, b') \<and> bitmap_wf b' \<and>
    (if i = BITMAP_ERROR
     then b' = demo_bitmap \<and>
       (\<forall>k\<ge>1. k + 2 \<le> bit_cnt demo_bitmap \<longrightarrow> \<not> range_is k 2 False (bitmap_abs demo_bitmap))
     else 1 \<le> i \<and> i + 2 \<le> bit_cnt demo_bitmap \<and> range_is i 2 False (bitmap_abs demo_bitmap) \<and>
       (\<forall>k. 1 \<le> k \<and> k < i \<longrightarrow> \<not> range_is k 2 False (bitmap_abs demo_bitmap)) \<and>
       bitmap_abs b' = set_range i 2 (\<not> False) (bitmap_abs demo_bitmap) \<and>
       (\<exists>b''. bitmap_set_multiple b' i 2 False = Some b'' \<and> bitmap_abs b'' = bitmap_abs demo_bitmap))"
  by (rule scan_and_flip_allocates) (simp_all add: demo_bitmap_def bitmap_wf_def elem_cnt_def)

text \<open>
  The single-bit operations act on exactly one bit. On a well-formed bitmap, marking,
  resetting and flipping an index in range never fault and change that bit only; testing
  reads it.
\<close>

theorem bitmap_bit_ops:
  assumes "bitmap_wf b" "i < bit_cnt b"
  shows "map_option bitmap_abs (bitmap_mark b i) = Some ((bitmap_abs b)[i := True]) \<and>
    map_option bitmap_abs (bitmap_reset b i) = Some ((bitmap_abs b)[i := False]) \<and>
    map_option bitmap_abs (bitmap_flip b i) = Some ((bitmap_abs b)[i := \<not> bitmap_abs b ! i]) \<and>
    bitmap_test b i = Some (bitmap_abs b ! i)"
  using bitmap_mark_ok [OF assms] bitmap_reset_ok [OF assms] bitmap_flip_ok [OF assms] bitmap_test_ok [OF assms]
  by auto

lemma bitmap_bit_ops_witness:
  "map_option bitmap_abs (bitmap_mark demo_bitmap 33) = Some ((bitmap_abs demo_bitmap)[33 := True]) \<and>
    map_option bitmap_abs (bitmap_reset demo_bitmap 33) = Some ((bitmap_abs demo_bitmap)[33 := False]) \<and>
    map_option bitmap_abs (bitmap_flip demo_bitmap 33) = Some ((bitmap_abs demo_bitmap)[33 := \<not> bitmap_abs demo_bitmap ! 33]) \<and>
    bitmap_test demo_bitmap 33 = Some (bitmap_abs demo_bitmap ! 33)"
  by (rule bitmap_bit_ops) (simp_all add: demo_bitmap_def bitmap_wf_def elem_cnt_def)

text \<open>
  Storing a bitmap. Reading the bytes that \<^verbatim>\<open>bitmap_write\<close> produced into any well-formed
  bitmap of the same size succeeds and restores exactly the bits that were written.
\<close>

theorem bitmap_file_roundtrip:
  assumes "bitmap_wf b" "bitmap_wf c" "bit_cnt c = bit_cnt b"
  shows "\<exists>c'. bitmap_read c (bitmap_write b) = Some (True, c') \<and> bitmap_wf c' \<and> bitmap_abs c' = bitmap_abs b"
  using assms by (rule bitmap_read_write)

lemma bitmap_file_roundtrip_witness:
  "\<exists>c'. bitmap_read (demo_bitmap\<lparr>bits := [1, 1]\<rparr>) (bitmap_write demo_bitmap) = Some (True, c') \<and>
    bitmap_wf c' \<and> bitmap_abs c' = bitmap_abs demo_bitmap"
  by (rule bitmap_file_roundtrip) (simp_all add: demo_bitmap_def bitmap_wf_def elem_cnt_def)

end
