(* ===== verification/Hash_Table.thy ===== *)
theory Hash_Table
  imports Ordered_Lists
begin

text \<open>
  Chained hash tables (\<^verbatim>\<open>lib/kernel/hash.c\<close>). A table holds its buckets as the sequences
  of elements their lists hold (\<open>Kernel_List\<close> relates such sequences to the linked
  lists); the two counters are 32-bit words. The hash and comparison functions are fields
  of the table, as in the code; whether \<^verbatim>\<open>malloc\<close> delivers a bucket array is an argument
  (\<open>mem\<close>) of the operations that call it.

  \<open>hash_wf\<close> is the table invariant: every element is in the bucket its hash value
  selects, no two elements are equal, and the element counter counts them. The laws a
  user must provide are the locale \<open>hash_contract\<close>.
\<close>

unbundle bit_operations_syntax

section \<open>Tables and operations\<close>

record 'e hash =
  elem_cnt :: "32 word"
  bucket_cnt :: "32 word"
  buckets :: "'e list list"
  hash_fn :: "'e \<Rightarrow> 32 word"
  less_fn :: "'e \<Rightarrow> 'e \<Rightarrow> bool"

definition elems :: "'e hash \<Rightarrow> 'e list" where
  "elems h = concat (buckets h)"

text \<open>\<open>hash_clear\<close> returns the elements its destructor is called on, in order.\<close>

definition hash_clear :: "'e hash \<Rightarrow> bool \<Rightarrow> 'e hash \<times> 'e list" where
  "hash_clear h destructor =
     (h\<lparr>buckets := map (\<lambda>_. []) (buckets h), elem_cnt := 0\<rparr>,
      if destructor then concat (buckets h) else [])"

definition hash_init :: "bool \<Rightarrow> ('e \<Rightarrow> 32 word) \<Rightarrow> ('e \<Rightarrow> 'e \<Rightarrow> bool) \<Rightarrow> 'e hash option" where
  "hash_init mem hf lf =
     (let h = \<lparr>elem_cnt = 0, bucket_cnt = 4, buckets = replicate 4 [], hash_fn = hf, less_fn = lf\<rparr>
      in if mem then Some (fst (hash_clear h False)) else None)"

definition find_bucket :: "'e hash \<Rightarrow> 'e \<Rightarrow> nat" where
  "find_bucket h e = unat (hash_fn h e AND (bucket_cnt h - 1))"

fun find_elem :: "('e \<Rightarrow> 'e \<Rightarrow> bool) \<Rightarrow> 'e list \<Rightarrow> 'e \<Rightarrow> 'e option" where
  "find_elem lt [] e = None"
| "find_elem lt (x # xs) e = (if \<not> lt x e \<and> \<not> lt e x then Some x else find_elem lt xs e)"

definition turn_off_least_1bit :: "32 word \<Rightarrow> 32 word" where
  "turn_off_least_1bit x = x AND (x - 1)"

definition is_power_of_2 :: "32 word \<Rightarrow> bool" where
  "is_power_of_2 x \<longleftrightarrow> x \<noteq> 0 \<and> turn_off_least_1bit x = 0"

partial_function (option) pow2_loop :: "32 word \<Rightarrow> 32 word option" where
  [code]: "pow2_loop n = (if is_power_of_2 n then Some n else pow2_loop (turn_off_least_1bit n))"

definition new_bucket_cnt :: "'e hash \<Rightarrow> 32 word option" where
  "new_bucket_cnt h = (let n = elem_cnt h div 2 in pow2_loop (if n < 4 then 4 else n))"

definition push_bucket :: "'e list list \<Rightarrow> nat \<Rightarrow> 'e \<Rightarrow> 'e list list option" where
  "push_bucket bs i e = do { ASSERT (i < length bs); Some (bs[i := e # bs ! i]) }"

definition rehash :: "bool \<Rightarrow> 'e hash \<Rightarrow> 'e hash option" where
  "rehash mem h = do {
     n \<leftarrow> new_bucket_cnt h;
     if n = bucket_cnt h then Some h
     else if \<not> mem then Some h
     else do {
       let h' = h\<lparr>buckets := replicate (unat n) [], bucket_cnt := n\<rparr>;
       foldM (\<lambda>h e. do { bs \<leftarrow> push_bucket (buckets h) (find_bucket h e) e; Some (h\<lparr>buckets := bs\<rparr>) })
         h' (concat (buckets h)) } }"

definition insert_elem :: "'e hash \<Rightarrow> nat \<Rightarrow> 'e \<Rightarrow> 'e hash option" where
  "insert_elem h bucket e = do {
     bs \<leftarrow> push_bucket (buckets h) bucket e;
     Some (h\<lparr>elem_cnt := elem_cnt h + 1, buckets := bs\<rparr>) }"

text \<open>Unlinking an element takes it out of whichever bucket holds it.\<close>

definition remove_elem :: "'e hash \<Rightarrow> 'e \<Rightarrow> 'e hash" where
  "remove_elem h e = h\<lparr>elem_cnt := elem_cnt h - 1, buckets := map (remove1 e) (buckets h)\<rparr>"

definition bucket_at :: "'e hash \<Rightarrow> nat \<Rightarrow> 'e list option" where
  "bucket_at h i = (if i < length (buckets h) then Some (buckets h ! i) else None)"

definition hash_find :: "'e hash \<Rightarrow> 'e \<Rightarrow> 'e option option" where
  "hash_find h e = do {
     b \<leftarrow> bucket_at h (find_bucket h e);
     Some (find_elem (less_fn h) b e) }"

definition hash_insert :: "bool \<Rightarrow> 'e hash \<Rightarrow> 'e \<Rightarrow> ('e hash \<times> 'e option) option" where
  "hash_insert mem h e = do {
     let bucket = find_bucket h e;
     b \<leftarrow> bucket_at h bucket;
     let old = find_elem (less_fn h) b e;
     h \<leftarrow> (if old = None then insert_elem h bucket e else Some h);
     h \<leftarrow> rehash mem h;
     Some (h, old) }"

definition hash_replace :: "bool \<Rightarrow> 'e hash \<Rightarrow> 'e \<Rightarrow> ('e hash \<times> 'e option) option" where
  "hash_replace mem h e = do {
     let bucket = find_bucket h e;
     b \<leftarrow> bucket_at h bucket;
     let old = find_elem (less_fn h) b e;
     let h = (case old of None \<Rightarrow> h | Some x \<Rightarrow> remove_elem h x);
     h \<leftarrow> insert_elem h bucket e;
     h \<leftarrow> rehash mem h;
     Some (h, old) }"

definition hash_delete :: "bool \<Rightarrow> 'e hash \<Rightarrow> 'e \<Rightarrow> ('e hash \<times> 'e option) option" where
  "hash_delete mem h e = do {
     b \<leftarrow> bucket_at h (find_bucket h e);
     case find_elem (less_fn h) b e of
       None \<Rightarrow> Some (h, None)
     | Some x \<Rightarrow> do { h \<leftarrow> rehash mem (remove_elem h x); Some (h, Some x) } }"

text \<open>\<open>hash_apply\<close>: the action is a state transformer, called bucket by bucket.\<close>

definition hash_apply :: "'e hash \<Rightarrow> ('s \<Rightarrow> 'e \<Rightarrow> 's) \<Rightarrow> 's \<Rightarrow> 's" where
  "hash_apply h action s = foldl (foldl action) s (buckets h)"

definition hash_size :: "'e hash \<Rightarrow> 32 word" where
  "hash_size h = elem_cnt h"

definition hash_empty :: "'e hash \<Rightarrow> bool" where
  "hash_empty h \<longleftrightarrow> elem_cnt h = 0"

text \<open>
  Iterators: the current bucket and the position of the current element in its list,
  where 0 is the list head and one more than the length is the list end; \<open>None\<close> is a
  null element.
\<close>

record hash_iterator =
  it_bucket :: nat
  it_elem :: "nat option"

definition hash_first :: "hash_iterator" where
  "hash_first = \<lparr>it_bucket = 0, it_elem = Some 0\<rparr>"

definition hash_cur :: "'e hash \<Rightarrow> hash_iterator \<Rightarrow> 'e option" where
  "hash_cur h i = (case it_elem i of None \<Rightarrow> None | Some p \<Rightarrow> Some (buckets h ! it_bucket i ! (p - 1)))"

partial_function (option) next_loop :: "'e hash \<Rightarrow> nat \<Rightarrow> nat \<Rightarrow> hash_iterator option" where
  [code]: "next_loop h b p = do {
     xs \<leftarrow> bucket_at h b;
     if p = length xs + 1 then
       if unat (bucket_cnt h) \<le> b + 1 then Some \<lparr>it_bucket = b + 1, it_elem = None\<rparr>
       else next_loop h (b + 1) 1
     else Some \<lparr>it_bucket = b, it_elem = Some p\<rparr> }"

definition hash_next :: "'e hash \<Rightarrow> hash_iterator \<Rightarrow> (hash_iterator \<times> 'e option) option" where
  "hash_next h i = do {
     p \<leftarrow> it_elem i;
     xs \<leftarrow> bucket_at h (it_bucket i);
     ASSERT (p \<le> length xs);
     i \<leftarrow> next_loop h (it_bucket i) (p + 1);
     Some (i, hash_cur h i) }"

text \<open>The Fowler-Noll-Vo hash functions.\<close>

definition hash_bytes :: "8 word list \<Rightarrow> 32 word" where
  "hash_bytes buf = foldl (\<lambda>h c. (h * 16777619) XOR ucast c) 2166136261 buf"

text \<open>\<open>hash_string\<close> reads up to the terminator; a buffer without one is a fault.\<close>

fun hash_string_loop :: "32 word \<Rightarrow> 8 word list \<Rightarrow> 32 word option" where
  "hash_string_loop h [] = None"
| "hash_string_loop h (c # cs) = (if c = 0 then Some h else hash_string_loop ((h * 16777619) XOR ucast c) cs)"

definition hash_string :: "8 word list \<Rightarrow> 32 word option" where
  "hash_string s = hash_string_loop 2166136261 s"

definition hash_int :: "32 word \<Rightarrow> 32 word" where
  "hash_int i = hash_bytes (map (\<lambda>k. ucast (drop_bit (8 * k) i)) [0..<4])"

section \<open>The number of buckets\<close>

lemma unat_pred: "x \<noteq> 0 \<Longrightarrow> unat (x - 1) = unat x - 1" for x :: "32 word"
  by (simp add: unat_minus_one)

lemma turn_off_less: "x \<noteq> 0 \<Longrightarrow> turn_off_least_1bit x < x"
proof -
  assume x: "x \<noteq> 0"
  then have "0 < unat x" by (simp add: unat_gt_0)
  then have "x - 1 < x" using x by (simp add: word_less_nat_alt unat_pred)
  moreover have "turn_off_least_1bit x \<le> x - 1" by (simp add: turn_off_least_1bit_def word_and_le1)
  ultimately show ?thesis by (rule order_le_less_trans [rotated])
qed

lemma high_bit_and:
  fixes m n :: nat
  assumes "2 ^ k \<le> m" "m < 2 ^ Suc k" "2 ^ k \<le> n" "n < 2 ^ Suc k"
  shows "2 ^ k \<le> m AND n"
proof -
  have "m div 2 ^ k = 1" "n div 2 ^ k = 1" using assms by (auto intro: div_nat_eqI)
  then have "drop_bit k (m AND n) = 1" by (simp only: drop_bit_and) (simp add: drop_bit_eq_div)
  then have "(m AND n) div 2 ^ k = 1" by (simp add: drop_bit_eq_div)
  then show ?thesis by (metis div_eq_0_iff less_numeral_extra(3) not_le_imp_less zero_neq_one)
qed

lemma turn_off_high_bit:
  assumes k: "2 ^ k \<le> unat x" "unat x < 2 ^ Suc k" and ne: "unat x \<noteq> 2 ^ k"
  shows "2 ^ k \<le> unat (turn_off_least_1bit x)"
proof -
  have "x \<noteq> 0" using k by auto
  then have "unat (turn_off_least_1bit x) = unat x AND (unat x - 1)"
    by (simp add: turn_off_least_1bit_def unsigned_and_eq unat_pred)
  then show ?thesis using high_bit_and [of k "unat x" "unat x - 1"] k ne by simp
qed

lemma turn_off_pow2: "unat x = 2 ^ k \<Longrightarrow> turn_off_least_1bit x = 0"
proof -
  assume k: "unat x = 2 ^ k"
  then have "x \<noteq> 0" by auto
  then have "unat (turn_off_least_1bit x) = 2 ^ k AND mask k"
    using k by (simp add: turn_off_least_1bit_def unsigned_and_eq unat_pred mask_eq_exp_minus_1)
  also have "\<dots> = 0" by (simp flip: take_bit_eq_mask)
  finally show ?thesis by (simp add: unat_eq_0)
qed

lemma is_power_of_2_iff:
  assumes "2 ^ k \<le> unat x" "unat x < 2 ^ Suc k"
  shows "is_power_of_2 x \<longleftrightarrow> unat x = 2 ^ k"
proof
  assume p: "is_power_of_2 x"
  show "unat x = 2 ^ k"
  proof (rule ccontr)
    assume "unat x \<noteq> 2 ^ k"
    from turn_off_high_bit [OF assms this] p show False by (simp add: is_power_of_2_def)
  qed
next
  assume "unat x = 2 ^ k"
  then show "is_power_of_2 x" using turn_off_pow2 [of x k] by (auto simp: is_power_of_2_def)
qed

lemma pow2_loop_ok:
  "2 ^ k \<le> unat x \<Longrightarrow> unat x < 2 ^ Suc k \<Longrightarrow> \<exists>r. pow2_loop x = Some r \<and> unat r = 2 ^ k"
proof (induction "unat x" arbitrary: x rule: less_induct)
  case less
  show ?case
  proof (cases "unat x = 2 ^ k")
    case True
    then show ?thesis using is_power_of_2_iff [OF less.prems] by (subst pow2_loop.simps) auto
  next
    case False
    have "x \<noteq> 0" using less.prems by auto
    then have l: "unat (turn_off_least_1bit x) < unat x" using turn_off_less by (simp add: word_less_nat_alt)
    then have "unat (turn_off_least_1bit x) < 2 ^ Suc k" using less.prems by simp
    then show ?thesis
      using False is_power_of_2_iff [OF less.prems] less.hyps [OF l turn_off_high_bit [OF less.prems False]]
      by (subst pow2_loop.simps) simp
  qed
qed

text \<open>\<open>rehash\<close> always finds a bucket count: a power of two, at least 4.\<close>

lemma new_bucket_cnt_ok: "\<exists>n k. new_bucket_cnt h = Some n \<and> unat n = 2 ^ k \<and> 2 \<le> k"
proof -
  define m where "m = (if elem_cnt h div 2 < 4 then 4 else elem_cnt h div 2)"
  have m: "4 \<le> unat m" by (auto simp: m_def word_le_nat_alt not_less)
  obtain k where k: "2 ^ k \<le> unat m" "unat m < 2 ^ Suc k"
    using ex_power_ivl1 [of 2 "unat m"] m by auto
  have "2 \<le> k"
  proof (rule ccontr)
    assume "\<not> 2 \<le> k"
    then have "(2::nat) ^ Suc k \<le> 2 ^ 2" by (intro power_increasing) auto
    then show False using k m by simp
  qed
  then show ?thesis using pow2_loop_ok [OF k] by (auto simp: new_bucket_cnt_def m_def Let_def)
qed

section \<open>The table invariant\<close>

definition hash_wf :: "'e hash \<Rightarrow> bool" where
  "hash_wf h \<longleftrightarrow>
     is_power_of_2 (bucket_cnt h) \<and>
     length (buckets h) = unat (bucket_cnt h) \<and>
     (\<forall>i<length (buckets h). \<forall>e\<in>set (buckets h ! i). find_bucket h e = i) \<and>
     elem_cnt h = of_nat (length (elems h)) \<and>
     distinct (elems h) \<and>
     (\<forall>x\<in>set (elems h). \<forall>y\<in>set (elems h). \<not> less_fn h x y \<and> \<not> less_fn h y x \<longrightarrow> x = y)"

lemma find_bucket_less: "bucket_cnt h \<noteq> 0 \<Longrightarrow> find_bucket h e < unat (bucket_cnt h)"
proof -
  assume n: "bucket_cnt h \<noteq> 0"
  have "hash_fn h e AND (bucket_cnt h - 1) \<le> bucket_cnt h - 1" by (rule word_and_le1)
  then have "find_bucket h e \<le> unat (bucket_cnt h) - 1"
    using n by (simp add: find_bucket_def word_le_nat_alt unat_pred)
  then show ?thesis using n unat_gt_0 [of "bucket_cnt h"] by linarith
qed

lemma find_elem_find: "find_elem lt xs e = List.find (\<lambda>x. \<not> lt x e \<and> \<not> lt e x) xs"
  by (induction lt xs e rule: find_elem.induct) auto

lemma mset_concat_push: "i < length bs \<Longrightarrow> mset (concat (bs[i := e # bs ! i])) = add_mset e (mset (concat bs))"
proof (induction bs arbitrary: i)
  case (Cons b bs)
  then show ?case by (cases i) auto
qed simp

lemma mset_concat_remove1:
  "x \<in> set (concat bs) \<Longrightarrow> distinct (concat bs) \<Longrightarrow> mset (concat (map (remove1 x) bs)) = mset (concat bs) - {#x#}"
proof (induction bs)
  case (Cons b bs)
  have rest: "map (remove1 x) bs = bs" if "x \<notin> set (concat bs)"
    using that by (intro map_idI) (simp add: remove1_idem)
  show ?case
  proof (cases "x \<in> set b")
    case True
    then have "x \<notin> set (concat bs)" using Cons.prems by auto
    then show ?thesis using True rest by simp
  next
    case False
    then have x: "x \<in># mset (concat bs)" using Cons.prems by auto
    then have "mset (concat (map (remove1 x) bs)) = mset (concat bs) - {#x#}" using Cons by simp
    then show ?thesis using False diff_union_single_conv [OF x, of "mset b"] by (simp add: remove1_idem)
  qed
qed simp

text \<open>Moving a sequence of elements into the buckets of a table.\<close>

definition placed :: "'e hash \<Rightarrow> bool" where
  "placed h \<longleftrightarrow> bucket_cnt h \<noteq> 0 \<and> length (buckets h) = unat (bucket_cnt h) \<and>
     (\<forall>i<length (buckets h). \<forall>e\<in>set (buckets h ! i). find_bucket h e = i)"

lemma find_bucket_upd [simp]:
  "find_bucket (h\<lparr>buckets := bs\<rparr>) = find_bucket h" "find_bucket (h\<lparr>elem_cnt := n\<rparr>) = find_bucket h"
  by (auto simp: find_bucket_def)

lemma push_placed:
  assumes "placed h"
  shows "\<exists>bs. push_bucket (buckets h) (find_bucket h e) e = Some bs \<and> placed (h\<lparr>buckets := bs\<rparr>) \<and>
    mset (concat bs) = add_mset e (mset (elems h))"
  using assms find_bucket_less [of h e]
  by (auto simp: placed_def push_bucket_def mset_concat_push elems_def nth_list_update)

lemma move_all:
  "placed h \<Longrightarrow> \<exists>bs. foldM (\<lambda>h e. do { bs \<leftarrow> push_bucket (buckets h) (find_bucket h e) e; Some (h\<lparr>buckets := bs\<rparr>) }) h es
      = Some (h\<lparr>buckets := bs\<rparr>) \<and> placed (h\<lparr>buckets := bs\<rparr>) \<and> mset (concat bs) = mset (elems h) + mset es"
proof (induction es arbitrary: h)
  case Nil
  then show ?case by (intro exI [of _ "buckets h"]) (simp add: elems_def)
next
  case (Cons e es)
  obtain bs where bs: "push_bucket (buckets h) (find_bucket h e) e = Some bs" "placed (h\<lparr>buckets := bs\<rparr>)"
    "mset (concat bs) = add_mset e (mset (elems h))" using push_placed [OF Cons.prems] by blast
  from Cons.IH [OF bs(2)] bs show ?case by (auto simp: elems_def)
qed

lemma wf_placed: "hash_wf h \<Longrightarrow> placed h"
  by (auto simp: hash_wf_def placed_def is_power_of_2_def)

lemma wf_of_placed:
  assumes "placed h" "is_power_of_2 (bucket_cnt h)" "elem_cnt h = of_nat (length (elems h))" "distinct (elems h)"
    "\<forall>x\<in>set (elems h). \<forall>y\<in>set (elems h). \<not> less_fn h x y \<and> \<not> less_fn h y x \<longrightarrow> x = y"
  shows "hash_wf h"
  using assms by (simp add: hash_wf_def placed_def)

lemma rehash_ok:
  assumes "hash_wf h"
  shows "\<exists>h'. rehash mem h = Some h' \<and> hash_wf h' \<and> mset (elems h') = mset (elems h) \<and>
    hash_fn h' = hash_fn h \<and> less_fn h' = less_fn h"
proof -
  obtain n k where n: "new_bucket_cnt h = Some n" "unat n = 2 ^ k" "2 \<le> k" using new_bucket_cnt_ok by blast
  have p2: "is_power_of_2 n" using n is_power_of_2_iff [of k n] by simp
  show ?thesis
  proof (cases "n = bucket_cnt h \<or> \<not> mem")
    case True
    then show ?thesis using assms n by (auto simp: rehash_def)
  next
    case False
    let ?h = "h\<lparr>buckets := replicate (unat n) [], bucket_cnt := n\<rparr>"
    have "placed ?h" using p2 by (auto simp: placed_def is_power_of_2_def)
    from move_all [OF this, of "concat (buckets h)"] obtain bs where
      bs: "foldM (\<lambda>h e. do { bs \<leftarrow> push_bucket (buckets h) (find_bucket h e) e; Some (h\<lparr>buckets := bs\<rparr>) }) ?h (concat (buckets h))
        = Some (?h\<lparr>buckets := bs\<rparr>)" "placed (?h\<lparr>buckets := bs\<rparr>)" "mset (concat bs) = mset (elems h)"
      by (auto simp: elems_def)
    let ?h' = "?h\<lparr>buckets := bs\<rparr>"
    have m: "mset (elems ?h') = mset (elems h)" using bs(3) by (simp add: elems_def)
    have "hash_wf ?h'"
    proof (rule wf_of_placed [OF bs(2)])
      show "elem_cnt ?h' = of_nat (length (elems ?h'))" using assms mset_eq_length [OF m] by (simp add: hash_wf_def)
      show "distinct (elems ?h')" using assms mset_eq_imp_distinct_iff [OF m] by (simp add: hash_wf_def)
      show "\<forall>x\<in>set (elems ?h'). \<forall>y\<in>set (elems ?h'). \<not> less_fn ?h' x y \<and> \<not> less_fn ?h' y x \<longrightarrow> x = y"
        using assms mset_eq_setD [OF m] by (simp add: hash_wf_def)
    qed (use p2 in simp)
    then show ?thesis using False n bs m by (auto simp: rehash_def)
  qed
qed

section \<open>Operations with a lawful hash function\<close>

text \<open>
  The user's side of the contract: the comparison is a strict weak order and elements
  that compare equal have the same hash value.
\<close>

locale hash_contract = strict_weak_order lf
  for lf :: "'e \<Rightarrow> 'e \<Rightarrow> bool" +
  fixes hf :: "'e \<Rightarrow> 32 word"
  assumes hash_same: "\<not> lf a b \<Longrightarrow> \<not> lf b a \<Longrightarrow> hf a = hf b"
begin

abbreviation uses :: "'e hash \<Rightarrow> bool" where
  "uses h \<equiv> hash_wf h \<and> hash_fn h = hf \<and> less_fn h = lf"

lemma bucket_of_same:
  assumes "uses h" "x \<in> set (elems h)" "same x e"
  shows "x \<in> set (buckets h ! find_bucket h e)"
proof -
  obtain i where i: "i < length (buckets h)" "x \<in> set (buckets h ! i)"
    using assms(2) unfolding elems_def using in_set_conv_nth [of _ "buckets h"] by auto
  then have "find_bucket h x = i" using assms(1) by (auto simp: hash_wf_def)
  moreover have "find_bucket h x = find_bucket h e"
    using assms hash_same [of x e] by (simp add: find_bucket_def same_def)
  ultimately show ?thesis using i by simp
qed

lemma bucket_at_ok: "uses h \<Longrightarrow> bucket_at h (find_bucket h e) = Some (buckets h ! find_bucket h e)"
  using find_bucket_less [of h e] wf_placed [of h] by (auto simp: bucket_at_def placed_def)

lemma bucket_subset: "uses h \<Longrightarrow> set (buckets h ! find_bucket h e) \<subseteq> set (elems h)"
proof -
  assume "uses h"
  then have "find_bucket h e < length (buckets h)"
    using find_bucket_less [of h e] wf_placed [of h] by (auto simp: placed_def)
  then show ?thesis using nth_mem by (fastforce simp: elems_def)
qed

lemma find_in_bucket:
  assumes "uses h"
  shows "find_elem lf (buckets h ! find_bucket h e) e = List.find (\<lambda>x. same x e) (elems h)" (is "?l = ?r")
proof (cases ?r)
  case None
  then have "\<not> same x e" if "x \<in> set (elems h)" for x using that by (simp add: find_None_iff)
  moreover have "set (buckets h ! find_bucket h e) \<subseteq> set (elems h)"
    using bucket_subset assms by blast
  ultimately have "?l = None" unfolding find_elem_find find_None_iff by (auto simp: same_def)
  with None show ?thesis by simp
next
  case (Some x)
  then have x: "x \<in> set (elems h)" "same x e" by (auto simp: find_Some_iff)
  have inb: "x \<in> set (buckets h ! find_bucket h e)" using bucket_of_same [OF assms x] .
  have sub: "set (buckets h ! find_bucket h e) \<subseteq> set (elems h)"
    using bucket_subset assms by blast
  obtain y where y: "?l = Some y"
    using inb x by (cases ?l) (auto simp: find_elem_find find_None_iff same_def)
  then have "y \<in> set (buckets h ! find_bucket h e)" "same y e" by (auto simp: find_elem_find find_Some_iff same_def)
  then have "y \<in> set (elems h)" "same y e" using sub by auto
  moreover have "\<not> lf x y \<and> \<not> lf y x" using x \<open>same y e\<close> neg_trans by (meson same_def)
  ultimately have "y = x" using assms x by (auto simp: hash_wf_def)
  then show ?thesis using y Some by simp
qed

text \<open>A lookup finds the element of the table that equals the argument, if there is one.\<close>

lemma hash_find_ok: "uses h \<Longrightarrow> hash_find h e = Some (List.find (\<lambda>x. same x e) (elems h))"
  by (simp add: hash_find_def bucket_at_ok find_in_bucket)

lemma insert_elem_ok:
  assumes "uses h" "List.find (\<lambda>x. same x e) (elems h) = None"
  shows "\<exists>h'. insert_elem h (find_bucket h e) e = Some h' \<and> uses h' \<and> mset (elems h') = add_mset e (mset (elems h))"
proof -
  have "placed h" using assms wf_placed by blast
  from push_placed [OF this, of e] obtain bs where
    bs: "push_bucket (buckets h) (find_bucket h e) e = Some bs" "placed (h\<lparr>buckets := bs\<rparr>)"
      "mset (concat bs) = add_mset e (mset (elems h))" by blast
  let ?h = "h\<lparr>elem_cnt := elem_cnt h + 1, buckets := bs\<rparr>"
  have m: "mset (elems ?h) = mset (e # elems h)" using bs by (simp add: elems_def)
  have new: "\<not> same x e" if "x \<in> set (elems h)" for x using assms(2) that by (simp add: find_None_iff)
  have "hash_wf ?h"
  proof (rule wf_of_placed)
    show "placed ?h" using bs(2) by (simp add: placed_def)
    show "is_power_of_2 (bucket_cnt ?h)" using assms by (simp add: hash_wf_def)
    show "elem_cnt ?h = of_nat (length (elems ?h))" using assms mset_eq_length [OF m] by (simp add: hash_wf_def)
    show "distinct (elems ?h)"
      using assms mset_eq_imp_distinct_iff [OF m] new irrefl by (auto simp: hash_wf_def same_def)
    show "\<forall>x\<in>set (elems ?h). \<forall>y\<in>set (elems ?h). \<not> less_fn ?h x y \<and> \<not> less_fn ?h y x \<longrightarrow> x = y"
      using assms mset_eq_setD [OF m] new by (auto simp: hash_wf_def same_def)
  qed
  then show ?thesis using bs m assms by (auto simp: insert_elem_def)
qed

lemma hash_insert_ok:
  assumes "uses h"
  shows "\<exists>h'. hash_insert mem h e = Some (h', List.find (\<lambda>x. same x e) (elems h)) \<and> uses h' \<and>
    mset (elems h') = (if List.find (\<lambda>x. same x e) (elems h) = None then {#e#} else {#}) + mset (elems h)"
proof (cases "List.find (\<lambda>x. same x e) (elems h)")
  case None
  from insert_elem_ok [OF assms None] obtain h1 where
    h1: "insert_elem h (find_bucket h e) e = Some h1" "uses h1" "mset (elems h1) = add_mset e (mset (elems h))" by blast
  from rehash_ok [of h1 mem] h1 obtain h2 where "rehash mem h1 = Some h2" "uses h2" "mset (elems h2) = mset (elems h1)"
    by auto
  then show ?thesis using h1 None assms
    by (auto simp: hash_insert_def bucket_at_ok find_in_bucket)
next
  case (Some x)
  from rehash_ok [of h mem] assms obtain h2 where "rehash mem h = Some h2" "uses h2" "mset (elems h2) = mset (elems h)"
    by auto
  then show ?thesis using Some assms
    by (auto simp: hash_insert_def bucket_at_ok find_in_bucket)
qed

lemma remove_elem_ok:
  assumes "uses h" "x \<in> set (elems h)"
  shows "uses (remove_elem h x) \<and> mset (elems (remove_elem h x)) = mset (elems h) - {#x#}"
proof -
  let ?h = "remove_elem h x"
  have m: "mset (elems ?h) = mset (remove1 x (elems h))"
    using assms mset_concat_remove1 [of x "buckets h"] by (simp add: elems_def remove_elem_def hash_wf_def)
  have "0 < length (elems h)" using assms(2) by (cases "elems h") auto
  then have "length (elems h) = Suc (length (remove1 x (elems h)))"
    using assms(2) by (simp add: length_remove1)
  then have len: "elem_cnt h - 1 = of_nat (length (remove1 x (elems h)))"
    using assms by (simp add: hash_wf_def)
  have "hash_wf ?h"
  proof (rule wf_of_placed)
    show "placed ?h" using wf_placed [of h] assms notin_set_remove1 by (fastforce simp: placed_def remove_elem_def)
    show "is_power_of_2 (bucket_cnt ?h)" using assms by (simp add: hash_wf_def remove_elem_def)
    show "elem_cnt ?h = of_nat (length (elems ?h))" using mset_eq_length [OF m] len by (simp add: remove_elem_def)
    show "distinct (elems ?h)" using assms mset_eq_imp_distinct_iff [OF m] by (auto simp: hash_wf_def)
    show "\<forall>x\<in>set (elems ?h). \<forall>y\<in>set (elems ?h). \<not> less_fn ?h x y \<and> \<not> less_fn ?h y x \<longrightarrow> x = y"
      using assms mset_eq_setD [OF m] notin_set_remove1 by (fastforce simp: hash_wf_def remove_elem_def)
  qed
  then show ?thesis using m assms by (simp add: remove_elem_def)
qed

lemma hash_delete_ok:
  assumes "uses h"
  shows "\<exists>h'. hash_delete mem h e = Some (h', List.find (\<lambda>x. same x e) (elems h)) \<and> uses h' \<and>
    mset (elems h') = mset (elems h) - (case List.find (\<lambda>x. same x e) (elems h) of None \<Rightarrow> {#} | Some x \<Rightarrow> {#x#})"
proof (cases "List.find (\<lambda>x. same x e) (elems h)")
  case None
  then show ?thesis using assms by (simp add: hash_delete_def bucket_at_ok find_in_bucket)
next
  case (Some x)
  then have x: "x \<in> set (elems h)" by (auto simp: find_Some_iff)
  from rehash_ok [of "remove_elem h x" mem] remove_elem_ok [OF assms x] obtain h2 where
    "rehash mem (remove_elem h x) = Some h2" "uses h2" "mset (elems h2) = mset (elems h) - {#x#}"
    by (auto simp: remove_elem_def)
  then show ?thesis using Some assms by (auto simp: hash_delete_def bucket_at_ok find_in_bucket)
qed

lemma hash_replace_ok:
  assumes "uses h"
  shows "\<exists>h'. hash_replace mem h e = Some (h', List.find (\<lambda>x. same x e) (elems h)) \<and> uses h' \<and>
    mset (elems h') = add_mset e (mset (elems h) - (case List.find (\<lambda>x. same x e) (elems h) of None \<Rightarrow> {#} | Some x \<Rightarrow> {#x#}))"
proof -
  let ?old = "List.find (\<lambda>x. same x e) (elems h)"
  let ?h1 = "case ?old of None \<Rightarrow> h | Some x \<Rightarrow> remove_elem h x"
  have "uses ?h1 \<and> mset (elems ?h1) = mset (elems h) - (case ?old of None \<Rightarrow> {#} | Some x \<Rightarrow> {#x#}) \<and>
    find_bucket ?h1 e = find_bucket h e"
  proof (cases ?old)
    case (Some x)
    then have "x \<in> set (elems h)" by (auto simp: find_Some_iff)
    from remove_elem_ok [OF assms this] Some show ?thesis by (simp add: find_bucket_def remove_elem_def)
  qed (use assms in simp)
  then have h1: "uses ?h1" "mset (elems ?h1) = mset (elems h) - (case ?old of None \<Rightarrow> {#} | Some x \<Rightarrow> {#x#})"
    "find_bucket ?h1 e = find_bucket h e" by blast+
  have "List.find (\<lambda>x. same x e) (elems ?h1) = None"
  proof (rule ccontr)
    assume "List.find (\<lambda>x. same x e) (elems ?h1) \<noteq> None"
    then obtain y where y: "y \<in># mset (elems ?h1)" "same y e" by (auto simp: find_None_iff)
    show False
    proof (cases ?old)
      case None
      then have "y \<in> set (elems h)" using y by simp
      then show ?thesis using y None unfolding find_None_iff by blast
    next
      case (Some x)
      then have x: "x \<in> set (elems h)" "same x e" by (auto simp: find_Some_iff)
      have d: "distinct (elems h)" using assms by (simp add: hash_wf_def)
      have "y \<in> set (remove1 x (elems h))" using y(1) Some h1(2) by (metis mset_remove1 option.simps(5) set_mset_mset)
      then have "y \<in> set (elems h)" "y \<noteq> x" using d by auto
      moreover have "\<not> lf x y \<and> \<not> lf y x" using x y(2) neg_trans by (meson same_def)
      ultimately show ?thesis using assms x by (auto simp: hash_wf_def)
    qed
  qed
  from insert_elem_ok [OF h1(1) this] h1 obtain h2 where
    h2: "insert_elem ?h1 (find_bucket h e) e = Some h2" "uses h2" "mset (elems h2) = add_mset e (mset (elems ?h1))" by auto
  from rehash_ok [of h2 mem] h2 obtain h3 where "rehash mem h2 = Some h3" "uses h3" "mset (elems h3) = mset (elems h2)"
    by auto
  then show ?thesis using h2 h1 assms by (auto simp: hash_replace_def bucket_at_ok find_in_bucket)
qed

lemma hash_init_ok: "\<exists>h. hash_init True hf lf = Some h \<and> uses h \<and> elems h = []"
  by (simp add: hash_init_def hash_clear_def hash_wf_def elems_def is_power_of_2_def turn_off_least_1bit_def)

end

section \<open>Iteration\<close>

text \<open>The iteration idiom of the header: call \<open>hash_next\<close> until it returns null.\<close>

partial_function (option) hash_iterate :: "'e hash \<Rightarrow> hash_iterator \<Rightarrow> 'e list option" where
  [code]: "hash_iterate h i = do {
     r \<leftarrow> hash_next h i;
     case snd r of None \<Rightarrow> Some []
     | Some x \<Rightarrow> do { xs \<leftarrow> hash_iterate h (fst r); Some (x # xs) } }"

definition rest_from :: "'e hash \<Rightarrow> nat \<Rightarrow> nat \<Rightarrow> 'e list" where
  "rest_from h b p = drop (p - 1) (buckets h ! b) @ concat (drop (Suc b) (buckets h))"

lemma next_loop_ok:
  assumes n: "length (buckets h) = unat (bucket_cnt h)"
  shows "b < length (buckets h) \<Longrightarrow> 1 \<le> p \<Longrightarrow> p \<le> length (buckets h ! b) + 1 \<Longrightarrow>
    \<exists>i. next_loop h b p = Some i \<and>
      (case rest_from h b p of [] \<Rightarrow> it_elem i = None
       | x # xs \<Rightarrow> \<exists>q. it_elem i = Some q \<and> hash_cur h i = Some x \<and> it_bucket i < length (buckets h) \<and>
           q \<le> length (buckets h ! it_bucket i) \<and> rest_from h (it_bucket i) (Suc q) = xs)"
proof (induction "length (buckets h) - b" arbitrary: b p rule: less_induct)
  case less
  have b: "bucket_at h b = Some (buckets h ! b)" using less.prems by (simp add: bucket_at_def)
  show ?case
  proof (cases "p = length (buckets h ! b) + 1")
    case False
    then have p: "p - 1 < length (buckets h ! b)" using less.prems by simp
    then have "rest_from h b p = buckets h ! b ! (p - 1) # rest_from h b (Suc p)"
      using less.prems by (simp add: rest_from_def Cons_nth_drop_Suc [symmetric])
    then show ?thesis using False b p less.prems by (subst next_loop.simps) (auto simp: hash_cur_def)
  next
    case True
    show ?thesis
    proof (cases "unat (bucket_cnt h) \<le> b + 1")
      case T2: True
      then have "rest_from h b p = []" using True n by (simp add: rest_from_def)
      then show ?thesis using True T2 b by (subst next_loop.simps) simp
    next
      case F2: False
      then have "drop (Suc b) (buckets h) = buckets h ! Suc b # drop (Suc (Suc b)) (buckets h)"
        using n by (intro Cons_nth_drop_Suc [symmetric]) simp
      then have "rest_from h b p = rest_from h (Suc b) 1" using True by (simp add: rest_from_def)
      then show ?thesis using less.hyps [of "Suc b" 1] True F2 b n less.prems
        by (subst next_loop.simps) simp
    qed
  qed
qed

lemma hash_next_ok:
  assumes n: "length (buckets h) = unat (bucket_cnt h)"
    and i: "it_elem i = Some p" "it_bucket i < length (buckets h)" "p \<le> length (buckets h ! it_bucket i)"
  shows "\<exists>i'. hash_next h i = Some (i', case rest_from h (it_bucket i) (Suc p) of [] \<Rightarrow> None | x # _ \<Rightarrow> Some x) \<and>
    (case rest_from h (it_bucket i) (Suc p) of [] \<Rightarrow> True
     | x # xs \<Rightarrow> \<exists>q. it_elem i' = Some q \<and> it_bucket i' < length (buckets h) \<and>
         q \<le> length (buckets h ! it_bucket i') \<and> rest_from h (it_bucket i') (Suc q) = xs)"
proof -
  obtain i' where i': "next_loop h (it_bucket i) (Suc p) = Some i'"
    "case rest_from h (it_bucket i) (Suc p) of [] \<Rightarrow> it_elem i' = None
       | x # xs \<Rightarrow> \<exists>q. it_elem i' = Some q \<and> hash_cur h i' = Some x \<and> it_bucket i' < length (buckets h) \<and>
           q \<le> length (buckets h ! it_bucket i') \<and> rest_from h (it_bucket i') (Suc q) = xs"
    using next_loop_ok [OF n i(2), of "Suc p"] i(3) by auto
  have "hash_next h i = Some (i', hash_cur h i')"
    using i i'(1) by (simp add: hash_next_def bucket_at_def)
  with i'(2) show ?thesis by (auto simp: hash_cur_def split: list.splits)
qed

lemma hash_iterate_from:
  assumes n: "length (buckets h) = unat (bucket_cnt h)"
  shows "it_elem i = Some p \<Longrightarrow> it_bucket i < length (buckets h) \<Longrightarrow> p \<le> length (buckets h ! it_bucket i) \<Longrightarrow>
    rest_from h (it_bucket i) (Suc p) = xs \<Longrightarrow> hash_iterate h i = Some xs"
proof (induction xs arbitrary: i p)
  case Nil
  then show ?case using hash_next_ok [OF n Nil(1-3)] by (subst hash_iterate.simps) auto
next
  case (Cons x xs)
  then show ?case using hash_next_ok [OF n Cons.prems(1-3)] by (subst hash_iterate.simps) auto
qed

lemma hash_iterate_all:
  assumes "hash_wf h"
  shows "hash_iterate h hash_first = Some (elems h)"
proof -
  have n: "length (buckets h) = unat (bucket_cnt h)" "bucket_cnt h \<noteq> 0"
    using wf_placed [OF assms] by (auto simp: placed_def)
  then have "0 < length (buckets h)" by (simp add: unat_gt_0)
  moreover from this have "rest_from h 0 (Suc 0) = elems h"
    by (cases "buckets h") (auto simp: rest_from_def elems_def)
  ultimately show ?thesis
    using hash_iterate_from [OF n(1), of hash_first 0 "elems h"] by (simp add: hash_first_def)
qed

section \<open>Lookup laws\<close>

context hash_contract
begin

lemma same_trans: "same x y \<Longrightarrow> same z y \<Longrightarrow> same x z"
  using neg_trans by (meson same_def)

lemma same_sym: "same x y \<Longrightarrow> same y x"
  by (simp add: same_def)

lemma find_iff:
  assumes "uses h"
  shows "hash_find h e = Some (Some x) \<longleftrightarrow> x \<in> set (elems h) \<and> same x e"
proof -
  have "List.find (\<lambda>x. same x e) (elems h) = Some x \<longleftrightarrow> x \<in> set (elems h) \<and> same x e"
  proof
    assume x: "x \<in> set (elems h) \<and> same x e"
    then obtain y where y: "List.find (\<lambda>x. same x e) (elems h) = Some y"
      by (cases "List.find (\<lambda>x. same x e) (elems h)") (auto simp: find_None_iff)
    then have "y \<in> set (elems h)" "same y e" by (auto simp: find_Some_iff)
    moreover from this have "same x y" using x same_trans by blast
    ultimately have "x = y" using x assms by (auto simp: hash_wf_def same_def)
    with y show "List.find (\<lambda>x. same x e) (elems h) = Some x" by simp
  qed (auto simp: find_Some_iff)
  then show ?thesis using hash_find_ok [OF assms] by simp
qed

lemma find_none_iff: "uses h \<Longrightarrow> hash_find h e = Some None \<longleftrightarrow> (\<forall>x\<in>set (elems h). \<not> same x e)"
  by (auto simp: hash_find_ok find_None_iff)

lemma find_cong:
  assumes "uses h" "uses h'" "\<And>x. same x e \<Longrightarrow> x \<in> set (elems h') \<longleftrightarrow> x \<in> set (elems h)"
  shows "hash_find h' e = hash_find h e"
proof -
  obtain r where r: "hash_find h e = Some r" using hash_find_ok [OF assms(1)] by blast
  show ?thesis
  proof (cases r)
    case None
    then have "\<forall>x\<in>set (elems h). \<not> same x e" using r find_none_iff [OF assms(1), of e] by simp
    then have "\<forall>x\<in>set (elems h'). \<not> same x e" using assms(3) by blast
    then show ?thesis using r None find_none_iff [OF assms(2), of e] by simp
  next
    case (Some x)
    then have "x \<in> set (elems h) \<and> same x e" using r find_iff [OF assms(1), of e x] by simp
    then have "x \<in> set (elems h') \<and> same x e" using assms(3) by blast
    then show ?thesis using r Some find_iff [OF assms(2), of e x] by simp
  qed
qed

lemma hash_insert_find:
  assumes "uses h" "hash_insert mem h e = Some (h', old)"
  shows "uses h'" "hash_find h e = Some old"
    "hash_find h' e = Some (Some (case old of None \<Rightarrow> e | Some x \<Rightarrow> x))"
    "\<not> same e e' \<Longrightarrow> hash_find h' e' = hash_find h e'"
    "elem_cnt h' = elem_cnt h + (if old = None then 1 else 0)"
proof -
  let ?f = "List.find (\<lambda>x. same x e) (elems h)"
  obtain h1 where h1: "hash_insert mem h e = Some (h1, ?f)" "uses h1"
    "mset (elems h1) = (if ?f = None then {#e#} else {#}) + mset (elems h)"
    using hash_insert_ok [OF assms(1)] by blast
  then have eq: "h1 = h'" "?f = old" using assms(2) by auto
  show u: "uses h'" and f: "hash_find h e = Some old" using h1 eq hash_find_ok [OF assms(1)] by auto
  have m: "mset (elems h') = (if old = None then {#e#} else {#}) + mset (elems h)" using h1(3) eq by simp
  have set: "set (elems h') = (if old = None then {e} else {}) \<union> set (elems h)"
    using arg_cong [OF m, of set_mset] by (simp split: if_splits)
  have ee: "same e e" using irrefl by (simp add: same_def)
  show "hash_find h' e = Some (Some (case old of None \<Rightarrow> e | Some x \<Rightarrow> x))"
    using set ee f find_iff [OF u, of e] find_iff [OF assms(1), of e] by (cases old) auto
  show "hash_find h' e' = hash_find h e'" if ne: "\<not> same e e'"
    using ne set by (intro find_cong assms(1) u) auto
  have "length (elems h') = (if old = None then 1 else 0) + length (elems h)"
    using arg_cong [OF m, of size] by simp
  then show "elem_cnt h' = elem_cnt h + (if old = None then 1 else 0)"
    using u assms(1) by (simp add: hash_wf_def)
qed

lemma hash_delete_find:
  assumes "uses h" "hash_delete mem h e = Some (h', old)"
  shows "uses h'" "hash_find h e = Some old" "hash_find h' e = Some None"
    "\<not> same e e' \<Longrightarrow> hash_find h' e' = hash_find h e'"
proof -
  let ?f = "List.find (\<lambda>x. same x e) (elems h)"
  obtain h1 where h1: "hash_delete mem h e = Some (h1, ?f)" "uses h1"
    "mset (elems h1) = mset (elems h) - (case ?f of None \<Rightarrow> {#} | Some x \<Rightarrow> {#x#})"
    using hash_delete_ok [OF assms(1)] by blast
  then have eq: "h1 = h'" "?f = old" using assms(2) by auto
  show u: "uses h'" and f: "hash_find h e = Some old" using h1 eq hash_find_ok [OF assms(1)] by auto
  have m: "mset (elems h') = mset (elems h) - (case old of None \<Rightarrow> {#} | Some x \<Rightarrow> {#x#})" using h1(3) eq by simp
  have d: "distinct (elems h)" using assms(1) by (simp add: hash_wf_def)
  have set: "set (elems h') = set (elems h) - set_option old"
  proof (cases old)
    case None
    then show ?thesis using m mset_eq_setD [of "elems h'" "elems h"] by simp
  next
    case (Some x)
    then have "mset (elems h') = mset (remove1 x (elems h))" using m by simp
    then have "set (elems h') = set (remove1 x (elems h))" by (rule mset_eq_setD)
    then show ?thesis using Some d by simp
  qed
  show "hash_find h' e = Some None"
  proof -
    have "\<not> same x e" if "x \<in> set (elems h')" for x
    proof (cases old)
      case None
      then show ?thesis using that set f find_none_iff [OF assms(1), of e] by auto
    next
      case (Some y)
      then have y: "y \<in> set (elems h)" "same y e" using f find_iff [OF assms(1), of e y] by simp_all
      show ?thesis
      proof
        assume "same x e"
        then have "same x y" using y(2) same_trans by blast
        then have "x = y" using y(1) that set assms(1) by (auto simp: hash_wf_def same_def)
        then show False using that set Some by simp
      qed
    qed
    then show ?thesis using find_none_iff [OF u, of e] by simp
  qed
  show "hash_find h' e' = hash_find h e'" if ne: "\<not> same e e'"
  proof (intro find_cong assms(1) u)
    fix x assume x: "same x e'"
    have "same z e" if "old = Some z" for z using that f find_iff [OF assms(1), of e z] by simp
    then have "x \<notin> set_option old"
      using x ne same_trans [of e x e'] same_sym by (cases old) auto
    then show "x \<in> set (elems h') \<longleftrightarrow> x \<in> set (elems h)" using set by simp
  qed
qed

end

section \<open>Properties\<close>

text \<open>
  C33: hash table lookup after insertion. For a comparison and hash function that satisfy
  their contract, \<^verbatim>\<open>hash_insert\<close> never faults, keeps the table invariant through any
  resizing (whether or not \<^verbatim>\<open>malloc\<close> succeeds), returns the equal element that was already
  there if there is one, makes the element findable otherwise, and changes no other lookup.
\<close>

theorem hash_insert_lookup:
  assumes "hash_contract lf hf" "hash_wf h" "hash_fn h = hf" "less_fn h = lf"
  shows "\<exists>h' old. hash_insert mem h e = Some (h', old) \<and> hash_wf h' \<and> hash_find h e = Some old \<and>
    hash_find h' e = Some (Some (case old of None \<Rightarrow> e | Some x \<Rightarrow> x)) \<and>
    (\<forall>e'. lf e e' \<or> lf e' e \<longrightarrow> hash_find h' e' = hash_find h e') \<and>
    elem_cnt h' = elem_cnt h + (if old = None then 1 else 0)"
proof -
  have u: "hash_wf h \<and> hash_fn h = hf \<and> less_fn h = lf" using assms by simp
  obtain h' old where r: "hash_insert mem h e = Some (h', old)"
    using hash_contract.hash_insert_ok [OF assms(1) u] by blast
  note f = hash_contract.hash_insert_find [OF assms(1) u r]
  have "\<forall>e'. lf e e' \<or> lf e' e \<longrightarrow> hash_find h' e' = hash_find h e'"
    using f(4) assms(1) by (auto simp: strict_weak_order.same_def hash_contract.axioms(1))
  then show ?thesis using r f(1-3,5) by blast
qed

definition demo_table :: "nat hash" where
  "demo_table = \<lparr>Hash_Table.hash.elem_cnt = 2, bucket_cnt = 4, buckets = [[8], [5], [], []], hash_fn = of_nat, less_fn = (<)\<rparr>"

lemma demo_table_wf: "hash_wf demo_table"
  by (simp add: demo_table_def hash_wf_def elems_def find_bucket_def is_power_of_2_def turn_off_least_1bit_def
      All_less_Suc)

lemma nat_hash_contract: "hash_contract (<) (of_nat :: nat \<Rightarrow> 32 word)"
  by unfold_locales auto

lemma hash_insert_lookup_witness:
  "\<exists>h' old. hash_insert True demo_table 7 = Some (h', old) \<and> hash_wf h' \<and> hash_find demo_table 7 = Some old \<and>
    hash_find h' 7 = Some (Some (case old of None \<Rightarrow> 7 | Some x \<Rightarrow> x)) \<and>
    (\<forall>e'. 7 < e' \<or> e' < 7 \<longrightarrow> hash_find h' e' = hash_find demo_table e') \<and>
    elem_cnt h' = elem_cnt demo_table + (if old = None then 1 else 0)"
  by (rule hash_insert_lookup [OF nat_hash_contract demo_table_wf]) (simp_all add: demo_table_def)

text \<open>
  C34: hash table deletion. \<^verbatim>\<open>hash_delete\<close> returns exactly the element that a lookup would have
  found, keeps the invariant, leaves no equal element behind and changes no other lookup.
\<close>

theorem hash_delete_lookup:
  assumes "hash_contract lf hf" "hash_wf h" "hash_fn h = hf" "less_fn h = lf"
  shows "\<exists>h' old. hash_delete mem h e = Some (h', old) \<and> hash_wf h' \<and> hash_find h e = Some old \<and>
    hash_find h' e = Some None \<and> (\<forall>e'. lf e e' \<or> lf e' e \<longrightarrow> hash_find h' e' = hash_find h e')"
proof -
  have u: "hash_wf h \<and> hash_fn h = hf \<and> less_fn h = lf" using assms by simp
  obtain h' old where r: "hash_delete mem h e = Some (h', old)"
    using hash_contract.hash_delete_ok [OF assms(1) u] by blast
  note f = hash_contract.hash_delete_find [OF assms(1) u r]
  have "\<forall>e'. lf e e' \<or> lf e' e \<longrightarrow> hash_find h' e' = hash_find h e'"
    using f(4) assms(1) by (auto simp: strict_weak_order.same_def hash_contract.axioms(1))
  then show ?thesis using r f(1-3) by blast
qed

lemma hash_delete_lookup_witness:
  "\<exists>h' old. hash_delete True demo_table 8 = Some (h', old) \<and> hash_wf h' \<and> hash_find demo_table 8 = Some old \<and>
    hash_find h' 8 = Some None \<and> (\<forall>e'. 8 < e' \<or> e' < 8 \<longrightarrow> hash_find h' e' = hash_find demo_table e')"
  by (rule hash_delete_lookup [OF nat_hash_contract demo_table_wf]) (simp_all add: demo_table_def)

text \<open>
  C35: iteration over a hash table. Starting from \<^verbatim>\<open>hash_first\<close> and calling \<^verbatim>\<open>hash_next\<close> until it
  returns null terminates and visits every element of the table exactly once; in
  particular the number of elements visited is the element counter.
\<close>

theorem hash_iterate_visits_all:
  assumes "hash_wf h"
  shows "\<exists>xs. hash_iterate h hash_first = Some xs \<and> distinct xs \<and> set xs = set (elems h) \<and>
    of_nat (length xs) = hash_size h"
  using hash_iterate_all [OF assms] assms by (auto simp: hash_wf_def hash_size_def)

lemma hash_iterate_visits_all_witness:
  "\<exists>xs. hash_iterate demo_table hash_first = Some xs \<and> distinct xs \<and> set xs = set (elems demo_table) \<and>
    of_nat (length xs) = hash_size demo_table"
  by (rule hash_iterate_visits_all [OF demo_table_wf])

text \<open>
  The number of buckets. Whatever the element count, the loop of \<^verbatim>\<open>rehash\<close> that turns off
  low bits terminates with a power of two that is at least 4 and that is the largest one
  not above half the element count when that is at least 4.
\<close>

theorem rehash_bucket_count:
  "\<exists>n k. new_bucket_cnt h = Some n \<and> unat n = 2 ^ k \<and> 4 \<le> unat n \<and>
    (let m = max 4 (unat (elem_cnt h) div 2) in unat n \<le> m \<and> m < 2 * unat n)"
proof -
  define m where "m = (if elem_cnt h div 2 < 4 then 4 else elem_cnt h div 2)"
  have um: "unat m = max 4 (unat (elem_cnt h) div 2)"
    by (auto simp: m_def unat_div word_less_nat_alt max_def)
  have "1 \<le> unat m" unfolding um by simp
  then obtain k where k: "2 ^ k \<le> unat m" "unat m < 2 ^ Suc k"
    using ex_power_ivl1 [of 2 "unat m"] by auto
  obtain r where r: "pow2_loop m = Some r" "unat r = 2 ^ k" using pow2_loop_ok [OF k] by blast
  have n: "new_bucket_cnt h = Some r" using r by (simp add: new_bucket_cnt_def m_def Let_def)
  obtain n' k' where "new_bucket_cnt h = Some n'" "unat n' = 2 ^ k'" "2 \<le> k'" using new_bucket_cnt_ok by blast
  moreover from this n have "unat r = 2 ^ k'" "2 \<le> k'" by simp_all
  moreover have "(2::nat) ^ 2 \<le> 2 ^ k'" using \<open>2 \<le> k'\<close> by (intro power_increasing) auto
  ultimately show ?thesis using n r k um by (intro exI [of _ r] exI [of _ k]) (simp add: Let_def)
qed

end
