(* ===== verification/Cstring.thy ===== *)
theory Cstring
  imports Prelude
begin

text \<open>
  The memory and string functions of \<^verbatim>\<open>lib/string.c\<close> over a byte memory: a partial map
  from addresses to bytes, where an address that is not mapped faults. Every loop of the
  code is a loop of the model, in the same direction. \<open>bytes_at\<close> and \<open>str_at\<close> say that
  memory holds a block or a terminated string; the lemmas give each function's result in
  terms of the blocks and strings it is called on.
\<close>

section \<open>Memory\<close>

type_synonym mem = "nat \<Rightarrow> 8 word option"

definition store :: "mem \<Rightarrow> nat \<Rightarrow> 8 word \<Rightarrow> mem option" where
  "store m p v = do { _ \<leftarrow> m p; Some (m(p \<mapsto> v)) }"

section \<open>Operations\<close>

primrec copy_forward :: "nat \<Rightarrow> mem \<Rightarrow> nat \<Rightarrow> nat \<Rightarrow> mem option" where
  "copy_forward 0 m dst src = Some m"
| "copy_forward (Suc n) m dst src = do {
     v \<leftarrow> m src; m \<leftarrow> store m dst v; copy_forward n m (dst + 1) (src + 1) }"

text \<open>The arguments of the backward loop point just behind the bytes still to copy.\<close>

primrec copy_backward :: "nat \<Rightarrow> mem \<Rightarrow> nat \<Rightarrow> nat \<Rightarrow> mem option" where
  "copy_backward 0 m dst src = Some m"
| "copy_backward (Suc n) m dst src = do {
     v \<leftarrow> m (src - 1); m \<leftarrow> store m (dst - 1) v; copy_backward n m (dst - 1) (src - 1) }"

definition memcpy :: "mem \<Rightarrow> nat \<Rightarrow> nat \<Rightarrow> nat \<Rightarrow> (mem \<times> nat) option" where
  "memcpy m dst src sz = do {
     ASSERT (dst \<noteq> 0 \<or> sz = 0); ASSERT (src \<noteq> 0 \<or> sz = 0);
     m \<leftarrow> copy_forward sz m dst src;
     Some (m, dst) }"

text \<open>\<^verbatim>\<open>memmove\<close> returns its moving destination pointer, not the argument.\<close>

definition memmove :: "mem \<Rightarrow> nat \<Rightarrow> nat \<Rightarrow> nat \<Rightarrow> (mem \<times> nat) option" where
  "memmove m dst src sz = do {
     ASSERT (dst \<noteq> 0 \<or> sz = 0); ASSERT (src \<noteq> 0 \<or> sz = 0);
     if dst < src
     then do { m \<leftarrow> copy_forward sz m dst src; Some (m, dst + sz) }
     else do { m \<leftarrow> copy_backward sz m (dst + sz) (src + sz); Some (m, dst) } }"

primrec memcmp_loop :: "nat \<Rightarrow> mem \<Rightarrow> nat \<Rightarrow> nat \<Rightarrow> int option" where
  "memcmp_loop 0 m a b = Some 0"
| "memcmp_loop (Suc n) m a b = do {
     x \<leftarrow> m a; y \<leftarrow> m b;
     if x \<noteq> y then Some (if x > y then 1 else - 1) else memcmp_loop n m (a + 1) (b + 1) }"

definition memcmp :: "mem \<Rightarrow> nat \<Rightarrow> nat \<Rightarrow> nat \<Rightarrow> int option" where
  "memcmp m a b sz = do {
     ASSERT (a \<noteq> 0 \<or> sz = 0); ASSERT (b \<noteq> 0 \<or> sz = 0);
     memcmp_loop sz m a b }"

partial_function (option) strcmp_loop :: "mem \<Rightarrow> nat \<Rightarrow> nat \<Rightarrow> int option" where
  [code]: "strcmp_loop m a b = do {
     x \<leftarrow> m a;
     y \<leftarrow> m b;
     if x \<noteq> 0 \<and> x = y then strcmp_loop m (a + 1) (b + 1)
     else Some (if x < y then - 1 else if x > y then 1 else 0) }"

definition strcmp :: "mem \<Rightarrow> nat \<Rightarrow> nat \<Rightarrow> int option" where
  "strcmp m a b = do { ASSERT (a \<noteq> 0); ASSERT (b \<noteq> 0); strcmp_loop m a b }"

primrec memchr_loop :: "nat \<Rightarrow> mem \<Rightarrow> nat \<Rightarrow> 8 word \<Rightarrow> nat option" where
  "memchr_loop 0 m p ch = Some 0"
| "memchr_loop (Suc n) m p ch = do {
     v \<leftarrow> m p; if v = ch then Some p else memchr_loop n m (p + 1) ch }"

definition memchr :: "mem \<Rightarrow> nat \<Rightarrow> 8 word \<Rightarrow> nat \<Rightarrow> nat option" where
  "memchr m p ch sz = do { ASSERT (p \<noteq> 0 \<or> sz = 0); memchr_loop sz m p ch }"

partial_function (option) strchr_loop :: "mem \<Rightarrow> nat \<Rightarrow> 8 word \<Rightarrow> nat option" where
  [code]: "strchr_loop m p c = do {
     v \<leftarrow> m p;
     if v = c then Some p else if v = 0 then Some 0 else strchr_loop m (p + 1) c }"

definition strchr :: "mem \<Rightarrow> nat \<Rightarrow> 8 word \<Rightarrow> nat option" where
  "strchr m p c = do { ASSERT (p \<noteq> 0); strchr_loop m p c }"

partial_function (option) strcspn_loop :: "mem \<Rightarrow> nat \<Rightarrow> nat \<Rightarrow> nat \<Rightarrow> nat option" where
  [code]: "strcspn_loop m s stop len = do {
     v \<leftarrow> m (s + len);
     if v = 0 then Some len
     else do { q \<leftarrow> strchr m stop v; if q \<noteq> 0 then Some len else strcspn_loop m s stop (len + 1) } }"

definition strcspn :: "mem \<Rightarrow> nat \<Rightarrow> nat \<Rightarrow> nat option" where
  "strcspn m s stop = strcspn_loop m s stop 0"

partial_function (option) strpbrk :: "mem \<Rightarrow> nat \<Rightarrow> nat \<Rightarrow> nat option" where
  [code]: "strpbrk m s stop = do {
     v \<leftarrow> m s;
     if v = 0 then Some 0
     else do { q \<leftarrow> strchr m stop v; if q \<noteq> 0 then Some s else strpbrk m (s + 1) stop } }"

partial_function (option) strrchr_loop :: "mem \<Rightarrow> nat \<Rightarrow> 8 word \<Rightarrow> nat \<Rightarrow> nat option" where
  [code]: "strrchr_loop m s c p = do {
     v \<leftarrow> m s;
     if v = 0 then Some p else strrchr_loop m (s + 1) c (if v = c then s else p) }"

definition strrchr :: "mem \<Rightarrow> nat \<Rightarrow> 8 word \<Rightarrow> nat option" where
  "strrchr m s c = strrchr_loop m s c 0"

partial_function (option) strspn_loop :: "mem \<Rightarrow> nat \<Rightarrow> nat \<Rightarrow> nat \<Rightarrow> nat option" where
  [code]: "strspn_loop m s skip len = do {
     v \<leftarrow> m (s + len);
     if v = 0 then Some len
     else do { q \<leftarrow> strchr m skip v; if q = 0 then Some len else strspn_loop m s skip (len + 1) } }"

definition strspn :: "mem \<Rightarrow> nat \<Rightarrow> nat \<Rightarrow> nat option" where
  "strspn m s skip = strspn_loop m s skip 0"

partial_function (option) strlen_loop :: "mem \<Rightarrow> nat \<Rightarrow> nat \<Rightarrow> nat option" where
  [code]: "strlen_loop m s p = do {
     v \<leftarrow> m p;
     if v = 0 then Some (p - s) else strlen_loop m s (p + 1) }"

definition strlen :: "mem \<Rightarrow> nat \<Rightarrow> nat option" where
  "strlen m s = do { ASSERT (s \<noteq> 0); strlen_loop m s s }"

text \<open>The loop of \<^verbatim>\<open>strstr\<close>; the first argument is the number of positions left to try.\<close>

primrec strstr_loop :: "nat \<Rightarrow> mem \<Rightarrow> nat \<Rightarrow> nat \<Rightarrow> nat \<Rightarrow> nat \<Rightarrow> nat option" where
  "strstr_loop 0 m hay needle needle_len i = Some 0"
| "strstr_loop (Suc n) m hay needle needle_len i = do {
     c \<leftarrow> memcmp m (hay + i) needle needle_len;
     if c = 0 then Some (hay + i) else strstr_loop n m hay needle needle_len (i + 1) }"

definition strstr :: "mem \<Rightarrow> nat \<Rightarrow> nat \<Rightarrow> nat option" where
  "strstr m hay needle = do {
     hay_len \<leftarrow> strlen m hay;
     needle_len \<leftarrow> strlen m needle;
     if hay_len \<ge> needle_len then strstr_loop (hay_len - needle_len + 1) m hay needle needle_len 0
     else Some 0 }"

text \<open>
  \<^verbatim>\<open>strtok_r\<close>: the two scanning loops, then the call. The result is the memory, the saved
  position and the token (0 for null).
\<close>

partial_function (option) skip_delims :: "mem \<Rightarrow> nat \<Rightarrow> nat \<Rightarrow> (nat \<times> bool) option" where
  [code]: "skip_delims m delims s = do {
     v \<leftarrow> m s;
     q \<leftarrow> strchr m delims v;
     if q \<noteq> 0 then if v = 0 then Some (s, False) else skip_delims m delims (s + 1)
     else Some (s, True) }"

partial_function (option) skip_token :: "mem \<Rightarrow> nat \<Rightarrow> nat \<Rightarrow> nat option" where
  [code]: "skip_token m delims s = do {
     v \<leftarrow> m s;
     q \<leftarrow> strchr m delims v;
     if q = 0 then skip_token m delims (s + 1) else Some s }"

definition strtok_r :: "mem \<Rightarrow> nat \<Rightarrow> nat \<Rightarrow> nat \<Rightarrow> (mem \<times> nat \<times> nat) option" where
  "strtok_r m s delims save_ptr = do {
     ASSERT (delims \<noteq> 0);
     let s = (if s = 0 then save_ptr else s);
     ASSERT (s \<noteq> 0);
     (s, found) \<leftarrow> skip_delims m delims s;
     if \<not> found then Some (m, s, 0)
     else do {
       let token = s;
       s \<leftarrow> skip_token m delims s;
       v \<leftarrow> m s;
       if v \<noteq> 0 then do { m \<leftarrow> store m s 0; Some (m, s + 1, token) }
       else Some (m, s, token) } }"

primrec memset_loop :: "nat \<Rightarrow> mem \<Rightarrow> nat \<Rightarrow> 8 word \<Rightarrow> mem option" where
  "memset_loop 0 m dst v = Some m"
| "memset_loop (Suc n) m dst v = do { m \<leftarrow> store m dst v; memset_loop n m (dst + 1) v }"

definition memset :: "mem \<Rightarrow> nat \<Rightarrow> 8 word \<Rightarrow> nat \<Rightarrow> (mem \<times> nat) option" where
  "memset m dst v sz = do {
     ASSERT (dst \<noteq> 0 \<or> sz = 0); m \<leftarrow> memset_loop sz m dst v; Some (m, dst) }"

partial_function (option) strnlen_loop :: "mem \<Rightarrow> nat \<Rightarrow> nat \<Rightarrow> nat \<Rightarrow> nat option" where
  [code]: "strnlen_loop m s maxlen len = do {
     v \<leftarrow> m (s + len);
     if v \<noteq> 0 \<and> len < maxlen then strnlen_loop m s maxlen (len + 1) else Some len }"

definition strnlen :: "mem \<Rightarrow> nat \<Rightarrow> nat \<Rightarrow> nat option" where
  "strnlen m s maxlen = strnlen_loop m s maxlen 0"

definition strlcpy :: "mem \<Rightarrow> nat \<Rightarrow> nat \<Rightarrow> nat \<Rightarrow> (mem \<times> nat) option" where
  "strlcpy m dst src sz = do {
     ASSERT (dst \<noteq> 0); ASSERT (src \<noteq> 0);
     src_len \<leftarrow> strlen m src;
     if sz > 0 then do {
       let dst_len = (if src_len < sz - 1 then src_len else sz - 1);
       (m, _) \<leftarrow> memcpy m dst src dst_len;
       m \<leftarrow> store m (dst + dst_len) 0;
       Some (m, src_len) }
     else Some (m, src_len) }"

definition strlcat :: "mem \<Rightarrow> nat \<Rightarrow> nat \<Rightarrow> nat \<Rightarrow> (mem \<times> nat) option" where
  "strlcat m dst src sz = do {
     ASSERT (dst \<noteq> 0); ASSERT (src \<noteq> 0);
     src_len \<leftarrow> strlen m src;
     dst_len \<leftarrow> strlen m dst;
     if sz > 0 \<and> dst_len < sz then do {
       let copy_cnt = (if src_len < sz - dst_len - 1 then src_len else sz - dst_len - 1);
       (m, _) \<leftarrow> memcpy m (dst + dst_len) src copy_cnt;
       m \<leftarrow> store m (dst + dst_len + copy_cnt) 0;
       Some (m, src_len + dst_len) }
     else Some (m, src_len + dst_len) }"

section \<open>Blocks and strings in memory\<close>

definition bytes_at :: "mem \<Rightarrow> nat \<Rightarrow> 8 word list \<Rightarrow> bool" where
  "bytes_at m p bs \<longleftrightarrow> (\<forall>i<length bs. m (p + i) = Some (bs ! i))"

definition writable :: "mem \<Rightarrow> nat \<Rightarrow> nat \<Rightarrow> bool" where
  "writable m p n \<longleftrightarrow> (\<forall>i<n. m (p + i) \<noteq> None)"

definition str_at :: "mem \<Rightarrow> nat \<Rightarrow> 8 word list \<Rightarrow> bool" where
  "str_at m p s \<longleftrightarrow> p \<noteq> 0 \<and> 0 \<notin> set s \<and> bytes_at m p (s @ [0])"

lemma bytes_at_Nil [simp]: "bytes_at m p []"
  by (simp add: bytes_at_def)

lemma bytes_at_Cons [simp]: "bytes_at m p (b # bs) \<longleftrightarrow> m p = Some b \<and> bytes_at m (Suc p) bs"
  by (auto simp: bytes_at_def less_Suc_eq_0_disj)

lemma bytes_at_append: "bytes_at m p (as @ bs) \<longleftrightarrow> bytes_at m p as \<and> bytes_at m (p + length as) bs"
  by (induction as arbitrary: p) auto

lemma writable_Suc [simp]: "writable m p (Suc n) \<longleftrightarrow> m p \<noteq> None \<and> writable m (Suc p) n"
  by (auto simp: writable_def less_Suc_eq_0_disj)

lemma writable_0 [simp]: "writable m p 0"
  by (simp add: writable_def)

lemma writable_upd [simp]: "writable m p n \<Longrightarrow> writable (m(q \<mapsto> v)) p n"
  by (auto simp: writable_def)

text \<open>Writing a block.\<close>

definition put :: "mem \<Rightarrow> nat \<Rightarrow> 8 word list \<Rightarrow> mem" where
  "put m p bs = (\<lambda>q. if p \<le> q \<and> q < p + length bs then Some (bs ! (q - p)) else m q)"

lemma put_Nil [simp]: "put m p [] = m"
  by (rule ext) (auto simp: put_def)

lemma put_Cons: "put m p (b # bs) = put (m(p \<mapsto> b)) (Suc p) bs"
  by (rule ext) (auto simp: put_def nth_Cons' Suc_le_eq)

lemma put_snoc: "put m p (bs @ [b]) = put (m(p + length bs \<mapsto> b)) p bs"
  by (rule ext) (auto simp: put_def nth_append)

lemma bytes_at_put [simp]: "bytes_at (put m p bs) p bs"
  by (auto simp: bytes_at_def put_def)

lemma bytes_at_frame:
  "bytes_at m q cs \<Longrightarrow> {q..<q + length cs} \<inter> {p..<p + length bs} = {} \<Longrightarrow> bytes_at (put m p bs) q cs"
  by (auto simp: bytes_at_def put_def disjoint_iff)

section \<open>Copying and comparing\<close>

lemma store_ok [simp]: "m p \<noteq> None \<Longrightarrow> store m p v = Some (m(p \<mapsto> v))"
  by (auto simp: store_def)

lemma bytes_at_upd: "q < p \<or> p + length bs \<le> q \<Longrightarrow> bytes_at (m(q \<mapsto> v)) p bs = bytes_at m p bs"
proof -
  assume "q < p \<or> p + length bs \<le> q"
  then have "(m(q \<mapsto> v)) (p + i) = m (p + i)" if "i < length bs" for i
    using that by (simp add: fun_upd_def) linarith
  then show ?thesis by (simp add: bytes_at_def)
qed

lemma copy_forward_ok:
  "bytes_at m src bs \<Longrightarrow> writable m dst (length bs) \<Longrightarrow> dst \<le> src \<or> src + length bs \<le> dst \<Longrightarrow>
   copy_forward (length bs) m dst src = Some (put m dst bs)"
proof (induction bs arbitrary: m dst src)
  case (Cons b bs)
  have "bytes_at (m(dst \<mapsto> b)) (Suc src) bs"
    using Cons.prems by (subst bytes_at_upd) auto
  then have "copy_forward (length bs) (m(dst \<mapsto> b)) (Suc dst) (Suc src) = Some (put (m(dst \<mapsto> b)) (Suc dst) bs)"
    by (rule Cons.IH) (use Cons.prems in \<open>auto simp del: fun_upd_apply\<close>)
  then show ?case using Cons.prems by (simp add: put_Cons)
qed simp

lemma writable_less: "writable m p (Suc n) \<Longrightarrow> writable m p n \<and> m (p + n) \<noteq> None"
  by (auto simp: writable_def simp del: writable_Suc)

lemma copy_backward_ok:
  "bytes_at m src bs \<Longrightarrow> writable m dst (length bs) \<Longrightarrow> src \<le> dst \<Longrightarrow>
   copy_backward (length bs) m (dst + length bs) (src + length bs) = Some (put m dst bs)"
proof (induction bs arbitrary: m rule: rev_induct)
  case (snoc b bs)
  have w: "writable m dst (length bs)" "m (dst + length bs) \<noteq> None"
    using snoc.prems(2) writable_less [of m dst "length bs"] by auto
  have s: "m (src + length bs) = Some b" "bytes_at m src bs"
    using snoc.prems(1) by (auto simp: bytes_at_append)
  have "bytes_at (m(dst + length bs \<mapsto> b)) src bs"
    using s snoc.prems by (subst bytes_at_upd) auto
  then have "copy_backward (length bs) (m(dst + length bs \<mapsto> b)) (dst + length bs) (src + length bs) =
    Some (put (m(dst + length bs \<mapsto> b)) dst bs)"
    by (rule snoc.IH) (use snoc.prems w in \<open>auto simp del: fun_upd_apply\<close>)
  then show ?case using w s by (simp add: put_snoc)
qed simp

text \<open>\<^verbatim>\<open>memmove\<close> copies overlapping blocks correctly, whichever way they overlap.\<close>

lemma memmove_ok:
  assumes "bytes_at m src bs" "writable m dst (length bs)" "dst \<noteq> 0" "src \<noteq> 0"
  shows "memmove m dst src (length bs) = Some (put m dst bs, if dst < src then dst + length bs else dst)"
  using assms copy_forward_ok [OF assms(1,2)] copy_backward_ok [OF assms(1,2)]
  by (simp add: memmove_def)

lemma memcpy_ok:
  assumes "bytes_at m src bs" "writable m dst (length bs)" "dst \<noteq> 0" "src \<noteq> 0"
    "src + length bs \<le> dst \<or> dst + length bs \<le> src"
  shows "memcpy m dst src (length bs) = Some (put m dst bs, dst)"
  using assms copy_forward_ok [OF assms(1,2)] by (auto simp: memcpy_def)

lemma memset_loop_ok: "writable m dst n \<Longrightarrow> memset_loop n m dst v = Some (put m dst (replicate n v))"
  by (induction n arbitrary: m dst) (auto simp: put_Cons)

lemma memset_ok: "writable m dst n \<Longrightarrow> dst \<noteq> 0 \<Longrightarrow> memset m dst v n = Some (put m dst (replicate n v), dst)"
  by (simp add: memset_def memset_loop_ok)

text \<open>Comparison is lexicographic on unsigned bytes.\<close>

definition lex_sign :: "8 word list \<Rightarrow> 8 word list \<Rightarrow> int" where
  "lex_sign as bs = (if ord_class.lexordp as bs then - 1 else if ord_class.lexordp bs as then 1 else 0)"

lemma lex_sign_Nil [simp]: "lex_sign [] [] = 0"
  by (simp add: lex_sign_def)

lemma lex_sign_Cons [simp]:
  "lex_sign (a # as) (b # bs) = (if a < b then - 1 else if b < a then 1 else lex_sign as bs)"
  by (auto simp: lex_sign_def)

lemma lex_sign_0: "lex_sign as bs = 0 \<longleftrightarrow> as = bs"
proof (induction as arbitrary: bs)
  case Nil
  then show ?case by (cases bs) (auto simp: lex_sign_def)
next
  case (Cons a as)
  then show ?case by (cases bs) (auto simp: lex_sign_def[of "_ # _" "[]"])
qed

lemma memcmp_loop_ok:
  "bytes_at m a as \<Longrightarrow> bytes_at m b bs \<Longrightarrow> length as = length bs \<Longrightarrow>
   memcmp_loop (length as) m a b = Some (lex_sign as bs)"
proof (induction as arbitrary: a b bs)
  case (Cons x xs)
  then obtain y ys where "bs = y # ys" by (cases bs) auto
  then show ?case using Cons by (auto simp: not_less_iff_gr_or_eq)
qed simp

lemma memcmp_ok:
  "bytes_at m a as \<Longrightarrow> bytes_at m b bs \<Longrightarrow> length as = length bs \<Longrightarrow> a \<noteq> 0 \<Longrightarrow> b \<noteq> 0 \<Longrightarrow>
   memcmp m a b (length as) = Some (lex_sign as bs)"
  using memcmp_loop_ok [of m a as b bs] by (simp add: memcmp_def)

lemma strcmp_loop_ok:
  "bytes_at m a (as @ [0]) \<Longrightarrow> bytes_at m b (bs @ [0]) \<Longrightarrow> 0 \<notin> set as \<Longrightarrow> 0 \<notin> set bs \<Longrightarrow>
   strcmp_loop m a b = Some (lex_sign as bs)"
proof (induction as arbitrary: a b bs)
  case Nil
  then show ?case
    by (subst strcmp_loop.simps; cases bs) (auto simp: lex_sign_def word_gt_0)
next
  case (Cons x xs)
  show ?case
  proof (cases bs)
    case Nil
    then show ?thesis using Cons.prems by (subst strcmp_loop.simps) (auto simp: lex_sign_def word_gt_0)
  next
    case (Cons y ys)
    then show ?thesis using Cons.prems Cons.IH [of "Suc a" "Suc b" ys]
      by (subst strcmp_loop.simps) (auto simp: not_less_iff_gr_or_eq)
  qed
qed

lemma strcmp_ok: "str_at m a as \<Longrightarrow> str_at m b bs \<Longrightarrow> strcmp m a b = Some (lex_sign as bs)"
  by (simp add: strcmp_def str_at_def strcmp_loop_ok)

section \<open>Searching strings\<close>

lemma strchr_loop_ok:
  "bytes_at m p (s @ [0]) \<Longrightarrow> 0 \<notin> set s \<Longrightarrow>
   strchr_loop m p c = Some (if c \<in> set (s @ [0]) then p + length (takeWhile (\<lambda>x. x \<noteq> c) s) else 0)"
proof (induction s arbitrary: p)
  case Nil
  then show ?case by (subst strchr_loop.simps) auto
next
  case (Cons x s)
  then show ?case by (subst strchr_loop.simps) auto
qed

lemma strchr_ok:
  "str_at m p s \<Longrightarrow> strchr m p c = Some (if c \<in> set (s @ [0]) then p + length (takeWhile (\<lambda>x. x \<noteq> c) s) else 0)"
  using strchr_loop_ok [of m p s c] by (simp add: strchr_def str_at_def)

lemma strchr_found: "str_at m p s \<Longrightarrow> \<exists>q. strchr m p c = Some q \<and> (q \<noteq> 0 \<longleftrightarrow> c = 0 \<or> c \<in> set s)"
  by (simp add: strchr_ok) (simp add: str_at_def)

lemma strlen_loop_ok: "bytes_at m (p + k) (s @ [0]) \<Longrightarrow> 0 \<notin> set s \<Longrightarrow> strlen_loop m p (p + k) = Some (k + length s)"
proof (induction s arbitrary: k)
  case Nil
  then show ?case by (subst strlen_loop.simps) simp
next
  case (Cons x s)
  then show ?case using Cons.IH [of "Suc k"] by (subst strlen_loop.simps) simp
qed

lemma strlen_ok: "str_at m p s \<Longrightarrow> strlen m p = Some (length s)"
  using strlen_loop_ok [of m p 0 s] by (simp add: strlen_def str_at_def)

lemma strcspn_loop_ok:
  "bytes_at m (p + k) (s @ [0]) \<Longrightarrow> 0 \<notin> set s \<Longrightarrow> str_at m q ds \<Longrightarrow>
   strcspn_loop m p q k = Some (k + length (takeWhile (\<lambda>x. x \<notin> set ds) s))"
proof (induction s arbitrary: k)
  case Nil
  then show ?case by (subst strcspn_loop.simps) simp
next
  case (Cons x s)
  then show ?case using Cons.IH [of "Suc k"] strchr_found [of m q ds x] by (subst strcspn_loop.simps) auto
qed

lemma strspn_loop_ok:
  "bytes_at m (p + k) (s @ [0]) \<Longrightarrow> 0 \<notin> set s \<Longrightarrow> str_at m q ds \<Longrightarrow>
   strspn_loop m p q k = Some (k + length (takeWhile (\<lambda>x. x \<in> set ds) s))"
proof (induction s arbitrary: k)
  case Nil
  then show ?case by (subst strspn_loop.simps) simp
next
  case (Cons x s)
  then show ?case using Cons.IH [of "Suc k"] strchr_found [of m q ds x] by (subst strspn_loop.simps) auto
qed

lemma strspn_ok: "str_at m p s \<Longrightarrow> str_at m q ds \<Longrightarrow> strspn m p q = Some (length (takeWhile (\<lambda>x. x \<in> set ds) s))"
  using strspn_loop_ok [of m p 0 s q ds] by (simp add: strspn_def str_at_def)

lemma strcspn_ok: "str_at m p s \<Longrightarrow> str_at m q ds \<Longrightarrow> strcspn m p q = Some (length (takeWhile (\<lambda>x. x \<notin> set ds) s))"
  using strcspn_loop_ok [of m p 0 s q ds] by (simp add: strcspn_def str_at_def)

text \<open>\<^verbatim>\<open>strlcpy\<close> writes a terminated prefix that fits and returns the length of the source.\<close>

lemma str_at_take: "str_at m p s \<Longrightarrow> bytes_at m p (take n s)"
  by (auto simp: str_at_def bytes_at_def nth_append)

lemma put_upd_end: "(put m p bs)(p + length bs \<mapsto> b) = put m p (bs @ [b])"
  by (rule ext) (auto simp: put_def nth_append)

lemma strlcpy_ok:
  assumes s: "str_at m src s" and w: "writable m dst n" "dst \<noteq> 0"
    and n: "0 < n" and dj: "src + length s < dst \<or> dst + n \<le> src"
  shows "strlcpy m dst src n = Some (put m dst (take (n - 1) s @ [0]), length s)"
proof -
  let ?t = "take (n - 1) s"
  let ?len = "if length s < n - 1 then length s else n - 1"
  have len: "?len = length ?t" by auto
  have "length ?t < n" using n by auto
  then have wt: "writable m dst (length ?t)" "m (dst + length ?t) \<noteq> None"
    using w(1) by (auto simp: writable_def)
  have "memcpy m dst src (length ?t) = Some (put m dst ?t, dst)"
    using str_at_take [OF s] wt w(2) s dj \<open>length ?t < n\<close>
    by (intro memcpy_ok) (auto simp: str_at_def)
  moreover have "put m dst ?t (dst + length ?t) \<noteq> None" using wt by (simp add: put_def)
  moreover have "strlcpy m dst src n =
      do { (m, _) \<leftarrow> memcpy m dst src ?len; m \<leftarrow> store m (dst + ?len) 0; Some (m, length s) }"
    using n w(2) s strlen_ok [OF s] by (simp add: strlcpy_def str_at_def Let_def)
  ultimately show ?thesis
    unfolding len using put_upd_end [of m dst ?t 0] by (simp del: length_take)
qed

section \<open>Tokens\<close>

lemma skip_delims_ok:
  "bytes_at m s (cs @ [0]) \<Longrightarrow> 0 \<notin> set cs \<Longrightarrow> str_at m d ds \<Longrightarrow>
   skip_delims m d s = Some (s + length (takeWhile (\<lambda>x. x \<in> set ds) cs), dropWhile (\<lambda>x. x \<in> set ds) cs \<noteq> [])"
proof (induction cs arbitrary: s)
  case Nil
  then show ?case using strchr_found [of m d ds 0] by (subst skip_delims.simps) auto
next
  case (Cons x cs)
  then show ?case using strchr_found [of m d ds x] by (subst skip_delims.simps) auto
qed

lemma skip_token_ok:
  "bytes_at m s (cs @ [0]) \<Longrightarrow> 0 \<notin> set cs \<Longrightarrow> str_at m d ds \<Longrightarrow>
   skip_token m d s = Some (s + length (takeWhile (\<lambda>x. x \<notin> set ds) cs))"
proof (induction cs arbitrary: s)
  case Nil
  then show ?case using strchr_found [of m d ds 0] by (subst skip_token.simps) auto
next
  case (Cons x cs)
  then show ?case using strchr_found [of m d ds x] by (subst skip_token.simps) auto
qed

text \<open>
  One call: leading delimiters are skipped; without anything left the result is null,
  otherwise the token is terminated in place and the rest of the string is saved.
\<close>

lemma bytes_at_suffix: "bytes_at m p (as @ bs) \<Longrightarrow> bytes_at m (p + length as) bs"
  by (simp add: bytes_at_append)

lemma strtok_r_none:
  assumes s: "str_at m p cs" and d: "str_at m d ds" and "dropWhile (\<lambda>x. x \<in> set ds) cs = []"
    and p: "p = (if s = 0 then save else s)"
  shows "strtok_r m s d save = Some (m, p + length cs, 0)"
proof -
  have eq: "takeWhile (\<lambda>x. x \<in> set ds) cs = cs" using assms(3) by (metis append_Nil2 takeWhile_dropWhile_id)
  have "skip_delims m d p = Some (p + length cs, False)"
    using s d assms(3) skip_delims_ok [of m p cs d ds] unfolding eq by (simp add: str_at_def)
  then show ?thesis using s d by (simp add: strtok_r_def str_at_def flip: p)
qed

lemma strtok_r_token:
  assumes s: "str_at m p cs" and d: "str_at m d ds" and rest: "dropWhile (\<lambda>x. x \<in> set ds) cs = rest" "rest \<noteq> []"
    and dj: "d + length ds < p \<or> p + length cs < d" and p: "p = (if s = 0 then save else s)"
  defines "t \<equiv> p + length (takeWhile (\<lambda>x. x \<in> set ds) cs)"
    and "tok \<equiv> takeWhile (\<lambda>x. x \<notin> set ds) rest" and "after \<equiv> tl (dropWhile (\<lambda>x. x \<notin> set ds) rest)"
  shows "\<exists>m' save'. strtok_r m s d save = Some (m', save', t) \<and> str_at m' t tok \<and> str_at m' save' after \<and>
    str_at m' d ds \<and> tok \<noteq> [] \<and> save' + length after = p + length cs \<and>
    m' = (if tok = rest then m else m(t + length tok \<mapsto> 0))"
proof -
  let ?pre = "takeWhile (\<lambda>x. x \<in> set ds) cs"
  have cs: "cs = ?pre @ rest" using rest by (metis takeWhile_dropWhile_id)
  have z: "0 \<notin> set rest" "0 \<notin> set cs" using s cs by (auto simp: str_at_def) (metis Un_iff set_append)
  have b: "bytes_at m t (rest @ [0])"
    using s bytes_at_suffix [of m p ?pre "rest @ [0]"] cs unfolding t_def by (metis append_assoc str_at_def)
  have sd: "skip_delims m d p = Some (t, True)"
    using skip_delims_ok [of m p cs d ds] s d rest by (auto simp: str_at_def t_def)
  have st: "skip_token m d t = Some (t + length tok)"
    using skip_token_ok [OF b z(1) d] by (simp add: tok_def)
  have tok: "tok \<noteq> []" "0 \<notin> set tok"
    using rest z hd_dropWhile [of "\<lambda>x. x \<in> set ds" cs]
    by (cases rest; auto simp: tok_def dest: set_takeWhileD)+
  have s0: "p \<noteq> 0" "d \<noteq> 0" "t \<noteq> 0" using s d by (auto simp: str_at_def t_def)
  show ?thesis
  proof (cases "dropWhile (\<lambda>x. x \<notin> set ds) rest")
    case Nil
    have r: "tok = rest" "after = []"
      using takeWhile_dropWhile_id [of "\<lambda>x. x \<notin> set ds" rest] unfolding tok_def after_def Nil by simp_all
    have len: "t + length tok = p + length cs" using arg_cong [OF cs, of length] r(1) by (simp add: t_def)
    have mp: "m (t + length tok) = Some 0" "bytes_at m t tok" using b r by (auto simp: bytes_at_append)
    have run: "strtok_r m s d save = Some (m, t + length tok, t)"
      using sd st s0 mp by (simp add: strtok_r_def flip: p)
    have "str_at m t tok" "str_at m (t + length tok) after"
      using mp s0 tok r by (auto simp: str_at_def bytes_at_append)
    then show ?thesis using run d tok len r by (intro exI conjI) (assumption | simp)+
  next
    case (Cons c after')
    then have a: "after' = after" by (simp add: after_def)
    have r: "rest = tok @ c # after"
      using takeWhile_dropWhile_id [of "\<lambda>x. x \<notin> set ds" rest] a unfolding tok_def Cons by simp
    have c0: "c \<noteq> 0" "0 \<notin> set after" "tok \<noteq> rest" using z r by auto
    let ?p = "t + length tok"
    let ?m = "m(?p \<mapsto> 0)"
    have mp: "m ?p = Some c" "bytes_at m t tok" "bytes_at m (Suc ?p) (after @ [0])"
      using b r by (auto simp: bytes_at_append)
    have len: "?p + Suc (length after) = p + length cs"
      using arg_cong [OF cs, of length] unfolding r by (simp add: t_def)
    have run: "strtok_r m s d save = Some (?m, Suc ?p, t)"
      using sd st s0 mp c0 by (simp add: strtok_r_def flip: p)
    have "str_at ?m t tok" using mp s0 tok by (auto simp: str_at_def bytes_at_append bytes_at_upd)
    moreover have "str_at ?m (Suc ?p) after" using mp c0 by (auto simp: str_at_def bytes_at_upd)
    moreover have "str_at ?m d ds" using d dj len by (auto simp: str_at_def bytes_at_upd t_def)
    ultimately show ?thesis using run tok len c0 by (intro exI conjI) (assumption | simp)+
  qed
qed

section \<open>Properties\<close>

text \<open>
  \<^verbatim>\<open>memmove\<close>. For a readable source block and a writable destination of the same length,
  however they overlap, the destination ends up with the original source bytes and no
  other byte changes. The value returned is the destination pointer only when the blocks
  are copied backwards; the forward branch returns the pointer past the copied block.
\<close>

theorem memmove_overlapping:
  assumes "bytes_at m src bs" "writable m dst (length bs)" "dst \<noteq> 0" "src \<noteq> 0"
  shows "\<exists>m'. memmove m dst src (length bs) = Some (m', if dst < src then dst + length bs else dst) \<and>
    bytes_at m' dst bs \<and> (\<forall>q. q < dst \<or> dst + length bs \<le> q \<longrightarrow> m' q = m q)"
  using memmove_ok [OF assms] by (auto simp: put_def) (simp add: bytes_at_def)

lemma memmove_overlapping_witness:
  "\<exists>m'. memmove (\<lambda>q. if q < 20 then Some (of_nat q) else None) 5 3 (length [3, 4, 5 :: 8 word]) =
      Some (m', if (5::nat) < 3 then 5 + length [3, 4, 5 :: 8 word] else 5) \<and>
    bytes_at m' 5 [3, 4, 5] \<and>
    (\<forall>q. q < 5 \<or> 5 + length [3, 4, 5 :: 8 word] \<le> q \<longrightarrow> m' q = (if q < 20 then Some (of_nat q) else None))"
  by (rule memmove_overlapping) (simp_all add: writable_def)

text \<open>
  C38: \<^verbatim>\<open>strtok_r\<close>, on the string \<open>s\<close>, or on the saved rest if \<open>s\<close> is null. The call skips leading
  delimiters. If nothing is left it returns null and writes nothing. Otherwise it returns a pointer to the first
  character that is not a delimiter; the token there is the maximal nonempty run of non-delimiters; the only byte
  written is the delimiter after it, which becomes the terminator (a token that ends the string needs none);
  and the saved position is the rest of the string, from which the next call with a null \<open>s\<close> continues.
\<close>

theorem strtok_r_tokens:
  assumes "p = (if s = 0 then save else s)" "str_at m p cs" "str_at m d ds" "d + length ds < p \<or> p + length cs < d"
  defines "rest \<equiv> dropWhile (\<lambda>x. x \<in> set ds) cs"
  defines "t \<equiv> p + length (takeWhile (\<lambda>x. x \<in> set ds) cs)"
    and "tok \<equiv> takeWhile (\<lambda>x. x \<notin> set ds) rest" and "after \<equiv> tl (dropWhile (\<lambda>x. x \<notin> set ds) rest)"
  shows "if rest = [] then strtok_r m s d save = Some (m, p + length cs, 0)
    else \<exists>m' save'. strtok_r m s d save = Some (m', save', t) \<and> t \<noteq> 0 \<and> tok \<noteq> [] \<and>
      str_at m' t tok \<and> str_at m' save' after \<and> str_at m' d ds \<and>
      m' = (if tok = rest then m else m(t + length tok \<mapsto> 0)) \<and> save' + length after = p + length cs"
proof (cases "rest = []")
  case True
  then show ?thesis using strtok_r_none [OF assms(2,3) _ assms(1)] by (simp add: rest_def)
next
  case False
  have "t \<noteq> 0" using assms(2) by (simp add: t_def str_at_def)
  moreover obtain m' save' where "strtok_r m s d save = Some (m', save', t)" "str_at m' t tok" "str_at m' save' after"
    "str_at m' d ds" "tok \<noteq> []" "save' + length after = p + length cs" "m' = (if tok = rest then m else m(t + length tok \<mapsto> 0))"
    using strtok_r_token [OF assms(2,3) meta_eq_to_obj_eq [OF rest_def, symmetric] False assms(4,1)]
    unfolding tok_def after_def t_def by blast
  ultimately show ?thesis using False by (metis (full_types))
qed

text \<open>The string \<^verbatim>\<open>" ab c"\<close> at 10 and the delimiter string \<^verbatim>\<open>" "\<close> at 30.\<close>

definition demo_mem :: mem where
  "demo_mem = [10 \<mapsto> 32, 11 \<mapsto> 97, 12 \<mapsto> 98, 13 \<mapsto> 32, 14 \<mapsto> 99, 15 \<mapsto> 0, 30 \<mapsto> 32, 31 \<mapsto> 0]"

lemma strtok_r_tokens_witness:
  "\<exists>m'. strtok_r demo_mem 10 30 0 = Some (m', 14, 11) \<and> str_at m' 11 [97, 98] \<and>
    (\<exists>m''. strtok_r m' 0 30 14 = Some (m'', 15, 14) \<and> str_at m'' 14 [99] \<and> m'' = m')"
proof -
  have s: "str_at demo_mem 10 [32, 97, 98, 32, 99]" "str_at demo_mem 30 [32]"
    by (simp_all add: str_at_def demo_mem_def)
  obtain m' where m': "strtok_r demo_mem 10 30 0 = Some (m', 14, 11)" "str_at m' 11 [97, 98]" "str_at m' 14 [99]" "str_at m' 30 [32]"
    using strtok_r_tokens [OF refl, where s = 10 and save = 0 and m = demo_mem and cs = "[32, 97, 98, 32, 99]" and d = 30 and ds = "[32]"] s by auto
  then show ?thesis using strtok_r_tokens [OF refl, where s = 0 and save = 14 and m = m' and cs = "[99]" and d = 30 and ds = "[32]"] by auto
qed

text \<open>
  \<^verbatim>\<open>strlcpy\<close> never overruns its destination. With a destination of \<open>n > 0\<close> writable bytes that
  does not overlap the source, it writes the longest prefix of the source that fits
  together with a terminator, nothing else, and returns the full length of the source.
\<close>

theorem strlcpy_bounded:
  assumes "str_at m src s" "writable m dst n" "dst \<noteq> 0" "0 < n" "src + length s < dst \<or> dst + n \<le> src"
  shows "\<exists>m'. strlcpy m dst src n = Some (m', length s) \<and> str_at m' dst (take (n - 1) s) \<and> str_at m' src s \<and>
    (\<forall>q. q < dst \<or> dst + n \<le> q \<longrightarrow> m' q = m q)"
proof -
  have r: "strlcpy m dst src n = Some (put m dst (take (n - 1) s @ [0]), length s)"
    using assms by (intro strlcpy_ok) auto
  have "0 \<notin> set (take (n - 1) s)" using assms(1) by (auto simp: str_at_def dest: in_set_takeD)
  then have "str_at (put m dst (take (n - 1) s @ [0])) dst (take (n - 1) s)"
    using assms(3) by (simp add: str_at_def)
  moreover have "str_at (put m dst (take (n - 1) s @ [0])) src s"
    using assms by (auto simp: str_at_def intro!: bytes_at_frame)
  moreover have "\<forall>q. q < dst \<or> dst + n \<le> q \<longrightarrow> put m dst (take (n - 1) s @ [0]) q = m q"
    using assms(4) by (auto simp: put_def)
  ultimately show ?thesis using r by blast
qed

lemma demo_writable: "writable demo_mem 30 2"
  unfolding numeral_2_eq_2 by (simp add: demo_mem_def)

lemma strlcpy_bounded_witness:
  "\<exists>m'. strlcpy demo_mem 30 10 2 = Some (m', length [32, 97, 98, 32, 99 :: 8 word]) \<and>
    str_at m' 30 (take (2 - 1) [32, 97, 98, 32, 99]) \<and> str_at m' 10 [32, 97, 98, 32, 99] \<and>
    (\<forall>q. q < 30 \<or> 30 + 2 \<le> q \<longrightarrow> m' q = demo_mem q)"
  by (rule strlcpy_bounded [OF _ demo_writable]) (simp_all add: str_at_def demo_mem_def)

end
