(* ===== verification/Arith64.thy ===== *)
theory Arith64
  imports Prelude
begin

text \<open>
  The 64-bit division routines of \<^verbatim>\<open>lib/arithmetic.c\<close>, which the compiler calls for every
  64-bit division of the kernel. The quotient routines are shown to compute the quotient
  for every nonzero divisor, including the approximation step for divisors of more than
  32 bits; a trap of the \<^verbatim>\<open>divl\<close> instruction is \<open>None\<close>. The remainder routines return
  through a 32-bit type.
\<close>

section \<open>Definitions\<close>

definition divl :: "64 word \<Rightarrow> 32 word \<Rightarrow> 32 word option" where
  "divl n d = (if d = 0 \<or> n div ucast d \<ge> 2 ^ 32 then None else Some (ucast (n div ucast d)))"

definition nlz_step :: "32 word \<Rightarrow> nat \<Rightarrow> nat \<times> 32 word \<Rightarrow> nat \<times> 32 word" where
  "nlz_step limit k = (\<lambda>(n, x). if x \<le> limit then (n + k, push_bit k x) else (n, x))"

definition nlz :: "32 word \<Rightarrow> nat" where
  "nlz x = (let p = nlz_step 0x0000FFFF 16 (0, x);
                p = nlz_step 0x00FFFFFF 8 p;
                p = nlz_step 0x0FFFFFFF 4 p;
                (n, x) = nlz_step 0x3FFFFFFF 2 p
            in if x \<le> 0x7FFFFFFF then n + 1 else n)"

definition udiv64 :: "64 word \<Rightarrow> 64 word \<Rightarrow> 64 word option" where
  "udiv64 n d =
     (if drop_bit 32 d = 0 then
        let b = push_bit 32 1 :: 64 word;
            n1 = ucast (drop_bit 32 n) :: 32 word; n0 = ucast n :: 32 word; d0 = ucast d :: 32 word
        in do { q \<leftarrow> divl (b * ucast (n1 mod d0) + ucast n0) d0;
                Some (ucast q + b * ucast (n1 div d0)) }
      else if n < d then Some 0
      else
        let d1 = ucast (drop_bit 32 d) :: 32 word; s = nlz d1
        in do { q0 \<leftarrow> divl (drop_bit 1 n) (ucast (drop_bit 32 (push_bit s d)));
                let q = (ucast (drop_bit (31 - s) q0) :: 64 word);
                Some (if n - (q - 1) * d < d then q - 1 else q) })"

definition umod64 :: "64 word \<Rightarrow> 64 word \<Rightarrow> 32 word option" where
  "umod64 n d = do { q \<leftarrow> udiv64 n d; Some (ucast (n - d * q)) }"

definition sdiv64 :: "64 word \<Rightarrow> 64 word \<Rightarrow> 64 word option" where
  "sdiv64 n d = do {
     let n_abs = (if sint n \<ge> 0 then n else - n);
     let d_abs = (if sint d \<ge> 0 then d else - d);
     q_abs \<leftarrow> udiv64 n_abs d_abs;
     Some (if (sint n < 0) = (sint d < 0) then q_abs else - q_abs) }"

definition smod64 :: "64 word \<Rightarrow> 64 word \<Rightarrow> 32 word option" where
  "smod64 n d = do { q \<leftarrow> sdiv64 n d; Some (ucast (n - d * q)) }"

definition divdi3 :: "64 word \<Rightarrow> 64 word \<Rightarrow> 64 word option" where
  "divdi3 n d = sdiv64 n d"

definition moddi3 :: "64 word \<Rightarrow> 64 word \<Rightarrow> 64 word option" where
  "moddi3 n d = map_option scast (smod64 n d)"

definition udivdi3 :: "64 word \<Rightarrow> 64 word \<Rightarrow> 64 word option" where
  "udivdi3 n d = udiv64 n d"

definition umoddi3 :: "64 word \<Rightarrow> 64 word \<Rightarrow> 64 word option" where
  "umoddi3 n d = map_option ucast (umod64 n d)"

section \<open>Leading zeros\<close>

lemma unat_push_bit: "unat x * 2 ^ k < 2 ^ LENGTH('a) \<Longrightarrow> unat (push_bit k x) = unat x * 2 ^ k"
  for x :: "'a::len word"
  by (simp only: unsigned_push_bit_eq) (simp add: push_bit_eq_mult take_bit_nat_eq_self)

lemma unat_drop_bit: "unat (drop_bit k x) = unat x div 2 ^ k" for x :: "'a::len word"
  by (simp only: unsigned_drop_bit_eq) (simp add: drop_bit_eq_div take_bit_nat_eq_self)

lemma nlz_step_ok:
  assumes l: "unat limit = 2 ^ (32 - k) - 1" and k: "2 * k \<le> 32"
    and y: "unat y = m * 2 ^ n" "2 ^ (32 - 2 * k) \<le> unat y"
    and r: "nlz_step limit k (n, y) = (n', y')"
  shows "unat y' = m * 2 ^ n'" "2 ^ (32 - k) \<le> unat y'" "n' \<le> n + k"
proof -
  have pos: "0 < (2::nat) ^ (32 - k)" by simp
  have "unat y' = m * 2 ^ n' \<and> 2 ^ (32 - k) \<le> unat y' \<and> n' \<le> n + k"
  proof (cases "y \<le> limit")
    case True
    then have "unat y \<le> 2 ^ (32 - k) - 1" using l by (simp add: word_le_nat_alt)
    then have lt: "unat y < 2 ^ (32 - k)" using pos by linarith
    then have "unat y * 2 ^ k < 2 ^ (32 - k) * 2 ^ k" by simp
    also have "\<dots> = (2::nat) ^ 32" using k by (simp flip: power_add)
    finally have u: "unat (push_bit k y) = unat y * 2 ^ k" by (intro unat_push_bit) simp
    have "32 - k = (32 - 2 * k) + k" using k by simp
    then have "(2::nat) ^ (32 - k) = 2 ^ (32 - 2 * k) * 2 ^ k" by (simp only: power_add)
    also have "\<dots> \<le> unat y * 2 ^ k" using y(2) by simp
    finally show ?thesis using True u y(1) r by (auto simp: nlz_step_def power_add)
  next
    case False
    then show ?thesis using y l r pos by (auto simp: nlz_step_def word_le_nat_alt)
  qed
  then show "unat y' = m * 2 ^ n'" "2 ^ (32 - k) \<le> unat y'" "n' \<le> n + k" by auto
qed

text \<open>Shifting by the number of leading zeros puts the highest bit in place.\<close>

lemma nlz_ok:
  assumes "x \<noteq> 0"
  shows "nlz x \<le> 31 \<and> 2 ^ 31 \<le> unat x * 2 ^ nlz x \<and> unat x * 2 ^ nlz x < 2 ^ 32"
proof -
  have x: "unat x = unat x * 2 ^ 0" "2 ^ (32 - 2 * 16) \<le> unat x"
    using assms by (simp_all add: Suc_le_eq unat_gt_0)
  obtain n1 y1 where p1: "nlz_step 0x0000FFFF 16 (0, x) = (n1, y1)" by fastforce
  obtain n2 y2 where p2: "nlz_step 0x00FFFFFF 8 (n1, y1) = (n2, y2)" by fastforce
  obtain n3 y3 where p3: "nlz_step 0x0FFFFFFF 4 (n2, y2) = (n3, y3)" by fastforce
  obtain n4 y4 where p4: "nlz_step 0x3FFFFFFF 2 (n3, y3) = (n4, y4)" by fastforce
  note s1 = nlz_step_ok [OF _ _ x p1, simplified]
  note s2 = nlz_step_ok [OF _ _ s1(1) _ p2, simplified]
  note s3 = nlz_step_ok [OF _ _ s2(1) _ p3, simplified]
  note s4 = nlz_step_ok [OF _ _ s3(1) _ p4, simplified]
  have y4: "unat y4 = unat x * 2 ^ n4" "2 ^ 30 \<le> unat y4" "n4 \<le> 30"
    using s1 s2 s3 s4 by auto
  have lt: "unat y4 < 2 ^ 32" using unsigned_less [of y4] by simp
  have n: "nlz x = (if y4 \<le> 0x7FFFFFFF then n4 + 1 else n4)"
    by (simp add: nlz_def p1 p2 p3 p4)
  show ?thesis
  proof (cases "y4 \<le> 0x7FFFFFFF")
    case True
    then have "unat y4 < 2 ^ 31" by (simp add: word_le_nat_alt)
    then show ?thesis using True n y4 by simp
  next
    case False
    then have "2 ^ 31 \<le> unat y4" by (simp add: word_le_nat_alt)
    then show ?thesis using False n y4 lt by simp
  qed
qed

section \<open>Division\<close>

text \<open>The divisor fits in 32 bits: two chained divisions.\<close>

lemma div_chain:
  fixes a b d n :: nat
  shows "(b * (a mod d) + n) div d + b * (a div d) = (b * a + n) div d"
proof (cases "d = 0")
  case False
  have "b * a + n = b * (a mod d) + n + (b * (a div d)) * d"
    by (metis (no_types, lifting) ab_semigroup_add_class.add_ac(1) add.commute distrib_left div_mult_mod_eq mult.assoc)
  then have "(b * a + n) div d = (b * (a mod d) + n + (b * (a div d)) * d) div d" by (rule arg_cong)
  then show ?thesis using False by simp
qed simp

lemma div_chain_bound:
  fixes b d r n :: nat
  assumes "r < d" "n < b"
  shows "(b * r + n) div d < b"
proof -
  have "b * r + n < b * (r + 1)" using assms by simp
  also have "\<dots> \<le> b * d" using assms by (intro mult_le_mono) auto
  finally show ?thesis using assms by (simp add: div_less_iff_less_mult mult.commute)
qed

lemma unat_ucast_up: "LENGTH('a) \<le> LENGTH('b) \<Longrightarrow> unat (ucast x :: 'b::len word) = unat x" for x :: "'a::len word"
  by (simp add: unsigned_ucast_eq take_bit_nat_eq_self less_le_trans [OF unsigned_less])

lemma unat_ucast_down: "unat (ucast x :: 32 word) = unat x mod 2 ^ 32" for x :: "64 word"
  by (simp add: unsigned_ucast_eq take_bit_eq_mod)

lemma divl_ok:
  assumes "d \<noteq> 0" "unat n div unat d < 2 ^ 32"
  shows "\<exists>q. divl n d = Some q \<and> unat q = unat n div unat d"
proof -
  have u: "unat (n div ucast d) = unat n div unat d"
    by (simp add: unat_div unat_ucast_up)
  then have "n div ucast d < 2 ^ 32" using assms by (simp add: word_less_nat_alt)
  then show ?thesis using assms u by (auto simp: divl_def unat_ucast_down)
qed

lemma udiv64_small:
  assumes d: "d \<noteq> 0" "unat d < 2 ^ 32"
  shows "udiv64 n d = Some (n div d)"
proof -
  let ?b = "2 ^ 32 :: nat"
  have d0: "drop_bit 32 d = 0" using d by (simp add: unat_eq_0 [symmetric] unat_drop_bit del: unat_eq_0)
  let ?d = "ucast d :: 32 word" and ?n1 = "ucast (drop_bit 32 n) :: 32 word" and ?n0 = "ucast n :: 32 word"
  have ud: "unat ?d = unat d" using d by (simp add: unat_ucast_down)
  have n64: "unat n < 2 ^ 64" using unsigned_less [of n] by simp
  then have un1: "unat ?n1 = unat n div ?b" by (simp add: unat_ucast_down unat_drop_bit less_mult_imp_div_less)
  have un0: "unat ?n0 = unat n mod ?b" by (simp add: unat_ucast_down)
  have eqn: "?b * (unat n div ?b) + unat n mod ?b = unat n" by simp
  have rm: "unat (?n1 mod ?d) = unat ?n1 mod unat d" using ud by (simp add: unat_mod)
  have rl: "unat ?n1 mod unat d < unat d" using d by (simp add: unat_gt_0)
  have ub: "?b * (unat ?n1 mod unat d) + unat ?n0 < 2 ^ 64"
  proof -
    have "?b * (unat ?n1 mod unat d) + unat ?n0 < ?b * (unat ?n1 mod unat d + 1)" using un0 by simp
    also have "\<dots> \<le> ?b * ?b" using rl d by (intro mult_le_mono) auto
    finally show ?thesis by simp
  qed
  let ?w = "push_bit 32 1 * ucast (?n1 mod ?d) + ucast ?n0 :: 64 word"
  have uw: "unat ?w = ?b * (unat ?n1 mod unat d) + unat ?n0"
    using ub less_trans [OF rl d(2)] by (simp add: unat_word_ariths unat_ucast_up ud)
  have qb: "unat ?w div unat ?d < 2 ^ 32"
    unfolding uw ud using rl un0 by (intro div_chain_bound) auto
  have "?d \<noteq> 0" using ud d by (metis unat_eq_0 unat_0)
  from divl_ok [OF this qb] obtain q where q: "divl ?w ?d = Some q" "unat q = unat ?w div unat ?d" by auto
  let ?r = "ucast q + push_bit 32 1 * ucast (?n1 div ?d) :: 64 word"
  have eq: "unat q + ?b * (unat ?n1 div unat d) = unat n div unat d"
    using q(2) unfolding uw ud using div_chain [of ?b "unat ?n1" "unat d" "unat ?n0"] un1 un0 eqn by simp
  then have "unat q + ?b * (unat ?n1 div unat d) < 2 ^ 64" using n64 div_le_dividend [of "unat n" "unat d"] by linarith
  moreover from this have "?b * (unat ?n1 div unat d) < 2 ^ 64" by linarith
  ultimately have "unat ?r = unat n div unat d"
    using eq by (simp add: unat_word_ariths unat_ucast_up unat_div ud)
  then have "?r = n div d" by (metis unat_div word_unat_eq_iff)
  then show ?thesis using d0 q(1) by (simp add: udiv64_def Let_def)
qed

text \<open>
  A divisor of more than 32 bits: dividing by the divisor with its low bits cleared
  overestimates the quotient by at most one.
\<close>

lemma estimate_bounds:
  fixes n d D k :: nat
  assumes k: "1 \<le> k" "k \<le> 32" and D: "D \<le> d" "d - D \<le> 2 ^ k - 1" "2 ^ (31 + k) \<le> D" and n: "n < 2 ^ 64"
  shows "n div d \<le> n div D" "n div D \<le> n div d + 1"
proof -
  have D0: "0 < D" by (rule less_le_trans [OF _ D(3)]) simp
  show "n div d \<le> n div D" using D(1) D0 by (rule div_le_mono2 [rotated])
  let ?Q = "n div d"
  have d0: "0 < d" using D(1) D0 by simp
  have "?Q * 2 ^ (31 + k) \<le> ?Q * d" using D by simp
  also have "\<dots> \<le> n" by simp
  finally have "?Q * 2 ^ (31 + k) < 2 ^ 64" using n by simp
  also have "(2::nat) ^ 64 = 2 ^ (33 - k) * 2 ^ (31 + k)" using k by (simp flip: power_add)
  finally have Q: "?Q + 1 \<le> 2 ^ (33 - k)" by simp
  have "(?Q + 1) * (d - D) \<le> 2 ^ (33 - k) * (2 ^ k - 1)" using Q D(2) by (rule mult_le_mono)
  also have "\<dots> = 2 ^ 33 - 2 ^ (33 - k)" using k by (simp add: diff_mult_distrib2 flip: power_add)
  also have "\<dots> \<le> 2 ^ (31 + k)"
  proof (cases "k = 1")
    case False
    then have "(2::nat) ^ 33 \<le> 2 ^ (31 + k)" using k by (intro power_increasing) auto
    then show ?thesis by simp
  qed simp
  also have "\<dots> \<le> D" by (rule D(3))
  finally have e: "(?Q + 1) * (d - D) \<le> D" .
  have "n < (?Q + 1) * d" using d0 by (metis add.commute div_mult_mod_eq mod_less_divisor mult.commute mult_Suc_right
      nat_add_left_cancel_less plus_1_eq_Suc)
  also have "\<dots> = (?Q + 1) * D + (?Q + 1) * (d - D)" using D(1) by (metis add_mult_distrib2 le_add_diff_inverse)
  also have "\<dots> \<le> (?Q + 1) * D + D" using e by simp
  finally have "n < (?Q + 2) * D" by simp
  then have "n div D < ?Q + 2" using D0 by (simp add: div_less_iff_less_mult)
  then show "n div D \<le> n div d + 1" by simp
qed

lemma normalize_bounds:
  fixes d d1 s k :: nat
  assumes d1: "d1 = d div 2 ^ 32" and s: "s \<le> 31" "2 ^ 31 \<le> d1 * 2 ^ s" "d1 * 2 ^ s < 2 ^ 32" and k: "k = 32 - s"
  shows "d * 2 ^ s < 2 ^ 64" "d * 2 ^ s div 2 ^ 32 = d div 2 ^ k" "2 ^ 31 \<le> d div 2 ^ k"
proof -
  have p: "(2::nat) ^ 32 = 2 ^ k * 2 ^ s" using s(1) k by (simp flip: power_add)
  have "d1 * 2 ^ s < 2 ^ k * 2 ^ s" using s(3) unfolding p .
  then have "d1 + 1 \<le> 2 ^ k" by simp
  have "d < (d1 + 1) * 2 ^ 32" unfolding d1 by (simp add: dividend_less_div_times)
  also have "\<dots> \<le> 2 ^ k * 2 ^ 32" using \<open>d1 + 1 \<le> 2 ^ k\<close> by (intro mult_le_mono1)
  finally have "d * 2 ^ s < 2 ^ k * 2 ^ 32 * 2 ^ s" by simp
  also have "\<dots> = 2 ^ 32 * (2 ^ k * 2 ^ s)" by (simp only: mult_ac)
  also have "\<dots> = 2 ^ 64" unfolding p [symmetric] by simp
  finally show "d * 2 ^ s < 2 ^ 64" .
  show "d * 2 ^ s div 2 ^ 32 = d div 2 ^ k" unfolding p by simp
  have "d1 * 2 ^ s * 2 ^ k = d1 * 2 ^ 32" unfolding p by (simp only: mult_ac)
  also have "\<dots> \<le> d" unfolding d1 by (rule div_times_less_eq_dividend)
  finally have "d1 * 2 ^ s \<le> d div 2 ^ k" by (simp add: less_eq_div_iff_mult_less_eq)
  then show "2 ^ 31 \<le> d div 2 ^ k" using s(2) by (rule order_trans [rotated])
qed

lemma udiv64_large:
  assumes d: "2 ^ 32 \<le> unat d" and nd: "\<not> n < d"
  shows "udiv64 n d = Some (n div d)"
proof -
  have d64: "unat d < 2 ^ 64" and n64: "unat n < 2 ^ 64" using unsigned_less [of d] unsigned_less [of n] by simp_all
  define d1 where "d1 = (ucast (drop_bit 32 d) :: 32 word)"
  define s where "s = nlz d1"
  have ud1: "unat d1 = unat d div 2 ^ 32"
    unfolding d1_def using d64 by (simp add: unat_ucast_down unat_drop_bit less_mult_imp_div_less)
  have "unat d1 \<noteq> 0" using ud1 d by (simp add: div_eq_0_iff)
  then have "d1 \<noteq> 0" by (metis unat_0)
  from nlz_ok [OF this] have s: "s \<le> 31" "2 ^ 31 \<le> unat d1 * 2 ^ s" "unat d1 * 2 ^ s < 2 ^ 32" by (auto simp: s_def)
  define k where "k = 32 - s"
  have k: "1 \<le> k" "k \<le> 32" "31 - s = k - 1" using s(1) by (auto simp: k_def)
  note nb = normalize_bounds [OF ud1 s k_def]
  define v where "v = (ucast (drop_bit 32 (push_bit s d)) :: 32 word)"
  have "unat v = unat d * 2 ^ s div 2 ^ 32"
    unfolding v_def using nb(1) by (simp add: unat_ucast_down unat_drop_bit unat_push_bit less_mult_imp_div_less)
  then have uv: "unat v = unat d div 2 ^ k" and v31: "2 ^ 31 \<le> unat v" using nb(2,3) by simp_all
  define D where "D = unat v * 2 ^ k"
  have Dm: "unat d - D = unat d mod 2 ^ k" unfolding D_def uv by (simp add: minus_div_mult_eq_mod)
  have "unat d mod 2 ^ k < 2 ^ k" by simp
  then have Dd2: "unat d - D \<le> 2 ^ k - 1" unfolding Dm by linarith
  have Dd1: "D \<le> unat d" by (simp add: D_def uv)
  have D31: "2 ^ (31 + k) \<le> D" unfolding D_def using v31 by (simp add: power_add)
  note est = estimate_bounds [OF k(1,2) Dd1 Dd2 D31 n64]
  have vne: "v \<noteq> 0"
  proof
    assume "v = 0"
    then have "unat v = 0" by (simp only: unat_0)
    with v31 show False by simp
  qed
  have "unat (drop_bit 1 n) < 2 ^ 63" using n64 by (simp add: unat_drop_bit less_mult_imp_div_less)
  then have "unat (drop_bit 1 n) < 2 ^ 32 * unat v" using v31 by simp
  then have "unat (drop_bit 1 n) div unat v < 2 ^ 32" by (simp add: less_mult_imp_div_less)
  from divl_ok [OF vne this] obtain q0 where
    q0: "divl (drop_bit 1 n) v = Some q0" "unat q0 = unat (drop_bit 1 n) div unat v" by auto
  define q where "q = (ucast (drop_bit (31 - s) q0) :: 64 word)"
  have "unat q = unat n div 2 div unat v div 2 ^ (k - 1)"
    unfolding q_def using q0(2) k by (simp add: unat_ucast_up unat_drop_bit)
  also have "\<dots> = unat n div (2 * unat v * 2 ^ (k - 1))" by (simp only: div_mult2_eq)
  also have "2 * unat v * 2 ^ (k - 1) = D" unfolding D_def using k(1) by (cases k) auto
  finally have uq: "unat q = unat n div D" .
  have Q1: "1 \<le> unat n div unat d" using nd d by (simp add: word_less_nat_alt not_less Suc_le_eq div_greater_zero_iff)
  have uq1: "unat (q - 1) = unat q - 1" using uq est Q1 by (simp add: unat_minus_one unat_gt_0 [symmetric])
  let ?p = "(q - 1) * d"
  have "(unat q - 1) * unat d \<le> unat n div unat d * unat d" using uq est by (intro mult_le_mono1) simp
  then have pn: "(unat q - 1) * unat d \<le> unat n" by (meson div_times_less_eq_dividend le_trans)
  then have up: "unat ?p = (unat q - 1) * unat d" using n64 uq1 by (simp add: unat_word_ariths)
  have ur: "unat (n - ?p) = unat n - (unat q - 1) * unat d"
    using up pn by (simp add: unat_sub word_le_nat_alt)
  have dec: "unat n = unat n div unat d * unat d + unat n mod unat d" by simp
  have rem: "unat n mod unat d < unat d" using d by (intro mod_less_divisor) simp
  have "unat (if n - ?p < d then q - 1 else q) = unat n div unat d"
  proof (cases "unat q = unat n div unat d")
    case True
    obtain m where m: "unat n div unat d = Suc m" using Q1 by (cases "unat n div unat d") auto
    have "unat (n - ?p) = unat d + unat n mod unat d" using ur dec m True by simp
    then have "\<not> n - ?p < d" by (simp add: word_less_nat_alt)
    then show ?thesis using True by simp
  next
    case False
    then have "unat q = unat n div unat d + 1" using uq est by simp
    moreover from this have "unat (n - ?p) = unat n mod unat d" using ur by (simp add: minus_div_mult_eq_mod)
    ultimately show ?thesis using rem uq1 by (simp add: word_less_nat_alt)
  qed
  then have "(if n - ?p < d then q - 1 else q) = n div d"
    unfolding word_unat_eq_iff [of _ "n div d"] unat_div .
  moreover have "drop_bit 32 d \<noteq> 0"
  proof
    assume "drop_bit 32 d = 0"
    then have "unat d div 2 ^ 32 = 0" by (metis unat_0 unat_drop_bit)
    then show False using d by (simp add: div_eq_0_iff)
  qed
  ultimately show ?thesis using nd q0(1) by (simp add: udiv64_def Let_def d1_def [symmetric] s_def [symmetric] v_def [symmetric] q_def [symmetric]
      split: if_splits)
qed

lemma udiv64_less: "2 ^ 32 \<le> unat d \<Longrightarrow> n < d \<Longrightarrow> udiv64 n d = Some (n div d)"
proof -
  assume d: "2 ^ 32 \<le> unat d" and n: "n < d"
  have "drop_bit 32 d \<noteq> 0"
  proof
    assume "drop_bit 32 d = 0"
    then have "unat d div 2 ^ 32 = 0" by (metis unat_0 unat_drop_bit)
    then show False using d by (simp add: div_eq_0_iff)
  qed
  moreover have "n div d = 0"
    unfolding word_unat_eq_iff unat_div using n by (simp add: word_less_nat_alt)
  ultimately show ?thesis using n by (simp add: udiv64_def)
qed

lemma udiv64_ok: "d \<noteq> 0 \<Longrightarrow> udiv64 n d = Some (n div d)"
  using udiv64_small [of d n] udiv64_large [of d n] udiv64_less [of d n] by (meson not_le)

lemma udiv64_zero: "udiv64 n 0 = None"
  by (simp add: udiv64_def divl_def)

text \<open>Signed division truncates toward zero; the one overflowing case wraps.\<close>

lemma uint_of_int64: "0 \<le> k \<Longrightarrow> k < 2 ^ 64 \<Longrightarrow> uint (word_of_int k :: 64 word) = k"
  by (simp add: unsigned_of_int take_bit_int_eq_self)

lemma uint_abs64:
  fixes n :: "64 word"
  shows "uint (if sint n \<ge> 0 then n else - n) = \<bar>sint n\<bar>"
proof -
  have r: "- (2 ^ 63) \<le> sint n" "sint n < 2 ^ 63" using sint_greater_eq [of n] sint_less [of n] by simp_all
  have "n = word_of_int (sint n)" "- n = word_of_int (- sint n)" by simp_all
  then have "(if sint n \<ge> 0 then n else - n) = word_of_int \<bar>sint n\<bar>"
    by (simp split: if_splits)
  then show ?thesis using r uint_of_int64 [of "\<bar>sint n\<bar>"] by simp
qed

lemma sdiv64_ok:
  assumes "d \<noteq> 0"
  shows "sdiv64 n d = Some (word_of_int (sint n sdiv sint d))"
proof -
  define na where "na = (if sint n \<ge> 0 then n else - n)"
  define da where "da = (if sint d \<ge> 0 then d else - d)"
  have u: "uint na = \<bar>sint n\<bar>" "uint da = \<bar>sint d\<bar>" unfolding na_def da_def by (rule uint_abs64)+
  have "word_of_int (sint d) = d" by simp
  then have "sint d \<noteq> 0" using assms by (metis of_int_0)
  then have "da \<noteq> 0" using u(2) by auto
  then have q: "udiv64 na da = Some (na div da)" by (rule udiv64_ok)
  have "uint (na div da) = \<bar>sint n\<bar> div \<bar>sint d\<bar>" by (simp add: uint_div u)
  then have qq: "na div da = word_of_int (\<bar>sint n\<bar> div \<bar>sint d\<bar>)" by (metis word_of_int_uint)
  have "(if (sint n < 0) = (sint d < 0) then na div da else - (na div da)) = word_of_int (sint n sdiv sint d)"
  proof (cases "sint n = 0")
    case True
    then show ?thesis unfolding qq by simp
  next
    case False
    then show ?thesis unfolding qq signed_divide_int_def using \<open>sint d \<noteq> 0\<close> by (auto simp: sgn_if)
  qed
  then show ?thesis using q by (simp add: sdiv64_def Let_def na_def [symmetric] da_def [symmetric])
qed

text \<open>The remainder is right exactly when it fits the 32-bit return type.\<close>

lemma umoddi3_ok: "d \<noteq> 0 \<Longrightarrow> umoddi3 n d = Some (ucast (ucast (n mod d) :: 32 word))"
proof -
  assume "d \<noteq> 0"
  moreover have "n - d * (n div d) = n mod d" by (simp add: minus_mult_div_eq_mod)
  ultimately show ?thesis by (simp add: umoddi3_def umod64_def udiv64_ok)
qed

lemma umoddi3_exact:
  assumes "d \<noteq> 0"
  shows "umoddi3 n d = Some (n mod d) \<longleftrightarrow> n mod d < 2 ^ 32"
proof -
  have u: "unat (ucast (ucast (n mod d) :: 32 word) :: 64 word) = unat (n mod d) mod 2 ^ 32"
    by (simp add: unat_ucast_up unat_ucast_down)
  have "ucast (ucast (n mod d) :: 32 word) = n mod d \<longleftrightarrow> unat (n mod d) mod 2 ^ 32 = unat (n mod d)"
    unfolding word_unat_eq_iff u ..
  also have "\<dots> \<longleftrightarrow> n mod d < 2 ^ 32" by (simp add: word_less_nat_alt mod_eq_self_iff_div_eq_0 div_eq_0_iff)
  finally show ?thesis using umoddi3_ok [OF assms, of n] by simp
qed

section \<open>Properties\<close>

text \<open>
  C36: unsigned 64-bit division. For every nonzero divisor the routine returns the exact
  quotient and the \<^verbatim>\<open>divl\<close> instruction it uses never traps; division by zero traps.
\<close>

theorem udivdi3_correct: "udivdi3 n d = (if d = 0 then None else Some (n div d))"
  by (simp add: udivdi3_def udiv64_ok udiv64_zero)

text \<open>
  C37: signed 64-bit division truncates toward zero for every nonzero divisor; the one quotient
  that does not fit, the least value divided by -1, wraps to itself.
\<close>

theorem divdi3_correct:
  assumes "d \<noteq> 0"
  shows "divdi3 n d = Some (word_of_int (sint n sdiv sint d))"
  using sdiv64_ok [OF assms] by (simp add: divdi3_def)

lemma divdi3_correct_witness: "divdi3 (- 7) 2 = Some (word_of_int (sint (- 7 :: 64 word) sdiv sint (2 :: 64 word)))"
  by (rule divdi3_correct) simp

text \<open>
  The unsigned 64-bit remainder routine returns through a 32-bit type. Its result is the
  remainder exactly when the remainder is below \<open>2 ^ 32\<close>, and wrong otherwise: it computes
  0 for \<open>2 ^ 32\<close> modulo \<open>2 ^ 33\<close>.
\<close>

theorem umoddi3_truncates:
  "(\<forall>n d. d \<noteq> 0 \<longrightarrow> (umoddi3 n d = Some (n mod d) \<longleftrightarrow> n mod d < 2 ^ 32)) \<and>
   umoddi3 (2 ^ 32) (2 ^ 33) = Some 0 \<and> (2 ^ 32 :: 64 word) mod 2 ^ 33 = 2 ^ 32"
proof -
  have "umoddi3 (2 ^ 32) (2 ^ 33) = Some (ucast (ucast ((2 ^ 32 :: 64 word) mod 2 ^ 33) :: 32 word))"
    by (rule umoddi3_ok) simp
  moreover have m: "(2 ^ 32 :: 64 word) mod 2 ^ 33 = 2 ^ 32"
    by (simp add: word_unat_eq_iff unat_mod)
  moreover have "(ucast (2 ^ 32 :: 64 word) :: 32 word) = 0" by (simp add: word_unat_eq_iff unat_ucast_down)
  ultimately have "umoddi3 (2 ^ 32) (2 ^ 33) = Some 0" by (simp only:) simp
  with m umoddi3_exact show ?thesis by blast
qed

lemma umoddi3_truncates_witness: "umoddi3 100 7 = Some (100 mod 7)"
  using umoddi3_truncates [THEN conjunct1, rule_format, of 7 100] by simp

end
