(* ===== verification/Fixed_Point.thy ===== *)
theory Fixed_Point
  imports Prelude
begin

text \<open>
  The 17.14 fixed-point arithmetic of \<^verbatim>\<open>threads/real-arithmetic.c\<close>, used by the
  multi-level feedback queue scheduler. Numbers are 32-bit ints; products and quotients
  are formed in 64 bits and truncated by C division (\<open>sdiv\<close>) before they are narrowed.
  The lemmas bound the error of each operation when its result fits.
\<close>

abbreviation (input) fpf :: int where "fpf \<equiv> 16384"

definition int_to_fp :: "int \<Rightarrow> int" where
  "int_to_fp n = s32 (n * fpf)"

definition fp_to_int :: "int \<Rightarrow> bool \<Rightarrow> int" where
  "fp_to_int x round_to_nearest =
     (if round_to_nearest then
        if x \<ge> 0 then s32 (x + fpf div 2) sdiv fpf else s32 (x - fpf div 2) sdiv fpf
      else x sdiv fpf)"

definition fp_mul :: "int \<Rightarrow> int \<Rightarrow> int" where
  "fp_mul x y = s32 (s64 (x * y) sdiv fpf)"

text \<open>Division by zero traps.\<close>

definition fp_div :: "int \<Rightarrow> int \<Rightarrow> int option" where
  "fp_div x y = (if y = 0 then None else Some (s32 (s64 (x * fpf) sdiv y)))"

definition is_int32 :: "int \<Rightarrow> bool" where
  "is_int32 x \<longleftrightarrow> - (2 ^ 31) \<le> x \<and> x < 2 ^ 31"

lemma sdiv_trunc:
  fixes x y :: int
  assumes "0 < y"
  shows "x sdiv y = (if 0 \<le> x then x div y else - ((- x) div y))"
  using assms by (auto simp: signed_divide_int_def sgn_if)

lemma sdiv_error:
  fixes x y :: int
  assumes "0 < y"
  shows "\<bar>x - (x sdiv y) * y\<bar> < y"
proof (cases "0 \<le> x")
  case True
  then show ?thesis using assms by (simp add: sdiv_trunc minus_div_mult_eq_mod)
next
  case False
  have "- x - (- x) div y * y = (- x) mod y" by (simp add: minus_div_mult_eq_mod)
  moreover have "0 \<le> (- x) mod y" "(- x) mod y < y" using assms by simp_all
  moreover have "x sdiv y = - ((- x) div y)" using False assms by (simp add: sdiv_trunc)
  ultimately have "x - x sdiv y * y = - ((- x) mod y)" by simp
  then show ?thesis using \<open>0 \<le> (- x) mod y\<close> \<open>(- x) mod y < y\<close> by simp
qed

lemma sdiv_mult_self: "0 < y \<Longrightarrow> (n * y) sdiv y = (n::int)"
  by (auto simp: sdiv_trunc zero_le_mult_iff mult_le_0_iff simp flip: mult_minus_left)

text \<open>Converting an integer to fixed point and back is exact on the 17-bit integer range.\<close>

lemma fp_int_roundtrip:
  assumes "\<bar>n\<bar> < 2 ^ 17 - 1"
  shows "fp_to_int (int_to_fp n) b = n"
proof -
  have r: "s32 (n * fpf) = n * fpf" using assms by (intro s32_id) auto
  have s: "s32 (n * fpf + 8192) = n * fpf + 8192" "s32 (n * fpf - 8192) = n * fpf - 8192"
    using assms by (auto intro!: s32_id)
  show ?thesis
  proof (cases "0 \<le> n")
    case True
    then show ?thesis by (simp add: int_to_fp_def fp_to_int_def r s sdiv_trunc)
  next
    case False
    have "(8192 - n * fpf) div fpf = - n" using False by simp
    moreover have "(- (n * fpf)) div fpf = - n" by simp
    ultimately show ?thesis using False
      by (simp add: int_to_fp_def fp_to_int_def r s sdiv_trunc)
  qed
qed

text \<open>Rounding to nearest is off by at most half a unit, truncation by less than one.\<close>

lemma fp_round_error:
  assumes "is_int32 x" "\<bar>x\<bar> < 2 ^ 31 - 8192"
  shows "\<bar>2 * (fp_to_int x True * fpf - x)\<bar> \<le> fpf"
  using assms by (auto simp: fp_to_int_def sdiv_trunc is_int32_def)

lemma fp_trunc_error: "\<bar>fp_to_int x False * fpf - x\<bar> < fpf"
  using sdiv_error [of fpf x] by (simp add: fp_to_int_def abs_minus_commute)

text \<open>A product or quotient that fits an int is within one unit of the exact value.\<close>

lemma abs_mult_int32: "is_int32 x \<Longrightarrow> is_int32 y \<Longrightarrow> \<bar>x * y\<bar> \<le> 2 ^ 62"
proof -
  assume "is_int32 x" "is_int32 y"
  then have "\<bar>x\<bar> \<le> 2 ^ 31" "\<bar>y\<bar> \<le> 2 ^ 31" by (auto simp: is_int32_def)
  then have "\<bar>x\<bar> * \<bar>y\<bar> \<le> 2 ^ 31 * 2 ^ 31" by (intro mult_mono) auto
  then show ?thesis by (simp add: abs_mult)
qed

lemma fp_mul_error:
  assumes "is_int32 x" "is_int32 y" "is_int32 ((x * y) sdiv fpf)"
  shows "\<bar>fp_mul x y * fpf - x * y\<bar> < fpf"
proof -
  have "s64 (x * y) = x * y" using abs_mult_int32 [OF assms(1,2)] by (intro s64_id) auto
  then have "fp_mul x y = (x * y) sdiv fpf"
    using assms(3) by (simp add: fp_mul_def is_int32_def)
  then show ?thesis using sdiv_error [of fpf "x * y"] by (simp add: abs_minus_commute)
qed

lemma fp_div_error:
  assumes "is_int32 x" "is_int32 y" "0 < y" "is_int32 ((x * fpf) sdiv y)"
  shows "\<exists>r. fp_div x y = Some r \<and> \<bar>r * y - x * fpf\<bar> < y"
proof -
  have "s64 (x * fpf) = x * fpf" using assms(1) by (intro s64_id) (auto simp: is_int32_def)
  then have "fp_div x y = Some ((x * fpf) sdiv y)"
    using assms(3,4) by (simp add: fp_div_def is_int32_def)
  then show ?thesis using sdiv_error [OF assms(3), of "x * fpf"] by (simp add: abs_minus_commute)
qed

text \<open>Multiplying by a converted integer is exact.\<close>

lemma fp_mul_int:
  assumes "\<bar>n\<bar> < 2 ^ 17" "is_int32 y" "is_int32 (n * y)"
  shows "fp_mul (int_to_fp n) y = n * y"
proof -
  have r: "s32 (n * fpf) = n * fpf" using assms(1) by (intro s32_id) auto
  have "is_int32 (n * fpf)" using assms(1) by (auto simp: is_int32_def)
  from abs_mult_int32 [OF this assms(2)] have "s64 (n * fpf * y) = n * fpf * y" by (intro s64_id) auto
  moreover have "(n * fpf * y) sdiv fpf = n * y" using sdiv_mult_self [of fpf "n * y"] by (simp add: mult_ac)
  ultimately show ?thesis using assms(3) by (simp add: fp_mul_def int_to_fp_def r is_int32_def)
qed

section \<open>Properties\<close>

text \<open>
  Fixed-point multiplication and division are accurate. When the result fits an int, the
  64-bit intermediate never overflows and the result is within one unit in the last place
  of the exact product or quotient.
\<close>

theorem fp_arith_accurate:
  assumes "is_int32 x" "is_int32 y" "0 < y" "is_int32 ((x * y) sdiv fpf)" "is_int32 ((x * fpf) sdiv y)"
  shows "\<bar>fp_mul x y * fpf - x * y\<bar> < fpf \<and> (\<exists>r. fp_div x y = Some r \<and> \<bar>r * y - x * fpf\<bar> < y)"
  using fp_mul_error [OF assms(1,2,4)] fp_div_error [OF assms(1-3,5)] by blast

lemma fp_arith_accurate_witness:
  "\<bar>fp_mul (- 50000) 30000 * fpf - (- 50000) * 30000\<bar> < fpf \<and>
   (\<exists>r. fp_div (- 50000) 30000 = Some r \<and> \<bar>r * 30000 - (- 50000) * fpf\<bar> < 30000)"
  by (rule fp_arith_accurate) (simp_all add: is_int32_def sdiv_trunc)

text \<open>
  Converting to fixed point and back, with or without rounding, is exact on the integers
  of magnitude below \<open>2 ^ 17 - 1\<close>, and rounding to nearest is off by at most half a unit.
\<close>

theorem fp_conversion:
  assumes "\<bar>n\<bar> < 2 ^ 17 - 1" "is_int32 x" "\<bar>x\<bar> < 2 ^ 31 - 8192"
  shows "fp_to_int (int_to_fp n) b = n \<and> \<bar>2 * (fp_to_int x True * fpf - x)\<bar> \<le> fpf"
  using fp_int_roundtrip [OF assms(1)] fp_round_error [OF assms(2,3)] by blast

lemma fp_conversion_witness:
  "fp_to_int (int_to_fp (- 3)) True = - 3 \<and> \<bar>2 * (fp_to_int (- 24576) True * fpf - (- 24576))\<bar> \<le> fpf"
  by (rule fp_conversion) (simp_all add: is_int32_def)

end
