(* ===== verification/Rc4.thy ===== *)
theory Rc4
  imports Prelude
begin

text \<open>
  The RC4-based generator of \<^verbatim>\<open>lib/random.c\<close>. The state is the 256-byte table with its two
  indices and the flag that says whether it has been seeded. Once seeded, the table is a
  permutation of all byte values after every operation.
\<close>

record rc4 =
  sbox :: "8 word list"
  s_i :: "8 word"
  s_j :: "8 word"
  inited :: bool

definition swap_byte :: "8 word list \<Rightarrow> nat \<Rightarrow> nat \<Rightarrow> 8 word list" where
  "swap_byte s a b = s[a := s ! b, b := s ! a]"

definition seed_byte :: "32 word \<Rightarrow> nat \<Rightarrow> 8 word" where
  "seed_byte seed k = ucast (drop_bit (8 * k) seed)"

definition init_step :: "32 word \<Rightarrow> 8 word list \<times> 8 word \<Rightarrow> nat \<Rightarrow> 8 word list \<times> 8 word" where
  "init_step seed = (\<lambda>(s, j) i.
     let j = j + (s ! i + seed_byte seed (i mod 4)) in (swap_byte s i (unat j), j))"

definition random_init :: "32 word \<Rightarrow> rc4 \<Rightarrow> rc4" where
  "random_init seed r =
     (let s = map of_nat [0..<256];
          (s, j) = foldl (init_step seed) (s, 0) [0..<256]
      in \<lparr>sbox = s, s_i = 0, s_j = 0, inited = True\<rparr>)"

definition next_byte :: "rc4 \<Rightarrow> rc4 \<times> 8 word" where
  "next_byte r =
     (let i = s_i r + 1;
          j = s_j r + sbox r ! unat i;
          s = swap_byte (sbox r) (unat i) (unat j);
          k = s ! unat i + s ! unat j
      in (r\<lparr>sbox := s, s_i := i, s_j := j\<rparr>, s ! unat k))"

primrec bytes_loop :: "nat \<Rightarrow> rc4 \<Rightarrow> rc4 \<times> 8 word list" where
  "bytes_loop 0 r = (r, [])"
| "bytes_loop (Suc n) r =
     (let (r, b) = next_byte r; (r, bs) = bytes_loop n r in (r, b # bs))"

definition random_bytes :: "nat \<Rightarrow> rc4 \<Rightarrow> rc4 \<times> 8 word list" where
  "random_bytes n r = bytes_loop n (if inited r then r else random_init 0 r)"

definition random_ulong :: "rc4 \<Rightarrow> rc4 \<times> 32 word" where
  "random_ulong r =
     (let (r, bs) = random_bytes 4 r
      in (r, foldr (\<lambda>b acc. ucast b + push_bit 8 acc) bs 0))"

definition rc4_wf :: "rc4 \<Rightarrow> bool" where
  "rc4_wf r \<longleftrightarrow> (inited r \<longrightarrow> mset (sbox r) = mset (map of_nat [0..<256]))"

lemma mset_swap_byte: "a < length s \<Longrightarrow> b < length s \<Longrightarrow> mset (swap_byte s a b) = mset s"
  using mset_swap [of a s b] by (simp add: swap_byte_def) (metis list_update_swap)

lemma byte_less_256: "unat (b :: 8 word) < 256"
  using unsigned_less [of b] by simp

lemma perm_length: "mset s = mset (map of_nat [0..<256] :: 8 word list) \<Longrightarrow> length s = 256"
  by (drule mset_eq_length) simp

lemma init_loop_perm:
  "mset s = mset (map of_nat [0..<256]) \<Longrightarrow> \<forall>i\<in>set is. i < 256 \<Longrightarrow>
   mset (fst (foldl (init_step seed) (s, j) is)) = mset (map of_nat [0..<256] :: 8 word list)"
proof (induction "is" arbitrary: s j)
  case (Cons i "is")
  let ?j = "j + (s ! i + seed_byte seed (i mod 4))"
  have l: "length s = 256" using Cons.prems perm_length by blast
  have "mset (swap_byte s i (unat ?j)) = mset s"
    using Cons.prems l byte_less_256 by (intro mset_swap_byte) auto
  then show ?case using Cons.IH [of "swap_byte s i (unat ?j)" ?j] Cons.prems
    by (simp add: init_step_def Let_def)
qed simp

lemma random_init_wf: "rc4_wf (random_init seed r) \<and> inited (random_init seed r)"
  using init_loop_perm [of "map of_nat [0..<256]" "[0..<256]" seed 0]
  by (simp add: rc4_wf_def random_init_def case_prod_beta)

lemma next_byte_wf:
  assumes "rc4_wf r" "inited r"
  shows "rc4_wf (fst (next_byte r)) \<and> inited (fst (next_byte r))"
proof -
  have l: "length (sbox r) = 256" using assms perm_length by (auto simp: rc4_wf_def)
  then show ?thesis using assms byte_less_256
    by (simp add: next_byte_def rc4_wf_def Let_def mset_swap_byte)
qed

lemma bytes_loop_wf:
  "rc4_wf r \<Longrightarrow> inited r \<Longrightarrow>
   rc4_wf (fst (bytes_loop n r)) \<and> inited (fst (bytes_loop n r)) \<and> length (snd (bytes_loop n r)) = n"
proof (induction n arbitrary: r)
  case (Suc n)
  then show ?case using next_byte_wf [of r] Suc.IH [of "fst (next_byte r)"]
    by (simp add: Let_def case_prod_beta)
qed simp

lemma random_bytes_wf:
  "rc4_wf r \<Longrightarrow>
   rc4_wf (fst (random_bytes n r)) \<and> inited (fst (random_bytes n r)) \<and> length (snd (random_bytes n r)) = n"
  using bytes_loop_wf random_init_wf by (simp add: random_bytes_def)

section \<open>Properties\<close>

text \<open>
  The random generator's table is a permutation of all 256 byte values. Seeding makes it
  one, whatever the table held; drawing any number of bytes, from a generator that is not yet seeded or
  whose table is a permutation, returns exactly that many bytes and leaves a seeded generator whose table
  is a permutation.
\<close>

theorem random_bytes_permutation:
  assumes "inited r \<longrightarrow> mset (sbox r) = mset (map of_nat [0..<256])"
  shows "inited (random_init seed r') \<and> mset (sbox (random_init seed r')) = mset (map of_nat [0..<256]) \<and>
    inited (fst (random_bytes n r)) \<and> mset (sbox (fst (random_bytes n r))) = mset (map of_nat [0..<256]) \<and>
    length (snd (random_bytes n r)) = n"
  using random_init_wf [of seed r'] random_bytes_wf [of r n] assms by (simp add: rc4_wf_def)

lemma random_bytes_permutation_witness:
  "let r = \<lparr>sbox = [], s_i = 0, s_j = 0, inited = False\<rparr> in
   inited (random_init 7 r) \<and> mset (sbox (random_init 7 r)) = mset (map of_nat [0..<256]) \<and>
   inited (fst (random_bytes 10 r)) \<and> mset (sbox (fst (random_bytes 10 r))) = mset (map of_nat [0..<256]) \<and>
   length (snd (random_bytes 10 r)) = 10"
  unfolding Let_def by (rule random_bytes_permutation) simp

end
