(* ===== verification/Intq.thy ===== *)
theory Intq
  imports Prelude
begin

text \<open>
  Interrupt queues (\<^verbatim>\<open>devices/intq.c\<close>): a 64-byte ring buffer shared by interrupt handlers
  and kernel threads, always used with interrupts off. Switching to another thread is
  what ends an uninterrupted stretch of a call, and there are three such points, each followed by an operation of
  its own: a thread that waits for the queue lock (\<open>take_lock\<close> once it gets it), a thread that sleeps on a condition
  (\<open>intq_resume\<close> when it runs again, then the call is repeated), and a thread that unblocks a waiter of greater
  priority, because \<^verbatim>\<open>thread_unblock\<close> yields to it (\<open>signal_return\<close> when it runs again).

  The queue is shown to implement a bounded first-in first-out queue of 63 bytes (\<open>queue_event\<close>), for every sequence of
  such stretches, by any threads and handlers.
\<close>

section \<open>Operations\<close>

abbreviation (input) INTQ_BUFSIZE :: nat where "INTQ_BUFSIZE \<equiv> 64"

type_synonym tid = nat

record intq =
  lock_holder :: "tid option"
  not_full :: "tid option"
  not_empty :: "tid option"
  buf :: "8 word list"
  head :: nat
  tail :: nat

text \<open>
  What the processor and the scheduler tell the queue code; \<open>outranked\<close> says that a thread the call unblocks has
  a greater priority than the running one.
\<close>

record cpu =
  intr_off :: bool
  intr_context :: bool
  current :: tid
  outranked :: bool

text \<open>
  A call completes (\<open>Done\<close>) with the thread it unblocked, whether it was preempted while doing so, and its result;
  or it is asleep.
\<close>

datatype 'a outcome = Done intq "tid option" bool 'a | Sleep intq

datatype waiter = Not_full | Not_empty


definition next_pos :: "nat \<Rightarrow> nat" where
  "next_pos pos = (pos + 1) mod INTQ_BUFSIZE"

definition intq_empty :: "cpu \<Rightarrow> intq \<Rightarrow> bool option" where
  "intq_empty c q = do { ASSERT (intr_off c); Some (head q = tail q) }"

definition intq_full :: "cpu \<Rightarrow> intq \<Rightarrow> bool option" where
  "intq_full c q = do { ASSERT (intr_off c); Some (next_pos (head q) = tail q) }"

definition wait_on :: "cpu \<Rightarrow> intq \<Rightarrow> waiter \<Rightarrow> intq option" where
  "wait_on c q w = do {
     ASSERT (\<not> intr_context c); ASSERT (intr_off c);
     e \<leftarrow> intq_empty c q; f \<leftarrow> intq_full c q;
     ASSERT (w = Not_empty \<and> e \<or> w = Not_full \<and> f);
     Some (case w of Not_empty \<Rightarrow> q\<lparr>not_empty := Some (current c)\<rparr>
                   | Not_full \<Rightarrow> q\<lparr>not_full := Some (current c)\<rparr>) }"

definition clear_waiter :: "waiter \<Rightarrow> intq \<Rightarrow> intq" where
  "clear_waiter w q = (case w of Not_empty \<Rightarrow> q\<lparr>not_empty := None\<rparr> | Not_full \<Rightarrow> q\<lparr>not_full := None\<rparr>)"

definition waiter_of :: "waiter \<Rightarrow> intq \<Rightarrow> tid option" where
  "waiter_of w q = (case w of Not_empty \<Rightarrow> not_empty q | Not_full \<Rightarrow> not_full q)"

text \<open>
  \<^verbatim>\<open>thread_unblock\<close> yields at once if the thread it unblocks outranks the running thread, except in an interrupt
  handler; the waiter is reset only after the call returns. The flag says that this is still to be done, by
  \<open>signal_return\<close>.
\<close>

definition signal :: "cpu \<Rightarrow> intq \<Rightarrow> waiter \<Rightarrow> (intq \<times> tid option \<times> bool) option" where
  "signal c q w = do {
     ASSERT (intr_off c);
     e \<leftarrow> intq_empty c q; f \<leftarrow> intq_full c q;
     ASSERT (w = Not_empty \<and> \<not> e \<or> w = Not_full \<and> \<not> f);
     if waiter_of w q = None then Some (q, None, False)
     else if outranked c \<and> \<not> intr_context c then Some (q, waiter_of w q, True)
     else Some (clear_waiter w q, waiter_of w q, False) }"

definition signal_return :: "waiter \<Rightarrow> intq \<Rightarrow> intq" where
  "signal_return w q = clear_waiter w q"

text \<open>
  The body of the waiting loops: take the lock, register as the waiter, block. A thread that finds the lock
  held waits for it and goes on with \<open>take_lock\<close> once it gets it.
\<close>

definition take_lock :: "cpu \<Rightarrow> intq \<Rightarrow> waiter \<Rightarrow> intq option" where
  "take_lock c q w = do {
     ASSERT (lock_holder q = None);
     wait_on c (q\<lparr>lock_holder := Some (current c)\<rparr>) w }"

definition sleep_on :: "cpu \<Rightarrow> intq \<Rightarrow> waiter \<Rightarrow> 'a outcome option" where
  "sleep_on c q w = do {
     ASSERT (\<not> intr_context c);
     ASSERT (lock_holder q \<noteq> Some (current c));
     if lock_holder q \<noteq> None then Some (Sleep q)
     else do { q \<leftarrow> take_lock c q w; Some (Sleep q) } }"

definition intq_resume :: "cpu \<Rightarrow> intq \<Rightarrow> intq option" where
  "intq_resume c q = do {
     ASSERT (lock_holder q = Some (current c));
     Some (q\<lparr>lock_holder := None\<rparr>) }"

definition intq_getc :: "cpu \<Rightarrow> intq \<Rightarrow> 8 word outcome option" where
  "intq_getc c q = do {
     ASSERT (intr_off c);
     e \<leftarrow> intq_empty c q;
     if e then sleep_on c q Not_empty
     else do {
       let byte = buf q ! tail q;
       (q, woken, pending) \<leftarrow> signal c (q\<lparr>tail := next_pos (tail q)\<rparr>) Not_full;
       Some (Done q woken pending byte) } }"

definition intq_putc :: "cpu \<Rightarrow> intq \<Rightarrow> 8 word \<Rightarrow> unit outcome option" where
  "intq_putc c q byte = do {
     ASSERT (intr_off c);
     f \<leftarrow> intq_full c q;
     if f then sleep_on c q Not_full
     else do {
       let q = q\<lparr>buf := (buf q)[head q := byte], head := next_pos (head q)\<rparr>;
       (q, woken, pending) \<leftarrow> signal c q Not_empty;
       Some (Done q woken pending ()) } }"

text \<open>The uninterrupted stretches, and what each reports.\<close>

datatype stretch = Putc cpu "8 word" | Getc cpu | Take_lock cpu waiter | Resume cpu | Signal_return cpu waiter

datatype response = Accepted "8 word" "tid option" bool | Delivered "8 word" "tid option" bool | Asleep | Ran

fun intq_event :: "stretch \<Rightarrow> intq \<Rightarrow> (intq \<times> response) option" where
  "intq_event (Putc c b) q = (case intq_putc c q b of None \<Rightarrow> None
     | Some (Done q woken pending _) \<Rightarrow> Some (q, Accepted b woken pending) | Some (Sleep q) \<Rightarrow> Some (q, Asleep))"
| "intq_event (Getc c) q = (case intq_getc c q of None \<Rightarrow> None
     | Some (Done q woken pending b) \<Rightarrow> Some (q, Delivered b woken pending) | Some (Sleep q) \<Rightarrow> Some (q, Asleep))"
| "intq_event (Take_lock c w) q = do { q \<leftarrow> take_lock c q w; Some (q, Asleep) }"
| "intq_event (Resume c) q = do { q \<leftarrow> intq_resume c q; Some (q, Ran) }"
| "intq_event (Signal_return c w) q = Some (signal_return w q, Ran)"

section \<open>Contents\<close>

definition intq_wf :: "intq \<Rightarrow> bool" where
  "intq_wf q \<longleftrightarrow> length (buf q) = INTQ_BUFSIZE \<and> head q < INTQ_BUFSIZE \<and> tail q < INTQ_BUFSIZE"

definition intq_count :: "intq \<Rightarrow> nat" where
  "intq_count q = (head q + INTQ_BUFSIZE - tail q) mod INTQ_BUFSIZE"

definition intq_contents :: "intq \<Rightarrow> 8 word list" where
  "intq_contents q = map (\<lambda>i. buf q ! ((tail q + i) mod INTQ_BUFSIZE)) [0..<intq_count q]"

lemma count_cases: "intq_wf q \<Longrightarrow>
    intq_count q = (if tail q \<le> head q then head q - tail q else head q + 64 - tail q)"
  by (auto simp: intq_wf_def intq_count_def le_mod_geq)

lemma count_less: "intq_count q < 64"
  by (simp add: intq_count_def)

lemma length_contents [simp]: "length (intq_contents q) = intq_count q"
  by (simp add: intq_contents_def)

lemma empty_iff: "intq_wf q \<Longrightarrow> head q = tail q \<longleftrightarrow> intq_contents q = []"
  using count_cases [of q] by (auto simp: intq_wf_def intq_contents_def split: if_splits)

lemma next_pos_cases: "n < 64 \<Longrightarrow> next_pos n = (if n = 63 then 0 else Suc n)"
  by (auto simp: next_pos_def)

lemma full_iff: "intq_wf q \<Longrightarrow> next_pos (head q) = tail q \<longleftrightarrow> length (intq_contents q) = 63"
  using count_cases [of q] by (auto simp: intq_wf_def next_pos_cases)

lemma contents_put:
  assumes wf: "intq_wf q" and nf: "next_pos (head q) \<noteq> tail q"
  shows "intq_contents (q\<lparr>buf := (buf q)[head q := b], head := next_pos (head q)\<rparr>) = intq_contents q @ [b]"
    "intq_wf (q\<lparr>buf := (buf q)[head q := b], head := next_pos (head q)\<rparr>)"
proof -
  let ?q = "q\<lparr>buf := (buf q)[head q := b], head := next_pos (head q)\<rparr>"
  show wf': "intq_wf ?q" using wf by (auto simp: intq_wf_def next_pos_def)
  have c: "intq_count ?q = Suc (intq_count q)"
    using count_cases [OF wf] count_cases [OF wf'] wf nf by (auto simp: intq_wf_def next_pos_cases split: if_splits)
  have pos: "(tail q + i) mod 64 = head q \<longleftrightarrow> i = intq_count q" if "i \<le> intq_count q" for i
    using that count_cases [OF wf] wf count_less [of q]
    by (cases "tail q + i < 64") (auto simp: intq_wf_def le_mod_geq split: if_splits)
  show "intq_contents ?q = intq_contents q @ [b]"
  proof (rule nth_equalityI)
    fix i assume "i < length (intq_contents ?q)"
    then have i: "i \<le> intq_count q" using c by simp
    then have n: "intq_contents ?q ! i = (buf q)[head q := b] ! ((tail q + i) mod 64)"
      using c by (simp add: intq_contents_def del: upt_Suc)
    show "intq_contents ?q ! i = (intq_contents q @ [b]) ! i"
    proof (cases "i = intq_count q")
      case True
      then have "(tail q + i) mod 64 = head q" using pos [OF i] by simp
      then show ?thesis unfolding n using True wf by (simp add: nth_append intq_wf_def)
    next
      case False
      then have "(tail q + i) mod 64 \<noteq> head q" "i < intq_count q" using pos [OF i] i by simp_all
      then show ?thesis unfolding n by (simp add: nth_append) (simp add: intq_contents_def)
    qed
  qed (simp add: c)
qed

lemma contents_get:
  assumes wf: "intq_wf q" and ne: "head q \<noteq> tail q"
  shows "intq_contents q = buf q ! tail q # intq_contents (q\<lparr>tail := next_pos (tail q)\<rparr>)"
    "intq_wf (q\<lparr>tail := next_pos (tail q)\<rparr>)"
proof -
  let ?q = "q\<lparr>tail := next_pos (tail q)\<rparr>"
  show wf': "intq_wf ?q" using wf by (auto simp: intq_wf_def next_pos_def)
  have c: "intq_count q = Suc (intq_count ?q)"
    using count_cases [OF wf] count_cases [OF wf'] wf ne by (auto simp: intq_wf_def next_pos_cases split: if_splits)
  show "intq_contents q = buf q ! tail q # intq_contents ?q"
  proof (rule nth_equalityI)
    fix i assume "i < length (intq_contents q)"
    then have i: "i < Suc (intq_count ?q)" using c by simp
    show "intq_contents q ! i = (buf q ! tail q # intq_contents ?q) ! i"
    proof (cases i)
      case 0
      then show ?thesis using c wf by (simp add: intq_contents_def intq_wf_def del: upt_Suc)
    next
      case (Suc j)
      have "(tail q + Suc j) mod 64 = (next_pos (tail q) + j) mod 64"
        by (simp add: next_pos_def mod_simps)
      then show ?thesis using Suc i c by (simp add: intq_contents_def del: upt_Suc)
    qed
  qed (simp add: c)
qed

section \<open>Bounded queues\<close>

text \<open>
  The contract: a queue of at most 63 bytes with a lock and the two waiters. A call outside interrupts-off code,
  a handler that would have to wait, a thread that takes a lock it holds or releases one it does not hold, and a
  thread that gets the lock when its condition has meanwhile changed are faults.
\<close>

record bqueue =
  bq_lock :: "tid option"
  bq_waiter :: "waiter \<Rightarrow> tid option"
  bq_data :: "8 word list"

fun must_wait :: "waiter \<Rightarrow> 8 word list \<Rightarrow> bool" where
  "must_wait Not_full xs = (63 \<le> length xs)"
| "must_wait Not_empty xs = (xs = [])"

definition queue_take_lock :: "cpu \<Rightarrow> waiter \<Rightarrow> bqueue \<Rightarrow> (bqueue \<times> response) option" where
  "queue_take_lock c w b = (if bq_lock b = None \<and> intr_off c \<and> \<not> intr_context c \<and> must_wait w (bq_data b)
     then Some (b\<lparr>bq_lock := Some (current c), bq_waiter := (bq_waiter b)(w \<mapsto> current c)\<rparr>, Asleep) else None)"

definition queue_sleep :: "cpu \<Rightarrow> waiter \<Rightarrow> bqueue \<Rightarrow> (bqueue \<times> response) option" where
  "queue_sleep c w b = (if intr_context c \<or> bq_lock b = Some (current c) then None
     else if bq_lock b \<noteq> None then Some (b, Asleep) else queue_take_lock c w b)"

definition queue_signal :: "cpu \<Rightarrow> waiter \<Rightarrow> bqueue \<Rightarrow> bqueue \<times> tid option \<times> bool" where
  "queue_signal c w b = (let pending = (bq_waiter b w \<noteq> None \<and> outranked c \<and> \<not> intr_context c)
     in (if pending then b else b\<lparr>bq_waiter := (bq_waiter b)(w := None)\<rparr>, bq_waiter b w, pending))"

fun queue_event :: "stretch \<Rightarrow> bqueue \<Rightarrow> (bqueue \<times> response) option" where
  "queue_event (Putc c x) b = (if \<not> intr_off c then None
     else if must_wait Not_full (bq_data b) then queue_sleep c Not_full b
     else let (b, woken, pending) = queue_signal c Not_empty (b\<lparr>bq_data := bq_data b @ [x]\<rparr>)
       in Some (b, Accepted x woken pending))"
| "queue_event (Getc c) b = (if \<not> intr_off c then None
     else case bq_data b of [] \<Rightarrow> queue_sleep c Not_empty b
     | x # xs \<Rightarrow> let (b, woken, pending) = queue_signal c Not_full (b\<lparr>bq_data := xs\<rparr>)
       in Some (b, Delivered x woken pending))"
| "queue_event (Take_lock c w) b = queue_take_lock c w b"
| "queue_event (Resume c) b = (if bq_lock b = Some (current c) then Some (b\<lparr>bq_lock := None\<rparr>, Ran) else None)"
| "queue_event (Signal_return c w) b = Some (b\<lparr>bq_waiter := (bq_waiter b)(w := None)\<rparr>, Ran)"

text \<open>A sequence of events and what they report; a fault ends it.\<close>

primrec event_run :: "('e \<Rightarrow> 's \<Rightarrow> ('s \<times> 'r) option) \<Rightarrow> 'e list \<Rightarrow> 's \<Rightarrow> ('s \<times> 'r list) option" where
  "event_run step [] s = Some (s, [])"
| "event_run step (e # es) s = do { (s, r) \<leftarrow> step e s; (s, rs) \<leftarrow> event_run step es s; Some (s, r # rs) }"

text \<open>Two event systems in step: the same events are possible in related states, with the same reports.\<close>

locale event_refinement =
  fixes invar :: "'c \<Rightarrow> bool"
    and abstr :: "'c \<Rightarrow> 'a"
    and cstep :: "'e \<Rightarrow> 'c \<Rightarrow> ('c \<times> 'r) option"
    and astep :: "'e \<Rightarrow> 'a \<Rightarrow> ('a \<times> 'r) option"
  assumes step_refines: "invar s \<Longrightarrow> map_option (apfst abstr) (cstep e s) = astep e (abstr s)"
    and step_invar: "invar s \<Longrightarrow> cstep e s = Some (s', r) \<Longrightarrow> invar s'"
begin

lemma run_refines: "invar s \<Longrightarrow> map_option (apfst abstr) (event_run cstep es s) = event_run astep es (abstr s)"
proof (induction es arbitrary: s)
  case (Cons e es)
  show ?case
  proof (cases "cstep e s")
    case None
    then show ?thesis using step_refines [OF Cons.prems, of e] by simp
  next
    case (Some p)
    obtain s' r where p: "p = (s', r)" by fastforce
    have "map_option (apfst abstr) (event_run cstep es s') = event_run astep es (abstr s')"
      using Cons step_invar [of s e s' r] Some p by simp
    moreover have "astep e (abstr s) = Some (abstr s', r)" using step_refines [OF Cons.prems, of e] Some p by simp
    ultimately show ?thesis using Some p by (cases "event_run cstep es s'") (auto dest: sym)
  qed
qed simp

lemma run_invar: "invar s \<Longrightarrow> event_run cstep es s = Some (s', rs) \<Longrightarrow> invar s'"
  by (induction es arbitrary: s rs) (auto simp: Option.bind_eq_Some_conv dest: step_invar)

end

section \<open>The ring buffer implements the queue\<close>

definition abs_queue :: "intq \<Rightarrow> bqueue" where
  "abs_queue q = \<lparr>bq_lock = lock_holder q, bq_waiter = (\<lambda>w. waiter_of w q), bq_data = intq_contents q\<rparr>"

lemma abs_queue_sel [simp]:
  "bq_lock (abs_queue q) = lock_holder q" "bq_waiter (abs_queue q) w = waiter_of w q" "bq_data (abs_queue q) = intq_contents q"
  by (simp_all add: abs_queue_def)

lemma wf_waiters [simp]:
  "intq_wf (q\<lparr>not_empty := w\<rparr>) = intq_wf q" "intq_wf (q\<lparr>not_full := w\<rparr>) = intq_wf q"
  "intq_wf (q\<lparr>lock_holder := w\<rparr>) = intq_wf q" "intq_wf (clear_waiter v q) = intq_wf q"
  by (simp_all add: intq_wf_def clear_waiter_def split: waiter.split)

lemma contents_waiters [simp]:
  "intq_contents (q\<lparr>not_empty := w\<rparr>) = intq_contents q" "intq_contents (q\<lparr>not_full := w\<rparr>) = intq_contents q"
  "intq_contents (q\<lparr>lock_holder := w\<rparr>) = intq_contents q"
  by (simp_all add: intq_contents_def intq_count_def)

lemma abs_clear_waiter: "abs_queue (clear_waiter w q) = (abs_queue q)\<lparr>bq_waiter := (bq_waiter (abs_queue q))(w := None)\<rparr>"
  by (cases w) (auto simp: abs_queue_def clear_waiter_def waiter_of_def fun_eq_iff split: waiter.split)

lemma must_wait_iff:
  "intq_wf q \<Longrightarrow> must_wait Not_full (intq_contents q) \<longleftrightarrow> next_pos (head q) = tail q"
  "intq_wf q \<Longrightarrow> must_wait Not_empty (intq_contents q) \<longleftrightarrow> head q = tail q"
  using full_iff [of q] empty_iff [of q] count_less [of q] by auto

lemma take_lock_refines:
  assumes "intq_wf q"
  shows "map_option (\<lambda>q. (abs_queue q, Asleep)) (take_lock c q w) = queue_take_lock c w (abs_queue q)"
  using must_wait_iff [OF assms]
  by (cases w) (auto simp: take_lock_def wait_on_def intq_empty_def intq_full_def queue_take_lock_def ASSERT_def
      abs_queue_def waiter_of_def fun_eq_iff split: waiter.split)

lemma take_lock_wf: "take_lock c q w = Some q' \<Longrightarrow> intq_wf q' = intq_wf q"
  by (cases w) (auto simp: take_lock_def wait_on_def intq_empty_def intq_full_def ASSERT_def split: if_splits)

lemma sleep_on_refines:
  assumes "intq_wf q"
  shows "(sleep_on c q w :: 'a outcome option) = None \<and> queue_sleep c w (abs_queue q) = None \<or>
    (\<exists>q'. (sleep_on c q w :: 'a outcome option) = Some (Sleep q') \<and>
      queue_sleep c w (abs_queue q) = Some (abs_queue q', Asleep) \<and> intq_wf q')"
  using take_lock_refines [OF assms, of c w] take_lock_wf [of c q w] assms
  by (cases "take_lock c q w") (auto simp: sleep_on_def queue_sleep_def ASSERT_def)

lemma signal_refines:
  assumes "intr_off c" "intq_wf q" "\<not> must_wait w (intq_contents q)"
  shows "\<exists>q'. signal c q w = Some (q', snd (queue_signal c w (abs_queue q))) \<and>
    abs_queue q' = fst (queue_signal c w (abs_queue q)) \<and> intq_wf q'"
proof -
  have e: "\<not> (w = Not_full \<and> next_pos (head q) = tail q)" "\<not> (w = Not_empty \<and> head q = tail q)"
    using must_wait_iff [OF assms(2)] assms(3) by (cases w; simp)+
  have n: "waiter_of w q = None \<Longrightarrow> (abs_queue q)\<lparr>bq_waiter := (bq_waiter (abs_queue q))(w := None)\<rparr> = abs_queue q"
    by (auto simp: abs_queue_def)
  show ?thesis using assms(1,2) e n
    by (cases w) (auto simp: signal_def intq_empty_def intq_full_def queue_signal_def abs_clear_waiter Let_def)
qed

lemma putc_refines:
  assumes wf: "intq_wf q"
  shows "map_option (apfst abs_queue) (intq_event (Putc c b) q) = queue_event (Putc c b) (abs_queue q)"
    "intq_event (Putc c b) q = Some (q', r) \<Longrightarrow> intq_wf q'"
proof -
  let ?q = "q\<lparr>buf := (buf q)[head q := b], head := next_pos (head q)\<rparr>"
  have "map_option (apfst abs_queue) (intq_event (Putc c b) q) = queue_event (Putc c b) (abs_queue q) \<and>
    (intq_event (Putc c b) q = Some (q', r) \<longrightarrow> intq_wf q')"
  proof (cases "intr_off c \<and> \<not> must_wait Not_full (intq_contents q)")
    case True
    then have f: "next_pos (head q) \<noteq> tail q" using must_wait_iff(1) [OF wf] by simp
    note p = contents_put [OF wf f, of b]
    have "\<not> must_wait Not_empty (intq_contents ?q)" using p by simp
    then obtain q1 where "signal c ?q Not_empty = Some (q1, snd (queue_signal c Not_empty (abs_queue ?q)))"
      "abs_queue q1 = fst (queue_signal c Not_empty (abs_queue ?q))" "intq_wf q1"
      using signal_refines [of c ?q Not_empty] True p by blast
    moreover have "abs_queue ?q = (abs_queue q)\<lparr>bq_data := intq_contents q @ [b]\<rparr>"
      using p by (simp add: abs_queue_def waiter_of_def fun_eq_iff split: waiter.split)
    ultimately show ?thesis using True f
      by (auto simp: intq_putc_def intq_full_def split_beta simp del: must_wait.simps)
  next
    case False
    then show ?thesis using sleep_on_refines [OF wf, of c Not_full, where 'a = unit] must_wait_iff(1) [OF wf]
      by (auto simp: intq_putc_def intq_full_def ASSERT_def simp del: must_wait.simps)
  qed
  then show "map_option (apfst abs_queue) (intq_event (Putc c b) q) = queue_event (Putc c b) (abs_queue q)"
    "intq_event (Putc c b) q = Some (q', r) \<Longrightarrow> intq_wf q'" by blast+
qed

lemma getc_refines:
  assumes wf: "intq_wf q"
  shows "map_option (apfst abs_queue) (intq_event (Getc c) q) = queue_event (Getc c) (abs_queue q)"
    "intq_event (Getc c) q = Some (q', r) \<Longrightarrow> intq_wf q'"
proof -
  let ?q = "q\<lparr>tail := next_pos (tail q)\<rparr>"
  have "map_option (apfst abs_queue) (intq_event (Getc c) q) = queue_event (Getc c) (abs_queue q) \<and>
    (intq_event (Getc c) q = Some (q', r) \<longrightarrow> intq_wf q')"
  proof (cases "intr_off c \<and> intq_contents q \<noteq> []")
    case True
    then have e: "head q \<noteq> tail q" using empty_iff [OF wf] by simp
    note g = contents_get [OF wf e]
    have "\<not> must_wait Not_full (intq_contents ?q)" using arg_cong [OF g(1), of length] count_less [of q] by simp
    then obtain q1 where "signal c ?q Not_full = Some (q1, snd (queue_signal c Not_full (abs_queue ?q)))"
      "abs_queue q1 = fst (queue_signal c Not_full (abs_queue ?q))" "intq_wf q1"
      using signal_refines [of c ?q Not_full] True g by blast
    moreover have "abs_queue ?q = (abs_queue q)\<lparr>bq_data := intq_contents ?q\<rparr>"
      by (simp add: abs_queue_def waiter_of_def fun_eq_iff split: waiter.split)
    ultimately show ?thesis using True e g(1)
      by (auto simp: intq_getc_def intq_empty_def split_beta simp del: must_wait.simps)
  next
    case False
    then show ?thesis using sleep_on_refines [OF wf, of c Not_empty, where 'a = "8 word"] empty_iff [OF wf]
      by (auto simp: intq_getc_def intq_empty_def ASSERT_def)
  qed
  then show "map_option (apfst abs_queue) (intq_event (Getc c) q) = queue_event (Getc c) (abs_queue q)"
    "intq_event (Getc c) q = Some (q', r) \<Longrightarrow> intq_wf q'" by blast+
qed

interpretation iq: event_refinement intq_wf abs_queue intq_event queue_event
proof unfold_locales
  fix q e assume wf: "intq_wf q"
  show "map_option (apfst abs_queue) (intq_event e q) = queue_event e (abs_queue q)"
  proof (cases e)
    case (Take_lock c w)
    then show ?thesis using take_lock_refines [OF wf, of c w] by (cases "take_lock c q w") auto
  next
    case (Resume c)
    then show ?thesis by (auto simp: intq_resume_def ASSERT_def abs_queue_def waiter_of_def fun_eq_iff split: waiter.split)
  qed (use putc_refines(1) [OF wf] getc_refines(1) [OF wf] abs_clear_waiter in \<open>simp_all add: signal_return_def\<close>)
next
  fix q e q' r assume "intq_wf q" "intq_event e q = Some (q', r)"
  then show "intq_wf q'"
    by (cases e) (auto simp: Option.bind_eq_Some_conv intq_resume_def ASSERT_def signal_return_def
        dest: putc_refines(2) getc_refines(2) take_lock_wf split: if_splits simp del: intq_event.simps(1,2))
qed



lemma queue_signal_data [simp]: "bq_data (fst (queue_signal c w b)) = bq_data b"
  by (simp add: queue_signal_def Let_def)





abbreviation (input) thread_cpu :: "tid \<Rightarrow> bool \<Rightarrow> cpu" where
  "thread_cpu t o' \<equiv> \<lparr>intr_off = True, intr_context = False, current = t, outranked = o'\<rparr>"

section \<open>A lost wake-up\<close>

fun cpu_of :: "stretch \<Rightarrow> cpu" where
  "cpu_of (Putc c _) = c"
| "cpu_of (Getc c) = c"
| "cpu_of (Take_lock c _) = c"
| "cpu_of (Resume c) = c"
| "cpu_of (Signal_return c _) = c"

fun woken :: "response \<Rightarrow> tid option" where
  "woken (Accepted _ t _) = t"
| "woken (Delivered _ t _) = t"
| "woken _ = None"

text \<open>A thread that sleeps with the lock but is nobody's waiter: nothing the others do wakes it.\<close>

definition forgotten :: "tid \<Rightarrow> bqueue \<Rightarrow> bool" where
  "forgotten t b \<longleftrightarrow> bq_lock b = Some t \<and> (\<forall>w. bq_waiter b w \<noteq> Some t)"

lemma forgotten_step:
  "forgotten t b \<Longrightarrow> current (cpu_of e) \<noteq> t \<Longrightarrow> queue_event e b = Some (b', r) \<Longrightarrow> forgotten t b' \<and> woken r \<noteq> Some t"
  by (cases e) (auto simp: forgotten_def queue_take_lock_def queue_sleep_def queue_signal_def Let_def
      split: if_splits list.splits simp del: must_wait.simps)

lemma forgotten_run:
  "forgotten t b \<Longrightarrow> \<forall>e\<in>set es. current (cpu_of e) \<noteq> t \<Longrightarrow> event_run queue_event es b = Some (b', rs) \<Longrightarrow>
   forgotten t b' \<and> (\<forall>r\<in>set rs. woken r \<noteq> Some t)"
proof (induction es arbitrary: b rs)
  case (Cons e es)
  then obtain b1 r rs' where 1: "queue_event e b = Some (b1, r)" "event_run queue_event es b1 = Some (b', rs')" "rs = r # rs'"
    by (auto simp: Option.bind_eq_Some_conv)
  then show ?case using Cons.IH [OF _ _ 1(2)] forgotten_step [OF Cons.prems(1) _ 1(1)] Cons.prems(2) by simp
qed simp

section \<open>Properties\<close>



text \<open>
  C40: a writer can sleep for ever next to an empty queue. \<^verbatim>\<open>signal\<close> resets the waiter after
  \<^verbatim>\<open>thread_unblock\<close>, which lets a waiter of greater priority run first. On a full queue, let thread \<open>w\<close>
  sleep in \<^verbatim>\<open>intq_putc\<close>; let a thread \<open>g\<close> of smaller priority take a byte and be preempted while it unblocks \<open>w\<close>; let \<open>w\<close> put its
  byte, call \<^verbatim>\<open>intq_putc\<close> again and sleep again. When \<open>g\<close> goes on it erases the new registration: \<open>w\<close> sleeps and holds
  the queue lock, and whatever other threads and handlers then do with the queue, none of them ever wakes \<open>w\<close>.
\<close>

theorem intq_lost_wakeup:
  assumes "intq_wf q" "length (intq_contents q) = 63" "lock_holder q = None" "not_full q = None" "not_empty q = None" "w \<noteq> g"
  shows "\<exists>q'. event_run intq_event [Putc (thread_cpu w False) x, Getc (thread_cpu g True), Resume (thread_cpu w False),
      Putc (thread_cpu w False) x, Putc (thread_cpu w False) y, Signal_return (thread_cpu g True) Not_full] q =
    Some (q', [Asleep, Delivered (hd (intq_contents q)) (Some w) True, Ran, Accepted x None False, Asleep, Ran]) \<and>
    (\<forall>es q'' rs. (\<forall>e\<in>set es. current (cpu_of e) \<noteq> w) \<longrightarrow> event_run intq_event es q' = Some (q'', rs) \<longrightarrow>
      lock_holder q'' = Some w \<and> (\<forall>r\<in>set rs. woken r \<noteq> Some w))"
proof -
  let ?es = "[Putc (thread_cpu w False) x, Getc (thread_cpu g True), Resume (thread_cpu w False),
      Putc (thread_cpu w False) x, Putc (thread_cpu w False) y, Signal_return (thread_cpu g True) Not_full]"
  let ?rs = "[Asleep, Delivered (hd (intq_contents q)) (Some w) True, Ran, Accepted x None False, Asleep, Ran]"
  obtain a as where c: "intq_contents q = a # as" "length as = 62" using assms(2) by (cases "intq_contents q") auto
  have wt: "waiter_of v q = None" for v using assms(4,5) by (cases v) (simp_all add: waiter_of_def)
  have "\<exists>b. event_run queue_event ?es (abs_queue q) = Some (b, ?rs) \<and> forgotten w b"
    using c assms(3) by (simp add: queue_sleep_def queue_take_lock_def queue_signal_def forgotten_def wt)
  then obtain b where b: "event_run queue_event ?es (abs_queue q) = Some (b, ?rs)" "forgotten w b" by blast
  then obtain q' where q': "event_run intq_event ?es q = Some (q', ?rs)" "abs_queue q' = b"
    using iq.run_refines [OF assms(1), of ?es] by (cases "event_run intq_event ?es q") auto
  have "lock_holder q'' = Some w \<and> (\<forall>r\<in>set rs. woken r \<noteq> Some w)"
    if "\<forall>e\<in>set es. current (cpu_of e) \<noteq> w" "event_run intq_event es q' = Some (q'', rs)" for es q'' rs
  proof -
    have "event_run queue_event es b = Some (abs_queue q'', rs)"
      using iq.run_refines [OF iq.run_invar [OF assms(1) q'(1)], of es] that(2) q'(2) by simp
    then show ?thesis using forgotten_run [OF b(2) that(1)] by (auto simp: forgotten_def)
  qed
  with q'(1) show ?thesis by blast
qed

definition demo_full_intq :: intq where
  "demo_full_intq = \<lparr>lock_holder = None, not_full = None, not_empty = None, buf = replicate 64 0, head = 63, tail = 0\<rparr>"

lemma intq_lost_wakeup_witness:
  "\<exists>q'. event_run intq_event [Putc (thread_cpu 3 False) 1, Getc (thread_cpu 4 True), Resume (thread_cpu 3 False),
      Putc (thread_cpu 3 False) 1, Putc (thread_cpu 3 False) 2, Signal_return (thread_cpu 4 True) Not_full] demo_full_intq =
    Some (q', [Asleep, Delivered (hd (intq_contents demo_full_intq)) (Some 3) True, Ran, Accepted 1 None False, Asleep, Ran]) \<and>
    (\<forall>es q'' rs. (\<forall>e\<in>set es. current (cpu_of e) \<noteq> 3) \<longrightarrow> event_run intq_event es q' = Some (q'', rs) \<longrightarrow>
      lock_holder q'' = Some 3 \<and> (\<forall>r\<in>set rs. woken r \<noteq> Some 3))"
  by (rule intq_lost_wakeup) (simp_all add: demo_full_intq_def intq_wf_def intq_count_def)

end
