(* ===== verification/Threads.thy ===== *)
theory Threads
  imports Kernel_List_Sort Fixed_Point
begin

text \<open>
  Kernel threads (\<^verbatim>\<open>threads/thread.c\<close>): the thread structure, effective priorities with
  donation, the ready list, blocking, unblocking, yielding and the context switch.

  The kernel state \<open>kernel\<close> holds the global variables of \<^verbatim>\<open>thread.c\<close>, \<^verbatim>\<open>timer.c\<close> and
  \<^verbatim>\<open>interrupt.c\<close> and the memory that holds threads, semaphores, locks and condition
  variables, by address. Lists are the sequences of their elements: the pointer-level lists
  of \<^verbatim>\<open>lib/kernel/list.c\<close> implement them (theory \<^verbatim>\<open>Kernel_List\<close>). A lock at address \<open>l\<close> has its
  holder at \<open>l\<close> and its semaphore at \<open>l + 4\<close>.

  A thread that loses the processor inside a kernel function resumes there later. What it
  still has to do is the stack \<open>calls\<close> of its \<open>thread\<close> record: every operation that may
  switch threads first pushes the rest of its own body. A call that is pushed but not
  started is a point where an interrupt can occur if interrupts are on.
\<close>

section \<open>State\<close>

datatype thread_status = THREAD_RUNNING | THREAD_READY | THREAD_BLOCKED | THREAD_DYING

datatype intr_level = INTR_OFF | INTR_ON

text \<open>
  Pending calls. \<open>Function\<close> is the body of a thread, which may call any kernel function.
  \<open>Sema_down_loop\<close>, \<open>Timer_sleep_block\<close>, \<open>Timer_sleep_end\<close>, \<open>Lock_acquired\<close>,
  \<open>Thread_exit_tail\<close>, \<open>Thread_create_tail\<close>, \<open>Idle_loop\<close>, \<open>Idle_wait\<close> and \<open>Intr_return\<close> are the
  rest of a function after the point where the processor may be lost.
\<close>

datatype call =
    Function nat
  | Kernel_thread call
  | Intr_set_level intr_level
  | Intr_return
  | Thread_yield
  | Thread_exit
  | Thread_exit_tail
  | Thread_create string int call ptr
  | Allocate_tid ptr
  | Thread_create_tail ptr call
  | Thread_set_priority int
  | Thread_set_nice int
  | Idle ptr
  | Idle_loop
  | Idle_wait
  | Sema_down ptr
  | Sema_down_loop ptr intr_level
  | Sema_try_down ptr
  | Sema_up ptr
  | Lock_acquire ptr
  | Lock_acquired ptr
  | Lock_try_acquire ptr
  | Lock_release ptr
  | Cond_wait ptr ptr ptr
  | Cond_signal ptr ptr
  | Cond_broadcast ptr ptr
  | Timer_sleep int
  | Timer_sleep_block
  | Timer_sleep_end intr_level

record thread =
  tid :: int
  status :: thread_status
  name :: string
  stack :: nat
  nice :: int
  recent_cpu :: int
  priority :: int
  locks :: "ptr list"
  pagedir :: ptr
  process :: ptr
  next_wakeup :: int
  loaded_sema :: ptr
  alive_sema :: ptr
  stack_pages :: nat
  magic :: nat
  calls :: "call list"

record semaphore =
  sema_value :: nat
  waiters :: "ptr list"

record kernel =
  threads :: "ptr \<Rightarrow> thread"
  semas :: "ptr \<Rightarrow> semaphore"
  lock_holder :: "ptr \<Rightarrow> ptr"
  conds :: "ptr \<Rightarrow> ptr list"
  running_thread :: ptr
  ready_list :: "ptr list"
  all_list :: "ptr list"
  sleeping_list :: "ptr list"
  idle_thread :: ptr
  initial_thread :: ptr
  next_tid :: int
  idle_ticks :: int
  kernel_ticks :: int
  user_ticks :: int
  thread_ticks :: nat
  thread_mlfqs :: bool
  load_avg :: int
  timer_count :: int
  intr_level :: intr_level
  in_external_intr :: bool
  yield_on_return :: bool

abbreviation (input) THREAD_MAGIC :: nat where "THREAD_MAGIC \<equiv> 0xcd6abf4b"
abbreviation (input) PRI_MIN :: int where "PRI_MIN \<equiv> 0"
abbreviation (input) PRI_DEFAULT :: int where "PRI_DEFAULT \<equiv> 31"
abbreviation (input) PRI_MAX :: int where "PRI_MAX \<equiv> 63"
abbreviation (input) TIME_SLICE :: nat where "TIME_SLICE \<equiv> 4"
abbreviation (input) TIMER_FREQ :: int where "TIMER_FREQ \<equiv> 100"
abbreviation (input) PGSIZE :: nat where "PGSIZE \<equiv> 4096"

text \<open>\<^verbatim>\<open>&lock->semaphore\<close>, and \<^verbatim>\<open>&elem->semaphore\<close> of a \<^verbatim>\<open>struct semaphore_elem\<close>.\<close>

definition lock_semaphore :: "ptr \<Rightarrow> ptr" where
  "lock_semaphore l = l + 4"

definition elem_semaphore :: "ptr \<Rightarrow> ptr" where
  "elem_semaphore e = e + 8"

definition upd_thread :: "ptr \<Rightarrow> (thread \<Rightarrow> thread) \<Rightarrow> kernel \<Rightarrow> kernel" where
  "upd_thread t f k = k\<lparr>threads := (threads k)(t := f (threads k t))\<rparr>"

definition upd_sema :: "ptr \<Rightarrow> (semaphore \<Rightarrow> semaphore) \<Rightarrow> kernel \<Rightarrow> kernel" where
  "upd_sema s f k = k\<lparr>semas := (semas k)(s := f (semas k s))\<rparr>"

text \<open>Push calls onto the stack of the running thread.\<close>

definition push_calls :: "call list \<Rightarrow> kernel \<Rightarrow> kernel" where
  "push_calls cs k = upd_thread (running_thread k) (\<lambda>t. t\<lparr>calls := cs @ calls t\<rparr>) k"

section \<open>Interrupt level\<close>

definition intr_enable :: "kernel \<Rightarrow> kernel option" where
  "intr_enable k = do { ASSERT (\<not> in_external_intr k); Some (k\<lparr>intr_level := INTR_ON\<rparr>) }"

definition intr_disable :: "kernel \<Rightarrow> kernel" where
  "intr_disable k = k\<lparr>intr_level := INTR_OFF\<rparr>"

definition intr_set_level :: "intr_level \<Rightarrow> kernel \<Rightarrow> kernel option" where
  "intr_set_level l k = (if l = INTR_ON then intr_enable k else Some (intr_disable k))"

definition intr_yield_on_return :: "kernel \<Rightarrow> kernel option" where
  "intr_yield_on_return k = do { ASSERT (in_external_intr k); Some (k\<lparr>yield_on_return := True\<rparr>) }"

section \<open>Threads and priorities\<close>

definition is_thread :: "kernel \<Rightarrow> ptr \<Rightarrow> bool" where
  "is_thread k t \<longleftrightarrow> t \<noteq> 0 \<and> magic (threads k t) = THREAD_MAGIC"

definition thread_current :: "kernel \<Rightarrow> ptr option" where
  "thread_current k = do {
     ASSERT (is_thread k (running_thread k));
     ASSERT (status (threads k (running_thread k)) = THREAD_RUNNING);
     Some (running_thread k) }"

text \<open>
  The first argument counts the levels left, \<^verbatim>\<open>MAX_DEPTH - depth\<close>.
\<close>

abbreviation (input) MAX_DEPTH :: nat where "MAX_DEPTH \<equiv> 8"

primrec thread_get_donated_priority :: "kernel \<Rightarrow> nat \<Rightarrow> ptr \<Rightarrow> int" where
  "thread_get_donated_priority k 0 t = priority (threads k t)"
| "thread_get_donated_priority k (Suc n) t =
     fold (\<lambda>lock p. fold (\<lambda>waiter p.
              let new_priority = thread_get_donated_priority k n waiter in
              if new_priority > p then new_priority else p)
            (waiters (semas k (lock_semaphore lock))) p)
          (locks (threads k t)) (priority (threads k t))"

definition given_thread_get_priority :: "kernel \<Rightarrow> ptr \<Rightarrow> int" where
  "given_thread_get_priority k t =
     (if thread_mlfqs k then priority (threads k t) else thread_get_donated_priority k MAX_DEPTH t)"

definition thread_get_priority :: "kernel \<Rightarrow> int option" where
  "thread_get_priority k = do { t \<leftarrow> thread_current k; Some (given_thread_get_priority k t) }"

text \<open>On an empty list the code would read the tail sentinel as a thread.\<close>

fun list_highest_priority_thread :: "kernel \<Rightarrow> ptr list \<Rightarrow> ptr option" where
  "list_highest_priority_thread k [] = None"
| "list_highest_priority_thread k (x # xs) =
     Some (fold (\<lambda>t h. if given_thread_get_priority k t > given_thread_get_priority k h then t else h) xs x)"

definition get_thread :: "kernel \<Rightarrow> int \<Rightarrow> ptr" where
  "get_thread k i = (case find (\<lambda>t. tid (threads k t) = i) (all_list k) of Some t \<Rightarrow> t | None \<Rightarrow> 0)"

definition thread_get_nice :: "kernel \<Rightarrow> int" where
  "thread_get_nice k = nice (threads k (running_thread k))"

definition thread_get_load_avg :: "kernel \<Rightarrow> int" where
  "thread_get_load_avg k = fp_to_int (s32 (100 * load_avg k)) True"

definition thread_get_recent_cpu :: "kernel \<Rightarrow> int option" where
  "thread_get_recent_cpu k = do {
     t \<leftarrow> thread_current k; Some (fp_to_int (s32 (100 * recent_cpu (threads k t))) True) }"

definition thread_update_mlfqs_priority :: "ptr \<Rightarrow> kernel \<Rightarrow> kernel" where
  "thread_update_mlfqs_priority t = upd_thread t (\<lambda>r. r\<lparr>priority :=
     fp_to_int (s32 (s32 (int_to_fp PRI_MAX - recent_cpu r sdiv 4) - s32 (int_to_fp (nice r) * 2))) True\<rparr>)"

section \<open>The scheduler\<close>

definition next_thread_to_run :: "kernel \<Rightarrow> (ptr \<times> kernel) option" where
  "next_thread_to_run k =
     (if ready_list k = [] then Some (idle_thread k, k)
      else do {
        t \<leftarrow> list_highest_priority_thread k (ready_list k);
        Some (t, k\<lparr>ready_list := remove1 t (ready_list k)\<rparr>) })"

text \<open>
  Freeing the page of a dead thread overwrites its magic number. Loading the page directory
  and the task state (\<^verbatim>\<open>process_activate\<close>) has no effect on this state.
\<close>

definition palloc_free_page :: "ptr \<Rightarrow> kernel \<Rightarrow> kernel" where
  "palloc_free_page t = upd_thread t (\<lambda>r. r\<lparr>magic := 0xcccccccc\<rparr>)"

definition thread_schedule_tail :: "ptr \<Rightarrow> kernel \<Rightarrow> kernel option" where
  "thread_schedule_tail prev k = do {
     let cur = running_thread k;
     ASSERT (intr_level k = INTR_OFF);
     let k = upd_thread cur (\<lambda>r. r\<lparr>status := THREAD_RUNNING\<rparr>) k;
     let k = k\<lparr>thread_ticks := 0\<rparr>;
     if prev \<noteq> 0 \<and> status (threads k prev) = THREAD_DYING \<and> prev \<noteq> initial_thread k
     then do { ASSERT (prev \<noteq> cur); Some (palloc_free_page prev k) }
     else Some k }"

definition schedule :: "kernel \<Rightarrow> kernel option" where
  "schedule k = do {
     let cur = running_thread k;
     (nxt, k) \<leftarrow> next_thread_to_run k;
     ASSERT (intr_level k = INTR_OFF);
     ASSERT (status (threads k cur) \<noteq> THREAD_RUNNING);
     ASSERT (is_thread k nxt);
     if cur \<noteq> nxt then thread_schedule_tail cur (k\<lparr>running_thread := nxt\<rparr>)
     else thread_schedule_tail 0 k }"

definition thread_block :: "kernel \<Rightarrow> kernel option" where
  "thread_block k = do {
     ASSERT (\<not> in_external_intr k);
     ASSERT (intr_level k = INTR_OFF);
     t \<leftarrow> thread_current k;
     schedule (upd_thread t (\<lambda>r. r\<lparr>status := THREAD_BLOCKED\<rparr>) k) }"

definition thread_yield :: "kernel \<Rightarrow> kernel option" where
  "thread_yield k = do {
     cur \<leftarrow> thread_current k;
     ASSERT (\<not> in_external_intr k);
     let old_level = intr_level k;
     let k = intr_disable k;
     let k = (if cur \<noteq> idle_thread k then k\<lparr>ready_list := ready_list k @ [cur]\<rparr> else k);
     let k = upd_thread cur (\<lambda>r. r\<lparr>status := THREAD_READY\<rparr>) k;
     schedule (push_calls [Intr_set_level old_level] k) }"

text \<open>Yield now, or at the end of the interrupt handler.\<close>

definition yield_or_mark :: "kernel \<Rightarrow> kernel option" where
  "yield_or_mark k = (if in_external_intr k then intr_yield_on_return k else thread_yield k)"

definition thread_unblock :: "ptr \<Rightarrow> kernel \<Rightarrow> kernel option" where
  "thread_unblock t k = do {
     ASSERT (is_thread k t);
     let old_level = intr_level k;
     let k = intr_disable k;
     ASSERT (status (threads k t) = THREAD_BLOCKED);
     let k = k\<lparr>ready_list := ready_list k @ [t]\<rparr>;
     let k = upd_thread t (\<lambda>r. r\<lparr>status := THREAD_READY\<rparr>) k;
     p \<leftarrow> thread_get_priority k;
     if given_thread_get_priority k t > p then
       if in_external_intr k then do { k \<leftarrow> intr_yield_on_return k; intr_set_level old_level k }
       else thread_yield (push_calls [Intr_set_level old_level] k)
     else intr_set_level old_level k }"

definition thread_set_priority :: "int \<Rightarrow> kernel \<Rightarrow> kernel option" where
  "thread_set_priority new_priority k = do {
     t \<leftarrow> thread_current k;
     let k = upd_thread t (\<lambda>r. r\<lparr>priority := new_priority\<rparr>) k;
     if ready_list k \<noteq> [] then do {
       h \<leftarrow> list_highest_priority_thread k (ready_list k);
       if new_priority < given_thread_get_priority k h then yield_or_mark k else Some k }
     else Some k }"

definition thread_set_nice :: "int \<Rightarrow> kernel \<Rightarrow> kernel option" where
  "thread_set_nice n k = do {
     t \<leftarrow> thread_current k;
     let k = upd_thread t (\<lambda>r. r\<lparr>nice := n\<rparr>) k;
     let k = thread_update_mlfqs_priority t k;
     if ready_list k \<noteq> [] then do {
       h \<leftarrow> list_highest_priority_thread k (ready_list k);
       if given_thread_get_priority k t < given_thread_get_priority k h then yield_or_mark k else Some k }
     else Some k }"

section \<open>Ticks\<close>

definition update_recent_cpu :: "kernel \<Rightarrow> ptr \<Rightarrow> kernel option" where
  "update_recent_cpu k t = do {
     d \<leftarrow> fp_div (s32 (2 * load_avg k)) (s32 (s32 (2 * load_avg k) + int_to_fp 1));
     Some (upd_thread t (\<lambda>r. r\<lparr>recent_cpu := s32 (fp_mul d (recent_cpu r) + int_to_fp (nice r))\<rparr>) k) }"

definition thread_tick :: "kernel \<Rightarrow> kernel option" where
  "thread_tick k = do {
     t \<leftarrow> thread_current k;
     let k = (if t = idle_thread k then k\<lparr>idle_ticks := s64 (idle_ticks k + 1)\<rparr>
              else if pagedir (threads k t) \<noteq> 0 then k\<lparr>user_ticks := s64 (user_ticks k + 1)\<rparr>
              else k\<lparr>kernel_ticks := s64 (kernel_ticks k + 1)\<rparr>);
     let k = k\<lparr>thread_ticks := u32 (thread_ticks k + 1)\<rparr>;
     k \<leftarrow> (if thread_ticks k \<ge> TIME_SLICE then intr_yield_on_return k else Some k);
     if thread_mlfqs k then do {
       let k = (if t \<noteq> idle_thread k
                then upd_thread t (\<lambda>r. r\<lparr>recent_cpu := s32 (recent_cpu r + int_to_fp 1)\<rparr>) k else k);
       k \<leftarrow> (if timer_count k smod TIMER_FREQ = 0 then
               let ready_threads = int (length (ready_list k)) + (if idle_thread k \<noteq> t then 1 else 0);
                   k = k\<lparr>load_avg := s32 (s32 (59 * load_avg k) sdiv 60 + int_to_fp ready_threads sdiv 60)\<rparr>
               in foldM update_recent_cpu k (all_list k)
             else Some k);
       if timer_count k smod 4 = 0 then Some (fold thread_update_mlfqs_priority (all_list k) k)
       else Some k }
     else Some k }"

section \<open>Creation\<close>

text \<open>\<^verbatim>\<open>memset (t, 0, sizeof *t)\<close>; status 0 is \<^verbatim>\<open>THREAD_RUNNING\<close>.\<close>

definition zero_thread :: thread where
  "zero_thread = \<lparr>tid = 0, status = THREAD_RUNNING, name = [], stack = 0, nice = 0, recent_cpu = 0,
     priority = 0, locks = [], pagedir = 0, process = 0, next_wakeup = 0, loaded_sema = 0,
     alive_sema = 0, stack_pages = 0, magic = 0, calls = []\<rparr>"

definition init_thread :: "ptr \<Rightarrow> string \<Rightarrow> int \<Rightarrow> kernel \<Rightarrow> kernel option" where
  "init_thread t nm pri k = do {
     ASSERT (t \<noteq> 0);
     ASSERT (PRI_MIN \<le> pri \<and> pri \<le> PRI_MAX);
     let k = upd_thread t (\<lambda>r. zero_thread\<lparr>status := THREAD_BLOCKED, name := take 15 nm,
                 stack := t + PGSIZE, magic := THREAD_MAGIC\<rparr>) k;
     let k = k\<lparr>all_list := all_list k @ [t]\<rparr>;
     let k = upd_thread t (\<lambda>r. r\<lparr>nice := thread_get_nice k, recent_cpu := 0, stack_pages := 0, process := 0\<rparr>) k;
     Some (if thread_mlfqs k then thread_update_mlfqs_priority t k
           else upd_thread t (\<lambda>r. r\<lparr>priority := pri\<rparr>) k) }"

definition alloc_frame :: "ptr \<Rightarrow> nat \<Rightarrow> kernel \<Rightarrow> kernel option" where
  "alloc_frame t n k = do {
     ASSERT (is_thread k t);
     ASSERT (n mod 4 = 0);
     Some (upd_thread t (\<lambda>r. r\<lparr>stack := stack r - n\<rparr>) k) }"

definition get_stack_bottom :: "kernel \<Rightarrow> nat option" where
  "get_stack_bottom k = do {
     t \<leftarrow> thread_current k; Some (u32 (3221225472 + 2 ^ 32 - u32 (stack_pages (threads k t) * PGSIZE))) }"

definition thread_foreach :: "(kernel \<Rightarrow> ptr \<Rightarrow> kernel option) \<Rightarrow> kernel \<Rightarrow> kernel option" where
  "thread_foreach f k = do { ASSERT (intr_level k = INTR_OFF); foldM f k (all_list k) }"

section \<open>Effective priority\<close>

text \<open>\<open>donor k n t u\<close>: within \<open>n\<close> levels of locks, \<open>u\<close> waits for \<open>t\<close>.\<close>

inductive donor :: "kernel \<Rightarrow> nat \<Rightarrow> ptr \<Rightarrow> ptr \<Rightarrow> bool" for k where
  donor_self: "donor k n t t"
| donor_step: "l \<in> set (locks (threads k t)) \<Longrightarrow> w \<in> set (waiters (semas k (lock_semaphore l))) \<Longrightarrow>
    donor k n w u \<Longrightarrow> donor k (Suc n) t u"

inductive_simps donor_0: "donor k 0 t u"
inductive_cases donor_SucE: "donor k (Suc n) t u"

lemma donor_Suc:
  "donor k (Suc n) t u \<longleftrightarrow> u = t \<or>
    (\<exists>l w. l \<in> set (locks (threads k t)) \<and> w \<in> set (waiters (semas k (lock_semaphore l))) \<and> donor k n w u)"
  by (auto elim: donor_SucE intro: donor.intros)

lemma fold_larger: "fold (\<lambda>x p. let q = f x in if q > p then q else p) xs p = Max (insert p (f ` set xs))"
  for p :: "'a :: linorder"
proof (induction xs arbitrary: p)
  case (Cons x xs)
  have "(let q = f x in if q > p then q else p) = max (f x) p" by (auto simp: Let_def max_def)
  then show ?case using Cons [of "max (f x) p"]
    by (cases "set xs = {}") (simp_all add: insert_commute Max_insert max.assoc max.commute max.left_commute)
qed simp

lemma fold_fold_concat: "fold (\<lambda>l. fold f (g l)) ls p = fold f (concat (map g ls)) p"
  by (induction ls arbitrary: p) simp_all

text \<open>The effective priority is the greatest priority among the donors.\<close>

lemma donated_priority_max:
  "(\<exists>u. donor k n t u \<and> thread_get_donated_priority k n t = priority (threads k u)) \<and>
   (\<forall>u. donor k n t u \<longrightarrow> priority (threads k u) \<le> thread_get_donated_priority k n t)"
proof (induction n arbitrary: t)
  case 0
  then show ?case by (simp add: donor_0)
next
  case (Suc n)
  let ?p = "\<lambda>u. priority (threads k u)" and ?d = "thread_get_donated_priority k n"
  define W where "W = concat (map (\<lambda>l. waiters (semas k (lock_semaphore l))) (locks (threads k t)))"
  have eq: "thread_get_donated_priority k (Suc n) t = Max (insert (?p t) (?d ` set W))"
    unfolding W_def thread_get_donated_priority.simps fold_fold_concat by (rule fold_larger)
  have W: "donor k (Suc n) t u \<longleftrightarrow> u = t \<or> (\<exists>w\<in>set W. donor k n w u)" for u
    by (auto simp: donor_Suc W_def)
  have "Max (insert (?p t) (?d ` set W)) \<in> insert (?p t) (?d ` set W)" by (intro Max_in) auto
  then have "\<exists>u. donor k (Suc n) t u \<and> Max (insert (?p t) (?d ` set W)) = ?p u"
    using Suc.IH W by (metis (no_types, lifting) image_iff insert_iff)
  moreover have "?p u \<le> Max (insert (?p t) (?d ` set W))" if d: "donor k (Suc n) t u" for u
  proof (cases "u = t")
    case False
    then obtain w where w: "w \<in> set W" "donor k n w u" using d W by auto
    then have "?p u \<le> ?d w" using Suc.IH by blast
    also have "\<dots> \<le> Max (insert (?p t) (?d ` set W))" using w by (intro Max_ge) auto
    finally show ?thesis .
  qed simp
  ultimately show ?case by (simp only: eq) blast
qed

interpretation pri: list_order "\<lambda>a b. given_thread_get_priority k a < given_thread_get_priority k b" for k
  by unfold_locales auto

lemma highest_priority_split:
  "\<exists>m as bs. list_highest_priority_thread k (x # xs) = Some m \<and> x # xs = as @ m # bs \<and>
     (\<forall>a\<in>set as. given_thread_get_priority k a < given_thread_get_priority k m) \<and>
     (\<forall>b\<in>set bs. given_thread_get_priority k b \<le> given_thread_get_priority k m)"
proof (induction xs arbitrary: x)
  case Nil
  have "[x] = [] @ x # []" by simp
  then show ?case by fastforce
next
  case (Cons y ys)
  let ?g = "given_thread_get_priority k" and ?h = "if given_thread_get_priority k y > given_thread_get_priority k x then y else x"
  obtain m as bs where m: "list_highest_priority_thread k (?h # ys) = Some m" "?h # ys = as @ m # bs"
    "\<forall>a\<in>set as. ?g a < ?g m" "\<forall>b\<in>set bs. ?g b \<le> ?g m" using Cons by blast
  have run: "list_highest_priority_thread k (x # y # ys) = Some m" using m(1) by simp
  show ?case
  proof (cases "?g y > ?g x")
    case True
    have "?g y \<le> ?g m" using m(2-4) True by (cases as) auto
    then have "x # y # ys = (x # as) @ m # bs" "\<forall>a\<in>set (x # as). ?g a < ?g m" using m True by auto
    then show ?thesis using run m(4) by blast
  next
    case False
    show ?thesis
    proof (cases as)
      case Nil
      then have "x # y # ys = [] @ m # y # ys" "\<forall>b\<in>set (y # ys). ?g b \<le> ?g m" using m False by auto
      then show ?thesis using run by fastforce
    next
      case (Cons a as')
      then have "x # y # ys = (x # y # as') @ m # bs" "\<forall>a\<in>set (x # y # as'). ?g a < ?g m" using m False by auto
      then show ?thesis using run m(4) by blast
    qed
  qed
qed

lemma highest_priority_first:
  assumes "list_highest_priority_thread k xs = Some m"
  obtains as bs where "xs = as @ m # bs"
    "\<forall>a\<in>set as. given_thread_get_priority k a < given_thread_get_priority k m"
    "\<forall>b\<in>set bs. given_thread_get_priority k b \<le> given_thread_get_priority k m"
proof (cases xs)
  case (Cons y ys)
  then show ?thesis using highest_priority_split [of k y ys] assms that by (metis option.inject)
qed (use assms in simp)

lemma highest_priority_mem: "list_highest_priority_thread k xs = Some m \<Longrightarrow> m \<in> set xs"
  by (erule highest_priority_first) simp

lemma highest_priority_ge:
  "list_highest_priority_thread k xs = Some m \<Longrightarrow> t \<in> set xs \<Longrightarrow>
   given_thread_get_priority k t \<le> given_thread_get_priority k m"
  by (erule highest_priority_first) auto

lemma highest_priority_Some: "xs \<noteq> [] \<Longrightarrow> \<exists>m. list_highest_priority_thread k xs = Some m"
  by (cases xs) auto

lemma first_max_unique:
  assumes "as @ m # bs = as' @ m' # bs'"
    and "\<forall>a\<in>set as. f a < (f m :: int)" "\<forall>b\<in>set bs. f b \<le> f m"
    and "\<forall>a\<in>set as'. f a < f m'" "\<forall>b\<in>set bs'. f b \<le> f m'"
  shows "m = m'"
  using assms(1)
proof (cases rule: append_eq_append_conv2 [THEN iffD1, OF assms(1), THEN exE])
  case (1 us)
  then show ?thesis using assms(2-5) by (cases us) (auto simp: less_le_not_le)
qed

text \<open>
  On the pointer-level list of \<^verbatim>\<open>list.c\<close> the search for the best thread is \<^verbatim>\<open>list_max\<close> for the
  order of effective priorities, with the address of a thread for that of its list element.
\<close>

lemma list_max_highest_priority:
  assumes "dll h l xs" "xs \<noteq> []"
  shows "list_max (\<lambda>a b. given_thread_get_priority k a < given_thread_get_priority k b) h l =
    list_highest_priority_thread k xs"
proof -
  obtain y ys where xs: "xs = y # ys" using assms(2) by (cases xs) auto
  obtain m as bs where m: "list_max (\<lambda>a b. given_thread_get_priority k a < given_thread_get_priority k b) h l = Some m"
    "xs = as @ m # bs" "\<forall>a\<in>set as. given_thread_get_priority k a < given_thread_get_priority k m"
    "\<forall>b\<in>set bs. \<not> given_thread_get_priority k m < given_thread_get_priority k b"
    using pri.dll_max [of h l y ys k] assms(1) xs by blast
  obtain m' where m': "list_highest_priority_thread k xs = Some m'" using highest_priority_Some [OF assms(2)] by blast
  then obtain as' bs' where "xs = as' @ m' # bs'"
    "\<forall>a\<in>set as'. given_thread_get_priority k a < given_thread_get_priority k m'"
    "\<forall>b\<in>set bs'. given_thread_get_priority k b \<le> given_thread_get_priority k m'"
    by (rule highest_priority_first)
  then have "m = m'" using m first_max_unique [of as m bs as' m' bs' "given_thread_get_priority k"]
    by (simp add: not_less)
  then show ?thesis using m(1) m' by simp
qed

end
