(* ===== verification/Synch.thy ===== *)
theory Synch
  imports Threads
begin

text \<open>
  Semaphores, locks and condition variables (\<^verbatim>\<open>threads/synch.c\<close>) and the parts of
  \<^verbatim>\<open>thread.c\<close> that use them: creating, starting and ending a thread, and the idle thread.
  An operation that may lose the processor pushes what is left of it on the stack of the
  running thread before it does. The effect of each operation on the state is stated here;
  the runs of the whole kernel are in theory \<^verbatim>\<open>Kernel_Steps\<close>.
\<close>

section \<open>Semaphores\<close>

definition sema_init :: "ptr \<Rightarrow> nat \<Rightarrow> kernel \<Rightarrow> kernel option" where
  "sema_init s v k = do {
     ASSERT (s \<noteq> 0);
     Some (upd_sema s (\<lambda>_. \<lparr>sema_value = v, waiters = []\<rparr>) k) }"

text \<open>
  The loop of \<^verbatim>\<open>sema_down\<close>. A thread that finds the value 0 queues itself and blocks, and
  tests the value again when it is resumed.
\<close>

definition sema_down_loop :: "ptr \<Rightarrow> intr_level \<Rightarrow> kernel \<Rightarrow> kernel option" where
  "sema_down_loop s old_level k =
     (if sema_value (semas k s) = 0 then do {
        t \<leftarrow> thread_current k;
        let k = upd_sema s (\<lambda>r. r\<lparr>waiters := waiters r @ [t]\<rparr>) k;
        thread_block (push_calls [Sema_down_loop s old_level] k) }
      else intr_set_level old_level (upd_sema s (\<lambda>r. r\<lparr>sema_value := sema_value r - 1\<rparr>) k))"

definition sema_down :: "ptr \<Rightarrow> kernel \<Rightarrow> kernel option" where
  "sema_down s k = do {
     ASSERT (s \<noteq> 0);
     ASSERT (\<not> in_external_intr k);
     sema_down_loop s (intr_level k) (intr_disable k) }"

definition sema_try_down :: "ptr \<Rightarrow> kernel \<Rightarrow> (bool \<times> kernel) option" where
  "sema_try_down s k = do {
     ASSERT (s \<noteq> 0);
     let old_level = intr_level k;
     let k = intr_disable k;
     let (success, k) = (if sema_value (semas k s) > 0
       then (True, upd_sema s (\<lambda>r. r\<lparr>sema_value := sema_value r - 1\<rparr>) k) else (False, k));
     k \<leftarrow> intr_set_level old_level k;
     Some (success, k) }"

definition sema_up :: "ptr \<Rightarrow> kernel \<Rightarrow> kernel option" where
  "sema_up s k = do {
     ASSERT (s \<noteq> 0);
     let old_level = intr_level k;
     let k = intr_disable k;
     let k = upd_sema s (\<lambda>r. r\<lparr>sema_value := u32 (sema_value r + 1)\<rparr>) k;
     if waiters (semas k s) \<noteq> [] then do {
       t \<leftarrow> list_highest_priority_thread k (waiters (semas k s));
       let k = upd_sema s (\<lambda>r. r\<lparr>waiters := remove1 t (waiters r)\<rparr>) k;
       thread_unblock t (push_calls [Intr_set_level old_level] k) }
     else intr_set_level old_level k }"

section \<open>Locks\<close>

definition lock_init :: "ptr \<Rightarrow> kernel \<Rightarrow> kernel option" where
  "lock_init l k = do {
     ASSERT (l \<noteq> 0);
     sema_init (lock_semaphore l) 1 (k\<lparr>lock_holder := (lock_holder k)(l := 0)\<rparr>) }"

definition lock_held_by_current_thread :: "ptr \<Rightarrow> kernel \<Rightarrow> bool option" where
  "lock_held_by_current_thread l k = do {
     ASSERT (l \<noteq> 0); t \<leftarrow> thread_current k; Some (lock_holder k l = t) }"

text \<open>What \<^verbatim>\<open>lock_acquire\<close> and \<^verbatim>\<open>lock_try_acquire\<close> do once they have the semaphore.\<close>

definition lock_acquired :: "ptr \<Rightarrow> kernel \<Rightarrow> kernel" where
  "lock_acquired l k =
     upd_thread (running_thread k) (\<lambda>r. r\<lparr>locks := locks r @ [l]\<rparr>)
       (k\<lparr>lock_holder := (lock_holder k)(l := running_thread k)\<rparr>)"

definition lock_acquire :: "ptr \<Rightarrow> kernel \<Rightarrow> kernel option" where
  "lock_acquire l k = do {
     ASSERT (l \<noteq> 0);
     ASSERT (\<not> in_external_intr k);
     b \<leftarrow> lock_held_by_current_thread l k;
     ASSERT (\<not> b);
     Some (push_calls [Sema_down (lock_semaphore l), Lock_acquired l] k) }"

definition lock_try_acquire :: "ptr \<Rightarrow> kernel \<Rightarrow> (bool \<times> kernel) option" where
  "lock_try_acquire l k = do {
     ASSERT (l \<noteq> 0);
     b \<leftarrow> lock_held_by_current_thread l k;
     ASSERT (\<not> b);
     (success, k) \<leftarrow> sema_try_down (lock_semaphore l) k;
     Some (success, if success then push_calls [Lock_acquired l] k else k) }"

definition lock_release :: "ptr \<Rightarrow> kernel \<Rightarrow> kernel option" where
  "lock_release l k = do {
     ASSERT (l \<noteq> 0);
     b \<leftarrow> lock_held_by_current_thread l k;
     ASSERT b;
     let k = upd_thread (lock_holder k l) (\<lambda>r. r\<lparr>locks := remove1 l (locks r)\<rparr>) k;
     let k = k\<lparr>lock_holder := (lock_holder k)(l := 0)\<rparr>;
     Some (push_calls [Sema_up (lock_semaphore l)] k) }"

section \<open>Condition variables\<close>

definition cond_init :: "ptr \<Rightarrow> kernel \<Rightarrow> kernel option" where
  "cond_init c k = do { ASSERT (c \<noteq> 0); Some (k\<lparr>conds := (conds k)(c := [])\<rparr>) }"

text \<open>\<open>w\<close> is the address of the local variable \<^verbatim>\<open>waiter\<close>.\<close>

definition cond_wait :: "ptr \<Rightarrow> ptr \<Rightarrow> ptr \<Rightarrow> kernel \<Rightarrow> kernel option" where
  "cond_wait c l w k = do {
     ASSERT (c \<noteq> 0);
     ASSERT (l \<noteq> 0);
     ASSERT (\<not> in_external_intr k);
     b \<leftarrow> lock_held_by_current_thread l k;
     ASSERT b;
     k \<leftarrow> sema_init (elem_semaphore w) 0 k;
     let k = k\<lparr>conds := (conds k)(c := conds k c @ [w])\<rparr>;
     Some (push_calls [Lock_release l, Sema_down (elem_semaphore w), Lock_acquire l] k) }"

text \<open>
  The search of \<^verbatim>\<open>cond_signal\<close> for the waiter to wake: state \<open>(highest_priority, sema_to_up)\<close>.
\<close>

definition signal_step :: "kernel \<Rightarrow> int \<times> ptr \<Rightarrow> ptr \<Rightarrow> (int \<times> ptr) option" where
  "signal_step k hs e = do {
     let ws = waiters (semas k (elem_semaphore e));
     if ws \<noteq> [] then do {
       t \<leftarrow> list_highest_priority_thread k ws;
       Some (if priority (threads k t) > fst hs then (priority (threads k t), e) else hs) }
     else Some hs }"

definition cond_signal :: "ptr \<Rightarrow> ptr \<Rightarrow> kernel \<Rightarrow> kernel option" where
  "cond_signal c l k = do {
     ASSERT (c \<noteq> 0);
     ASSERT (l \<noteq> 0);
     ASSERT (\<not> in_external_intr k);
     b \<leftarrow> lock_held_by_current_thread l k;
     ASSERT b;
     if conds k c \<noteq> [] then do {
       (_, e) \<leftarrow> foldM (signal_step k) (- 1, hd (conds k c)) (conds k c);
       let k = k\<lparr>conds := (conds k)(c := remove1 e (conds k c))\<rparr>;
       Some (push_calls [Sema_up (elem_semaphore e)] k) }
     else Some k }"

definition cond_broadcast :: "ptr \<Rightarrow> ptr \<Rightarrow> kernel \<Rightarrow> kernel option" where
  "cond_broadcast c l k = do {
     ASSERT (c \<noteq> 0);
     ASSERT (l \<noteq> 0);
     Some (if conds k c \<noteq> [] then push_calls [Cond_signal c l, Cond_broadcast c l] k else k) }"

section \<open>The life of a thread\<close>

text \<open>The address of the static variable \<^verbatim>\<open>tid_lock\<close>.\<close>

abbreviation (input) tid_lock :: ptr where "tid_lock \<equiv> 0xc0035000"

definition thread_init :: "ptr \<Rightarrow> kernel \<Rightarrow> kernel option" where
  "thread_init t k = do {
     ASSERT (intr_level k = INTR_OFF);
     k \<leftarrow> lock_init tid_lock k;
     let k = k\<lparr>ready_list := [], all_list := [], running_thread := t, initial_thread := t\<rparr>;
     k \<leftarrow> init_thread t ''main'' PRI_DEFAULT k;
     let k = upd_thread t (\<lambda>r. r\<lparr>status := THREAD_RUNNING\<rparr>) k;
     let k = push_calls [Lock_acquire tid_lock, Allocate_tid t, Lock_release tid_lock] k;
     Some (k\<lparr>load_avg := 0\<rparr>) }"

definition allocate_tid :: "ptr \<Rightarrow> kernel \<Rightarrow> kernel" where
  "allocate_tid t k =
     upd_thread t (\<lambda>r. r\<lparr>tid := next_tid k\<rparr>) (k\<lparr>next_tid := s32 (next_tid k + 1)\<rparr>)"

text \<open>
  \<open>thread_create\<close> up to the call of \<^verbatim>\<open>allocate_tid\<close>, then the rest. The arguments \<open>page\<close>, \<open>ls\<close>
  and \<open>as\<close> are what \<^verbatim>\<open>palloc_get_page\<close> and the two calls of \<^verbatim>\<open>malloc\<close> return; a null page ends
  the call with \<^verbatim>\<open>TID_ERROR\<close>.
\<close>

definition thread_create :: "string \<Rightarrow> int \<Rightarrow> call \<Rightarrow> ptr \<Rightarrow> kernel \<Rightarrow> kernel option" where
  "thread_create nm pri function page k =
     (if page = 0 then Some k
      else do {
        k \<leftarrow> init_thread page nm pri k;
        Some (push_calls [Lock_acquire tid_lock, Allocate_tid page, Lock_release tid_lock,
                Thread_create_tail page function] k) })"

definition thread_create_tail :: "ptr \<Rightarrow> call \<Rightarrow> ptr \<Rightarrow> ptr \<Rightarrow> kernel \<Rightarrow> kernel option" where
  "thread_create_tail t function ls as k = do {
     let old_level = intr_level k;
     let k = intr_disable k;
     k \<leftarrow> alloc_frame t 12 k;
     k \<leftarrow> alloc_frame t 4 k;
     k \<leftarrow> alloc_frame t 28 k;
     let k = upd_thread t (\<lambda>r. r\<lparr>calls := [Kernel_thread function]\<rparr>) k;
     k \<leftarrow> intr_set_level old_level k;
     let k = upd_thread t (\<lambda>r. r\<lparr>loaded_sema := ls\<rparr>) k;
     k \<leftarrow> sema_init ls 0 k;
     let k = upd_thread t (\<lambda>r. r\<lparr>alive_sema := as\<rparr>) k;
     k \<leftarrow> sema_init as 0 k;
     thread_unblock t k }"

definition kernel_thread :: "call \<Rightarrow> kernel \<Rightarrow> kernel option" where
  "kernel_thread function k = do {
     k \<leftarrow> intr_enable k;
     Some (push_calls [function, Thread_exit] k) }"

text \<open>
  Of \<^verbatim>\<open>process_exit\<close> the reset of the page directory is kept. The clean-up of a user process (its children, its executable, its
  supplemental page table) is not part of this model; a thread of the kernel has no process, and for it there is none.
\<close>

definition thread_exit :: "kernel \<Rightarrow> kernel option" where
  "thread_exit k = do {
     ASSERT (\<not> in_external_intr k);
     cur \<leftarrow> thread_current k;
     let k = upd_thread cur (\<lambda>r. r\<lparr>pagedir := 0\<rparr>) k;
     let k = intr_disable k;
     let k = push_calls [Thread_exit_tail] k;
     if alive_sema (threads k cur) \<noteq> 0 then sema_up (alive_sema (threads k cur)) k else Some k }"

definition thread_exit_tail :: "kernel \<Rightarrow> kernel option" where
  "thread_exit_tail k = do {
     let cur = running_thread k;
     let k = k\<lparr>all_list := remove1 cur (all_list k)\<rparr>;
     schedule (upd_thread cur (\<lambda>r. r\<lparr>status := THREAD_DYING\<rparr>) k) }"

definition idle :: "ptr \<Rightarrow> kernel \<Rightarrow> kernel option" where
  "idle idle_started k = do {
     t \<leftarrow> thread_current k;
     Some (push_calls [Sema_up idle_started, Idle_loop] (k\<lparr>idle_thread := t\<rparr>)) }"

definition idle_loop :: "kernel \<Rightarrow> kernel option" where
  "idle_loop k = thread_block (push_calls [Idle_wait] (intr_disable k))"

text \<open>\<^verbatim>\<open>sti; hlt\<close>\<close>

definition idle_wait :: "kernel \<Rightarrow> kernel" where
  "idle_wait k = push_calls [Idle_loop] (k\<lparr>intr_level := INTR_ON\<rparr>)"

text \<open>
  \<^verbatim>\<open>thread_start\<close> creates the idle thread, enables interrupts and waits for it; \<open>s\<close> is the
  address of the local semaphore, \<open>page\<close> what \<^verbatim>\<open>palloc_get_page\<close> returns.
\<close>

definition thread_start :: "ptr \<Rightarrow> ptr \<Rightarrow> kernel \<Rightarrow> kernel option" where
  "thread_start s page k = do {
     k \<leftarrow> sema_init s 0 k;
     Some (push_calls [Thread_create ''idle'' PRI_MIN (Idle s) page,
             Intr_set_level INTR_ON, Sema_down s] k) }"

end
