(* ===== verification/Timer.thy ===== *)
theory Timer
  imports Synch
begin

text \<open>
  The timer (\<^verbatim>\<open>devices/timer.c\<close>) and the part of \<^verbatim>\<open>threads/interrupt.c\<close> that runs its
  handler: sleeping for a number of ticks, the wake-up of the sleepers, and preemption on
  return from the interrupt. The access times of frames (\<^verbatim>\<open>frame_tick\<close>) are not part of
  this state.
\<close>

definition timer_ticks :: "kernel \<Rightarrow> int" where
  "timer_ticks k = timer_count k"

definition timer_elapsed :: "int \<Rightarrow> kernel \<Rightarrow> int" where
  "timer_elapsed start k = s64 (timer_ticks k - start)"

text \<open>
  \<^verbatim>\<open>timer_sleep\<close> in two parts: the thread is put on the sleeping list with interrupts on, then
  it disables them and blocks.
\<close>

definition timer_sleep :: "int \<Rightarrow> kernel \<Rightarrow> kernel option" where
  "timer_sleep n k = do {
     ASSERT (intr_level k = INTR_ON);
     t \<leftarrow> thread_current k;
     let k = upd_thread t (\<lambda>r. r\<lparr>next_wakeup := s64 (timer_ticks k + n)\<rparr>) k;
     let k = k\<lparr>sleeping_list := sleeping_list k @ [t]\<rparr>;
     Some (push_calls [Timer_sleep_block] k) }"

definition timer_sleep_block :: "kernel \<Rightarrow> kernel option" where
  "timer_sleep_block k = do {
     let old_level = intr_level k;
     thread_block (push_calls [Timer_sleep_end old_level] (intr_disable k)) }"

text \<open>
  The busy-wait count of \<^verbatim>\<open>real_time_delay\<close> and the choice of \<^verbatim>\<open>real_time_sleep\<close>: \<open>Inl n\<close> sleeps
  for \<open>n\<close> ticks, \<open>Inr n\<close> loops \<open>n\<close> times.
\<close>

definition real_time_delay :: "int \<Rightarrow> int \<Rightarrow> int \<Rightarrow> int option" where
  "real_time_delay loops_per_tick num denom = do {
     ASSERT (denom smod 1000 = 0);
     ASSERT (denom sdiv 1000 \<noteq> 0);
     Some (s64 (s64 (loops_per_tick * num) sdiv 1000 * TIMER_FREQ) sdiv (denom sdiv 1000)) }"

definition real_time_sleep :: "int \<Rightarrow> int \<Rightarrow> int \<Rightarrow> kernel \<Rightarrow> (int + int) option" where
  "real_time_sleep loops_per_tick num denom k = do {
     ASSERT (denom \<noteq> 0);
     let n = s64 (num * TIMER_FREQ) sdiv denom;
     ASSERT (intr_level k = INTR_ON);
     if n > 0 then Some (Inl n) else map_option Inr (real_time_delay loops_per_tick num denom) }"

definition timer_msleep :: "int \<Rightarrow> int \<Rightarrow> kernel \<Rightarrow> (int + int) option" where
  "timer_msleep lpt ms = real_time_sleep lpt ms 1000"

definition timer_usleep :: "int \<Rightarrow> int \<Rightarrow> kernel \<Rightarrow> (int + int) option" where
  "timer_usleep lpt us = real_time_sleep lpt us (1000 * 1000)"

definition timer_nsleep :: "int \<Rightarrow> int \<Rightarrow> kernel \<Rightarrow> (int + int) option" where
  "timer_nsleep lpt ns = real_time_sleep lpt ns (1000 * 1000 * 1000)"

definition timer_mdelay :: "int \<Rightarrow> int \<Rightarrow> int option" where
  "timer_mdelay lpt ms = real_time_delay lpt ms 1000"

definition timer_udelay :: "int \<Rightarrow> int \<Rightarrow> int option" where
  "timer_udelay lpt us = real_time_delay lpt us (1000 * 1000)"

definition timer_ndelay :: "int \<Rightarrow> int \<Rightarrow> int option" where
  "timer_ndelay lpt ns = real_time_delay lpt ns (1000 * 1000 * 1000)"

section \<open>The interrupt\<close>

text \<open>The loop over the sleeping list: \<open>es\<close> is what is still ahead of the cursor.\<close>

fun wake_sleepers :: "ptr list \<Rightarrow> kernel \<Rightarrow> kernel option" where
  "wake_sleepers [] k = Some k"
| "wake_sleepers (e # es) k =
     (if timer_ticks k \<ge> next_wakeup (threads k e) then do {
        let k = k\<lparr>sleeping_list := remove1 e (sleeping_list k)\<rparr>;
        k \<leftarrow> thread_unblock e k;
        wake_sleepers es k }
      else wake_sleepers es k)"

definition timer_interrupt :: "kernel \<Rightarrow> kernel option" where
  "timer_interrupt k = do {
     let k = k\<lparr>timer_count := s64 (timer_count k + 1)\<rparr>;
     k \<leftarrow> thread_tick k;
     wake_sleepers (sleeping_list k) k }"

text \<open>
  \<^verbatim>\<open>intr_handler\<close> for the timer, entered through an interrupt gate. Returning from the
  interrupt restores the flags, with interrupts on.
\<close>

definition intr_handler :: "kernel \<Rightarrow> kernel option" where
  "intr_handler k = do {
     let k = intr_disable k;
     ASSERT (\<not> in_external_intr k);
     let k = k\<lparr>in_external_intr := True, yield_on_return := False\<rparr>;
     k \<leftarrow> timer_interrupt k;
     ASSERT (intr_level k = INTR_OFF);
     ASSERT (in_external_intr k);
     let k = k\<lparr>in_external_intr := False\<rparr>;
     if yield_on_return k then thread_yield (push_calls [Intr_return] k)
     else Some (k\<lparr>intr_level := INTR_ON\<rparr>) }"

end
