(* ===== verification/Kernel_Steps.thy ===== *)
theory Kernel_Steps
  imports Timer
begin

text \<open>
  Runs of the kernel: the running thread executes its pending calls, the body of a thread
  calls any operation of \<^verbatim>\<open>thread.c\<close>, \<^verbatim>\<open>synch.c\<close> and \<^verbatim>\<open>timer.c\<close>, and the timer interrupts
  between steps while interrupts are on. The invariant \<open>kernel_inv\<close> ties the lists to the state of each
  thread, the stacks of pending calls to the interrupt level and the locks held, and the
  value of every semaphore to the threads that have passed it.
\<close>

section \<open>Steps\<close>

text \<open>
  One call of the running thread. \<open>m\<close> is what \<^verbatim>\<open>malloc\<close> returns if the call allocates.
\<close>

fun run_call :: "ptr \<times> ptr \<Rightarrow> call \<Rightarrow> kernel \<Rightarrow> kernel option" where
  "run_call m (Function n) k = Some k"
| "run_call m (Kernel_thread f) k = kernel_thread f k"
| "run_call m (Intr_set_level l) k = intr_set_level l k"
| "run_call m Intr_return k = Some (k\<lparr>intr_level := INTR_ON\<rparr>)"
| "run_call m Thread_yield k = thread_yield k"
| "run_call m Thread_exit k = thread_exit k"
| "run_call m Thread_exit_tail k = thread_exit_tail k"
| "run_call m (Thread_create nm p f page) k = thread_create nm p f page k"
| "run_call m (Allocate_tid t) k = Some (allocate_tid t k)"
| "run_call m (Thread_create_tail t f) k = thread_create_tail t f (fst m) (snd m) k"
| "run_call m (Thread_set_priority p) k = thread_set_priority p k"
| "run_call m (Thread_set_nice n) k = thread_set_nice n k"
| "run_call m (Idle s) k = idle s k"
| "run_call m Idle_loop k = idle_loop k"
| "run_call m Idle_wait k = Some (idle_wait k)"
| "run_call m (Sema_down s) k = sema_down s k"
| "run_call m (Sema_down_loop s l) k = sema_down_loop s l k"
| "run_call m (Sema_try_down s) k = map_option snd (sema_try_down s k)"
| "run_call m (Sema_up s) k = sema_up s k"
| "run_call m (Lock_acquire l) k = lock_acquire l k"
| "run_call m (Lock_acquired l) k = Some (lock_acquired l k)"
| "run_call m (Lock_try_acquire l) k = map_option snd (lock_try_acquire l k)"
| "run_call m (Lock_release l) k = lock_release l k"
| "run_call m (Cond_wait c l w) k = cond_wait c l w k"
| "run_call m (Cond_signal c l) k = cond_signal c l k"
| "run_call m (Cond_broadcast c l) k = cond_broadcast c l k"
| "run_call m (Timer_sleep n) k = timer_sleep n k"
| "run_call m Timer_sleep_block k = timer_sleep_block k"
| "run_call m (Timer_sleep_end l) k = intr_set_level l k"

abbreviation current_calls :: "kernel \<Rightarrow> call list" where
  "current_calls k \<equiv> calls (threads k (running_thread k))"

definition pop_call :: "kernel \<Rightarrow> kernel" where
  "pop_call k = upd_thread (running_thread k) (\<lambda>r. r\<lparr>calls := tl (calls r)\<rparr>) k"

definition exec :: "ptr \<times> ptr \<Rightarrow> kernel \<Rightarrow> kernel option" where
  "exec m k = (case current_calls k of [] \<Rightarrow> None | c # cs \<Rightarrow> run_call m c (pop_call k))"

text \<open>
  \<open>L\<close> is the set of locks of the system, each initialised by \<^verbatim>\<open>lock_init\<close>. A semaphore outside
  them is \<open>free\<close> for an operation that initialises it when no thread waits on it.
\<close>

definition lock_semas :: "ptr set \<Rightarrow> ptr set" where
  "lock_semas L = lock_semaphore ` L"

definition fresh_sema :: "ptr set \<Rightarrow> kernel \<Rightarrow> ptr \<Rightarrow> bool" where
  "fresh_sema L k s \<longleftrightarrow> s \<noteq> 0 \<and> s \<notin> lock_semas L \<and> waiters (semas k s) = []"

text \<open>
  What a thread may call, and when: the preconditions that the comments of the source state
  for each function.
\<close>

fun call_ok :: "ptr set \<Rightarrow> kernel \<Rightarrow> call \<Rightarrow> bool" where
  "call_ok L k Thread_yield = True"
| "call_ok L k Thread_exit = (\<forall>l\<in>L. lock_holder k l \<noteq> running_thread k)"
| "call_ok L k (Thread_create nm p f page) = (PRI_MIN \<le> p \<and> p \<le> PRI_MAX \<and> (\<exists>n. f = Function n) \<and>
     tid_lock \<in> L \<and> lock_holder k tid_lock \<noteq> running_thread k \<and> page \<notin> set (all_list k))"
| "call_ok L k (Thread_set_priority p) = True"
| "call_ok L k (Thread_set_nice n) = True"
| "call_ok L k (Sema_down s) = (s \<noteq> 0 \<and> s \<notin> lock_semas L)"
| "call_ok L k (Sema_try_down s) = (s \<noteq> 0 \<and> s \<notin> lock_semas L)"
| "call_ok L k (Sema_up s) = (s \<noteq> 0 \<and> s \<notin> lock_semas L)"
| "call_ok L k (Lock_acquire l) = (l \<in> L \<and> lock_holder k l \<noteq> running_thread k)"
| "call_ok L k (Lock_try_acquire l) = (l \<in> L \<and> lock_holder k l \<noteq> running_thread k)"
| "call_ok L k (Lock_release l) = (l \<in> L \<and> lock_holder k l = running_thread k)"
| "call_ok L k (Cond_wait c l w) =
     (c \<noteq> 0 \<and> l \<in> L \<and> lock_holder k l = running_thread k \<and> fresh_sema L k (elem_semaphore w))"
| "call_ok L k (Cond_signal c l) = (c \<noteq> 0 \<and> l \<in> L \<and> lock_holder k l = running_thread k)"
| "call_ok L k (Cond_broadcast c l) = (c \<noteq> 0 \<and> l \<in> L \<and> lock_holder k l = running_thread k)"
| "call_ok L k (Timer_sleep n) = True"
| "call_ok L k _ = False"

text \<open>
  A step is an uninterrupted stretch: the next pending call up to the point where it makes a call itself or
  switches threads, a call made by the body of a thread, or a timer interrupt. The timer interrupts between steps,
  where interrupts are on, but not between the two halves of \<^verbatim>\<open>timer_sleep\<close>, where it can hit an assertion or
  put a thread on two lists. So these are not all the interleavings of the hardware: a stretch that runs with interrupts
  on counts as one step.
\<close>

inductive kstep :: "ptr set \<Rightarrow> kernel \<Rightarrow> kernel \<Rightarrow> bool" for L where
  step_exec: "current_calls k = c # cs \<Longrightarrow> (\<forall>n. c \<noteq> Function n) \<Longrightarrow>
     fresh_sema L k (fst m) \<Longrightarrow> fresh_sema L k (snd m) \<Longrightarrow> exec m k = Some k' \<Longrightarrow> kstep L k k'"
| step_call: "current_calls k = Function n # cs \<Longrightarrow> call_ok L k c \<Longrightarrow> run_call m c k = Some k' \<Longrightarrow> kstep L k k'"
| step_return: "current_calls k = Function n # cs \<Longrightarrow> (\<forall>l\<in>L. lock_holder k l \<noteq> running_thread k) \<Longrightarrow>
     exec m k = Some k' \<Longrightarrow> kstep L k k'"
| step_tick: "intr_level k = INTR_ON \<Longrightarrow> (\<forall>cs. current_calls k \<noteq> Timer_sleep_block # cs) \<Longrightarrow>
     intr_handler k = Some k' \<Longrightarrow> kstep L k k'"

section \<open>The invariant\<close>

text \<open>
  \<open>frames_ok L H v cs\<close>: the stack \<open>cs\<close> can be executed by a thread that holds the locks \<open>H\<close> at
  interrupt level \<open>v\<close>.
\<close>

fun frames_ok :: "ptr set \<Rightarrow> ptr set \<Rightarrow> intr_level \<Rightarrow> call list \<Rightarrow> bool" where
  "frames_ok L H v [] = False"
| "frames_ok L H v (Function n # cs) = (v = INTR_ON \<and> cs = [Thread_exit])"
| "frames_ok L H v (Kernel_thread f # cs) = (v = INTR_OFF \<and> H = {} \<and> (\<exists>n. f = Function n) \<and> cs = [])"
| "frames_ok L H v (Intr_set_level w # cs) = (v = INTR_OFF \<and> frames_ok L H w cs)"
| "frames_ok L H v (Intr_return # cs) = (v = INTR_OFF \<and> frames_ok L H INTR_ON cs)"
| "frames_ok L H v (Thread_exit # cs) = (v = INTR_ON \<and> H = {} \<and> cs = [])"
| "frames_ok L H v (Thread_exit_tail # cs) =
     (v = INTR_OFF \<and> H = {} \<and> (cs = [] \<or> (\<exists>n. cs = [Function n, Thread_exit])))"
| "frames_ok L H v (Allocate_tid t # cs) = (v = INTR_ON \<and> frames_ok L H v cs)"
| "frames_ok L H v (Thread_create_tail t f # cs) = (v = INTR_ON \<and> (\<exists>n. f = Function n) \<and> frames_ok L H v cs)"
| "frames_ok L H v (Idle_loop # cs) = (v = INTR_ON \<and> H = {} \<and> cs = [Thread_exit])"
| "frames_ok L H v (Idle_wait # cs) = (v = INTR_OFF \<and> H = {} \<and> cs = [Thread_exit])"
| "frames_ok L H v (Sema_down s # cs) = (v = INTR_ON \<and> s \<noteq> 0 \<and> frames_ok L H v cs \<and>
     (\<forall>l\<in>L. s = lock_semaphore l \<longrightarrow> (\<exists>cs'. cs = Lock_acquired l # cs')))"
| "frames_ok L H v (Sema_down_loop s w # cs) = (v = INTR_OFF \<and> s \<noteq> 0 \<and> frames_ok L H w cs \<and>
     (\<forall>l\<in>L. s = lock_semaphore l \<longrightarrow> (\<exists>cs'. cs = Lock_acquired l # cs')))"
| "frames_ok L H v (Sema_up s # cs) = (v = INTR_ON \<and> s \<noteq> 0 \<and> frames_ok L H v cs)"
| "frames_ok L H v (Lock_acquire l # cs) = (v = INTR_ON \<and> l \<in> L \<and> l \<notin> H \<and> frames_ok L (insert l H) v cs)"
| "frames_ok L H v (Lock_acquired l # cs) = (v = INTR_ON \<and> l \<in> L \<and> l \<notin> H \<and> frames_ok L (insert l H) v cs)"
| "frames_ok L H v (Lock_release l # cs) = (v = INTR_ON \<and> l \<in> H \<and> frames_ok L (H - {l}) v cs)"
| "frames_ok L H v (Cond_signal c l # cs) = (v = INTR_ON \<and> c \<noteq> 0 \<and> l \<in> H \<and> frames_ok L H v cs)"
| "frames_ok L H v (Cond_broadcast c l # cs) = (v = INTR_ON \<and> c \<noteq> 0 \<and> l \<in> H \<and> frames_ok L H v cs)"
| "frames_ok L H v (Timer_sleep_block # cs) = (v = INTR_ON \<and> frames_ok L H v cs)"
| "frames_ok L H v (Timer_sleep_end w # cs) = (v = INTR_OFF \<and> frames_ok L H w cs)"
| "frames_ok L H v (_ # cs) = False"

text \<open>The calls that only the top of a stack can be.\<close>

fun below :: "call \<Rightarrow> bool" where
  "below (Sema_down_loop s w) = False"
| "below Timer_sleep_block = False"
| "below (Timer_sleep_end w) = False"
| "below c = True"

text \<open>The locks a thread holds, the threads it is creating, the claims of its stack on a lock.\<close>

definition held :: "ptr set \<Rightarrow> kernel \<Rightarrow> ptr \<Rightarrow> ptr set" where
  "held L k t = {l \<in> L. lock_holder k l = t}"

fun births :: "call list \<Rightarrow> ptr list" where
  "births [] = []"
| "births (Thread_create_tail t f # cs) = t # births cs"
| "births (c # cs) = births cs"

fun claim :: "ptr \<Rightarrow> call \<Rightarrow> int" where
  "claim l (Lock_acquired l') = (if l' = l then 1 else 0)"
| "claim l (Sema_down s) = (if s = lock_semaphore l then - 1 else 0)"
| "claim l (Sema_down_loop s w) = (if s = lock_semaphore l then - 1 else 0)"
| "claim l (Sema_up s) = (if s = lock_semaphore l then 1 else 0)"
| "claim l _ = 0"

definition claims :: "ptr \<Rightarrow> call list \<Rightarrow> int" where
  "claims l cs = sum_list (map (claim l) cs)"

fun at_sema :: "call list \<Rightarrow> ptr option" where
  "at_sema (Sema_down_loop s w # cs) = Some s"
| "at_sema _ = None"

fun asleep :: "thread_status \<Rightarrow> call list \<Rightarrow> bool" where
  "asleep st (Timer_sleep_block # cs) = True"
| "asleep st (Timer_sleep_end w # cs) = (st = THREAD_BLOCKED)"
| "asleep st _ = False"

fun idle_stack :: "call list \<Rightarrow> bool" where
  "idle_stack (Intr_set_level w # cs) = idle_stack cs"
| "idle_stack (Intr_return # cs) = idle_stack cs"
| "idle_stack (Idle_loop # cs) = True"
| "idle_stack (Idle_wait # cs) = True"
| "idle_stack _ = False"

text \<open>Threads that have been taken off the waiters of \<open>s\<close> and have not yet tested its value.\<close>

definition woken :: "kernel \<Rightarrow> ptr \<Rightarrow> ptr list" where
  "woken k s = filter (\<lambda>t. status (threads k t) \<noteq> THREAD_BLOCKED \<and> at_sema (calls (threads k t)) = Some s) (all_list k)"

text \<open>Every list holds the threads in the state it stands for.\<close>

definition lists_ok :: "kernel \<Rightarrow> bool" where
  "lists_ok k \<longleftrightarrow> distinct (all_list k) \<and> distinct (ready_list k) \<and> distinct (sleeping_list k) \<and>
     (\<forall>s. distinct (waiters (semas k s))) \<and> idle_thread k \<in> set (all_list k) \<and>
     (\<forall>t\<in>set (all_list k). is_thread k t \<and> status (threads k t) \<noteq> THREAD_DYING \<and>
        (status (threads k t) = THREAD_RUNNING \<longrightarrow> t = running_thread k)) \<and>
     (\<forall>t. t \<in> set (ready_list k) \<longleftrightarrow>
        t \<in> set (all_list k) \<and> status (threads k t) = THREAD_READY \<and> t \<noteq> idle_thread k) \<and>
     (\<forall>s t. t \<in> set (waiters (semas k s)) \<longleftrightarrow>
        t \<in> set (all_list k) \<and> status (threads k t) = THREAD_BLOCKED \<and> at_sema (calls (threads k t)) = Some s) \<and>
     (\<forall>t. t \<in> set (sleeping_list k) \<longleftrightarrow>
        t \<in> set (all_list k) \<and> asleep (status (threads k t)) (calls (threads k t)))"

text \<open>Every thread can continue where it stands.\<close>

definition stacks_ok :: "ptr set \<Rightarrow> kernel \<Rightarrow> bool" where
  "stacks_ok L k \<longleftrightarrow>
     (running_thread k \<in> set (all_list k) \<longrightarrow> frames_ok L (held L k (running_thread k)) (intr_level k) (current_calls k)) \<and>
     (\<forall>t\<in>set (all_list k). t \<noteq> running_thread k \<longrightarrow>
        calls (threads k t) = [] \<and> status (threads k t) = THREAD_BLOCKED \<and> held L k t = {} \<or>
        frames_ok L (held L k t) INTR_OFF (calls (threads k t))) \<and>
     (\<forall>t\<in>set (all_list k). list_all below (tl (calls (threads k t)))) \<and>
     idle_stack (calls (threads k (idle_thread k)))"

text \<open>No thread is created twice, and it has no stack until its creator gives it one.\<close>

definition births_ok :: "kernel \<Rightarrow> bool" where
  "births_ok k \<longleftrightarrow>
     distinct (concat (map (\<lambda>t. births (calls (threads k t))) (all_list k))) \<and>
     (\<forall>t\<in>set (all_list k). \<forall>b\<in>set (births (calls (threads k t))). b \<in> set (all_list k) \<and> calls (threads k b) = [])"

text \<open>Every lock has its value, its holder or exactly one claim on it.\<close>

definition locks_ok :: "ptr set \<Rightarrow> kernel \<Rightarrow> bool" where
  "locks_ok L k \<longleftrightarrow> 0 \<notin> L \<and>
     (\<forall>l\<in>L. lock_holder k l = 0 \<or> lock_holder k l \<in> set (all_list k)) \<and>
     (\<forall>t\<in>set (all_list k). distinct (locks (threads k t)) \<and> set (locks (threads k t)) = held L k t) \<and>
     (\<forall>l\<in>L. int (sema_value (semas k (lock_semaphore l))) +
        (\<Sum>t\<leftarrow>all_list k. claims l (calls (threads k t))) + (if lock_holder k l = 0 then 0 else 1) = 1) \<and>
     (\<forall>t\<in>set (all_list k). alive_sema (threads k t) \<notin> lock_semas L) \<and>
     (\<forall>c. \<forall>w\<in>set (conds k c). elem_semaphore w \<notin> lock_semas L)"

text \<open>While threads wait on a semaphore, each unit of its value is matched by a thread already woken for it.\<close>

definition wakeups_ok :: "kernel \<Rightarrow> bool" where
  "wakeups_ok k \<longleftrightarrow> (\<forall>s. waiters (semas k s) \<noteq> [] \<longrightarrow> sema_value (semas k s) \<le> length (woken k s))"

definition core :: "ptr set \<Rightarrow> kernel \<Rightarrow> bool" where
  "core L k \<longleftrightarrow> lists_ok k \<and> stacks_ok L k \<and> births_ok k \<and> locks_ok L k \<and> wakeups_ok k"

definition kernel_inv :: "ptr set \<Rightarrow> kernel \<Rightarrow> bool" where
  "kernel_inv L k \<longleftrightarrow> core L k \<and> running_thread k \<in> set (all_list k) \<and>
     status (threads k (running_thread k)) = THREAD_RUNNING \<and> \<not> in_external_intr k"

section \<open>What the invariant depends on\<close>

text \<open>The fields of a thread that the invariant reads.\<close>

definition view :: "thread \<Rightarrow> thread_status \<times> call list \<times> ptr list \<times> ptr \<times> nat" where
  "view r = (status r, calls r, locks r, alive_sema r, magic r)"

definition same_view :: "kernel \<Rightarrow> kernel \<Rightarrow> bool" where
  "same_view k k' \<longleftrightarrow> all_list k' = all_list k \<and> ready_list k' = ready_list k \<and> sleeping_list k' = sleeping_list k \<and>
     semas k' = semas k \<and> lock_holder k' = lock_holder k \<and> conds k' = conds k \<and>
     running_thread k' = running_thread k \<and> idle_thread k' = idle_thread k \<and> intr_level k' = intr_level k \<and>
     (\<forall>t\<in>set (all_list k). view (threads k' t) = view (threads k t))"

lemma same_view_refl: "same_view k k"
  by (simp add: same_view_def)

lemma same_view_trans: "same_view k k' \<Longrightarrow> same_view k' k'' \<Longrightarrow> same_view k k''"
  by (auto simp: same_view_def)

lemma same_view_sym: "same_view k k' \<Longrightarrow> same_view k' k"
  by (simp add: same_view_def)

lemma lists_ok_cong: assumes "same_view k k'" shows "lists_ok k \<Longrightarrow> lists_ok k'"
proof -
  assume l: "lists_ok k"
  have v: "status (threads k' t) = status (threads k t) \<and> calls (threads k' t) = calls (threads k t) \<and>
      magic (threads k' t) = magic (threads k t)" if "t \<in> set (all_list k)" for t
    using assms that by (simp add: same_view_def view_def)
  show ?thesis using l assms v unfolding lists_ok_def same_view_def is_thread_def
    by (simp cong: conj_cong)
qed

lemma stacks_ok_cong: assumes "same_view k k'" "lists_ok k" shows "stacks_ok L k \<Longrightarrow> stacks_ok L k'"
proof -
  assume l: "stacks_ok L k"
  have v: "status (threads k' t) = status (threads k t) \<and> calls (threads k' t) = calls (threads k t)"
    if "t \<in> set (all_list k)" for t
    using assms(1) that by (simp add: same_view_def view_def)
  have h: "held L k' = held L k" using assms(1) by (simp add: held_def same_view_def fun_eq_iff)
  have i: "calls (threads k' (idle_thread k)) = calls (threads k (idle_thread k))"
    using assms(2) v by (simp add: lists_ok_def)
  show ?thesis using l assms(1) v unfolding stacks_ok_def same_view_def by (simp add: h i)
qed

lemma births_ok_cong: assumes "same_view k k'" shows "births_ok k \<Longrightarrow> births_ok k'"
proof -
  assume l: "births_ok k"
  have v: "calls (threads k' t) = calls (threads k t)" if "t \<in> set (all_list k)" for t
    using assms(1) that by (simp add: same_view_def view_def)
  have m: "map (\<lambda>t. births (calls (threads k' t))) (all_list k) = map (\<lambda>t. births (calls (threads k t))) (all_list k)"
    using v by simp
  have e: "all_list k' = all_list k" using assms(1) by (simp add: same_view_def)
  show ?thesis unfolding births_ok_def e m
  proof (intro conjI ballI)
    fix t b assume t: "t \<in> set (all_list k)" and b: "b \<in> set (births (calls (threads k' t)))"
    have b': "b \<in> set (births (calls (threads k t)))" using b v [OF t] by simp
    show "b \<in> set (all_list k)" using l t b' unfolding births_ok_def by blast
    then show "calls (threads k' b) = []" using v [of b] l t b' unfolding births_ok_def by metis
  qed (use l in \<open>simp add: births_ok_def\<close>)
qed

lemma locks_ok_cong: assumes "same_view k k'" shows "locks_ok L k \<Longrightarrow> locks_ok L k'"
proof -
  assume l: "locks_ok L k"
  have v: "calls (threads k' t) = calls (threads k t) \<and> locks (threads k' t) = locks (threads k t) \<and>
      alive_sema (threads k' t) = alive_sema (threads k t)" if "t \<in> set (all_list k)" for t
    using assms(1) that by (simp add: same_view_def view_def)
  have h: "held L k' = held L k" using assms(1) by (simp add: held_def same_view_def fun_eq_iff)
  have m: "map (\<lambda>t. claims l (calls (threads k' t))) (all_list k) = map (\<lambda>t. claims l (calls (threads k t))) (all_list k)" for l
    using v by simp
  show ?thesis using l assms v unfolding locks_ok_def same_view_def
    by (simp add: m h)
qed

lemma wakeups_ok_cong: assumes "same_view k k'" shows "wakeups_ok k \<Longrightarrow> wakeups_ok k'"
proof -
  assume l: "wakeups_ok k"
  have "woken k' s = woken k s" for s
    unfolding woken_def using assms by (intro filter_cong) (auto simp: same_view_def view_def)
  then show ?thesis using l assms by (simp add: wakeups_ok_def same_view_def)
qed

lemma core_cong: "same_view k k' \<Longrightarrow> core L k \<Longrightarrow> core L k'"
  unfolding core_def using lists_ok_cong stacks_ok_cong births_ok_cong locks_ok_cong wakeups_ok_cong by blast

text \<open>Projections.\<close>

lemma lo_distinct: "lists_ok k \<Longrightarrow> distinct (all_list k) \<and> distinct (ready_list k) \<and> distinct (sleeping_list k) \<and>
    distinct (waiters (semas k s))"
  by (simp add: lists_ok_def)

lemma lo_idle: "lists_ok k \<Longrightarrow> idle_thread k \<in> set (all_list k)"
  by (simp add: lists_ok_def)

lemma lo_thread: "lists_ok k \<Longrightarrow> t \<in> set (all_list k) \<Longrightarrow> is_thread k t \<and> status (threads k t) \<noteq> THREAD_DYING \<and>
    (status (threads k t) = THREAD_RUNNING \<longrightarrow> t = running_thread k)"
  by (simp add: lists_ok_def)

lemma lo_ready: "lists_ok k \<Longrightarrow> t \<in> set (ready_list k) \<longleftrightarrow>
    t \<in> set (all_list k) \<and> status (threads k t) = THREAD_READY \<and> t \<noteq> idle_thread k"
  unfolding lists_ok_def by blast

lemma lo_waiters: "lists_ok k \<Longrightarrow> t \<in> set (waiters (semas k s)) \<longleftrightarrow>
    t \<in> set (all_list k) \<and> status (threads k t) = THREAD_BLOCKED \<and> at_sema (calls (threads k t)) = Some s"
  unfolding lists_ok_def by blast

lemma lo_sleeping: "lists_ok k \<Longrightarrow> t \<in> set (sleeping_list k) \<longleftrightarrow>
    t \<in> set (all_list k) \<and> asleep (status (threads k t)) (calls (threads k t))"
  unfolding lists_ok_def by blast

lemmas lo_simps = lo_distinct lo_idle lo_thread lo_ready lo_waiters lo_sleeping

lemma lists_okI:
  assumes "distinct (all_list k)" "distinct (ready_list k)" "distinct (sleeping_list k)"
    "\<And>s. distinct (waiters (semas k s))" "idle_thread k \<in> set (all_list k)"
    "\<And>t. t \<in> set (all_list k) \<Longrightarrow> is_thread k t \<and> status (threads k t) \<noteq> THREAD_DYING \<and>
       (status (threads k t) = THREAD_RUNNING \<longrightarrow> t = running_thread k)"
    "\<And>t. t \<in> set (ready_list k) \<longleftrightarrow> t \<in> set (all_list k) \<and> status (threads k t) = THREAD_READY \<and> t \<noteq> idle_thread k"
    "\<And>s t. t \<in> set (waiters (semas k s)) \<longleftrightarrow>
       t \<in> set (all_list k) \<and> status (threads k t) = THREAD_BLOCKED \<and> at_sema (calls (threads k t)) = Some s"
    "\<And>t. t \<in> set (sleeping_list k) \<longleftrightarrow> t \<in> set (all_list k) \<and> asleep (status (threads k t)) (calls (threads k t))"
  shows "lists_ok k"
  using assms unfolding lists_ok_def by blast

lemma so_cur: "stacks_ok L k \<Longrightarrow> running_thread k \<in> set (all_list k) \<Longrightarrow>
    frames_ok L (held L k (running_thread k)) (intr_level k) (current_calls k)"
  by (simp add: stacks_ok_def)

lemma so_other: "stacks_ok L k \<Longrightarrow> t \<in> set (all_list k) \<Longrightarrow> t \<noteq> running_thread k \<Longrightarrow>
    calls (threads k t) = [] \<and> status (threads k t) = THREAD_BLOCKED \<and> held L k t = {} \<or>
    frames_ok L (held L k t) INTR_OFF (calls (threads k t))"
  unfolding stacks_ok_def by blast

lemma so_below: "stacks_ok L k \<Longrightarrow> t \<in> set (all_list k) \<Longrightarrow> list_all below (tl (calls (threads k t)))"
  by (simp add: stacks_ok_def)

lemma so_idle: "stacks_ok L k \<Longrightarrow> idle_stack (calls (threads k (idle_thread k)))"
  by (simp add: stacks_ok_def)

lemma stacks_okI:
  assumes "running_thread k \<in> set (all_list k) \<Longrightarrow>
      frames_ok L (held L k (running_thread k)) (intr_level k) (current_calls k)"
    "\<And>t. t \<in> set (all_list k) \<Longrightarrow> t \<noteq> running_thread k \<Longrightarrow>
      calls (threads k t) = [] \<and> status (threads k t) = THREAD_BLOCKED \<and> held L k t = {} \<or>
      frames_ok L (held L k t) INTR_OFF (calls (threads k t))"
    "\<And>t. t \<in> set (all_list k) \<Longrightarrow> list_all below (tl (calls (threads k t)))"
    "idle_stack (calls (threads k (idle_thread k)))"
  shows "stacks_ok L k"
  using assms unfolding stacks_ok_def by blast

lemma coreD: assumes "core L k" shows "lists_ok k" "stacks_ok L k" "births_ok k" "locks_ok L k" "wakeups_ok k"
  using assms by (simp_all add: core_def)

lemma below_not_waiting: "list_all below cs \<Longrightarrow> at_sema cs = None \<and> \<not> asleep st cs"
  by (cases "(st, cs)" rule: asleep.cases; cases cs rule: at_sema.cases) auto

lemma frames_ok_off_not_asleep: "frames_ok L H INTR_OFF cs \<Longrightarrow> st \<noteq> THREAD_BLOCKED \<Longrightarrow> \<not> asleep st cs"
  by (cases "(st, cs)" rule: asleep.cases) auto

text \<open>Updates that leave creation and locking alone.\<close>

lemma births_ok_upd:
  assumes B: "births_ok k" and e: "all_list k' = all_list k"
    and s: "\<And>t. t \<in> set (all_list k) \<Longrightarrow> births (calls (threads k' t)) = births (calls (threads k t))"
    and n: "\<And>t. t \<in> set (all_list k) \<Longrightarrow> calls (threads k t) = [] \<Longrightarrow> calls (threads k' t) = []"
  shows "births_ok k'"
proof -
  have m: "map (\<lambda>t. births (calls (threads k' t))) (all_list k) = map (\<lambda>t. births (calls (threads k t))) (all_list k)"
    using s by simp
  show ?thesis unfolding births_ok_def e m
  proof (intro conjI ballI)
    fix t b assume t: "t \<in> set (all_list k)" and b: "b \<in> set (births (calls (threads k' t)))"
    have b': "b \<in> set (births (calls (threads k t)))" using b s [OF t] by simp
    show "b \<in> set (all_list k)" using B t b' unfolding births_ok_def by blast
    then show "calls (threads k' b) = []" using n [of b] B t b' unfolding births_ok_def by metis
  qed (use B in \<open>simp add: births_ok_def\<close>)
qed

lemma locks_ok_upd:
  assumes K: "locks_ok L k" and e: "all_list k' = all_list k" "lock_holder k' = lock_holder k" "conds k' = conds k"
    and v: "\<And>l. l \<in> L \<Longrightarrow> sema_value (semas k' (lock_semaphore l)) = sema_value (semas k (lock_semaphore l))"
    and c: "\<And>t l. t \<in> set (all_list k) \<Longrightarrow> l \<in> L \<Longrightarrow> claims l (calls (threads k' t)) = claims l (calls (threads k t))"
    and r: "\<And>t. t \<in> set (all_list k) \<Longrightarrow> locks (threads k' t) = locks (threads k t) \<and> alive_sema (threads k' t) = alive_sema (threads k t)"
  shows "locks_ok L k'"
proof -
  have m: "map (\<lambda>t. claims l (calls (threads k' t))) (all_list k) = map (\<lambda>t. claims l (calls (threads k t))) (all_list k)"
    if "l \<in> L" for l using c that by simp
  have h: "held L k' = held L k" by (simp add: held_def e fun_eq_iff)
  show ?thesis using K unfolding locks_ok_def by (simp add: m h e v r)
qed

section \<open>Switching threads\<close>

lemma woken_cong:
  "all_list k' = all_list k \<Longrightarrow>
   (\<And>t. t \<in> set (all_list k) \<Longrightarrow> at_sema (calls (threads k t)) = Some s \<Longrightarrow>
      status (threads k t) \<noteq> THREAD_BLOCKED \<Longrightarrow> at_sema (calls (threads k' t)) = Some s \<and> status (threads k' t) \<noteq> THREAD_BLOCKED) \<Longrightarrow>
   length (woken k s) \<le> length (woken k' s)"
  unfolding woken_def by (simp add: length_filter_conv_card) (auto intro!: card_mono)

lemma idle_stack_simps:
  "idle_stack cs \<Longrightarrow> at_sema cs = None \<and> \<not> asleep st cs \<and> cs \<noteq> []"
  by (induction cs rule: idle_stack.induct) auto

lemma switch_core:
  assumes c: "core L k" and off: "intr_level k = INTR_OFF" "status (threads k (running_thread k)) \<noteq> THREAD_RUNNING"
    and nxt: "ready_list k = [] \<and> nxt = idle_thread k \<or> nxt \<in> set (ready_list k)"
  shows "core L (upd_thread nxt (\<lambda>r. r\<lparr>status := THREAD_RUNNING\<rparr>)
    (k\<lparr>ready_list := remove1 nxt (ready_list k), running_thread := nxt, thread_ticks := n\<rparr>))"
    (is "core L ?k")
proof -
  note L = coreD(1) [OF c] and S = coreD(2) [OF c] and B = coreD(3) [OF c] and K = coreD(4) [OF c] and W = coreD(5) [OF c]
  have nall: "nxt \<in> set (all_list k)" using nxt lo_idle [OF L] lo_ready [OF L, of nxt] by auto
  have idle: "nxt = idle_thread k \<Longrightarrow> at_sema (calls (threads k nxt)) = None \<and> (\<forall>st. \<not> asleep st (calls (threads k nxt))) \<and>
      calls (threads k nxt) \<noteq> []"
    using idle_stack_simps [OF so_idle [OF S]] by auto
  have rdy: "nxt \<noteq> idle_thread k \<Longrightarrow> status (threads k nxt) = THREAD_READY"
    using nxt lo_ready [OF L, of nxt] by auto
  have nf: "frames_ok L (held L k nxt) INTR_OFF (calls (threads k nxt))"
  proof (cases "nxt = running_thread k")
    case True
    then show ?thesis using so_cur [OF S] off nall by auto
  next
    case False
    then show ?thesis using so_other [OF S nall] idle rdy by (metis thread_status.distinct(7))
  qed
  have asl: "\<not> asleep THREAD_RUNNING (calls (threads k nxt))" "\<not> asleep THREAD_READY (calls (threads k nxt))"
    using frames_ok_off_not_asleep [OF nf] by auto
  have "lists_ok ?k"
  proof (rule lists_okI)
    fix t assume "t \<in> set (all_list ?k)"
    then show "is_thread ?k t \<and> status (threads ?k t) \<noteq> THREAD_DYING \<and>
       (status (threads ?k t) = THREAD_RUNNING \<longrightarrow> t = running_thread ?k)"
      using lo_thread [OF L, of t] off by (auto simp: upd_thread_def is_thread_def)
  next
    fix t show "t \<in> set (ready_list ?k) \<longleftrightarrow> t \<in> set (all_list ?k) \<and> status (threads ?k t) = THREAD_READY \<and> t \<noteq> idle_thread ?k"
      using lo_ready [OF L, of t] lo_distinct [OF L] by (auto simp: upd_thread_def)
  next
    fix s t show "t \<in> set (waiters (semas ?k s)) \<longleftrightarrow>
       t \<in> set (all_list ?k) \<and> status (threads ?k t) = THREAD_BLOCKED \<and> at_sema (calls (threads ?k t)) = Some s"
      using lo_waiters [OF L, of t s] idle rdy by (cases "nxt = idle_thread k") (auto simp: upd_thread_def)
  next
    fix t show "t \<in> set (sleeping_list ?k) \<longleftrightarrow> t \<in> set (all_list ?k) \<and> asleep (status (threads ?k t)) (calls (threads ?k t))"
      using lo_sleeping [OF L, of t] asl idle rdy by (cases "nxt = idle_thread k") (auto simp: upd_thread_def)
  qed (use lo_distinct [OF L] lo_idle [OF L] in \<open>auto simp: upd_thread_def\<close>)
  moreover have "stacks_ok L ?k"
  proof (rule stacks_okI)
    fix t assume "t \<in> set (all_list ?k)" "t \<noteq> running_thread ?k"
    then show "calls (threads ?k t) = [] \<and> status (threads ?k t) = THREAD_BLOCKED \<and> held L ?k t = {} \<or>
      frames_ok L (held L ?k t) INTR_OFF (calls (threads ?k t))"
      using so_other [OF S, of t] so_cur [OF S] off(1) by (cases "t = running_thread k") (auto simp: upd_thread_def held_def)
  qed (use nf off(1) so_idle [OF S] so_below [OF S] in \<open>auto simp: upd_thread_def held_def\<close>)
  moreover have "births_ok ?k"
    by (rule births_ok_upd [OF B]) (auto simp: upd_thread_def)
  moreover have "locks_ok L ?k"
    by (rule locks_ok_upd [OF K]) (auto simp: upd_thread_def)
  moreover have "wakeups_ok ?k"
  proof -
    have "length (woken k s) \<le> length (woken ?k s)" for s
      by (rule woken_cong) (auto simp: upd_thread_def)
    then show ?thesis using W by (auto simp: wakeups_ok_def upd_thread_def intro: le_trans)
  qed
  ultimately show ?thesis by (simp add: core_def)
qed


lemma schedule_inv:
  assumes c: "core L k" and off: "intr_level k = INTR_OFF" "status (threads k (running_thread k)) \<noteq> THREAD_RUNNING"
    and ext: "\<not> in_external_intr k"
  shows "\<exists>k'. schedule k = Some k' \<and> kernel_inv L k' \<and> all_list k' = all_list k \<and> intr_level k' = INTR_OFF"
proof -
  note L = coreD(1) [OF c]
  obtain nxt where nxt: "ready_list k = [] \<and> nxt = idle_thread k \<or> nxt \<in> set (ready_list k)"
    "next_thread_to_run k = Some (nxt, k\<lparr>ready_list := remove1 nxt (ready_list k)\<rparr>)"
  proof (cases "ready_list k = []")
    case True
    then show ?thesis using that [of "idle_thread k"] by (simp add: next_thread_to_run_def)
  next
    case False
    then obtain m where "list_highest_priority_thread k (ready_list k) = Some m"
      using highest_priority_Some by blast
    then show ?thesis using that [of m] False highest_priority_mem by (simp add: next_thread_to_run_def)
  qed
  have nall: "nxt \<in> set (all_list k)" using nxt(1) lo_idle [OF L] lo_ready [OF L, of nxt] by auto
  have thr: "is_thread k nxt" using lo_thread [OF L nall] by simp
  let ?k = "upd_thread nxt (\<lambda>r. r\<lparr>status := THREAD_RUNNING\<rparr>)
    (k\<lparr>ready_list := remove1 nxt (ready_list k), running_thread := nxt, thread_ticks := 0\<rparr>)"
  have core: "core L ?k" by (rule switch_core [OF c off nxt(1)])
  have ok: "kernel_inv L ?k" using core nall ext by (simp add: kernel_inv_def upd_thread_def)
  have base: "thread_schedule_tail prev (k\<lparr>ready_list := remove1 nxt (ready_list k), running_thread := nxt\<rparr>) =
     (if prev \<noteq> 0 \<and> status (threads ?k prev) = THREAD_DYING \<and> prev \<noteq> initial_thread k
      then if prev \<noteq> nxt then Some (palloc_free_page prev ?k) else None else Some ?k)" for prev
    using off(1) by (simp add: thread_schedule_tail_def upd_thread_def palloc_free_page_def Let_def)
  have self: "k\<lparr>ready_list := remove1 nxt (ready_list k), running_thread := nxt\<rparr> =
      k\<lparr>ready_list := remove1 nxt (ready_list k)\<rparr>" if "running_thread k = nxt"
    using that by simp
  have "schedule k = Some ?k \<or>
      schedule k = Some (palloc_free_page (running_thread k) ?k) \<and> running_thread k \<notin> set (all_list k)"
  proof (cases "running_thread k = nxt")
    case True
    then show ?thesis using base [of 0] off thr
      by (simp add: schedule_def nxt(2) Let_def is_thread_def self)
  next
    case False
    then show ?thesis using base [of "running_thread k"] off thr lo_thread [OF L, of "running_thread k"]
      by (auto simp: schedule_def nxt(2) Let_def is_thread_def upd_thread_def)
  qed
  moreover have "kernel_inv L (palloc_free_page (running_thread k) ?k)" if "running_thread k \<notin> set (all_list k)"
  proof -
    have "same_view ?k (palloc_free_page (running_thread k) ?k)"
      using that by (auto simp: same_view_def palloc_free_page_def upd_thread_def)
    then show ?thesis using core_cong [OF _ core] ok nall that
      by (auto simp: kernel_inv_def palloc_free_page_def upd_thread_def)
  qed
  moreover have "all_list ?k = all_list k" "intr_level ?k = INTR_OFF" using off by (simp_all add: upd_thread_def)
  ultimately show ?thesis using ok by (auto simp: palloc_free_page_def upd_thread_def)
qed

section \<open>Blocking, yielding, unblocking\<close>

lemma thread_current_inv: "kernel_inv L k \<Longrightarrow> thread_current k = Some (running_thread k)"
  using lo_thread by (auto simp: thread_current_def kernel_inv_def core_def)

lemma thread_block_inv:
  assumes "core L (upd_thread (running_thread k) (\<lambda>r. r\<lparr>status := THREAD_BLOCKED\<rparr>) k)" "\<not> in_external_intr k"
    "intr_level k = INTR_OFF" "status (threads k (running_thread k)) = THREAD_RUNNING"
    "running_thread k \<in> set (all_list k)"
  shows "\<exists>k'. thread_block k = Some k' \<and> kernel_inv L k' \<and> all_list k' = all_list k"
proof -
  have "is_thread k (running_thread k)"
    using lo_thread [OF coreD(1) [OF assms(1)], of "running_thread k"] assms(5) by (simp add: is_thread_def upd_thread_def)
  then show ?thesis
    using schedule_inv [OF assms(1)] assms(2-) by (auto simp: thread_block_def thread_current_def upd_thread_def)
qed

text \<open>Making the running thread ready with a call pushed that restores the interrupt level.\<close>

lemma ready_core:
  assumes c: "core L k" and run: "status (threads k (running_thread k)) = THREAD_RUNNING" "running_thread k \<in> set (all_list k)"
    and top: "list_all below (current_calls k)"
  shows "core L (upd_thread (running_thread k) (\<lambda>r. r\<lparr>status := THREAD_READY, calls := Intr_set_level (intr_level k) # calls r\<rparr>)
    (k\<lparr>intr_level := INTR_OFF,
       ready_list := (if running_thread k \<noteq> idle_thread k then ready_list k @ [running_thread k] else ready_list k)\<rparr>))"
    (is "core L ?k")
proof -
  note L = coreD(1) [OF c] and S = coreD(2) [OF c] and B = coreD(3) [OF c] and K = coreD(4) [OF c] and W = coreD(5) [OF c]
  note nowait = below_not_waiting [OF top]
  have nr: "running_thread k \<notin> set (ready_list k)" using lo_ready [OF L, of "running_thread k"] run by simp
  have nw: "running_thread k \<notin> set (waiters (semas k s))" for s using lo_waiters [OF L, of "running_thread k" s] run by simp
  have ns: "running_thread k \<notin> set (sleeping_list k)" using lo_sleeping [OF L, of "running_thread k"] run nowait by simp
  have "lists_ok ?k"
  proof (rule lists_okI)
    fix t assume "t \<in> set (all_list ?k)"
    then show "is_thread ?k t \<and> status (threads ?k t) \<noteq> THREAD_DYING \<and>
       (status (threads ?k t) = THREAD_RUNNING \<longrightarrow> t = running_thread ?k)"
      using lo_thread [OF L, of t] by (auto simp: upd_thread_def is_thread_def)
  next
    fix t show "t \<in> set (ready_list ?k) \<longleftrightarrow> t \<in> set (all_list ?k) \<and> status (threads ?k t) = THREAD_READY \<and> t \<noteq> idle_thread ?k"
      using lo_ready [OF L, of t] run by (auto simp: upd_thread_def)
  next
    fix s t show "t \<in> set (waiters (semas ?k s)) \<longleftrightarrow>
       t \<in> set (all_list ?k) \<and> status (threads ?k t) = THREAD_BLOCKED \<and> at_sema (calls (threads ?k t)) = Some s"
      using lo_waiters [OF L, of t s] nw by (auto simp: upd_thread_def)
  next
    fix t show "t \<in> set (sleeping_list ?k) \<longleftrightarrow> t \<in> set (all_list ?k) \<and> asleep (status (threads ?k t)) (calls (threads ?k t))"
      using lo_sleeping [OF L, of t] ns by (auto simp: upd_thread_def)
  qed (use lo_distinct [OF L] lo_idle [OF L] nr in \<open>auto simp: upd_thread_def\<close>)
  moreover have "stacks_ok L ?k"
  proof (rule stacks_okI)
    fix t assume "t \<in> set (all_list ?k)" "t \<noteq> running_thread ?k"
    then show "calls (threads ?k t) = [] \<and> status (threads ?k t) = THREAD_BLOCKED \<and> held L ?k t = {} \<or>
      frames_ok L (held L ?k t) INTR_OFF (calls (threads ?k t))"
      using so_other [OF S, of t] by (auto simp: upd_thread_def held_def)
  qed (use so_cur [OF S] so_idle [OF S] so_below [OF S] top in \<open>auto simp: upd_thread_def held_def\<close>)
  moreover have "births_ok ?k"
    using so_cur [OF S run(2)] by (intro births_ok_upd [OF B]) (auto simp: upd_thread_def)
  moreover have "locks_ok L ?k"
    by (rule locks_ok_upd [OF K]) (auto simp: upd_thread_def claims_def)
  moreover have "wakeups_ok ?k"
  proof -
    have "length (woken k s) \<le> length (woken ?k s)" for s
      by (rule woken_cong) (use nowait in \<open>auto simp: upd_thread_def\<close>)
    then show ?thesis using W by (auto simp: wakeups_ok_def upd_thread_def intro: le_trans)
  qed
  ultimately show ?thesis by (simp add: core_def)
qed

lemma sum_list_change:
  fixes f g :: "'a \<Rightarrow> int"
  assumes "distinct xs" "c \<in> set xs" "\<And>x. x \<in> set xs \<Longrightarrow> x \<noteq> c \<Longrightarrow> g x = f x"
  shows "(\<Sum>x\<leftarrow>xs. g x) = (\<Sum>x\<leftarrow>xs. f x) - f c + g c"
  using assms
proof (induction xs)
  case (Cons x xs)
  show ?case
  proof (cases "x = c")
    case True
    then have "map g xs = map f xs" using Cons.prems by (intro map_cong) auto
    then have "sum_list (map g xs) = sum_list (map f xs)" by (rule arg_cong)
    then show ?thesis using True by simp
  next
    case False
    then show ?thesis using Cons by simp
  qed
qed simp

lemma length_filter_change:
  assumes "distinct xs" "c \<in> set xs" "\<And>x. x \<in> set xs \<Longrightarrow> x \<noteq> c \<Longrightarrow> Q x = P x"
  shows "int (length (filter Q xs)) = int (length (filter P xs)) - of_bool (P c) + of_bool (Q c)"
proof -
  have "int (length (filter R xs)) = (\<Sum>x\<leftarrow>xs. of_bool (R x))" for R by (induction xs) auto
  then show ?thesis using sum_list_change [OF assms(1,2), of "\<lambda>x. of_bool (Q x)" "\<lambda>x. of_bool (P x)"] assms(3) by auto
qed

lemma claims_simps [simp]: "claims l [] = 0" "claims l (c # cs) = claim l c + claims l cs"
  by (simp_all add: claims_def)

lemma lock_sum: "locks_ok L k \<Longrightarrow> l \<in> L \<Longrightarrow> int (sema_value (semas k (lock_semaphore l))) +
    (\<Sum>t\<leftarrow>all_list k. claims l (calls (threads k t))) + (if lock_holder k l = 0 then 0 else 1) = 1"
  unfolding locks_ok_def by blast

text \<open>A step of the running thread on the claims of a lock and on the locks it holds.\<close>

lemma locks_ok_cur:
  assumes K: "locks_ok L k" and d: "distinct (all_list k)" and cur: "running_thread k \<in> set (all_list k)"
    and e: "all_list k' = all_list k" "lock_holder k' = lock_holder k"
    and o: "\<And>t. t \<in> set (all_list k) \<Longrightarrow> t \<noteq> running_thread k \<Longrightarrow>
         calls (threads k' t) = calls (threads k t)"
    and r: "\<And>t. t \<in> set (all_list k) \<Longrightarrow> locks (threads k' t) = locks (threads k t) \<and> alive_sema (threads k' t) = alive_sema (threads k t)"
    and v: "\<And>l. l \<in> L \<Longrightarrow> int (sema_value (semas k' (lock_semaphore l))) + claims l (calls (threads k' (running_thread k))) =
      int (sema_value (semas k (lock_semaphore l))) + claims l (current_calls k)"
    and co: "\<And>c w. w \<in> set (conds k' c) \<Longrightarrow> elem_semaphore w \<notin> lock_semas L"
  shows "locks_ok L k'"
proof -
  have sum: "(\<Sum>t\<leftarrow>all_list k. claims l (calls (threads k' t))) =
      (\<Sum>t\<leftarrow>all_list k. claims l (calls (threads k t))) - claims l (current_calls k) + claims l (calls (threads k' (running_thread k)))" for l
    using o by (intro sum_list_change [OF d cur]) simp
  have h: "held L k' = held L k" by (simp add: held_def e fun_eq_iff)
  have "int (sema_value (semas k' (lock_semaphore l))) +
        (\<Sum>t\<leftarrow>all_list k. claims l (calls (threads k' t))) + (if lock_holder k l = 0 then 0 else 1) = 1" if "l \<in> L" for l
    using lock_sum [OF K that] v [OF that] sum [of l] by linarith
  then show ?thesis using K r co unfolding locks_ok_def by (simp add: e h)
qed

text \<open>A change that the running thread makes to its own stack and to the values of semaphores.\<close>

lemma core_cur_parts:
  assumes c: "core L k" and run: "status (threads k (running_thread k)) = THREAD_RUNNING" "running_thread k \<in> set (all_list k)"
    and e: "all_list k' = all_list k" "ready_list k' = ready_list k" "lock_holder k' = lock_holder k"
      "running_thread k' = running_thread k" "idle_thread k' = idle_thread k"
    and o: "\<And>t. t \<noteq> running_thread k \<Longrightarrow> threads k' t = threads k t"
    and st: "status (threads k' (running_thread k)) = THREAD_RUNNING"
      "magic (threads k' (running_thread k)) = magic (threads k (running_thread k))"
      "locks (threads k' (running_thread k)) = locks (threads k (running_thread k))"
      "alive_sema (threads k' (running_thread k)) = alive_sema (threads k (running_thread k))"
    and w: "\<And>s. waiters (semas k' s) = waiters (semas k s)"
    and sl: "distinct (sleeping_list k')" "\<And>t. t \<in> set (sleeping_list k') \<longleftrightarrow>
      (if t = running_thread k then asleep THREAD_RUNNING (calls (threads k' t)) else t \<in> set (sleeping_list k))"
    and b: "births (calls (threads k' (running_thread k))) = births (current_calls k)"
    and f: "frames_ok L (held L k (running_thread k)) (intr_level k') (calls (threads k' (running_thread k)))"
      "list_all below (tl (calls (threads k' (running_thread k))))"
    and i: "idle_stack (current_calls k) \<Longrightarrow> running_thread k = idle_thread k \<Longrightarrow> idle_stack (calls (threads k' (running_thread k)))"
  shows "lists_ok k' \<and> stacks_ok L k' \<and> births_ok k'"
proof -
  note L = coreD(1) [OF c] and S = coreD(2) [OF c] and B = coreD(3) [OF c]
  have ne: "current_calls k \<noteq> []" using so_cur [OF S run(2)] by auto
  have h: "held L k' = held L k" by (simp add: held_def e fun_eq_iff)
  have "lists_ok k'"
  proof (rule lists_okI)
    fix t assume "t \<in> set (all_list k')"
    then show "is_thread k' t \<and> status (threads k' t) \<noteq> THREAD_DYING \<and>
       (status (threads k' t) = THREAD_RUNNING \<longrightarrow> t = running_thread k')"
      using lo_thread [OF L, of t] e st by (cases "t = running_thread k") (simp_all add: o is_thread_def)
  next
    fix t show "t \<in> set (ready_list k') \<longleftrightarrow> t \<in> set (all_list k') \<and> status (threads k' t) = THREAD_READY \<and> t \<noteq> idle_thread k'"
      using lo_ready [OF L, of t] run st e by (cases "t = running_thread k") (simp_all add: o)
  next
    fix s t show "t \<in> set (waiters (semas k' s)) \<longleftrightarrow>
       t \<in> set (all_list k') \<and> status (threads k' t) = THREAD_BLOCKED \<and> at_sema (calls (threads k' t)) = Some s"
      using lo_waiters [OF L, of t s] run st e w by (cases "t = running_thread k") (simp_all add: o)
  next
    fix t show "t \<in> set (sleeping_list k') \<longleftrightarrow> t \<in> set (all_list k') \<and> asleep (status (threads k' t)) (calls (threads k' t))"
      using lo_sleeping [OF L, of t] run st e sl(2) [of t] by (cases "t = running_thread k") (simp_all add: o)
  qed (use lo_distinct [OF L] lo_idle [OF L] e w sl(1) in simp_all)
  moreover have "stacks_ok L k'"
  proof (rule stacks_okI)
    fix t assume "t \<in> set (all_list k')" "t \<noteq> running_thread k'"
    then show "calls (threads k' t) = [] \<and> status (threads k' t) = THREAD_BLOCKED \<and> held L k' t = {} \<or>
      frames_ok L (held L k' t) INTR_OFF (calls (threads k' t))"
      using so_other [OF S, of t] by (simp add: o h e)
  next
    fix t assume "t \<in> set (all_list k')"
    then show "list_all below (tl (calls (threads k' t)))"
      using so_below [OF S, of t] f(2) by (cases "t = running_thread k") (simp_all add: o e)
  next
    show "idle_stack (calls (threads k' (idle_thread k')))"
      using i so_idle [OF S] o [of "idle_thread k"] unfolding e by metis
  qed (use f in \<open>simp add: h e\<close>)
  moreover have "births_ok k'"
  proof (rule births_ok_upd [OF B e(1)])
    fix t show "births (calls (threads k' t)) = births (calls (threads k t))"
      using b o [of t] by (cases "t = running_thread k") simp_all
    show "calls (threads k' t) = []" if "calls (threads k t) = []"
      using ne o [of t] that by (cases "t = running_thread k") simp_all
  qed
  ultimately show ?thesis by blast
qed

lemma core_cur:
  assumes c: "core L k" and run: "status (threads k (running_thread k)) = THREAD_RUNNING" "running_thread k \<in> set (all_list k)"
    and e: "all_list k' = all_list k" "ready_list k' = ready_list k" "lock_holder k' = lock_holder k"
      "running_thread k' = running_thread k" "idle_thread k' = idle_thread k"
    and o: "\<And>t. t \<noteq> running_thread k \<Longrightarrow> threads k' t = threads k t"
    and st: "status (threads k' (running_thread k)) = THREAD_RUNNING"
      "magic (threads k' (running_thread k)) = magic (threads k (running_thread k))"
      "locks (threads k' (running_thread k)) = locks (threads k (running_thread k))"
      "alive_sema (threads k' (running_thread k)) = alive_sema (threads k (running_thread k))"
    and w: "\<And>s. waiters (semas k' s) = waiters (semas k s)"
    and sl: "distinct (sleeping_list k')" "\<And>t. t \<in> set (sleeping_list k') \<longleftrightarrow>
      (if t = running_thread k then asleep THREAD_RUNNING (calls (threads k' t)) else t \<in> set (sleeping_list k))"
    and b: "births (calls (threads k' (running_thread k))) = births (current_calls k)"
    and v: "\<And>l. l \<in> L \<Longrightarrow> int (sema_value (semas k' (lock_semaphore l))) + claims l (calls (threads k' (running_thread k))) =
      int (sema_value (semas k (lock_semaphore l))) + claims l (current_calls k)"
    and co: "\<And>c w. w \<in> set (conds k' c) \<Longrightarrow> elem_semaphore w \<notin> lock_semas L"
    and f: "frames_ok L (held L k (running_thread k)) (intr_level k') (calls (threads k' (running_thread k)))"
      "list_all below (tl (calls (threads k' (running_thread k))))"
    and i: "idle_stack (current_calls k) \<Longrightarrow> running_thread k = idle_thread k \<Longrightarrow> idle_stack (calls (threads k' (running_thread k)))"
    and W: "wakeups_ok k'"
  shows "core L k'"
proof -
  have "lists_ok k' \<and> stacks_ok L k' \<and> births_ok k'"
    by (rule core_cur_parts [OF c run e o st w sl b f i])
  moreover have "locks_ok L k'"
  proof (rule locks_ok_cur [OF coreD(4) [OF c] _ run(2) e(1,3) _ _ v co])
    fix t show "locks (threads k' t) = locks (threads k t) \<and> alive_sema (threads k' t) = alive_sema (threads k t)"
      using st o [of t] by (cases "t = running_thread k") simp_all
  qed (use lo_distinct [OF coreD(1) [OF c]] o in simp_all)
  ultimately show ?thesis using W by (simp add: core_def)
qed

text \<open>Replacing the stack of the running thread.\<close>

lemma calls_parts:
  assumes c: "core L k" and run: "status (threads k (running_thread k)) = THREAD_RUNNING" "running_thread k \<in> set (all_list k)"
    and top: "at_sema (current_calls k) = None" "asleep THREAD_RUNNING cs = asleep THREAD_RUNNING (current_calls k)"
    and b: "births cs = births (current_calls k)"
    and f: "frames_ok L (held L k (running_thread k)) v cs" "list_all below (tl cs)"
    and i: "idle_stack (current_calls k) \<Longrightarrow> running_thread k = idle_thread k \<Longrightarrow> idle_stack cs"
    and k': "k' = upd_thread (running_thread k) (\<lambda>r. r\<lparr>calls := cs\<rparr>) (k\<lparr>intr_level := v\<rparr>)"
  shows "lists_ok k'" "stacks_ok L k'" "births_ok k'" "wakeups_ok k'"
proof -
  have "lists_ok k' \<and> stacks_ok L k' \<and> births_ok k'"
  proof (rule core_cur_parts [OF c run])
    show "distinct (sleeping_list k')" using lo_distinct [OF coreD(1) [OF c]] by (simp add: k' upd_thread_def)
    fix t show "t \<in> set (sleeping_list k') \<longleftrightarrow>
        (if t = running_thread k then asleep THREAD_RUNNING (calls (threads k' t)) else t \<in> set (sleeping_list k))"
      using lo_sleeping [OF coreD(1) [OF c], of t] run top by (simp add: k' upd_thread_def)
  qed (use run f i b in \<open>auto simp: k' upd_thread_def\<close>)
  then show "lists_ok k'" "stacks_ok L k'" "births_ok k'" by blast+
  have "length (woken k s) \<le> length (woken k' s)" for s
    by (rule woken_cong) (use top in \<open>auto simp: k' upd_thread_def\<close>)
  then show "wakeups_ok k'" using coreD(5) [OF c] by (auto simp: wakeups_ok_def k' upd_thread_def intro: le_trans)
qed

lemma calls_core:
  assumes c: "core L k" and run: "status (threads k (running_thread k)) = THREAD_RUNNING" "running_thread k \<in> set (all_list k)"
    and top: "at_sema (current_calls k) = None" "asleep THREAD_RUNNING cs = asleep THREAD_RUNNING (current_calls k)"
    and b: "births cs = births (current_calls k)" and cl: "\<And>l. l \<in> L \<Longrightarrow> claims l cs = claims l (current_calls k)"
    and f: "frames_ok L (held L k (running_thread k)) v cs" "list_all below (tl cs)"
    and i: "idle_stack (current_calls k) \<Longrightarrow> running_thread k = idle_thread k \<Longrightarrow> idle_stack cs"
  shows "core L (upd_thread (running_thread k) (\<lambda>r. r\<lparr>calls := cs\<rparr>) (k\<lparr>intr_level := v\<rparr>))" (is "core L ?k")
proof -
  have "locks_ok L ?k"
    by (rule locks_ok_upd [OF coreD(4) [OF c]]) (use cl in \<open>auto simp: upd_thread_def\<close>)
  then show ?thesis using calls_parts [OF c run top b f i refl] by (simp add: core_def)
qed

lemma push_level_core:
  assumes "core L k" "status (threads k (running_thread k)) = THREAD_RUNNING" "running_thread k \<in> set (all_list k)"
    "list_all below (current_calls k)"
  shows "core L (push_calls [Intr_set_level (intr_level k)] (k\<lparr>intr_level := INTR_OFF\<rparr>))"
proof -
  have "core L (upd_thread (running_thread k) (\<lambda>r. r\<lparr>calls := Intr_set_level (intr_level k) # current_calls k\<rparr>)
      (k\<lparr>intr_level := INTR_OFF\<rparr>))"
    using assms so_cur [OF coreD(2) [OF assms(1)]] below_not_waiting [OF assms(4)]
    by (intro calls_core) (auto simp: claims_def)
  then show ?thesis by (simp add: push_calls_def upd_thread_def)
qed

lemma thread_yield_inv:
  assumes inv: "kernel_inv L k" and top: "list_all below (current_calls k)"
  shows "\<exists>k'. thread_yield k = Some k' \<and> kernel_inv L k' \<and> all_list k' = all_list k"
proof -
  let ?t = "running_thread k"
  let ?k = "upd_thread ?t (\<lambda>r. r\<lparr>status := THREAD_READY, calls := Intr_set_level (intr_level k) # calls r\<rparr>)
    (k\<lparr>intr_level := INTR_OFF, ready_list := (if ?t \<noteq> idle_thread k then ready_list k @ [?t] else ready_list k)\<rparr>)"
  have "core L ?k" using ready_core [of L k] inv top by (simp add: kernel_inv_def)
  moreover have "thread_yield k = schedule ?k"
    using thread_current_inv [OF inv] inv
    by (simp add: thread_yield_def kernel_inv_def intr_disable_def push_calls_def upd_thread_def Let_def)
  ultimately show ?thesis using schedule_inv [of L ?k] inv by (auto simp: upd_thread_def kernel_inv_def)
qed

text \<open>
  \<^verbatim>\<open>thread_unblock\<close> is given a blocked thread that is on no list any more.
\<close>

lemma thread_unblock_inv:
  assumes c: "core L (upd_thread t (\<lambda>r. r\<lparr>status := THREAD_READY\<rparr>) (k\<lparr>ready_list := ready_list k @ [t]\<rparr>))" (is "core L ?k")
    and run: "status (threads k (running_thread k)) = THREAD_RUNNING" "running_thread k \<in> set (all_list k)"
    and t: "t \<in> set (all_list k)" "status (threads k t) = THREAD_BLOCKED"
    and top: "list_all below (current_calls k)"
    and ext: "in_external_intr k \<Longrightarrow> intr_level k = INTR_OFF"
  shows "\<exists>k'. thread_unblock t k = Some k' \<and> all_list k' = all_list k \<and>
    (\<not> in_external_intr k \<longrightarrow> kernel_inv L k') \<and>
    (in_external_intr k \<longrightarrow> (\<exists>y. k' = ?k\<lparr>yield_on_return := y\<rparr>))"
proof -
  have ne: "t \<noteq> running_thread k" using run t by auto
  have thr: "is_thread k t" "is_thread k (running_thread k)"
    using lo_thread [OF coreD(1) [OF c], of t] lo_thread [OF coreD(1) [OF c], of "running_thread k"] t run(2) ne
    by (auto simp: is_thread_def upd_thread_def)
  let ?k1 = "intr_disable ?k"
  have cur: "thread_current ?k1 = Some (running_thread k)"
    using thr run ne by (simp add: thread_current_def is_thread_def upd_thread_def intr_disable_def)
  have k1: "upd_thread t (\<lambda>r. r\<lparr>status := THREAD_READY\<rparr>) ((intr_disable k)\<lparr>ready_list := ready_list (intr_disable k) @ [t]\<rparr>) = ?k1"
    by (simp add: upd_thread_def intr_disable_def)
  have unf: "thread_unblock t k =
     (if given_thread_get_priority ?k1 t > given_thread_get_priority ?k1 (running_thread k) then
        if in_external_intr k then do { k \<leftarrow> intr_yield_on_return ?k1; intr_set_level (intr_level k) k }
        else thread_yield (push_calls [Intr_set_level (intr_level k)] ?k1)
      else intr_set_level (intr_level k) ?k1)"
    using thr t cur ext unfolding thread_unblock_def
    by (simp add: Let_def k1 thread_get_priority_def)
       (simp add: is_thread_def intr_disable_def upd_thread_def intr_yield_on_return_def intr_set_level_def)
  have same: "?k\<lparr>intr_level := intr_level k\<rparr> = ?k" by (simp add: upd_thread_def)
  show ?thesis
  proof (cases "in_external_intr k")
    case True
    have A: "intr_set_level (intr_level k) ?k1 = Some ?k"
      using ext True by (simp add: intr_set_level_def intr_disable_def upd_thread_def)
    have B: "(intr_yield_on_return ?k1 \<bind> (\<lambda>k. intr_set_level (intr_level k) k)) = Some (?k\<lparr>yield_on_return := True\<rparr>)"
      using ext True by (simp add: intr_set_level_def intr_disable_def intr_yield_on_return_def upd_thread_def)
    have "thread_unblock t k = Some ?k \<or> thread_unblock t k = Some (?k\<lparr>yield_on_return := True\<rparr>)"
      unfolding unf A B using True by (simp only: if_True) (simp split: if_split)
    moreover have "?k = ?k\<lparr>yield_on_return := yield_on_return k\<rparr>" by (simp add: upd_thread_def)
    moreover have "all_list (?k\<lparr>yield_on_return := y\<rparr>) = all_list k" for y by (simp add: upd_thread_def)
    ultimately show ?thesis using True by metis
  next
    case False
    have inv: "kernel_inv L ?k" using c run False ne by (auto simp: kernel_inv_def upd_thread_def)
    have stay: "intr_set_level (intr_level k) ?k1 = Some ?k"
      using False by (cases "intr_level k") (simp_all add: intr_set_level_def intr_enable_def intr_disable_def upd_thread_def)
    let ?k2 = "push_calls [Intr_set_level (intr_level k)] ?k1"
    have "core L ?k2" using push_level_core [OF c] run top ne by (simp add: intr_disable_def upd_thread_def)
    then have "kernel_inv L ?k2" using run False ne by (auto simp: kernel_inv_def push_calls_def upd_thread_def intr_disable_def)
    moreover have "list_all below (current_calls ?k2)"
      using top ne by (simp add: push_calls_def upd_thread_def intr_disable_def)
    moreover have "all_list ?k2 = all_list k" by (simp add: push_calls_def upd_thread_def intr_disable_def)
    ultimately have "\<exists>k'. thread_yield ?k2 = Some k' \<and> kernel_inv L k' \<and> all_list k' = all_list k"
      using thread_yield_inv by metis
    moreover have "all_list ?k = all_list k" by (simp add: upd_thread_def)
    ultimately show ?thesis using stay inv False unfolding unf by auto
  qed
qed

end
