(* ===== verification/Kernel_Inv.thy ===== *)
theory Kernel_Inv
  imports Kernel_Steps
begin

text \<open>
  Every step of the kernel keeps the invariant of theory \<^verbatim>\<open>Kernel_Steps\<close>, and no assertion of
  \<^verbatim>\<open>thread.c\<close>, \<^verbatim>\<open>synch.c\<close> and \<^verbatim>\<open>timer.c\<close> fails in a run in which threads respect the
  preconditions of the functions they call. Mutual exclusion and the absence of lost
  wake-ups follow.
\<close>

section \<open>Semaphores\<close>

lemma kernel_invD:
  assumes "kernel_inv L k"
  shows "core L k" "status (threads k (running_thread k)) = THREAD_RUNNING" "running_thread k \<in> set (all_list k)"
    "\<not> in_external_intr k" "frames_ok L (held L k (running_thread k)) (intr_level k) (current_calls k)"
    "list_all below (tl (current_calls k))"
  using assms so_cur so_below by (auto simp: kernel_inv_def core_def)

lemma woken_cur:
  assumes "kernel_inv L k" "all_list k' = all_list k" "\<And>t. t \<noteq> running_thread k \<Longrightarrow> threads k' t = threads k t"
    "status (threads k' (running_thread k)) = THREAD_RUNNING"
  shows "int (length (woken k' s)) = int (length (woken k s)) - of_bool (at_sema (current_calls k) = Some s) +
     of_bool (at_sema (calls (threads k' (running_thread k))) = Some s)"
proof -
  note i = kernel_invD [OF assms(1)]
  have "distinct (all_list k)" using lo_distinct [OF coreD(1) [OF i(1)]] by blast
  from length_filter_change [OF this i(3), of
      "\<lambda>t. status (threads k' t) \<noteq> THREAD_BLOCKED \<and> at_sema (calls (threads k' t)) = Some s"
      "\<lambda>t. status (threads k t) \<noteq> THREAD_BLOCKED \<and> at_sema (calls (threads k t)) = Some s"]
  show ?thesis using assms(2-4) i(2) by (simp add: woken_def)
qed

lemma running_not_idle: "kernel_inv L k \<Longrightarrow> \<not> idle_stack (current_calls k) \<Longrightarrow> running_thread k \<noteq> idle_thread k"
  using so_idle by (metis coreD(2) kernel_invD(1))

lemma conds_not_locks: "core L k \<Longrightarrow> w \<in> set (conds k c) \<Longrightarrow> elem_semaphore w \<notin> lock_semas L"
  by (auto simp: core_def locks_ok_def)

lemma sleeping_cur:
  "kernel_inv L k \<Longrightarrow> t \<in> set (sleeping_list k) \<longleftrightarrow>
    (if t = running_thread k then asleep THREAD_RUNNING (current_calls k) else t \<in> set (sleeping_list k))"
  using kernel_invD [of L k] lo_sleeping [OF coreD(1)] by metis

lemma sema_down_take:
  assumes inv: "kernel_inv L k" and cs: "current_calls k = Sema_down_loop s v # cs" and pos: "sema_value (semas k s) \<noteq> 0"
  shows "kernel_inv L (upd_thread (running_thread k) (\<lambda>r. r\<lparr>calls := cs\<rparr>)
    (upd_sema s (\<lambda>r. r\<lparr>sema_value := sema_value r - 1\<rparr>) (k\<lparr>intr_level := v\<rparr>)))" (is "kernel_inv L ?k")
proof -
  note i = kernel_invD [OF inv]
  have bl: "list_all below cs" using i(6) cs by simp
  note nw = below_not_waiting [OF bl]
  have wk: "int (length (woken ?k s')) = int (length (woken k s')) - of_bool (s = s')" for s'
    using woken_cur [OF inv, of ?k s'] i(2) cs nw by (auto simp: upd_thread_def upd_sema_def)
  have W: "wakeups_ok ?k" unfolding wakeups_ok_def
  proof (intro allI impI)
    fix s' assume ne: "waiters (semas ?k s') \<noteq> []"
    have "sema_value (semas k s') \<le> length (woken k s')"
      using coreD(5) [OF i(1)] ne by (auto simp: wakeups_ok_def upd_thread_def upd_sema_def split: if_splits)
    then show "sema_value (semas ?k s') \<le> length (woken ?k s')"
      using wk [of s'] pos by (cases "s = s'") (auto simp: upd_thread_def upd_sema_def)
  qed
  have "core L ?k"
  proof (rule core_cur [OF i(1-3) _ _ _ _ _ _ _ _ _ _ _ _ _ _ _ _ _ _ _ W])
    show "distinct (sleeping_list ?k)" using lo_distinct [OF coreD(1) [OF i(1)]] by (simp add: upd_thread_def upd_sema_def)
    fix t show "t \<in> set (sleeping_list ?k) \<longleftrightarrow>
      (if t = running_thread k then asleep THREAD_RUNNING (calls (threads ?k t)) else t \<in> set (sleeping_list k))"
      using sleeping_cur [OF inv, of t] nw cs by (simp add: upd_thread_def upd_sema_def split: if_splits)
  next
    fix c w assume "w \<in> set (conds ?k c)"
    then show "elem_semaphore w \<notin> lock_semas L" using conds_not_locks [OF i(1)] by (simp add: upd_thread_def upd_sema_def)
  next
    fix l assume "l \<in> L"
    show "int (sema_value (semas ?k (lock_semaphore l))) + claims l (calls (threads ?k (running_thread k))) =
      int (sema_value (semas k (lock_semaphore l))) + claims l (current_calls k)"
      using cs pos by (auto simp: upd_thread_def upd_sema_def)
  next
    have cs2: "list_all below (tl cs)" using bl by (cases cs) auto
    show "list_all below (tl (calls (threads ?k (running_thread k))))" using cs2 by (simp add: upd_thread_def upd_sema_def)
  qed (use cs i in \<open>auto simp: upd_thread_def upd_sema_def\<close>)
  then show ?thesis using i by (simp add: kernel_inv_def upd_thread_def upd_sema_def)
qed

lemma sema_down_wait:
  assumes inv: "kernel_inv L k" and cs: "current_calls k = Sema_down_loop s v # cs" and zero: "sema_value (semas k s) = 0"
  shows "core L (upd_thread (running_thread k) (\<lambda>r. r\<lparr>status := THREAD_BLOCKED\<rparr>)
    (upd_sema s (\<lambda>r. r\<lparr>waiters := waiters r @ [running_thread k]\<rparr>) k))" (is "core L ?k")
proof -
  note i = kernel_invD [OF inv]
  note L = coreD(1) [OF i(1)] and S = coreD(2) [OF i(1)] and B = coreD(3) [OF i(1)] and K = coreD(4) [OF i(1)] and W = coreD(5) [OF i(1)]
  have nid: "running_thread k \<noteq> idle_thread k" using running_not_idle [OF inv] cs by simp
  have nw: "running_thread k \<notin> set (waiters (semas k s'))" for s' using lo_waiters [OF L, of "running_thread k" s'] i(2) by simp
  have "lists_ok ?k"
  proof (rule lists_okI)
    fix t assume "t \<in> set (all_list ?k)"
    then show "is_thread ?k t \<and> status (threads ?k t) \<noteq> THREAD_DYING \<and>
       (status (threads ?k t) = THREAD_RUNNING \<longrightarrow> t = running_thread ?k)"
      using lo_thread [OF L, of t] by (cases "t = running_thread k") (simp_all add: upd_thread_def upd_sema_def is_thread_def)
  next
    fix t show "t \<in> set (ready_list ?k) \<longleftrightarrow> t \<in> set (all_list ?k) \<and> status (threads ?k t) = THREAD_READY \<and> t \<noteq> idle_thread ?k"
      using lo_ready [OF L, of t] i(2) by (auto simp: upd_thread_def upd_sema_def)
  next
    fix s' t show "t \<in> set (waiters (semas ?k s')) \<longleftrightarrow>
       t \<in> set (all_list ?k) \<and> status (threads ?k t) = THREAD_BLOCKED \<and> at_sema (calls (threads ?k t)) = Some s'"
      using lo_waiters [OF L, of t s'] cs i(2,3) by (cases "t = running_thread k") (auto simp: upd_thread_def upd_sema_def)
  next
    fix t show "t \<in> set (sleeping_list ?k) \<longleftrightarrow> t \<in> set (all_list ?k) \<and> asleep (status (threads ?k t)) (calls (threads ?k t))"
      using lo_sleeping [OF L, of t] cs by (auto simp: upd_thread_def upd_sema_def)
  next
    fix s' show "distinct (waiters (semas ?k s'))" using lo_distinct [OF L] nw by (simp add: upd_thread_def upd_sema_def)
  qed (use lo_distinct [OF L] lo_idle [OF L] in \<open>auto simp: upd_thread_def upd_sema_def\<close>)
  moreover have "stacks_ok L ?k"
  proof (rule stacks_okI)
    fix t assume "t \<in> set (all_list ?k)" "t \<noteq> running_thread ?k"
    then show "calls (threads ?k t) = [] \<and> status (threads ?k t) = THREAD_BLOCKED \<and> held L ?k t = {} \<or>
      frames_ok L (held L ?k t) INTR_OFF (calls (threads ?k t))"
      using so_other [OF S, of t] by (auto simp: upd_thread_def upd_sema_def held_def)
  qed (use so_cur [OF S] so_below [OF S] so_idle [OF S] in \<open>auto simp: upd_thread_def upd_sema_def held_def\<close>)
  moreover have "births_ok ?k" by (rule births_ok_upd [OF B]) (auto simp: upd_thread_def upd_sema_def)
  moreover have "locks_ok L ?k" by (rule locks_ok_upd [OF K]) (auto simp: upd_thread_def upd_sema_def)
  moreover have "wakeups_ok ?k" unfolding wakeups_ok_def
  proof (intro allI impI)
    fix s' assume ne: "waiters (semas ?k s') \<noteq> []"
    show "sema_value (semas ?k s') \<le> length (woken ?k s')"
    proof (cases "s' = s")
      case False
      have "length (woken k s') \<le> length (woken ?k s')"
        by (rule woken_cong) (use cs False in \<open>auto simp: upd_thread_def upd_sema_def\<close>)
      moreover have "sema_value (semas k s') \<le> length (woken k s')"
        using W ne False by (auto simp: wakeups_ok_def upd_thread_def upd_sema_def)
      ultimately show ?thesis using False by (simp add: upd_thread_def upd_sema_def)
    qed (use zero in \<open>simp add: upd_thread_def upd_sema_def\<close>)
  qed
  ultimately show ?thesis by (simp add: core_def)
qed

text \<open>The loop of \<^verbatim>\<open>sema_down\<close>, entered or resumed.\<close>

lemma sema_down_loop_inv:
  assumes inv: "kernel_inv L k" and cs: "current_calls k = Sema_down_loop s v # cs"
  shows "\<exists>k'. sema_down_loop s v (pop_call k) = Some k' \<and> kernel_inv L k' \<and> all_list k' = all_list k"
proof -
  note i = kernel_invD [OF inv]
  have off: "intr_level k = INTR_OFF" using i(5) cs by simp
  have pv: "semas (pop_call k) = semas k" "running_thread (pop_call k) = running_thread k" "in_external_intr (pop_call k) = in_external_intr k"
    by (simp_all add: pop_call_def upd_thread_def)
  show ?thesis
  proof (cases "sema_value (semas k s) = 0")
    case True
    let ?k = "upd_sema s (\<lambda>r. r\<lparr>waiters := waiters r @ [running_thread k]\<rparr>) k"
    have "thread_current (pop_call k) = Some (running_thread k)"
      using thread_current_inv [OF inv] by (auto simp: thread_current_def is_thread_def pop_call_def upd_thread_def ASSERT_def split: if_splits)
    moreover have "push_calls [Sema_down_loop s v] (upd_sema s (\<lambda>r. r\<lparr>waiters := waiters r @ [running_thread k]\<rparr>) (pop_call k)) = ?k"
      using cs by (auto simp: push_calls_def upd_thread_def upd_sema_def pop_call_def fun_eq_iff intro!: kernel.equality)
    ultimately have "sema_down_loop s v (pop_call k) = thread_block ?k"
      using True pv by (simp add: sema_down_loop_def Let_def)
    moreover have "core L (upd_thread (running_thread ?k) (\<lambda>r. r\<lparr>status := THREAD_BLOCKED\<rparr>) ?k)"
      using sema_down_wait [OF inv cs True] by (simp add: upd_sema_def)
    ultimately show ?thesis
      using thread_block_inv [of L ?k] i off by (auto simp: upd_sema_def)
  next
    case False
    let ?k = "upd_thread (running_thread k) (\<lambda>r. r\<lparr>calls := cs\<rparr>)
      (upd_sema s (\<lambda>r. r\<lparr>sema_value := sema_value r - 1\<rparr>) (k\<lparr>intr_level := v\<rparr>))"
    have "sema_down_loop s v (pop_call k) = Some ?k"
      using False cs i(4) by (cases v) (simp_all add: sema_down_loop_def pop_call_def upd_thread_def upd_sema_def
        intr_set_level_def intr_enable_def intr_disable_def)
    then show ?thesis using sema_down_take [OF inv cs False] by (simp add: upd_thread_def upd_sema_def)
  qed
qed

text \<open>Entering the loop of \<^verbatim>\<open>sema_down\<close>.\<close>

lemma sema_down_inv:
  assumes inv: "kernel_inv L k0" and k: "k = upd_thread (running_thread k0) (\<lambda>r. r\<lparr>calls := cs\<rparr>) k0"
    and top: "at_sema (current_calls k0) = None" "\<not> asleep THREAD_RUNNING (current_calls k0)" "list_all below cs"
    and b: "births cs = births (current_calls k0)"
    and cl: "\<And>l. l \<in> L \<Longrightarrow> claims l cs - of_bool (s = lock_semaphore l) = claims l (current_calls k0)"
    and f: "frames_ok L (held L k0 (running_thread k0)) INTR_OFF (Sema_down_loop s (intr_level k0) # cs)"
    and idle: "\<not> idle_stack (current_calls k0)"
  shows "\<exists>k'. sema_down s k = Some k' \<and> kernel_inv L k' \<and> all_list k' = all_list k0"
proof -
  note i = kernel_invD [OF inv]
  let ?k = "upd_thread (running_thread k0) (\<lambda>r. r\<lparr>calls := Sema_down_loop s (intr_level k0) # cs\<rparr>) (k0\<lparr>intr_level := INTR_OFF\<rparr>)"
  have cl': "claims l (Sema_down_loop s (intr_level k0) # cs) = claims l (current_calls k0)" if "l \<in> L" for l
    using cl [OF that] by (auto split: if_splits)
  have "core L ?k" by (rule calls_core [OF i(1-3) _ _ _ cl' f]) (use top b idle in auto)
  then have inv': "kernel_inv L ?k" using i by (simp add: kernel_inv_def upd_thread_def)
  have cs: "current_calls ?k = Sema_down_loop s (intr_level k0) # cs" by (simp add: upd_thread_def)
  have "pop_call ?k = intr_disable k"
    by (simp add: k pop_call_def upd_thread_def intr_disable_def)
  moreover have "s \<noteq> 0" using f by simp
  moreover have "intr_level k = intr_level k0" "in_external_intr k = in_external_intr k0" by (simp_all add: k upd_thread_def)
  ultimately have "sema_down s k = sema_down_loop s (intr_level k0) (pop_call ?k)"
    using i(4) by (simp add: sema_down_def)
  moreover have "all_list ?k = all_list k0" by (simp add: upd_thread_def)
  ultimately show ?thesis using sema_down_loop_inv [OF inv' cs] by metis
qed

lemma unblock_waiter_core:
  assumes L: "lists_ok k" and S: "stacks_ok L k" and B: "births_ok k" and W: "wakeups_ok k"
    and K: "locks_ok L (upd_sema s (\<lambda>r. r\<lparr>sema_value := u32 (sema_value r + 1)\<rparr>) k)"
    and run: "status (threads k (running_thread k)) = THREAD_RUNNING"
    and t: "t \<in> set (waiters (semas k s))"
  shows "core L (upd_thread t (\<lambda>r. r\<lparr>status := THREAD_READY\<rparr>)
    (upd_sema s (\<lambda>r. r\<lparr>sema_value := u32 (sema_value r + 1), waiters := remove1 t (waiters r)\<rparr>)
      (k\<lparr>ready_list := ready_list k @ [t]\<rparr>)))" (is "core L ?k")
proof -
  have tw: "t \<in> set (all_list k)" "status (threads k t) = THREAD_BLOCKED" "at_sema (calls (threads k t)) = Some s"
    using t lo_waiters [OF L, of t s] by auto
  have ne: "t \<noteq> running_thread k" using run tw by auto
  have nid: "t \<noteq> idle_thread k" using idle_stack_simps [OF so_idle [OF S]] tw by auto
  have nr: "t \<notin> set (ready_list k)" using lo_ready [OF L, of t] tw by simp
  have asl: "\<not> asleep st (calls (threads k t))" for st
    using tw(3) by (cases "calls (threads k t)" rule: at_sema.cases) auto
  have "lists_ok ?k"
  proof (rule lists_okI)
    fix u assume "u \<in> set (all_list ?k)"
    then show "is_thread ?k u \<and> status (threads ?k u) \<noteq> THREAD_DYING \<and>
       (status (threads ?k u) = THREAD_RUNNING \<longrightarrow> u = running_thread ?k)"
      using lo_thread [OF L, of u] by (cases "u = t") (simp_all add: upd_thread_def upd_sema_def is_thread_def)
  next
    fix u show "u \<in> set (ready_list ?k) \<longleftrightarrow> u \<in> set (all_list ?k) \<and> status (threads ?k u) = THREAD_READY \<and> u \<noteq> idle_thread ?k"
      using lo_ready [OF L, of u] tw nid by (auto simp: upd_thread_def upd_sema_def)
  next
    fix s' u show "u \<in> set (waiters (semas ?k s')) \<longleftrightarrow>
       u \<in> set (all_list ?k) \<and> status (threads ?k u) = THREAD_BLOCKED \<and> at_sema (calls (threads ?k u)) = Some s'"
      using lo_waiters [OF L, of u s'] lo_distinct [OF L, of s] tw
      by (cases "u = t") (auto simp: upd_thread_def upd_sema_def)
  next
    fix u show "u \<in> set (sleeping_list ?k) \<longleftrightarrow> u \<in> set (all_list ?k) \<and> asleep (status (threads ?k u)) (calls (threads ?k u))"
      using lo_sleeping [OF L, of u] asl by (auto simp: upd_thread_def upd_sema_def)
  next
    fix s' show "distinct (waiters (semas ?k s'))" using lo_distinct [OF L] by (simp add: upd_thread_def upd_sema_def)
  qed (use lo_distinct [OF L] lo_idle [OF L] nr in \<open>auto simp: upd_thread_def upd_sema_def\<close>)
  moreover have "stacks_ok L ?k"
  proof (rule stacks_okI)
    fix u assume "u \<in> set (all_list ?k)" "u \<noteq> running_thread ?k"
    then show "calls (threads ?k u) = [] \<and> status (threads ?k u) = THREAD_BLOCKED \<and> held L ?k u = {} \<or>
      frames_ok L (held L ?k u) INTR_OFF (calls (threads ?k u))"
      using so_other [OF S, of u] tw by (auto simp: upd_thread_def upd_sema_def held_def)
  qed (use so_cur [OF S] so_below [OF S] so_idle [OF S] ne in \<open>auto simp: upd_thread_def upd_sema_def held_def\<close>)
  moreover have "births_ok ?k" by (rule births_ok_upd [OF B]) (auto simp: upd_thread_def upd_sema_def)
  moreover have "locks_ok L ?k" by (rule locks_ok_upd [OF K]) (auto simp: upd_thread_def upd_sema_def)
  moreover have "wakeups_ok ?k" unfolding wakeups_ok_def
  proof (intro allI impI)
    fix s' assume nw: "waiters (semas ?k s') \<noteq> []"
    have "waiters (semas k s') \<noteq> []" using nw by (auto simp: upd_thread_def upd_sema_def split: if_splits)
    then have old: "sema_value (semas k s') \<le> length (woken k s')" using W by (simp add: wakeups_ok_def)
    have d: "distinct (all_list k)" using lo_distinct [OF L] by blast
    have "int (length (woken ?k s')) = int (length (woken k s')) + of_bool (s' = s)"
      using length_filter_change [OF d tw(1), of
          "\<lambda>u. status (threads ?k u) \<noteq> THREAD_BLOCKED \<and> at_sema (calls (threads ?k u)) = Some s'"
          "\<lambda>u. status (threads k u) \<noteq> THREAD_BLOCKED \<and> at_sema (calls (threads k u)) = Some s'"] tw
      by (auto simp: woken_def upd_thread_def upd_sema_def)
    then have wk: "length (woken ?k s') = length (woken k s') + of_bool (s' = s)"
      by (cases "s' = s") simp_all
    have "u32 (sema_value (semas k s) + 1) \<le> sema_value (semas k s) + 1" by (simp add: u32_def)
    then show "sema_value (semas ?k s') \<le> length (woken ?k s')"
      using wk old by (cases "s' = s") (auto simp: upd_thread_def upd_sema_def)
  qed
  ultimately show ?thesis by (simp add: core_def)
qed

lemma sema_up_inv:
  assumes L: "lists_ok k" and S: "stacks_ok L k" and B: "births_ok k" and W: "wakeups_ok k"
    and K: "locks_ok L (upd_sema s (\<lambda>r. r\<lparr>sema_value := u32 (sema_value r + 1)\<rparr>) k)" (is "locks_ok L ?k1")
    and run: "status (threads k (running_thread k)) = THREAD_RUNNING" "running_thread k \<in> set (all_list k)"
    and ext: "\<not> in_external_intr k" and top: "list_all below (current_calls k)" and s: "s \<noteq> 0"
  shows "\<exists>k'. sema_up s k = Some k' \<and> kernel_inv L k' \<and> all_list k' = all_list k"
proof (cases "waiters (semas k s) = []")
  case True
  have "lists_ok ?k1" using L unfolding lists_ok_def upd_sema_def is_thread_def by simp
  moreover have "stacks_ok L ?k1" using S unfolding stacks_ok_def upd_sema_def by (simp add: held_def)
  moreover have "births_ok ?k1" by (rule births_ok_upd [OF B]) (simp_all add: upd_sema_def)
  moreover have "wakeups_ok ?k1" using W True unfolding wakeups_ok_def upd_sema_def by (simp add: woken_def)
  ultimately have "kernel_inv L ?k1" using K run ext by (simp add: kernel_inv_def core_def upd_sema_def)
  moreover have "sema_up s k = Some ?k1"
    using True s ext by (cases "intr_level k")
      (simp_all add: sema_up_def Let_def upd_sema_def intr_disable_def intr_set_level_def intr_enable_def)
  ultimately show ?thesis by (simp add: upd_sema_def)
next
  case False
  let ?kd = "upd_sema s (\<lambda>r. r\<lparr>sema_value := u32 (sema_value r + 1)\<rparr>) (intr_disable k)"
  obtain t where t: "list_highest_priority_thread ?kd (waiters (semas k s)) = Some t"
    using highest_priority_Some [OF False] by blast
  then have tw: "t \<in> set (waiters (semas k s))" by (rule highest_priority_mem)
  then have ta: "t \<in> set (all_list k)" "status (threads k t) = THREAD_BLOCKED" using lo_waiters [OF L, of t s] by auto
  then have ne: "t \<noteq> running_thread k" using run by auto
  let ?k2 = "push_calls [Intr_set_level (intr_level k)] (upd_sema s (\<lambda>r. r\<lparr>waiters := remove1 t (waiters r)\<rparr>) ?kd)"
  let ?k4 = "upd_thread t (\<lambda>r. r\<lparr>status := THREAD_READY\<rparr>)
    (upd_sema s (\<lambda>r. r\<lparr>sema_value := u32 (sema_value r + 1), waiters := remove1 t (waiters r)\<rparr>)
      (k\<lparr>ready_list := ready_list k @ [t]\<rparr>))"
  have up: "sema_up s k = thread_unblock t ?k2"
    using s False t by (simp add: sema_up_def Let_def upd_sema_def intr_disable_def)
  have c4: "core L ?k4" by (rule unblock_waiter_core [OF L S B W K run(1) tw])
  have "core L (push_calls [Intr_set_level (intr_level ?k4)] (?k4\<lparr>intr_level := INTR_OFF\<rparr>))"
    using push_level_core [OF c4] run top ne by (simp add: upd_thread_def upd_sema_def)
  moreover have "push_calls [Intr_set_level (intr_level ?k4)] (?k4\<lparr>intr_level := INTR_OFF\<rparr>) =
      upd_thread t (\<lambda>r. r\<lparr>status := THREAD_READY\<rparr>) (?k2\<lparr>ready_list := ready_list ?k2 @ [t]\<rparr>)"
    using ne by (auto simp: push_calls_def upd_thread_def upd_sema_def intr_disable_def fun_eq_iff intro!: kernel.equality)
  ultimately have "\<exists>k'. thread_unblock t ?k2 = Some k' \<and> all_list k' = all_list ?k2 \<and>
    (\<not> in_external_intr ?k2 \<longrightarrow> kernel_inv L k')"
    using thread_unblock_inv [of L t ?k2] run ta top ext ne
    by (auto simp: push_calls_def upd_thread_def upd_sema_def intr_disable_def)
  then show ?thesis using up ext by (auto simp: push_calls_def upd_thread_def upd_sema_def intr_disable_def)
qed

section \<open>Locks\<close>

lemma claims_nonneg: "frames_ok L H v cs \<Longrightarrow> l \<in> L \<Longrightarrow> 0 \<le> claims l cs"
proof (induction cs arbitrary: H v rule: length_induct)
  case (1 cs)
  show ?case
  proof (cases cs)
    case (Cons c cs')
    have IH: "0 \<le> claims l ds" if "frames_ok L H' v' ds" "length ds < length cs" for H' v' ds
      using 1 that by blast
    show ?thesis
    proof (cases c)
      case (Sema_down s)
      then have f: "frames_ok L H v cs'" "s = lock_semaphore l \<Longrightarrow> \<exists>ds. cs' = Lock_acquired l # ds"
        using 1(2,3) Cons by auto
      show ?thesis
      proof (cases "s = lock_semaphore l")
        case True
        then obtain ds where "cs' = Lock_acquired l # ds" using f(2) by blast
        then show ?thesis using f(1) Sema_down True Cons IH [of "insert l H" v ds] by auto
      qed (use f(1) Sema_down Cons IH [of H v cs'] in auto)
    next
      case (Sema_down_loop s w)
      then have f: "frames_ok L H w cs'" "s = lock_semaphore l \<Longrightarrow> \<exists>ds. cs' = Lock_acquired l # ds"
        using 1(2,3) Cons by auto
      show ?thesis
      proof (cases "s = lock_semaphore l")
        case True
        then obtain ds where "cs' = Lock_acquired l # ds" using f(2) by blast
        then show ?thesis using f(1) Sema_down_loop True Cons IH [of "insert l H" w ds] by auto
      qed (use f(1) Sema_down_loop Cons IH [of H w cs'] in auto)
    qed (use 1(2,3) Cons IH in \<open>auto intro: IH\<close>)
  qed simp
qed

lemma all_claims_nonneg:
  assumes "core L k" "t \<in> set (all_list k)" "l \<in> L"
  shows "0 \<le> claims l (calls (threads k t))"
proof (cases "t = running_thread k")
  case True
  then show ?thesis using claims_nonneg so_cur [OF coreD(2) [OF assms(1)]] assms(2,3) by blast
next
  case False
  then show ?thesis using claims_nonneg so_other [OF coreD(2) [OF assms(1)] assms(2)] assms(3) by fastforce
qed

lemma sum_list_ge_elem:
  fixes f :: "'a \<Rightarrow> int"
  assumes "\<And>x. x \<in> set xs \<Longrightarrow> 0 \<le> f x" "y \<in> set xs"
  shows "f y \<le> (\<Sum>x\<leftarrow>xs. f x)"
  using assms
proof (induction xs)
  case (Cons x xs)
  have "0 \<le> (\<Sum>x\<leftarrow>xs. f x)" using Cons.prems(1) by (intro sum_list_nonneg) auto
  then show ?case using Cons by (cases "y = x") fastforce+
qed simp

text \<open>A lock with a claim on it has value 0 and no holder.\<close>

lemma claimed_lock:
  assumes c: "core L k" and t: "t \<in> set (all_list k)" "l \<in> L" and cl: "1 \<le> claims l (calls (threads k t))"
  shows "lock_holder k l = 0 \<and> sema_value (semas k (lock_semaphore l)) = 0 \<and>
    (\<forall>u\<in>set (all_list k). 1 \<le> claims l (calls (threads k u)) \<longrightarrow> u = t) \<and> claims l (calls (threads k t)) = 1"
proof -
  let ?f = "\<lambda>t. claims l (calls (threads k t))"
  have d: "distinct (all_list k)" using lo_distinct [OF coreD(1) [OF c]] by blast
  have nn: "\<And>t. t \<in> set (all_list k) \<Longrightarrow> 0 \<le> ?f t" using all_claims_nonneg [OF c _ t(2)] by blast
  have le: "?f t \<le> (\<Sum>t\<leftarrow>all_list k. ?f t)" using sum_list_ge_elem [of "all_list k" ?f t] nn t(1) by blast
  have sum: "int (sema_value (semas k (lock_semaphore l))) + (\<Sum>t\<leftarrow>all_list k. ?f t) + (if lock_holder k l = 0 then 0 else 1) = 1"
    by (rule lock_sum [OF coreD(4) [OF c] t(2)])
  have one: "u = t" if u: "u \<in> set (all_list k)" "1 \<le> ?f u" for u
  proof (rule ccontr)
    assume ne: "u \<noteq> t"
    have "(\<Sum>x\<leftarrow>all_list k. if x = t then 0 else ?f x) = (\<Sum>x\<leftarrow>all_list k. ?f x) - ?f t + 0"
      using sum_list_change [OF d t(1), of "\<lambda>x. if x = t then 0 else ?f x" ?f] by simp
    moreover have "?f u \<le> (\<Sum>x\<leftarrow>all_list k. if x = t then 0 else ?f x)"
      using sum_list_ge_elem [of "all_list k" "\<lambda>x. if x = t then 0 else ?f x" u] nn u(1) ne by auto
    ultimately show False using sum cl u(2) by (auto split: if_splits)
  qed
  show ?thesis using sum le cl one by (auto split: if_splits)
qed

lemma thread_nonzero: "core L k \<Longrightarrow> t \<in> set (all_list k) \<Longrightarrow> t \<noteq> 0"
  using lo_thread [OF coreD(1)] by (auto simp: is_thread_def)

lemma zero_not_lock: "core L k \<Longrightarrow> 0 \<notin> L"
  by (simp add: core_def locks_ok_def)

lemma locks_held: "core L k \<Longrightarrow> t \<in> set (all_list k) \<Longrightarrow>
    distinct (locks (threads k t)) \<and> set (locks (threads k t)) = held L k t"
  by (auto simp: core_def locks_ok_def)

text \<open>The running thread takes or gives up a lock.\<close>

lemma holder_inv:
  assumes inv: "kernel_inv L k" and l: "l \<in> L"
    and h: "h = running_thread k \<and> lock_holder k l = 0 \<or> h = 0 \<and> lock_holder k l = running_thread k"
    and ls: "distinct ls" "set ls = H" "H = (if h = 0 then held L k (running_thread k) - {l} else insert l (held L k (running_thread k)))"
    and top: "list_all below (current_calls k)" "list_all below cs" and b: "births cs = births (current_calls k)"
    and cl: "\<And>l'. l' \<in> L \<Longrightarrow> claims l' cs =
      claims l' (current_calls k) + (if l' = l then if h = 0 then 1 else - 1 else 0)"
    and f: "frames_ok L H (intr_level k) cs"
    and idle: "\<not> idle_stack (current_calls k)"
  shows "kernel_inv L (upd_thread (running_thread k) (\<lambda>r. r\<lparr>locks := ls, calls := cs\<rparr>)
    (k\<lparr>lock_holder := (lock_holder k)(l := h)\<rparr>))" (is "kernel_inv L ?k")
proof -
  note i = kernel_invD [OF inv]
  note L = coreD(1) [OF i(1)] and S = coreD(2) [OF i(1)] and B = coreD(3) [OF i(1)] and K = coreD(4) [OF i(1)] and W = coreD(5) [OF i(1)]
  note nw = below_not_waiting [OF top(1)] below_not_waiting [OF top(2)]
  have nid: "running_thread k \<noteq> idle_thread k" by (rule running_not_idle [OF inv idle])
  have hc: "held L ?k (running_thread k) = H" using ls(3) h l thread_nonzero [OF i(1,3)] by (auto simp: held_def upd_thread_def)
  have ho: "held L ?k t = held L k t" if "t \<in> set (all_list k)" "t \<noteq> running_thread k" for t
    using h that thread_nonzero [OF i(1) that(1)] by (auto simp: held_def upd_thread_def)
  have "lists_ok ?k"
  proof (rule lists_okI)
    fix t assume "t \<in> set (all_list ?k)"
    then show "is_thread ?k t \<and> status (threads ?k t) \<noteq> THREAD_DYING \<and>
       (status (threads ?k t) = THREAD_RUNNING \<longrightarrow> t = running_thread ?k)"
      using lo_thread [OF L, of t] by (cases "t = running_thread k") (simp_all add: upd_thread_def is_thread_def)
  next
    fix t show "t \<in> set (ready_list ?k) \<longleftrightarrow> t \<in> set (all_list ?k) \<and> status (threads ?k t) = THREAD_READY \<and> t \<noteq> idle_thread ?k"
      using lo_ready [OF L, of t] by (auto simp: upd_thread_def)
  next
    fix s t show "t \<in> set (waiters (semas ?k s)) \<longleftrightarrow>
       t \<in> set (all_list ?k) \<and> status (threads ?k t) = THREAD_BLOCKED \<and> at_sema (calls (threads ?k t)) = Some s"
      using lo_waiters [OF L, of t s] i(2) by (auto simp: upd_thread_def)
  next
    fix t show "t \<in> set (sleeping_list ?k) \<longleftrightarrow> t \<in> set (all_list ?k) \<and> asleep (status (threads ?k t)) (calls (threads ?k t))"
      using lo_sleeping [OF L, of t] i(2) nw by (auto simp: upd_thread_def)
  qed (use lo_distinct [OF L] lo_idle [OF L] in \<open>auto simp: upd_thread_def\<close>)
  moreover have "stacks_ok L ?k"
  proof (rule stacks_okI)
    fix t assume "t \<in> set (all_list ?k)" "t \<noteq> running_thread ?k"
    then have t: "t \<in> set (all_list k)" "t \<noteq> running_thread k" by (simp_all add: upd_thread_def)
    show "calls (threads ?k t) = [] \<and> status (threads ?k t) = THREAD_BLOCKED \<and> held L ?k t = {} \<or>
      frames_ok L (held L ?k t) INTR_OFF (calls (threads ?k t))"
      unfolding ho [OF t] using so_other [OF S t] t by (simp add: upd_thread_def)
  next
    have r: "running_thread ?k = running_thread k" by (simp add: upd_thread_def)
    show "frames_ok L (held L ?k (running_thread ?k)) (intr_level ?k) (current_calls ?k)"
      unfolding r hc using f by (simp add: upd_thread_def)
  next
    fix t assume "t \<in> set (all_list ?k)"
    moreover have "list_all below (tl cs)" using top(2) by (cases cs) auto
    ultimately show "list_all below (tl (calls (threads ?k t)))" using so_below [OF S, of t] by (simp add: upd_thread_def)
  qed (use so_idle [OF S] nid in \<open>simp add: upd_thread_def\<close>)
  moreover have "births_ok ?k"
    using b i(5) by (intro births_ok_upd [OF B]) (auto simp: upd_thread_def)
  moreover have "locks_ok L ?k"
  proof -
    have "(\<Sum>t\<leftarrow>all_list k. claims l' (calls (threads ?k t))) =
        (\<Sum>t\<leftarrow>all_list k. claims l' (calls (threads k t))) - claims l' (current_calls k) + claims l' cs" for l'
      using sum_list_change [OF _ i(3), of "\<lambda>t. claims l' (calls (threads ?k t))" "\<lambda>t. claims l' (calls (threads k t))"]
        lo_distinct [OF L] by (simp add: upd_thread_def)
    then have "int (sema_value (semas ?k (lock_semaphore l'))) + (\<Sum>t\<leftarrow>all_list ?k. claims l' (calls (threads ?k t))) +
        (if lock_holder ?k l' = 0 then 0 else 1) = 1" if "l' \<in> L" for l'
      using lock_sum [OF K that] cl [OF that] h thread_nonzero [OF i(1,3)]
      by (cases "l' = l") (auto simp: upd_thread_def)
    moreover have "distinct (locks (threads ?k t)) \<and> set (locks (threads ?k t)) = held L ?k t" if "t \<in> set (all_list k)" for t
      using ls hc ho [OF that] locks_held [OF i(1) that] by (cases "t = running_thread k") (simp_all add: upd_thread_def)
    ultimately show ?thesis using K h i(3) unfolding locks_ok_def by (auto simp: upd_thread_def)
  qed
  moreover have "wakeups_ok ?k"
  proof -
    have "length (woken k s) \<le> length (woken ?k s)" for s
      by (rule woken_cong) (use nw in \<open>auto simp: upd_thread_def\<close>)
    then show ?thesis using W by (auto simp: wakeups_ok_def upd_thread_def intro: le_trans)
  qed
  ultimately show ?thesis using i by (simp add: kernel_inv_def core_def upd_thread_def)
qed

lemma thread_upd_swap: "r\<lparr>calls := a, locks := b\<rparr> = r\<lparr>locks := b, calls := a\<rparr>"
  by (rule thread.equality) simp_all

lemma lock_acquired_inv:
  assumes inv: "kernel_inv L k" and cs: "current_calls k = Lock_acquired l # cs"
  shows "kernel_inv L (lock_acquired l (pop_call k))"
proof -
  note i = kernel_invD [OF inv]
  have f: "l \<in> L" "l \<notin> held L k (running_thread k)" "intr_level k = INTR_ON"
      "frames_ok L (insert l (held L k (running_thread k))) INTR_ON cs" using i(5) cs by auto
  have "1 \<le> claims l (current_calls k)" using cs claims_nonneg [OF f(4,1)] by simp
  then have h: "lock_holder k l = 0" using claimed_lock [OF i(1,3) f(1)] by simp
  have "kernel_inv L (upd_thread (running_thread k)
      (\<lambda>r. r\<lparr>locks := locks (threads k (running_thread k)) @ [l], calls := cs\<rparr>)
      (k\<lparr>lock_holder := (lock_holder k)(l := running_thread k)\<rparr>))"
    using h locks_held [OF i(1,3)] f i(6) cs thread_nonzero [OF i(1,3)]
    by (intro holder_inv [OF inv f(1)]) (auto simp: held_def)
  then show ?thesis using cs by (simp add: lock_acquired_def pop_call_def upd_thread_def thread_upd_swap)
qed

lemma lock_release_inv:
  assumes inv: "kernel_inv L k0" and k: "k = upd_thread (running_thread k0) (\<lambda>r. r\<lparr>calls := cs\<rparr>) k0"
    and l: "l \<in> held L k0 (running_thread k0)" and top: "list_all below (current_calls k0)" "list_all below cs"
    and b: "births cs = births (current_calls k0)" and cl: "\<And>l'. l' \<in> L \<Longrightarrow> claims l' cs = claims l' (current_calls k0)"
    and f: "intr_level k0 = INTR_ON" "frames_ok L (held L k0 (running_thread k0) - {l}) INTR_ON cs"
    and idle: "\<not> idle_stack (current_calls k0)"
  shows "\<exists>k'. lock_release l k = Some k' \<and> kernel_inv L k' \<and> all_list k' = all_list k0"
proof -
  note i = kernel_invD [OF inv]
  have lL: "l \<in> L" "lock_holder k0 l = running_thread k0" using l by (auto simp: held_def)
  have l0: "l \<noteq> 0" using zero_not_lock [OF i(1)] lL(1) by metis
  let ?k = "upd_thread (running_thread k0)
      (\<lambda>r. r\<lparr>locks := remove1 l (locks (threads k0 (running_thread k0))), calls := Sema_up (lock_semaphore l) # cs\<rparr>)
      (k0\<lparr>lock_holder := (lock_holder k0)(l := 0)\<rparr>)"
  have "kernel_inv L ?k"
    by (rule holder_inv [OF inv lL(1)])
      (use locks_held [OF i(1,3)] f top cl b lL idle in \<open>auto simp: lock_semaphore_def\<close>)
  moreover have "lock_release l k = Some ?k"
    using thread_current_inv [OF inv] l0 lL(2) unfolding k
    by (auto simp: lock_release_def lock_held_by_current_thread_def Let_def push_calls_def upd_thread_def
        thread_current_def is_thread_def ASSERT_def split: if_splits)
  ultimately show ?thesis by (simp add: upd_thread_def)
qed

section \<open>Calls that only change the stack\<close>

lemma calls_inv:
  assumes inv: "kernel_inv L k"
    and top: "at_sema (current_calls k) = None" "asleep THREAD_RUNNING cs = asleep THREAD_RUNNING (current_calls k)"
    and b: "births cs = births (current_calls k)" and cl: "\<And>l. l \<in> L \<Longrightarrow> claims l cs = claims l (current_calls k)"
    and f: "frames_ok L (held L k (running_thread k)) v cs" "list_all below (tl cs)"
    and i: "idle_stack (current_calls k) \<Longrightarrow> running_thread k = idle_thread k \<Longrightarrow> idle_stack cs"
  shows "kernel_inv L (upd_thread (running_thread k) (\<lambda>r. r\<lparr>calls := cs\<rparr>) (k\<lparr>intr_level := v\<rparr>))"
  using calls_core [OF kernel_invD(1-3) [OF inv] top b cl f i] kernel_invD [OF inv]
  by (simp add: kernel_inv_def upd_thread_def)

lemma kernel_inv_cong:
  assumes "kernel_inv L k" "same_view k k'" "in_external_intr k' = in_external_intr k"
  shows "kernel_inv L k'"
  using assms core_cong [OF assms(2)] by (auto simp: kernel_inv_def same_view_def view_def)

lemma sema_up_call:
  assumes inv: "kernel_inv L k0" and k: "k = upd_thread (running_thread k0) (\<lambda>r. r\<lparr>calls := cs\<rparr>) (k0\<lparr>intr_level := v\<rparr>)"
    and top: "list_all below (current_calls k0)" "list_all below cs" and b: "births cs = births (current_calls k0)"
    and f: "frames_ok L (held L k0 (running_thread k0)) v cs" and s: "s \<noteq> 0"
    and i: "idle_stack (current_calls k0) \<Longrightarrow> running_thread k0 = idle_thread k0 \<Longrightarrow> idle_stack cs"
    and cl: "\<And>l. l \<in> L \<Longrightarrow> claims l (current_calls k0) = claims l cs + of_bool (s = lock_semaphore l)"
  shows "\<exists>k'. sema_up s k = Some k' \<and> kernel_inv L k' \<and> all_list k' = all_list k0"
proof -
  note j = kernel_invD [OF inv]
  note nw = below_not_waiting [OF top(1)] below_not_waiting [OF top(2)]
  have bt: "list_all below (tl cs)" using top(2) by (cases cs) auto
  have a: "asleep THREAD_RUNNING cs = asleep THREAD_RUNNING (current_calls k0)" using nw by auto
  have n: "at_sema (current_calls k0) = None" using nw by blast
  note parts = calls_parts [OF j(1-3) n a b f bt i k]
  let ?k1 = "upd_sema s (\<lambda>r. r\<lparr>sema_value := u32 (sema_value r + 1)\<rparr>) k"
  have "locks_ok L ?k1"
  proof (rule locks_ok_cur [OF coreD(4) [OF j(1)] _ j(3)])
    fix l assume l: "l \<in> L"
    have "0 \<le> claims l cs" using claims_nonneg [OF f l] .
    then have "s = lock_semaphore l \<Longrightarrow> sema_value (semas k0 s) = 0"
      using claimed_lock [OF j(1,3) l] cl [OF l] by auto
    then show "int (sema_value (semas ?k1 (lock_semaphore l))) + claims l (calls (threads ?k1 (running_thread k0))) =
      int (sema_value (semas k0 (lock_semaphore l))) + claims l (current_calls k0)"
      using cl [OF l] by (cases "s = lock_semaphore l") (auto simp: k upd_thread_def upd_sema_def)
  next
    fix c w assume "w \<in> set (conds ?k1 c)"
    then show "elem_semaphore w \<notin> lock_semas L" using conds_not_locks [OF j(1)] by (simp add: k upd_thread_def upd_sema_def)
  qed (use lo_distinct [OF coreD(1) [OF j(1)]] in \<open>auto simp: k upd_thread_def upd_sema_def\<close>)
  then have "\<exists>k'. sema_up s k = Some k' \<and> kernel_inv L k' \<and> all_list k' = all_list k"
    using j top s by (intro sema_up_inv [OF parts]) (auto simp: k upd_thread_def)
  then show ?thesis by (simp add: k upd_thread_def)
qed

lemma block_core:
  assumes inv: "kernel_inv L k" and off: "frames_ok L (held L k (running_thread k)) INTR_OFF cs" "list_all below (tl cs)"
    and top: "at_sema (current_calls k) = None" "at_sema cs = None"
      "asleep THREAD_BLOCKED cs = asleep THREAD_RUNNING (current_calls k)"
    and b: "births cs = births (current_calls k)" and cl: "\<And>l. l \<in> L \<Longrightarrow> claims l cs = claims l (current_calls k)"
    and i: "idle_stack (current_calls k) \<Longrightarrow> running_thread k = idle_thread k \<Longrightarrow> idle_stack cs"
    and k: "k' = push_calls pre (intr_disable (pop_call k))" "pre @ tl (current_calls k) = cs"
  shows "\<exists>k''. thread_block k' = Some k'' \<and> kernel_inv L k'' \<and> all_list k'' = all_list k"
proof -
  note j = kernel_invD [OF inv]
  note L = coreD(1) [OF j(1)] and S = coreD(2) [OF j(1)] and B = coreD(3) [OF j(1)] and K = coreD(4) [OF j(1)] and W = coreD(5) [OF j(1)]
  let ?k = "upd_thread (running_thread k) (\<lambda>r. r\<lparr>calls := cs\<rparr>) (k\<lparr>intr_level := INTR_OFF\<rparr>)"
  have k': "k' = ?k" using k by (simp add: push_calls_def pop_call_def upd_thread_def intr_disable_def)
  let ?b = "upd_thread (running_thread k') (\<lambda>r. r\<lparr>status := THREAD_BLOCKED\<rparr>) k'"
  have "lists_ok ?b"
  proof (rule lists_okI)
    fix t assume "t \<in> set (all_list ?b)"
    then show "is_thread ?b t \<and> status (threads ?b t) \<noteq> THREAD_DYING \<and>
       (status (threads ?b t) = THREAD_RUNNING \<longrightarrow> t = running_thread ?b)"
      using lo_thread [OF L, of t] by (cases "t = running_thread k") (simp_all add: k' upd_thread_def is_thread_def)
  next
    fix t show "t \<in> set (ready_list ?b) \<longleftrightarrow> t \<in> set (all_list ?b) \<and> status (threads ?b t) = THREAD_READY \<and> t \<noteq> idle_thread ?b"
      using lo_ready [OF L, of t] j(2) by (auto simp: k' upd_thread_def)
  next
    fix s t show "t \<in> set (waiters (semas ?b s)) \<longleftrightarrow>
       t \<in> set (all_list ?b) \<and> status (threads ?b t) = THREAD_BLOCKED \<and> at_sema (calls (threads ?b t)) = Some s"
      using lo_waiters [OF L, of t s] j(2) top by (auto simp: k' upd_thread_def)
  next
    fix t show "t \<in> set (sleeping_list ?b) \<longleftrightarrow> t \<in> set (all_list ?b) \<and> asleep (status (threads ?b t)) (calls (threads ?b t))"
      using lo_sleeping [OF L, of t] j(2) top by (auto simp: k' upd_thread_def)
  qed (use lo_distinct [OF L] lo_idle [OF L] in \<open>auto simp: k' upd_thread_def\<close>)
  moreover have "stacks_ok L ?b"
  proof (rule stacks_okI)
    fix t assume "t \<in> set (all_list ?b)" "t \<noteq> running_thread ?b"
    then show "calls (threads ?b t) = [] \<and> status (threads ?b t) = THREAD_BLOCKED \<and> held L ?b t = {} \<or>
      frames_ok L (held L ?b t) INTR_OFF (calls (threads ?b t))"
      using so_other [OF S, of t] by (auto simp: k' upd_thread_def held_def)
  qed (use off so_below [OF S] so_idle [OF S] i in \<open>auto simp: k' upd_thread_def held_def\<close>)
  moreover have "births_ok ?b"
    using b j(5) by (intro births_ok_upd [OF B]) (auto simp: k' upd_thread_def)
  moreover have "locks_ok L ?b"
    by (rule locks_ok_upd [OF K]) (use cl in \<open>auto simp: k' upd_thread_def\<close>)
  moreover have "wakeups_ok ?b"
  proof -
    have "length (woken k s) \<le> length (woken ?b s)" for s
      by (rule woken_cong) (use top in \<open>auto simp: k' upd_thread_def\<close>)
    then show ?thesis using W by (auto simp: wakeups_ok_def k' upd_thread_def intro: le_trans)
  qed
  ultimately have "core L ?b" by (simp add: core_def)
  then show ?thesis using thread_block_inv [of L k'] j by (auto simp: k' upd_thread_def)
qed

end
