(* ===== verification/Kernel_Runs.thy ===== *)
theory Kernel_Runs
  imports Kernel_Inv
begin

text \<open>
  The invariant over whole runs: creation and exit of threads, every pending call, every
  call a thread body may make, and the timer interrupt.
\<close>

section \<open>Exit\<close>

lemma thread_exit_inv:
  assumes inv: "kernel_inv L k0" and k: "k = upd_thread (running_thread k0) (\<lambda>r. r\<lparr>calls := cs\<rparr>) k0"
    and h: "held L k0 (running_thread k0) = {}" and cs: "cs = [] \<or> (\<exists>n. cs = [Function n, Thread_exit])"
    and top: "current_calls k0 = [Thread_exit] \<or> current_calls k0 = cs"
  shows "\<exists>k'. thread_exit k = Some k' \<and> kernel_inv L k'"
proof -
  note j = kernel_invD [OF inv]
  let ?t = "running_thread k0"
  let ?p = "upd_thread ?t (\<lambda>r. r\<lparr>pagedir := 0\<rparr>) k0"
  have invp: "kernel_inv L ?p" by (rule kernel_inv_cong [OF inv]) (auto simp: same_view_def upd_thread_def view_def)
  have rp: "running_thread ?p = ?t" "current_calls ?p = current_calls k0" "held L ?p = held L k0"
    by (auto simp: upd_thread_def held_def)
  have cur: "current_calls k0 \<noteq> []" "list_all below (current_calls k0)" "births (current_calls k0) = []"
    "\<not> idle_stack (current_calls k0)" "claims l (current_calls k0) = 0" for l
    using top cs j(5) by auto
  have f: "frames_ok L (held L ?p ?t) INTR_OFF (Thread_exit_tail # cs)" using h cs rp by auto
  let ?k2 = "upd_thread (running_thread ?p) (\<lambda>r. r\<lparr>calls := Thread_exit_tail # cs\<rparr>) (?p\<lparr>intr_level := INTR_OFF\<rparr>)"
  have "thread_current k = Some ?t"
    using thread_current_inv [OF inv] by (auto simp: k thread_current_def is_thread_def upd_thread_def ASSERT_def split: if_splits)
  moreover have "push_calls [Thread_exit_tail] (intr_disable (upd_thread ?t (\<lambda>r. r\<lparr>pagedir := 0\<rparr>) k)) = ?k2"
    by (simp add: k push_calls_def upd_thread_def intr_disable_def)
  moreover have "alive_sema (threads ?k2 ?t) = alive_sema (threads k0 ?t)" by (simp add: upd_thread_def)
  ultimately have eq: "thread_exit k = (if alive_sema (threads k0 ?t) \<noteq> 0 then sema_up (alive_sema (threads k0 ?t)) ?k2 else Some ?k2)"
    using j(4) by (simp add: thread_exit_def Let_def) (simp add: k upd_thread_def)
  show ?thesis
  proof (cases "alive_sema (threads k0 ?t) = 0")
    case True
    have "kernel_inv L ?k2"
      by (rule calls_inv [OF invp]) (use f cur cs below_not_waiting [OF cur(2)] rp in auto)
    then show ?thesis using eq True by simp
  next
    case False
    have "alive_sema (threads k0 ?t) \<notin> lock_semas L" using coreD(4) [OF j(1)] j(3) by (auto simp: locks_ok_def)
    then have "\<exists>k'. sema_up (alive_sema (threads k0 ?t)) ?k2 = Some k' \<and> kernel_inv L k' \<and> all_list k' = all_list ?p"
      by (intro sema_up_call [OF invp refl]) (use f cur cs False rp in \<open>auto simp: lock_semas_def\<close>)
    then show ?thesis using eq False by auto
  qed
qed

lemma concat_remove1: "f x = [] \<Longrightarrow> concat (map f (remove1 x xs)) = concat (map f xs)"
  by (induction xs) auto

lemma thread_exit_tail_inv:
  assumes inv: "kernel_inv L k" and cs: "current_calls k = Thread_exit_tail # cs"
  shows "\<exists>k'. thread_exit_tail (pop_call k) = Some k' \<and> kernel_inv L k'"
proof -
  note j = kernel_invD [OF inv]
  note L = coreD(1) [OF j(1)] and S = coreD(2) [OF j(1)] and B = coreD(3) [OF j(1)] and K = coreD(4) [OF j(1)] and W = coreD(5) [OF j(1)]
  let ?t = "running_thread k"
  let ?k = "upd_thread ?t (\<lambda>r. r\<lparr>calls := cs, status := THREAD_DYING\<rparr>) (k\<lparr>all_list := remove1 ?t (all_list k)\<rparr>)"
  have f: "intr_level k = INTR_OFF" "held L k ?t = {}" "cs = [] \<or> (\<exists>n. cs = [Function n, Thread_exit])" using j(5) cs by auto
  have plain: "births (current_calls k) = []" "claims l (current_calls k) = 0" for l using f(3) cs by auto
  have nid: "?t \<noteq> idle_thread k" using running_not_idle [OF inv] cs by simp
  have nr: "?t \<notin> set (ready_list k)" using lo_ready [OF L, of ?t] j(2) by simp
  have nw: "?t \<notin> set (waiters (semas k s))" for s using lo_waiters [OF L, of ?t s] j(2) by simp
  have ns: "?t \<notin> set (sleeping_list k)" using lo_sleeping [OF L, of ?t] cs by simp
  have d: "distinct (all_list k)" using lo_distinct [OF L] by blast
  have all: "set (all_list ?k) = set (all_list k) - {?t}" using d by (simp add: upd_thread_def)
  have thr: "u \<noteq> ?t \<Longrightarrow> threads ?k u = threads k u" for u by (simp add: upd_thread_def)
  have same: "ready_list ?k = ready_list k" "sleeping_list ?k = sleeping_list k" "semas ?k = semas k" "idle_thread ?k = idle_thread k"
    "running_thread ?k = ?t" "lock_holder ?k = lock_holder k" "conds ?k = conds k" "held L ?k = held L k"
    by (auto simp: upd_thread_def held_def)
  have "lists_ok ?k"
  proof (rule lists_okI)
    fix u assume "u \<in> set (all_list ?k)"
    then show "is_thread ?k u \<and> status (threads ?k u) \<noteq> THREAD_DYING \<and>
       (status (threads ?k u) = THREAD_RUNNING \<longrightarrow> u = running_thread ?k)"
      unfolding all same using lo_thread [OF L, of u] by (auto simp: thr is_thread_def)
  next
    fix u show "u \<in> set (ready_list ?k) \<longleftrightarrow> u \<in> set (all_list ?k) \<and> status (threads ?k u) = THREAD_READY \<and> u \<noteq> idle_thread ?k"
      unfolding all same using lo_ready [OF L, of u] nr by (cases "u = ?t") (auto simp: thr)
  next
    fix s u show "u \<in> set (waiters (semas ?k s)) \<longleftrightarrow>
       u \<in> set (all_list ?k) \<and> status (threads ?k u) = THREAD_BLOCKED \<and> at_sema (calls (threads ?k u)) = Some s"
      unfolding all same using lo_waiters [OF L, of u s] nw by (cases "u = ?t") (auto simp: thr)
  next
    fix u show "u \<in> set (sleeping_list ?k) \<longleftrightarrow> u \<in> set (all_list ?k) \<and> asleep (status (threads ?k u)) (calls (threads ?k u))"
      unfolding all same using lo_sleeping [OF L, of u] ns by (cases "u = ?t") (auto simp: thr)
  qed (use lo_distinct [OF L] lo_idle [OF L] nid d in \<open>auto simp: all same\<close>, simp add: upd_thread_def)
  moreover have "stacks_ok L ?k"
  proof (rule stacks_okI)
    fix u assume "u \<in> set (all_list ?k)" "u \<noteq> running_thread ?k"
    then show "calls (threads ?k u) = [] \<and> status (threads ?k u) = THREAD_BLOCKED \<and> held L ?k u = {} \<or>
      frames_ok L (held L ?k u) INTR_OFF (calls (threads ?k u))"
      unfolding all same using so_other [OF S, of u] by (auto simp: thr)
  next
    fix u assume "u \<in> set (all_list ?k)"
    then show "list_all below (tl (calls (threads ?k u)))" unfolding all using so_below [OF S, of u] by (auto simp: thr)
  qed (use so_idle [OF S] nid all in \<open>auto simp: same thr\<close>)
  moreover have "births_ok ?k"
  proof -
    have m: "map (\<lambda>u. births (calls (threads ?k u))) (all_list ?k) = map (\<lambda>u. births (calls (threads k u))) (remove1 ?t (all_list k))"
      using d by (auto simp: upd_thread_def)
    have bo: "b \<in> set (all_list k) \<and> calls (threads k b) = []"
      if "u \<in> set (all_list k)" "b \<in> set (births (calls (threads k u)))" for u b
      using B that unfolding births_ok_def by blast
    have "distinct (concat (map (\<lambda>u. births (calls (threads k u))) (all_list k)))" using B by (simp add: births_ok_def)
    then show ?thesis unfolding births_ok_def m using concat_remove1 [of "\<lambda>u. births (calls (threads k u))" ?t] plain(1)
    proof (intro conjI ballI)
      fix u b assume u: "u \<in> set (all_list ?k)" and b: "b \<in> set (births (calls (threads ?k u)))"
      have u': "u \<in> set (all_list k)" "b \<in> set (births (calls (threads k u)))" using u b all thr by auto
      have "b \<noteq> ?t" using bo [OF u'] cs by auto
      then show "b \<in> set (all_list ?k)" "calls (threads ?k b) = []" using bo [OF u'] all thr by auto
    qed simp
  qed
  moreover have "locks_ok L ?k"
  proof -
    have "(\<Sum>u\<leftarrow>all_list ?k. claims l (calls (threads ?k u))) = (\<Sum>u\<leftarrow>all_list k. claims l (calls (threads k u)))" for l
    proof -
      have "(\<Sum>u\<leftarrow>all_list ?k. claims l (calls (threads ?k u))) = (\<Sum>u\<leftarrow>remove1 ?t (all_list k). claims l (calls (threads k u)))"
        using d by (intro arg_cong [of _ _ sum_list]) (auto simp: upd_thread_def)
      then show ?thesis using sum_list_map_remove1 [OF j(3), of "\<lambda>u. claims l (calls (threads k u))"] plain(2) by simp
    qed
    moreover have "lock_holder k l \<noteq> ?t" if "l \<in> L" for l using f(2) that by (auto simp: held_def)
    ultimately show ?thesis using K unfolding locks_ok_def same by (auto simp: all thr)
  qed
  moreover have "wakeups_ok ?k"
  proof -
    have "filter (\<lambda>u. status (threads k u) \<noteq> THREAD_BLOCKED \<and> at_sema (calls (threads k u)) = Some s) (remove1 ?t (all_list k)) =
      woken k s" for s
      by (simp add: woken_def filter_remove1 remove1_filter_not cs)
    moreover have "woken ?k s = filter (\<lambda>u. status (threads k u) \<noteq> THREAD_BLOCKED \<and> at_sema (calls (threads k u)) = Some s) (remove1 ?t (all_list k))" for s
      unfolding woken_def using d by (auto simp: upd_thread_def intro!: filter_cong)
    ultimately show ?thesis using W by (simp add: wakeups_ok_def same)
  qed
  ultimately have c: "core L ?k" by (simp add: core_def)
  have "thread_exit_tail (pop_call k) = schedule ?k"
    using cs by (simp add: thread_exit_tail_def pop_call_def upd_thread_def Let_def)
  moreover have "intr_level ?k = INTR_OFF" "status (threads ?k (running_thread ?k)) \<noteq> THREAD_RUNNING" "\<not> in_external_intr ?k"
    using f(1) j(4) by (simp_all add: upd_thread_def)
  ultimately show ?thesis using schedule_inv [OF c] by metis
qed


section \<open>Creation\<close>

text \<open>What \<^verbatim>\<open>init_thread\<close> leaves of the new thread.\<close>

lemma init_thread_eq:
  assumes "t \<noteq> 0" "0 \<le> p" "p \<le> 63"
  shows "\<exists>r. init_thread t nm p k = Some (k\<lparr>all_list := all_list k @ [t], threads := (threads k)(t := r)\<rparr>) \<and>
    status r = THREAD_BLOCKED \<and> calls r = [] \<and> locks r = [] \<and> alive_sema r = 0 \<and> magic r = THREAD_MAGIC \<and>
    nice r = (if t = running_thread k then 0 else nice (threads k (running_thread k))) \<and>
    (\<not> thread_mlfqs k \<longrightarrow> priority r = p)"
  using assms
  by (intro exI [of _ "threads (the (init_thread t nm p k)) t"])
    (simp add: init_thread_def Let_def upd_thread_def zero_thread_def thread_get_nice_def thread_update_mlfqs_priority_def)

lemma distinct_concat_subset:
  assumes "distinct (concat (map f xs))" "\<And>x. x \<in> set xs \<Longrightarrow> set (g x) \<subseteq> set (f x) \<and> (distinct (f x) \<longrightarrow> distinct (g x))"
  shows "distinct (concat (map g xs))"
  using assms by (induction xs) (auto, blast)

lemma distinct_concat_disjoint:
  "distinct (concat (map f xs)) \<Longrightarrow> x \<in> set xs \<Longrightarrow> y \<in> set xs \<Longrightarrow> b \<in> set (f x) \<Longrightarrow> b \<in> set (f y) \<Longrightarrow> x = y"
  by (induction xs) auto

lemma births_subset: "births_ok k \<Longrightarrow> t \<in> set (all_list k) \<Longrightarrow> b \<in> set (births (calls (threads k t))) \<Longrightarrow>
    b \<in> set (all_list k) \<and> calls (threads k b) = []"
  unfolding births_ok_def by blast

lemma thread_create_inv:
  assumes inv: "kernel_inv L k" and cs: "current_calls k = Function n # cs"
    and p: "0 \<le> p" "p \<le> 63" and tl: "tid_lock \<in> L" "lock_holder k tid_lock \<noteq> running_thread k"
    and page: "page \<notin> set (all_list k)" "page \<noteq> 0"
  shows "\<exists>k'. thread_create nm p (Function n') page k = Some k' \<and> kernel_inv L k'"
proof -
  note j = kernel_invD [OF inv]
  note L = coreD(1) [OF j(1)] and S = coreD(2) [OF j(1)] and B = coreD(3) [OF j(1)] and K = coreD(4) [OF j(1)] and W = coreD(5) [OF j(1)]
  let ?t = "running_thread k"
  let ?fs = "[Lock_acquire tid_lock, Allocate_tid page, Lock_release tid_lock, Thread_create_tail page (Function n')]"
  obtain r where r: "init_thread page nm p k = Some (k\<lparr>all_list := all_list k @ [page], threads := (threads k)(page := r)\<rparr>)"
    "status r = THREAD_BLOCKED" "calls r = []" "locks r = []" "alive_sema r = 0" "magic r = THREAD_MAGIC"
    using init_thread_eq [OF page(2) p] by blast
  define kk where "kk = push_calls ?fs (k\<lparr>all_list := all_list k @ [page], threads := (threads k)(page := r)\<rparr>)"
  have ne: "page \<noteq> ?t" using page j(3) by auto
  have f: "intr_level k = INTR_ON" "cs = [Thread_exit]" using j(5) cs by auto
  have all: "all_list kk = all_list k @ [page]" and pg: "threads kk page = r"
    and cur: "threads kk ?t = (threads k ?t)\<lparr>calls := ?fs @ current_calls k\<rparr>"
    and oth: "u \<noteq> ?t \<Longrightarrow> u \<noteq> page \<Longrightarrow> threads kk u = threads k u" for u
    using ne by (simp_all add: kk_def push_calls_def upd_thread_def)
  have oth': "threads kk u = threads k u" if "u \<in> set (all_list k)" "u \<noteq> ?t" for u using oth [of u] page that by auto
  have same: "ready_list kk = ready_list k" "sleeping_list kk = sleeping_list k" "semas kk = semas k" "idle_thread kk = idle_thread k"
    "running_thread kk = ?t" "lock_holder kk = lock_holder k" "conds kk = conds k" "held L kk = held L k" "intr_level kk = intr_level k"
    by (auto simp: kk_def push_calls_def upd_thread_def held_def)
  have nid: "idle_thread k \<noteq> page" using lo_idle [OF L] page by auto
  have idn: "?t \<noteq> idle_thread k" using running_not_idle [OF inv] cs by simp
  have hp: "held L k page = {}"
    using K page unfolding locks_ok_def held_def by auto
  have "lists_ok kk"
  proof (rule lists_okI)
    fix u assume "u \<in> set (all_list kk)"
    then have "u = page \<or> u \<in> set (all_list k)" unfolding all by auto
    then show "is_thread kk u \<and> status (threads kk u) \<noteq> THREAD_DYING \<and>
       (status (threads kk u) = THREAD_RUNNING \<longrightarrow> u = running_thread kk)"
    proof (elim disjE)
      assume "u = page"
      then show ?thesis using pg r page(2) by (simp add: is_thread_def)
    next
      assume u: "u \<in> set (all_list k)"
      then have "u \<noteq> page" using page by auto
      then show ?thesis
        using lo_thread [OF L u] oth [of u] cur by (cases "u = ?t") (simp_all add: is_thread_def same)
    qed
  next
    fix u show "u \<in> set (ready_list kk) \<longleftrightarrow> u \<in> set (all_list kk) \<and> status (threads kk u) = THREAD_READY \<and> u \<noteq> idle_thread kk"
      unfolding same all using lo_ready [OF L, of u] pg cur r page oth [of u] by (cases "u = ?t"; cases "u = page") auto
  next
    fix s u show "u \<in> set (waiters (semas kk s)) \<longleftrightarrow>
       u \<in> set (all_list kk) \<and> status (threads kk u) = THREAD_BLOCKED \<and> at_sema (calls (threads kk u)) = Some s"
      unfolding same all using lo_waiters [OF L, of u s] pg cur r page oth [of u] j(2) by (cases "u = ?t"; cases "u = page") auto
  next
    fix u show "u \<in> set (sleeping_list kk) \<longleftrightarrow> u \<in> set (all_list kk) \<and> asleep (status (threads kk u)) (calls (threads kk u))"
      unfolding same all using lo_sleeping [OF L, of u] pg cur r page oth [of u] cs by (cases "u = ?t"; cases "u = page") auto
  qed (use lo_distinct [OF L] lo_idle [OF L] page in \<open>auto simp: all same\<close>)
  moreover have "stacks_ok L kk"
  proof (rule stacks_okI)
    show "frames_ok L (held L kk (running_thread kk)) (intr_level kk) (current_calls kk)"
      unfolding same cur using f cs tl by (auto simp: held_def)
  next
    fix u assume "u \<in> set (all_list kk)" "u \<noteq> running_thread kk"
    then have u: "u = page \<or> u \<in> set (all_list k)" "u \<noteq> ?t" unfolding all same by auto
    show "calls (threads kk u) = [] \<and> status (threads kk u) = THREAD_BLOCKED \<and> held L kk u = {} \<or>
      frames_ok L (held L kk u) INTR_OFF (calls (threads kk u))"
      unfolding same using so_other [OF S, of u] u pg r hp oth [of u] by (cases "u = page") auto
  next
    fix u assume "u \<in> set (all_list kk)"
    then have u: "u = page \<or> u \<in> set (all_list k)" unfolding all by auto
    show "list_all below (tl (calls (threads kk u)))"
      using so_below [OF S, of u] u pg r cur cs f(2) oth [of u] by (cases "u = page"; cases "u = ?t") auto
  next
    show "idle_stack (calls (threads kk (idle_thread kk)))" unfolding same using so_idle [OF S] oth [of "idle_thread k"] nid idn by auto
  qed
  moreover have "births_ok kk"
  proof -
    have old: "set (births (calls (threads k u))) \<subseteq> set (all_list k)" if "u \<in> set (all_list k)" for u
      using births_subset [OF B that] by blast
    have bc: "births (calls (threads kk ?t)) = [page]" "births (current_calls k) = []" using cur cs f(2) by simp_all
    have "mset (concat (map (\<lambda>u. births (calls (threads kk u))) (all_list k))) =
        mset (concat (map (\<lambda>u. births (calls (threads k u))) (all_list k))) + {#page#}"
    proof -
      have gen: "mset (concat (map (\<lambda>u. births (calls (threads kk u))) xs)) =
          mset (concat (map (\<lambda>u. births (calls (threads k u))) xs)) + (if ?t \<in> set xs then {#page#} else {#})"
        if "distinct xs" "page \<notin> set xs" for xs
        using that
      proof (induction xs)
        case (Cons x xs)
        then show ?case using bc oth [of x] by (cases "x = ?t") auto
      qed simp
      show ?thesis using gen [of "all_list k"] page j(3) lo_distinct [OF L] by auto
    qed
    moreover have "page \<notin> set (concat (map (\<lambda>u. births (calls (threads k u))) (all_list k)))" using old page by auto
    moreover have "distinct (concat (map (\<lambda>u. births (calls (threads k u))) (all_list k)))" using B by (simp add: births_ok_def)
    ultimately have "distinct (page # concat (map (\<lambda>u. births (calls (threads k u))) (all_list k)))" by simp
    then have dd: "distinct (concat (map (\<lambda>u. births (calls (threads kk u))) (all_list k)))"
      by (rule mset_eq_imp_distinct_iff [THEN iffD1, rotated])
        (simp add: \<open>mset (concat (map (\<lambda>u. births (calls (threads kk u))) (all_list k))) = _\<close>)
    have pb: "births (calls (threads kk page)) = []" using pg r(3) by simp
    show ?thesis unfolding births_ok_def all
    proof (intro conjI ballI)
      show "distinct (concat (map (\<lambda>u. births (calls (threads kk u))) (all_list k @ [page])))" using dd pb by simp
      fix u b assume u: "u \<in> set (all_list k @ [page])" and b: "b \<in> set (births (calls (threads kk u)))"
      have "b = page \<or> u \<in> set (all_list k) \<and> b \<in> set (births (calls (threads k u)))"
        using u b bc pb oth [of u] by (cases "u = page"; cases "u = ?t") auto
      then have "b = page \<or> b \<in> set (all_list k) \<and> calls (threads k b) = []" using births_subset [OF B] by blast
      moreover have "b \<noteq> ?t" if "calls (threads k b) = []" using that cs by auto
      ultimately show "b \<in> set (all_list k @ [page])" "calls (threads kk b) = []"
        using oth [of b] pg r(3) by (cases "b = page"; auto)+
    qed
  qed
  moreover have "locks_ok L kk"
  proof -
    have "(\<Sum>u\<leftarrow>all_list kk. claims l (calls (threads kk u))) = (\<Sum>u\<leftarrow>all_list k. claims l (calls (threads k u)))" for l
    proof -
      have "claims l (calls (threads kk u)) = claims l (calls (threads k u))" if "u \<in> set (all_list k)" for u
        using cur oth' [OF that] by (cases "u = ?t") auto
      then have "map (\<lambda>u. claims l (calls (threads kk u))) (all_list k) = map (\<lambda>u. claims l (calls (threads k u))) (all_list k)" by simp
      then have "(\<Sum>u\<leftarrow>all_list k. claims l (calls (threads kk u))) = (\<Sum>u\<leftarrow>all_list k. claims l (calls (threads k u)))"
        by (rule arg_cong)
      then show ?thesis unfolding all using pg r(3) by simp
    qed
    moreover have "locks (threads kk u) = locks (threads k u) \<and> alive_sema (threads kk u) = alive_sema (threads k u)"
      if "u \<in> set (all_list k)" for u using cur oth' [OF that] by (cases "u = ?t") auto
    moreover have "0 \<notin> lock_semas L" by (auto simp: lock_semas_def lock_semaphore_def)
    ultimately show ?thesis using K pg r hp unfolding locks_ok_def same all by auto
  qed
  moreover have "wakeups_ok kk"
  proof -
    have "filter (\<lambda>t. status (threads kk t) \<noteq> THREAD_BLOCKED \<and> at_sema (calls (threads kk t)) = Some s) (all_list k) = woken k s" for s
      unfolding woken_def
    proof (intro filter_cong refl)
      fix u assume "u \<in> set (all_list k)"
      then show "(status (threads kk u) \<noteq> THREAD_BLOCKED \<and> at_sema (calls (threads kk u)) = Some s) =
          (status (threads k u) \<noteq> THREAD_BLOCKED \<and> at_sema (calls (threads k u)) = Some s)"
        using oth' [of u] cur cs by (cases "u = ?t") auto
    qed
    then have "woken kk s = woken k s" for s unfolding woken_def all using pg r by simp
    then show ?thesis using W unfolding wakeups_ok_def same by simp
  qed
  ultimately have c: "core L kk" by (simp add: core_def)
  have "kernel_inv L kk" unfolding kernel_inv_def same all cur using c j by (auto simp: kk_def push_calls_def upd_thread_def)
  then show ?thesis using r(1) page(2) by (simp add: thread_create_def kk_def)
qed

lemma thread_create_tail_eq:
  assumes "is_thread k t" "\<not> in_external_intr k" "ls \<noteq> 0" "as \<noteq> 0"
  shows "\<exists>r. thread_create_tail t f ls as k = thread_unblock t (k\<lparr>threads := (threads k)(t := r),
      semas := (semas k)(ls := \<lparr>sema_value = 0, waiters = []\<rparr>, as := \<lparr>sema_value = 0, waiters = []\<rparr>)\<rparr>) \<and>
    status r = status (threads k t) \<and> calls r = [Kernel_thread f] \<and> locks r = locks (threads k t) \<and>
    alive_sema r = as \<and> magic r = magic (threads k t)"
  using assms
  by (intro exI [of _ "(threads k t)\<lparr>stack := stack (threads k t) - 12 - 4 - 28, calls := [Kernel_thread f], loaded_sema := ls, alive_sema := as\<rparr>"])
    (cases "intr_level k"; simp add: thread_create_tail_def Let_def alloc_frame_def is_thread_def upd_thread_def intr_disable_def
      intr_set_level_def intr_enable_def sema_init_def upd_sema_def;
      intro arg_cong [of _ _ "thread_unblock t"] kernel.equality; simp)

lemma thread_create_tail_inv:
  assumes inv: "kernel_inv L k" and cs: "current_calls k = Thread_create_tail t f # cs"
    and fresh: "fresh_sema L k ls" "fresh_sema L k as"
  shows "\<exists>k'. thread_create_tail t f ls as (pop_call k) = Some k' \<and> kernel_inv L k'"
proof -
  note j = kernel_invD [OF inv]
  note L = coreD(1) [OF j(1)] and S = coreD(2) [OF j(1)] and B = coreD(3) [OF j(1)] and K = coreD(4) [OF j(1)] and W = coreD(5) [OF j(1)]
  let ?c = "running_thread k" and ?z = "\<lparr>sema_value = 0, waiters = []\<rparr> :: semaphore"
  have f: "intr_level k = INTR_ON" "\<exists>n. f = Function n" "frames_ok L (held L k ?c) INTR_ON cs" using j(5) cs by auto
  have tb: "t \<in> set (all_list k)" "calls (threads k t) = []" using births_subset [OF B j(3), of t] cs by auto
  have ne: "t \<noteq> ?c" using tb cs by auto
  have st: "status (threads k t) = THREAD_BLOCKED" "held L k t = {}" using so_other [OF S tb(1) ne] tb(2) by auto
  have nid: "t \<noteq> idle_thread k" using idle_stack_simps [OF so_idle [OF S]] tb(2) by auto
  have idn: "?c \<noteq> idle_thread k" using running_not_idle [OF inv] cs by simp
  have below: "list_all below cs" using j(6) cs by simp
  have thr: "is_thread k t" using lo_thread [OF L tb(1)] by simp
  have pop: "threads (pop_call k) = (threads k)(?c := (threads k ?c)\<lparr>calls := cs\<rparr>)" using cs by (simp add: pop_call_def upd_thread_def)
  obtain r where r: "thread_create_tail t f ls as (pop_call k) = thread_unblock t ((pop_call k)\<lparr>threads := (threads (pop_call k))(t := r),
      semas := (semas (pop_call k))(ls := ?z, as := ?z)\<rparr>)"
    "status r = THREAD_BLOCKED" "calls r = [Kernel_thread f]" "locks r = locks (threads k t)" "alive_sema r = as"
    "magic r = magic (threads k t)"
    using thread_create_tail_eq [of "pop_call k" t ls as f] fresh thr j(4) pop ne st
    by (auto simp: fresh_sema_def is_thread_def pop_call_def upd_thread_def)
  define k1 where "k1 = (pop_call k)\<lparr>threads := (threads (pop_call k))(t := r), semas := (semas (pop_call k))(ls := ?z, as := ?z)\<rparr>"
  define kk where "kk = upd_thread t (\<lambda>r. r\<lparr>status := THREAD_READY\<rparr>) (k1\<lparr>ready_list := ready_list k1 @ [t]\<rparr>)"
  have cur: "threads kk ?c = (threads k ?c)\<lparr>calls := cs\<rparr>" and tt: "threads kk t = r\<lparr>status := THREAD_READY\<rparr>"
    and oth: "u \<noteq> ?c \<Longrightarrow> u \<noteq> t \<Longrightarrow> threads kk u = threads k u" for u
    using ne pop by (simp_all add: kk_def k1_def upd_thread_def)
  have same: "ready_list kk = ready_list k @ [t]" "sleeping_list kk = sleeping_list k" "idle_thread kk = idle_thread k"
    "running_thread kk = ?c" "lock_holder kk = lock_holder k" "conds kk = conds k" "held L kk = held L k" "intr_level kk = intr_level k"
    "all_list kk = all_list k" "semas kk = (semas k)(ls := ?z, as := ?z)"
    by (auto simp: kk_def k1_def upd_thread_def held_def pop_call_def)
  have tri: "u = t \<or> u = ?c \<or> u \<noteq> t \<and> u \<noteq> ?c" for u by blast
  have sw: "waiters (semas kk s) = waiters (semas k s)" for s using fresh by (simp add: same fresh_sema_def)
  have "lists_ok kk"
  proof (rule lists_okI)
    fix u assume "u \<in> set (all_list kk)"
    then have u: "u \<in> set (all_list k)" by (simp add: same)
    show "is_thread kk u \<and> status (threads kk u) \<noteq> THREAD_DYING \<and>
       (status (threads kk u) = THREAD_RUNNING \<longrightarrow> u = running_thread kk)"
    proof (cases "u = t")
      case True
      then show ?thesis using tt r(6) thr by (simp add: is_thread_def)
    next
      case False
      have old: "is_thread k u" "status (threads k u) \<noteq> THREAD_DYING" "u \<noteq> ?c \<Longrightarrow> status (threads k u) \<noteq> THREAD_RUNNING"
        using lo_thread [OF L u] by blast+
      show ?thesis
      proof (cases "u = ?c")
        case True
        then show ?thesis using old(1,2) cur by (simp add: is_thread_def same)
      next
        case ne: False
        then show ?thesis using old(1,2) old(3) [OF ne] oth [OF ne False] by (simp add: is_thread_def)
      qed
    qed
  next
    fix u
    have e: "(u \<in> set (ready_list k)) = (u \<in> set (all_list k) \<and> status (threads k u) = THREAD_READY \<and> u \<noteq> idle_thread k)"
      by (rule lo_ready [OF L])
    show "u \<in> set (ready_list kk) \<longleftrightarrow> u \<in> set (all_list kk) \<and> status (threads kk u) = THREAD_READY \<and> u \<noteq> idle_thread kk"
      unfolding same set_append Un_iff e using tri [of u] ne by (elim disjE conjE) (simp_all add: tt cur tb nid oth j(2))
  next
    fix s u
    have e: "(u \<in> set (waiters (semas kk s))) = (u \<in> set (all_list k) \<and> status (threads k u) = THREAD_BLOCKED \<and> at_sema (calls (threads k u)) = Some s)"
      unfolding sw by (rule lo_waiters [OF L])
    consider "u = t" | "u = ?c" | "u \<noteq> t" "u \<noteq> ?c" by blast
    then show "u \<in> set (waiters (semas kk s)) \<longleftrightarrow>
       u \<in> set (all_list kk) \<and> status (threads kk u) = THREAD_BLOCKED \<and> at_sema (calls (threads kk u)) = Some s"
      unfolding e same(9) by cases (simp_all add: tt cur tb j(2) oth)
  next
    fix u
    have e: "(u \<in> set (sleeping_list kk)) = (u \<in> set (all_list k) \<and> asleep (status (threads k u)) (calls (threads k u)))"
      unfolding same(2) by (rule lo_sleeping [OF L])
    consider "u = t" | "u = ?c" | "u \<noteq> t" "u \<noteq> ?c" by blast
    then show "u \<in> set (sleeping_list kk) \<longleftrightarrow> u \<in> set (all_list kk) \<and> asleep (status (threads kk u)) (calls (threads kk u))"
      unfolding e same(9) by cases (simp_all add: tt cur tb r(3) cs below_not_waiting [OF below] oth)
  next
    show "distinct (ready_list kk)" using lo_distinct [OF L] lo_ready [OF L, of t] st by (simp add: same)
  next
    fix s show "distinct (waiters (semas kk s))" using lo_distinct [OF L] by (simp add: sw)
  qed (use lo_distinct [OF L] lo_idle [OF L] in \<open>simp_all add: same\<close>)
  moreover have "stacks_ok L kk"
  proof (rule stacks_okI)
    show "frames_ok L (held L kk (running_thread kk)) (intr_level kk) (current_calls kk)" unfolding same cur using f by simp
  next
    fix u assume "u \<in> set (all_list kk)" "u \<noteq> running_thread kk"
    then show "calls (threads kk u) = [] \<and> status (threads kk u) = THREAD_BLOCKED \<and> held L kk u = {} \<or>
      frames_ok L (held L kk u) INTR_OFF (calls (threads kk u))"
      unfolding same using so_other [OF S, of u] tt r(3) st f(2) oth [of u] by (cases "u = t") auto
  next
    fix u assume "u \<in> set (all_list kk)"
    then have "list_all below (tl (calls (threads k u)))" unfolding same using so_below [OF S] by blast
    moreover have "list_all below (tl cs)" using below by (cases cs) auto
    ultimately show "list_all below (tl (calls (threads kk u)))"
      using tri [of u] by (elim disjE conjE) (simp_all add: cur tt r(3) oth)
  qed (use so_idle [OF S] oth [of "idle_thread k"] nid idn in \<open>auto simp: same\<close>)
  moreover have "births_ok kk"
  proof -
    let ?b = "\<lambda>u. births (calls (threads k u))"
    have d: "distinct (concat (map ?b (all_list k)))" using B by (simp add: births_ok_def)
    have bu: "births (calls (threads kk u)) = (if u = ?c then births cs else ?b u)" for u
      using tri [of u] ne by (elim disjE conjE) (simp_all add: cur tt r(3) oth tb(2))
    have bc: "?b ?c = t # births cs" using cs by simp
    show ?thesis unfolding births_ok_def same
    proof (intro conjI ballI)
      show "distinct (concat (map (\<lambda>u. births (calls (threads kk u))) (all_list k)))"
        by (rule distinct_concat_subset [OF d]) (use bu bc in auto)
      fix u b assume u: "u \<in> set (all_list k)" and b: "b \<in> set (births (calls (threads kk u)))"
      have b': "b \<in> set (?b u)" using b bu [of u] bc by (auto split: if_splits)
      have "distinct (?b ?c)" using d j(3) by (auto simp: distinct_concat_iff)
      then have "b \<noteq> t" using b bu [of u] bc distinct_concat_disjoint [OF d u j(3) b'] by (auto split: if_splits)
      moreover have "b \<noteq> ?c" using births_subset [OF B u b'] cs by auto
      ultimately show "b \<in> set (all_list k)" "calls (threads kk b) = []" using births_subset [OF B u b'] oth [of b] by auto
    qed
  qed
  moreover have "locks_ok L kk"
  proof -
    have lv: "sema_value (semas kk (lock_semaphore l)) = sema_value (semas k (lock_semaphore l))" if "l \<in> L" for l
      using fresh that by (auto simp: same fresh_sema_def lock_semas_def)
    have lc: "claims l (calls (threads kk u)) = claims l (calls (threads k u))" for l u
      using tri [of u] by (elim disjE conjE) (simp_all add: cur tt r(3) tb(2) cs oth)
    have lr: "locks (threads kk u) = locks (threads k u) \<and> (alive_sema (threads kk u) = alive_sema (threads k u) \<or> alive_sema (threads kk u) = as)" for u
      using tri [of u] by (elim disjE conjE) (simp_all add: cur tt r oth)
    have la: "alive_sema (threads kk u) \<notin> lock_semas L" if "u \<in> set (all_list k)" for u
      using lr [of u] fresh(2) K that unfolding locks_ok_def fresh_sema_def by auto
    show ?thesis using K la unfolding locks_ok_def same(5-9) lc by (simp add: lv lr)
  qed
  moreover have "wakeups_ok kk"
  proof -
    have "length (woken k s) \<le> length (woken kk s)" for s
    proof (rule woken_cong [OF same(9)])
      fix u assume "at_sema (calls (threads k u)) = Some s" "status (threads k u) \<noteq> THREAD_BLOCKED"
      then show "at_sema (calls (threads kk u)) = Some s \<and> status (threads kk u) \<noteq> THREAD_BLOCKED"
        using tri [of u] by (elim disjE conjE) (simp_all add: cs tb oth)
    qed
    moreover have "sema_value (semas kk s) \<le> sema_value (semas k s)" for s by (simp add: same)
    ultimately show ?thesis using W unfolding wakeups_ok_def sw by (meson le_trans)
  qed
  ultimately have c: "core L kk" by (simp add: core_def)
  have "\<exists>k'. thread_unblock t k1 = Some k' \<and> all_list k' = all_list k1 \<and> (\<not> in_external_intr k1 \<longrightarrow> kernel_inv L k') \<and>
      (in_external_intr k1 \<longrightarrow> (\<exists>y. k' = kk\<lparr>yield_on_return := y\<rparr>))"
    unfolding kk_def
    by (rule thread_unblock_inv) (use c j below tb r(2) pop ne in \<open>auto simp: kk_def k1_def pop_call_def upd_thread_def cs\<close>)
  then show ?thesis using r(1) j(4) by (auto simp: k1_def pop_call_def upd_thread_def)
qed

section \<open>Pending calls\<close>

text \<open>
  The lemmas are stated for a state \<open>k\<close> in which the running thread of \<open>k0\<close> has the stack \<open>cs\<close>:
  the rest of the stack for a pending call, the whole stack for a call of a thread body.
\<close>

definition with_calls :: "kernel \<Rightarrow> call list \<Rightarrow> intr_level \<Rightarrow> kernel" where
  "with_calls k cs v = upd_thread (running_thread k) (\<lambda>r. r\<lparr>calls := cs\<rparr>) (k\<lparr>intr_level := v\<rparr>)"

lemma with_calls_simps [simp]:
  "threads (with_calls k cs v) = (threads k)(running_thread k := (threads k (running_thread k))\<lparr>calls := cs\<rparr>)"
  "running_thread (with_calls k cs v) = running_thread k" "intr_level (with_calls k cs v) = v"
  "semas (with_calls k cs v) = semas k" "lock_holder (with_calls k cs v) = lock_holder k"
  "conds (with_calls k cs v) = conds k" "all_list (with_calls k cs v) = all_list k"
  "ready_list (with_calls k cs v) = ready_list k" "sleeping_list (with_calls k cs v) = sleeping_list k"
  "in_external_intr (with_calls k cs v) = in_external_intr k" "idle_thread (with_calls k cs v) = idle_thread k"
  "timer_count (with_calls k cs v) = timer_count k"
  by (simp_all add: with_calls_def upd_thread_def)

lemma push_with_calls [simp]: "push_calls ds (with_calls k cs v) = with_calls k (ds @ cs) v"
  by (simp add: push_calls_def with_calls_def upd_thread_def)

lemma level_with_calls [simp]: "(with_calls k cs v)\<lparr>intr_level := w\<rparr> = with_calls k cs w"
  "intr_disable (with_calls k cs v) = with_calls k cs INTR_OFF"
  by (simp_all add: intr_disable_def with_calls_def upd_thread_def)

lemma intr_set_level_with_calls [simp]:
  "\<not> in_external_intr k \<Longrightarrow> intr_set_level w (with_calls k cs v) = Some (with_calls k cs w)"
  by (cases w) (simp_all add: intr_set_level_def intr_enable_def)

lemma pop_call_with_calls: "current_calls k = c # cs \<Longrightarrow> pop_call k = with_calls k cs (intr_level k)"
  by (simp add: pop_call_def with_calls_def upd_thread_def)

lemma self_with_calls: "k = with_calls k (current_calls k) (intr_level k)"
  by (simp add: with_calls_def upd_thread_def)

lemma thread_current_with_calls [simp]:
  "kernel_inv L k \<Longrightarrow> thread_current (with_calls k cs v) = Some (running_thread k)"
  using thread_current_inv [of L k] by (auto simp: thread_current_def is_thread_def ASSERT_def split: if_splits)

lemma held_with_calls [simp]: "held L (with_calls k cs v) = held L k"
  by (simp add: held_def fun_eq_iff)

lemma with_calls_inv:
  assumes inv: "kernel_inv L k"
    and top: "list_all below (current_calls k)" "list_all below cs"
    and b: "births cs = births (current_calls k)" and cl: "\<And>l. l \<in> L \<Longrightarrow> claims l cs = claims l (current_calls k)"
    and f: "frames_ok L (held L k (running_thread k)) v cs"
    and i: "idle_stack (current_calls k) \<Longrightarrow> running_thread k = idle_thread k \<Longrightarrow> idle_stack cs"
  shows "kernel_inv L (with_calls k cs v)"
proof -
  have "list_all below (tl cs)" using top(2) by (cases cs) auto
  then show ?thesis unfolding with_calls_def
    using below_not_waiting [OF top(1)] below_not_waiting [OF top(2)] by (intro calls_inv [OF inv _ _ b cl f _ i]) auto
qed

lemma conds_inv:
  assumes inv: "kernel_inv L k" and c: "\<And>c w. w \<in> set (cd c) \<Longrightarrow> elem_semaphore w \<notin> lock_semas L"
  shows "kernel_inv L (k\<lparr>conds := cd\<rparr>)"
proof -
  note j = kernel_invD [OF inv]
  have "core L (k\<lparr>conds := cd\<rparr>)"
  proof (rule core_cur [OF j(1-3)])
    fix t show "t \<in> set (sleeping_list (k\<lparr>conds := cd\<rparr>)) \<longleftrightarrow>
      (if t = running_thread k then asleep THREAD_RUNNING (calls (threads (k\<lparr>conds := cd\<rparr>) t)) else t \<in> set (sleeping_list k))"
      using sleeping_cur [OF inv, of t] by (auto split: if_splits)
  next
    show "wakeups_ok (k\<lparr>conds := cd\<rparr>)" using coreD(5) [OF j(1)] by (simp add: wakeups_ok_def woken_def)
  qed (use c j lo_distinct [OF coreD(1) [OF j(1)]] in auto)
  then show ?thesis using inv by (simp add: kernel_inv_def)
qed

lemma lock_semaphore_inject [simp]: "lock_semaphore l = lock_semaphore l' \<longleftrightarrow> l = l'"
  by (simp add: lock_semaphore_def)

lemma semaphore_nonzero [simp]: "lock_semaphore l \<noteq> 0" "elem_semaphore e \<noteq> 0"
  by (simp_all add: lock_semaphore_def elem_semaphore_def)

lemma lock_acquire_inv:
  assumes inv: "kernel_inv L k" and k: "k' = with_calls k cs INTR_ON" and l: "l \<in> L" "l \<notin> held L k (running_thread k)"
    and top: "list_all below (current_calls k)" "list_all below cs" and b: "births cs = births (current_calls k)"
    and cl: "\<And>l. l \<in> L \<Longrightarrow> claims l cs = claims l (current_calls k)"
    and f: "frames_ok L (insert l (held L k (running_thread k))) INTR_ON cs" and i: "\<not> idle_stack (current_calls k)"
  shows "\<exists>k''. lock_acquire l k' = Some k'' \<and> kernel_inv L k''"
proof -
  note j = kernel_invD [OF inv]
  have "l \<noteq> 0" using zero_not_lock [OF j(1)] l(1) by metis
  then have "lock_acquire l k' = Some (with_calls k (Sema_down (lock_semaphore l) # Lock_acquired l # cs) INTR_ON)"
    using inv l j(4) by (simp add: k lock_acquire_def lock_held_by_current_thread_def held_def)
  moreover have "kernel_inv L (with_calls k (Sema_down (lock_semaphore l) # Lock_acquired l # cs) INTR_ON)"
    by (rule with_calls_inv [OF inv]) (use top b cl f i l in auto)
  ultimately show ?thesis by blast
qed

lemma signal_search:
  "\<exists>h. foldM (signal_step k) (p, e) es = Some h \<and> snd h \<in> insert e (set es)"
proof (induction es arbitrary: p e)
  case (Cons x xs)
  let ?ws = "waiters (semas k (elem_semaphore x))"
  obtain h where h: "signal_step k (p, e) x = Some h" "snd h = e \<or> snd h = x"
  proof (cases "?ws = []")
    case True
    then show ?thesis using that by (simp add: signal_step_def)
  next
    case False
    then obtain t where "list_highest_priority_thread k ?ws = Some t" using highest_priority_Some by blast
    then show ?thesis using that False by (auto simp: signal_step_def Let_def split: if_splits)
  qed
  then show ?case using Cons [of "fst h" "snd h"] by auto
qed simp

lemma cond_signal_inv:
  assumes inv: "kernel_inv L k" and k: "k' = with_calls k cs INTR_ON" and l: "l \<in> held L k (running_thread k)" and c: "c \<noteq> 0"
    and top: "list_all below (current_calls k)" "list_all below cs" and b: "births cs = births (current_calls k)"
    and cl: "\<And>l. l \<in> L \<Longrightarrow> claims l cs = claims l (current_calls k)"
    and f: "frames_ok L (held L k (running_thread k)) INTR_ON cs" and i: "\<not> idle_stack (current_calls k)"
  shows "\<exists>k''. cond_signal c l k' = Some k'' \<and> kernel_inv L k''"
proof -
  note j = kernel_invD [OF inv]
  have l0: "l \<noteq> 0" using zero_not_lock [OF j(1)] l unfolding held_def by (metis (no_types, lifting) mem_Collect_eq)
  have hold: "lock_holder k l = running_thread k" using l by (simp add: held_def)
  have invc: "kernel_inv L k'" unfolding k by (rule with_calls_inv [OF inv top b cl f]) (use i in auto)
  show ?thesis
  proof (cases "conds k c = []")
    case True
    then have "cond_signal c l k' = Some k'"
      using inv l0 hold c j(4) by (simp add: k cond_signal_def lock_held_by_current_thread_def)
    then show ?thesis using invc by blast
  next
    case False
    obtain h where h: "foldM (signal_step k') (- 1, hd (conds k c)) (conds k c) = Some h"
        "snd h \<in> insert (hd (conds k c)) (set (conds k c))"
      using signal_search [of k' "- 1" "hd (conds k c)" "conds k c"] by blast
    have e: "snd h \<in> set (conds k c)" using h(2) False by (cases "conds k c") auto
    let ?k1 = "with_calls k (Sema_up (elem_semaphore (snd h)) # cs) INTR_ON"
    have ne: "elem_semaphore (snd h) \<notin> lock_semas L" using conds_not_locks [OF j(1) e] .
    have "kernel_inv L ?k1"
      by (rule with_calls_inv [OF inv]) (use top b cl f i ne in \<open>auto simp: lock_semas_def\<close>)
    then have "kernel_inv L (?k1\<lparr>conds := (conds k)(c := remove1 (snd h) (conds k c))\<rparr>)"
    proof (rule conds_inv)
      fix d w assume "w \<in> set (((conds k)(c := remove1 (snd h) (conds k c))) d)"
      then have "\<exists>d. w \<in> set (conds k d)" using set_remove1_subset [of "snd h" "conds k c"] by (auto split: if_splits)
      then show "elem_semaphore w \<notin> lock_semas L" using conds_not_locks [OF j(1)] by blast
    qed
    moreover have "cond_signal c l k' = Some (?k1\<lparr>conds := (conds k)(c := remove1 (snd h) (conds k c))\<rparr>)"
      using inv l0 hold c j(4) False h(1)
      by (cases h) (simp add: k cond_signal_def lock_held_by_current_thread_def, simp add: push_calls_def with_calls_def upd_thread_def)
    ultimately show ?thesis by blast
  qed
qed

lemma cond_broadcast_inv:
  assumes inv: "kernel_inv L k" and k: "k' = with_calls k cs INTR_ON" and l: "l \<in> held L k (running_thread k)" and c: "c \<noteq> 0"
    and top: "list_all below (current_calls k)" "list_all below cs" and b: "births cs = births (current_calls k)"
    and cl: "\<And>l. l \<in> L \<Longrightarrow> claims l cs = claims l (current_calls k)"
    and f: "frames_ok L (held L k (running_thread k)) INTR_ON cs" and i: "\<not> idle_stack (current_calls k)"
  shows "\<exists>k''. cond_broadcast c l k' = Some k'' \<and> kernel_inv L k''"
proof -
  have "l \<noteq> 0" using zero_not_lock [OF kernel_invD(1) [OF inv]] l unfolding held_def by (metis (no_types, lifting) mem_Collect_eq)
  moreover have "kernel_inv L k'" unfolding k by (rule with_calls_inv [OF inv top b cl f]) (use i in auto)
  moreover have "kernel_inv L (with_calls k (Cond_signal c l # Cond_broadcast c l # cs) INTR_ON)"
    by (rule with_calls_inv [OF inv]) (use top b cl f i l c in auto)
  ultimately show ?thesis using c by (simp add: k cond_broadcast_def)
qed

text \<open>Every pending call of the running thread runs without a fault and keeps the invariant.\<close>

lemma exec_inv:
  assumes inv: "kernel_inv L k" and cs: "current_calls k = c # cs" and nf: "\<forall>n. c \<noteq> Function n"
    and fresh: "fresh_sema L k (fst m)" "fresh_sema L k (snd m)"
  shows "\<exists>k'. exec m k = Some k' \<and> kernel_inv L k'"
proof -
  note j = kernel_invD [OF inv]
  have f: "frames_ok L (held L k (running_thread k)) (intr_level k) (c # cs)" using j(5) cs by simp
  have bl: "list_all below cs" using j(6) cs by simp
  have ex: "exec m k = run_call m c (with_calls k cs (intr_level k))"
    using cs pop_call_with_calls [OF cs] by (simp add: exec_def)
  have move: "kernel_inv L (with_calls k ds v)"
    if "below c" "list_all below ds" "births ds = births (c # cs)" "\<And>l. l \<in> L \<Longrightarrow> claims l ds = claims l (c # cs)"
      "frames_ok L (held L k (running_thread k)) v ds" "idle_stack (c # cs) \<Longrightarrow> running_thread k = idle_thread k \<Longrightarrow> idle_stack ds" for ds v
    by (rule with_calls_inv [OF inv]) (use that bl cs in auto)
  show ?thesis
  proof (cases c)
    case (Kernel_thread g)
    then have "exec m k = Some (with_calls k [g, Thread_exit] INTR_ON)" using f j(4) by (simp add: ex kernel_thread_def intr_enable_def)
    moreover have "kernel_inv L (with_calls k [g, Thread_exit] INTR_ON)" by (rule move) (use Kernel_thread f in auto)
    ultimately show ?thesis by blast
  next
    case (Intr_set_level w)
    then have "exec m k = Some (with_calls k cs w)" using j(4) by (simp add: ex)
    moreover have "kernel_inv L (with_calls k cs w)" by (rule move) (use Intr_set_level f bl in auto)
    ultimately show ?thesis by blast
  next
    case Intr_return
    then have "exec m k = Some (with_calls k cs INTR_ON)" by (simp add: ex)
    moreover have "kernel_inv L (with_calls k cs INTR_ON)" by (rule move) (use Intr_return f bl in auto)
    ultimately show ?thesis by blast
  next
    case Thread_exit
    then have "\<exists>k'. thread_exit (with_calls k cs (intr_level k)) = Some k' \<and> kernel_inv L k'"
      by (intro thread_exit_inv [OF inv, of _ cs]) (use f cs in \<open>auto simp: with_calls_def upd_thread_def\<close>)
    then show ?thesis using Thread_exit by (simp add: ex)
  next
    case Thread_exit_tail
    then show ?thesis using thread_exit_tail_inv [OF inv] cs pop_call_with_calls [OF cs] by (simp add: ex)
  next
    case (Allocate_tid t)
    have "kernel_inv L (with_calls k cs (intr_level k))" by (rule move) (use Allocate_tid f bl in auto)
    then have "kernel_inv L (allocate_tid t (with_calls k cs (intr_level k)))"
      by (rule kernel_inv_cong) (auto simp: same_view_def view_def allocate_tid_def upd_thread_def)
    then show ?thesis using Allocate_tid by (simp add: ex)
  next
    case (Thread_create_tail t g)
    then show ?thesis using thread_create_tail_inv [OF inv _ fresh] cs pop_call_with_calls [OF cs] by (simp add: ex)
  next
    case Idle_loop
    have "\<exists>k''. thread_block (push_calls [Idle_wait] (intr_disable (pop_call k))) = Some k'' \<and> kernel_inv L k'' \<and> all_list k'' = all_list k"
      by (rule block_core [OF inv, of "Idle_wait # cs"]) (use Idle_loop f cs bl in auto)
    then show ?thesis using Idle_loop pop_call_with_calls [OF cs] by (auto simp: ex idle_loop_def)
  next
    case Idle_wait
    then have "exec m k = Some (with_calls k (Idle_loop # cs) INTR_ON)" by (simp add: ex idle_wait_def)
    moreover have "kernel_inv L (with_calls k (Idle_loop # cs) INTR_ON)" by (rule move) (use Idle_wait f bl in auto)
    ultimately show ?thesis by blast
  next
    case (Sema_down s)
    have "\<exists>k'. sema_down s (with_calls k cs (intr_level k)) = Some k' \<and> kernel_inv L k' \<and> all_list k' = all_list k"
      by (rule sema_down_inv [OF inv, of _ cs]) (use Sema_down f cs bl in \<open>auto simp: with_calls_def upd_thread_def\<close>)
    then show ?thesis using Sema_down by (auto simp: ex)
  next
    case (Sema_down_loop s w)
    then show ?thesis using sema_down_loop_inv [OF inv, of s w cs] cs pop_call_with_calls [OF cs] by (auto simp: ex)
  next
    case (Sema_up s)
    have "\<exists>k'. sema_up s (with_calls k cs (intr_level k)) = Some k' \<and> kernel_inv L k' \<and> all_list k' = all_list k"
      by (rule sema_up_call [OF inv, of _ cs "intr_level k"]) (use Sema_up f cs bl in \<open>auto simp: with_calls_def upd_thread_def\<close>)
    then show ?thesis using Sema_up by (auto simp: ex)
  next
    case (Lock_acquire l)
    have "\<exists>k''. lock_acquire l (with_calls k cs (intr_level k)) = Some k'' \<and> kernel_inv L k''"
      by (rule lock_acquire_inv [OF inv, of _ cs]) (use Lock_acquire f cs bl in auto)
    then show ?thesis using Lock_acquire by (auto simp: ex)
  next
    case (Lock_acquired l)
    then show ?thesis using lock_acquired_inv [OF inv] cs pop_call_with_calls [OF cs] by (simp add: ex)
  next
    case (Lock_release l)
    have "\<exists>k'. lock_release l (with_calls k cs (intr_level k)) = Some k' \<and> kernel_inv L k' \<and> all_list k' = all_list k"
      by (rule lock_release_inv [OF inv, of _ cs]) (use Lock_release f cs bl in \<open>auto simp: with_calls_def upd_thread_def\<close>)
    then show ?thesis using Lock_release by (auto simp: ex)
  next
    case (Cond_signal d l)
    have "\<exists>k''. cond_signal d l (with_calls k cs (intr_level k)) = Some k'' \<and> kernel_inv L k''"
      by (rule cond_signal_inv [OF inv, of _ cs]) (use Cond_signal f cs bl in auto)
    then show ?thesis using Cond_signal by (auto simp: ex)
  next
    case (Cond_broadcast d l)
    have "\<exists>k''. cond_broadcast d l (with_calls k cs (intr_level k)) = Some k'' \<and> kernel_inv L k''"
      by (rule cond_broadcast_inv [OF inv, of _ cs]) (use Cond_broadcast f cs bl in auto)
    then show ?thesis using Cond_broadcast by (auto simp: ex)
  next
    case Timer_sleep_block
    have "\<exists>k''. thread_block (push_calls [Timer_sleep_end INTR_ON] (intr_disable (pop_call k))) = Some k'' \<and> kernel_inv L k'' \<and> all_list k'' = all_list k"
      by (rule block_core [OF inv, of "Timer_sleep_end INTR_ON # cs"]) (use Timer_sleep_block f cs bl in auto)
    then show ?thesis using Timer_sleep_block f pop_call_with_calls [OF cs] by (auto simp: ex timer_sleep_block_def Let_def)
  next
    case (Timer_sleep_end w)
    have bt: "list_all below (tl cs)" using bl by (cases cs) auto
    have "kernel_inv L (with_calls k cs w)" unfolding with_calls_def
      by (rule calls_inv [OF inv]) (use Timer_sleep_end f bt cs below_not_waiting [OF bl] in auto)
    then show ?thesis using Timer_sleep_end j(4) by (simp add: ex)
  qed (use f nf in auto)
qed


section \<open>Calls of a thread body\<close>

lemma wakeups_mono:
  assumes "wakeups_ok k" "\<And>s. waiters (semas k' s) = waiters (semas k s)"
    "\<And>s. sema_value (semas k' s) \<le> sema_value (semas k s)" "\<And>s. length (woken k s) \<le> length (woken k' s)"
  shows "wakeups_ok k'"
  unfolding wakeups_ok_def
proof (intro allI impI)
  fix s assume "waiters (semas k' s) \<noteq> []"
  then have "sema_value (semas k s) \<le> length (woken k s)" using assms(1,2) by (simp add: wakeups_ok_def)
  then show "sema_value (semas k' s) \<le> length (woken k' s)" using assms(3,4) [of s] by linarith
qed

text \<open>\<^verbatim>\<open>sema_try_down\<close> takes a unit of a semaphore; for a lock it leaves a claim.\<close>

lemma sema_try_down_inv:
  assumes inv: "kernel_inv L k" and cs: "current_calls k = Function n # cs" and pos: "sema_value (semas k s) > 0"
    and ds: "s \<notin> lock_semas L \<and> ds = current_calls k \<or>
      (\<exists>l\<in>L. s = lock_semaphore l \<and> l \<notin> held L k (running_thread k) \<and> ds = Lock_acquired l # current_calls k)"
  shows "kernel_inv L (upd_sema s (\<lambda>r. r\<lparr>sema_value := sema_value r - 1\<rparr>) (with_calls k ds INTR_ON))" (is "kernel_inv L ?k")
proof -
  note j = kernel_invD [OF inv]
  have f: "intr_level k = INTR_ON" "cs = [Thread_exit]" using j(5) cs by auto
  have nw: "at_sema (current_calls k) = None" "at_sema ds = None" "\<not> asleep THREAD_RUNNING ds" "births ds = births (current_calls k)"
    "list_all below (tl ds)" "\<not> idle_stack (current_calls k)"
    using ds cs f(2) by auto
  have fr: "frames_ok L (held L k (running_thread k)) INTR_ON ds" using ds cs f by auto
  have "core L ?k"
  proof (rule core_cur [OF j(1-3)])
    fix t show "t \<in> set (sleeping_list ?k) \<longleftrightarrow>
      (if t = running_thread k then asleep THREAD_RUNNING (calls (threads ?k t)) else t \<in> set (sleeping_list k))"
      using sleeping_cur [OF inv, of t] nw cs by (auto simp: upd_sema_def split: if_splits)
  next
    fix l assume l: "l \<in> L"
    show "int (sema_value (semas ?k (lock_semaphore l))) + claims l (calls (threads ?k (running_thread k))) =
      int (sema_value (semas k (lock_semaphore l))) + claims l (current_calls k)"
      using ds pos l by (auto simp: upd_sema_def lock_semas_def)
  next
    show "wakeups_ok ?k"
    proof (rule wakeups_mono [OF coreD(5) [OF j(1)]])
      fix s' show "length (woken k s') \<le> length (woken ?k s')"
        by (rule woken_cong) (use nw in \<open>auto simp: upd_sema_def\<close>)
    qed (simp_all add: upd_sema_def)
  next
    fix c w assume "w \<in> set (conds ?k c)"
    then show "elem_semaphore w \<notin> lock_semas L" using conds_not_locks [OF j(1)] by (simp add: upd_sema_def)
  qed (use nw fr j lo_distinct [OF coreD(1) [OF j(1)]] in \<open>auto simp: upd_sema_def\<close>)
  then show ?thesis using j by (simp add: kernel_inv_def upd_sema_def)
qed

lemma yield_or_mark_inv:
  assumes "kernel_inv L k" "list_all below (current_calls k)"
  shows "\<exists>k'. yield_or_mark k = Some k' \<and> kernel_inv L k'"
  using thread_yield_inv [OF assms] kernel_invD [OF assms(1)] by (auto simp: yield_or_mark_def)

lemma set_priority_inv:
  assumes inv: "kernel_inv L k" and b: "list_all below (current_calls k)"
  shows "\<exists>k'. thread_set_priority p k = Some k' \<and> kernel_inv L k'" "\<exists>k'. thread_set_nice n k = Some k' \<and> kernel_inv L k'"
proof -
  let ?t = "running_thread k"
  have *: "\<exists>k''. (if ready_list k' \<noteq> [] then do { h \<leftarrow> list_highest_priority_thread k' (ready_list k');
      if q k' h then yield_or_mark k' else Some k' } else Some k') = Some k'' \<and> kernel_inv L k''"
    if sv: "same_view k k'" "in_external_intr k' = in_external_intr k" for k' and q :: "kernel \<Rightarrow> ptr \<Rightarrow> bool"
  proof -
    have inv': "kernel_inv L k'" by (rule kernel_inv_cong [OF inv sv])
    have b': "list_all below (current_calls k')" using b sv kernel_invD(3) [OF inv] by (auto simp: same_view_def view_def)
    show ?thesis
    proof (cases "ready_list k' = []")
      case False
      then obtain h where "list_highest_priority_thread k' (ready_list k') = Some h" using highest_priority_Some by blast
      then show ?thesis using yield_or_mark_inv [OF inv' b'] inv' False by auto
    qed (use inv' in simp)
  qed
  have sv1: "same_view k (upd_thread ?t (\<lambda>r. r\<lparr>priority := p\<rparr>) k)"
    by (auto simp: same_view_def view_def upd_thread_def)
  have "thread_set_priority p k = (let k' = upd_thread ?t (\<lambda>r. r\<lparr>priority := p\<rparr>) k in
      if ready_list k' \<noteq> [] then do { h \<leftarrow> list_highest_priority_thread k' (ready_list k');
        if p < given_thread_get_priority k' h then yield_or_mark k' else Some k' } else Some k')"
    by (simp add: thread_set_priority_def thread_current_inv [OF inv] Let_def)
  then show "\<exists>k'. thread_set_priority p k = Some k' \<and> kernel_inv L k'"
    using * [OF sv1, of "\<lambda>k h. p < given_thread_get_priority k h"] unfolding Let_def by (simp add: upd_thread_def)
  let ?k = "thread_update_mlfqs_priority ?t (upd_thread ?t (\<lambda>r. r\<lparr>nice := n\<rparr>) k)"
  have sv2: "same_view k ?k"
    by (auto simp: same_view_def view_def upd_thread_def thread_update_mlfqs_priority_def)
  have "thread_set_nice n k = (let k' = ?k in
      if ready_list k' \<noteq> [] then do { h \<leftarrow> list_highest_priority_thread k' (ready_list k');
        if given_thread_get_priority k' ?t < given_thread_get_priority k' h then yield_or_mark k' else Some k' } else Some k')"
    by (simp add: thread_set_nice_def thread_current_inv [OF inv] Let_def)
  then show "\<exists>k'. thread_set_nice n k = Some k' \<and> kernel_inv L k'"
    using * [OF sv2, of "\<lambda>k h. given_thread_get_priority k ?t < given_thread_get_priority k h"]
    unfolding Let_def by (simp add: upd_thread_def thread_update_mlfqs_priority_def)
qed

lemma fresh_sema_inv:
  assumes inv: "kernel_inv L k" and s: "fresh_sema L k s"
  shows "kernel_inv L (upd_sema s (\<lambda>_. \<lparr>sema_value = 0, waiters = []\<rparr>) k)" (is "kernel_inv L ?k")
proof -
  note j = kernel_invD [OF inv]
  have w: "waiters (semas ?k s') = waiters (semas k s')" for s' using s by (simp add: fresh_sema_def upd_sema_def)
  have "core L ?k"
  proof (rule core_cur [OF j(1-3)])
    fix t show "t \<in> set (sleeping_list ?k) \<longleftrightarrow>
      (if t = running_thread k then asleep THREAD_RUNNING (calls (threads ?k t)) else t \<in> set (sleeping_list k))"
      using sleeping_cur [OF inv, of t] by (auto simp: upd_sema_def split: if_splits)
  next
    fix l assume "l \<in> L"
    then show "int (sema_value (semas ?k (lock_semaphore l))) + claims l (calls (threads ?k (running_thread k))) =
      int (sema_value (semas k (lock_semaphore l))) + claims l (current_calls k)"
      using s by (auto simp: upd_sema_def fresh_sema_def lock_semas_def)
  next
    show "wakeups_ok ?k"
      by (rule wakeups_mono [OF coreD(5) [OF j(1)] w]) (auto simp: upd_sema_def woken_def)
  next
    fix c w' assume "w' \<in> set (conds ?k c)"
    then show "elem_semaphore w' \<notin> lock_semas L" using conds_not_locks [OF j(1)] by (simp add: upd_sema_def)
  qed (use w j lo_distinct [OF coreD(1) [OF j(1)]] in \<open>auto simp: upd_sema_def\<close>)
  then show ?thesis using j by (simp add: kernel_inv_def upd_sema_def)
qed

lemma cond_wait_inv:
  assumes inv: "kernel_inv L k" and cs: "current_calls k = Function n # cs" and l: "l \<in> held L k (running_thread k)" and c: "c \<noteq> 0"
    and w: "fresh_sema L k (elem_semaphore w)"
  shows "\<exists>k'. cond_wait c l w k = Some k' \<and> kernel_inv L k'"
proof -
  note j = kernel_invD [OF inv]
  have f: "intr_level k = INTR_ON" "cs = [Thread_exit]" using j(5) cs by auto
  have lL: "l \<in> L" "lock_holder k l = running_thread k" using l by (auto simp: held_def)
  have l0: "l \<noteq> 0" using zero_not_lock [OF j(1)] lL(1) by metis
  let ?fs = "[Lock_release l, Sema_down (elem_semaphore w), Lock_acquire l]"
  let ?k1 = "upd_sema (elem_semaphore w) (\<lambda>_. \<lparr>sema_value = 0, waiters = []\<rparr>) k"
  let ?k2 = "?k1\<lparr>conds := (conds k)(c := conds k c @ [w])\<rparr>"
  have nl: "elem_semaphore w \<notin> lock_semas L" using w by (simp add: fresh_sema_def)
  have "kernel_inv L ?k1" by (rule fresh_sema_inv [OF inv w])
  then have inv2: "kernel_inv L ?k2"
    by (rule conds_inv) (use conds_not_locks [OF j(1)] nl in \<open>auto split: if_splits\<close>)
  have e: "threads ?k2 = threads k" "running_thread ?k2 = running_thread k" "held L ?k2 = held L k"
    by (auto simp: upd_sema_def held_def)
  have "kernel_inv L (with_calls ?k2 (?fs @ current_calls k) INTR_ON)"
    by (rule with_calls_inv [OF inv2], unfold e) (use cs f l lL nl in \<open>auto simp: lock_semas_def\<close>)
  moreover have "cond_wait c l w k = Some (with_calls ?k2 (?fs @ current_calls k) INTR_ON)"
    using thread_current_inv [OF inv] l0 c j(4) lL(2) f(1)
    by (auto simp: cond_wait_def lock_held_by_current_thread_def sema_init_def push_calls_def with_calls_def upd_thread_def upd_sema_def
        intro!: kernel.equality)
  ultimately show ?thesis by blast
qed

lemma timer_sleep_inv:
  assumes inv: "kernel_inv L k" and cs: "current_calls k = Function n # cs"
  shows "\<exists>k'. timer_sleep d k = Some k' \<and> kernel_inv L k'"
proof -
  note j = kernel_invD [OF inv]
  have f: "intr_level k = INTR_ON" "cs = [Thread_exit]" using j(5) cs by auto
  let ?t = "running_thread k"
  define kk where "kk = push_calls [Timer_sleep_block] ((upd_thread ?t (\<lambda>r. r\<lparr>next_wakeup := s64 (timer_ticks k + d)\<rparr>) k)
      \<lparr>sleeping_list := sleeping_list k @ [?t]\<rparr>)"
  have cur: "threads kk ?t = (threads k ?t)\<lparr>next_wakeup := s64 (timer_ticks k + d), calls := Timer_sleep_block # current_calls k\<rparr>"
    and oth: "u \<noteq> ?t \<Longrightarrow> threads kk u = threads k u" for u
    by (simp_all add: kk_def push_calls_def upd_thread_def)
  have same: "sleeping_list kk = sleeping_list k @ [?t]" "all_list kk = all_list k" "ready_list kk = ready_list k" "semas kk = semas k"
    "lock_holder kk = lock_holder k" "conds kk = conds k" "running_thread kk = ?t" "idle_thread kk = idle_thread k"
    "intr_level kk = INTR_ON" "in_external_intr kk = in_external_intr k"
    using f by (simp_all add: kk_def push_calls_def upd_thread_def)
  have ns: "?t \<notin> set (sleeping_list k)" using sleeping_cur [OF inv, of ?t] cs by simp
  have "core L kk"
  proof (rule core_cur [OF j(1-3)])
    fix t show "t \<in> set (sleeping_list kk) \<longleftrightarrow>
      (if t = ?t then asleep THREAD_RUNNING (calls (threads kk t)) else t \<in> set (sleeping_list k))"
      unfolding same using cur by auto
  next
    have "length (woken k s) \<le> length (woken kk s)" for s
    proof (rule woken_cong [OF same(2)])
      fix t assume "at_sema (calls (threads k t)) = Some s" "status (threads k t) \<noteq> THREAD_BLOCKED"
      then show "at_sema (calls (threads kk t)) = Some s \<and> status (threads kk t) \<noteq> THREAD_BLOCKED"
        using oth [of t] cs by (cases "t = ?t") auto
    qed
    then show "wakeups_ok kk" by (intro wakeups_mono [OF coreD(5) [OF j(1)]]) (simp_all add: same)
  next
    fix c w assume "w \<in> set (conds kk c)"
    then show "elem_semaphore w \<notin> lock_semas L" using conds_not_locks [OF j(1)] by (simp add: same)
  next
    assume "idle_stack (current_calls k)"
    then show "idle_stack (calls (threads kk ?t))" using cs by simp
  qed (simp_all add: same oth cur cs f j(2) ns lo_distinct [OF coreD(1) [OF j(1)]])
  then have "kernel_inv L kk" using j by (simp add: kernel_inv_def same cur)
  moreover have "timer_sleep d k = Some kk"
    using f thread_current_inv [OF inv] by (simp add: timer_sleep_def kk_def upd_thread_def timer_ticks_def Let_def)
  ultimately show ?thesis by blast
qed

lemma call_inv:
  assumes inv: "kernel_inv L k" and cs: "current_calls k = Function n # cs" and ok: "call_ok L k c"
  shows "\<exists>k'. run_call m c k = Some k' \<and> kernel_inv L k'"
proof -
  note j = kernel_invD [OF inv]
  have f: "intr_level k = INTR_ON" "cs = [Thread_exit]" using j(5) cs by auto
  have bl: "list_all below (current_calls k)" "\<not> idle_stack (current_calls k)" using cs f(2) by auto
  have self: "k = with_calls k (current_calls k) INTR_ON" using self_with_calls [of k] f(1) by simp
  have self': "k = upd_thread (running_thread k) (\<lambda>r. r\<lparr>calls := current_calls k\<rparr>) k"
    "k = upd_thread (running_thread k) (\<lambda>r. r\<lparr>calls := current_calls k\<rparr>) (k\<lparr>intr_level := INTR_ON\<rparr>)"
    using f(1) by (simp_all add: upd_thread_def)
  have fr: "frames_ok L H INTR_ON (current_calls k)" for H using cs f by simp
  have l0: "l \<in> L \<Longrightarrow> l \<noteq> 0" for l using zero_not_lock [OF j(1)] by metis
  show ?thesis
  proof (cases c)
    case Thread_yield
    then show ?thesis using thread_yield_inv [OF inv bl(1)] by auto
  next
    case Thread_exit
    have "\<exists>k'. thread_exit k = Some k' \<and> kernel_inv L k'"
      by (rule thread_exit_inv [OF inv self'(1)]) (use ok Thread_exit cs f in \<open>auto simp: held_def\<close>)
    then show ?thesis using Thread_exit by simp
  next
    case (Thread_create nm p g page)
    then obtain n' where g: "g = Function n'" using ok by auto
    show ?thesis
    proof (cases "page = 0")
      case True
      then show ?thesis using Thread_create inv by (simp add: thread_create_def)
    next
      case False
      then show ?thesis using thread_create_inv [OF inv cs, of p page nm n'] Thread_create ok g by auto
    qed
  next
    case (Thread_set_priority p)
    then show ?thesis using set_priority_inv(1) [OF inv bl(1)] by simp
  next
    case (Thread_set_nice p)
    then show ?thesis using set_priority_inv(2) [OF inv bl(1)] by simp
  next
    case (Sema_down s)
    have "\<exists>k'. sema_down s k = Some k' \<and> kernel_inv L k' \<and> all_list k' = all_list k"
      by (rule sema_down_inv [OF inv self'(1)])
        (use ok Sema_down cs f bl below_not_waiting [OF bl(1)] in \<open>auto simp: lock_semas_def\<close>)
    then show ?thesis using Sema_down by auto
  next
    case (Sema_try_down s)
    show ?thesis
    proof (cases "sema_value (semas k s) > 0")
      case True
      have "kernel_inv L (upd_sema s (\<lambda>r. r\<lparr>sema_value := sema_value r - 1\<rparr>) (with_calls k (current_calls k) INTR_ON))"
        by (rule sema_try_down_inv [OF inv cs True]) (use ok Sema_try_down in auto)
      moreover have "sema_try_down s k = Some (True, upd_sema s (\<lambda>r. r\<lparr>sema_value := sema_value r - 1\<rparr>) k)"
        using True ok Sema_try_down f(1) j(4)
        by (simp add: sema_try_down_def Let_def intr_disable_def intr_set_level_def intr_enable_def upd_sema_def)
      ultimately show ?thesis using Sema_try_down self by simp
    next
      case False
      then have "sema_try_down s k = Some (False, k)"
        using ok Sema_try_down f(1) j(4) by (simp add: sema_try_down_def intr_disable_def intr_set_level_def intr_enable_def)
      then show ?thesis using Sema_try_down inv by simp
    qed
  next
    case (Sema_up s)
    have "\<exists>k'. sema_up s k = Some k' \<and> kernel_inv L k' \<and> all_list k' = all_list k"
      by (rule sema_up_call [OF inv self'(2)]) (use ok Sema_up bl fr in \<open>auto simp: lock_semas_def\<close>)
    then show ?thesis using Sema_up by auto
  next
    case (Lock_acquire l)
    then show ?thesis using lock_acquire_inv [OF inv self, of l] ok bl fr by (auto simp: held_def)
  next
    case (Lock_try_acquire l)
    have nh: "lock_held_by_current_thread l k = Some False"
      using thread_current_inv [OF inv] ok Lock_try_acquire l0 by (simp add: lock_held_by_current_thread_def)
    show ?thesis
    proof (cases "sema_value (semas k (lock_semaphore l)) > 0")
      case True
      have "kernel_inv L (upd_sema (lock_semaphore l) (\<lambda>r. r\<lparr>sema_value := sema_value r - 1\<rparr>)
          (with_calls k (Lock_acquired l # current_calls k) INTR_ON))"
        by (rule sema_try_down_inv [OF inv cs True]) (use ok Lock_try_acquire in \<open>auto simp: held_def\<close>)
      moreover have "lock_try_acquire l k = Some (True, upd_sema (lock_semaphore l) (\<lambda>r. r\<lparr>sema_value := sema_value r - 1\<rparr>)
          (with_calls k (Lock_acquired l # current_calls k) INTR_ON))"
        using True ok Lock_try_acquire f(1) j(4) nh l0
        by (auto simp: lock_try_acquire_def sema_try_down_def Let_def intr_disable_def intr_set_level_def intr_enable_def
            upd_sema_def push_calls_def with_calls_def upd_thread_def intro!: kernel.equality)
      ultimately show ?thesis using Lock_try_acquire by simp
    next
      case False
      then have "lock_try_acquire l k = Some (False, k)"
        using ok Lock_try_acquire f(1) j(4) nh l0
        by (simp add: lock_try_acquire_def sema_try_down_def intr_disable_def intr_set_level_def intr_enable_def)
      then show ?thesis using Lock_try_acquire inv by simp
    qed
  next
    case (Lock_release l)
    have "\<exists>k'. lock_release l k = Some k' \<and> kernel_inv L k' \<and> all_list k' = all_list k"
      by (rule lock_release_inv [OF inv self'(1)]) (use ok Lock_release bl f fr in \<open>auto simp: held_def\<close>)
    then show ?thesis using Lock_release by auto
  next
    case (Cond_wait d l w)
    then show ?thesis using cond_wait_inv [OF inv cs, of l d w] ok by (auto simp: held_def)
  next
    case (Cond_signal d l)
    then show ?thesis using cond_signal_inv [OF inv self, of l d] ok bl fr by (auto simp: held_def)
  next
    case (Cond_broadcast d l)
    then show ?thesis using cond_broadcast_inv [OF inv self, of l d] ok bl fr by (auto simp: held_def)
  next
    case (Timer_sleep d)
    then show ?thesis using timer_sleep_inv [OF inv cs] by simp
  qed (use ok in auto)
qed

end
