(* ===== verification/Kernel_Interrupt.thy ===== *)
theory Kernel_Interrupt
  imports Kernel_Runs
begin

text \<open>
  The timer interrupt wakes the sleepers that are due and keeps the invariant; with the
  theories before it, every step of the kernel keeps the invariant.
\<close>

section \<open>The timer interrupt\<close>

text \<open>The interrupted thread resumes by returning from the interrupt: the stack it has then.\<close>

abbreviation interrupted :: "kernel \<Rightarrow> kernel" where
  "interrupted k \<equiv> with_calls k (Intr_return # current_calls k) INTR_OFF"

lemma thread_unblock_ext:
  assumes "in_external_intr k" "intr_level k = INTR_OFF" "is_thread k t" "status (threads k t) = THREAD_BLOCKED"
    "thread_current k = Some (running_thread k)" "t \<noteq> running_thread k"
  shows "\<exists>y. thread_unblock t k =
    Some ((upd_thread t (\<lambda>r. r\<lparr>status := THREAD_READY\<rparr>) (k\<lparr>ready_list := ready_list k @ [t]\<rparr>))\<lparr>yield_on_return := y\<rparr>)"
proof -
  let ?k = "upd_thread t (\<lambda>r. r\<lparr>status := THREAD_READY\<rparr>) (k\<lparr>ready_list := ready_list k @ [t]\<rparr>)"
  have d: "intr_disable k = k" using assms(2) by (simp add: intr_disable_def)
  have d': "intr_disable ?k = ?k" "intr_disable (?k\<lparr>yield_on_return := True\<rparr>) = ?k\<lparr>yield_on_return := True\<rparr>"
    using assms(2) by (simp_all add: intr_disable_def upd_thread_def)
  have cur: "thread_current ?k = Some (running_thread k)"
    using assms(5,6) by (auto simp: thread_current_def is_thread_def upd_thread_def ASSERT_def split: if_splits)
  have e: "in_external_intr ?k" using assms(1) by (simp add: upd_thread_def)
  have "thread_unblock t k = Some ?k \<or> thread_unblock t k = Some (?k\<lparr>yield_on_return := True\<rparr>)"
    using assms e cur unfolding thread_unblock_def
    by (simp add: Let_def d thread_get_priority_def intr_yield_on_return_def intr_set_level_def d')
  moreover have "?k = ?k\<lparr>yield_on_return := yield_on_return k\<rparr>" by (simp add: upd_thread_def)
  ultimately show ?thesis by metis
qed

lemma sleeper_core:
  assumes c: "core L k" and run: "status (threads k (running_thread k)) = THREAD_RUNNING" and e: "e \<in> set (sleeping_list k)"
    and b: "status (threads k e) = THREAD_BLOCKED"
  shows "core L (upd_thread e (\<lambda>r. r\<lparr>status := THREAD_READY\<rparr>)
    (k\<lparr>ready_list := ready_list k @ [e], sleeping_list := remove1 e (sleeping_list k)\<rparr>))" (is "core L ?k")
proof -
  note L = coreD(1) [OF c] and S = coreD(2) [OF c] and B = coreD(3) [OF c] and K = coreD(4) [OF c] and W = coreD(5) [OF c]
  have ea: "e \<in> set (all_list k)" "asleep THREAD_BLOCKED (calls (threads k e))" using lo_sleeping [OF L, of e] e b by auto
  have ne: "e \<noteq> running_thread k" using run b by auto
  have nid: "e \<noteq> idle_thread k" using idle_stack_simps [OF so_idle [OF S]] ea by auto
  have ns: "at_sema (calls (threads k e)) = None" using ea(2) by (cases "(THREAD_BLOCKED, calls (threads k e))" rule: asleep.cases) auto
  have nemp: "calls (threads k e) \<noteq> []" using ea(2) by auto
  have fr: "frames_ok L (held L k e) INTR_OFF (calls (threads k e))" using so_other [OF S ea(1) ne] nemp by auto
  have na: "\<not> asleep THREAD_READY (calls (threads k e))" using frames_ok_off_not_asleep [OF fr] by simp
  have "lists_ok ?k"
  proof (rule lists_okI)
    fix u assume "u \<in> set (all_list ?k)"
    then have u: "u \<in> set (all_list k)" by (simp add: upd_thread_def)
    have old: "is_thread k u" "status (threads k u) \<noteq> THREAD_DYING" "u \<noteq> running_thread k \<Longrightarrow> status (threads k u) \<noteq> THREAD_RUNNING"
      using lo_thread [OF L u] by blast+
    then show "is_thread ?k u \<and> status (threads ?k u) \<noteq> THREAD_DYING \<and>
       (status (threads ?k u) = THREAD_RUNNING \<longrightarrow> u = running_thread ?k)"
      by (cases "u = e") (auto simp: upd_thread_def is_thread_def)
  next
    fix u show "u \<in> set (ready_list ?k) \<longleftrightarrow> u \<in> set (all_list ?k) \<and> status (threads ?k u) = THREAD_READY \<and> u \<noteq> idle_thread ?k"
      using lo_ready [OF L, of u] ea nid by (auto simp: upd_thread_def)
  next
    fix s u show "u \<in> set (waiters (semas ?k s)) \<longleftrightarrow>
       u \<in> set (all_list ?k) \<and> status (threads ?k u) = THREAD_BLOCKED \<and> at_sema (calls (threads ?k u)) = Some s"
      using lo_waiters [OF L, of u s] ns by (auto simp: upd_thread_def)
  next
    fix u show "u \<in> set (sleeping_list ?k) \<longleftrightarrow> u \<in> set (all_list ?k) \<and> asleep (status (threads ?k u)) (calls (threads ?k u))"
      using lo_sleeping [OF L, of u] na lo_distinct [OF L] by (auto simp: upd_thread_def)
  next
    show "distinct (ready_list ?k)" using lo_distinct [OF L] lo_ready [OF L, of e] b by (simp add: upd_thread_def)
  qed (use lo_distinct [OF L] lo_idle [OF L] in \<open>auto simp: upd_thread_def\<close>)
  moreover have "stacks_ok L ?k"
  proof (rule stacks_okI)
    fix u assume "u \<in> set (all_list ?k)" "u \<noteq> running_thread ?k"
    then show "calls (threads ?k u) = [] \<and> status (threads ?k u) = THREAD_BLOCKED \<and> held L ?k u = {} \<or>
      frames_ok L (held L ?k u) INTR_OFF (calls (threads ?k u))"
      using so_other [OF S, of u] fr by (auto simp: upd_thread_def held_def)
  qed (use so_cur [OF S] so_below [OF S] so_idle [OF S] ne in \<open>auto simp: upd_thread_def held_def\<close>)
  moreover have "births_ok ?k" by (rule births_ok_upd [OF B]) (auto simp: upd_thread_def)
  moreover have "locks_ok L ?k" by (rule locks_ok_upd [OF K]) (auto simp: upd_thread_def)
  moreover have "wakeups_ok ?k"
    by (rule wakeups_mono [OF W]) (auto simp: upd_thread_def intro!: woken_cong split: if_splits)
  ultimately show ?thesis by (simp add: core_def)
qed

text \<open>The loop wakes exactly the sleepers that are due, in the order of the list.\<close>

definition due :: "kernel \<Rightarrow> ptr \<Rightarrow> bool" where
  "due k e \<longleftrightarrow> timer_count k \<ge> next_wakeup (threads k e)"

lemma wake_sleepers_inv:
  assumes "core L (interrupted k)" "status (threads k (running_thread k)) = THREAD_RUNNING" "running_thread k \<in> set (all_list k)"
    "in_external_intr k" "intr_level k = INTR_OFF" "distinct es" "set es \<subseteq> set (sleeping_list k)"
  shows "\<exists>k'. wake_sleepers es k = Some k' \<and> core L (interrupted k') \<and> in_external_intr k' \<and> intr_level k' = INTR_OFF \<and>
    running_thread k' = running_thread k \<and> threads k' (running_thread k) = threads k (running_thread k) \<and> all_list k' = all_list k \<and>
    ready_list k' = ready_list k @ filter (due k) es \<and>
    sleeping_list k' = filter (\<lambda>e. \<not> (e \<in> set es \<and> due k e)) (sleeping_list k) \<and>
    (\<forall>t. threads k' t = (if t \<in> set es \<and> due k t then (threads k t)\<lparr>status := THREAD_READY\<rparr> else threads k t)) \<and>
    timer_count k' = timer_count k \<and> idle_thread k' = idle_thread k"
  using assms
proof (induction es arbitrary: k)
  case (Cons e es)
  show ?case
  proof (cases "due k e")
    case False
    have "wake_sleepers (e # es) k = wake_sleepers es k" using False by (simp add: due_def timer_ticks_def)
    moreover have "filter (\<lambda>x. \<not> (x \<in> set (e # es) \<and> due k x)) (sleeping_list k) = filter (\<lambda>x. \<not> (x \<in> set es \<and> due k x)) (sleeping_list k)"
      using False by (intro filter_cong) auto
    moreover have "(t \<in> set (e # es) \<and> due k t) = (t \<in> set es \<and> due k t)" for t using False by auto
    ultimately show ?thesis using Cons.IH [OF Cons.prems(1-5)] Cons.prems(6,7) False by simp
  next
    case True
    note L = coreD(1) [OF Cons.prems(1)] and S = coreD(2) [OF Cons.prems(1)]
    let ?c = "running_thread k"
    have es: "e \<in> set (sleeping_list k)" "e \<notin> set es" "distinct (sleeping_list k)"
      using Cons.prems lo_distinct [OF L] by auto
    have ne: "e \<noteq> ?c" using lo_sleeping [OF L, of ?c] es by auto
    have asl: "e \<in> set (all_list k)" "asleep (status (threads k e)) (calls (threads k e))" using lo_sleeping [OF L, of e] es ne by auto
    have "frames_ok L (held L k e) INTR_OFF (calls (threads k e))" using so_other [OF S, of e] asl ne by auto
    then have st: "status (threads k e) = THREAD_BLOCKED" using asl(2) frames_ok_off_not_asleep by blast
    define k1 where "k1 = k\<lparr>sleeping_list := remove1 e (sleeping_list k)\<rparr>"
    have thr: "is_thread k1 e" "thread_current k1 = Some (running_thread k1)"
      using lo_thread [OF L, of e] lo_thread [OF L, of ?c] asl ne Cons.prems(2,3) by (auto simp: is_thread_def k1_def thread_current_def)
    obtain y where y: "thread_unblock e k1 = Some ((upd_thread e (\<lambda>r. r\<lparr>status := THREAD_READY\<rparr>)
        (k1\<lparr>ready_list := ready_list k1 @ [e]\<rparr>))\<lparr>yield_on_return := y\<rparr>)"
      using thread_unblock_ext [OF _ _ thr(1) _ thr(2)] Cons.prems(4,5) st ne by (auto simp: k1_def)
    define k2 where "k2 = (upd_thread e (\<lambda>r. r\<lparr>status := THREAD_READY\<rparr>) (k1\<lparr>ready_list := ready_list k1 @ [e]\<rparr>))\<lparr>yield_on_return := y\<rparr>"
    have w: "wake_sleepers (e # es) k = wake_sleepers es k2" using True y by (simp add: due_def timer_ticks_def k1_def k2_def)
    have f2: "running_thread k2 = ?c" "threads k2 = (threads k)(e := (threads k e)\<lparr>status := THREAD_READY\<rparr>)" "all_list k2 = all_list k"
      "ready_list k2 = ready_list k @ [e]" "sleeping_list k2 = remove1 e (sleeping_list k)" "timer_count k2 = timer_count k"
      "in_external_intr k2 = in_external_intr k" "intr_level k2 = intr_level k" "idle_thread k2 = idle_thread k"
      by (simp_all add: k2_def k1_def upd_thread_def)
    have "core L (upd_thread e (\<lambda>r. r\<lparr>status := THREAD_READY\<rparr>)
        ((interrupted k)\<lparr>ready_list := ready_list (interrupted k) @ [e], sleeping_list := remove1 e (sleeping_list (interrupted k))\<rparr>))"
      by (rule sleeper_core [OF Cons.prems(1)]) (use Cons.prems(2) es st ne in auto)
    then have c2: "core L (interrupted k2)"
      by (rule core_cong [rotated]) (use ne in \<open>auto simp: same_view_def k2_def k1_def upd_thread_def with_calls_def view_def\<close>)
    have due2: "due k2 t = due k t" for t by (simp add: due_def f2)
    have "set es \<subseteq> set (sleeping_list k2)" using Cons.prems(7) es by (auto simp: f2)
    then obtain k' where k': "wake_sleepers es k2 = Some k'" "core L (interrupted k')" "in_external_intr k'" "intr_level k' = INTR_OFF"
      "running_thread k' = ?c" "threads k' ?c = threads k ?c" "all_list k' = all_list k"
      "ready_list k' = ready_list k @ e # filter (due k) es"
      "sleeping_list k' = filter (\<lambda>x. \<not> (x \<in> set es \<and> due k x)) (remove1 e (sleeping_list k))"
      "\<forall>t. threads k' t = (if t \<in> set es \<and> due k t then (threads k2 t)\<lparr>status := THREAD_READY\<rparr> else threads k2 t)"
      "timer_count k' = timer_count k" "idle_thread k' = idle_thread k"
      using Cons.IH [OF c2] Cons.prems(2-6) ne by (auto simp: f2 due2)
    have sl: "filter (\<lambda>x. \<not> (x \<in> set es \<and> due k x)) (remove1 e (sleeping_list k)) =
        filter (\<lambda>x. \<not> (x \<in> set (e # es) \<and> due k x)) (sleeping_list k)"
      using es(3) True by (auto simp: distinct_remove1_removeAll removeAll_filter_not_eq intro!: filter_cong)
    show ?thesis using k' sl True es(2) unfolding w by (auto simp: f2)
  qed
qed simp

text \<open>A change that neither the invariant nor the sleepers can see.\<close>

definition quiet :: "kernel \<Rightarrow> kernel \<Rightarrow> bool" where
  "quiet k k' \<longleftrightarrow> same_view k k' \<and> in_external_intr k' = in_external_intr k \<and> timer_count k' = timer_count k \<and>
     (\<forall>t. next_wakeup (threads k' t) = next_wakeup (threads k t) \<and> view (threads k' t) = view (threads k t))"

lemma quiet_refl: "quiet k k"
  by (simp add: quiet_def same_view_refl)

lemma quiet_trans: "quiet k k' \<Longrightarrow> quiet k' k'' \<Longrightarrow> quiet k k''"
  unfolding quiet_def by (auto intro: same_view_trans)

lemma quiet_upd:
  assumes "\<And>r. view (f r) = view r \<and> next_wakeup (f r) = next_wakeup r"
  shows "quiet k (upd_thread t f k)"
  using assms by (auto simp: quiet_def same_view_def upd_thread_def)

lemma quiet_mlfqs: "quiet k (thread_update_mlfqs_priority t k)"
  unfolding thread_update_mlfqs_priority_def by (rule quiet_upd) (simp add: view_def)

lemma quiet_fold: "quiet k (fold thread_update_mlfqs_priority ts k)"
  by (induction ts arbitrary: k) (auto simp: quiet_refl intro: quiet_trans [OF quiet_mlfqs])

lemma quiet_recent_cpu: "foldM update_recent_cpu k ts = Some k' \<Longrightarrow> quiet k k'"
proof (induction ts arbitrary: k)
  case (Cons t ts)
  then obtain k1 where k1: "update_recent_cpu k t = Some k1" "foldM update_recent_cpu k1 ts = Some k'"
    by (auto simp: option_bind_Some)
  have "quiet k k1" using k1(1)
    by (auto simp: update_recent_cpu_def option_bind_Some view_def intro!: quiet_upd)
  then show ?case using Cons.IH [OF k1(2)] quiet_trans by blast
qed (simp add: quiet_refl)

lemma thread_tick_quiet:
  assumes "thread_tick k = Some k'"
  shows "quiet k k'"
proof -
  obtain t where t: "thread_current k = Some t" using assms by (auto simp: thread_tick_def option_bind_Some)
  define k1 where "k1 = (if t = idle_thread k then k\<lparr>idle_ticks := s64 (idle_ticks k + 1)\<rparr>
              else if pagedir (threads k t) \<noteq> 0 then k\<lparr>user_ticks := s64 (user_ticks k + 1)\<rparr>
              else k\<lparr>kernel_ticks := s64 (kernel_ticks k + 1)\<rparr>)"
  define k2 where "k2 = k1\<lparr>thread_ticks := u32 (thread_ticks k1 + 1)\<rparr>"
  obtain k3 where k3: "(if thread_ticks k2 \<ge> TIME_SLICE then intr_yield_on_return k2 else Some k2) = Some k3"
      "(if thread_mlfqs k3 then do {
       let k = (if t \<noteq> idle_thread k3
                then upd_thread t (\<lambda>r. r\<lparr>recent_cpu := s32 (recent_cpu r + int_to_fp 1)\<rparr>) k3 else k3);
       k \<leftarrow> (if timer_count k smod TIMER_FREQ = 0 then
               let ready_threads = int (length (ready_list k)) + (if idle_thread k \<noteq> t then 1 else 0);
                   k = k\<lparr>load_avg := s32 (s32 (59 * load_avg k) sdiv 60 + int_to_fp ready_threads sdiv 60)\<rparr>
               in foldM update_recent_cpu k (all_list k)
             else Some k);
       if timer_count k smod 4 = 0 then Some (fold thread_update_mlfqs_priority (all_list k) k)
       else Some k }
     else Some k3) = Some k'"
    using assms unfolding thread_tick_def t k2_def k1_def Let_def by (simp only: bind_eq_Some_conv option.inject) blast
  have q3: "quiet k k3" using k3(1)
    by (auto simp: k2_def k1_def quiet_def same_view_def intr_yield_on_return_def split: if_splits)
  show ?thesis
  proof (cases "thread_mlfqs k3")
    case False
    then show ?thesis using k3(2) q3 by simp
  next
    case True
    define k4 where "k4 = (if t \<noteq> idle_thread k3 then upd_thread t (\<lambda>r. r\<lparr>recent_cpu := s32 (recent_cpu r + int_to_fp 1)\<rparr>) k3 else k3)"
    have q4: "quiet k3 k4" unfolding k4_def by (auto simp: view_def quiet_refl intro!: quiet_upd)
    obtain k5 where k5: "(if timer_count k4 smod TIMER_FREQ = 0 then
               let ready_threads = int (length (ready_list k4)) + (if idle_thread k4 \<noteq> t then 1 else 0);
                   k = k4\<lparr>load_avg := s32 (s32 (59 * load_avg k4) sdiv 60 + int_to_fp ready_threads sdiv 60)\<rparr>
               in foldM update_recent_cpu k (all_list k)
             else Some k4) = Some k5"
       "(if timer_count k5 smod 4 = 0 then Some (fold thread_update_mlfqs_priority (all_list k5) k5) else Some k5) = Some k'"
      using k3(2) True unfolding k4_def Let_def by (simp only: if_True bind_eq_Some_conv) blast
    have "quiet k4 (k4\<lparr>load_avg := x\<rparr>)" for x by (simp add: quiet_def same_view_def)
    then have "quiet k4 k5" using k5(1) quiet_trans [OF _ quiet_recent_cpu, of k4] by (auto simp: Let_def quiet_refl split: if_splits)
    moreover have "quiet k5 k'" using k5(2) by (auto simp: quiet_fold quiet_refl split: if_splits)
    ultimately show ?thesis using q3 q4 quiet_trans by blast
  qed
qed

lemma thread_tick_total:
  assumes "thread_current k = Some t" "in_external_intr k" "\<not> thread_mlfqs k"
  shows "\<exists>k'. thread_tick k = Some k'"
  using assms by (simp add: thread_tick_def Let_def intr_yield_on_return_def)


lemma interrupted_cong:
  assumes "quiet k k'" "core L (interrupted k)"
  shows "core L (interrupted k')"
proof -
  have "view (threads k' t) = view (threads k t)" for t using assms(1) by (simp add: quiet_def)
  then have "same_view (interrupted k) (interrupted k')"
    using assms(1) unfolding quiet_def by (auto simp: same_view_def with_calls_def upd_thread_def view_def)
  then show ?thesis using assms(2) core_cong by blast
qed

lemma frames_ok_top_below:
  assumes "frames_ok L H INTR_ON cs" "\<forall>cs'. cs \<noteq> Timer_sleep_block # cs'" "list_all below (tl cs)"
  shows "list_all below cs"
proof (cases cs)
  case (Cons c cs')
  then show ?thesis using assms by (cases c) auto
qed simp

text \<open>The state in which the handler runs, after the tick has been counted.\<close>

abbreviation ticked :: "kernel \<Rightarrow> kernel" where
  "ticked k \<equiv> k\<lparr>intr_level := INTR_OFF, in_external_intr := True, yield_on_return := False,
     timer_count := s64 (timer_count k + 1)\<rparr>"

lemma timer_interrupt_run:
  assumes I: "kernel_inv L k" and on: "intr_level k = INTR_ON" and nb: "\<forall>cs. current_calls k \<noteq> Timer_sleep_block # cs"
    and t: "thread_tick (ticked k) = Some k2"
  shows "\<exists>k3. timer_interrupt (k\<lparr>intr_level := INTR_OFF, in_external_intr := True, yield_on_return := False\<rparr>) = Some k3 \<and>
    core L (interrupted k3) \<and> in_external_intr k3 \<and> intr_level k3 = INTR_OFF \<and> running_thread k3 = running_thread k \<and>
    all_list k3 = all_list k \<and> status (threads k3 (running_thread k)) = THREAD_RUNNING \<and> current_calls k3 = current_calls k \<and>
    ready_list k3 = ready_list k @ filter (due (ticked k)) (sleeping_list k) \<and>
    sleeping_list k3 = filter (\<lambda>e. \<not> due (ticked k) e) (sleeping_list k)"
proof -
  note i = kernel_invD [OF I]
  have bl: "list_all below (current_calls k)" using frames_ok_top_below i(5,6) on nb by metis
  have "kernel_inv L (interrupted k)"
    by (rule with_calls_inv [OF I]) (use bl i(5) on in auto)
  then have "core L (interrupted (ticked k))"
    using core_cong [of "interrupted k"] by (auto simp: kernel_inv_def same_view_def with_calls_def upd_thread_def)
  moreover have q: "quiet (ticked k) k2" using thread_tick_quiet [OF t] .
  ultimately have c2: "core L (interrupted k2)" using interrupted_cong by blast
  have v: "view (threads k2 e) = view (threads k e)" "due k2 e = due (ticked k) e" for e using q by (simp_all add: quiet_def due_def)
  have f2: "running_thread k2 = running_thread k" "all_list k2 = all_list k" "in_external_intr k2" "intr_level k2 = INTR_OFF"
    "sleeping_list k2 = sleeping_list k" "ready_list k2 = ready_list k"
    using q by (auto simp: quiet_def same_view_def)
  have d: "distinct (sleeping_list k)" using lo_distinct coreD(1) [OF i(1)] by blast
  have st: "status (threads k2 (running_thread k)) = THREAD_RUNNING" using v i(2) by (simp add: view_def)
  obtain k3 where k3: "wake_sleepers (sleeping_list k2) k2 = Some k3" "core L (interrupted k3)" "in_external_intr k3" "intr_level k3 = INTR_OFF"
    "running_thread k3 = running_thread k2" "threads k3 (running_thread k2) = threads k2 (running_thread k2)" "all_list k3 = all_list k2"
    "ready_list k3 = ready_list k2 @ filter (due k2) (sleeping_list k2)"
    "sleeping_list k3 = filter (\<lambda>e. \<not> (e \<in> set (sleeping_list k2) \<and> due k2 e)) (sleeping_list k2)"
    using wake_sleepers_inv [OF c2 _ _ f2(3,4), of "sleeping_list k2"] st i(3) d by (auto simp: f2)
  have "sleeping_list k3 = filter (\<lambda>e. \<not> due (ticked k) e) (sleeping_list k)"
    unfolding k3(9) f2 v by (intro filter_cong) auto
  moreover have "timer_interrupt (k\<lparr>intr_level := INTR_OFF, in_external_intr := True, yield_on_return := False\<rparr>) = Some k3"
    using t k3(1) by (simp add: timer_interrupt_def)
  moreover have "current_calls k3 = current_calls k" using k3(5,6) f2(1) v [of "running_thread k"] by (simp add: view_def)
  moreover have "due k2 = due (ticked k)" using v by blast
  ultimately show ?thesis using k3 f2 st by auto
qed

lemma intr_handler_run:
  assumes I: "kernel_inv L k" and on: "intr_level k = INTR_ON" and nb: "\<forall>cs. current_calls k \<noteq> Timer_sleep_block # cs"
    and t: "thread_tick (ticked k) = Some k2"
  shows "\<exists>k'. intr_handler k = Some k' \<and> kernel_inv L k'"
proof -
  note i = kernel_invD [OF I]
  obtain k3 where k3: "timer_interrupt (k\<lparr>intr_level := INTR_OFF, in_external_intr := True, yield_on_return := False\<rparr>) = Some k3"
    "core L (interrupted k3)" "in_external_intr k3" "intr_level k3 = INTR_OFF" "running_thread k3 = running_thread k"
    "all_list k3 = all_list k" "status (threads k3 (running_thread k)) = THREAD_RUNNING" "current_calls k3 = current_calls k"
    using timer_interrupt_run [OF assms] by blast
  let ?k = "k3\<lparr>in_external_intr := False\<rparr>"
  have bl: "list_all below (current_calls k)" using frames_ok_top_below i(5,6) on nb by metis
  have "core L (interrupted ?k)" using core_cong [OF _ k3(2)] by (simp add: same_view_def with_calls_def upd_thread_def)
  then have I3: "kernel_inv L (interrupted ?k)" using i(3) k3 by (simp add: kernel_inv_def)
  have h: "intr_handler k = (if yield_on_return ?k then thread_yield (push_calls [Intr_return] ?k) else Some (?k\<lparr>intr_level := INTR_ON\<rparr>))"
    using i(4) k3(1,3,4) by (simp add: intr_handler_def intr_disable_def)
  have p: "push_calls [Intr_return] ?k = interrupted ?k" using k3(4) by (simp add: push_calls_def with_calls_def upd_thread_def fun_upd_def)
  have "kernel_inv L (with_calls (interrupted ?k) (current_calls k) INTR_ON)"
    using kernel_invD(5) [OF I3] by (intro with_calls_inv [OF I3]) (use bl k3 in \<open>auto simp: held_def\<close>)
  moreover have "with_calls (interrupted ?k) (current_calls k) INTR_ON = ?k\<lparr>intr_level := INTR_ON\<rparr>"
    unfolding k3(8) [symmetric] by (intro kernel.equality) (auto simp: with_calls_def upd_thread_def)
  ultimately show ?thesis using thread_yield_inv [OF I3] bl k3(8) unfolding h p by auto
qed

lemma intr_handler_inv:
  assumes "kernel_inv L k" "intr_level k = INTR_ON" "\<forall>cs. current_calls k \<noteq> Timer_sleep_block # cs" "intr_handler k = Some k'"
  shows "kernel_inv L k'"
proof -
  obtain k2 where "thread_tick (ticked k) = Some k2"
    using assms(4) by (auto simp: intr_handler_def timer_interrupt_def intr_disable_def Let_def option_bind_Some split: if_splits)
  then show ?thesis using intr_handler_run assms by fastforce
qed

lemma function_return_inv:
  assumes I: "kernel_inv L k" and c: "current_calls k = Function n # cs" and h: "\<forall>l\<in>L. lock_holder k l \<noteq> running_thread k"
  shows "\<exists>k'. exec m k = Some k' \<and> kernel_inv L k'"
proof -
  note i = kernel_invD [OF I]
  have f: "intr_level k = INTR_ON" "cs = [Thread_exit]" using i(5) c by auto
  have "pop_call k = with_calls k [Thread_exit] INTR_ON"
    using c f by (simp add: pop_call_def with_calls_def upd_thread_def)
  moreover have "kernel_inv L (with_calls k [Thread_exit] INTR_ON)"
    by (rule with_calls_inv [OF I]) (use c f h in \<open>auto simp: held_def\<close>)
  ultimately show ?thesis using c by (simp add: exec_def)
qed

lemma kstep_inv:
  assumes "kstep L k k'" "kernel_inv L k"
  shows "kernel_inv L k'"
  using assms
proof (cases rule: kstep.cases)
  case (step_exec c cs m)
  then show ?thesis using exec_inv [OF assms(2)] by fastforce
next
  case (step_call n cs c m)
  obtain k2 where "run_call m c k = Some k2" "kernel_inv L k2" using call_inv [OF assms(2) step_call(1,2)] by blast
  then show ?thesis using step_call(3) by simp
next
  case (step_return n cs m)
  obtain k2 where "exec m k = Some k2" "kernel_inv L k2" using function_return_inv [OF assms(2) step_return(1,2)] by blast
  then show ?thesis using step_return(3) by simp
next
  case step_tick
  then show ?thesis using intr_handler_inv assms(2) by blast
qed

end
