(* ===== verification/Kernel_Boot.thy ===== *)
theory Kernel_Boot
  imports Kernel_Interrupt
begin

text \<open>
  Starting the kernel: the state after boot satisfies the invariant, and so does every state
  reached from it.
\<close>

section \<open>Boot\<close>

text \<open>
  \<^verbatim>\<open>main\<close>: \<^verbatim>\<open>thread_init\<close> turns the running code into the thread at \<open>t\<close>, \<^verbatim>\<open>thread_start\<close> starts the
  scheduler. The pending calls of the two are executed in turn. The option \<^verbatim>\<open>-mlfqs\<close> is not given: the priority scheduler
  is in use.
\<close>

definition blank_kernel :: kernel where
  "blank_kernel = \<lparr>threads = (\<lambda>_. zero_thread), semas = (\<lambda>_. \<lparr>sema_value = 0, waiters = []\<rparr>), lock_holder = (\<lambda>_. 0),
     conds = (\<lambda>_. []), running_thread = 0, ready_list = [], all_list = [], sleeping_list = [], idle_thread = 0,
     initial_thread = 0, next_tid = 1, idle_ticks = 0, kernel_ticks = 0, user_ticks = 0, thread_ticks = 0,
     thread_mlfqs = False, load_avg = 0, timer_count = 0, intr_level = INTR_OFF, in_external_intr = False,
     yield_on_return = False\<rparr>"

fun exec_n :: "nat \<Rightarrow> ptr \<times> ptr \<Rightarrow> kernel \<Rightarrow> kernel option" where
  "exec_n 0 m k = Some k"
| "exec_n (Suc n) m k = do { k \<leftarrow> exec m k; exec_n n m k }"

definition boot :: "ptr list \<Rightarrow> kernel option" where
  "boot ls = do {
     k \<leftarrow> thread_init 0x1000 blank_kernel;
     k \<leftarrow> exec_n 6 (0x100, 0x200) k;
     k \<leftarrow> thread_start 0x300 0x2000 (push_calls [Function 0, Thread_exit] k);
     k \<leftarrow> exec_n 14 (0x100, 0x200) k;
     foldM (\<lambda>k l. lock_init l k) k ls }"

text \<open>The two threads that there are after boot.\<close>

definition main_thread :: thread where
  "main_thread = \<lparr>tid = 1, status = THREAD_RUNNING, name = ''main'', stack = 0x2000, nice = 0, recent_cpu = 0,
     priority = PRI_DEFAULT, locks = [], pagedir = 0, process = 0, next_wakeup = 0, loaded_sema = 0, alive_sema = 0,
     stack_pages = 0, magic = THREAD_MAGIC, calls = [Function 0, Thread_exit]\<rparr>"

definition started_idle_thread :: thread where
  "started_idle_thread = \<lparr>tid = 2, status = THREAD_READY, name = ''idle'', stack = 12244, nice = 0, recent_cpu = 0,
     priority = PRI_MIN, locks = [], pagedir = 0, process = 0, next_wakeup = 0, loaded_sema = 0x100, alive_sema = 0x200,
     stack_pages = 0, magic = THREAD_MAGIC,
     calls = [Intr_set_level INTR_OFF, Intr_set_level INTR_OFF, Intr_set_level INTR_ON, Idle_loop, Thread_exit]\<rparr>"

definition booted :: "ptr list \<Rightarrow> kernel" where
  "booted ls = blank_kernel\<lparr>
     threads := (\<lambda>_. zero_thread)(0x1000 := main_thread, 0x2000 := started_idle_thread),
     semas := (\<lambda>s. \<lparr>sema_value = (if s \<in> lock_semaphore ` set (tid_lock # ls) then 1 else 0), waiters = []\<rparr>),
     running_thread := 0x1000, all_list := [0x1000, 0x2000], idle_thread := 0x2000, initial_thread := 0x1000,
     next_tid := 3, intr_level := INTR_ON\<rparr>"

lemma lock_init_booted:
  "l \<noteq> 0 \<Longrightarrow> lock_init l (booted ls) = Some (booted (ls @ [l]))"
  by (auto simp: lock_init_def sema_init_def booted_def blank_kernel_def upd_sema_def fun_eq_iff intro!: kernel.equality)

lemma lock_inits_booted:
  "0 \<notin> set ls' \<Longrightarrow> foldM (\<lambda>k l. lock_init l k) (booted ls) ls' = Some (booted (ls @ ls'))"
  by (induction ls' arbitrary: ls) (auto simp: lock_init_booted)


section \<open>Evaluation\<close>

text \<open>The binds of a run are evaluated from the left, and their continuations left alone until then.\<close>

lemma exec_n_numeral:
  "exec_n (numeral v) m k = exec m k \<bind> exec_n (pred_numeral v) m"
  by (simp add: numeral_eq_Suc)

lemma bind_weak_cong: "x = y \<Longrightarrow> Option.bind x f = Option.bind y f"
  by simp

lemma donated_no_locks: "locks (threads k t) = [] \<Longrightarrow> given_thread_get_priority k t = priority (threads k t)"
  by (simp add: given_thread_get_priority_def numeral_eq_Suc)

lemmas kernel_defs =
  exec_def pop_call_def upd_thread_def upd_sema_def push_calls_def intr_disable_def intr_enable_def
  intr_set_level_def is_thread_def thread_current_def thread_get_priority_def next_thread_to_run_def
  thread_schedule_tail_def schedule_def thread_block_def thread_yield_def yield_or_mark_def
  thread_unblock_def sema_init_def sema_down_def sema_down_loop_def sema_up_def lock_init_def
  lock_held_by_current_thread_def lock_acquired_def lock_acquire_def lock_release_def
  thread_create_def allocate_tid_def thread_create_tail_def init_thread_def alloc_frame_def
  kernel_thread_def idle_def thread_start_def thread_init_def thread_get_nice_def
  thread_get_recent_cpu_def Let_def

definition main_kernel :: kernel where
  "main_kernel = blank_kernel\<lparr>threads := (\<lambda>_. zero_thread)(0x1000 := main_thread\<lparr>calls := []\<rparr>),
     semas := (\<lambda>s. \<lparr>sema_value = (if s = lock_semaphore tid_lock then 1 else 0), waiters = []\<rparr>),
     running_thread := 0x1000, all_list := [0x1000], initial_thread := 0x1000, next_tid := 2\<rparr>"

lemma boot_main: "thread_init 0x1000 blank_kernel \<bind> exec_n 6 (0x100, 0x200) = Some main_kernel"
  by (simp add: kernel_defs main_kernel_def blank_kernel_def exec_n_numeral donated_no_locks main_thread_def zero_thread_def lock_semaphore_def fun_eq_iff cong: bind_weak_cong)

lemma boot_start: "thread_start 0x300 0x2000 (push_calls [Function 0, Thread_exit] main_kernel) \<bind> exec_n 14 (0x100, 0x200) = Some (booted [])"
  apply (simp add: kernel_defs main_kernel_def blank_kernel_def exec_n_numeral donated_no_locks main_thread_def zero_thread_def lock_semaphore_def cong: bind_weak_cong)
  apply (simp add: booted_def lock_semaphore_def blank_kernel_def main_thread_def started_idle_thread_def zero_thread_def fun_eq_iff)
  done


lemma boot_eq: "0 \<notin> set ls \<Longrightarrow> boot ls = Some (booted ls)"
proof -
  assume ls: "0 \<notin> set ls"
  have "boot ls = (thread_init 0x1000 blank_kernel \<bind> exec_n 6 (0x100, 0x200)) \<bind>
      (\<lambda>k. (thread_start 0x300 0x2000 (push_calls [Function 0, Thread_exit] k) \<bind> exec_n 14 (0x100, 0x200)) \<bind>
         (\<lambda>k. foldM (\<lambda>k l. lock_init l k) k ls))"
    by (simp add: boot_def)
  then show ?thesis using lock_inits_booted [OF ls, of "[]"] by (simp only: boot_main boot_start Option.bind.bind_lunit append_Nil)
qed

lemma booted_inv:
  assumes "0 \<notin> set ls" "0x1fc \<notin> set ls"
  shows "kernel_inv (set (tid_lock # ls)) (booted ls)"
proof -
  let ?L = "set (tid_lock # ls)" and ?k = "booted ls"
  have t: "threads ?k = (\<lambda>_. zero_thread)(0x1000 := main_thread, 0x2000 := started_idle_thread)"
    "semas ?k = (\<lambda>s. \<lparr>sema_value = (if s \<in> lock_semaphore ` ?L then 1 else 0), waiters = []\<rparr>)"
    "all_list ?k = [0x1000, 0x2000]" "running_thread ?k = 0x1000" "idle_thread ?k = 0x2000" "ready_list ?k = []" "sleeping_list ?k = []"
    "lock_holder ?k = (\<lambda>_. 0)" "conds ?k = (\<lambda>_. [])" "intr_level ?k = INTR_ON" "\<not> in_external_intr ?k"
    by (simp_all add: booted_def blank_kernel_def)
  have z: "0 \<notin> ?L" "0x1fc \<notin> ?L" using assms by auto
  have s: "0 \<notin> lock_semas ?L" "0x200 \<notin> lock_semas ?L" using z by (auto simp: lock_semas_def lock_semaphore_def)
  have "lists_ok ?k" by (auto simp: lists_ok_def t is_thread_def main_thread_def started_idle_thread_def)
  moreover have "stacks_ok ?L ?k" by (auto simp: stacks_ok_def t held_def main_thread_def started_idle_thread_def)
  moreover have "births_ok ?k" by (auto simp: births_ok_def t main_thread_def started_idle_thread_def)
  moreover have "locks_ok ?L ?k"
    unfolding locks_ok_def using z s by (auto simp: t held_def claims_def main_thread_def started_idle_thread_def)
  moreover have "wakeups_ok ?k" by (simp add: wakeups_ok_def t)
  ultimately show ?thesis using t by (simp add: kernel_inv_def core_def main_thread_def)
qed

section \<open>Reachable states\<close>

text \<open>The states the kernel can reach from boot, with the locks \<open>ls\<close> besides \<^verbatim>\<open>tid_lock\<close>.\<close>

definition reachable :: "ptr list \<Rightarrow> kernel \<Rightarrow> bool" where
  "reachable ls k \<longleftrightarrow> 0 \<notin> set ls \<and> 0x1fc \<notin> set ls \<and> (\<exists>k0. boot ls = Some k0 \<and> (kstep (set (tid_lock # ls)))\<^sup>*\<^sup>* k0 k)"

lemma reachable_inv: "reachable ls k \<Longrightarrow> kernel_inv (set (tid_lock # ls)) k"
proof -
  assume r: "reachable ls k"
  then have b: "kernel_inv (set (tid_lock # ls)) (booted ls)" "(kstep (set (tid_lock # ls)))\<^sup>*\<^sup>* (booted ls) k"
    using booted_inv boot_eq by (auto simp: reachable_def)
  show ?thesis using b(2,1) by (induction rule: rtranclp_induct) (auto intro: kstep_inv)
qed

end
