(* ===== verification/Kernel_Properties.thy ===== *)
theory Kernel_Properties
  imports Kernel_Boot
begin

text \<open>
  The properties of the scheduler, of synchronisation and of the timer in the runs of the
  kernel from boot that \<open>reachable\<close> describes: sequences of uninterrupted stretches of kernel code, with
  timer interrupts between them, but none in the window inside \<^verbatim>\<open>timer_sleep\<close>. What an interrupt in that window does is
  shown separately (\<open>timer_sleep_race\<close> and \<open>timer_sleep_double_queue\<close>).
\<close>

section \<open>Sample runs\<close>

lemma reachable_boot: "0 \<notin> set ls \<Longrightarrow> 0x1fc \<notin> set ls \<Longrightarrow> reachable ls (booted ls)"
  by (simp add: reachable_def boot_eq)

lemma reachable_step: "reachable ls k \<Longrightarrow> kstep (set (tid_lock # ls)) k k' \<Longrightarrow> reachable ls k'"
  unfolding reachable_def by (meson rtranclp.rtrancl_into_rtrancl)

text \<open>The main thread has taken the lock at 0x400.\<close>

definition demo_locked :: kernel where
  "demo_locked = (booted [0x400])\<lparr>
     threads := (threads (booted [0x400]))(0x1000 := main_thread\<lparr>locks := [0x400]\<rparr>),
     semas := (semas (booted [0x400]))(0x404 := \<lparr>sema_value = 0, waiters = []\<rparr>),
     lock_holder := (\<lambda>_. 0)(0x400 := 0x1000)\<rparr>"

lemma reachable_locked: "reachable [0x400] demo_locked"
proof -
  let ?k = "booted [0x400]"
  have t: "threads ?k 0x1000 = main_thread" "running_thread ?k = 0x1000" by (simp_all add: booted_def)
  have b: "reachable [0x400] ?k" by (rule reachable_boot) simp_all
  define k1 where "k1 = with_calls ?k [Sema_down 0x404, Lock_acquired 0x400, Function 0, Thread_exit] INTR_ON"
  define k2 where "k2 = (with_calls ?k [Lock_acquired 0x400, Function 0, Thread_exit] INTR_ON)
    \<lparr>semas := (semas ?k)(0x404 := \<lparr>sema_value = 0, waiters = []\<rparr>)\<rparr>"
  have s1: "run_call (0x500, 0x600) (Lock_acquire 0x400) ?k = Some k1"
    by (simp add: k1_def kernel_defs booted_def blank_kernel_def with_calls_def main_thread_def lock_semaphore_def)
  have s2: "exec (0x500, 0x600) k1 = Some k2"
    by (simp add: k1_def k2_def kernel_defs booted_def blank_kernel_def with_calls_def main_thread_def lock_semaphore_def)
  have s3: "exec (0x500, 0x600) k2 = Some demo_locked"
    by (simp add: k2_def demo_locked_def kernel_defs booted_def blank_kernel_def with_calls_def main_thread_def)
  have fr: "fresh_sema (set [tid_lock, 0x400]) k (fst (0x500, 0x600))" "fresh_sema (set [tid_lock, 0x400]) k (snd (0x500, 0x600))"
    if "k = k1 \<or> k = k2" for k
    using that by (auto simp: fresh_sema_def lock_semas_def lock_semaphore_def k1_def k2_def booted_def)
  have "kstep (set [tid_lock, 0x400]) ?k k1"
    by (rule step_call [OF _ _ s1, of 0 "[Thread_exit]"]) (simp_all add: booted_def blank_kernel_def main_thread_def)
  moreover have "kstep (set [tid_lock, 0x400]) k1 k2"
    by (rule step_exec [of _ "Sema_down 0x404" "[Lock_acquired 0x400, Function 0, Thread_exit]", OF _ _ fr s2])
      (simp_all add: k1_def)
  moreover have "kstep (set [tid_lock, 0x400]) k2 demo_locked"
    by (rule step_exec [of _ "Lock_acquired 0x400" "[Function 0, Thread_exit]", OF _ _ fr s3])
      (simp_all add: k2_def)
  ultimately show ?thesis using b reachable_step by blast
qed

text \<open>The main thread waits on the semaphore at 0x700.\<close>

definition demo_waiting :: kernel where
  "demo_waiting = (booted [])\<lparr>
     threads := (threads (booted []))(
       0x1000 := main_thread\<lparr>status := THREAD_BLOCKED, calls := [Sema_down_loop 0x700 INTR_ON, Function 0, Thread_exit]\<rparr>,
       0x2000 := started_idle_thread\<lparr>status := THREAD_RUNNING\<rparr>),
     semas := (semas (booted []))(0x700 := \<lparr>sema_value = 0, waiters = [0x1000]\<rparr>),
     running_thread := 0x2000, intr_level := INTR_OFF\<rparr>"

lemma reachable_waiting: "reachable [] demo_waiting"
proof -
  have b: "reachable [] (booted [])" by (rule reachable_boot) simp_all
  have s: "run_call (0x500, 0x600) (Sema_down 0x700) (booted []) = Some demo_waiting"
    by (simp add: demo_waiting_def kernel_defs booted_def blank_kernel_def main_thread_def started_idle_thread_def
        lock_semaphore_def fun_upd_twist)
  have "kstep (set [tid_lock]) (booted []) demo_waiting"
    by (rule step_call [OF _ _ s, of 0 "[Thread_exit]"])
      (simp_all add: booted_def blank_kernel_def main_thread_def lock_semas_def lock_semaphore_def)
  then show ?thesis using b reachable_step by blast
qed

section \<open>Safety\<close>

lemma tick_total:
  assumes "kernel_inv L k" "\<not> thread_mlfqs k"
  shows "\<exists>k2. thread_tick (ticked k) = Some k2"
proof -
  note i = kernel_invD [OF assms(1)]
  have "is_thread k (running_thread k)" using lo_thread [OF coreD(1) [OF i(1)] i(3)] by blast
  then have "thread_current (ticked k) = Some (running_thread k)" using i(2) by (simp add: thread_current_def is_thread_def)
  then show ?thesis using thread_tick_total [of "ticked k"] assms(2) by auto
qed

text \<open>
  C1: mutual exclusion. In every state the kernel reaches from boot, a lock that a live thread
  has on its list of locks has that thread as its holder and its semaphore at 0, and no other
  live thread has it.
\<close>

theorem mutual_exclusion:
  assumes "reachable ls k" "t \<in> set (all_list k)" "u \<in> set (all_list k)"
    "l \<in> set (locks (threads k t))" "l \<in> set (locks (threads k u))"
  shows "t = u \<and> lock_holder k l = t \<and> sema_value (semas k (lock_semaphore l)) = 0"
proof -
  let ?L = "set (tid_lock # ls)"
  have c: "core ?L k" using reachable_inv [OF assms(1)] by (simp add: kernel_inv_def)
  have h: "l \<in> ?L" "lock_holder k l = t" "lock_holder k l = u"
    using locks_held [OF c assms(2)] locks_held [OF c assms(3)] assms(4,5) by (auto simp: held_def)
  have "t \<noteq> 0" using thread_nonzero [OF c assms(2)] .
  moreover have "0 \<le> (\<Sum>t\<leftarrow>all_list k. claims l (calls (threads k t)))"
    by (rule sum_list_nonneg) (use all_claims_nonneg [OF c _ h(1)] in auto)
  ultimately show ?thesis using lock_sum [OF coreD(4) [OF c] h(1)] h by auto
qed

theorem mutual_exclusion_witness:
  "reachable [0x400] demo_locked \<and> 0x1000 \<in> set (all_list demo_locked) \<and> 0x400 \<in> set (locks (threads demo_locked 0x1000)) \<and>
   lock_holder demo_locked 0x400 = 0x1000 \<and> sema_value (semas demo_locked (lock_semaphore 0x400)) = 0"
proof -
  have "0x1000 \<in> set (all_list demo_locked)" "0x400 \<in> set (locks (threads demo_locked 0x1000))"
    by (simp_all add: demo_locked_def booted_def)
  then show ?thesis using mutual_exclusion [OF reachable_locked, of "0x1000" "0x1000" "0x400"] reachable_locked by blast
qed



text \<open>
  C3: no wake-up is lost. While threads wait on a semaphore, its value is never larger than the
  number of threads that have been taken off its list and have yet to test it: a waiter never sleeps
  next to a unit of the semaphore that nobody is about to take.
\<close>

theorem no_lost_wakeup:
  assumes "reachable ls k" "waiters (semas k s) \<noteq> []"
  shows "sema_value (semas k s) \<le> length (woken k s) \<and>
    (\<forall>t\<in>set (waiters (semas k s)). t \<in> set (all_list k) \<and> status (threads k t) = THREAD_BLOCKED)"
  using coreD(5) [OF kernel_invD(1) [OF reachable_inv [OF assms(1)]]] coreD(1) [OF kernel_invD(1) [OF reachable_inv [OF assms(1)]]] assms(2)
  unfolding wakeups_ok_def lists_ok_def by blast

theorem no_lost_wakeup_witness:
  "reachable [] demo_waiting \<and> waiters (semas demo_waiting 0x700) = [0x1000] \<and>
   sema_value (semas demo_waiting 0x700) \<le> length (woken demo_waiting 0x700) \<and> status (threads demo_waiting 0x1000) = THREAD_BLOCKED"
proof -
  have w: "waiters (semas demo_waiting 0x700) = [0x1000]" by (simp add: demo_waiting_def)
  then show ?thesis using no_lost_wakeup [OF reachable_waiting, of "0x700"] reachable_waiting by simp
qed




section \<open>Scheduling\<close>

text \<open>
  C6: the scheduler takes the first of the ready threads with the highest effective priority off
  the ready list, which keeps its order otherwise; the idle thread runs only when the list is empty.
\<close>

theorem scheduler_picks_highest:
  assumes "next_thread_to_run k = Some (t, k')"
  shows "if ready_list k = [] then t = idle_thread k \<and> k' = k
    else \<exists>as bs. ready_list k = as @ t # bs \<and> k' = k\<lparr>ready_list := as @ bs\<rparr> \<and>
      (\<forall>u\<in>set as. given_thread_get_priority k u < given_thread_get_priority k t) \<and>
      (\<forall>u\<in>set bs. given_thread_get_priority k u \<le> given_thread_get_priority k t)"
proof (cases "ready_list k = []")
  case False
  then have m: "list_highest_priority_thread k (ready_list k) = Some t" "k' = k\<lparr>ready_list := remove1 t (ready_list k)\<rparr>"
    using assms by (auto simp: next_thread_to_run_def option_bind_Some)
  obtain as bs where s: "ready_list k = as @ t # bs" "\<forall>u\<in>set as. given_thread_get_priority k u < given_thread_get_priority k t"
    "\<forall>u\<in>set bs. given_thread_get_priority k u \<le> given_thread_get_priority k t"
    using highest_priority_first [OF m(1)] by blast
  moreover have "t \<notin> set as" using s(2) by auto
  ultimately have "k' = k\<lparr>ready_list := as @ bs\<rparr>" using m(2) by (simp add: remove1_append)
  then show ?thesis using False s by auto
qed (use assms in \<open>auto simp: next_thread_to_run_def\<close>)

text \<open>Three ready threads of priorities 31, 40 and 40.\<close>

definition demo_ready :: kernel where
  "demo_ready = (booted [])\<lparr>
     threads := (\<lambda>t. if t = 0x4000 \<or> t = 0x5000 then main_thread\<lparr>status := THREAD_READY, priority := 40\<rparr>
       else main_thread\<lparr>status := THREAD_READY\<rparr>),
     ready_list := [0x3000, 0x4000, 0x5000]\<rparr>"

theorem scheduler_picks_highest_witness:
  "next_thread_to_run demo_ready = Some (0x4000, demo_ready\<lparr>ready_list := [0x3000, 0x5000]\<rparr>) \<and>
   given_thread_get_priority demo_ready 0x5000 \<le> given_thread_get_priority demo_ready 0x4000"
proof -
  have n: "next_thread_to_run demo_ready = Some (0x4000, demo_ready\<lparr>ready_list := [0x3000, 0x5000]\<rparr>)"
    by (simp add: next_thread_to_run_def demo_ready_def donated_no_locks main_thread_def)
  have r: "ready_list demo_ready = [0x3000, 0x4000, 0x5000]" by (simp add: demo_ready_def)
  obtain as bs where "[0x3000, 0x4000, 0x5000] = as @ 0x4000 # bs"
    "\<forall>u\<in>set bs. given_thread_get_priority demo_ready u \<le> given_thread_get_priority demo_ready 0x4000"
    using scheduler_picks_highest [OF n] unfolding r by (simp only: list.distinct if_False) blast
  moreover from this have "0x5000 \<in> set bs" by (auto simp: Cons_eq_append_conv)
  ultimately show ?thesis using n by blast
qed

text \<open>
  C5: priority donation. Under the priority scheduler the effective priority of a thread is
  the largest base priority among the threads that wait for it through at most eight locks: some
  donor has it, and none has a higher one.
\<close>

theorem donation_is_max:
  assumes "\<not> thread_mlfqs k"
  shows "(\<exists>u. donor k MAX_DEPTH t u \<and> given_thread_get_priority k t = priority (threads k u)) \<and>
   (\<forall>u. donor k MAX_DEPTH t u \<longrightarrow> priority (threads k u) \<le> given_thread_get_priority k t)"
  using donated_priority_max [of k MAX_DEPTH t] assms by (simp add: given_thread_get_priority_def)

text \<open>A thread of priority 63 waits for the lock that the main thread holds.\<close>

definition demo_donation :: kernel where
  "demo_donation = demo_locked\<lparr>
     threads := (threads demo_locked)(0x3000 := main_thread\<lparr>priority := 63, status := THREAD_BLOCKED\<rparr>),
     semas := (semas demo_locked)(0x404 := \<lparr>sema_value = 0, waiters = [0x3000]\<rparr>)\<rparr>"

theorem donation_is_max_witness:
  "\<not> thread_mlfqs demo_donation \<and> donor demo_donation MAX_DEPTH 0x1000 0x3000 \<and> priority (threads demo_donation 0x1000) = 31 \<and>
   63 \<le> given_thread_get_priority demo_donation 0x1000"
proof -
  have m: "\<not> thread_mlfqs demo_donation" by (simp add: demo_donation_def demo_locked_def booted_def blank_kernel_def)
  have "donor demo_donation (Suc 7) 0x1000 0x3000"
    by (rule donor_step [OF _ _ donor_self, of "0x400"])
      (simp_all add: demo_donation_def demo_locked_def lock_semaphore_def)
  then have d: "donor demo_donation MAX_DEPTH 0x1000 0x3000" by simp
  have p: "priority (threads demo_donation 0x1000) = 31" "priority (threads demo_donation 0x3000) = 63"
    by (simp_all add: demo_donation_def demo_locked_def main_thread_def)
  have "priority (threads demo_donation 0x3000) \<le> given_thread_get_priority demo_donation 0x1000"
    using donation_is_max [OF m, of "0x1000"] d by blast
  then show ?thesis using m d p by simp
qed

section \<open>The timer\<close>

text \<open>
  C7: a tick of the timer makes exactly the sleepers ready whose time has come, in the order in
  which they went to sleep and behind the threads already ready; the others stay asleep. This holds in every reachable state
  of the priority scheduler in which interrupts are on, unless the running thread is between the two halves of
  \<^verbatim>\<open>timer_sleep\<close>.
\<close>

theorem tick_wakes_due:
  assumes "reachable ls k" "intr_level k = INTR_ON" "\<forall>cs. current_calls k \<noteq> Timer_sleep_block # cs" "\<not> thread_mlfqs k"
  shows "\<exists>k'. timer_interrupt (k\<lparr>intr_level := INTR_OFF, in_external_intr := True, yield_on_return := False\<rparr>) = Some k' \<and>
    ready_list k' = ready_list k @ filter (\<lambda>t. next_wakeup (threads k t) \<le> s64 (timer_count k + 1)) (sleeping_list k) \<and>
    sleeping_list k' = filter (\<lambda>t. s64 (timer_count k + 1) < next_wakeup (threads k t)) (sleeping_list k)"
proof -
  note I = reachable_inv [OF assms(1)]
  obtain k2 where k2: "thread_tick (ticked k) = Some k2" using tick_total [OF I assms(4)] by blast
  have d: "due (ticked k) = (\<lambda>t. next_wakeup (threads k t) \<le> s64 (timer_count k + 1))"
    by (auto simp: due_def)
  from timer_interrupt_run [OF I assms(2,3) k2] show ?thesis
    unfolding d not_le by (elim exE conjE) (intro exI conjI)
qed


text \<open>The main thread sleeps for one tick; the idle thread runs.\<close>

definition demo_sleeping :: kernel where
  "demo_sleeping = (booted [])\<lparr>
     threads := (threads (booted []))(
       0x1000 := main_thread\<lparr>status := THREAD_BLOCKED, next_wakeup := 1, calls := [Timer_sleep_end INTR_ON, Function 0, Thread_exit]\<rparr>,
       0x2000 := started_idle_thread\<lparr>status := THREAD_RUNNING, calls := [Idle_loop, Thread_exit]\<rparr>),
     sleeping_list := [0x1000], running_thread := 0x2000\<rparr>"

definition demo_going_to_sleep :: kernel where
  "demo_going_to_sleep = (booted [])\<lparr>
     threads := (threads (booted []))(
       0x1000 := main_thread\<lparr>next_wakeup := 1, calls := [Timer_sleep_block, Function 0, Thread_exit]\<rparr>),
     sleeping_list := [0x1000]\<rparr>"

lemma reachable_going_to_sleep: "reachable [] demo_going_to_sleep"
proof -
  have b: "reachable [] (booted [])" by (rule reachable_boot) simp_all
  have s: "run_call (0x500, 0x600) (Timer_sleep 1) (booted []) = Some demo_going_to_sleep"
    by (simp add: demo_going_to_sleep_def kernel_defs timer_sleep_def timer_ticks_def booted_def blank_kernel_def main_thread_def
        fun_upd_twist s64_def)
  have "kstep (set [tid_lock]) (booted []) demo_going_to_sleep"
    by (rule step_call [OF _ _ s, of 0 "[Thread_exit]"]) (simp_all add: booted_def blank_kernel_def main_thread_def)
  then show ?thesis using b reachable_step by blast
qed


lemma reachable_exec:
  assumes "reachable [] k" "current_calls k = c # cs" "\<forall>n. c \<noteq> Function n"
    "waiters (semas k 0x500) = []" "waiters (semas k 0x600) = []" "exec (0x500, 0x600) k = Some k'"
  shows "reachable [] k'"
proof -
  have "kstep (set [tid_lock]) k k'"
    by (rule step_exec [OF assms(2,3) _ _ assms(6)]) (use assms(4,5) in \<open>simp_all add: fresh_sema_def lock_semas_def lock_semaphore_def\<close>)
  then show ?thesis using assms(1) reachable_step by blast
qed

lemma reachable_sleeping: "reachable [] demo_sleeping"
proof -
  have step: "reachable [] (demo_sleeping\<lparr>threads := (threads demo_sleeping)(0x2000 := started_idle_thread\<lparr>status := THREAD_RUNNING,
       calls := cs\<rparr>), intr_level := INTR_OFF\<rparr>)"
    if "reachable [] (demo_sleeping\<lparr>threads := (threads demo_sleeping)(0x2000 := started_idle_thread\<lparr>status := THREAD_RUNNING,
       calls := Intr_set_level INTR_OFF # cs\<rparr>), intr_level := INTR_OFF\<rparr>)" for cs
    by (rule reachable_exec [OF that, of "Intr_set_level INTR_OFF" cs])
      (simp_all add: demo_sleeping_def booted_def blank_kernel_def kernel_defs)
  have "reachable [] (demo_sleeping\<lparr>threads := (threads demo_sleeping)(0x2000 := started_idle_thread\<lparr>status := THREAD_RUNNING,
      calls := [Intr_set_level INTR_OFF, Intr_set_level INTR_OFF, Intr_set_level INTR_ON, Idle_loop, Thread_exit]\<rparr>), intr_level := INTR_OFF\<rparr>)"
    by (rule reachable_exec [OF reachable_going_to_sleep, of Timer_sleep_block "[Function 0, Thread_exit]"])
      (simp_all add: demo_going_to_sleep_def demo_sleeping_def booted_def blank_kernel_def kernel_defs timer_sleep_block_def
        main_thread_def started_idle_thread_def fun_upd_twist)
  then have "reachable [] (demo_sleeping\<lparr>threads := (threads demo_sleeping)(0x2000 := started_idle_thread\<lparr>status := THREAD_RUNNING,
       calls := [Intr_set_level INTR_ON, Idle_loop, Thread_exit]\<rparr>), intr_level := INTR_OFF\<rparr>)"
    by (rule step [OF step])
  then show ?thesis
    by (rule reachable_exec [of _ "Intr_set_level INTR_ON" "[Idle_loop, Thread_exit]"])
      (simp_all add: demo_sleeping_def booted_def blank_kernel_def kernel_defs fun_upd_twist)
qed

theorem tick_wakes_due_witness:
  "reachable [] demo_sleeping \<and> sleeping_list demo_sleeping = [0x1000] \<and>
   (\<exists>k'. timer_interrupt (demo_sleeping\<lparr>intr_level := INTR_OFF, in_external_intr := True, yield_on_return := False\<rparr>) = Some k' \<and>
      ready_list k' = [0x1000] \<and> sleeping_list k' = [])"
proof -
  have f: "intr_level demo_sleeping = INTR_ON" "\<forall>cs. current_calls demo_sleeping \<noteq> Timer_sleep_block # cs" "\<not> thread_mlfqs demo_sleeping"
    "ready_list demo_sleeping = []" "sleeping_list demo_sleeping = [0x1000]" "next_wakeup (threads demo_sleeping 0x1000) = 1"
    "timer_count demo_sleeping = 0"
    by (simp_all add: demo_sleeping_def booted_def blank_kernel_def)
  then show ?thesis using tick_wakes_due [OF reachable_sleeping f(1-3)] reachable_sleeping by (simp add: s64_def)
qed

text \<open>
  C9: the race in \<^verbatim>\<open>timer_sleep\<close>. The thread puts itself on the sleeping list before it disables
  interrupts; a tick that comes in between and finds it due unblocks a running thread, and the
  assertion in \<^verbatim>\<open>thread_unblock\<close> fails. The kernel reaches such a state from boot.
\<close>

theorem timer_sleep_race:
  "\<exists>k. reachable [] k \<and> intr_level k = INTR_ON \<and> current_calls k = [Timer_sleep_block, Function 0, Thread_exit] \<and>
     sleeping_list k = [running_thread k] \<and> intr_handler k = None"
proof (intro exI conjI)
  show "reachable [] demo_going_to_sleep" by (rule reachable_going_to_sleep)
  show "intr_handler demo_going_to_sleep = None"
    by (simp add: intr_handler_def timer_interrupt_def thread_tick_def demo_going_to_sleep_def booted_def blank_kernel_def kernel_defs
        main_thread_def timer_ticks_def s64_def u32_def)
qed (simp_all add: demo_going_to_sleep_def booted_def blank_kernel_def)

text \<open>A run of the pending calls of the running thread, none of which is a body of a thread.\<close>

fun quiet_run :: "nat \<Rightarrow> kernel \<Rightarrow> kernel option" where
  "quiet_run 0 k = Some k"
| "quiet_run (Suc n) k = do {
     ASSERT (current_calls k \<noteq> [] \<and> (\<forall>n. hd (current_calls k) \<noteq> Function n));
     ASSERT (waiters (semas k 0x500) = [] \<and> waiters (semas k 0x600) = []);
     k \<leftarrow> exec (0x500, 0x600) k;
     quiet_run n k }"

lemma quiet_run_reachable: "quiet_run n k = Some k' \<Longrightarrow> reachable [] k \<Longrightarrow> reachable [] k'"
proof (induction n arbitrary: k)
  case (Suc n)
  then obtain k1 where "current_calls k = hd (current_calls k) # tl (current_calls k)" "\<forall>n. hd (current_calls k) \<noteq> Function n" "waiters (semas k 0x500) = []" "waiters (semas k 0x600) = []"
    "exec (0x500, 0x600) k = Some k1" "quiet_run n k1 = Some k'"
    by (auto simp: Option.bind_eq_Some_conv split: if_splits)
  then show ?case using Suc.IH [of k1] reachable_exec [of k _ _ k1] Suc.prems(2) by blast
qed simp

text \<open>The main thread has created a second thread, and \<open>n\<close> ticks have gone by; then it calls \<^verbatim>\<open>timer_sleep\<close>.\<close>

definition second_thread :: thread where
  "second_thread = main_thread\<lparr>tid := 3, status := THREAD_READY, name := ''t'', stack := 0x3fd4, loaded_sema := 0x500, alive_sema := 0x600,
    calls := [Kernel_thread (Function 0)]\<rparr>"

lemma quiet_run_numeral:
  "quiet_run (numeral v) k = do {
     ASSERT (current_calls k \<noteq> [] \<and> (\<forall>n. hd (current_calls k) \<noteq> Function n));
     ASSERT (waiters (semas k 0x500) = [] \<and> waiters (semas k 0x600) = []);
     k \<leftarrow> exec (0x500, 0x600) k;
     quiet_run (pred_numeral v) k }"
  by (simp add: numeral_eq_Suc)

definition demo_two :: "nat \<Rightarrow> kernel" where
  "demo_two n = (booted [])\<lparr>threads := (threads (booted []))(0x3000 := second_thread), ready_list := [0x3000],
     all_list := [0x1000, 0x2000, 0x3000], next_tid := 4, thread_ticks := n, kernel_ticks := int n, timer_count := int n\<rparr>"

lemma reachable_two_0: "reachable [] (demo_two 0)"
proof -
  have "run_call (0x500, 0x600) (Thread_create ''t'' 31 (Function 0) 0x3000) (booted []) \<bind> quiet_run 7 = Some (demo_two 0)"
    apply (simp add: kernel_defs booted_def blank_kernel_def quiet_run_numeral donated_no_locks main_thread_def zero_thread_def
        lock_semaphore_def cong: bind_weak_cong)
    apply (auto simp: demo_two_def second_thread_def booted_def blank_kernel_def main_thread_def zero_thread_def
        lock_semaphore_def fun_eq_iff)
    done
  then obtain k where k: "run_call (0x500, 0x600) (Thread_create ''t'' 31 (Function 0) 0x3000) (booted []) = Some k"
    "quiet_run 7 k = Some (demo_two 0)"
    by (auto simp: Option.bind_eq_Some_conv)
  have "kstep (set [tid_lock]) (booted []) k"
    by (rule step_call [OF _ _ k(1), of 0 "[Thread_exit]"]) (simp_all add: booted_def blank_kernel_def main_thread_def)
  then show ?thesis using quiet_run_reachable [OF k(2)] reachable_step [OF reachable_boot [of "[]"]] by simp
qed

lemma reachable_two: "n \<le> 3 \<Longrightarrow> reachable [] (demo_two n)"
proof (induction n)
  case (Suc n)
  have "intr_handler (demo_two n) = Some (demo_two (Suc n))"
    using Suc.prems
    by (simp add: demo_two_def booted_def blank_kernel_def main_thread_def intr_handler_def timer_interrupt_def thread_tick_def
        kernel_defs s64_def u32_def add.commute)
  then have "kstep (set [tid_lock]) (demo_two n) (demo_two (Suc n))"
    by (intro step_tick) (simp_all add: demo_two_def booted_def blank_kernel_def main_thread_def)
  then show ?case using Suc reachable_step by simp
qed (rule reachable_two_0)

definition demo_window :: kernel where
  "demo_window = (demo_two 3)\<lparr>
     threads := (threads (demo_two 3))(0x1000 := main_thread\<lparr>next_wakeup := 13, calls := [Timer_sleep_block, Function 0, Thread_exit]\<rparr>),
     sleeping_list := [0x1000]\<rparr>"

lemma reachable_window: "reachable [] demo_window"
proof -
  have s: "run_call (0x500, 0x600) (Timer_sleep 10) (demo_two 3) = Some demo_window"
    by (simp add: demo_window_def demo_two_def kernel_defs timer_sleep_def timer_ticks_def booted_def blank_kernel_def main_thread_def
        fun_upd_twist s64_def)
  have "kstep (set [tid_lock]) (demo_two 3) demo_window"
    by (rule step_call [OF _ _ s, of 0 "[Thread_exit]"]) (simp_all add: demo_two_def booted_def blank_kernel_def main_thread_def)
  then show ?thesis using reachable_two [of 3] reachable_step by simp
qed

text \<open>
  C10: the same window in \<^verbatim>\<open>timer_sleep\<close>, with a tick that finds the thread not due but ends its time slice:
  the thread, which is on the sleeping list and still running, is put on the ready list as well, and another thread runs.
  The kernel reaches such a state from boot. Both lists are linked through the same member of \<^verbatim>\<open>struct thread\<close>, so the
  second insertion overwrites the links of the first.
\<close>

theorem timer_sleep_double_queue:
  "\<exists>k k'. reachable [] k \<and> intr_level k = INTR_ON \<and> current_calls k = [Timer_sleep_block, Function 0, Thread_exit] \<and>
     intr_handler k = Some k' \<and> running_thread k \<in> set (ready_list k') \<and> running_thread k \<in> set (sleeping_list k') \<and>
     running_thread k' \<noteq> running_thread k"
proof -
  have "\<exists>k'. intr_handler demo_window = Some k' \<and> ready_list k' = [0x1000] \<and> sleeping_list k' = [0x1000] \<and> running_thread k' = 0x3000"
    by (simp add: demo_window_def demo_two_def booted_def blank_kernel_def main_thread_def second_thread_def intr_handler_def
        timer_interrupt_def thread_tick_def kernel_defs intr_yield_on_return_def timer_ticks_def donated_no_locks s64_def u32_def)
  moreover have "intr_level demo_window = INTR_ON" "running_thread demo_window = 0x1000"
    "current_calls demo_window = [Timer_sleep_block, Function 0, Thread_exit]"
    by (simp_all add: demo_window_def demo_two_def booted_def blank_kernel_def)
  ultimately show ?thesis using reachable_window by force
qed

end
