(* ===== verification/Block_Device.thy ===== *)
theory Block_Device
  imports Bitmap Kernel_List
begin

text \<open>
  Block devices: the registry and the access functions of \<^verbatim>\<open>devices/block.c\<close>, and the partitions
  of \<^verbatim>\<open>devices/partition.c\<close>. A disk is a function from sector numbers to sectors; its driver
  reads and writes it. A partition is a device whose driver forwards to the device that contains it.
\<close>

section \<open>State\<close>

type_synonym byte = "8 word"

abbreviation (input) BLOCK_SECTOR_SIZE :: nat where "BLOCK_SECTOR_SIZE \<equiv> 512"

datatype block_type = BLOCK_KERNEL | BLOCK_FILESYS | BLOCK_SCRATCH | BLOCK_SWAP | BLOCK_RAW | BLOCK_FOREIGN

text \<open>The two implementations of \<^verbatim>\<open>struct block_operations\<close> in the kernel.\<close>

datatype block_operations = Ide_operations | Partition_operations

record block =
  block_name :: string
  block_type :: block_type
  block_size :: nat
  ops :: block_operations
  aux :: ptr
  read_cnt :: nat
  write_cnt :: nat

record partition =
  underlying :: ptr
  start :: nat

text \<open>
  The registered devices, the partition descriptors and the contents of the disks; \<open>brk\<close> is the
  next address \<^verbatim>\<open>malloc\<close> returns, unless \<open>mem_full\<close> makes it fail.
\<close>

record devices =
  blocks :: "ptr \<Rightarrow> block option"
  all_blocks :: "ptr list"
  block_by_role :: "block_type \<Rightarrow> ptr"
  partitions :: "ptr \<Rightarrow> partition option"
  disks :: "ptr \<Rightarrow> nat \<Rightarrow> byte list"
  brk :: ptr
  mem_full :: bool

section \<open>The registry\<close>

fun block_type_name :: "block_type \<Rightarrow> string" where
  "block_type_name BLOCK_KERNEL = ''kernel''"
| "block_type_name BLOCK_FILESYS = ''filesys''"
| "block_type_name BLOCK_SCRATCH = ''scratch''"
| "block_type_name BLOCK_SWAP = ''swap''"
| "block_type_name BLOCK_RAW = ''raw''"
| "block_type_name BLOCK_FOREIGN = ''foreign''"

text \<open>\<^verbatim>\<open>role < BLOCK_ROLE_CNT\<close>\<close>

definition is_role :: "block_type \<Rightarrow> bool" where
  "is_role r \<longleftrightarrow> r \<noteq> BLOCK_RAW \<and> r \<noteq> BLOCK_FOREIGN"

definition block_get_role :: "block_type \<Rightarrow> devices \<Rightarrow> ptr option" where
  "block_get_role r d = do { ASSERT (is_role r); Some (block_by_role d r) }"

definition block_set_role :: "block_type \<Rightarrow> ptr \<Rightarrow> devices \<Rightarrow> devices option" where
  "block_set_role r b d = do { ASSERT (is_role r); Some (d\<lparr>block_by_role := (block_by_role d)(r := b)\<rparr>) }"

definition block_first :: "devices \<Rightarrow> ptr" where
  "block_first d = (case all_blocks d of [] \<Rightarrow> 0 | b # _ \<Rightarrow> b)"

definition block_next :: "ptr \<Rightarrow> devices \<Rightarrow> ptr" where
  "block_next b d = (case dropWhile (\<lambda>c. c \<noteq> b) (all_blocks d) of _ # c # _ \<Rightarrow> c | _ \<Rightarrow> 0)"

fun find_by_name :: "(ptr \<Rightarrow> block option) \<Rightarrow> string \<Rightarrow> ptr list \<Rightarrow> ptr option" where
  "find_by_name bs n [] = Some 0"
| "find_by_name bs n (b # rest) = do {
     k \<leftarrow> bs b;
     if block_name k = n then Some b else find_by_name bs n rest }"

definition block_get_by_name :: "string \<Rightarrow> devices \<Rightarrow> ptr option" where
  "block_get_by_name n d = find_by_name (blocks d) n (all_blocks d)"

definition dev_malloc :: "devices \<Rightarrow> ptr \<times> devices" where
  "dev_malloc d = (if mem_full d then (0, d) else (brk d, d\<lparr>brk := brk d + 1\<rparr>))"

text \<open>The name is truncated to the 15 characters that fit the descriptor. The message is not modelled.\<close>

definition block_register ::
  "string \<Rightarrow> block_type \<Rightarrow> nat \<Rightarrow> block_operations \<Rightarrow> ptr \<Rightarrow> devices \<Rightarrow> (ptr \<times> devices) option" where
  "block_register n ty sz op a d = do {
     let (b, d) = dev_malloc d;
     ASSERT (b \<noteq> 0);
     Some (b, d\<lparr>blocks := (blocks d)(b \<mapsto> \<lparr>block_name = take 15 n, block_type = ty, block_size = sz, ops = op, aux = a,
                 read_cnt = 0, write_cnt = 0\<rparr>),
               all_blocks := all_blocks d @ [b]\<rparr>) }"

section \<open>Access\<close>

definition check_sector :: "block \<Rightarrow> nat \<Rightarrow> unit option" where
  "check_sector k s = ASSERT (s < block_size k)"

definition upd_block :: "ptr \<Rightarrow> (block \<Rightarrow> block) \<Rightarrow> devices \<Rightarrow> devices" where
  "upd_block b f d = d\<lparr>blocks := (blocks d)(b := map_option f (blocks d b))\<rparr>"

text \<open>The functions of the partition driver; \<open>rd\<close> and \<open>wr\<close> are \<^verbatim>\<open>block_read\<close> and \<^verbatim>\<open>block_write\<close>, which they call.\<close>

definition partition_read ::
  "(ptr \<Rightarrow> nat \<Rightarrow> devices \<Rightarrow> (byte list \<times> devices) option) \<Rightarrow> ptr \<Rightarrow> nat \<Rightarrow> devices \<Rightarrow> (byte list \<times> devices) option" where
  [simp]: "partition_read rd a s d = do { p \<leftarrow> partitions d a; rd (underlying p) (u32 (start p + s)) d }"

definition partition_write ::
  "(ptr \<Rightarrow> nat \<Rightarrow> byte list \<Rightarrow> devices \<Rightarrow> devices option) \<Rightarrow> ptr \<Rightarrow> nat \<Rightarrow> byte list \<Rightarrow> devices \<Rightarrow> devices option" where
  [simp]: "partition_write wr a s buf d = do { p \<leftarrow> partitions d a; wr (underlying p) (u32 (start p + s)) buf d }"

text \<open>
  The call through \<^verbatim>\<open>ops\<close>: the disk driver transfers the sector, a partition calls
  \<^verbatim>\<open>block_read\<close> again on the device that contains it. The first argument bounds the nesting of partitions;
  a device cannot contain more levels than there are devices.
\<close>

primrec block_read_n :: "nat \<Rightarrow> ptr \<Rightarrow> nat \<Rightarrow> devices \<Rightarrow> (byte list \<times> devices) option" where
  "block_read_n 0 b s d = None"
| "block_read_n (Suc n) b s d = do {
     k \<leftarrow> blocks d b;
     check_sector k s;
     (buf, d) \<leftarrow> (case ops k of
        Ide_operations \<Rightarrow> Some (disks d (aux k) s, d)
      | Partition_operations \<Rightarrow> partition_read (block_read_n n) (aux k) s d);
     Some (buf, upd_block b (\<lambda>k. k\<lparr>read_cnt := (read_cnt k + 1) mod 2 ^ 64\<rparr>) d) }"

primrec block_write_n :: "nat \<Rightarrow> ptr \<Rightarrow> nat \<Rightarrow> byte list \<Rightarrow> devices \<Rightarrow> devices option" where
  "block_write_n 0 b s buf d = None"
| "block_write_n (Suc n) b s buf d = do {
     k \<leftarrow> blocks d b;
     check_sector k s;
     ASSERT (block_type k \<noteq> BLOCK_FOREIGN);
     d \<leftarrow> (case ops k of
        Ide_operations \<Rightarrow> Some (d\<lparr>disks := (disks d)(aux k := (disks d (aux k))(s := buf))\<rparr>)
      | Partition_operations \<Rightarrow> partition_write (block_write_n n) (aux k) s buf d);
     Some (upd_block b (\<lambda>k. k\<lparr>write_cnt := (write_cnt k + 1) mod 2 ^ 64\<rparr>) d) }"

definition block_read :: "ptr \<Rightarrow> nat \<Rightarrow> devices \<Rightarrow> (byte list \<times> devices) option" where
  "block_read b s d = block_read_n (length (all_blocks d)) b s d"

definition block_write :: "ptr \<Rightarrow> nat \<Rightarrow> byte list \<Rightarrow> devices \<Rightarrow> devices option" where
  "block_write b s buf d = block_write_n (length (all_blocks d)) b s buf d"

section \<open>Partitions\<close>

text \<open>A partition table entry, as it lies in the sector.\<close>

record partition_table_entry =
  pe_type :: nat
  pe_offset :: nat
  pe_size :: nat

definition le32 :: "byte list \<Rightarrow> nat \<Rightarrow> nat" where
  "le32 bs n = unat (bytes_word (take 4 (drop n bs)))"

definition table_entry :: "byte list \<Rightarrow> nat \<Rightarrow> partition_table_entry" where
  "table_entry bs i = (let o' = 446 + 16 * i in
     \<lparr>pe_type = unat (bs ! (o' + 4)), pe_offset = le32 bs (o' + 8), pe_size = le32 bs (o' + 12)\<rparr>)"

definition table_signature_ok :: "byte list \<Rightarrow> bool" where
  "table_signature_ok bs \<longleftrightarrow> bs ! 510 = 0x55 \<and> bs ! 511 = 0xaa"

definition partition_type_names :: "(nat \<times> string) list" where
  "partition_type_names = [
    (0x00, ''Empty''), (0x01, ''FAT12''), (0x02, ''XENIX root''), (0x03, ''XENIX usr''),
    (0x04, ''FAT16 <32M''), (0x05, ''Extended''), (0x06, ''FAT16''), (0x07, ''HPFS/NTFS''),
    (0x08, ''AIX''), (0x09, ''AIX bootable''), (0x0a, ''OS/2 Boot Manager''), (0x0b, ''W95 FAT32''),
    (0x0c, ''W95 FAT32 (LBA)''), (0x0e, ''W95 FAT16 (LBA)''),
    (0x0f, ''W95 Ext'' @ [CHR 0x27] @ ''d (LBA)''), (0x10, ''OPUS''), (0x11, ''Hidden FAT12''),
    (0x12, ''Compaq diagnostics''), (0x14, ''Hidden FAT16 <32M''), (0x16, ''Hidden FAT16''),
    (0x17, ''Hidden HPFS/NTFS''), (0x18, ''AST SmartSleep''), (0x1b, ''Hidden W95 FAT32''),
    (0x1c, ''Hidden W95 FAT32 (LBA)''), (0x1e, ''Hidden W95 FAT16 (LBA)''), (0x20, ''Pintos OS kernel''),
    (0x21, ''Pintos file system''), (0x22, ''Pintos scratch''), (0x23, ''Pintos swap''),
    (0x24, ''NEC DOS''), (0x39, ''Plan 9''), (0x3c, ''PartitionMagic recovery''), (0x40, ''Venix 80286''),
    (0x41, ''PPC PReP Boot''), (0x42, ''SFS''), (0x4d, ''QNX4.x''), (0x4e, ''QNX4.x 2nd part''),
    (0x4f, ''QNX4.x 3rd part''), (0x50, ''OnTrack DM''), (0x51, ''OnTrack DM6 Aux1''), (0x52, ''CP/M''),
    (0x53, ''OnTrack DM6 Aux3''), (0x54, ''OnTrackDM6''), (0x55, ''EZ-Drive''), (0x56, ''Golden Bow''),
    (0x5c, ''Priam Edisk''), (0x61, ''SpeedStor''), (0x63, ''GNU HURD or SysV''),
    (0x64, ''Novell Netware 286''), (0x65, ''Novell Netware 386''), (0x70, ''DiskSecure Multi-Boot''),
    (0x75, ''PC/IX''), (0x80, ''Old Minix''), (0x81, ''Minix / old Linux''),
    (0x82, ''Linux swap / Solaris''), (0x83, ''Linux''), (0x84, ''OS/2 hidden C: drive''),
    (0x85, ''Linux extended''), (0x86, ''NTFS volume set''), (0x87, ''NTFS volume set''),
    (0x88, ''Linux plaintext''), (0x8e, ''Linux LVM''), (0x93, ''Amoeba''), (0x94, ''Amoeba BBT''),
    (0x9f, ''BSD/OS''), (0xa0, ''IBM Thinkpad hibernation''), (0xa5, ''FreeBSD''), (0xa6, ''OpenBSD''),
    (0xa7, ''NeXTSTEP''), (0xa8, ''Darwin UFS''), (0xa9, ''NetBSD''), (0xab, ''Darwin boot''),
    (0xb7, ''BSDI fs''), (0xb8, ''BSDI swap''), (0xbb, ''Boot Wizard hidden''), (0xbe, ''Solaris boot''),
    (0xbf, ''Solaris''), (0xc1, ''DRDOS/sec (FAT-12)''), (0xc4, ''DRDOS/sec (FAT-16 < 32M)''),
    (0xc6, ''DRDOS/sec (FAT-16)''), (0xc7, ''Syrinx''), (0xda, ''Non-FS data''),
    (0xdb, ''CP/M / CTOS / ...''), (0xde, ''Dell Utility''), (0xdf, ''BootIt''), (0xe1, ''DOS access''),
    (0xe3, ''DOS R/O''), (0xe4, ''SpeedStor''), (0xeb, ''BeOS fs''), (0xee, ''EFI GPT''),
    (0xef, ''EFI (FAT-12/16/32)''), (0xf0, ''Linux/PA-RISC boot''), (0xf1, ''SpeedStor''),
    (0xf4, ''SpeedStor''), (0xf2, ''DOS secondary''), (0xfd, ''Linux raid autodetect''),
    (0xfe, ''LANstep''), (0xff, ''BBT'')]"

definition partition_type_name :: "nat \<Rightarrow> string" where
  "partition_type_name t = (case map_of partition_type_names t of Some n \<Rightarrow> n | None \<Rightarrow> ''Unknown'')"

definition partition_role :: "nat \<Rightarrow> block_type" where
  "partition_role t = (if t = 0x20 then BLOCK_KERNEL else if t = 0x21 then BLOCK_FILESYS
     else if t = 0x22 then BLOCK_SCRATCH else if t = 0x23 then BLOCK_SWAP else BLOCK_FOREIGN)"

fun decimal :: "nat \<Rightarrow> string" where
  "decimal n = (if n < 10 then [char_of (48 + n)] else decimal (n div 10) @ [char_of (48 + n mod 10)])"

declare decimal.simps [simp del]

definition found_partition :: "ptr \<Rightarrow> nat \<Rightarrow> nat \<Rightarrow> nat \<Rightarrow> nat \<Rightarrow> devices \<Rightarrow> devices option" where
  "found_partition b part_type st sz part_nr d = do {
     k \<leftarrow> blocks d b;
     if st \<ge> block_size k then Some d
     else if u32 (st + sz) < st \<or> u32 (st + sz) > block_size k then Some d
     else do {
       let (p, d) = dev_malloc d;
       ASSERT (p \<noteq> 0);
       let d = d\<lparr>partitions := (partitions d)(p \<mapsto> \<lparr>underlying = b, start = st\<rparr>)\<rparr>;
       (_, d) \<leftarrow> block_register (take 15 (block_name k @ decimal part_nr)) (partition_role part_type) sz Partition_operations p d;
       Some d } }"

definition is_extended :: "nat \<Rightarrow> bool" where
  "is_extended t \<longleftrightarrow> t = 0x05 \<or> t = 0x0f \<or> t = 0x85 \<or> t = 0xc5"

text \<open>
  The recursion into extended partitions may not end. The first argument is the number of nested calls that the kernel's stack
  and heap have room for (each call keeps its frame and the table it allocated): \<open>Some None\<close> says that it was
  used up, which is not a fault of the code at any one point but the lack of an end, and \<open>None\<close> is a fault.
\<close>

fun read_partition_table :: "nat \<Rightarrow> ptr \<Rightarrow> nat \<Rightarrow> nat \<Rightarrow> nat \<times> devices \<Rightarrow> (nat \<times> devices) option option" where
  "read_partition_table 0 b sector primary_extended_sector (part_nr, d) = Some None"
| "read_partition_table (Suc fuel) b sector primary_extended_sector (part_nr, d) = do {
     k \<leftarrow> blocks d b;
     if sector \<ge> block_size k then Some (Some (part_nr, d))
     else do {
       ASSERT (\<not> mem_full d);
       (pt, d) \<leftarrow> block_read b 0 d;
       if \<not> table_signature_ok pt then Some (Some (part_nr, d))
       else foldM (\<lambda>st i. case st of None \<Rightarrow> Some None | Some (part_nr, d) \<Rightarrow>
         let e = table_entry pt i in
         if pe_size e = 0 \<or> pe_type e = 0 then Some (Some (part_nr, d))
         else if is_extended (pe_type e) then
           (if sector = 0 then read_partition_table fuel b (pe_offset e) (pe_offset e) (part_nr, d)
            else read_partition_table fuel b (u32 (pe_offset e + primary_extended_sector)) primary_extended_sector (part_nr, d))
         else do {
           d \<leftarrow> found_partition b (pe_type e) (u32 (pe_offset e + sector)) (pe_size e) (part_nr + 1) d;
           Some (Some (part_nr + 1, d)) })
         (Some (part_nr, d)) [0..<4] } }"

definition partition_scan :: "nat \<Rightarrow> ptr \<Rightarrow> devices \<Rightarrow> devices option option" where
  "partition_scan fuel b d = map_option (map_option snd) (read_partition_table fuel b 0 0 (0, d))"

section \<open>What a device stores\<close>

definition device_size :: "devices \<Rightarrow> ptr \<Rightarrow> nat" where
  "device_size d b = (case blocks d b of Some k \<Rightarrow> block_size k | None \<Rightarrow> 0)"

text \<open>
  The disk and the first sector behind a device, for a device whose chain of partitions stays within
  bounds and reaches a disk.
\<close>

primrec locate_n :: "nat \<Rightarrow> devices \<Rightarrow> ptr \<Rightarrow> (ptr \<times> nat) option" where
  "locate_n 0 d b = None"
| "locate_n (Suc n) d b = do {
     k \<leftarrow> blocks d b;
     ASSERT (block_type k \<noteq> BLOCK_FOREIGN \<and> block_size k < 2 ^ 32);
     case ops k of
       Ide_operations \<Rightarrow> Some (aux k, 0)
     | Partition_operations \<Rightarrow> do {
         p \<leftarrow> partitions d (aux k);
         ASSERT (start p + block_size k \<le> device_size d (underlying p) \<and> device_size d (underlying p) < 2 ^ 32);
         (a, o') \<leftarrow> locate_n n d (underlying p);
         Some (a, o' + start p) } }"

definition locate :: "devices \<Rightarrow> ptr \<Rightarrow> (ptr \<times> nat) option" where
  "locate d b = locate_n (length (all_blocks d)) d b"

definition device_data :: "devices \<Rightarrow> ptr \<Rightarrow> nat \<Rightarrow> byte list" where
  "device_data d b s = (case locate d b of Some (a, o') \<Rightarrow> disks d a (o' + s) | None \<Rightarrow> [])"

text \<open>Two states with the same devices, up to the statistics.\<close>

definition geometry :: "block \<Rightarrow> string \<times> block_type \<times> nat \<times> block_operations \<times> ptr" where
  "geometry k = (block_name k, block_type k, block_size k, ops k, aux k)"

definition same_devices :: "devices \<Rightarrow> devices \<Rightarrow> bool" where
  "same_devices d d' \<longleftrightarrow> (\<forall>b. map_option geometry (blocks d' b) = map_option geometry (blocks d b)) \<and>
     all_blocks d' = all_blocks d \<and> partitions d' = partitions d \<and> block_by_role d' = block_by_role d \<and>
     brk d' = brk d \<and> mem_full d' = mem_full d"

lemma same_devices_refl [simp]: "same_devices d d"
  by (simp add: same_devices_def)

lemma same_devices_trans: "same_devices d d' \<Longrightarrow> same_devices d' d'' \<Longrightarrow> same_devices d d''"
  by (simp add: same_devices_def)

lemma same_devices_block:
  assumes "same_devices d d'" "blocks d b = Some k"
  obtains k' where "blocks d' b = Some k'" "block_name k' = block_name k" "block_type k' = block_type k"
    "block_size k' = block_size k" "ops k' = ops k" "aux k' = aux k"
proof -
  have "map_option geometry (blocks d' b) = Some (geometry k)" using assms by (simp add: same_devices_def)
  then show ?thesis using that by (auto simp: geometry_def)
qed

lemma same_devices_none: "same_devices d d' \<Longrightarrow> blocks d b = None \<Longrightarrow> blocks d' b = None"
  unfolding same_devices_def by (metis map_option_is_None)

lemma device_size_cong: "same_devices d d' \<Longrightarrow> device_size d' b = device_size d b"
  unfolding device_size_def
  by (cases "blocks d b") (auto dest: same_devices_none elim: same_devices_block)

lemma locate_n_cong: "same_devices d d' \<Longrightarrow> locate_n n d' b = locate_n n d b"
proof (induction n arbitrary: b)
  case (Suc n)
  show ?case
  proof (cases "blocks d b")
    case None
    then show ?thesis using same_devices_none [OF Suc.prems] by simp
  next
    case (Some k)
    obtain k' where k': "blocks d' b = Some k'" "block_type k' = block_type k" "block_size k' = block_size k"
      "ops k' = ops k" "aux k' = aux k"
      using same_devices_block [OF Suc.prems Some] by metis
    have "partitions d' = partitions d" using Suc.prems by (simp add: same_devices_def)
    then show ?thesis using Some k' Suc.IH [OF Suc.prems] device_size_cong [OF Suc.prems] by (cases "ops k") simp_all
  qed
qed simp

lemma locate_cong: "same_devices d d' \<Longrightarrow> locate d' b = locate d b"
  unfolding locate_def using locate_n_cong [of d d'] by (simp add: same_devices_def)

lemma same_devices_upd: "(\<And>k. geometry (f k) = geometry k) \<Longrightarrow> same_devices d (upd_block b f d)"
  by (auto simp: same_devices_def upd_block_def option.map_comp comp_def)

lemma disks_upd_block [simp]: "disks (upd_block b f d) = disks d"
  by (simp add: upd_block_def)

lemma block_read_n_ok:
  assumes "locate_n n d b = Some (a, o')" "s < device_size d b"
  shows "\<exists>d'. block_read_n n b s d = Some (disks d a (o' + s), d') \<and> same_devices d d' \<and> disks d' = disks d"
  using assms
proof (induction n arbitrary: b a o' s)
  case (Suc n)
  then obtain k where k: "blocks d b = Some k" "block_type k \<noteq> BLOCK_FOREIGN" "s < block_size k"
    by (auto simp: option_bind_Some device_size_def split: if_splits)
  let ?f = "\<lambda>k. k\<lparr>read_cnt := (read_cnt k + 1) mod 2 ^ 64\<rparr>"
  have g: "geometry (?f k) = geometry k" for k by (simp add: geometry_def)
  show ?case
  proof (cases "ops k")
    case Ide_operations
    then show ?thesis using Suc.prems k same_devices_upd [OF g] by (auto simp: check_sector_def split: if_splits)
  next
    case Partition_operations
    then obtain p o'' where p: "partitions d (aux k) = Some p"
      "start p + block_size k \<le> device_size d (underlying p)" "device_size d (underlying p) < 2 ^ 32"
      "locate_n n d (underlying p) = Some (a, o'')" "o' = o'' + start p"
      using Suc.prems(1) k by (auto simp: option_bind_Some split: prod.splits if_splits)
    have "start p + s < device_size d (underlying p)" "u32 (start p + s) = start p + s"
      using p k(3) by simp_all
    then obtain d' where d': "block_read_n n (underlying p) (start p + s) d = Some (disks d a (o'' + (start p + s)), d')"
      "same_devices d d'" "disks d' = disks d"
      using Suc.IH [OF p(4)] by blast
    show ?thesis using d' k p Partition_operations \<open>u32 (start p + s) = start p + s\<close> same_devices_trans [OF d'(2) same_devices_upd [OF g]]
      by (simp add: check_sector_def add.assoc)
  qed
qed simp

lemma block_write_n_ok:
  assumes "locate_n n d b = Some (a, o')" "s < device_size d b"
  shows "\<exists>d'. block_write_n n b s buf d = Some d' \<and> same_devices d d' \<and> disks d' = (disks d)(a := (disks d a)(o' + s := buf))"
  using assms
proof (induction n arbitrary: b a o' s)
  case (Suc n)
  then obtain k where k: "blocks d b = Some k" "block_type k \<noteq> BLOCK_FOREIGN" "s < block_size k"
    by (auto simp: option_bind_Some device_size_def split: if_splits)
  let ?f = "\<lambda>k. k\<lparr>write_cnt := (write_cnt k + 1) mod 2 ^ 64\<rparr>"
  have g: "geometry (?f k) = geometry k" for k by (simp add: geometry_def)
  show ?case
  proof (cases "ops k")
    case Ide_operations
    have "same_devices d (d\<lparr>disks := x\<rparr>)" for x by (simp add: same_devices_def)
    then show ?thesis using Ide_operations Suc.prems k same_devices_trans [OF _ same_devices_upd [OF g]]
      by (auto simp: check_sector_def fun_eq_iff split: if_splits)
  next
    case Partition_operations
    then obtain p o'' where p: "partitions d (aux k) = Some p"
      "start p + block_size k \<le> device_size d (underlying p)" "device_size d (underlying p) < 2 ^ 32"
      "locate_n n d (underlying p) = Some (a, o'')" "o' = o'' + start p"
      using Suc.prems(1) k by (auto simp: option_bind_Some split: prod.splits if_splits)
    have u: "start p + s < device_size d (underlying p)" "u32 (start p + s) = start p + s"
      using p k(3) by simp_all
    then obtain d' where d': "block_write_n n (underlying p) (start p + s) buf d = Some d'"
      "same_devices d d'" "disks d' = (disks d)(a := (disks d a)(o'' + (start p + s) := buf))"
      using Suc.IH [OF p(4)] by blast
    show ?thesis using d' k p Partition_operations u(2) same_devices_trans [OF d'(2) same_devices_upd [OF g]]
      by (simp add: check_sector_def add.assoc fun_eq_iff)
  qed
qed simp

lemma block_read_ok:
  assumes "locate d b \<noteq> None" "s < device_size d b"
  shows "\<exists>d'. block_read b s d = Some (device_data d b s, d') \<and> same_devices d d' \<and> disks d' = disks d"
  using assms block_read_n_ok [of "length (all_blocks d)" d b] by (auto simp: block_read_def locate_def device_data_def)

lemma block_write_ok:
  assumes "locate d b = Some (a, o')" "s < device_size d b"
  shows "\<exists>d'. block_write b s buf d = Some d' \<and> same_devices d d' \<and> disks d' = (disks d)(a := (disks d a)(o' + s := buf))"
  using assms block_write_n_ok [of "length (all_blocks d)" d b] by (auto simp: block_write_def locate_def)

lemma device_data_cong: "same_devices d d' \<Longrightarrow> disks d' = disks d \<Longrightarrow> device_data d' = device_data d"
  by (intro ext) (simp add: device_data_def locate_cong split: option.split)

lemma block_write_data:
  assumes "locate d b \<noteq> None" "s < device_size d b"
  shows "\<exists>d'. block_write b s buf d = Some d' \<and> same_devices d d' \<and> device_data d' b = (device_data d b)(s := buf)"
proof -
  obtain a o' where l: "locate d b = Some (a, o')" using assms(1) by auto
  obtain d' where d': "block_write b s buf d = Some d'" "same_devices d d'" "disks d' = (disks d)(a := (disks d a)(o' + s := buf))"
    using block_write_ok [OF l assms(2)] by blast
  have "device_data d' b = (device_data d b)(s := buf)"
    using l locate_cong [OF d'(2), of b] d'(3) by (auto simp: device_data_def fun_eq_iff)
  then show ?thesis using d' by blast
qed


section \<open>Properties\<close>

text \<open>
  C30: partitions are isolated. For two devices that lie on disjoint ranges of a disk, or on
  different disks, writing a sector of one within its bounds succeeds, reads back, and changes no sector
  of the other; an access past the end of a device is a fault.
\<close>

theorem partition_isolation:
  assumes "locate d b = Some (a, n)" "locate d c = Some (a', n')"
    "a = a' \<longrightarrow> n + device_size d b \<le> n' \<or> n' + device_size d c \<le> n" "s < device_size d b"
  shows "\<exists>d'. block_write b s buf d = Some d' \<and> (\<exists>d''. block_read b s d' = Some (buf, d'')) \<and>
    (\<forall>s' < device_size d c. \<exists>d''. block_read c s' d' = Some (device_data d c s', d'')) \<and>
    (\<forall>s' \<ge> device_size d b. block_write b s' buf d = None)"
proof -
  obtain d' where d': "block_write b s buf d = Some d'" "same_devices d d'" "disks d' = (disks d)(a := (disks d a)(n + s := buf))"
    using block_write_ok [OF assms(1,4)] by blast
  have l: "locate d' b = Some (a, n)" "locate d' c = Some (a', n')" "device_size d' b = device_size d b" "device_size d' c = device_size d c"
    using assms(1,2) locate_cong [OF d'(2)] device_size_cong [OF d'(2)] by simp_all
  have b: "device_data d' b s = buf" using l(1) d'(3) by (simp add: device_data_def)
  have c: "device_data d' c s' = device_data d c s'" if "s' < device_size d c" for s'
    using l(2) d'(3) assms that by (auto simp: device_data_def)
  have "\<exists>d''. block_read b s d' = Some (buf, d'')" using block_read_ok [of d' b s] l assms(4) b by auto
  moreover have "\<exists>d''. block_read c s' d' = Some (device_data d c s', d'')" if "s' < device_size d c" for s'
    using block_read_ok [of d' c s'] l that c by auto
  moreover have "block_write b s' buf d = None" if "device_size d b \<le> s'" for s'
    using that by (cases "length (all_blocks d)")
      (auto simp: block_write_def check_sector_def device_size_def ASSERT_def split: option.splits bind_splits)
  ultimately show ?thesis using d'(1) by blast
qed

text \<open>A disk of 100 sectors with two partitions, of 10 sectors from sector 20 and of 5 from sector 30.\<close>

definition demo_devices :: devices where
  "demo_devices = \<lparr>
     blocks = [1 \<mapsto> \<lparr>block_name = ''hda'', block_type = BLOCK_RAW, block_size = 100, ops = Ide_operations, aux = 50, read_cnt = 0, write_cnt = 0\<rparr>,
       2 \<mapsto> \<lparr>block_name = ''hda1'', block_type = BLOCK_FILESYS, block_size = 10, ops = Partition_operations, aux = 60, read_cnt = 0, write_cnt = 0\<rparr>,
       3 \<mapsto> \<lparr>block_name = ''hda2'', block_type = BLOCK_SWAP, block_size = 5, ops = Partition_operations, aux = 61, read_cnt = 0, write_cnt = 0\<rparr>],
     all_blocks = [1, 2, 3], block_by_role = (\<lambda>_. 0),
     partitions = [60 \<mapsto> \<lparr>underlying = 1, start = 20\<rparr>, 61 \<mapsto> \<lparr>underlying = 1, start = 30\<rparr>],
     disks = (\<lambda>_ _. replicate 512 0), brk = 1000, mem_full = False\<rparr>"

lemma partition_isolation_witness:
  "\<exists>d'. block_write 2 9 (replicate 512 7) demo_devices = Some d' \<and>
     (\<exists>d''. block_read 2 9 d' = Some (replicate 512 7, d'')) \<and> (\<exists>d''. block_read 3 0 d' = Some (replicate 512 0, d''))"
proof -
  have l: "locate demo_devices 2 = Some (50, 20)" "locate demo_devices 3 = Some (50, 30)" "device_size demo_devices 2 = 10"
      "device_size demo_devices 3 = 5"
    by (simp_all add: locate_def demo_devices_def device_size_def)
  have "disks demo_devices 50 n = replicate 512 0" for n by (simp add: demo_devices_def)
  then have "device_data demo_devices 3 0 = replicate 512 0" by (simp add: device_data_def l)
  then show ?thesis using partition_isolation [OF l(1,2), of 9 "replicate 512 7"] l(3,4) by fastforce
qed

text \<open>The loop over the entries, once the empty ones are skipped, is at the extended one; and a call that ran out ends it.\<close>

lemma entries_loop:
  assumes "i < 4" "\<And>j. j < i \<Longrightarrow> f (Some s) j = Some (Some s)" "f (Some s) i = Some None" "\<And>j. f None j = Some None"
  shows "foldM f (Some s) [0..<4] = Some None"
proof -
  have skip: "foldM f (Some s) [0..<n] = Some (Some s)" if "n \<le> i" for n
    using that assms(2) by (induction n) (auto simp: foldM_append)
  have out: "foldM f None js = Some None" for js using assms(4) by (induction js) auto
  have "[0..<4] = [0..<i] @ i # [Suc i..<4]" using assms(1) upt_add_eq_append [of 0 i "4 - i"] by (simp add: upt_conv_Cons)
  then show ?thesis using skip [of i] assms(3) out by (simp add: foldM_append)
qed

text \<open>The first entry in use.\<close>

definition first_entry :: "byte list \<Rightarrow> nat \<Rightarrow> bool" where
  "first_entry pt i \<longleftrightarrow> i < 4 \<and> pe_size (table_entry pt i) \<noteq> 0 \<and> pe_type (table_entry pt i) \<noteq> 0 \<and>
     (\<forall>j<i. pe_size (table_entry pt j) = 0 \<or> pe_type (table_entry pt j) = 0)"

lemma table_step:
  assumes "locate d b \<noteq> None" "sector < device_size d b" "\<not> mem_full d" "table_signature_ok (device_data d b 0)"
    "first_entry (device_data d b 0) i" "e = table_entry (device_data d b 0) i" "is_extended (pe_type e)"
    "\<And>d'. same_devices d d' \<Longrightarrow> disks d' = disks d \<Longrightarrow>
       (if sector = 0 then read_partition_table fuel b (pe_offset e) (pe_offset e) (nr, d')
        else read_partition_table fuel b (u32 (pe_offset e + pes)) pes (nr, d')) = Some None"
  shows "read_partition_table (Suc fuel) b sector pes (nr, d) = Some None"
proof -
  obtain k where k: "blocks d b = Some k" "block_size k = device_size d b"
    using assms(2) by (auto simp: device_size_def split: option.splits)
  obtain d' where d': "block_read b 0 d = Some (device_data d b 0, d')" "same_devices d d'" "disks d' = disks d"
    using block_read_ok [of d b 0] assms(1,2) by auto
  show ?thesis using k d'(1) assms(2,3,4)
    apply (simp del: upt_Suc upt_rec_numeral)
    apply (rule entries_loop [of i])
    using assms(5,6,7) assms(8) [OF d'(2,3)] by (auto simp: first_entry_def Let_def)
qed

lemma nested_table_diverges:
  assumes "locate d b \<noteq> None" "0 < sector" "sector < device_size d b" "\<not> mem_full d" "table_signature_ok (device_data d b 0)"
    "first_entry (device_data d b 0) i" "is_extended (pe_type (table_entry (device_data d b 0) i))"
    "0 < u32 (pe_offset (table_entry (device_data d b 0) i) + pes)" "u32 (pe_offset (table_entry (device_data d b 0) i) + pes) < device_size d b"
  shows "read_partition_table fuel b sector pes (nr, d) = Some None"
  using assms
proof (induction fuel arbitrary: sector d nr)
  case (Suc fuel)
  show ?case
  proof (rule table_step [OF Suc.prems(1,3-6) refl Suc.prems(7)])
    fix d' assume d': "same_devices d d'" "disks d' = disks d"
    have m: "mem_full d' = mem_full d" using d'(1) by (simp add: same_devices_def)
    let ?e = "table_entry (device_data d b 0) i"
    have "read_partition_table fuel b (u32 (pe_offset ?e + pes)) pes (nr, d') = Some None"
      using Suc.prems locate_cong [OF d'(1), of b] device_size_cong [OF d'(1), of b] device_data_cong [OF d'] m
      by (intro Suc.IH) simp_all
    then show "(if sector = 0 then read_partition_table fuel b (pe_offset ?e) (pe_offset ?e) (nr, d')
        else read_partition_table fuel b (u32 (pe_offset ?e + pes)) pes (nr, d')) = Some None" using Suc.prems(2) by simp
  qed
qed simp

text \<open>
  C31: scanning a disk whose first partition table entry in use is an extended partition in the first half of the device never ends.
  \<^verbatim>\<open>read_partition_table\<close> reads sector 0 whatever sector it is asked for, so if the first entry in use of the master
  boot record is an extended partition whose offset is positive and less than half the size of the device, the
  recursion comes back to the same table for ever: however many nested calls the stack and the heap have room for, the
  scan uses them all up, without a fault before.
\<close>

theorem partition_scan_diverges:
  assumes "locate d b \<noteq> None" "table_signature_ok (device_data d b 0)" "\<not> mem_full d"
    "first_entry (device_data d b 0) i" "e = table_entry (device_data d b 0) i" "is_extended (pe_type e)" "0 < pe_offset e"
    "2 * pe_offset e < device_size d b" "device_size d b < 2 ^ 32"
  shows "partition_scan fuel b d = Some None"
proof (cases fuel)
  case (Suc f)
  have "read_partition_table (Suc f) b 0 0 (0, d) = Some None"
  proof (rule table_step [OF assms(1) _ assms(3,2,4-6)])
    fix d' assume d': "same_devices d d'" "disks d' = disks d"
    have m: "mem_full d' = mem_full d" using d'(1) by (simp add: same_devices_def)
    have "read_partition_table f b (pe_offset e) (pe_offset e) (0, d') = Some None"
      using assms locate_cong [OF d'(1), of b] device_size_cong [OF d'(1), of b] device_data_cong [OF d'] m
      by (intro nested_table_diverges [where i = i]) (simp_all flip: mult_2)
    then show "(if (0::nat) = 0 then read_partition_table f b (pe_offset e) (pe_offset e) (0, d')
        else read_partition_table f b (u32 (pe_offset e + 0)) 0 (0, d')) = Some None" by simp
  qed (use assms(8) in simp)
  then show ?thesis using Suc by (simp add: partition_scan_def)
qed (simp add: partition_scan_def)

definition demo_mbr :: "byte list" where
  "demo_mbr = (replicate 512 0)[450 := 5, 454 := 10, 458 := 20, 510 := 0x55, 511 := 0xaa]"

lemma take4:
  assumes "n + 3 < length xs"
  shows "take 4 (drop n xs) = [xs ! n, xs ! (n + 1), xs ! (n + 2), xs ! (n + 3)]"
proof (rule nth_equalityI)
  fix i assume "i < length (take 4 (drop n xs))"
  then have "i = 0 \<or> i = 1 \<or> i = 2 \<or> i = 3" by auto
  then show "take 4 (drop n xs) ! i = [xs ! n, xs ! (n + 1), xs ! (n + 2), xs ! (n + 3)] ! i"
    using assms by auto
qed (use assms in simp)

lemma partition_scan_diverges_witness:
  "partition_scan 1000 1 (demo_devices\<lparr>disks := (\<lambda>_ _. demo_mbr)\<rparr>) = Some None"
proof -
  let ?d = "demo_devices\<lparr>disks := (\<lambda>_ _. demo_mbr)\<rparr>"
  have l: "locate ?d 1 = Some (50, 0)" "device_size ?d 1 = 100"
    by (simp_all add: locate_def demo_devices_def device_size_def)
  have dd: "device_data ?d 1 0 = demo_mbr" unfolding device_data_def l by simp
  have t: "take 4 (drop n demo_mbr) = [demo_mbr ! n, demo_mbr ! (n + 1), demo_mbr ! (n + 2), demo_mbr ! (n + 3)]" if "n + 3 < 512" for n
    using that by (intro take4) (simp add: demo_mbr_def)
  have "table_entry demo_mbr 0 = \<lparr>pe_type = 5, pe_offset = 10, pe_size = 20\<rparr>"
    by (simp add: table_entry_def le32_def t Let_def) (simp add: demo_mbr_def nth_list_update bytes_word_def)
  moreover have "table_signature_ok demo_mbr" by (simp add: table_signature_ok_def demo_mbr_def)
  ultimately show ?thesis using l dd
    by (intro partition_scan_diverges [OF _ _ _ _ refl, where i = 0])
      (simp_all add: is_extended_def first_entry_def demo_devices_def)
qed

end
