(* ===== verification/Buffer_Cache.thy ===== *)
theory Buffer_Cache
  imports Block_Device
begin

text \<open>
  The buffer cache of \<^verbatim>\<open>filesys/cache.c\<close>: 64 sectors of the file system device, read through, written
  back on eviction and by the periodic flush. What runs under \<^verbatim>\<open>cache_lock\<close> is atomic: the search for an entry with
  the eviction it may need, and a flush. A read or a write is two steps, the search (\<open>get_cache_entry\<close>) and, after the
  lock is released, the copy (\<open>cache_copy_out\<close>, \<open>cache_copy_in\<close>); other threads may come between them. The cache refines a plain
  array of sectors for every interleaving in which no entry is replaced between the two steps of a call; what happens otherwise is
  shown by \<open>cache_copy_race\<close>. The operations built on the cache use whole calls, one after the other.
\<close>

section \<open>State\<close>

abbreviation (input) CACHE_NUM_SECTORS :: nat where "CACHE_NUM_SECTORS \<equiv> 64"
abbreviation (input) MAX_READ_AHEAD_THREADS :: nat where "MAX_READ_AHEAD_THREADS \<equiv> 10"

record cache_entry =
  ce_sector :: nat
  ce_free :: bool
  ce_dirty :: bool
  last_accessed_tick :: int
  ce_data :: "byte list"

text \<open>
  The cache with the devices below it. \<open>cache_ticks\<close> is the value of \<^verbatim>\<open>timer_ticks ()\<close>, \<open>read_ahead\<close> lists the
  sectors for which a read-ahead thread has been created that has not run yet.
\<close>

record buffer_cache =
  dev :: devices
  fs_device :: ptr
  cache :: "cache_entry list"
  cache_ticks :: int
  cache_reads :: nat
  cache_writes :: nat
  read_ahead_threads :: nat
  read_ahead :: "nat list"

section \<open>Operations\<close>

definition upd_entry :: "nat \<Rightarrow> (cache_entry \<Rightarrow> cache_entry) \<Rightarrow> buffer_cache \<Rightarrow> buffer_cache" where
  "upd_entry i f c = c\<lparr>cache := (cache c)[i := f (cache c ! i)]\<rparr>"

definition cache_init :: "buffer_cache \<Rightarrow> buffer_cache option" where
  "cache_init c = do {
     b \<leftarrow> block_get_role BLOCK_FILESYS (dev c);
     Some (c\<lparr>fs_device := b, cache := map (\<lambda>e. e\<lparr>ce_free := True\<rparr>) (cache c)\<rparr>) }"

fun cache_entry_exists :: "nat \<Rightarrow> cache_entry list \<Rightarrow> bool" where
  "cache_entry_exists s [] = False"
| "cache_entry_exists s (e # es) = (if ce_sector e = s \<and> \<not> ce_free e then True else cache_entry_exists s es)"

definition read_cache_entry_from_disk :: "nat \<Rightarrow> buffer_cache \<Rightarrow> buffer_cache option" where
  "read_cache_entry_from_disk i c = do {
     (buf, d) \<leftarrow> block_read (fs_device c) (ce_sector (cache c ! i)) (dev c);
     Some (upd_entry i (\<lambda>e. e\<lparr>ce_data := buf, ce_dirty := False\<rparr>) (c\<lparr>dev := d\<rparr>)) }"

definition write_cache_entry_to_disk :: "nat \<Rightarrow> buffer_cache \<Rightarrow> buffer_cache option" where
  "write_cache_entry_to_disk i c =
     (if ce_dirty (cache c ! i) then do {
        d \<leftarrow> block_write (fs_device c) (ce_sector (cache c ! i)) (ce_data (cache c ! i)) (dev c);
        Some (upd_entry i (\<lambda>e. e\<lparr>ce_dirty := False\<rparr>) (c\<lparr>dev := d\<rparr>)) }
      else Some c)"

text \<open>The least recently used entry, the first one in case of ties.\<close>

definition get_cache_entry_to_evict :: "cache_entry list \<Rightarrow> nat" where
  "get_cache_entry_to_evict es =
     fold (\<lambda>i best. if last_accessed_tick (es ! i) < last_accessed_tick (es ! best) then i else best)
       [1..<length es] 0"

text \<open>The search of \<^verbatim>\<open>get_cache_entry\<close>: \<open>Inl\<close> the entry of the sector, or \<open>Inr\<close> the first free entry if any.\<close>

fun search_cache :: "nat \<Rightarrow> cache_entry list \<Rightarrow> nat \<Rightarrow> nat option \<Rightarrow> nat + nat option" where
  "search_cache s [] i fr = Inr fr"
| "search_cache s (e # es) i fr =
     (if ce_sector e = s \<and> \<not> ce_free e then Inl i
      else search_cache s es (Suc i) (if fr = None \<and> ce_free e then Some i else fr))"

definition get_cache_entry :: "nat \<Rightarrow> buffer_cache \<Rightarrow> (nat \<times> buffer_cache) option" where
  "get_cache_entry s c =
     (case search_cache s (cache c) 0 None of
        Inl i \<Rightarrow> Some (i, c)
      | Inr (Some i) \<Rightarrow> do {
          c \<leftarrow> read_cache_entry_from_disk i (upd_entry i (\<lambda>e. e\<lparr>ce_sector := s, ce_free := False\<rparr>) c);
          Some (i, c) }
      | Inr None \<Rightarrow> do {
          let i = get_cache_entry_to_evict (cache c);
          c \<leftarrow> write_cache_entry_to_disk i c;
          c \<leftarrow> read_cache_entry_from_disk i (upd_entry i (\<lambda>e. e\<lparr>ce_sector := s\<rparr>) c);
          Some (i, c) })"

text \<open>The part of a read after the lock is released: the copy from the entry at \<open>i\<close>, whatever it has by then.\<close>

definition cache_copy_out :: "nat \<Rightarrow> nat \<Rightarrow> nat \<Rightarrow> buffer_cache \<Rightarrow> byte list \<times> buffer_cache" where
  "cache_copy_out i sector_ofs n c =
     (let buf = take n (drop sector_ofs (ce_data (cache c ! i)));
          c = upd_entry i (\<lambda>e. e\<lparr>last_accessed_tick := cache_ticks c\<rparr>) c
      in (buf, c\<lparr>cache_reads := u32 (cache_reads c + 1)\<rparr>))"

definition cache_read_partial :: "nat \<Rightarrow> nat \<Rightarrow> nat \<Rightarrow> buffer_cache \<Rightarrow> (byte list \<times> buffer_cache) option" where
  "cache_read_partial s sector_ofs n c = do {
     ASSERT (sector_ofs + n \<le> BLOCK_SECTOR_SIZE);
     (i, c) \<leftarrow> get_cache_entry s c;
     Some (cache_copy_out i sector_ofs n c) }"

definition cache_read :: "nat \<Rightarrow> buffer_cache \<Rightarrow> (byte list \<times> buffer_cache) option" where
  "cache_read s = cache_read_partial s 0 BLOCK_SECTOR_SIZE"

text \<open>Overwriting a part of a sector.\<close>

definition patch :: "nat \<Rightarrow> 'a list \<Rightarrow> 'a list \<Rightarrow> 'a list" where
  "patch o' new xs = take o' xs @ new @ drop (o' + length new) xs"

definition cache_copy_in :: "nat \<Rightarrow> byte list \<Rightarrow> nat \<Rightarrow> buffer_cache \<Rightarrow> buffer_cache" where
  "cache_copy_in i buf sector_ofs c =
     (let c = upd_entry i (\<lambda>e. e\<lparr>ce_data := patch sector_ofs buf (ce_data e), ce_dirty := True,
                last_accessed_tick := cache_ticks c\<rparr>) c
      in c\<lparr>cache_writes := u32 (cache_writes c + 1)\<rparr>)"

definition cache_write_partial :: "nat \<Rightarrow> byte list \<Rightarrow> nat \<Rightarrow> buffer_cache \<Rightarrow> buffer_cache option" where
  "cache_write_partial s buf sector_ofs c = do {
     ASSERT (sector_ofs + length buf \<le> BLOCK_SECTOR_SIZE);
     (i, c) \<leftarrow> get_cache_entry s c;
     Some (cache_copy_in i buf sector_ofs c) }"

definition cache_write :: "nat \<Rightarrow> byte list \<Rightarrow> buffer_cache \<Rightarrow> buffer_cache option" where
  "cache_write s buf = cache_write_partial s buf 0"

definition cache_read_async :: "nat \<Rightarrow> buffer_cache \<Rightarrow> buffer_cache" where
  "cache_read_async s c =
     (if \<not> mem_full (dev c) \<and> read_ahead_threads c < MAX_READ_AHEAD_THREADS \<and> \<not> cache_entry_exists s (cache c)
      then c\<lparr>read_ahead_threads := read_ahead_threads c + 1, read_ahead := read_ahead c @ [s]\<rparr>
      else c)"

text \<open>The body of a read-ahead thread, for the sector it was created for.\<close>

definition cache_read_thread :: "nat \<Rightarrow> buffer_cache \<Rightarrow> buffer_cache option" where
  "cache_read_thread s c = do {
     (_, c) \<leftarrow> get_cache_entry s c;
     Some (c\<lparr>read_ahead_threads := read_ahead_threads c - 1, read_ahead := remove1 s (read_ahead c)\<rparr>) }"

definition write_cache_to_disk :: "buffer_cache \<Rightarrow> buffer_cache option" where
  "write_cache_to_disk c =
     foldM (\<lambda>c i. if \<not> ce_free (cache c ! i) then write_cache_entry_to_disk i c else Some c) c [0..<CACHE_NUM_SECTORS]"

section \<open>What the cache stores\<close>

definition holds :: "nat \<Rightarrow> cache_entry \<Rightarrow> bool" where
  "holds s e \<longleftrightarrow> ce_sector e = s \<and> \<not> ce_free e"

text \<open>The contents of a sector: the cached copy if there is one, and what the device has otherwise.\<close>

definition contents :: "buffer_cache \<Rightarrow> nat \<Rightarrow> byte list" where
  "contents c s = (case find (holds s) (cache c) of Some e \<Rightarrow> ce_data e | None \<Rightarrow> device_data (dev c) (fs_device c) s)"

definition fs_size :: "buffer_cache \<Rightarrow> nat" where
  "fs_size c = device_size (dev c) (fs_device c)"

definition entry_ok :: "buffer_cache \<Rightarrow> cache_entry \<Rightarrow> bool" where
  "entry_ok c e \<longleftrightarrow> ce_free e \<or> ce_sector e < fs_size c \<and> length (ce_data e) = BLOCK_SECTOR_SIZE \<and>
     (\<not> ce_dirty e \<longrightarrow> ce_data e = device_data (dev c) (fs_device c) (ce_sector e))"

text \<open>
  The invariant: every cached sector is on the device, a clean entry agrees with the device, and no sector
  is cached twice.
\<close>

definition cache_ok :: "buffer_cache \<Rightarrow> bool" where
  "cache_ok c \<longleftrightarrow> length (cache c) = CACHE_NUM_SECTORS \<and> locate (dev c) (fs_device c) \<noteq> None \<and>
     (\<forall>s < fs_size c. length (device_data (dev c) (fs_device c) s) = BLOCK_SECTOR_SIZE) \<and>
     (\<forall>i < CACHE_NUM_SECTORS. entry_ok c (cache c ! i)) \<and>
     (\<forall>i < CACHE_NUM_SECTORS. \<forall>j < CACHE_NUM_SECTORS. \<forall>s. holds s (cache c ! i) \<longrightarrow> holds s (cache c ! j) \<longrightarrow> i = j)"

lemma cache_uniq:
  "cache_ok c \<Longrightarrow> i < CACHE_NUM_SECTORS \<Longrightarrow> j < CACHE_NUM_SECTORS \<Longrightarrow> holds s (cache c ! i) \<Longrightarrow> holds s (cache c ! j) \<Longrightarrow> i = j"
  unfolding cache_ok_def by blast

lemma cache_len: "cache_ok c \<Longrightarrow> length (cache c) = CACHE_NUM_SECTORS"
  by (simp add: cache_ok_def)

lemma cache_entry_ok: "cache_ok c \<Longrightarrow> i < CACHE_NUM_SECTORS \<Longrightarrow> entry_ok c (cache c ! i)"
  by (simp add: cache_ok_def)

lemma search_cache_Inl:
  "search_cache s es n fr = Inl i \<Longrightarrow> n \<le> i \<and> i < n + length es \<and> holds s (es ! (i - n))"
proof (induction es arbitrary: n fr)
  case (Cons e es)
  show ?case
  proof (cases "holds s e")
    case True
    then show ?thesis using Cons.prems by (simp add: holds_def)
  next
    case False
    then have "search_cache s es (Suc n) (if fr = None \<and> ce_free e then Some n else fr) = Inl i"
      using Cons.prems by (auto simp: holds_def split: if_splits)
    from Cons.IH [OF this] show ?thesis by (auto simp: nth_Cons')
  qed
qed simp

lemma search_cache_Inr:
  "search_cache s es n fr = Inr r \<Longrightarrow> (\<forall>e\<in>set es. \<not> holds s e) \<and>
     (r = fr \<and> (fr = None \<longrightarrow> (\<forall>e\<in>set es. \<not> ce_free e)) \<or>
      fr = None \<and> (\<exists>i. r = Some i \<and> n \<le> i \<and> i < n + length es \<and> ce_free (es ! (i - n))))"
proof (induction es arbitrary: n fr)
  case (Cons e es)
  have nh: "\<not> holds s e" and r: "search_cache s es (Suc n) (if fr = None \<and> ce_free e then Some n else fr) = Inr r"
    using Cons.prems by (auto simp: holds_def split: if_splits)
  show ?case
  proof (cases "fr = None \<and> ce_free e")
    case True
    then show ?thesis using Cons.IH [OF r] nh by auto
  next
    case False
    then have "search_cache s es (Suc n) fr = Inr r" using r by (auto split: if_splits)
    from Cons.IH [OF this] show ?thesis using nh False
    proof (elim conjE disjE exE)
      fix i assume "fr = None" "r = Some i" "Suc n \<le> i" "i < Suc n + length es" "ce_free (es ! (i - Suc n))" "\<forall>e\<in>set es. \<not> holds s e"
      then show ?thesis using nh by (auto simp: nth_Cons' intro!: exI [of _ i])
    qed auto
  qed
qed simp

lemma fold_least:
  fixes f :: "nat \<Rightarrow> int"
  defines "g \<equiv> fold (\<lambda>i best. if f i < f best then i else best)"
  shows "g is b \<in> insert b (set is) \<and> (\<forall>j \<in> insert b (set is). f (g is b) \<le> f j)"
  unfolding g_def
proof (induction "is" arbitrary: b)
  case (Cons i "is")
  let ?b = "if f i < f b then i else b"
  have "?b \<in> {i, b}" "f ?b \<le> f i" "f ?b \<le> f b" by auto
  then show ?case using Cons.IH [of ?b] by fastforce
qed simp

lemma evict_lru:
  assumes "es \<noteq> []"
  shows "get_cache_entry_to_evict es < length es"
    "j < length es \<Longrightarrow> last_accessed_tick (es ! get_cache_entry_to_evict es) \<le> last_accessed_tick (es ! j)"
proof -
  have s: "insert 0 (set [1..<length es]) = {..<length es}" using assms by (auto simp: gr0_conv_Suc)
  note f = fold_least [of "\<lambda>i. last_accessed_tick (es ! i)" "[1..<length es]" 0, folded get_cache_entry_to_evict_def, unfolded s]
  show "get_cache_entry_to_evict es < length es" using f by simp
  show "j < length es \<Longrightarrow> last_accessed_tick (es ! get_cache_entry_to_evict es) \<le> last_accessed_tick (es ! j)" using f by simp
qed

lemma contents_cached:
  assumes "cache_ok c" "i < CACHE_NUM_SECTORS" "holds s (cache c ! i)"
  shows "contents c s = ce_data (cache c ! i)"
proof -
  have "\<exists>e. find (holds s) (cache c) = Some e"
    using assms by (cases "find (holds s) (cache c)") (auto simp: find_None_iff cache_ok_def)
  then obtain e where e: "find (holds s) (cache c) = Some e" by blast
  then obtain j where "j < length (cache c)" "holds s (cache c ! j)" "cache c ! j = e" by (auto simp: find_Some_iff)
  then have "cache c ! i = e" using cache_uniq [OF assms(1,2) _ assms(3)] cache_len [OF assms(1)] by auto
  then show ?thesis using e by (simp add: contents_def)
qed

lemma contents_uncached:
  "(\<And>e. e \<in> set (cache c) \<Longrightarrow> \<not> holds s e) \<Longrightarrow> contents c s = device_data (dev c) (fs_device c) s"
  by (cases "find (holds s) (cache c)") (auto simp: contents_def find_Some_iff)

lemma contents_length:
  assumes "cache_ok c" "s < fs_size c"
  shows "length (contents c s) = BLOCK_SECTOR_SIZE"
proof (cases "\<exists>i < CACHE_NUM_SECTORS. holds s (cache c ! i)")
  case True
  then obtain i where i: "i < CACHE_NUM_SECTORS" "holds s (cache c ! i)" by blast
  have "entry_ok c (cache c ! i)" using cache_entry_ok [OF assms(1) i(1)] .
  then show ?thesis using contents_cached [OF assms(1) i] i by (simp add: entry_ok_def holds_def)
next
  case False
  then have "contents c s = device_data (dev c) (fs_device c) s"
    using assms(1) by (intro contents_uncached) (auto simp: in_set_conv_nth cache_ok_def)
  then show ?thesis using assms by (simp add: cache_ok_def)
qed

text \<open>Replacing the entry at \<open>i\<close>.\<close>

lemma replace_entry:
  assumes ok: "cache_ok c" and i: "i < CACHE_NUM_SECTORS"
    and c': "cache c' = (cache c)[i := e]" "fs_device c' = fs_device c" "locate (dev c') (fs_device c) \<noteq> None" "fs_size c' = fs_size c"
    and e: "entry_ok c' e" "\<not> ce_free e"
    and old: "\<And>j. j < CACHE_NUM_SECTORS \<Longrightarrow> j \<noteq> i \<Longrightarrow> \<not> holds (ce_sector e) (cache c ! j)"
    and len: "\<forall>s < fs_size c. length (device_data (dev c') (fs_device c) s) = BLOCK_SECTOR_SIZE"
    and dev: "\<And>s. s \<noteq> ce_sector (cache c ! i) \<or> ce_free (cache c ! i) \<Longrightarrow> device_data (dev c') (fs_device c) s = device_data (dev c) (fs_device c) s"
    and out: "\<not> ce_free (cache c ! i) \<Longrightarrow> ce_sector (cache c ! i) \<noteq> ce_sector e \<Longrightarrow>
        device_data (dev c') (fs_device c) (ce_sector (cache c ! i)) = ce_data (cache c ! i)"
  shows "cache_ok c' \<and> contents c' = (contents c)(ce_sector e := ce_data e)"
proof -
  note l = cache_len [OF ok]
  have n: "cache c' ! j = (if j = i then e else cache c ! j)" if "j < CACHE_NUM_SECTORS" for j using c'(1) l i that by simp
  have uniq: "j = k" if "j < CACHE_NUM_SECTORS" "k < CACHE_NUM_SECTORS" "holds s (cache c ! j)" "holds s (cache c ! k)" for j k s
    using cache_uniq [OF ok] that by blast
  have e_ok: "entry_ok c' (cache c' ! j)" if j: "j < CACHE_NUM_SECTORS" for j
  proof (cases "j = i \<or> ce_free (cache c ! j)")
    case True
    then show ?thesis using n [OF j] e by (auto simp: entry_ok_def)
  next
    case False
    have "entry_ok c (cache c ! j)" using cache_entry_ok [OF ok j] .
    moreover have "ce_sector (cache c ! j) \<noteq> ce_sector (cache c ! i) \<or> ce_free (cache c ! i)"
      using uniq [OF j i, of "ce_sector (cache c ! j)"] False unfolding holds_def by metis
    ultimately show ?thesis using n [OF j] False c' dev by (auto simp: entry_ok_def)
  qed
  have "j = k" if j: "j < CACHE_NUM_SECTORS" "k < CACHE_NUM_SECTORS" "holds s (cache c' ! j)" "holds s (cache c' ! k)" for j k s
    using j n uniq [of j k s] old by (auto simp: holds_def split: if_splits)
  then have ok': "cache_ok c'" using c' l len e_ok unfolding cache_ok_def by simp
  have "contents c' s = ((contents c)(ce_sector e := ce_data e)) s" for s
  proof (cases "s = ce_sector e")
    case True
    then show ?thesis using contents_cached [OF ok' i, of s] n [OF i] e(2) by (simp add: holds_def)
  next
    case False
    show ?thesis
    proof (cases "\<exists>j < CACHE_NUM_SECTORS. j \<noteq> i \<and> holds s (cache c ! j)")
      case True
      then obtain j where j: "j < CACHE_NUM_SECTORS" "j \<noteq> i" "holds s (cache c ! j)" by blast
      then show ?thesis using contents_cached [OF ok j(1,3)] contents_cached [OF ok' j(1), of s] n [OF j(1)] False by simp
    next
      case nj: False
      have "\<not> holds s e'" if e': "e' \<in> set (cache c')" for e'
      proof -
        obtain k where "k < CACHE_NUM_SECTORS" "e' = cache c' ! k" using e' c'(1) l by (auto simp: in_set_conv_nth)
        then show ?thesis using n [of k] nj False by (cases "k = i") (auto simp: holds_def)
      qed
      then have "contents c' s = device_data (dev c') (fs_device c) s" using contents_uncached [of c' s] c'(2) by simp
      moreover have "contents c s = device_data (dev c') (fs_device c) s"
      proof (cases "holds s (cache c ! i)")
        case True
        then show ?thesis using contents_cached [OF ok i True] out False by (simp add: holds_def)
      next
        case nh: False
        have "contents c s = device_data (dev c) (fs_device c) s"
          using nj nh l by (intro contents_uncached) (auto simp: in_set_conv_nth)
        then show ?thesis using dev [of s] nh by (auto simp: holds_def)
      qed
      ultimately show ?thesis using False by simp
    qed
  qed
  then show ?thesis using ok' by blast
qed

definition cache_frame :: "buffer_cache \<Rightarrow> buffer_cache \<Rightarrow> bool" where
  "cache_frame c c' \<longleftrightarrow> fs_device c' = fs_device c \<and> same_devices (dev c) (dev c') \<and> cache_ticks c' = cache_ticks c"

lemma cache_frame_refl [simp]: "cache_frame c c"
  by (simp add: cache_frame_def)

lemma cache_frame_trans: "cache_frame c c' \<Longrightarrow> cache_frame c' c'' \<Longrightarrow> cache_frame c c''"
  by (auto simp: cache_frame_def intro: same_devices_trans)

lemma cache_frame_size: "cache_frame c c' \<Longrightarrow> fs_size c' = fs_size c"
  using device_size_cong by (auto simp: cache_frame_def fs_size_def)

lemma not_cached: "search_cache s (cache c) 0 None = Inr r \<Longrightarrow> e \<in> set (cache c) \<Longrightarrow> \<not> holds s e"
  using search_cache_Inr by blast

lemma read_into_entry:
  assumes ok: "cache_ok c" and s: "s < fs_size c" and i: "i < CACHE_NUM_SECTORS" and nh: "\<And>e. e \<in> set (cache c) \<Longrightarrow> \<not> holds s e"
    and d: "same_devices (dev c) d" "\<not> ce_free (cache c ! i) \<Longrightarrow> device_data d (fs_device c) = (device_data (dev c) (fs_device c))(ce_sector (cache c ! i) := ce_data (cache c ! i))"
      "ce_free (cache c ! i) \<Longrightarrow> device_data d (fs_device c) = device_data (dev c) (fs_device c)"
    and c1: "c1 = c\<lparr>dev := d, cache := (cache c)[i := e1]\<rparr>" "ce_sector e1 = s" "\<not> ce_free e1"
  shows "\<exists>c'. read_cache_entry_from_disk i c1 = Some c' \<and> cache_ok c' \<and> contents c' = contents c \<and> cache_frame c c' \<and> holds s (cache c' ! i)"
proof -
  note l = cache_len [OF ok]
  have loc: "locate d (fs_device c) \<noteq> None" "device_size d (fs_device c) = fs_size c"
    using ok locate_cong [OF d(1)] device_size_cong [OF d(1)] by (simp_all add: cache_ok_def fs_size_def)
  obtain d' where d': "block_read (fs_device c) s d = Some (device_data d (fs_device c) s, d')" "same_devices d d'" "disks d' = disks d"
    using block_read_ok [OF loc(1), of s] s loc(2) by auto
  have dd: "device_data d' = device_data d" using device_data_cong [OF d'(2,3)] .
  have nj: "\<not> holds s (cache c ! j)" if "j < CACHE_NUM_SECTORS" for j using nh l that by simp
  have sd: "device_data d (fs_device c) s = contents c s"
  proof -
    have "contents c s = device_data (dev c) (fs_device c) s" using contents_uncached [OF nh] .
    moreover have "\<not> ce_free (cache c ! i) \<Longrightarrow> ce_sector (cache c ! i) \<noteq> s" using nj [OF i] by (auto simp: holds_def)
    ultimately show ?thesis using d(2,3) by (cases "ce_free (cache c ! i)") auto
  qed
  let ?e = "e1\<lparr>ce_data := contents c s, ce_dirty := False\<rparr>"
  let ?c = "c\<lparr>dev := d', cache := (cache c)[i := ?e]\<rparr>"
  have eq: "read_cache_entry_from_disk i c1 = Some ?c"
    using d'(1) sd c1 i l by (simp add: read_cache_entry_from_disk_def upd_entry_def)
  have fr: "cache_frame c ?c" using same_devices_trans [OF d(1) d'(2)] by (simp add: cache_frame_def)
  have len: "length (device_data d' (fs_device c) x) = BLOCK_SECTOR_SIZE" if "x < fs_size c" for x
  proof (cases "ce_free (cache c ! i)")
    case True
    then show ?thesis using ok that d(3) by (simp add: dd cache_ok_def)
  next
    case False
    then have "length (ce_data (cache c ! i)) = BLOCK_SECTOR_SIZE" using cache_entry_ok [OF ok i] by (simp add: entry_ok_def)
    then show ?thesis using ok that d(2) False by (simp add: dd cache_ok_def)
  qed
  have "cache_ok ?c \<and> contents ?c = (contents c)(ce_sector ?e := ce_data ?e)"
  proof (rule replace_entry [OF ok i])
    show "entry_ok ?c ?e"
      using contents_length [OF ok s] s cache_frame_size [OF fr] c1(2) sd by (simp add: entry_ok_def dd)
    show "locate (dev ?c) (fs_device c) \<noteq> None" using loc(1) locate_cong [OF d'(2)] by simp
    show "fs_size ?c = fs_size c" using cache_frame_size [OF fr] .
    show "\<forall>s<fs_size c. length (device_data (dev ?c) (fs_device c) s) = BLOCK_SECTOR_SIZE" using len by simp
    show "device_data (dev ?c) (fs_device c) x = device_data (dev c) (fs_device c) x"
      if "x \<noteq> ce_sector (cache c ! i) \<or> ce_free (cache c ! i)" for x
      using that d(2,3) by (cases "ce_free (cache c ! i)") (auto simp: dd)
  qed (use nj c1 d(2) dd in auto)
  moreover have "holds s (cache ?c ! i)" using c1 i l by (simp add: holds_def)
  moreover have "(contents c)(ce_sector ?e := ce_data ?e) = contents c" using c1(2) by auto
  ultimately show ?thesis using eq fr by auto
qed

lemma get_cache_entry_ok:
  assumes ok: "cache_ok c" and s: "s < fs_size c"
  shows "\<exists>i c'. get_cache_entry s c = Some (i, c') \<and> i < CACHE_NUM_SECTORS \<and> holds s (cache c' ! i) \<and>
    cache_ok c' \<and> contents c' = contents c \<and> cache_frame c c'"
proof -
  note l = cache_len [OF ok]
  consider i where "search_cache s (cache c) 0 None = Inl i" | i where "search_cache s (cache c) 0 None = Inr (Some i)"
    | "search_cache s (cache c) 0 None = Inr None"
    by (metis Inl_Inr_False not_None_eq old.sum.exhaust)
  then show ?thesis
  proof cases
    case 1
    then show ?thesis using search_cache_Inl [of s "cache c" 0 None i] ok l by (simp add: get_cache_entry_def)
  next
    case (2 i)
    have i: "i < CACHE_NUM_SECTORS" "ce_free (cache c ! i)" using search_cache_Inr [OF 2] l by auto
    let ?e = "(cache c ! i)\<lparr>ce_sector := s, ce_free := False\<rparr>"
    have "c\<lparr>cache := (cache c)[i := ?e]\<rparr> = c\<lparr>dev := dev c, cache := (cache c)[i := ?e]\<rparr>" by simp
    from read_into_entry [OF ok s i(1) not_cached [OF 2] _ _ _ this] show ?thesis
      using i by (auto simp: get_cache_entry_def 2 upd_entry_def)
  next
    case 3
    define i where "i = get_cache_entry_to_evict (cache c)"
    have nf: "\<forall>e\<in>set (cache c). \<not> ce_free e" using search_cache_Inr [OF 3] by auto
    have i: "i < CACHE_NUM_SECTORS" using evict_lru(1) [of "cache c"] l unfolding i_def by fastforce
    then have nfi: "\<not> ce_free (cache c ! i)" using nf l by simp
    note eo = cache_entry_ok [OF ok i]
    obtain d e where w: "write_cache_entry_to_disk i c = Some (c\<lparr>dev := d, cache := (cache c)[i := e]\<rparr>)"
      "\<not> ce_free e" "same_devices (dev c) d"
      "device_data d (fs_device c) = (device_data (dev c) (fs_device c))(ce_sector (cache c ! i) := ce_data (cache c ! i))"
    proof (cases "ce_dirty (cache c ! i)")
      case True
      obtain d' where "block_write (fs_device c) (ce_sector (cache c ! i)) (ce_data (cache c ! i)) (dev c) = Some d'" "same_devices (dev c) d'"
        "device_data d' (fs_device c) = (device_data (dev c) (fs_device c))(ce_sector (cache c ! i) := ce_data (cache c ! i))"
        using block_write_data [of "dev c" "fs_device c" "ce_sector (cache c ! i)" "ce_data (cache c ! i)"] ok eo nfi
        by (auto simp: cache_ok_def entry_ok_def fs_size_def)
      then show ?thesis using that [of "(cache c ! i)\<lparr>ce_dirty := False\<rparr>" d'] True nfi by (simp add: write_cache_entry_to_disk_def upd_entry_def)
    next
      case False
      have "c = c\<lparr>dev := dev c, cache := (cache c)[i := cache c ! i]\<rparr>" by simp
      moreover have "device_data (dev c) (fs_device c) =
          (device_data (dev c) (fs_device c))(ce_sector (cache c ! i) := ce_data (cache c ! i))"
        using eo nfi False by (auto simp: entry_ok_def)
      ultimately show ?thesis using that [of "cache c ! i" "dev c"] False nfi by (simp add: write_cache_entry_to_disk_def)
    qed
    let ?c1 = "upd_entry i (\<lambda>e. e\<lparr>ce_sector := s\<rparr>) (c\<lparr>dev := d, cache := (cache c)[i := e]\<rparr>)"
    have "?c1 = c\<lparr>dev := d, cache := (cache c)[i := e\<lparr>ce_sector := s\<rparr>]\<rparr>" using i l by (simp add: upd_entry_def)
    from read_into_entry [OF ok s i not_cached [OF 3] w(3) _ _ this] obtain c' where
      "read_cache_entry_from_disk i ?c1 = Some c'" "cache_ok c'" "contents c' = contents c" "cache_frame c c'" "holds s (cache c' ! i)"
      using w(2,4) nfi by auto
    then show ?thesis using i w(1) by (simp add: get_cache_entry_def 3 flip: i_def)
  qed
qed

lemma length_patch [simp]: "o' + length new \<le> length xs \<Longrightarrow> length (patch o' new xs) = length xs"
  by (simp add: patch_def)

lemma touch_entry:
  assumes ok: "cache_ok c" and i: "i < CACHE_NUM_SECTORS" "holds s (cache c ! i)"
    and e: "ce_sector e = s" "\<not> ce_free e" "length (ce_data e) = BLOCK_SECTOR_SIZE" "\<not> ce_dirty e \<Longrightarrow> \<not> ce_dirty (cache c ! i) \<and> ce_data e = ce_data (cache c ! i)"
    and c': "cache c' = (cache c)[i := e]" "fs_device c' = fs_device c" "dev c' = dev c" "cache_ticks c' = cache_ticks c"
  shows "cache_ok c' \<and> contents c' = (contents c)(s := ce_data e) \<and> cache_frame c c'"
proof -
  have si: "ce_sector (cache c ! i) = s" "\<not> ce_free (cache c ! i)" using i(2) by (simp_all add: holds_def)
  have sz: "fs_size c' = fs_size c" using c' by (simp add: fs_size_def)
  have "cache_ok c' \<and> contents c' = (contents c)(ce_sector e := ce_data e)"
  proof (rule replace_entry [OF ok i(1) c'(1,2)])
    show "entry_ok c' e" using cache_entry_ok [OF ok i(1)] e c' si sz by (auto simp: entry_ok_def)
    show "\<not> holds (ce_sector e) (cache c ! j)" if "j < CACHE_NUM_SECTORS" "j \<noteq> i" for j
      using cache_uniq [OF ok that(1) i(1)] i(2) e(1) that(2) by blast
    show "\<not> ce_free e" by (rule e(2))
    show "locate (dev c') (fs_device c) \<noteq> None" using ok c'(3) by (simp add: cache_ok_def)
    show "\<forall>s<fs_size c. length (device_data (dev c') (fs_device c) s) = BLOCK_SECTOR_SIZE" using ok c'(3) by (simp add: cache_ok_def)
  qed (use c' si e sz in auto)
  then show ?thesis using e(1) c' by (simp add: cache_frame_def)
qed

text \<open>A copy acts on the sector whose entry it finds.\<close>

lemma cache_copy_out_ok:
  assumes "cache_ok c" "i < CACHE_NUM_SECTORS" "holds s (cache c ! i)"
  shows "\<exists>c'. cache_copy_out i n m c = (take m (drop n (contents c s)), c') \<and> cache_ok c' \<and> contents c' = contents c \<and> cache_frame c c'"
proof -
  let ?e = "(cache c ! i)\<lparr>last_accessed_tick := cache_ticks c\<rparr>"
  define c2 where "c2 = (upd_entry i (\<lambda>e. e\<lparr>last_accessed_tick := cache_ticks c\<rparr>) c)\<lparr>cache_reads := u32 (cache_reads c + 1)\<rparr>"
  have d: "contents c s = ce_data (cache c ! i)" using contents_cached [OF assms] .
  have "length (ce_data (cache c ! i)) = BLOCK_SECTOR_SIZE" using cache_entry_ok [OF assms(1,2)] assms(3) by (simp add: entry_ok_def holds_def)
  then have "cache_ok c2 \<and> contents c2 = (contents c)(s := ce_data ?e) \<and> cache_frame c c2"
    using assms(3) by (intro touch_entry [OF assms, of ?e]) (auto simp: holds_def c2_def upd_entry_def)
  moreover have "(contents c)(s := ce_data ?e) = contents c" using d by auto
  moreover have "cache_copy_out i n m c = (take m (drop n (contents c s)), c2)"
    using d by (simp add: cache_copy_out_def c2_def upd_entry_def Let_def)
  ultimately show ?thesis by metis
qed

lemma cache_copy_in_ok:
  assumes "cache_ok c" "i < CACHE_NUM_SECTORS" "holds s (cache c ! i)" "n + length buf \<le> BLOCK_SECTOR_SIZE"
  shows "cache_ok (cache_copy_in i buf n c)" "contents (cache_copy_in i buf n c) = (contents c)(s := patch n buf (contents c s))"
    "cache_frame c (cache_copy_in i buf n c)"
proof -
  let ?f = "\<lambda>e. e\<lparr>ce_data := patch n buf (ce_data e), ce_dirty := True, last_accessed_tick := cache_ticks c\<rparr>"
  have d: "contents c s = ce_data (cache c ! i)" using contents_cached [OF assms(1-3)] .
  have "length (ce_data (cache c ! i)) = BLOCK_SECTOR_SIZE" using cache_entry_ok [OF assms(1,2)] assms(3) by (simp add: entry_ok_def holds_def)
  then have "cache_ok (cache_copy_in i buf n c) \<and> contents (cache_copy_in i buf n c) = (contents c)(s := ce_data (?f (cache c ! i))) \<and>
      cache_frame c (cache_copy_in i buf n c)"
    using assms(3,4) by (intro touch_entry [OF assms(1-3)]) (auto simp: holds_def cache_copy_in_def upd_entry_def Let_def)
  then show "cache_ok (cache_copy_in i buf n c)" "contents (cache_copy_in i buf n c) = (contents c)(s := patch n buf (contents c s))"
    "cache_frame c (cache_copy_in i buf n c)" using d by auto
qed

lemma cache_read_partial_ok:
  assumes "cache_ok c" "s < fs_size c" "n + m \<le> BLOCK_SECTOR_SIZE"
  shows "\<exists>c'. cache_read_partial s n m c = Some (take m (drop n (contents c s)), c') \<and> cache_ok c' \<and> contents c' = contents c \<and> cache_frame c c'"
proof -
  obtain i c1 where g: "get_cache_entry s c = Some (i, c1)" "i < CACHE_NUM_SECTORS" "holds s (cache c1 ! i)" "cache_ok c1"
    "contents c1 = contents c" "cache_frame c c1"
    using get_cache_entry_ok [OF assms(1,2)] by blast
  then show ?thesis using cache_copy_out_ok [OF g(4,2,3), of n m] assms(3) cache_frame_trans [OF g(6)]
    by (auto simp: cache_read_partial_def)
qed

lemma cache_write_partial_ok:
  assumes "cache_ok c" "s < fs_size c" "n + length buf \<le> BLOCK_SECTOR_SIZE"
  shows "\<exists>c'. cache_write_partial s buf n c = Some c' \<and> cache_ok c' \<and>
    contents c' = (contents c)(s := patch n buf (contents c s)) \<and> cache_frame c c'"
proof -
  obtain i c1 where g: "get_cache_entry s c = Some (i, c1)" "i < CACHE_NUM_SECTORS" "holds s (cache c1 ! i)" "cache_ok c1"
    "contents c1 = contents c" "cache_frame c c1"
    using get_cache_entry_ok [OF assms(1,2)] by blast
  then show ?thesis using cache_copy_in_ok [OF g(4,2,3) assms(3)] assms(3) cache_frame_trans [OF g(6)]
    by (auto simp: cache_write_partial_def)
qed

lemma write_entry_ok:
  assumes ok: "cache_ok c" and i: "i < CACHE_NUM_SECTORS" "\<not> ce_free (cache c ! i)"
  shows "\<exists>c'. write_cache_entry_to_disk i c = Some c' \<and> cache_ok c' \<and> contents c' = contents c \<and> cache_frame c c' \<and>
    cache c' = (cache c)[i := (cache c ! i)\<lparr>ce_dirty := False\<rparr>]"
proof (cases "ce_dirty (cache c ! i)")
  case False
  then have "(cache c ! i)\<lparr>ce_dirty := False\<rparr> = cache c ! i" by simp
  then have "(cache c)[i := (cache c ! i)\<lparr>ce_dirty := False\<rparr>] = cache c" by simp
  then show ?thesis using False ok by (simp add: write_cache_entry_to_disk_def)
next
  case True
  let ?s = "ce_sector (cache c ! i)" and ?e = "(cache c ! i)\<lparr>ce_dirty := False\<rparr>"
  note eo = cache_entry_ok [OF ok i(1)]
  have e: "?s < fs_size c" "length (ce_data (cache c ! i)) = BLOCK_SECTOR_SIZE" using eo i(2) by (auto simp: entry_ok_def)
  obtain d where d: "block_write (fs_device c) ?s (ce_data (cache c ! i)) (dev c) = Some d" "same_devices (dev c) d"
    "device_data d (fs_device c) = (device_data (dev c) (fs_device c))(?s := ce_data (cache c ! i))"
    using block_write_data [of "dev c" "fs_device c" ?s "ce_data (cache c ! i)"] ok e by (auto simp: cache_ok_def fs_size_def)
  let ?c = "c\<lparr>dev := d, cache := (cache c)[i := ?e]\<rparr>"
  have fr: "cache_frame c ?c" using d(2) by (simp add: cache_frame_def)
  have h: "holds ?s (cache c ! i)" using i(2) by (simp add: holds_def)
  have "cache_ok ?c \<and> contents ?c = (contents c)(ce_sector ?e := ce_data ?e)"
  proof (rule replace_entry [OF ok i(1)])
    show "entry_ok ?c ?e" using e cache_frame_size [OF fr] d(3) by (simp add: entry_ok_def)
    show "locate (dev ?c) (fs_device c) \<noteq> None" using ok locate_cong [OF d(2)] by (simp add: cache_ok_def)
    show "\<not> holds (ce_sector ?e) (cache c ! j)" if "j < CACHE_NUM_SECTORS" "j \<noteq> i" for j
      using cache_uniq [OF ok that(1) i(1), of ?s] h that(2) by auto
    show "\<forall>s<fs_size c. length (device_data (dev ?c) (fs_device c) s) = BLOCK_SECTOR_SIZE" using ok e(2) d(3) by (simp add: cache_ok_def)
  qed (use cache_frame_size [OF fr] d(3) i(2) in auto)
  moreover have "(contents c)(ce_sector ?e := ce_data ?e) = contents c" using contents_cached [OF ok i(1) h] by auto
  moreover have "write_cache_entry_to_disk i c = Some ?c" using True d(1) by (simp add: write_cache_entry_to_disk_def upd_entry_def)
  ultimately show ?thesis using fr by auto
qed

lemma flush_loop:
  assumes "cache_ok c" "n \<le> CACHE_NUM_SECTORS"
  shows "\<exists>c'. foldM (\<lambda>c i. if \<not> ce_free (cache c ! i) then write_cache_entry_to_disk i c else Some c) c [0..<n] = Some c' \<and>
    cache_ok c' \<and> contents c' = contents c \<and> cache_frame c c' \<and> (\<forall>i < n. ce_free (cache c' ! i) \<or> \<not> ce_dirty (cache c' ! i))"
  using assms(2)
proof (induction n)
  case 0
  then show ?case using assms(1) by simp
next
  case (Suc n)
  then obtain c1 where c1: "foldM (\<lambda>c i. if \<not> ce_free (cache c ! i) then write_cache_entry_to_disk i c else Some c) c [0..<n] = Some c1"
    "cache_ok c1" "contents c1 = contents c" "cache_frame c c1" "\<forall>i < n. ce_free (cache c1 ! i) \<or> \<not> ce_dirty (cache c1 ! i)"
    by auto
  have n: "n < CACHE_NUM_SECTORS" using Suc.prems by simp
  show ?case
  proof (cases "ce_free (cache c1 ! n)")
    case True
    then show ?thesis using c1 by (auto simp: foldM_append less_Suc_eq)
  next
    case False
    obtain c2 where "write_cache_entry_to_disk n c1 = Some c2" "cache_ok c2" "contents c2 = contents c1" "cache_frame c1 c2"
      "cache c2 = (cache c1)[n := (cache c1 ! n)\<lparr>ce_dirty := False\<rparr>]"
      using write_entry_ok [OF c1(2) n False] by blast
    then show ?thesis using c1 False cache_len [OF c1(2)] n cache_frame_trans [OF c1(4)]
      by (auto simp: foldM_append less_Suc_eq nth_list_update)
  qed
qed

lemma write_cache_to_disk_ok:
  assumes "cache_ok c"
  shows "\<exists>c'. write_cache_to_disk c = Some c' \<and> cache_ok c' \<and> contents c' = contents c \<and> cache_frame c c' \<and>
    device_data (dev c') (fs_device c') = contents c"
proof -
  obtain c' where c': "write_cache_to_disk c = Some c'" "cache_ok c'" "contents c' = contents c" "cache_frame c c'"
    "\<forall>i < CACHE_NUM_SECTORS. ce_free (cache c' ! i) \<or> \<not> ce_dirty (cache c' ! i)"
    using flush_loop [OF assms order_refl] by (auto simp: write_cache_to_disk_def)
  have "device_data (dev c') (fs_device c') s = contents c' s" for s
  proof (cases "\<exists>i < CACHE_NUM_SECTORS. holds s (cache c' ! i)")
    case True
    then obtain i where i: "i < CACHE_NUM_SECTORS" "holds s (cache c' ! i)" by blast
    then show ?thesis using contents_cached [OF c'(2) i] c'(5) cache_entry_ok [OF c'(2) i(1)] by (auto simp: holds_def entry_ok_def)
  next
    case False
    then show ?thesis using cache_len [OF c'(2)] by (subst contents_uncached) (auto simp: in_set_conv_nth)
  qed
  then show ?thesis using c' by auto
qed

section \<open>The cache as a store of sectors\<close>

text \<open>
  What a client of the cache relies on: partial reads and writes of sectors act on an array of sectors,
  and whatever happens in the background does not change it.
\<close>

datatype sector_op = Read_op nat nat nat | Write_op nat nat "byte list" | Background_op nat

locale sector_store =
  fixes inv :: "'s \<Rightarrow> bool" and sz :: "'s \<Rightarrow> nat" and arr :: "'s \<Rightarrow> nat \<Rightarrow> byte list"
    and rd :: "nat \<Rightarrow> nat \<Rightarrow> nat \<Rightarrow> 's \<Rightarrow> (byte list \<times> 's) option"
    and wr :: "nat \<Rightarrow> byte list \<Rightarrow> nat \<Rightarrow> 's \<Rightarrow> 's option"
    and bg :: "nat \<Rightarrow> 's \<Rightarrow> 's option"
  assumes rd_law: "inv c \<Longrightarrow> s < sz c \<Longrightarrow> n + m \<le> BLOCK_SECTOR_SIZE \<Longrightarrow>
      \<exists>c'. rd s n m c = Some (take m (drop n (arr c s)), c') \<and> inv c' \<and> arr c' = arr c \<and> sz c' = sz c"
    and wr_law: "inv c \<Longrightarrow> s < sz c \<Longrightarrow> n + length buf \<le> BLOCK_SECTOR_SIZE \<Longrightarrow>
      \<exists>c'. wr s buf n c = Some c' \<and> inv c' \<and> arr c' = (arr c)(s := patch n buf (arr c s)) \<and> sz c' = sz c"
    and bg_law: "inv c \<Longrightarrow> s \<le> sz c \<Longrightarrow> \<exists>c'. bg s c = Some c' \<and> inv c' \<and> arr c' = arr c \<and> sz c' = sz c"
    and len_law: "inv c \<Longrightarrow> s < sz c \<Longrightarrow> length (arr c s) = BLOCK_SECTOR_SIZE"
begin

lemma read_after_write:
  assumes "inv c" "s < sz c" "n + length buf \<le> BLOCK_SECTOR_SIZE"
  shows "\<exists>c' c''. wr s buf n c = Some c' \<and> rd s n (length buf) c' = Some (buf, c'') \<and> inv c'' \<and> arr c'' = arr c'"
proof -
  obtain c' where c': "wr s buf n c = Some c'" "inv c'" "arr c' = (arr c)(s := patch n buf (arr c s))" "sz c' = sz c"
    using wr_law [OF assms] by blast
  moreover have "take (length buf) (drop n (arr c' s)) = buf"
    using c'(3) len_law [OF assms(1,2)] assms(3) by (simp add: patch_def)
  ultimately show ?thesis using rd_law [OF c'(2), of s n "length buf"] assms by auto
qed

end

text \<open>The same operations on a plain array of sectors, and on the cache, collecting what is read.\<close>

fun array_run :: "sector_op list \<Rightarrow> (nat \<Rightarrow> byte list) \<Rightarrow> byte list list" where
  "array_run [] a = []"
| "array_run (Read_op s n m # rest) a = take m (drop n (a s)) # array_run rest a"
| "array_run (Write_op s n buf # rest) a = array_run rest (a(s := patch n buf (a s)))"
| "array_run (Background_op s # rest) a = array_run rest a"

fun store_run :: "(nat \<Rightarrow> nat \<Rightarrow> nat \<Rightarrow> 's \<Rightarrow> (byte list \<times> 's) option) \<Rightarrow> (nat \<Rightarrow> byte list \<Rightarrow> nat \<Rightarrow> 's \<Rightarrow> 's option) \<Rightarrow>
    (nat \<Rightarrow> 's \<Rightarrow> 's option) \<Rightarrow> sector_op list \<Rightarrow> 's \<Rightarrow> (byte list list \<times> 's) option" where
  "store_run rd wr bg [] c = Some ([], c)"
| "store_run rd wr bg (Read_op s n m # rest) c = do {
     (buf, c) \<leftarrow> rd s n m c; (out, c) \<leftarrow> store_run rd wr bg rest c; Some (buf # out, c) }"
| "store_run rd wr bg (Write_op s n buf # rest) c = do { c \<leftarrow> wr s buf n c; store_run rd wr bg rest c }"
| "store_run rd wr bg (Background_op s # rest) c = do { c \<leftarrow> bg s c; store_run rd wr bg rest c }"

fun op_ok :: "nat \<Rightarrow> sector_op \<Rightarrow> bool" where
  "op_ok z (Read_op s n m) \<longleftrightarrow> s < z \<and> n + m \<le> BLOCK_SECTOR_SIZE"
| "op_ok z (Write_op s n buf) \<longleftrightarrow> s < z \<and> n + length buf \<le> BLOCK_SECTOR_SIZE"
| "op_ok z (Background_op s) \<longleftrightarrow> s \<le> z"

context sector_store
begin

lemma store_run_refines:
  "inv c \<Longrightarrow> list_all (op_ok (sz c)) ps \<Longrightarrow>
    \<exists>c'. store_run rd wr bg ps c = Some (array_run ps (arr c), c') \<and> inv c'"
proof (induction ps arbitrary: c)
  case (Cons p ps)
  show ?case
  proof (cases p)
    case (Read_op s n m)
    then obtain c1 where c1: "rd s n m c = Some (take m (drop n (arr c s)), c1)" "inv c1" "arr c1 = arr c" "sz c1 = sz c"
      using rd_law [OF Cons.prems(1), of s n m] Cons.prems(2) by auto
    obtain c2 where "store_run rd wr bg ps c1 = Some (array_run ps (arr c), c2)" "inv c2"
      using Cons.IH [OF c1(2)] Cons.prems(2) c1(3,4) by auto
    then show ?thesis using c1 Read_op by auto
  next
    case (Write_op s n buf)
    then obtain c1 where c1: "wr s buf n c = Some c1" "inv c1" "arr c1 = (arr c)(s := patch n buf (arr c s))" "sz c1 = sz c"
      using wr_law [OF Cons.prems(1), of s n buf] Cons.prems(2) by auto
    obtain c2 where "store_run rd wr bg ps c1 = Some (array_run ps (arr c1), c2)" "inv c2"
      using Cons.IH [OF c1(2)] Cons.prems(2) c1(4) by auto
    then show ?thesis using c1(1) Write_op by (simp add: c1(3))
  next
    case (Background_op s)
    then obtain c1 where c1: "bg s c = Some c1" "inv c1" "arr c1 = arr c" "sz c1 = sz c"
      using bg_law [OF Cons.prems(1), of s] Cons.prems(2) by auto
    obtain c2 where "store_run rd wr bg ps c1 = Some (array_run ps (arr c), c2)" "inv c2"
      using Cons.IH [OF c1(2)] Cons.prems(2) c1(3,4) by auto
    then show ?thesis using c1 Background_op by auto
  qed
qed simp

end

text \<open>The background of the cache: the periodic flush, and read-ahead threads for any sector.\<close>

definition cache_background :: "nat \<Rightarrow> buffer_cache \<Rightarrow> buffer_cache option" where
  "cache_background s c = (if s = 0 then write_cache_to_disk c else cache_read_thread (s - 1) (cache_read_async (s - 1) c))"

lemma cache_cong:
  assumes "cache c' = cache c" "dev c' = dev c" "fs_device c' = fs_device c"
  shows "cache_ok c' = cache_ok c" "contents c' = contents c"
  by (simp_all add: assms cache_ok_def entry_ok_def contents_def fs_size_def fun_eq_iff cong: option.case_cong)

lemma cache_read_async_ok:
  assumes "cache_ok c"
  shows "cache_ok (cache_read_async s c) \<and> contents (cache_read_async s c) = contents c \<and> cache_frame c (cache_read_async s c)"
proof -
  let ?c = "cache_read_async s c"
  have "cache ?c = cache c" "dev ?c = dev c" "fs_device ?c = fs_device c" "cache_ticks ?c = cache_ticks c"
    by (simp_all add: cache_read_async_def)
  then show ?thesis using cache_cong [of ?c c] assms by (simp add: cache_frame_def)
qed

lemma cache_read_thread_ok:
  assumes "cache_ok c" "s < fs_size c"
  shows "\<exists>c'. cache_read_thread s c = Some c' \<and> cache_ok c' \<and> contents c' = contents c \<and> cache_frame c c'"
proof -
  obtain i c1 where g: "get_cache_entry s c = Some (i, c1)" "cache_ok c1" "contents c1 = contents c" "cache_frame c c1"
    using get_cache_entry_ok [OF assms] by blast
  let ?c = "c1\<lparr>read_ahead_threads := read_ahead_threads c1 - 1, read_ahead := remove1 s (read_ahead c1)\<rparr>"
  have "cache_ok ?c" "contents ?c = contents c1" "cache_frame c ?c"
    using g cache_cong [of ?c c1] by (simp_all add: cache_frame_def)
  then show ?thesis using g by (simp add: cache_read_thread_def)
qed

lemma cache_background_ok:
  assumes "cache_ok c" "s \<le> fs_size c"
  shows "\<exists>c'. cache_background s c = Some c' \<and> cache_ok c' \<and> contents c' = contents c \<and> cache_frame c c'"
proof (cases "s = 0")
  case True
  then show ?thesis using write_cache_to_disk_ok [OF assms(1)] by (auto simp: cache_background_def)
next
  case False
  let ?c = "cache_read_async (s - 1) c"
  have c: "cache_ok ?c" "contents ?c = contents c" "cache_frame c ?c" using cache_read_async_ok [OF assms(1)] by auto
  then have "s - 1 < fs_size ?c" using cache_frame_size [OF c(3)] assms(2) False by simp
  then show ?thesis using cache_read_thread_ok [OF c(1)] c cache_frame_trans [OF c(3)] False by (auto simp: cache_background_def)
qed

interpretation cs: sector_store cache_ok fs_size contents cache_read_partial cache_write_partial cache_background
proof unfold_locales
  show "\<exists>c'. cache_read_partial s n m c = Some (take m (drop n (contents c s)), c') \<and> cache_ok c' \<and> contents c' = contents c \<and> fs_size c' = fs_size c"
    if "cache_ok c" "s < fs_size c" "n + m \<le> BLOCK_SECTOR_SIZE" for c s n m
    using cache_read_partial_ok [OF that] cache_frame_size by blast
  show "\<exists>c'. cache_write_partial s buf n c = Some c' \<and> cache_ok c' \<and> contents c' = (contents c)(s := patch n buf (contents c s)) \<and> fs_size c' = fs_size c"
    if "cache_ok c" "s < fs_size c" "n + length buf \<le> BLOCK_SECTOR_SIZE" for c s n buf
    using cache_write_partial_ok [OF that] cache_frame_size by blast
  show "\<exists>c'. cache_background s c = Some c' \<and> cache_ok c' \<and> contents c' = contents c \<and> fs_size c' = fs_size c"
    if "cache_ok c" "s \<le> fs_size c" for c s
    using cache_background_ok [OF that] cache_frame_size by blast
qed (rule contents_length)

section \<open>Interleaved calls\<close>

text \<open>
  The atomic steps of the calls of several threads: the search, the copy that ends a read or a write, and
  the steps of the background. \<open>pending\<close> has the sector and the entry of the call a thread is in.
\<close>

datatype atomic_step = Lookup nat nat | Copy_out nat nat nat | Copy_in nat nat "byte list" | Background nat

type_synonym pending = "nat \<Rightarrow> (nat \<times> nat) option"

fun cache_event :: "atomic_step \<Rightarrow> buffer_cache \<times> pending \<Rightarrow> (byte list list \<times> buffer_cache \<times> pending) option" where
  "cache_event (Lookup t s) (c, p) = do { (i, c) \<leftarrow> get_cache_entry s c; Some ([], c, p(t \<mapsto> (s, i))) }"
| "cache_event (Copy_out t n m) (c, p) = do {
     (s, i) \<leftarrow> p t; let (buf, c) = cache_copy_out i n m c; Some ([buf], c, p(t := None)) }"
| "cache_event (Copy_in t n buf) (c, p) = do {
     (s, i) \<leftarrow> p t; Some ([], cache_copy_in i buf n c, p(t := None)) }"
| "cache_event (Background s) (c, p) = do { c \<leftarrow> cache_background s c; Some ([], c, p) }"

fun cache_events :: "atomic_step list \<Rightarrow> buffer_cache \<times> pending \<Rightarrow> (byte list list \<times> buffer_cache \<times> pending) option" where
  "cache_events [] st = Some ([], st)"
| "cache_events (e # es) st = do {
     (out, st) \<leftarrow> cache_event e st; (outs, st) \<leftarrow> cache_events es st; Some (out @ outs, st) }"

text \<open>The same on an array of sectors, where \<open>q\<close> has the sector of the call a thread is in; only the copies matter.\<close>

fun array_events :: "atomic_step list \<Rightarrow> (nat \<Rightarrow> byte list) \<Rightarrow> (nat \<Rightarrow> nat option) \<Rightarrow> byte list list" where
  "array_events [] a q = []"
| "array_events (Lookup t s # es) a q = array_events es a (q(t \<mapsto> s))"
| "array_events (Copy_out t n m # es) a q = take m (drop n (a (the (q t)))) # array_events es a (q(t := None))"
| "array_events (Copy_in t n buf # es) a q = array_events es (a(the (q t) := patch n buf (a (the (q t))))) (q(t := None))"
| "array_events (Background s # es) a q = array_events es a q"

text \<open>
  A thread copies when it is in a call, within the sector; and the entry it found still has the sector it was searched for.
\<close>

fun event_ok :: "atomic_step \<Rightarrow> buffer_cache \<times> pending \<Rightarrow> bool" where
  "event_ok (Lookup t s) (c, p) \<longleftrightarrow> s < fs_size c"
| "event_ok (Copy_out t n m) (c, p) \<longleftrightarrow> n + m \<le> BLOCK_SECTOR_SIZE \<and> (\<exists>s i. p t = Some (s, i) \<and> holds s (cache c ! i))"
| "event_ok (Copy_in t n buf) (c, p) \<longleftrightarrow> n + length buf \<le> BLOCK_SECTOR_SIZE \<and> (\<exists>s i. p t = Some (s, i) \<and> holds s (cache c ! i))"
| "event_ok (Background s) (c, p) \<longleftrightarrow> s \<le> fs_size c"

fun undisturbed :: "atomic_step list \<Rightarrow> buffer_cache \<times> pending \<Rightarrow> bool" where
  "undisturbed [] st = True"
| "undisturbed (e # es) st \<longleftrightarrow> event_ok e st \<and>
     (case cache_event e st of None \<Rightarrow> True | Some (_, st') \<Rightarrow> undisturbed es st')"

definition sectors_of :: "pending \<Rightarrow> nat \<Rightarrow> nat option" where
  "sectors_of p t = map_option fst (p t)"

lemma sectors_of_upd [simp]: "sectors_of (p(t := None)) = (sectors_of p)(t := None)" "sectors_of (p(t \<mapsto> x)) = (sectors_of p)(t \<mapsto> fst x)"
  by (auto simp: sectors_of_def fun_eq_iff)

definition entries_in_range :: "pending \<Rightarrow> bool" where
  "entries_in_range p \<longleftrightarrow> (\<forall>t s i. p t = Some (s, i) \<longrightarrow> i < CACHE_NUM_SECTORS)"

lemma event_refines:
  assumes ok: "cache_ok c" and idx: "entries_in_range p" and e: "event_ok e (c, p)"
  shows "\<exists>out c' p'. cache_event e (c, p) = Some (out, c', p') \<and> cache_ok c' \<and> entries_in_range p' \<and>
    array_events (e # es) (contents c) (sectors_of p) = out @ array_events es (contents c') (sectors_of p')"
proof (cases e)
  case (Lookup t s)
  then obtain i c1 where g: "get_cache_entry s c = Some (i, c1)" "i < CACHE_NUM_SECTORS" "cache_ok c1" "contents c1 = contents c"
    using get_cache_entry_ok [OF ok, of s] e by auto
  have "entries_in_range (p(t \<mapsto> (s, i)))" using idx g(2) by (simp add: entries_in_range_def)
  then show ?thesis using g Lookup by simp
next
  case (Copy_out t n m)
  then obtain s i where p: "p t = Some (s, i)" "holds s (cache c ! i)" using e by auto
  then have i: "i < CACHE_NUM_SECTORS" using idx by (simp add: entries_in_range_def)
  obtain c1 where c1: "cache_copy_out i n m c = (take m (drop n (contents c s)), c1)" "cache_ok c1" "contents c1 = contents c"
    using cache_copy_out_ok [OF ok i p(2), of n m] by auto
  have "entries_in_range (p(t := None))" "sectors_of p t = Some s" using idx p(1) by (simp_all add: entries_in_range_def sectors_of_def)
  then show ?thesis using c1 Copy_out p by simp
next
  case (Copy_in t n buf)
  then obtain s i where p: "p t = Some (s, i)" "holds s (cache c ! i)" "n + length buf \<le> BLOCK_SECTOR_SIZE" using e by auto
  then have i: "i < CACHE_NUM_SECTORS" using idx by (simp add: entries_in_range_def)
  note c1 = cache_copy_in_ok [OF ok i p(2,3)]
  have "entries_in_range (p(t := None))" "sectors_of p t = Some s" using idx p(1) by (simp_all add: entries_in_range_def sectors_of_def)
  then show ?thesis using c1(1,2) Copy_in p by simp
next
  case (Background s)
  then obtain c1 where "cache_background s c = Some c1" "cache_ok c1" "contents c1 = contents c"
    using cache_background_ok [OF ok, of s] e by auto
  then show ?thesis using Background idx by simp
qed

lemma interleaving_refines:
  "cache_ok c \<Longrightarrow> entries_in_range p \<Longrightarrow> undisturbed es (c, p) \<Longrightarrow>
   \<exists>c' p'. cache_events es (c, p) = Some (array_events es (contents c) (sectors_of p), c', p') \<and> cache_ok c'"
proof (induction es arbitrary: c p)
  case (Cons e es)
  have "event_ok e (c, p)" using Cons.prems(3) by simp
  then obtain out c1 p1 where e: "cache_event e (c, p) = Some (out, c1, p1)" "cache_ok c1" "entries_in_range p1"
    "array_events (e # es) (contents c) (sectors_of p) = out @ array_events es (contents c1) (sectors_of p1)"
    using event_refines [OF Cons.prems(1,2)] by blast
  have "undisturbed es (c1, p1)" using Cons.prems(3) e(1) by simp
  from Cons.IH [OF e(2,3) this] show ?case using e(1,4) by auto
qed simp

text \<open>A whole call is the search followed by the copy.\<close>

lemma calls_are_events:
  assumes "n + m \<le> BLOCK_SECTOR_SIZE"
  shows "cache_events [Lookup t s, Copy_out t n m] (c, p) = map_option (\<lambda>(buf, c). ([buf], c, p(t := None))) (cache_read_partial s n m c)"
    "n + length buf \<le> BLOCK_SECTOR_SIZE \<Longrightarrow>
     cache_events [Lookup t s, Copy_in t n buf] (c, p) = map_option (\<lambda>c. ([], c, p(t := None))) (cache_write_partial s buf n c)"
  using assms by (cases "get_cache_entry s c"; auto simp: cache_read_partial_def cache_write_partial_def split: prod.split)+

lemma search_found:
  assumes "cache_ok c" "i < CACHE_NUM_SECTORS" "holds s (cache c ! i)"
  shows "get_cache_entry s c = Some (i, c)"
proof -
  have "cache c ! i \<in> set (cache c)" using assms(2) cache_len [OF assms(1)] by simp
  then have "search_cache s (cache c) 0 None \<noteq> Inr r" for r using search_cache_Inr [of s "cache c" 0 None r] assms(3) by blast
  then obtain j where j: "search_cache s (cache c) 0 None = Inl j" by (cases "search_cache s (cache c) 0 None") auto
  then have "j = i" using search_cache_Inl [OF j] cache_uniq [OF assms(1) _ assms(2) _ assms(3)] cache_len [OF assms(1)] by simp
  then show ?thesis using j by (simp add: get_cache_entry_def)
qed

lemma search_evicts:
  assumes "cache_ok c" "s < fs_size c" "\<forall>e\<in>set (cache c). \<not> ce_free e \<and> \<not> holds s e"
  shows "\<exists>c'. get_cache_entry s c = Some (get_cache_entry_to_evict (cache c), c') \<and>
    cache_ok c' \<and> contents c' = contents c \<and> holds s (cache c' ! get_cache_entry_to_evict (cache c))"
proof -
  obtain i c' where g: "get_cache_entry s c = Some (i, c')" "holds s (cache c' ! i)" "cache_ok c'" "contents c' = contents c"
    using get_cache_entry_ok [OF assms(1,2)] by blast
  have "search_cache s (cache c) 0 None = Inr None"
  proof (cases "search_cache s (cache c) 0 None")
    case (Inl j)
    then show ?thesis using search_cache_Inl [OF Inl] assms(3) nth_mem [of j "cache c"] by auto
  next
    case (Inr r)
    then show ?thesis using search_cache_Inr [OF Inr] assms(3) by (metis add_0 diff_zero nth_mem)
  qed
  then have "i = get_cache_entry_to_evict (cache c)" using g(1) by (auto simp: get_cache_entry_def Let_def option_bind_Some)
  then show ?thesis using g by blast
qed

section \<open>Properties\<close>

text \<open>
  The calls of the cache one after the other, with flushes and read-ahead in between, refine an array of sectors: no
  call faults and every read returns what it would return from the array.
\<close>

theorem cache_refines_array:
  assumes "cache_ok c" "list_all (op_ok (fs_size c)) ps"
  shows "\<exists>c'. store_run cache_read_partial cache_write_partial cache_background ps c = Some (array_run ps (contents c), c') \<and> cache_ok c'"
  using assms by (rule cs.store_run_refines)

text \<open>
  C11: the buffer cache refines an array of sectors, for every interleaving of the atomic steps of any number of
  threads (the search for an entry under the lock, with the eviction it may need, and the copy after the lock is released, of
  which a read or a write consists), of flushes and of read-ahead, provided that at each copy the entry still has the
  sector the thread searched for. No step faults, every read returns what the array has at the time of its copy, and every write
  takes effect there at the time of its copy.
\<close>

theorem cache_interleaving:
  assumes "cache_ok c" "undisturbed es (c, Map.empty)"
  shows "\<exists>c' p'. cache_events es (c, Map.empty) = Some (array_events es (contents c) Map.empty, c', p') \<and> cache_ok c'"
proof -
  have "sectors_of Map.empty = Map.empty" by (simp add: sectors_of_def fun_eq_iff)
  then show ?thesis using interleaving_refines [OF assms(1) _ assms(2)] by (simp add: entries_in_range_def)
qed

text \<open>
  C12: the copy after the lock is released is a race. With all entries in use, let a thread look up a sector \<open>s\<close> that
  is in the least recently used entry, and let another thread then look up a sector \<open>s'\<close> that is not cached:
  that evicts the entry. The first thread's read then returns bytes of \<open>s'\<close> instead of \<open>s\<close>, and its write changes the
  contents of \<open>s'\<close> and leaves those of \<open>s\<close> as they were.
\<close>

theorem cache_copy_race:
  assumes "cache_ok c" "\<forall>e\<in>set (cache c). \<not> ce_free e \<and> \<not> holds s' e" "s' < fs_size c"
    "holds s (cache c ! get_cache_entry_to_evict (cache c))" "n + length buf \<le> BLOCK_SECTOR_SIZE"
  shows "\<exists>i c1. get_cache_entry s c = Some (i, c) \<and> get_cache_entry s' c = Some (i, c1) \<and>
    fst (cache_copy_out i n m c1) = take m (drop n (contents c s')) \<and>
    contents (cache_copy_in i buf n c1) = (contents c)(s' := patch n buf (contents c s')) \<and> s \<noteq> s'"
proof -
  let ?i = "get_cache_entry_to_evict (cache c)"
  have "cache c \<noteq> []" using cache_len [OF assms(1)] by auto
  then have i: "?i < CACHE_NUM_SECTORS" using evict_lru(1) [of "cache c"] cache_len [OF assms(1)] by simp
  obtain c1 where c1: "get_cache_entry s' c = Some (?i, c1)" "cache_ok c1" "contents c1 = contents c" "holds s' (cache c1 ! ?i)"
    using search_evicts [OF assms(1,3,2)] by blast
  have "cache c ! ?i \<in> set (cache c)" using i cache_len [OF assms(1)] by simp
  then have "s \<noteq> s'" using assms(2,4) by blast
  then show ?thesis
    using search_found [OF assms(1) i assms(4)] c1 cache_copy_in_ok(2) [OF c1(2) i c1(4) assms(5)] cache_copy_out_ok [OF c1(2) i c1(4), of n m]
    by fastforce
qed

text \<open>
  C13: a flush makes the device agree with the cache. After \<^verbatim>\<open>write_cache_to_disk\<close> every sector of the device
  holds what a read through the cache returned before, and reads return the same as before.
\<close>

theorem flush_writes_back:
  assumes "cache_ok c"
  shows "\<exists>c'. write_cache_to_disk c = Some c' \<and> cache_ok c' \<and> contents c' = contents c \<and>
    device_data (dev c') (fs_device c') = contents c"
  using write_cache_to_disk_ok [OF assms] by blast

definition demo_cache :: buffer_cache where
  "demo_cache = \<lparr>dev = demo_devices, fs_device = 2,
     cache = replicate 64 \<lparr>ce_sector = 0, ce_free = True, ce_dirty = False, last_accessed_tick = 0, ce_data = []\<rparr>,
     cache_ticks = 0, cache_reads = 0, cache_writes = 0, read_ahead_threads = 0, read_ahead = []\<rparr>"

lemma demo_cache_ok: "cache_ok demo_cache" "fs_size demo_cache = 10" "contents demo_cache s = replicate 512 0"
proof -
  have l: "locate demo_devices 2 = Some (50, 20)" "device_size demo_devices 2 = 10"
    by (simp_all add: locate_def demo_devices_def device_size_def)
  have "disks demo_devices 50 n = replicate 512 0" for n by (simp add: demo_devices_def)
  then have d: "device_data demo_devices 2 s = replicate 512 0" for s by (simp add: device_data_def l)
  show "fs_size demo_cache = 10" by (simp add: fs_size_def demo_cache_def l)
  then show "cache_ok demo_cache" by (simp add: cache_ok_def entry_ok_def holds_def) (simp add: demo_cache_def l d)
  have "find (holds s) (cache demo_cache) = None" by (simp add: find_None_iff holds_def) (simp add: demo_cache_def)
  then show "contents demo_cache s = replicate 512 0" by (simp add: contents_def) (simp add: demo_cache_def d)
qed

text \<open>One thread reads sector 3 while another, which looked it up before, writes to it.\<close>

lemma cache_interleaving_witness:
  "\<exists>c' p'. cache_events [Lookup 1 3, Lookup 2 3, Copy_in 1 100 [1, 2], Copy_out 2 99 4] (demo_cache, Map.empty) =
     Some ([[0, 1, 2, 0]], c', p') \<and> cache_ok c'"
proof -
  let ?es = "[Lookup 1 3, Lookup 2 3, Copy_in 1 100 [1, 2], Copy_out 2 99 4]"
  obtain i c1 where g: "get_cache_entry 3 demo_cache = Some (i, c1)" "i < 64" "holds 3 (cache c1 ! i)" "cache_ok c1" "cache_frame demo_cache c1"
    using get_cache_entry_ok [OF demo_cache_ok(1), of 3] demo_cache_ok(2) by auto
  have g': "get_cache_entry 3 c1 = Some (i, c1)" using search_found [OF g(4,2,3)] .
  have "holds 3 (cache (cache_copy_in i [1, 2] 100 c1) ! i)"
    using g(2,3) cache_len [OF g(4)] by (simp add: cache_copy_in_def upd_entry_def holds_def)
  moreover have "fs_size c1 = 10" using cache_frame_size [OF g(5)] demo_cache_ok(2) by simp
  ultimately have u: "undisturbed ?es (demo_cache, Map.empty)" using g g' demo_cache_ok(2) by (simp split: prod.split)
  show ?thesis using cache_interleaving [OF demo_cache_ok(1) u] by (simp add: demo_cache_ok patch_def)
qed

text \<open>A full cache over the disk: entry \<open>i\<close> has sector \<open>i\<close>.\<close>

definition demo_full_cache :: buffer_cache where
  "demo_full_cache = demo_cache\<lparr>fs_device := 1, cache := map (\<lambda>i. \<lparr>ce_sector = i, ce_free = False, ce_dirty = False,
     last_accessed_tick = int i, ce_data = replicate 512 0\<rparr>) [0..<64]\<rparr>"

lemma demo_full_cache_ok: "cache_ok demo_full_cache" "fs_size demo_full_cache = 100"
proof -
  have l: "locate demo_devices 1 = Some (50, 0)" "device_size demo_devices 1 = 100"
    by (simp_all add: locate_def demo_devices_def device_size_def)
  have "disks demo_devices 50 n = replicate 512 0" for n by (simp add: demo_devices_def)
  then have d: "device_data demo_devices 1 s = replicate 512 0" for s unfolding device_data_def l by simp
  have f: "dev demo_full_cache = demo_devices" "fs_device demo_full_cache = 1" by (simp_all add: demo_full_cache_def demo_cache_def)
  show z: "fs_size demo_full_cache = 100" unfolding fs_size_def f l ..
  show "cache_ok demo_full_cache"
    unfolding cache_ok_def entry_ok_def z f d l by (simp add: holds_def) (simp add: demo_full_cache_def)
qed

lemma cache_copy_race_witness:
  "\<exists>i c1. get_cache_entry 0 demo_full_cache = Some (i, demo_full_cache) \<and> get_cache_entry 70 demo_full_cache = Some (i, c1) \<and>
    contents (cache_copy_in i [7] 0 c1) 0 = contents demo_full_cache 0 \<and>
    contents (cache_copy_in i [7] 0 c1) 70 = patch 0 [7] (contents demo_full_cache 70)"
proof -
  let ?es = "cache demo_full_cache"
  have l: "length ?es = 64" "\<And>i. i < 64 \<Longrightarrow> last_accessed_tick (?es ! i) = int i \<and> holds i (?es ! i)"
    by (simp_all add: demo_full_cache_def holds_def)
  have n: "?es \<noteq> []" using l(1) by auto
  have "get_cache_entry_to_evict ?es < 64" "last_accessed_tick (?es ! get_cache_entry_to_evict ?es) \<le> last_accessed_tick (?es ! 0)"
    using evict_lru [OF n] l(1) by auto
  then have "get_cache_entry_to_evict ?es = 0" using l(2) by simp
  then have h: "holds 0 (?es ! get_cache_entry_to_evict ?es)" using l(2) [of 0] by simp
  have f: "\<forall>e\<in>set ?es. \<not> ce_free e \<and> \<not> holds 70 e" by (auto simp: demo_full_cache_def holds_def)
  show ?thesis using cache_copy_race [OF demo_full_cache_ok(1) f _ h, of 0 "[7]" 0] demo_full_cache_ok(2) by fastforce
qed

lemma flush_writes_back_witness:
  "\<exists>c c'. cache_write_partial 3 [1, 2] 100 demo_cache = Some c \<and> write_cache_to_disk c = Some c' \<and>
     device_data (dev c') (fs_device c') 3 = patch 100 [1, 2] (replicate 512 0)"
proof -
  obtain c where c: "cache_write_partial 3 [1, 2] 100 demo_cache = Some c" "cache_ok c"
      "contents c = (contents demo_cache)(3 := patch 100 [1, 2] (contents demo_cache 3))"
    using cache_write_partial_ok [OF demo_cache_ok(1), of 3 100 "[1, 2]"] demo_cache_ok(2) by auto
  show ?thesis using flush_writes_back [OF c(2)] c(1,3) demo_cache_ok(3) [of 3] by auto
qed

text \<open>
  Eviction takes the least recently used entry: no entry of the cache has an earlier time of last access.
\<close>

theorem evicts_least_recent:
  assumes "i < length es"
  shows "get_cache_entry_to_evict es < length es \<and>
    last_accessed_tick (es ! get_cache_entry_to_evict es) \<le> last_accessed_tick (es ! i)"
proof -
  have "es \<noteq> []" using assms by auto
  then show ?thesis using evict_lru [of es] assms by blast
qed

lemma evicts_least_recent_witness:
  "last_accessed_tick (cache demo_cache ! get_cache_entry_to_evict (cache demo_cache)) \<le> 0"
  using evicts_least_recent [of 5 "cache demo_cache"] by (simp add: demo_cache_def)

end
