(* ===== verification/Inode.thy ===== *)
theory Inode
  imports Buffer_Cache
begin

text \<open>
  Inodes (\<^verbatim>\<open>filesys/inode.c\<close>), the map of free sectors (\<^verbatim>\<open>filesys/free-map.c\<close>) and open files
  (\<^verbatim>\<open>filesys/file.c\<close>). The three depend on each other: extending an inode allocates sectors, which
  writes the free map to its file, which is an inode. The functions below that allocate take
  the operation that stores the free map as their argument \<open>bw\<close>; \<open>free_map_write\<close> closes the circle.
\<close>

section \<open>State\<close>

abbreviation (input) INODE_MAGIC :: nat where "INODE_MAGIC \<equiv> 0x494e4f44"
abbreviation (input) INODE_NUM_DBLOCKS :: nat where "INODE_NUM_DBLOCKS \<equiv> 12"
abbreviation (input) INDBLOCK_NUM_CHILDREN :: nat where "INDBLOCK_NUM_CHILDREN \<equiv> 128"
abbreviation (input) DOUBLY_INDBLOCK_NUM_GRANDCHILDREN :: nat where "DOUBLY_INDBLOCK_NUM_GRANDCHILDREN \<equiv> 16384"
abbreviation (input) DBLOCK_END_BOUND :: nat where "DBLOCK_END_BOUND \<equiv> 12"
abbreviation (input) INDBLOCK_END_BOUND :: nat where "INDBLOCK_END_BOUND \<equiv> 141"
abbreviation (input) FREE_MAP_SECTOR :: nat where "FREE_MAP_SECTOR \<equiv> 0"
abbreviation (input) ROOT_DIR_SECTOR :: nat where "ROOT_DIR_SECTOR \<equiv> 1"

record inode_disk =
  id_length :: int
  id_is_dir :: bool
  dblocks :: "nat list"
  indblock :: nat
  doubly_indblock :: nat
  id_magic :: nat
  id_unused :: "nat list"

record inode =
  i_sector :: nat
  open_cnt :: int
  removed :: bool
  deny_write_cnt :: int

record open_file =
  f_inode :: ptr
  f_pos :: int
  deny_write :: bool

record dir =
  d_inode :: ptr
  d_pos :: int

text \<open>
  The file system: the buffer cache, the structures in kernel memory by address, the free map. \<open>next_ptr\<close>
  is the next address \<^verbatim>\<open>malloc\<close> returns; when \<open>oom\<close> holds it returns null. Freed structures are no longer
  in the maps, so an access to one is a fault. \<open>process_dirs\<close> has the directory of every process, by
  process number, and \<open>cur_pid\<close> the number of the running process, \<open>None\<close>
  for a kernel thread, which has no process. \<open>heap_words\<close> is what the kernel's heap has behind a table of sector
  numbers: reading entry \<open>j\<close> of a table that is shorter gives \<open>heap_words j\<close>, which is not further specified.
\<close>

record fs =
  bc :: buffer_cache
  inodes :: "ptr \<Rightarrow> inode option"
  open_inodes :: "ptr list"
  files :: "ptr \<Rightarrow> open_file option"
  dirs :: "ptr \<Rightarrow> dir option"
  free_map :: bitmap
  free_map_file :: ptr
  process_dirs :: "(int \<times> ptr) list"
  cur_pid :: "int option"
  next_ptr :: ptr
  oom :: bool
  heap_words :: "nat \<Rightarrow> nat"

text \<open>Running an operation of the cache.\<close>

definition on_cache :: "(buffer_cache \<Rightarrow> ('a \<times> buffer_cache) option) \<Rightarrow> fs \<Rightarrow> ('a \<times> fs) option" where
  "on_cache f k = do { (x, c) \<leftarrow> f (bc k); Some (x, k\<lparr>bc := c\<rparr>) }"

definition cache_do :: "(buffer_cache \<Rightarrow> buffer_cache option) \<Rightarrow> fs \<Rightarrow> fs option" where
  "cache_do f k = do { c \<leftarrow> f (bc k); Some (k\<lparr>bc := c\<rparr>) }"

definition malloc :: "fs \<Rightarrow> ptr \<times> fs" where
  "malloc k = (if oom k then (0, k) else (next_ptr k, k\<lparr>next_ptr := next_ptr k + 1\<rparr>))"

text \<open>The layout of an inode in its sector: 128 little-endian words.\<close>

definition inode_disk_bytes :: "inode_disk \<Rightarrow> byte list" where
  "inode_disk_bytes i = elems_bytes
     ([word_of_int (id_length i), if id_is_dir i then 1 else 0] @ map of_nat (dblocks i) @
      [of_nat (indblock i), of_nat (doubly_indblock i), of_nat (id_magic i)] @ map of_nat (id_unused i))"

definition sector_words :: "byte list \<Rightarrow> nat list" where
  "sector_words bs = map unat (bytes_elems bs)"

definition bytes_inode_disk :: "byte list \<Rightarrow> inode_disk" where
  "bytes_inode_disk bs = (let ws = bytes_elems bs; ns = map unat ws in
     \<lparr>id_length = sint (ws ! 0), id_is_dir = (bs ! 4 \<noteq> 0), dblocks = take 12 (drop 2 ns), indblock = ns ! 14,
      doubly_indblock = ns ! 15, id_magic = ns ! 16, id_unused = drop 17 ns\<rparr>)"

section \<open>Sizes\<close>

definition bytes_to_data_sectors :: "int \<Rightarrow> nat" where
  "bytes_to_data_sectors len = nat ((s32 (len + 511) sdiv 512) mod 2 ^ 32)"

definition bytes_to_indirect_sectors :: "int \<Rightarrow> nat" where
  "bytes_to_indirect_sectors len =
     (let data_sectors_left = bytes_to_data_sectors len in
      if data_sectors_left \<le> INODE_NUM_DBLOCKS then 0
      else let data_sectors_left = data_sectors_left - INODE_NUM_DBLOCKS in
      if data_sectors_left \<le> INDBLOCK_NUM_CHILDREN then 1
      else 2 + DIV_ROUND_UP (data_sectors_left - INDBLOCK_NUM_CHILDREN) INDBLOCK_NUM_CHILDREN)"

definition bytes_to_sectors :: "int \<Rightarrow> nat" where
  "bytes_to_sectors len = bytes_to_data_sectors len + bytes_to_indirect_sectors len"

section \<open>Reading\<close>

text \<open>
  \<^verbatim>\<open>cache_read\<close> into a buffer that \<^verbatim>\<open>malloc\<close> has just returned: without memory the copy goes to the null
  pointer.
\<close>

definition read_words :: "nat \<Rightarrow> fs \<Rightarrow> (nat list \<times> fs) option" where
  "read_words s k = do {
     ASSERT (\<not> oom k);
     (bs, k) \<leftarrow> on_cache (cache_read s) k;
     Some (sector_words bs, k) }"

definition byte_to_sector :: "inode_disk \<Rightarrow> int \<Rightarrow> fs \<Rightarrow> (nat \<times> fs) option" where
  "byte_to_sector i pos k = (
     let sector_num = nat ((pos sdiv 512) mod 2 ^ 32) in
     if sector_num < INODE_NUM_DBLOCKS then Some (dblocks i ! sector_num, k)
     else let sector_num = sector_num - INODE_NUM_DBLOCKS in
     if sector_num < INDBLOCK_NUM_CHILDREN then do {
       (ws, k) \<leftarrow> read_words (indblock i) k;
       Some (ws ! sector_num, k) }
     else let sector_num = sector_num - INDBLOCK_NUM_CHILDREN in
     if sector_num < DOUBLY_INDBLOCK_NUM_GRANDCHILDREN then do {
       (ws, k) \<leftarrow> read_words (doubly_indblock i) k;
       (ws, k) \<leftarrow> read_words (ws ! (sector_num div INDBLOCK_NUM_CHILDREN)) k;
       Some (ws ! (sector_num mod INDBLOCK_NUM_CHILDREN), k) }
     else Some (2 ^ 32 - 1, k))"

definition inode_get_data :: "ptr \<Rightarrow> fs \<Rightarrow> (inode_disk \<times> fs) option" where
  "inode_get_data p k = do {
     i \<leftarrow> inodes k p;
     ASSERT (\<not> oom k);
     (bs, k) \<leftarrow> on_cache (cache_read (i_sector i)) k;
     Some (bytes_inode_disk bs, k) }"

definition inode_length :: "ptr \<Rightarrow> fs \<Rightarrow> (int \<times> fs) option" where
  "inode_length p k = do { (i, k) \<leftarrow> inode_get_data p k; Some (id_length i, k) }"

definition inode_is_dir :: "ptr \<Rightarrow> fs \<Rightarrow> (bool \<times> fs) option" where
  "inode_is_dir p k = (if p = 0 then Some (False, k) else do { (i, k) \<leftarrow> inode_get_data p k; Some (id_is_dir i, k) })"

definition inode_get_inumber :: "ptr \<Rightarrow> fs \<Rightarrow> nat option" where
  "inode_get_inumber p k = map_option i_sector (inodes k p)"

definition inode_get_sector :: "ptr \<Rightarrow> fs \<Rightarrow> nat option" where
  "inode_get_sector p k = (if p \<noteq> 0 then map_option i_sector (inodes k p) else Some (2 ^ 32 - 1))"

text \<open>The bytes to transfer from the sector at hand.\<close>

definition chunk_size :: "int \<Rightarrow> int \<Rightarrow> int \<Rightarrow> int" where
  "chunk_size len offset todo =
     (let inode_left = s32 (len - offset); sector_left = 512 - offset smod 512; min_left = min inode_left sector_left
      in min todo min_left)"

text \<open>The loop of \<^verbatim>\<open>inode_read_at\<close>. Every round transfers at least a byte, so \<open>todo\<close> rounds are enough.\<close>

primrec inode_read_loop :: "nat \<Rightarrow> ptr \<Rightarrow> inode_disk \<Rightarrow> int \<Rightarrow> int \<Rightarrow> byte list \<Rightarrow> fs \<Rightarrow> (byte list \<times> fs) option" where
  "inode_read_loop 0 p i todo offset buf k = (if todo > 0 then None else Some (buf, k))"
| "inode_read_loop (Suc n) p i todo offset buf k =
     (if todo > 0 then do {
        (sector_idx, k) \<leftarrow> byte_to_sector i offset k;
        let sector_ofs = offset smod 512;
        (len, k) \<leftarrow> inode_length p k;
        let chunk = chunk_size len offset todo;
        if chunk \<le> 0 then Some (buf, k) else do {
          let todo = todo - chunk;
          let offset = s32 (offset + chunk);
          (len, k) \<leftarrow> inode_length p k;
          k \<leftarrow> (if todo > 0 \<and> s32 (len - offset) > 0 then do {
                 (ahead, k) \<leftarrow> byte_to_sector i offset k;
                 cache_do (\<lambda>c. Some (cache_read_async ahead c)) k }
               else Some k);
          ASSERT (sector_ofs \<ge> 0);
          (bs, k) \<leftarrow> on_cache (cache_read_partial sector_idx (nat sector_ofs) (nat chunk)) k;
          inode_read_loop n p i todo offset (buf @ bs) k } }
      else Some (buf, k))"

definition inode_read_at :: "ptr \<Rightarrow> int \<Rightarrow> int \<Rightarrow> fs \<Rightarrow> (byte list \<times> fs) option" where
  "inode_read_at p n offset k =
     (if p = 0 then (if n > 0 then None else Some ([], k))
      else do {
        (i, k) \<leftarrow> inode_get_data p k;
        inode_read_loop (nat n) p i n offset [] k })"

section \<open>The free map\<close>

text \<open>The search of \<^verbatim>\<open>free_map_allocate\<close>: the sectors taken so far, and whether there are enough.\<close>

fun allocate_loop :: "nat \<Rightarrow> nat list \<Rightarrow> nat list \<Rightarrow> bitmap \<Rightarrow> (bool \<times> nat list \<times> bitmap) option" where
  "allocate_loop cnt [] acc b = Some (False, acc, b)"
| "allocate_loop cnt (i # is) acc b = do {
     used \<leftarrow> bitmap_test b i;
     (acc, b) \<leftarrow> (if \<not> used then do { b \<leftarrow> bitmap_mark b i; Some (acc @ [i], b) } else Some (acc, b));
     if length acc = cnt then Some (True, acc, b) else allocate_loop cnt is acc b }"

definition free_map_allocate ::
  "(fs \<Rightarrow> (bool \<times> fs) option) \<Rightarrow> nat \<Rightarrow> fs \<Rightarrow> (bool \<times> nat list \<times> fs) option" where
  "free_map_allocate bw cnt k =
     (if cnt = 0 then Some (True, [], k)
      else do {
        (enough, sectors, b) \<leftarrow> allocate_loop cnt [0..<bitmap_size (free_map k)] [] (free_map k);
        let k = k\<lparr>free_map := b\<rparr>;
        (success, k) \<leftarrow> (if enough then (if free_map_file k = 0 then Some (True, k) else bw k) else Some (False, k));
        if success then Some (True, sectors, k)
        else do {
          b \<leftarrow> foldM bitmap_reset (free_map k) [0..<length sectors];
          Some (False, sectors, k\<lparr>free_map := b\<rparr>) } })"

definition free_map_release :: "(fs \<Rightarrow> (bool \<times> fs) option) \<Rightarrow> nat \<Rightarrow> nat \<Rightarrow> fs \<Rightarrow> fs option" where
  "free_map_release bw sector cnt k = do {
     used \<leftarrow> bitmap_all (free_map k) sector cnt;
     ASSERT used;
     b \<leftarrow> bitmap_set_multiple (free_map k) sector cnt False;
     (_, k) \<leftarrow> bw (k\<lparr>free_map := b\<rparr>);
     Some k }"

section \<open>Extending an inode\<close>

abbreviation zeros :: "byte list" where "zeros \<equiv> replicate 512 0"

text \<open>\<^verbatim>\<open>cache_write (**sectors, zeros)\<close> for the next sector of the list; reading past its end is a fault.\<close>

definition next_zeroed :: "nat list \<Rightarrow> fs \<Rightarrow> (nat \<times> nat list \<times> fs) option" where
  "next_zeroed sectors k = (case sectors of [] \<Rightarrow> None
     | s # rest \<Rightarrow> do { k \<leftarrow> cache_do (cache_write s zeros) k; Some (s, rest, k) })"

definition inode_disk_extend_dblock ::
  "inode_disk \<Rightarrow> nat list \<Rightarrow> nat \<Rightarrow> nat \<Rightarrow> fs \<Rightarrow> (inode_disk \<times> nat list \<times> nat \<times> nat \<times> fs) option" where
  "inode_disk_extend_dblock i sectors sector_ofs to_write k =
     (if sector_ofs \<ge> INODE_NUM_DBLOCKS then Some (i, sectors, sector_ofs - INODE_NUM_DBLOCKS, to_write, k)
      else do {
        let n = min to_write (INODE_NUM_DBLOCKS - sector_ofs);
        (i, sectors, k) \<leftarrow> foldM (\<lambda>(i, sectors, k) j. do {
             (s, sectors, k) \<leftarrow> next_zeroed sectors k;
             Some (i\<lparr>dblocks := (dblocks i)[sector_ofs + j := s]\<rparr>, sectors, k) })
           (i, sectors, k) [0..<n];
        Some (i, sectors, 0, to_write - n, k) })"

definition inode_disk_extend_indblock_children ::
  "nat \<Rightarrow> nat list \<Rightarrow> nat \<Rightarrow> nat \<Rightarrow> fs \<Rightarrow> (nat list \<times> nat \<times> nat \<times> fs) option" where
  "inode_disk_extend_indblock_children block sectors sector_ofs to_write k =
     (if sector_ofs \<ge> INDBLOCK_NUM_CHILDREN then Some (sectors, sector_ofs - INDBLOCK_NUM_CHILDREN, to_write, k)
      else do {
        let n = min to_write INDBLOCK_NUM_CHILDREN;
        ASSERT (n \<le> length sectors);
        k \<leftarrow> cache_do (cache_write_partial block (elems_bytes (map of_nat (take n sectors))) (sector_ofs * 4)) k;
        (sectors, k) \<leftarrow> foldM (\<lambda>(sectors, k) _. do { (_, sectors, k) \<leftarrow> next_zeroed sectors k; Some (sectors, k) })
           (sectors, k) [0..<n];
        Some (sectors, 0, to_write - n, k) })"

primrec doubly_children_loop ::
  "nat \<Rightarrow> bool \<Rightarrow> nat list \<Rightarrow> nat \<Rightarrow> nat list \<Rightarrow> nat list \<Rightarrow> nat \<Rightarrow> nat \<Rightarrow> fs \<Rightarrow>
   (nat list \<times> nat list \<times> nat list \<times> nat \<times> nat \<times> fs) option" where
  "doubly_children_loop 0 new_child children idx sectors indirect sector_ofs to_write k =
     Some (children, sectors, indirect, sector_ofs, to_write, k)"
| "doubly_children_loop (Suc left) new_child children idx sectors indirect sector_ofs to_write k = do {
     ASSERT (idx < length children);
     (children, indirect) \<leftarrow> (if new_child then (case indirect of [] \<Rightarrow> None | s # rest \<Rightarrow> Some (children[idx := s], rest))
                            else Some (children, indirect));
     (sectors, sector_ofs, to_write, k) \<leftarrow> inode_disk_extend_indblock_children (children ! idx) sectors sector_ofs to_write k;
     doubly_children_loop left True children (idx + 1) sectors indirect sector_ofs to_write k }"

definition inode_disk_extend_doubly_indblock_children ::
  "nat \<Rightarrow> nat list \<Rightarrow> nat list \<Rightarrow> nat \<Rightarrow> nat \<Rightarrow> fs \<Rightarrow> fs option" where
  "inode_disk_extend_doubly_indblock_children block sectors indirect sector_ofs to_write k = do {
     (children, k) \<leftarrow> read_words block k;
     (children, _, _, _, _, k) \<leftarrow> doubly_children_loop (DIV_ROUND_UP to_write INDBLOCK_NUM_CHILDREN)
        (sector_ofs mod INDBLOCK_NUM_CHILDREN = 0) children (sector_ofs div INDBLOCK_NUM_CHILDREN)
        sectors indirect (sector_ofs mod INDBLOCK_NUM_CHILDREN) to_write k;
     cache_do (cache_write block (elems_bytes (map of_nat children))) k }"

text \<open>The pointer to the next indirect sector, \<^verbatim>\<open>*indirect_sectors\<close>.\<close>

definition take_sector :: "bool \<Rightarrow> nat \<Rightarrow> nat list \<Rightarrow> (nat \<times> nat list) option" where
  "take_sector fresh old indirect =
     (if fresh then (case indirect of [] \<Rightarrow> None | s # rest \<Rightarrow> Some (s, rest)) else Some (old, indirect))"

text \<open>
  The second half of \<^verbatim>\<open>inode_disk_extend\<close>: the allocated sectors, first the data sectors and then those for
  tables, go into the inode from the block \<open>sector_ofs\<close> on.
\<close>

definition inode_disk_fill :: "inode_disk \<Rightarrow> nat list \<Rightarrow> nat \<Rightarrow> nat \<Rightarrow> fs \<Rightarrow> (inode_disk \<times> fs) option" where
  "inode_disk_fill i sectors sector_ofs to_write k = do {
     let indirect = drop to_write sectors;
     (i, sectors, sector_ofs, to_write, k) \<leftarrow> inode_disk_extend_dblock i sectors sector_ofs to_write k;
     if to_write = 0 then Some (i, k)
     else do {
       (b, indirect) \<leftarrow> take_sector (sector_ofs = 0) (indblock i) indirect;
       let i = i\<lparr>indblock := b\<rparr>;
       (sectors, sector_ofs, to_write, k) \<leftarrow> inode_disk_extend_indblock_children (indblock i) sectors sector_ofs to_write k;
       if to_write = 0 then Some (i, k)
       else do {
         (b, indirect) \<leftarrow> take_sector (sector_ofs = 0) (doubly_indblock i) indirect;
         let i = i\<lparr>doubly_indblock := b\<rparr>;
         k \<leftarrow> inode_disk_extend_doubly_indblock_children (doubly_indblock i) sectors indirect sector_ofs to_write k;
         Some (i, k) } } }"

definition inode_disk_extend ::
  "(fs \<Rightarrow> (bool \<times> fs) option) \<Rightarrow> inode_disk \<Rightarrow> int \<Rightarrow> fs \<Rightarrow> (bool \<times> inode_disk \<times> fs) option" where
  "inode_disk_extend bw i new_length k =
     (if new_length < id_length i then Some (False, i, k)
      else let
        data_sectors_to_write = bytes_to_data_sectors new_length - bytes_to_data_sectors (id_length i);
        indirect_sectors_to_write = bytes_to_indirect_sectors new_length - bytes_to_indirect_sectors (id_length i);
        sectors_to_write = data_sectors_to_write + indirect_sectors_to_write;
        sector_ofs = bytes_to_data_sectors (id_length i);
        i = i\<lparr>id_length := new_length\<rparr>
      in if sectors_to_write = 0 then Some (True, i, k)
      else if oom k then Some (False, i, k)
      else do {
        (success, sectors, k) \<leftarrow> free_map_allocate bw sectors_to_write k;
        if \<not> success then Some (False, i, k)
        else do {
          (i, k) \<leftarrow> inode_disk_fill i sectors sector_ofs data_sectors_to_write k;
          Some (True, i, k) } })"

section \<open>Creating and writing\<close>

definition blank_inode_disk :: "bool \<Rightarrow> inode_disk" where
  "blank_inode_disk is_dir = \<lparr>id_length = 0, id_is_dir = is_dir, dblocks = replicate 12 0, indblock = 0,
     doubly_indblock = 0, id_magic = INODE_MAGIC, id_unused = replicate 111 0\<rparr>"

definition inode_create ::
  "(fs \<Rightarrow> (bool \<times> fs) option) \<Rightarrow> nat \<Rightarrow> int \<Rightarrow> bool \<Rightarrow> fs \<Rightarrow> (bool \<times> fs) option" where
  "inode_create bw sector len is_dir k = do {
     ASSERT (len \<ge> 0);
     if oom k then Some (False, k)
     else do {
       (success, i, k) \<leftarrow> inode_disk_extend bw (blank_inode_disk is_dir) len k;
       k \<leftarrow> (if success then cache_do (cache_write sector (inode_disk_bytes i)) k else Some k);
       Some (True, k) } }"

primrec inode_write_loop :: "nat \<Rightarrow> ptr \<Rightarrow> inode_disk \<Rightarrow> byte list \<Rightarrow> int \<Rightarrow> int \<Rightarrow> fs \<Rightarrow> (int \<times> fs) option" where
  "inode_write_loop 0 p i buf offset written k = (if buf \<noteq> [] then None else Some (written, k))"
| "inode_write_loop (Suc n) p i buf offset written k =
     (if buf \<noteq> [] then do {
        (sector_idx, k) \<leftarrow> byte_to_sector i offset k;
        let sector_ofs = offset smod 512;
        (len, k) \<leftarrow> inode_length p k;
        let chunk = chunk_size len offset (int (length buf));
        if chunk \<le> 0 then Some (written, k) else do {
          ASSERT (sector_ofs \<ge> 0);
          k \<leftarrow> cache_do (cache_write_partial sector_idx (take (nat chunk) buf) (nat sector_ofs)) k;
          inode_write_loop n p i (drop (nat chunk) buf) (s32 (offset + chunk)) (written + chunk) k } }
      else Some (written, k))"

text \<open>\<open>buf\<close> holds the \<^verbatim>\<open>size\<close> bytes to be written.\<close>

definition inode_write_at ::
  "(fs \<Rightarrow> (bool \<times> fs) option) \<Rightarrow> ptr \<Rightarrow> byte list \<Rightarrow> int \<Rightarrow> fs \<Rightarrow> (int \<times> fs) option" where
  "inode_write_at bw p buf offset k = do {
     m \<leftarrow> inodes k p;
     if deny_write_cnt m \<noteq> 0 then Some (0, k)
     else do {
       (i, k) \<leftarrow> inode_get_data p k;
       (success, i, k) \<leftarrow> inode_disk_extend bw i (s32 (offset + int (length buf))) k;
       k \<leftarrow> (if success then cache_do (cache_write (i_sector m) (inode_disk_bytes i)) k else Some k);
       inode_write_loop (length buf) p i buf offset 0 k } }"

text \<open>
  \<^verbatim>\<open>bitmap_write (free_map, free_map_file)\<close>. The first argument bounds the nesting of writes of the free map.
\<close>

primrec free_map_write :: "nat \<Rightarrow> fs \<Rightarrow> (bool \<times> fs) option" where
  "free_map_write 0 k = None"
| "free_map_write (Suc n) k = do {
     f \<leftarrow> files k (free_map_file k);
     let bytes = bitmap_write (free_map k);
     (written, k) \<leftarrow> inode_write_at (free_map_write n) (f_inode f) bytes 0 k;
     Some (written = int (length bytes), k) }"

section \<open>Freeing\<close>

definition inode_disk_free_sector ::
  "(fs \<Rightarrow> (bool \<times> fs) option) \<Rightarrow> nat \<Rightarrow> nat \<Rightarrow> fs \<Rightarrow> (nat \<times> fs) option" where
  "inode_disk_free_sector bw sector sectors_left k = do {
     k \<leftarrow> free_map_release bw sector 1 k;
     Some (u32 (sectors_left + (2 ^ 32 - 1)), k) }"

text \<open>Freeing the first \<open>n\<close> sectors of a table; the table may be read past its end.\<close>

definition free_table ::
  "(fs \<Rightarrow> (bool \<times> fs) option) \<Rightarrow> nat \<Rightarrow> nat list \<Rightarrow> nat \<Rightarrow> fs \<Rightarrow> (nat \<times> fs) option" where
  "free_table bw n table sectors_left k = foldM (\<lambda>(left, k) j.
     inode_disk_free_sector bw (if j < length table then table ! j else heap_words k j) left k) (sectors_left, k) [0..<n]"

text \<open>The loop over the doubly indirect block; the index stays 0.\<close>

primrec free_doubly_loop ::
  "nat \<Rightarrow> (fs \<Rightarrow> (bool \<times> fs) option) \<Rightarrow> nat list \<Rightarrow> nat \<Rightarrow> fs \<Rightarrow> fs option" where
  "free_doubly_loop 0 bw ws sectors_left k = (if sectors_left > 0 then None else Some k)"
| "free_doubly_loop (Suc n) bw ws sectors_left k =
     (if sectors_left > 0 then do {
        (nested, k) \<leftarrow> read_words (ws ! 0) k;
        (sectors_left, k) \<leftarrow> inode_disk_free_sector bw (ws ! 0) sectors_left k;
        let n' = (if sectors_left < INDBLOCK_NUM_CHILDREN then sectors_left else INDBLOCK_NUM_CHILDREN);
        (sectors_left, k) \<leftarrow> free_table bw n' nested sectors_left k;
        free_doubly_loop n bw ws sectors_left k }
      else Some k)"

definition inode_disk_free :: "(fs \<Rightarrow> (bool \<times> fs) option) \<Rightarrow> inode_disk \<Rightarrow> fs \<Rightarrow> fs option" where
  "inode_disk_free bw i k = do {
     let sectors_left = bytes_to_sectors (id_length i);
     let n = (if sectors_left < DBLOCK_END_BOUND then sectors_left else DBLOCK_END_BOUND);
     (sectors_left, k) \<leftarrow> free_table bw n (dblocks i) sectors_left k;
     let sectors_left = u32 (sectors_left + (2 ^ 32 - DBLOCK_END_BOUND));
     if sectors_left = 0 \<or> sectors_left \<ge> 2 ^ 31 then Some k
     else do {
       (ws, k) \<leftarrow> read_words (indblock i) k;
       (sectors_left, k) \<leftarrow> inode_disk_free_sector bw (indblock i) sectors_left k;
       let n = (if sectors_left < INDBLOCK_END_BOUND then sectors_left else INDBLOCK_END_BOUND);
       (sectors_left, k) \<leftarrow> free_table bw n ws sectors_left k;
       let sectors_left = u32 (sectors_left + (2 ^ 32 - INDBLOCK_END_BOUND));
       if sectors_left = 0 then Some k
       else do {
         (ws, k) \<leftarrow> read_words (doubly_indblock i) k;
         (sectors_left, k) \<leftarrow> inode_disk_free_sector bw (doubly_indblock i) sectors_left k;
         free_doubly_loop sectors_left bw ws sectors_left k } } }"

section \<open>Open inodes\<close>

definition inode_init :: "fs \<Rightarrow> fs" where
  "inode_init k = k\<lparr>open_inodes := []\<rparr>"

definition upd_inode :: "ptr \<Rightarrow> (inode \<Rightarrow> inode) \<Rightarrow> fs \<Rightarrow> fs" where
  "upd_inode p f k = k\<lparr>inodes := (inodes k)(p := map_option f (inodes k p))\<rparr>"

definition inode_reopen :: "ptr \<Rightarrow> fs \<Rightarrow> fs option" where
  "inode_reopen p k = (if p \<noteq> 0 then do {
     i \<leftarrow> inodes k p;
     Some (upd_inode p (\<lambda>i. i\<lparr>open_cnt := s32 (open_cnt i + 1)\<rparr>) k) } else Some k)"

fun find_open :: "(ptr \<Rightarrow> inode option) \<Rightarrow> nat \<Rightarrow> ptr list \<Rightarrow> ptr option option" where
  "find_open m s [] = Some None"
| "find_open m s (p # ps) = do { i \<leftarrow> m p; if i_sector i = s then Some (Some p) else find_open m s ps }"

definition inode_open :: "nat \<Rightarrow> fs \<Rightarrow> (ptr \<times> fs) option" where
  "inode_open s k = do {
     r \<leftarrow> find_open (inodes k) s (open_inodes k);
     (case r of
        Some p \<Rightarrow> do { k \<leftarrow> inode_reopen p k; Some (p, k) }
      | None \<Rightarrow>
          (let (p, k) = malloc k in
           if p = 0 then Some (0, k)
           else Some (p, k\<lparr>open_inodes := p # open_inodes k,
                  inodes := (inodes k)(p \<mapsto> \<lparr>i_sector = s, open_cnt = 1, removed = False, deny_write_cnt = 0\<rparr>)\<rparr>))) }"

definition inode_close :: "(fs \<Rightarrow> (bool \<times> fs) option) \<Rightarrow> ptr \<Rightarrow> fs \<Rightarrow> fs option" where
  "inode_close bw p k = (if p = 0 then Some k else do {
     i \<leftarrow> inodes k p;
     let k = upd_inode p (\<lambda>i. i\<lparr>open_cnt := s32 (open_cnt i - 1)\<rparr>) k;
     if s32 (open_cnt i - 1) = 0 then do {
       let k = k\<lparr>open_inodes := remove1 p (open_inodes k)\<rparr>;
       k \<leftarrow> (if removed i then do {
              k \<leftarrow> free_map_release bw (i_sector i) 1 k;
              (d, k) \<leftarrow> inode_get_data p k;
              inode_disk_free bw d k }
            else Some k);
       Some (k\<lparr>inodes := (inodes k)(p := None)\<rparr>) }
     else Some k })"

definition inode_remove :: "ptr \<Rightarrow> fs \<Rightarrow> fs option" where
  "inode_remove p k = do { i \<leftarrow> inodes k p; Some (upd_inode p (\<lambda>i. i\<lparr>removed := True\<rparr>) k) }"

definition inode_deny_write :: "ptr \<Rightarrow> fs \<Rightarrow> fs option" where
  "inode_deny_write p k = do {
     i \<leftarrow> inodes k p;
     ASSERT (s32 (deny_write_cnt i + 1) \<le> open_cnt i);
     Some (upd_inode p (\<lambda>i. i\<lparr>deny_write_cnt := s32 (deny_write_cnt i + 1)\<rparr>) k) }"

definition inode_allow_write :: "ptr \<Rightarrow> fs \<Rightarrow> fs option" where
  "inode_allow_write p k = do {
     i \<leftarrow> inodes k p;
     ASSERT (deny_write_cnt i > 0);
     ASSERT (deny_write_cnt i \<le> open_cnt i);
     Some (upd_inode p (\<lambda>i. i\<lparr>deny_write_cnt := s32 (deny_write_cnt i - 1)\<rparr>) k) }"

end
