(* ===== verification/Open_File.thy ===== *)
theory Open_File
  imports Inode
begin

text \<open>
  Open files (\<^verbatim>\<open>filesys/file.c\<close>) and the life cycle of the free map (\<^verbatim>\<open>filesys/free-map.c\<close>).
\<close>

text \<open>
  Storing the free map. Writing a file may allocate and so store the free map once; the file of the free map
  never grows, so storing it does not allocate and the nesting ends there.
\<close>

abbreviation store_free_map :: "fs \<Rightarrow> (bool \<times> fs) option" where
  "store_free_map \<equiv> free_map_write 2"

section \<open>Files\<close>

definition file_open :: "ptr \<Rightarrow> fs \<Rightarrow> (ptr \<times> fs) option" where
  "file_open p k = (let (f, k) = malloc k in
     if p \<noteq> 0 \<and> f \<noteq> 0 then Some (f, k\<lparr>files := (files k)(f \<mapsto> \<lparr>f_inode = p, f_pos = 0, deny_write = False\<rparr>)\<rparr>)
     else do { k \<leftarrow> inode_close store_free_map p k; Some (0, k) })"

definition file_reopen :: "ptr \<Rightarrow> fs \<Rightarrow> (ptr \<times> fs) option" where
  "file_reopen f k = do { r \<leftarrow> files k f; k \<leftarrow> inode_reopen (f_inode r) k; file_open (f_inode r) k }"

definition file_get_inode :: "ptr \<Rightarrow> fs \<Rightarrow> ptr option" where
  "file_get_inode f k = map_option f_inode (files k f)"

definition upd_file :: "ptr \<Rightarrow> (open_file \<Rightarrow> open_file) \<Rightarrow> fs \<Rightarrow> fs" where
  "upd_file f g k = k\<lparr>files := (files k)(f := map_option g (files k f))\<rparr>"

definition file_deny_write :: "ptr \<Rightarrow> fs \<Rightarrow> fs option" where
  "file_deny_write f k = do {
     r \<leftarrow> files k f;
     if \<not> deny_write r then inode_deny_write (f_inode r) (upd_file f (\<lambda>r. r\<lparr>deny_write := True\<rparr>) k) else Some k }"

definition file_allow_write :: "ptr \<Rightarrow> fs \<Rightarrow> fs option" where
  "file_allow_write f k = do {
     r \<leftarrow> files k f;
     if deny_write r then inode_allow_write (f_inode r) (upd_file f (\<lambda>r. r\<lparr>deny_write := False\<rparr>) k) else Some k }"

definition file_close :: "ptr \<Rightarrow> fs \<Rightarrow> fs option" where
  "file_close f k = (if f = 0 then Some k else do {
     k \<leftarrow> file_allow_write f k;
     r \<leftarrow> files k f;
     k \<leftarrow> inode_close store_free_map (f_inode r) k;
     Some (k\<lparr>files := (files k)(f := None)\<rparr>) })"

definition file_read_at :: "ptr \<Rightarrow> int \<Rightarrow> int \<Rightarrow> fs \<Rightarrow> (byte list \<times> fs) option" where
  "file_read_at f n ofs k = do { r \<leftarrow> files k f; inode_read_at (f_inode r) n ofs k }"

definition file_read :: "ptr \<Rightarrow> int \<Rightarrow> fs \<Rightarrow> (byte list \<times> fs) option" where
  "file_read f n k = do {
     r \<leftarrow> files k f;
     (buf, k) \<leftarrow> inode_read_at (f_inode r) n (f_pos r) k;
     Some (buf, upd_file f (\<lambda>r. r\<lparr>f_pos := s32 (f_pos r + int (length buf))\<rparr>) k) }"

definition file_write_at :: "ptr \<Rightarrow> byte list \<Rightarrow> int \<Rightarrow> fs \<Rightarrow> (int \<times> fs) option" where
  "file_write_at f buf ofs k = do { r \<leftarrow> files k f; inode_write_at store_free_map (f_inode r) buf ofs k }"

definition file_write :: "ptr \<Rightarrow> byte list \<Rightarrow> fs \<Rightarrow> (int \<times> fs) option" where
  "file_write f buf k = do {
     r \<leftarrow> files k f;
     (n, k) \<leftarrow> inode_write_at store_free_map (f_inode r) buf (f_pos r) k;
     Some (n, upd_file f (\<lambda>r. r\<lparr>f_pos := s32 (f_pos r + n)\<rparr>) k) }"

definition file_length :: "ptr \<Rightarrow> fs \<Rightarrow> (int \<times> fs) option" where
  "file_length f k = do { r \<leftarrow> files k f; inode_length (f_inode r) k }"

definition file_seek :: "ptr \<Rightarrow> int \<Rightarrow> fs \<Rightarrow> fs option" where
  "file_seek f pos k = do {
     r \<leftarrow> files k f;
     ASSERT (pos \<ge> 0);
     Some (upd_file f (\<lambda>r. r\<lparr>f_pos := pos\<rparr>) k) }"

definition file_tell :: "ptr \<Rightarrow> fs \<Rightarrow> int option" where
  "file_tell f k = map_option f_pos (files k f)"

section \<open>The life cycle of the free map\<close>

definition free_map_init :: "fs \<Rightarrow> fs option" where
  "free_map_init k = do {
     let n = fs_size (bc k);
     r \<leftarrow> bitmap_create (\<not> oom k) (Some (replicate (elem_cnt n) 0)) n;
     b \<leftarrow> r;
     b \<leftarrow> bitmap_mark b FREE_MAP_SECTOR;
     b \<leftarrow> bitmap_mark b ROOT_DIR_SECTOR;
     Some (k\<lparr>free_map := b\<rparr>) }"

definition free_map_open :: "fs \<Rightarrow> fs option" where
  "free_map_open k = do {
     (p, k) \<leftarrow> inode_open FREE_MAP_SECTOR k;
     (f, k) \<leftarrow> file_open p k;
     let k = k\<lparr>free_map_file := f\<rparr>;
     ASSERT (f \<noteq> 0);
     (bytes, k) \<leftarrow> file_read_at f (int (bitmap_file_size (free_map k))) 0 k;
     (success, b) \<leftarrow> bitmap_read (free_map k) bytes;
     ASSERT success;
     Some (k\<lparr>free_map := b\<rparr>) }"

definition free_map_close :: "fs \<Rightarrow> fs option" where
  "free_map_close k = file_close (free_map_file k) k"

definition free_map_create :: "fs \<Rightarrow> fs option" where
  "free_map_create k = do {
     (success, k) \<leftarrow> inode_create store_free_map FREE_MAP_SECTOR (int (bitmap_file_size (free_map k))) False k;
     ASSERT success;
     (p, k) \<leftarrow> inode_open FREE_MAP_SECTOR k;
     (f, k) \<leftarrow> file_open p k;
     let k = k\<lparr>free_map_file := f\<rparr>;
     ASSERT (f \<noteq> 0);
     (success, k) \<leftarrow> store_free_map k;
     ASSERT success;
     Some k }"

end
