(* ===== verification/Directory.thy ===== *)
theory Directory
  imports Open_File
begin

text \<open>
  Directories (\<^verbatim>\<open>filesys/directory.c\<close>): files of 20-byte entries. A name is the list of its bytes without the
  terminator.
\<close>

section \<open>Entries\<close>

abbreviation (input) NAME_MAX :: nat where "NAME_MAX \<equiv> 14"
abbreviation (input) DIR_ENTRY_SIZE :: nat where "DIR_ENTRY_SIZE \<equiv> 20"

type_synonym name = "byte list"

abbreviation CURRENT_DIR :: name where "CURRENT_DIR \<equiv> [46]"
abbreviation PARENT_DIR :: name where "PARENT_DIR \<equiv> [46, 46]"

record dir_entry =
  inode_sector :: nat
  entry_name :: "byte list"
  in_use :: bool

definition bytes_dir_entry :: "byte list \<Rightarrow> dir_entry" where
  "bytes_dir_entry bs = \<lparr>inode_sector = le32 bs 0, entry_name = take 15 (drop 4 bs), in_use = (bs ! 19 \<noteq> 0)\<rparr>"

definition dir_entry_bytes :: "dir_entry \<Rightarrow> byte list" where
  "dir_entry_bytes e = word_bytes (of_nat (inode_sector e)) @ entry_name e @ [if in_use e then 1 else 0]"

text \<open>The string in an array of bytes, and \<^verbatim>\<open>strlcpy\<close> into the 15 bytes of an entry.\<close>

definition c_str :: "byte list \<Rightarrow> name" where
  "c_str bs = takeWhile (\<lambda>b. b \<noteq> 0) bs"

definition set_name :: "byte list \<Rightarrow> name \<Rightarrow> byte list" where
  "set_name old n = take NAME_MAX n @ [0] @ drop (length (take NAME_MAX n) + 1) old"

section \<open>Opening and closing\<close>

definition dir_open :: "ptr \<Rightarrow> fs \<Rightarrow> (ptr \<times> fs) option" where
  "dir_open p k = (let (d, k) = malloc k in
     if p \<noteq> 0 \<and> d \<noteq> 0 then Some (d, k\<lparr>dirs := (dirs k)(d \<mapsto> \<lparr>d_inode = p, d_pos = 0\<rparr>)\<rparr>)
     else do { k \<leftarrow> inode_close store_free_map p k; Some (0, k) })"

definition dir_open_root :: "fs \<Rightarrow> (ptr \<times> fs) option" where
  "dir_open_root k = do { (p, k) \<leftarrow> inode_open ROOT_DIR_SECTOR k; dir_open p k }"

definition dir_reopen :: "ptr \<Rightarrow> fs \<Rightarrow> (ptr \<times> fs) option" where
  "dir_reopen d k = do { r \<leftarrow> dirs k d; k \<leftarrow> inode_reopen (d_inode r) k; dir_open (d_inode r) k }"

definition dir_close :: "ptr \<Rightarrow> fs \<Rightarrow> fs option" where
  "dir_close d k = (if d = 0 then Some k else do {
     r \<leftarrow> dirs k d;
     k \<leftarrow> inode_close store_free_map (d_inode r) k;
     Some (k\<lparr>dirs := (dirs k)(d := None)\<rparr>) })"

definition dir_get_inode :: "ptr \<Rightarrow> fs \<Rightarrow> ptr option" where
  "dir_get_inode d k = map_option d_inode (dirs k d)"

definition dir_open_current :: "fs \<Rightarrow> (ptr \<times> fs) option" where
  "dir_open_current k = (case cur_pid k of
     Some pid \<Rightarrow> (case map_of (process_dirs k) pid of
         Some d \<Rightarrow> if d \<noteq> 0 then dir_reopen d k else Some (0, k)
       | None \<Rightarrow> None)
   | None \<Rightarrow> dir_open_root k)"

section \<open>Searching\<close>

text \<open>Reading one entry; \<open>None\<close> at the end of the directory.\<close>

definition read_entry :: "ptr \<Rightarrow> int \<Rightarrow> fs \<Rightarrow> (dir_entry option \<times> fs) option" where
  "read_entry p ofs k = do {
     (bs, k) \<leftarrow> inode_read_at p (int DIR_ENTRY_SIZE) ofs k;
     Some (if length bs = DIR_ENTRY_SIZE then Some (bytes_dir_entry bs) else None, k) }"

partial_function (option) lookup_loop :: "ptr \<Rightarrow> name \<Rightarrow> int \<Rightarrow> fs \<Rightarrow> ((dir_entry \<times> int) option \<times> fs) option" where
  "lookup_loop p n ofs k = do {
     (r, k) \<leftarrow> read_entry p ofs k;
     (case r of None \<Rightarrow> Some (None, k)
      | Some e \<Rightarrow> if in_use e \<and> c_str (entry_name e) = n then Some (Some (e, ofs), k)
                  else lookup_loop p n (ofs + int DIR_ENTRY_SIZE) k) }"

definition lookup :: "ptr \<Rightarrow> name \<Rightarrow> fs \<Rightarrow> ((dir_entry \<times> int) option \<times> fs) option" where
  "lookup d n k = do { r \<leftarrow> dirs k d; lookup_loop (d_inode r) n 0 k }"

definition dir_lookup :: "ptr \<Rightarrow> name \<Rightarrow> fs \<Rightarrow> (ptr \<times> fs) option" where
  "dir_lookup d n k = do {
     (r, k) \<leftarrow> lookup d n k;
     (case r of Some (e, _) \<Rightarrow> inode_open (inode_sector e) k | None \<Rightarrow> Some (0, k)) }"

section \<open>Adding\<close>

text \<open>
  The search for a free slot: its offset, and the contents of the local \<^verbatim>\<open>e\<close> when the loop ends (the last entry
  read in full, or what was there before).
\<close>

partial_function (option) free_slot_loop :: "ptr \<Rightarrow> int \<Rightarrow> byte list \<Rightarrow> fs \<Rightarrow> (int \<times> byte list \<times> fs) option" where
  "free_slot_loop p ofs e k = do {
     (bs, k) \<leftarrow> inode_read_at p (int DIR_ENTRY_SIZE) ofs k;
     let e = bs @ drop (length bs) e;
     if length bs = DIR_ENTRY_SIZE \<and> in_use (bytes_dir_entry e) then free_slot_loop p (ofs + int DIR_ENTRY_SIZE) e k
     else Some (ofs, e, k) }"

text \<open>
  \<^verbatim>\<open>dir_add\<close> without the initialisation of a new directory; \<open>junk\<close> is what the uninitialised local \<^verbatim>\<open>e\<close> holds.
\<close>

definition dir_add_entry :: "byte list \<Rightarrow> ptr \<Rightarrow> name \<Rightarrow> nat \<Rightarrow> fs \<Rightarrow> (bool \<times> fs) option" where
  "dir_add_entry junk d n sector k = do {
     r \<leftarrow> dirs k d;
     if n = [] \<or> length n > NAME_MAX then Some (False, k)
     else do {
       (found, k) \<leftarrow> lookup d n k;
       if found \<noteq> None then Some (False, k)
       else do {
         (ofs, e, k) \<leftarrow> free_slot_loop (d_inode r) 0 junk k;
         let new = \<lparr>inode_sector = sector, entry_name = set_name (entry_name (bytes_dir_entry e)) n, in_use = True\<rparr>;
         (written, k) \<leftarrow> inode_write_at store_free_map (d_inode r) (dir_entry_bytes new) ofs k;
         Some (written = int DIR_ENTRY_SIZE, k) } } }"

definition dir_init :: "byte list \<Rightarrow> nat \<Rightarrow> nat \<Rightarrow> fs \<Rightarrow> fs option" where
  "dir_init junk sector parent_sector k = do {
     (p, k) \<leftarrow> inode_open sector k;
     (d, k) \<leftarrow> dir_open p k;
     if d = 0 then Some k
     else do {
       (_, k) \<leftarrow> dir_add_entry junk d CURRENT_DIR sector k;
       (_, k) \<leftarrow> dir_add_entry junk d PARENT_DIR parent_sector k;
       Some k } }"

definition dir_add :: "byte list \<Rightarrow> ptr \<Rightarrow> name \<Rightarrow> nat \<Rightarrow> bool \<Rightarrow> fs \<Rightarrow> (bool \<times> fs) option" where
  "dir_add junk d n sector is_dir k = do {
     (success, k) \<leftarrow> dir_add_entry junk d n sector k;
     k \<leftarrow> (if success \<and> is_dir then do {
            r \<leftarrow> dirs k d;
            parent \<leftarrow> inode_get_sector (d_inode r) k;
            dir_init junk sector parent k }
          else Some k);
     Some (success, k) }"

definition dir_create_root :: "byte list \<Rightarrow> fs \<Rightarrow> (bool \<times> fs) option" where
  "dir_create_root junk k = do {
     (result, k) \<leftarrow> inode_create store_free_map ROOT_DIR_SECTOR 0 True k;
     k \<leftarrow> (if result then dir_init junk ROOT_DIR_SECTOR ROOT_DIR_SECTOR k else Some k);
     Some (result, k) }"

section \<open>Listing\<close>

partial_function (option) dir_readdir :: "ptr \<Rightarrow> fs \<Rightarrow> (name option \<times> fs) option" where
  "dir_readdir d k = do {
     r \<leftarrow> dirs k d;
     (e, k) \<leftarrow> read_entry (d_inode r) (d_pos r) k;
     (case e of None \<Rightarrow> Some (None, k)
      | Some e \<Rightarrow> do {
          let k = k\<lparr>dirs := (dirs k)(d := map_option (\<lambda>r. r\<lparr>d_pos := s32 (d_pos r + int DIR_ENTRY_SIZE)\<rparr>) (dirs k d))\<rparr>;
          if in_use e then Some (Some (take NAME_MAX (c_str (entry_name e))), k) else dir_readdir d k }) }"

partial_function (option) dir_readdir_strict :: "ptr \<Rightarrow> fs \<Rightarrow> (name option \<times> fs) option" where
  "dir_readdir_strict d k = do {
     (r, k) \<leftarrow> dir_readdir d k;
     if r = Some CURRENT_DIR \<or> r = Some PARENT_DIR then dir_readdir_strict d k else Some (r, k) }"

partial_function (option) dir_size_loop :: "ptr \<Rightarrow> nat \<Rightarrow> fs \<Rightarrow> (nat \<times> fs) option" where
  "dir_size_loop d n k = do {
     (r, k) \<leftarrow> dir_readdir_strict d k;
     if r \<noteq> None then dir_size_loop d (n + 1) k else Some (n, k) }"

definition dir_size :: "ptr \<Rightarrow> fs \<Rightarrow> (nat \<times> fs) option" where
  "dir_size d k = do {
     r \<leftarrow> dirs k d;
     (n, k) \<leftarrow> dir_size_loop d 0 k;
     Some (n, k\<lparr>dirs := (dirs k)(d := map_option (\<lambda>r'. r'\<lparr>d_pos := d_pos r\<rparr>) (dirs k d))\<rparr>) }"

declare lookup_loop.simps [code] free_slot_loop.simps [code] dir_readdir.simps [code] dir_readdir_strict.simps [code]
  dir_size_loop.simps [code]

section \<open>Removing\<close>

text \<open>Processes in a removed directory no longer have one (\<^verbatim>\<open>userprog/process.c\<close>).\<close>

definition process_dir_remove :: "ptr \<Rightarrow> fs \<Rightarrow> fs option" where
  "process_dir_remove p k = do {
     sector \<leftarrow> inode_get_sector p k;
     ds \<leftarrow> foldM (\<lambda>ds (pid, d). if d \<noteq> 0 then do {
              q \<leftarrow> dir_get_inode d k;
              s \<leftarrow> inode_get_sector q k;
              Some (ds @ [(pid, if s = sector then 0 else d)]) }
            else Some (ds @ [(pid, d)])) [] (process_dirs k);
     Some (k\<lparr>process_dirs := ds\<rparr>) }"

text \<open>The check of \<^verbatim>\<open>dir_remove\<close> on a directory: \<open>None\<close> when it may be removed, otherwise whether to close the inode.\<close>

definition check_removable :: "ptr \<Rightarrow> fs \<Rightarrow> (bool option \<times> fs) option" where
  "check_removable p k = do {
     (c, k) \<leftarrow> dir_open p k;
     r \<leftarrow> dirs k c;
     s \<leftarrow> inode_get_sector (d_inode r) k;
     if s = ROOT_DIR_SECTOR then Some (Some False, k)
     else do {
       (n, k) \<leftarrow> dir_size c k;
       if n > 0 then do { k \<leftarrow> dir_close c k; Some (Some True, k) }
       else do { k \<leftarrow> dir_close c k; k \<leftarrow> process_dir_remove p k; Some (None, k) } } }"

definition dir_remove :: "ptr \<Rightarrow> name \<Rightarrow> fs \<Rightarrow> (bool \<times> fs) option" where
  "dir_remove d n k = do {
     r \<leftarrow> dirs k d;
     (found, k) \<leftarrow> lookup d n k;
     (case found of None \<Rightarrow> Some (False, k)
      | Some (e, ofs) \<Rightarrow> do {
          (p, k) \<leftarrow> inode_open (inode_sector e) k;
          if p = 0 then Some (False, k)
          else do {
            (is_dir, k) \<leftarrow> inode_is_dir p k;
            (stop, k) \<leftarrow> (if is_dir then check_removable p k else Some (None, k));
            (case stop of
               Some False \<Rightarrow> Some (False, k)
             | Some True \<Rightarrow> do { k \<leftarrow> inode_close store_free_map p k; Some (False, k) }
             | None \<Rightarrow> do {
                 (written, k) \<leftarrow> inode_write_at store_free_map (d_inode r) (dir_entry_bytes (e\<lparr>in_use := False\<rparr>)) ofs k;
                 if written \<noteq> int DIR_ENTRY_SIZE then do { k \<leftarrow> inode_close store_free_map p k; Some (False, k) }
                 else do {
                   k \<leftarrow> inode_remove p k;
                   k \<leftarrow> inode_close store_free_map p k;
                   Some (True, k) } }) } }) }"

end
