(* ===== verification/Filesys.thy ===== *)
theory Filesys
  imports Directory
begin

text \<open>
  The interface of the file system (\<^verbatim>\<open>filesys/filesys.c\<close>): path names, creating, opening and removing, and
  start-up and shutdown.
\<close>

section \<open>Path names\<close>

text \<open>
  The tokens that repeated calls of \<^verbatim>\<open>strtok_r\<close> with the delimiter \<^verbatim>\<open>"/"\<close> deliver: the maximal runs of other
  characters.
\<close>

abbreviation slash :: byte where "slash \<equiv> 47"

function path_tokens :: "name \<Rightarrow> name list" where
  "path_tokens n = (let rest = dropWhile (\<lambda>c. c = slash) n in
     if rest = [] then [] else takeWhile (\<lambda>c. c \<noteq> slash) rest # path_tokens (dropWhile (\<lambda>c. c \<noteq> slash) rest))"
  by pat_completeness auto

termination
proof (relation "measure length", simp)
  fix n :: name and rest
  assume r: "rest = dropWhile (\<lambda>c. c = slash) n" "rest \<noteq> []"
  then have "hd rest \<noteq> slash" using hd_dropWhile by blast
  then have "length (dropWhile (\<lambda>c. c \<noteq> slash) rest) < length rest"
    using r(2) by (cases rest) (auto simp: le_imp_less_Suc length_dropWhile_le)
  also have "length rest \<le> length n" using r(1) length_dropWhile_le by blast
  finally show "(dropWhile (\<lambda>c. c \<noteq> slash) rest, n) \<in> measure length" by simp
qed

declare path_tokens.simps [simp del]

text \<open>The walk through the directories of a path; \<open>None\<close> inside when a component is missing or not a directory.\<close>

fun walk :: "name list \<Rightarrow> ptr \<Rightarrow> fs \<Rightarrow> ((ptr \<times> name) option \<times> fs) option" where
  "walk [] dir k = None"
| "walk [token] dir k =
     (if length token > NAME_MAX then do { k \<leftarrow> dir_close dir k; Some (None, k) } else Some (Some (dir, token), k))"
| "walk (token # next # rest) dir k = do {
     (p, k) \<leftarrow> dir_lookup dir token k;
     k \<leftarrow> dir_close dir k;
     if p = 0 then Some (None, k)
     else do {
       (is_dir, k) \<leftarrow> inode_is_dir p k;
       if is_dir then do { (dir, k) \<leftarrow> dir_open p k; walk (next # rest) dir k }
       else Some (None, k) } }"

definition parse_name :: "name \<Rightarrow> fs \<Rightarrow> ((ptr \<times> name) option \<times> fs) option" where
  "parse_name n k = do {
     ASSERT (\<not> oom k);
     let tokens = path_tokens n;
     if n \<noteq> [] \<and> hd n = slash then do {
       (dir, k) \<leftarrow> dir_open_root k;
       if tokens = [] then Some (Some (dir, CURRENT_DIR), k) else walk tokens dir k }
     else if tokens = [] then Some (None, k)
     else do {
       (dir, k) \<leftarrow> dir_open_current k;
       if dir = 0 then Some (None, k) else walk tokens dir k } }"

section \<open>Operations\<close>

definition filesys_create :: "byte list \<Rightarrow> name \<Rightarrow> int \<Rightarrow> bool \<Rightarrow> fs \<Rightarrow> (bool \<times> fs) option" where
  "filesys_create junk full_name initial_size is_dir k = do {
     (r, k) \<leftarrow> parse_name full_name k;
     (case r of None \<Rightarrow> Some (False, k)
      | Some (dir, n) \<Rightarrow> do {
          (success, sector, k) \<leftarrow> (if dir = 0 then Some (False, 0, k)
            else do {
              (allocated, sectors, k) \<leftarrow> free_map_allocate store_free_map 1 k;
              let sector = (case sectors of [] \<Rightarrow> 0 | s # _ \<Rightarrow> s);
              if \<not> allocated then Some (False, sector, k)
              else do {
                (created, k) \<leftarrow> inode_create store_free_map sector initial_size is_dir k;
                if \<not> created then Some (False, sector, k)
                else do {
                  (added, k) \<leftarrow> dir_add junk dir n sector is_dir k;
                  Some (added, sector, k) } } });
          k \<leftarrow> (if \<not> success \<and> sector \<noteq> 0 then free_map_release store_free_map sector 1 k else Some k);
          k \<leftarrow> dir_close dir k;
          Some (success, k) }) }"

definition filesys_open_internal :: "name \<Rightarrow> fs \<Rightarrow> (ptr \<times> fs) option" where
  "filesys_open_internal full_name k = do {
     (r, k) \<leftarrow> parse_name full_name k;
     (case r of None \<Rightarrow> Some (0, k)
      | Some (dir, n) \<Rightarrow> do {
          (p, k) \<leftarrow> (if dir \<noteq> 0 then dir_lookup dir n k else Some (0, k));
          k \<leftarrow> dir_close dir k;
          Some (p, k) }) }"

definition filesys_open :: "name \<Rightarrow> fs \<Rightarrow> (ptr \<times> fs) option" where
  "filesys_open n k = do {
     (p, k) \<leftarrow> filesys_open_internal n k;
     (is_dir, k) \<leftarrow> inode_is_dir p k;
     if p \<noteq> 0 \<and> \<not> is_dir then file_open p k else Some (0, k) }"

definition filesys_open_dir :: "name \<Rightarrow> fs \<Rightarrow> (ptr \<times> fs) option" where
  "filesys_open_dir n k = do {
     (p, k) \<leftarrow> filesys_open_internal n k;
     (is_dir, k) \<leftarrow> inode_is_dir p k;
     if p \<noteq> 0 \<and> is_dir then dir_open p k else Some (0, k) }"

definition filesys_remove :: "name \<Rightarrow> fs \<Rightarrow> (bool \<times> fs) option" where
  "filesys_remove full_name k = do {
     (r, k) \<leftarrow> parse_name full_name k;
     (case r of None \<Rightarrow> Some (False, k)
      | Some (dir, n) \<Rightarrow> do {
          (success, k) \<leftarrow> (if dir \<noteq> 0 then dir_remove dir n k else Some (False, k));
          k \<leftarrow> dir_close dir k;
          Some (success, k) }) }"

section \<open>Start-up and shutdown\<close>

definition do_format :: "byte list \<Rightarrow> fs \<Rightarrow> fs option" where
  "do_format junk k = do {
     k \<leftarrow> free_map_create k;
     (success, k) \<leftarrow> dir_create_root junk k;
     ASSERT success;
     free_map_close k }"

definition filesys_init :: "byte list \<Rightarrow> bool \<Rightarrow> fs \<Rightarrow> fs option" where
  "filesys_init junk format k = do {
     b \<leftarrow> block_get_role BLOCK_FILESYS (dev (bc k));
     let k = k\<lparr>bc := (bc k)\<lparr>fs_device := b\<rparr>\<rparr>;
     ASSERT (b \<noteq> 0);
     k \<leftarrow> free_map_init (inode_init k);
     k \<leftarrow> (if format then do_format junk k else Some k);
     free_map_open k }"

definition filesys_done :: "fs \<Rightarrow> fs option" where
  "filesys_done k = do { k \<leftarrow> cache_do write_cache_to_disk k; free_map_close k }"

end
