(* ===== verification/Inode_Files.thy ===== *)
theory Inode_Files
  imports Open_File
begin

text \<open>
  What an inode stores: the bytes of a file as the concatenation of its data sectors, found through the direct,
  indirect and doubly indirect blocks. Reading returns these bytes, and writing within the length of the file changes
  exactly the bytes written.
\<close>

section \<open>Steps that leave the disk alone\<close>

abbreviation disk :: "fs \<Rightarrow> nat \<Rightarrow> byte list" where "disk k \<equiv> contents (bc k)"
abbreviation disk_size :: "fs \<Rightarrow> nat" where "disk_size k \<equiv> fs_size (bc k)"

definition fs_ok :: "fs \<Rightarrow> bool" where
  "fs_ok k \<longleftrightarrow> cache_ok (bc k) \<and> \<not> oom k"

text \<open>Only the cache changes, and reads and writes still see the same device.\<close>

definition cache_step :: "fs \<Rightarrow> fs \<Rightarrow> bool" where
  "cache_step k k' \<longleftrightarrow> (\<exists>c. k' = k\<lparr>bc := c\<rparr> \<and> cache_ok c \<and> cache_frame (bc k) c)"

definition quiet_step :: "fs \<Rightarrow> fs \<Rightarrow> bool" where
  "quiet_step k k' \<longleftrightarrow> cache_step k k' \<and> disk k' = disk k"

lemma cache_stepD:
  assumes "cache_step k k'"
  shows "inodes k' = inodes k" "open_inodes k' = open_inodes k" "files k' = files k" "dirs k' = dirs k" "free_map k' = free_map k"
    "free_map_file k' = free_map_file k" "next_ptr k' = next_ptr k" "oom k' = oom k" "disk_size k' = disk_size k" "cache_ok (bc k')"
    "process_dirs k' = process_dirs k" "cur_pid k' = cur_pid k"
  using assms cache_frame_size by (auto simp: cache_step_def)

lemma cache_step_ok: "cache_step k k' \<Longrightarrow> fs_ok k \<Longrightarrow> fs_ok k'"
  using cache_stepD(8,10) by (simp add: fs_ok_def)

lemma cache_step_refl: "fs_ok k \<Longrightarrow> cache_step k k"
  by (auto simp: cache_step_def fs_ok_def intro!: exI [of _ "bc k"])

lemma cache_step_trans: "cache_step k k' \<Longrightarrow> cache_step k' k'' \<Longrightarrow> cache_step k k''"
  unfolding cache_step_def using cache_frame_trans by fastforce

lemma quiet_stepD:
  assumes "quiet_step k k'"
  shows "cache_step k k'" "disk k' = disk k" "inodes k' = inodes k" "disk_size k' = disk_size k"
  using assms cache_stepD by (auto simp: quiet_step_def)

lemma quiet_step_ok: "quiet_step k k' \<Longrightarrow> fs_ok k \<Longrightarrow> fs_ok k'"
  unfolding quiet_step_def using cache_step_ok by blast

lemma quiet_step_refl: "fs_ok k \<Longrightarrow> quiet_step k k"
  by (simp add: quiet_step_def cache_step_refl)

lemma quiet_step_trans: "quiet_step k k' \<Longrightarrow> quiet_step k' k'' \<Longrightarrow> quiet_step k k''"
  unfolding quiet_step_def using cache_step_trans by auto

lemma cache_read_step:
  assumes "fs_ok k" "s < disk_size k" "n + m \<le> BLOCK_SECTOR_SIZE"
  shows "\<exists>k'. on_cache (cache_read_partial s n m) k = Some (take m (drop n (disk k s)), k') \<and> quiet_step k k'"
  using cache_read_partial_ok [of "bc k" s n m] assms
  by (auto simp: on_cache_def fs_ok_def quiet_step_def cache_step_def)

lemma cache_read_sector:
  assumes "fs_ok k" "s < disk_size k"
  shows "\<exists>k'. on_cache (cache_read s) k = Some (disk k s, k') \<and> quiet_step k k'"
  using cache_read_step [OF assms, of 0 512] contents_length [of "bc k" s] assms
  by (auto simp: cache_read_def fs_ok_def)

lemma cache_async_step:
  assumes "fs_ok k"
  shows "\<exists>k'. cache_do (\<lambda>c. Some (cache_read_async s c)) k = Some k' \<and> quiet_step k k'"
  using cache_read_async_ok [of "bc k" s] assms by (auto simp: cache_do_def fs_ok_def quiet_step_def cache_step_def)

lemma cache_write_step:
  assumes "fs_ok k" "s < disk_size k" "n + length buf \<le> BLOCK_SECTOR_SIZE"
  shows "\<exists>k'. cache_do (cache_write_partial s buf n) k = Some k' \<and> cache_step k k' \<and> disk k' = (disk k)(s := patch n buf (disk k s))"
  using cache_write_partial_ok [of "bc k" s n buf] assms
  by (fastforce simp: cache_do_def fs_ok_def cache_step_def)

lemma cache_write_sector:
  assumes "fs_ok k" "s < disk_size k" "length buf = BLOCK_SECTOR_SIZE"
  shows "\<exists>k'. cache_do (cache_write s buf) k = Some k' \<and> cache_step k k' \<and> disk k' = (disk k)(s := buf)"
  using cache_write_step [OF assms(1,2), of 0 buf] assms contents_length [of "bc k" s]
  by (simp add: cache_write_def patch_def fs_ok_def)

lemma disk_length: "fs_ok k \<Longrightarrow> s < disk_size k \<Longrightarrow> length (disk k s) = BLOCK_SECTOR_SIZE"
  by (simp add: contents_length fs_ok_def)

section \<open>The layout of an inode\<close>

lemma length_bytes_elems: "length bs = 4 * n \<Longrightarrow> length (bytes_elems bs) = n"
proof (induction n arbitrary: bs)
  case (Suc n)
  then obtain a b c d r where "bs = a # b # c # d # r" "length r = 4 * n"
    by (auto simp: length_Suc_conv numeral_eq_Suc)
  then show ?case using Suc.IH by simp
qed simp

lemma length_sector_words: "length bs = BLOCK_SECTOR_SIZE \<Longrightarrow> length (sector_words bs) = 128"
  using length_bytes_elems [of bs 128] by (simp add: sector_words_def)

lemma sector_words_elems: "\<forall>n\<in>set ns. n < 2 ^ 32 \<Longrightarrow> sector_words (elems_bytes (map of_nat ns)) = ns"
  by (simp add: sector_words_def bytes_elems_bytes comp_def unat_of_nat map_idI)

lemma unat_32_less: "unat (w :: 32 word) < 4294967296"
proof -
  have "unat w < 2 ^ LENGTH(32)" by (rule unsigned_less)
  then show ?thesis by simp
qed

lemma sector_words_less: "w \<in> set (sector_words bs) \<Longrightarrow> w < 2 ^ 32"
  by (auto simp: sector_words_def unat_32_less)

text \<open>The fields have the ranges of their C types.\<close>

definition inode_disk_ok :: "inode_disk \<Rightarrow> bool" where
  "inode_disk_ok i \<longleftrightarrow> - (2 ^ 31) \<le> id_length i \<and> id_length i < 2 ^ 31 \<and> length (dblocks i) = 12 \<and> length (id_unused i) = 111 \<and>
     (\<forall>n\<in>set (dblocks i) \<union> set (id_unused i) \<union> {indblock i, doubly_indblock i, id_magic i}. n < 2 ^ 32)"

lemma length_inode_disk_bytes: "inode_disk_ok i \<Longrightarrow> length (inode_disk_bytes i) = BLOCK_SECTOR_SIZE"
  by (simp add: inode_disk_bytes_def inode_disk_ok_def)

lemma word_bytes_nth0: "word_bytes w ! 0 = ucast w"
  by (simp add: word_bytes_def)

lemma inode_disk_roundtrip:
  assumes "inode_disk_ok i"
  shows "bytes_inode_disk (inode_disk_bytes i) = i"
proof -
  let ?ws = "[word_of_int (id_length i), if id_is_dir i then 1 else 0] @ map of_nat (dblocks i) @
      [of_nat (indblock i), of_nat (doubly_indblock i), of_nat (id_magic i)] @ map of_nat (id_unused i) :: 32 word list"
  have ws: "bytes_elems (inode_disk_bytes i) = ?ws" by (simp only: inode_disk_bytes_def bytes_elems_bytes)
  have l: "length (dblocks i) = 12" "length (id_unused i) = 111" using assms by (simp_all add: inode_disk_ok_def)
  have ns: "map unat ?ws = unat (word_of_int (id_length i) :: 32 word) # (if id_is_dir i then 1 else 0) # dblocks i @
      [indblock i, doubly_indblock i, id_magic i] @ id_unused i"
    using assms by (auto simp: inode_disk_ok_def unat_of_nat comp_def intro!: map_idI)
  have "inode_disk_bytes i ! 4 = ucast (if id_is_dir i then 1 else 0 :: 32 word)"
    by (simp add: inode_disk_bytes_def elems_bytes_def nth_append word_bytes_nth0)
  then have "(inode_disk_bytes i ! 4 \<noteq> 0) = id_is_dir i" by simp
  moreover have "sint (word_of_int (id_length i) :: 32 word) = id_length i"
    using assms by (simp add: inode_disk_ok_def signed_of_int signed_take_bit_int_eq_self)
  ultimately show ?thesis
    unfolding bytes_inode_disk_def ws ns Let_def by (simp add: l nth_append)
qed

lemma bytes_inode_disk_ok:
  assumes "length bs = BLOCK_SECTOR_SIZE"
  shows "inode_disk_ok (bytes_inode_disk bs)"
proof -
  have l: "length (bytes_elems bs) = 128" using length_bytes_elems [of bs 128] assms by simp
  define ns where "ns = map unat (bytes_elems bs)"
  have u: "n < 2 ^ 32" if "n \<in> set ns" for n using that by (auto simp: ns_def unat_32_less)
  have "\<forall>n\<in>set (take 12 (drop 2 ns)). n < 2 ^ 32" "\<forall>n\<in>set (drop 17 ns). n < 2 ^ 32"
    using u by (meson in_set_takeD in_set_dropD)+
  moreover have "ns ! 14 < 2 ^ 32" "ns ! 15 < 2 ^ 32" "ns ! 16 < 2 ^ 32" using l unat_32_less by (simp_all add: ns_def)
  moreover have "length ns = 128" by (simp add: ns_def l)
  ultimately show ?thesis
    using sint_range_size [of "bytes_elems bs ! 0"]
    by (simp add: bytes_inode_disk_def inode_disk_ok_def Let_def word_size ball_Un flip: ns_def)
qed

section \<open>The bytes of a file\<close>

text \<open>The sector of the \<open>n\<close>-th block of a file on the disk \<open>D\<close>, through the tables of the inode.\<close>

definition bmap :: "(nat \<Rightarrow> byte list) \<Rightarrow> inode_disk \<Rightarrow> nat \<Rightarrow> nat" where
  "bmap D i n =
     (if n < 12 then dblocks i ! n
      else if n < 140 then sector_words (D (indblock i)) ! (n - 12)
      else sector_words (D (sector_words (D (doubly_indblock i)) ! ((n - 140) div 128))) ! ((n - 140) mod 128))"

text \<open>The sectors of the tables that lead to the \<open>n\<close>-th block.\<close>

definition tables :: "(nat \<Rightarrow> byte list) \<Rightarrow> inode_disk \<Rightarrow> nat \<Rightarrow> nat list" where
  "tables D i n =
     (if n < 12 then [] else if n < 140 then [indblock i]
      else if n < 16524 then [doubly_indblock i, sector_words (D (doubly_indblock i)) ! ((n - 140) div 128)] else [])"

definition n_sectors :: "inode_disk \<Rightarrow> nat" where
  "n_sectors i = bytes_to_data_sectors (id_length i)"

definition data_sectors :: "(nat \<Rightarrow> byte list) \<Rightarrow> inode_disk \<Rightarrow> nat list" where
  "data_sectors D i = map (bmap D i) [0..<n_sectors i]"

definition meta_sectors :: "(nat \<Rightarrow> byte list) \<Rightarrow> inode_disk \<Rightarrow> nat list" where
  "meta_sectors D i = concat (map (tables D i) [0..<n_sectors i])"

definition file_bytes :: "(nat \<Rightarrow> byte list) \<Rightarrow> inode_disk \<Rightarrow> byte list" where
  "file_bytes D i = take (nat (id_length i)) (concat (map D (data_sectors D i)))"

text \<open>
  A file whose inode is in sector \<open>s\<close> of a disk with \<open>z\<close> sectors: its blocks are distinct sectors of the disk,
  and none of them is the sector of the inode or of a table; the inode is not in a table.
\<close>

definition file_ok :: "nat \<Rightarrow> (nat \<Rightarrow> byte list) \<Rightarrow> nat \<Rightarrow> inode_disk \<Rightarrow> bool" where
  "file_ok z D s i \<longleftrightarrow> bytes_inode_disk (D s) = i \<and> 0 \<le> id_length i \<and> id_length i \<le> 8460288 \<and> s < z \<and>
     distinct (data_sectors D i) \<and> set (data_sectors D i) \<inter> insert s (set (meta_sectors D i)) = {} \<and>
     s \<notin> set (meta_sectors D i) \<and> (\<forall>x\<in>set (data_sectors D i) \<union> set (meta_sectors D i). x < z)"

lemma bytes_to_data_sectors_eq:
  assumes "0 \<le> len" "len < 2 ^ 31 - 511"
  shows "bytes_to_data_sectors len = nat ((len + 511) div 512)"
proof -
  have "(len + 511) div 512 \<le> 2 ^ 31" using assms by simp
  then show ?thesis using assms by (simp add: bytes_to_data_sectors_def signed_divide_int_def)
qed

lemma file_okD:
  assumes "file_ok z D s i"
  shows "bytes_inode_disk (D s) = i" "0 \<le> id_length i" "id_length i \<le> 8460288" "s < z" "distinct (data_sectors D i)"
    "set (data_sectors D i) \<inter> insert s (set (meta_sectors D i)) = {}" "n_sectors i \<le> 16524"
    "x \<in> set (data_sectors D i) \<Longrightarrow> x < z" "x \<in> set (meta_sectors D i) \<Longrightarrow> x < z"
    "id_length i \<le> 512 * int (n_sectors i)" "0 \<le> o' \<Longrightarrow> o' < id_length i \<Longrightarrow> nat (o' div 512) < n_sectors i"
    "s \<notin> set (meta_sectors D i)"
proof -
  note a = assms [unfolded file_ok_def]
  then show "bytes_inode_disk (D s) = i" "0 \<le> id_length i" "id_length i \<le> 8460288" "s < z" "distinct (data_sectors D i)"
    "set (data_sectors D i) \<inter> insert s (set (meta_sectors D i)) = {}" "x \<in> set (data_sectors D i) \<Longrightarrow> x < z"
    "x \<in> set (meta_sectors D i) \<Longrightarrow> x < z" "s \<notin> set (meta_sectors D i)" by blast+
  have n: "n_sectors i = nat ((id_length i + 511) div 512)" using a by (simp add: n_sectors_def bytes_to_data_sectors_eq)
  show "n_sectors i \<le> 16524" "id_length i \<le> 512 * int (n_sectors i)"
    "0 \<le> o' \<Longrightarrow> o' < id_length i \<Longrightarrow> nat (o' div 512) < n_sectors i" using a unfolding n by linarith+
qed

lemma bmap_less:
  assumes "file_ok z D s i" "n < n_sectors i"
  shows "bmap D i n < z"
  using file_okD(8) [OF assms(1), of "bmap D i n"] assms(2) by (simp add: data_sectors_def)

lemma tables_less:
  assumes "file_ok z D s i" "n < n_sectors i" "x \<in> set (tables D i n)"
  shows "x < z"
  using file_okD(9) [OF assms(1), of x] assms(2,3) by (force simp: meta_sectors_def)

lemma read_words_step:
  assumes "fs_ok k" "s < disk_size k"
  shows "\<exists>k'. read_words s k = Some (sector_words (disk k s), k') \<and> quiet_step k k'"
  using cache_read_sector [OF assms] assms(1) by (auto simp: read_words_def fs_ok_def)

lemma byte_to_sector_step:
  assumes k: "fs_ok k" and pos: "0 \<le> pos" "pos < 2 ^ 31" and n: "n = nat (pos div 512)"
    and t: "\<forall>x\<in>set (tables (disk k) i n). x < disk_size k"
  shows "\<exists>x k'. byte_to_sector i pos k = Some (x, k') \<and> quiet_step k k' \<and> (n < 16524 \<longrightarrow> x = bmap (disk k) i n)"
proof -
  have "pos div 512 < 2 ^ 32" "0 \<le> pos div 512" using pos by simp_all
  then have e: "nat ((pos sdiv 512) mod 4294967296) = n" using n pos
    by (cases "pos = 0") (simp_all add: signed_divide_int_def)
  consider "n < 12" | "12 \<le> n" "n < 140" | "140 \<le> n" "n < 16524" | "16524 \<le> n" by linarith
  then show ?thesis
  proof cases
    case 1
    then show ?thesis using quiet_step_refl [OF k] by (auto simp: byte_to_sector_def Let_def e bmap_def)
  next
    case 2
    then obtain k' where "read_words (indblock i) k = Some (sector_words (disk k (indblock i)), k')" "quiet_step k k'"
      using read_words_step [OF k, of "indblock i"] t by (auto simp: tables_def)
    then show ?thesis using 2 by (auto simp: byte_to_sector_def Let_def e bmap_def)
  next
    case 3
    let ?w = "sector_words (disk k (doubly_indblock i))" let ?x = "?w ! ((n - 140) div 128)"
    have t': "doubly_indblock i < disk_size k" "?x < disk_size k" using t 3 by (simp_all add: tables_def)
    obtain k1 where k1: "read_words (doubly_indblock i) k = Some (?w, k1)" "quiet_step k k1"
      using read_words_step [OF k t'(1)] by blast
    obtain k2 where k2: "read_words ?x k1 = Some (sector_words (disk k ?x), k2)" "quiet_step k1 k2"
      using read_words_step [OF quiet_step_ok [OF k1(2) k], of ?x] t'(2) quiet_stepD(2,4) [OF k1(2)] by auto
    have c: "\<not> n < 12" "\<not> n - 12 < 128" "\<not> n < 140" "n - 140 < 16384" using 3 by simp_all
    have "byte_to_sector i pos k = Some (bmap (disk k) i n, k2)"
      using c k1(1) k2(1) by (simp add: byte_to_sector_def Let_def e bmap_def)
    then show ?thesis using quiet_step_trans [OF k1(2) k2(2)] by blast
  next
    case 4
    then show ?thesis using quiet_step_refl [OF k] by (auto simp: byte_to_sector_def Let_def e)
  qed
qed

lemma inode_get_data_step:
  assumes "fs_ok k" "inodes k p = Some m" "i_sector m < disk_size k"
  shows "\<exists>k'. inode_get_data p k = Some (bytes_inode_disk (disk k (i_sector m)), k') \<and> quiet_step k k'"
  using cache_read_sector [OF assms(1,3)] assms(1,2) by (auto simp: inode_get_data_def fs_ok_def)

lemma inode_length_step:
  assumes "fs_ok k" "inodes k p = Some m" "file_ok (disk_size k) (disk k) (i_sector m) i"
  shows "\<exists>k'. inode_length p k = Some (id_length i, k') \<and> quiet_step k k'"
  using inode_get_data_step [OF assms(1,2)] file_okD(1,4) [OF assms(3)] by (auto simp: inode_length_def)

lemma take_drop_concat:
  assumes "\<forall>x\<in>set xs. length x = b" "j < length xs" "r + c \<le> b"
  shows "take c (drop (j * b + r) (concat xs)) = take c (drop r (xs ! j))"
  using assms
proof (induction xs arbitrary: j)
  case (Cons x xs)
  then show ?case by (cases j) (simp_all add: algebra_simps)
qed simp

lemma length_concat_same: "\<forall>x\<in>set xs. length x = b \<Longrightarrow> length (concat xs) = length xs * b"
  by (induction xs) simp_all

lemma length_file_bytes:
  assumes "fs_ok k" "file_ok (disk_size k) (disk k) s i"
  shows "length (file_bytes (disk k) i) = nat (id_length i)"
proof -
  have "\<forall>x\<in>set (map (disk k) (data_sectors (disk k) i)). length x = 512"
    using disk_length [OF assms(1)] file_okD(8) [OF assms(2)] by auto
  from length_concat_same [OF this] show ?thesis
    using file_okD(10) [OF assms(2)] by (simp add: file_bytes_def data_sectors_def)
qed

lemma file_bytes_chunk:
  assumes "fs_ok k" "file_ok (disk_size k) (disk k) s i" "c \<le> 512 - q mod 512" "int (q + c) \<le> id_length i" "0 < c"
  shows "take c (drop q (file_bytes (disk k) i)) = take c (drop (q mod 512) (disk k (bmap (disk k) i (q div 512))))"
proof -
  let ?xs = "map (disk k) (data_sectors (disk k) i)"
  have l: "\<forall>x\<in>set ?xs. length x = 512" using disk_length [OF assms(1)] file_okD(8) [OF assms(2)] by auto
  have j: "q div 512 < n_sectors i" using file_okD(11) [OF assms(2), of "int q"] assms(4,5) by (simp add: zdiv_int [symmetric])
  have m: "q mod 512 + c \<le> 512" using assms(3) mod_less_divisor [of 512 q] by linarith
  have "take c (drop q (concat ?xs)) = take c (drop (q mod 512) (?xs ! (q div 512)))"
    using take_drop_concat [OF l, of "q div 512" "q mod 512" c] j m by (simp add: data_sectors_def)
  moreover have "take c (drop q (file_bytes (disk k) i)) = take c (drop q (concat ?xs))"
  proof -
    have "c \<le> nat (id_length i) - q" using assms(4) by linarith
    then show ?thesis by (simp add: file_bytes_def drop_take min_absorb1)
  qed
  ultimately show ?thesis using j by (simp add: data_sectors_def)
qed

lemma smod_pos: "0 \<le> a \<Longrightarrow> (a :: int) smod 512 = a mod 512"
  by (cases "a = 0") (simp_all add: signed_modulo_int_def)

lemma chunk_size_eq:
  assumes "0 \<le> q" "q < 2 ^ 31" "0 \<le> len" "len < 2 ^ 31"
  shows "chunk_size len q todo = min todo (min (len - q) (512 - q mod 512))"
  using assms by (simp add: chunk_size_def smod_pos)


lemma mapped_tables:
  assumes "file_ok z D s i" "0 \<le> q" "q < id_length i"
  shows "\<forall>x\<in>set (tables D i (nat (q div 512))). x < z"
  using tables_less [OF assms(1) file_okD(11) [OF assms]] by blast

lemma read_ahead_step:
  assumes "fs_ok k" "file_ok (disk_size k) (disk k) s i" "0 \<le> q"
  shows "\<exists>k'. (if b \<and> id_length i - q > 0 then do {
       (ahead, k) \<leftarrow> byte_to_sector i q k; cache_do (\<lambda>c. Some (cache_read_async ahead c)) k } else Some k) = Some k' \<and> quiet_step k k'"
proof (cases "b \<and> q < id_length i")
  case True
  then obtain y k' where k': "byte_to_sector i q k = Some (y, k')" "quiet_step k k'"
    using byte_to_sector_step [OF assms(1,3) _ refl mapped_tables [OF assms(2,3)]] file_okD(3) [OF assms(2)] by auto
  obtain k'' where "cache_do (\<lambda>c. Some (cache_read_async y c)) k' = Some k''" "quiet_step k' k''"
    using cache_async_step [OF quiet_step_ok [OF k'(2) assms(1)]] by blast
  then show ?thesis using k' True quiet_step_trans by auto
next
  case False
  then show ?thesis using quiet_step_refl [OF assms(1)] by auto
qed

text \<open>A round of the loop appends the next bytes of the file.\<close>

lemma inode_read_round:
  assumes ok: "fs_ok k" and m: "inodes k p = Some m" and fok: "file_ok (disk_size k) (disk k) (i_sector m) i"
    and q: "0 \<le> q" "q < id_length i" and todo: "0 < todo" and c: "c = min todo (min (id_length i - q) (512 - q mod 512))"
  shows "\<exists>k'. inode_read_loop (Suc n) p i todo q buf k =
       inode_read_loop n p i (todo - c) (q + c) (buf @ take (nat c) (drop (nat q) (file_bytes (disk k) i))) k' \<and> quiet_step k k'"
proof -
  note len = file_okD(2,3) [OF fok]
  have q31: "q < 2 ^ 31" using q len by simp
  have cpos: "0 < c" "q + c \<le> id_length i" "c \<le> 512 - q mod 512" "c \<le> todo" unfolding c using q todo by auto
  have e: "chunk_size (id_length i) q todo = c" "s32 (q + c) = q + c" "s32 (id_length i - (q + c)) = id_length i - (q + c)" "\<not> c \<le> 0" "0 \<le> q smod 512"
    using chunk_size_eq [OF q(1) q31, of "id_length i" todo] cpos q len by (simp_all add: c [symmetric] smod_pos)
  have ns: "nat (q div 512) < n_sectors i" by (rule file_okD(11) [OF fok q])
  define x where "x = bmap (disk k) i (nat (q div 512))"
  obtain k1 where k1: "byte_to_sector i q k = Some (x, k1)" "quiet_step k k1"
    using byte_to_sector_step [OF ok q(1) q31 refl mapped_tables [OF fok q]] ns file_okD(7) [OF fok] by (auto simp: x_def)
  note q1 = quiet_stepD [OF k1(2)] and ok1 = quiet_step_ok [OF k1(2) ok]
  obtain k2 where k2: "inode_length p k1 = Some (id_length i, k2)" "quiet_step k1 k2"
    using inode_length_step [OF ok1, of p m i] m fok by (auto simp: q1)
  note s2 = quiet_step_trans [OF k1(2) k2(2)]
  note q2 = quiet_stepD [OF s2] and ok2 = quiet_step_ok [OF s2 ok]
  obtain k3 where k3: "inode_length p k2 = Some (id_length i, k3)" "quiet_step k2 k3"
    using inode_length_step [OF ok2, of p m i] m fok by (auto simp: q2)
  note s3 = quiet_step_trans [OF s2 k3(2)]
  note q3 = quiet_stepD [OF s3] and ok3 = quiet_step_ok [OF s3 ok]
  obtain k4 where k4: "(if todo - c > 0 \<and> id_length i - (q + c) > 0 then do {
       (ahead, k) \<leftarrow> byte_to_sector i (q + c) k3; cache_do (\<lambda>c. Some (cache_read_async ahead c)) k } else Some k3) = Some k4" "quiet_step k3 k4"
    using read_ahead_step [OF ok3, of "i_sector m" i "q + c" "todo - c > 0"] fok q(1) cpos(1) by (auto simp: q3)
  note s4 = quiet_step_trans [OF s3 k4(2)]
  note q4 = quiet_stepD [OF s4] and ok4 = quiet_step_ok [OF s4 ok]
  have m512: "nat (q mod 512) + nat c \<le> 512" using cpos(1,3) by (simp add: nat_add_distrib [symmetric])
  obtain k5 where k5: "on_cache (cache_read_partial x (nat (q smod 512)) (nat c)) k4 =
      Some (take (nat c) (drop (nat (q mod 512)) (disk k x)), k5)" "quiet_step k4 k5"
    using cache_read_step [OF ok4, of x "nat (q mod 512)" "nat c"] bmap_less [OF fok ns] m512 q(1)
    by (auto simp: x_def q4 smod_pos)
  have "take (nat c) (drop (nat q) (file_bytes (disk k) i)) = take (nat c) (drop (nat (q mod 512)) (disk k x))"
    using file_bytes_chunk [OF ok fok, of "nat c" "nat q"] m512 cpos(1,2) q(1) by (simp add: x_def nat_mod_distrib nat_div_distrib)
  then show ?thesis
    using todo k1(1) k2(1) k3(1) k4(1) k5(1) quiet_step_trans [OF s4 k5(2)] by (auto simp: e Let_def split del: if_split)
qed


lemma inode_read_loop_ok:
  assumes "fs_ok k" "inodes k p = Some m" "file_ok (disk_size k) (disk k) (i_sector m) i"
    "0 \<le> q" "q < 2 ^ 31" "todo \<le> int n"
    "q + todo \<le> id_length i \<or> (\<forall>x\<in>set (tables (disk k) i (nat (max q (id_length i) div 512))). x < disk_size k)"
  shows "\<exists>k'. inode_read_loop n p i todo q buf k = Some (buf @ take (nat todo) (drop (nat q) (file_bytes (disk k) i)), k') \<and> quiet_step k k'"
  using assms
proof (induction n arbitrary: todo q buf k)
  case 0
  then show ?case using quiet_step_refl by simp
next
  case (Suc n)
  note ok = Suc.prems(1) and fok = Suc.prems(3)
  note len = file_okD(2,3) [OF fok]
  consider "todo \<le> 0" | "0 < todo" "id_length i \<le> q" | "0 < todo" "q < id_length i" by linarith
  then show ?case
  proof cases
    case 1
    then show ?thesis using quiet_step_refl [OF ok] by simp
  next
    case 2
    then have t: "\<forall>x\<in>set (tables (disk k) i (nat (q div 512))). x < disk_size k" using Suc.prems(7) by (simp add: max_def)
    obtain x k1 where k1: "byte_to_sector i q k = Some (x, k1)" "quiet_step k k1"
      using byte_to_sector_step [OF ok Suc.prems(4,5) refl t] by blast
    obtain k2 where k2: "inode_length p k1 = Some (id_length i, k2)" "quiet_step k1 k2"
      using inode_length_step [OF quiet_step_ok [OF k1(2) ok], of p m i] Suc.prems(2) fok by (auto simp: quiet_stepD [OF k1(2)])
    have "chunk_size (id_length i) q todo \<le> 0" using chunk_size_eq [OF Suc.prems(4,5), of "id_length i" todo] len 2 by simp
    then show ?thesis using k1(1) k2(1) quiet_step_trans [OF k1(2) k2(2)] 2 length_file_bytes [OF ok fok] by simp
  next
    case 3
    define c where "c = min todo (min (id_length i - q) (512 - q mod 512))"
    have c: "0 < c" "q + c \<le> id_length i" "c \<le> todo" unfolding c_def using 3 by auto
    let ?F = "file_bytes (disk k) i" let ?buf = "buf @ take (nat c) (drop (nat q) ?F)"
    obtain k1 where k1: "inode_read_loop (Suc n) p i todo q buf k = inode_read_loop n p i (todo - c) (q + c) ?buf k1" "quiet_step k k1"
      using inode_read_round [OF ok Suc.prems(2) fok Suc.prems(4) 3(2,1) c_def] by blast
    note q1 = quiet_stepD [OF k1(2)] and ok1 = quiet_step_ok [OF k1(2) ok]
    have mx: "max (q + c) (id_length i) = max q (id_length i)" using c 3 by simp
    obtain k2 where k2: "inode_read_loop n p i (todo - c) (q + c) ?buf k1 = Some (?buf @ take (nat (todo - c)) (drop (nat (q + c)) ?F), k2)" "quiet_step k1 k2"
      using Suc.IH [OF ok1, of "q + c" "todo - c" ?buf] Suc.prems c len by (auto simp: q1 mx)
    have "nat todo = nat c + nat (todo - c)" "nat (q + c) = nat q + nat c" using c Suc.prems(4) by linarith+
    then have "?buf @ take (nat (todo - c)) (drop (nat (q + c)) ?F) = buf @ take (nat todo) (drop (nat q) ?F)"
      by (simp add: take_add add.commute)
    then show ?thesis using k1(1) k2(1) quiet_step_trans [OF k1(2) k2(2)] by auto
  qed
qed

section \<open>Writing within a file\<close>

lemma tables_cong:
  assumes "\<forall>x\<in>set (tables D i n). D' x = D x"
  shows "tables D' i n = tables D i n" "n < 16524 \<Longrightarrow> bmap D' i n = bmap D i n"
  using assms by (auto simp: tables_def bmap_def split: if_splits)

lemma data_frame:
  assumes ok: "file_ok z D s i" and f: "\<And>x. x \<notin> set (data_sectors D i) \<Longrightarrow> D' x = D x"
  shows "data_sectors D' i = data_sectors D i" "meta_sectors D' i = meta_sectors D i" "file_ok z D' s i"
proof -
  note d = file_okD(6) [OF ok]
  have s: "D' s = D s" using d f by blast
  have "D' x = D x" if "n < n_sectors i" "x \<in> set (tables D i n)" for n x
  proof -
    have "x \<in> set (meta_sectors D i)" using that by (auto simp: meta_sectors_def)
    then show ?thesis using d f by blast
  qed
  then have "tables D' i n = tables D i n" "bmap D' i n = bmap D i n" if "n < n_sectors i" for n
    using tables_cong [of D i n D'] that file_okD(7) [OF ok] by simp_all
  then show e: "data_sectors D' i = data_sectors D i" "meta_sectors D' i = meta_sectors D i"
    by (auto simp: data_sectors_def meta_sectors_def intro!: arg_cong [where f = concat])
  show "file_ok z D' s i" using ok s by (simp add: file_ok_def e)
qed

lemma concat_patch:
  assumes "\<forall>x\<in>set xs. length x = b" "j < length xs" "r + length ch \<le> b"
  shows "concat (xs[j := patch r ch (xs ! j)]) = patch (j * b + r) ch (concat xs)"
  using assms
proof (induction xs arbitrary: j)
  case (Cons x xs)
  show ?case
  proof (cases j)
    case 0
    then show ?thesis using Cons.prems by (simp add: patch_def)
  next
    case (Suc j')
    then have "concat (xs[j' := patch r ch (xs ! j')]) = patch (j' * b + r) ch (concat xs)" using Cons by simp
    then show ?thesis using Suc Cons.prems by (simp add: patch_def add.assoc)
  qed
qed simp

lemma take_patch: "q + length ch \<le> n \<Longrightarrow> n \<le> length xs \<Longrightarrow> take n (patch q ch xs) = patch q ch (take n xs)"
  by (cases "n = q") (auto simp: patch_def drop_take min_def)

lemma patch_append:
  assumes "q + length a + length b \<le> length xs"
  shows "patch (q + length a) b (patch q a xs) = patch q (a @ b) xs"
  using assms by (simp add: patch_def ac_simps)

lemma patch_Nil [simp]: "patch q [] xs = xs"
  by (simp add: patch_def)

text \<open>What a write of \<open>buf\<close> at \<open>q\<close> does to the disk.\<close>

definition file_written :: "fs \<Rightarrow> fs \<Rightarrow> inode_disk \<Rightarrow> nat \<Rightarrow> byte list \<Rightarrow> bool" where
  "file_written k k' i q buf \<longleftrightarrow> cache_step k k' \<and> file_bytes (disk k') i = patch q buf (file_bytes (disk k) i) \<and>
     (\<forall>x. x \<notin> set (data_sectors (disk k) i) \<longrightarrow> disk k' x = disk k x)"

lemma file_writtenD:
  assumes "file_written k k' i q buf" "file_ok (disk_size k) (disk k) s i"
  shows "cache_step k k'" "data_sectors (disk k') i = data_sectors (disk k) i" "file_ok (disk_size k) (disk k') s i"
    "disk_size k' = disk_size k" "inodes k' = inodes k"
  using assms data_frame [OF assms(2), of "disk k'"] cache_stepD(9,1) by (auto simp: file_written_def)

lemma file_written_trans:
  assumes "file_written k k1 i q a" "file_written k1 k2 i (q + length a) b" "file_ok (disk_size k) (disk k) s i" "fs_ok k"
    "int (q + length a + length b) \<le> id_length i"
  shows "file_written k k2 i q (a @ b)"
proof -
  have "q + length a + length b \<le> length (file_bytes (disk k) i)" using length_file_bytes [OF assms(4,3)] assms(5) by linarith
  then show ?thesis
    using assms(1,2) file_writtenD(2) [OF assms(1,3)] cache_step_trans patch_append by (fastforce simp: file_written_def)
qed

lemma file_written_sector:
  assumes ok: "fs_ok k" and fok: "file_ok (disk_size k) (disk k) s i" and st: "cache_step k k'"
    and q: "int (q + length ch) \<le> id_length i" "q mod 512 + length ch \<le> 512" "ch \<noteq> []"
    and x: "x = bmap (disk k) i (q div 512)" and d: "disk k' = (disk k)(x := patch (q mod 512) ch (disk k x))"
  shows "file_written k k' i q ch"
proof -
  let ?ds = "data_sectors (disk k) i" let ?xs = "map (disk k) ?ds"
  have "0 < length ch" using q(3) by simp
  then have "int q < id_length i" using q(1) by linarith
  then have j: "q div 512 < n_sectors i" using file_okD(11) [OF fok, of "int q"] by (simp add: nat_div_distrib)
  have x': "?ds ! (q div 512) = x" "q div 512 < length ?ds" using j by (simp_all add: x data_sectors_def)
  then have f: "x \<in> set ?ds" by (metis nth_mem)
  have l: "\<forall>x\<in>set ?xs. length x = 512" using disk_length [OF ok] file_okD(8) [OF fok] by auto
  have ds: "data_sectors (disk k') i = ?ds" by (rule data_frame(1) [OF fok]) (use f d in auto)
  have "map (disk k') ?ds = ?xs[q div 512 := patch (q mod 512) ch (?xs ! (q div 512))]"
    using x' file_okD(5) [OF fok] by (auto simp: d list_eq_iff_nth_eq nth_list_update nth_eq_iff_index_eq)
  then have "concat (map (disk k') ?ds) = patch q ch (concat ?xs)"
    using concat_patch [OF l, of "q div 512" "q mod 512" ch] x'(2) q(2) by simp
  moreover have "nat (id_length i) \<le> length (concat ?xs)"
    using length_concat_same [OF l] file_okD(10) [OF fok] by (simp add: data_sectors_def)
  moreover have "q + length ch \<le> nat (id_length i)" using q(1) by linarith
  ultimately have "file_bytes (disk k') i = patch q ch (file_bytes (disk k) i)"
    by (simp add: file_bytes_def ds take_patch)
  then show ?thesis using st f d by (auto simp: file_written_def)
qed


lemma inode_write_round:
  assumes ok: "fs_ok k" and m: "inodes k p = Some m" and fok: "file_ok (disk_size k) (disk k) (i_sector m) i"
    and q: "int (q + length buf) \<le> id_length i" and buf: "buf \<noteq> []" and c: "c = min (length buf) (512 - q mod 512)"
  shows "\<exists>k'. inode_write_loop (Suc n) p i buf (int q) w k =
       inode_write_loop n p i (drop c buf) (int (q + c)) (w + int c) k' \<and> file_written k k' i q (take c buf)"
proof -
  note len = file_okD(2,3) [OF fok]
  have "0 < length buf" using buf by simp
  then have "int q < id_length i" using q by linarith
  then have q': "0 \<le> int q" "int q < id_length i" "int q < 2 ^ 31" using len by simp_all
  have m512: "q mod 512 < 512" by simp
  have c': "0 < c" "c \<le> length buf" "q mod 512 + c \<le> 512" using c buf m512 by (auto simp: min_def)
  have "int (512 - q mod 512) = 512 - int q mod 512" using m512 by (simp add: of_nat_diff zmod_int)
  then have "int c = min (int (length buf)) (512 - int q mod 512)" unfolding c of_nat_min by simp
  then have e: "chunk_size (id_length i) (int q) (int (length buf)) = int c"
    using chunk_size_eq [OF q'(1,3), of "id_length i" "int (length buf)"] len q by (simp; linarith)
  have e': "int q smod 512 = int (q mod 512)" "s32 (int q + int c) = int q + int c" using smod_pos [of "int q"] c' q len by (simp_all add: zmod_int)
  have ns: "q div 512 < n_sectors i" using file_okD(11) [OF fok q'(1,2)] by (simp add: nat_div_distrib)
  define x where "x = bmap (disk k) i (q div 512)"
  obtain k1 where k1: "byte_to_sector i (int q) k = Some (x, k1)" "quiet_step k k1"
    using byte_to_sector_step [OF ok q'(1,3) refl mapped_tables [OF fok q'(1,2)]] ns file_okD(7) [OF fok]
    by (auto simp: x_def nat_div_distrib)
  note q1 = quiet_stepD [OF k1(2)] and ok1 = quiet_step_ok [OF k1(2) ok]
  obtain k2 where k2: "inode_length p k1 = Some (id_length i, k2)" "quiet_step k1 k2"
    using inode_length_step [OF ok1, of p m i] m fok by (auto simp: q1)
  note s2 = quiet_step_trans [OF k1(2) k2(2)]
  note q2 = quiet_stepD [OF s2] and ok2 = quiet_step_ok [OF s2 ok]
  obtain k3 where k3: "cache_do (cache_write_partial x (take c buf) (q mod 512)) k2 = Some k3" "cache_step k2 k3"
      "disk k3 = (disk k)(x := patch (q mod 512) (take c buf) (disk k x))"
    using cache_write_step [OF ok2, of x "q mod 512" "take c buf"] bmap_less [OF fok ns] c' by (auto simp: x_def q2)
  have "file_written k k3 i q (take c buf)"
    using file_written_sector [OF ok fok cache_step_trans [OF q2(1) k3(2)], of q "take c buf" x] k3(3) c' q buf by (simp add: x_def)
  then show ?thesis using buf k1(1) k2(1) k3(1) c'(1) by (auto simp: e e' Let_def)
qed

lemma inode_write_loop_ok:
  assumes "fs_ok k" "inodes k p = Some m" "file_ok (disk_size k) (disk k) (i_sector m) i"
    "int (q + length buf) \<le> id_length i" "length buf \<le> n"
  shows "\<exists>k'. inode_write_loop n p i buf (int q) w k = Some (w + int (length buf), k') \<and> file_written k k' i q buf"
  using assms
proof (induction n arbitrary: q buf w k)
  case 0
  then show ?case using cache_step_refl by (simp add: file_written_def)
next
  case (Suc n)
  show ?case
  proof (cases "buf = []")
    case True
    then show ?thesis using cache_step_refl [OF Suc.prems(1)] by (simp add: file_written_def)
  next
    case False
    define c where "c = min (length buf) (512 - q mod 512)"
    have c: "0 < c" "c \<le> length buf" using False by (simp_all add: c_def)
    then have l: "length buf - c \<le> n" using Suc.prems(5) by linarith
    obtain k1 where k1: "inode_write_loop (Suc n) p i buf (int q) w k = inode_write_loop n p i (drop c buf) (int (q + c)) (w + int c) k1"
        "file_written k k1 i q (take c buf)"
      using inode_write_round [OF Suc.prems(1-4) False c_def] by blast
    note d = file_writtenD [OF k1(2) Suc.prems(3)]
    obtain k2 where k2: "inode_write_loop n p i (drop c buf) (int (q + c)) (w + int c) k1 = Some (w + int c + int (length (drop c buf)), k2)"
        "file_written k1 k2 i (q + c) (drop c buf)"
      using Suc.IH [OF cache_step_ok [OF d(1) Suc.prems(1)], of "q + c" "drop c buf" "w + int c"] Suc.prems c l by (auto simp: d)
    have "file_written k k2 i q (take c buf @ drop c buf)"
      using file_written_trans [OF k1(2) _ Suc.prems(3,1), of k2 "drop c buf"] k2(2) c Suc.prems(4) by simp
    then show ?thesis using k1(1) k2(1) c by simp
  qed
qed

section \<open>Operations on an open inode\<close>

lemma inode_read_at_ok:
  assumes "fs_ok k" "inodes k p = Some m" "p \<noteq> 0" "file_ok (disk_size k) (disk k) (i_sector m) i" "0 \<le> q" "q < 2 ^ 31"
    "q + n \<le> id_length i \<or> (\<forall>x\<in>set (tables (disk k) i (nat (max q (id_length i) div 512))). x < disk_size k)"
  shows "\<exists>k'. inode_read_at p n q k = Some (take (nat n) (drop (nat q) (file_bytes (disk k) i)), k') \<and> quiet_step k k'"
proof -
  obtain k1 where k1: "inode_get_data p k = Some (i, k1)" "quiet_step k k1"
    using inode_get_data_step [OF assms(1,2)] file_okD(1,4) [OF assms(4)] by auto
  note q1 = quiet_stepD [OF k1(2)] and ok1 = quiet_step_ok [OF k1(2) assms(1)]
  have n: "n \<le> int (nat n)" by simp
  obtain k2 where "inode_read_loop (nat n) p i n q [] k1 = Some ([] @ take (nat n) (drop (nat q) (file_bytes (disk k) i)), k2)" "quiet_step k1 k2"
    using inode_read_loop_ok [OF ok1 _ _ assms(5,6) n, of p m i "[]"] assms(2,4,7) by (auto simp: q1)
  then show ?thesis using k1(1) assms(3) quiet_step_trans [OF k1(2)] by (auto simp: inode_read_at_def)
qed

lemma meta_frame:
  assumes ok: "file_ok z D s i" and f: "\<And>x. x \<in> set (meta_sectors D i) \<Longrightarrow> D' x = D x"
  shows "data_sectors D' i = data_sectors D i" "meta_sectors D' i = meta_sectors D i"
proof -
  have "D' x = D x" if "n < n_sectors i" "x \<in> set (tables D i n)" for n x
    using that by (intro f) (auto simp: meta_sectors_def)
  then have "tables D' i n = tables D i n" "bmap D' i n = bmap D i n" if "n < n_sectors i" for n
    using tables_cong [of D i n D'] that file_okD(7) [OF ok] by simp_all
  then show "data_sectors D' i = data_sectors D i" "meta_sectors D' i = meta_sectors D i"
    by (auto simp: data_sectors_def meta_sectors_def intro!: arg_cong [where f = concat])
qed

text \<open>Storing the inode again leaves the file as it is.\<close>

lemma inode_put_same:
  assumes ok: "fs_ok k" and fok: "file_ok (disk_size k) (disk k) s i"
  shows "\<exists>k'. cache_do (cache_write s (inode_disk_bytes i)) k = Some k' \<and> cache_step k k' \<and> disk k' = (disk k)(s := inode_disk_bytes i) \<and>
     file_ok (disk_size k) (disk k') s i \<and> data_sectors (disk k') i = data_sectors (disk k) i \<and> file_bytes (disk k') i = file_bytes (disk k) i"
proof -
  have i: "inode_disk_ok i" using bytes_inode_disk_ok [OF disk_length [OF ok file_okD(4) [OF fok]]] file_okD(1) [OF fok] by simp
  obtain k' where k': "cache_do (cache_write s (inode_disk_bytes i)) k = Some k'" "cache_step k k'" "disk k' = (disk k)(s := inode_disk_bytes i)"
    using cache_write_sector [OF ok file_okD(4) [OF fok] length_inode_disk_bytes [OF i]] by blast
  have d: "disk k' x = disk k x" if "x \<noteq> s" for x using k'(3) that by simp
  have m: "data_sectors (disk k') i = data_sectors (disk k) i" "meta_sectors (disk k') i = meta_sectors (disk k) i"
    using meta_frame [OF fok, of "disk k'"] d file_okD(12) [OF fok] by metis+
  moreover have "file_ok (disk_size k) (disk k') s i"
    using fok inode_disk_roundtrip [OF i] unfolding file_ok_def m by (simp add: k'(3))
  moreover have "map (disk k') (data_sectors (disk k) i) = map (disk k) (data_sectors (disk k) i)"
    using file_okD(6) [OF fok] by (intro map_cong [OF refl] d) blast
  ultimately show ?thesis using k' by (simp add: file_bytes_def del: map_eq_conv)
qed

definition file_stored :: "fs \<Rightarrow> fs \<Rightarrow> nat \<Rightarrow> inode_disk \<Rightarrow> nat \<Rightarrow> byte list \<Rightarrow> bool" where
  "file_stored k k' s i q buf \<longleftrightarrow> cache_step k k' \<and> file_ok (disk_size k) (disk k') s i \<and>
     file_bytes (disk k') i = patch q buf (file_bytes (disk k) i) \<and> data_sectors (disk k') i = data_sectors (disk k) i \<and>
     (\<forall>x. x \<notin> insert s (set (data_sectors (disk k) i)) \<longrightarrow> disk k' x = disk k x)"

lemma inode_write_at_ok:
  assumes ok: "fs_ok k" and m: "inodes k p = Some m" "deny_write_cnt m = 0" and fok: "file_ok (disk_size k) (disk k) (i_sector m) i"
    and q: "int (q + length buf) \<le> id_length i"
  shows "\<exists>k'. inode_write_at bw p buf (int q) k = Some (int (length buf), k') \<and> file_stored k k' (i_sector m) i q buf"
proof -
  let ?s = "i_sector m"
  note len = file_okD(2,3) [OF fok]
  have s32: "s32 (int q + int (length buf)) = int q + int (length buf)" using q len by simp
  obtain k1 where k1: "inode_get_data p k = Some (i, k1)" "quiet_step k k1"
    using inode_get_data_step [OF ok m(1)] file_okD(1,4) [OF fok] by auto
  note q1 = quiet_stepD [OF k1(2)] and ok1 = quiet_step_ok [OF k1(2) ok]
  obtain su k2 where k2: "inode_disk_extend bw i (int q + int (length buf)) k1 = Some (su, i, k1)"
      "(if su then cache_do (cache_write ?s (inode_disk_bytes i)) k1 else Some k1) = Some k2" "cache_step k1 k2"
      "file_ok (disk_size k) (disk k2) ?s i" "data_sectors (disk k2) i = data_sectors (disk k) i"
      "file_bytes (disk k2) i = file_bytes (disk k) i" "\<forall>x. x \<noteq> ?s \<longrightarrow> disk k2 x = disk k x"
  proof (cases "int q + int (length buf) < id_length i")
    case True
    then show ?thesis using that [of False k1] cache_step_refl [OF ok1] fok by (simp add: inode_disk_extend_def q1)
  next
    case False
    then have e: "int q + int (length buf) = id_length i" using q by simp
    have "inode_disk_extend bw i (id_length i) k1 = Some (True, i, k1)" by (simp add: inode_disk_extend_def)
    then show ?thesis using that [of True] inode_put_same [OF ok1, of ?s i] fok by (auto simp: e q1)
  qed
  note st2 = cache_step_trans [OF q1(1) k2(3)]
  obtain k3 where k3: "inode_write_loop (length buf) p i buf (int q) 0 k2 = Some (0 + int (length buf), k3)" "file_written k2 k3 i q buf"
    using inode_write_loop_ok [OF cache_step_ok [OF st2 ok], of p m i q buf "length buf" 0] m(1) k2(4) q
    by (auto simp: cache_stepD(1,9) [OF st2])
  have "file_stored k k3 ?s i q buf"
    using k3(2) file_writtenD [OF k3(2), of ?s] k2(4-7) cache_step_trans [OF st2] cache_stepD(9) [OF st2]
    by (auto simp: file_stored_def file_written_def)
  then show ?thesis using m k1(1) k2(1,2) k3(1) by (auto simp: inode_write_at_def s32 split del: if_split)
qed

end
