(* ===== verification/Free_Map.thy ===== *)
theory Free_Map
  imports Inode_Files
begin

text \<open>
  Allocation and release of sectors (\<^verbatim>\<open>filesys/free-map.c\<close>). Storing the free map in its file is an operation on
  an inode; what allocation needs of it is the locale \<open>free_map_store\<close>, interpreted on the write of the free
  map through its own open file.
\<close>

section \<open>Searching the bitmap\<close>

declare bitmap_abs_nth [simp del]

definition free_sectors :: "bitmap \<Rightarrow> nat list" where
  "free_sectors b = filter (\<lambda>i. \<not> bitmap_abs b ! i) [0..<bit_cnt b]"

text \<open>\<open>b'\<close> is \<open>b\<close> with the bits \<open>S\<close> set to \<open>v\<close>.\<close>

definition bits_set :: "bitmap \<Rightarrow> nat set \<Rightarrow> bool \<Rightarrow> bitmap \<Rightarrow> bool" where
  "bits_set b S v b' \<longleftrightarrow> bitmap_wf b' \<and> bit_cnt b' = bit_cnt b \<and>
     (\<forall>j<bit_cnt b. bitmap_abs b' ! j \<longleftrightarrow> (if j \<in> S then v else bitmap_abs b ! j))"

lemma bits_setD:
  assumes "bits_set b S v b'"
  shows "bitmap_wf b'" "bit_cnt b' = bit_cnt b" "j < bit_cnt b \<Longrightarrow> bitmap_abs b' ! j \<longleftrightarrow> (if j \<in> S then v else bitmap_abs b ! j)"
  using assms by (auto simp: bits_set_def)

lemma bits_set_refl: "bitmap_wf b \<Longrightarrow> bits_set b {} v b"
  by (simp add: bits_set_def)

lemma bits_set_trans: "bits_set b S v b' \<Longrightarrow> bits_set b' T v b'' \<Longrightarrow> bits_set b (S \<union> T) v b''"
  by (auto simp: bits_set_def)

lemma bitmap_mark_set: "bitmap_wf b \<Longrightarrow> i < bit_cnt b \<Longrightarrow> \<exists>b'. bitmap_mark b i = Some b' \<and> bits_set b {i} True b'"
  using bitmap_mark_ok [of b i] by (auto simp: bits_set_def nth_list_update)

lemma bitmap_reset_set: "bitmap_wf b \<Longrightarrow> i < bit_cnt b \<Longrightarrow> \<exists>b'. bitmap_reset b i = Some b' \<and> bits_set b {i} False b'"
  using bitmap_reset_ok [of b i] by (auto simp: bits_set_def nth_list_update)

lemma allocate_loop_ok:
  assumes "bitmap_wf b" "\<forall>i\<in>set is. i < bit_cnt b" "distinct is" "length acc < cnt"
  shows "\<exists>b'. allocate_loop cnt is acc b =
      Some (cnt \<le> length acc + length (filter (\<lambda>i. \<not> bitmap_abs b ! i) is),
            acc @ take (cnt - length acc) (filter (\<lambda>i. \<not> bitmap_abs b ! i) is), b') \<and>
      bits_set b (set (take (cnt - length acc) (filter (\<lambda>i. \<not> bitmap_abs b ! i) is))) True b'"
  using assms
proof (induction "is" arbitrary: acc b)
  case Nil
  then show ?case by (simp add: bits_set_refl)
next
  case (Cons i "is")
  have t: "bitmap_test b i = Some (bitmap_abs b ! i)" using Cons.prems by (simp add: bitmap_test_ok)
  show ?case
  proof (cases "bitmap_abs b ! i")
    case True
    then show ?thesis using Cons t by auto
  next
    case False
    obtain b1 where b1: "bitmap_mark b i = Some b1" "bits_set b {i} True b1" using bitmap_mark_set [of b i] Cons.prems(1,2) by auto
    note d = bits_setD [OF b1(2)]
    have f: "filter (\<lambda>i. \<not> bitmap_abs b1 ! i) is = filter (\<lambda>i. \<not> bitmap_abs b ! i) is"
    proof (intro filter_cong refl)
      fix x assume "x \<in> set is"
      then have "x < bit_cnt b" "x \<noteq> i" using Cons.prems(2,3) by auto
      then show "(\<not> bitmap_abs b1 ! x) = (\<not> bitmap_abs b ! x)" using d(3) [of x] by simp
    qed
    obtain c where c: "cnt - length acc = Suc c" using Cons.prems(4) by (metis Suc_diff_Suc)
    show ?thesis
    proof (cases "c = 0")
      case True
      then have "Suc (length acc) = cnt" using c by linarith
      then show ?thesis using t False b1 c by (auto simp: True)
    next
      case c0: False
      then have n: "length (acc @ [i]) < cnt" "Suc (length acc) \<noteq> cnt" "cnt - Suc (length acc) = c" using c by auto
      obtain b2 where b2: "allocate_loop cnt is (acc @ [i]) b1 =
          Some (cnt \<le> length (acc @ [i]) + length (filter (\<lambda>i. \<not> bitmap_abs b ! i) is),
                (acc @ [i]) @ take c (filter (\<lambda>i. \<not> bitmap_abs b ! i) is), b2)"
          "bits_set b1 (set (take c (filter (\<lambda>i. \<not> bitmap_abs b ! i) is))) True b2"
        using Cons.IH [OF d(1) _ _ n(1)] Cons.prems(2,3) d(2) n(3) by (auto simp: f)
      then show ?thesis using t False b1(1) n(2) bits_set_trans [OF b1(2) b2(2)] by (auto simp: c)
    qed
  qed
qed

lemma reset_loop_ok:
  assumes "bitmap_wf b" "n \<le> bit_cnt b"
  shows "\<exists>b'. foldM bitmap_reset b [0..<n] = Some b' \<and> bits_set b {..<n} False b'"
  using assms(2)
proof (induction n)
  case 0
  then show ?case by (simp add: bits_set_refl assms(1))
next
  case (Suc n)
  then obtain b1 where b1: "foldM bitmap_reset b [0..<n] = Some b1" "bits_set b {..<n} False b1" by auto
  obtain b2 where "bitmap_reset b1 n = Some b2" "bits_set b1 {n} False b2"
    using bitmap_reset_set [OF bits_setD(1) [OF b1(2)], of n] bits_setD(2) [OF b1(2)] Suc.prems by auto
  then show ?case using b1(1) bits_set_trans [OF b1(2), of "{n}" b2] by (auto simp: foldM_append lessThan_Suc)
qed

lemma free_sectors_mem: "x \<in> set (free_sectors b) \<longleftrightarrow> x < bit_cnt b \<and> \<not> bitmap_abs b ! x"
  by (auto simp: free_sectors_def)

lemma allocate_search:
  assumes "bitmap_wf b" "0 < cnt"
  shows "\<exists>b'. allocate_loop cnt [0..<bitmap_size b] [] b = Some (cnt \<le> length (free_sectors b), take cnt (free_sectors b), b') \<and>
      bits_set b (set (take cnt (free_sectors b))) True b'"
  using allocate_loop_ok [OF assms(1), of "[0..<bit_cnt b]" "[]" cnt] assms(2)
  by (auto simp: bitmap_size_def free_sectors_def)


section \<open>Storing the free map\<close>

text \<open>
  What allocation needs of the store: in a state with the invariant \<open>I\<close> it succeeds, writes only to the sectors
  \<open>own\<close> of the free map, and keeps the invariant, which depends on no other sector.
\<close>

locale free_map_store =
  fixes bw :: "fs \<Rightarrow> (bool \<times> fs) option" and I :: "fs \<Rightarrow> bool" and own :: "nat set"
  assumes inv_ok: "I k \<Longrightarrow> fs_ok k \<and> bitmap_wf (free_map k) \<and> free_map_file k \<noteq> 0"
    and inv_map: "I k \<Longrightarrow> bitmap_wf b \<Longrightarrow> bit_cnt b = bit_cnt (free_map k) \<Longrightarrow> I (k\<lparr>free_map := b\<rparr>)"
    and inv_step: "I k \<Longrightarrow> cache_step k k' \<Longrightarrow> (\<And>x. x \<in> own \<Longrightarrow> disk k' x = disk k x) \<Longrightarrow> I k'"
    and store: "I k \<Longrightarrow> \<exists>k'. bw k = Some (True, k') \<and> cache_step k k' \<and> I k' \<and> (\<forall>x. x \<notin> own \<longrightarrow> disk k' x = disk k x)"
begin

text \<open>Allocation takes the first free sectors, marks exactly these, and changes nothing else outside the free map.\<close>

lemma allocate_ok:
  assumes "I k" "0 < cnt" "cnt \<le> length (free_sectors (free_map k))"
  shows "\<exists>k'. free_map_allocate bw cnt k = Some (True, take cnt (free_sectors (free_map k)), k') \<and> I k' \<and>
     bits_set (free_map k) (set (take cnt (free_sectors (free_map k)))) True (free_map k') \<and>
     cache_step (k\<lparr>free_map := free_map k'\<rparr>) k' \<and> (\<forall>x. x \<notin> own \<longrightarrow> disk k' x = disk k x)"
proof -
  obtain b where b: "allocate_loop cnt [0..<bitmap_size (free_map k)] [] (free_map k) = Some (True, take cnt (free_sectors (free_map k)), b)"
      "bits_set (free_map k) (set (take cnt (free_sectors (free_map k)))) True b"
    using allocate_search [of "free_map k" cnt] inv_ok [OF assms(1)] assms(2,3) by auto
  obtain k' where k': "bw (k\<lparr>free_map := b\<rparr>) = Some (True, k')" "cache_step (k\<lparr>free_map := b\<rparr>) k'" "I k'" "\<forall>x. x \<notin> own \<longrightarrow> disk k' x = disk k x"
    using store [OF inv_map [OF assms(1) bits_setD(1,2) [OF b(2)]]] by auto
  then have f: "free_map k' = b" using cache_stepD(5) [OF k'(2)] by simp
  then show ?thesis using k' b inv_ok [OF assms(1)] assms(2) by (auto simp: free_map_allocate_def)
qed

lemma release_ok:
  assumes "I k" "s < bit_cnt (free_map k)" "bitmap_abs (free_map k) ! s"
  shows "\<exists>k'. free_map_release bw s 1 k = Some k' \<and> I k' \<and> bits_set (free_map k) {s} False (free_map k') \<and>
     cache_step (k\<lparr>free_map := free_map k'\<rparr>) k' \<and> (\<forall>x. x \<notin> own \<longrightarrow> disk k' x = disk k x)"
proof -
  have wf: "bitmap_wf (free_map k)" using inv_ok [OF assms(1)] by blast
  have a: "bitmap_all (free_map k) s 1 = Some True"
    using bitmap_contains_ok [OF wf, of s 1 False] assms(2,3) by (simp add: bitmap_all_def range_is_def)
  obtain b where b: "bitmap_set_multiple (free_map k) s 1 False = Some b" "bitmap_wf b" "bit_cnt b = bit_cnt (free_map k)"
      "bitmap_abs b = set_range s 1 False (bitmap_abs (free_map k))"
    using bitmap_set_multiple_ok [OF wf, of s 1 False] assms(2) by auto
  have bs: "bits_set (free_map k) {s} False b"
    using b(2-4) assms(2) nth_set_range [of s 1 "bitmap_abs (free_map k)" _ False] by (auto simp: bits_set_def)
  obtain k' where k': "bw (k\<lparr>free_map := b\<rparr>) = Some (True, k')" "cache_step (k\<lparr>free_map := b\<rparr>) k'" "I k'" "\<forall>x. x \<notin> own \<longrightarrow> disk k' x = disk k x"
    using store [OF inv_map [OF assms(1) b(2,3)]] by auto
  have "free_map k' = b" using cache_stepD(5) [OF k'(2)] by simp
  then show ?thesis using k' a b(1) bs by (auto simp: free_map_release_def)
qed

end

text \<open>The free map is stored in its own file, which is open and long enough for it.\<close>

definition map_file :: "fs \<Rightarrow> nat \<Rightarrow> inode_disk \<Rightarrow> bool" where
  "map_file k s i \<longleftrightarrow> free_map_file k \<noteq> 0 \<and> (\<exists>f m. files k (free_map_file k) = Some f \<and> inodes k (f_inode f) = Some m \<and> i_sector m = s \<and>
     deny_write_cnt m = 0 \<and> file_ok (disk_size k) (disk k) s i \<and> int (4 * elem_cnt (bit_cnt (free_map k))) \<le> id_length i)"

definition map_inv :: "nat set \<Rightarrow> fs \<Rightarrow> bool" where
  "map_inv own k \<longleftrightarrow> fs_ok k \<and> bitmap_wf (free_map k) \<and>
     (\<exists>s i. map_file k s i \<and> own = insert s (set (data_sectors (disk k) i) \<union> set (meta_sectors (disk k) i)))"

text \<open>The file of the free map begins with the bytes of the bitmap.\<close>

definition map_stored :: "fs \<Rightarrow> bool" where
  "map_stored k \<longleftrightarrow> (\<exists>f m i. files k (free_map_file k) = Some f \<and> inodes k (f_inode f) = Some m \<and>
     file_ok (disk_size k) (disk k) (i_sector m) i \<and>
     take (length (bitmap_write (free_map k))) (file_bytes (disk k) i) = bitmap_write (free_map k))"

lemma map_invI:
  "fs_ok k \<Longrightarrow> bitmap_wf (free_map k) \<Longrightarrow> map_file k s i \<Longrightarrow>
   own = insert s (set (data_sectors (disk k) i) \<union> set (meta_sectors (disk k) i)) \<Longrightarrow> map_inv own k"
  by (auto simp: map_inv_def)

lemma length_bitmap_write: "bitmap_wf b \<Longrightarrow> length (bitmap_write b) = 4 * elem_cnt (bit_cnt b)"
  using wf_byte_cnt [of b] by (simp add: bitmap_write_def bitmap_wf_def)

lemma map_file_cong:
  assumes "map_file k s i" "free_map_file k' = free_map_file k" "files k' = files k" "inodes k' = inodes k"
    "disk_size k' = disk_size k" "bit_cnt (free_map k') = bit_cnt (free_map k)" "file_ok (disk_size k) (disk k') s i"
  shows "map_file k' s i"
  using assms by (auto simp: map_file_def)

lemma store_free_map_ok:
  assumes "fs_ok k" "bitmap_wf (free_map k)" "map_file k s i"
  shows "\<exists>k'. store_free_map k = Some (True, k') \<and> file_stored k k' s i 0 (bitmap_write (free_map k))"
proof -
  obtain f m where fm: "files k (free_map_file k) = Some f" "inodes k (f_inode f) = Some m" "i_sector m = s" "deny_write_cnt m = 0"
      "file_ok (disk_size k) (disk k) (i_sector m) i" "int (4 * elem_cnt (bit_cnt (free_map k))) \<le> id_length i"
    using assms(3) by (auto simp: map_file_def)
  then obtain k' where "inode_write_at (free_map_write 1) (f_inode f) (bitmap_write (free_map k)) 0 k =
      Some (int (length (bitmap_write (free_map k))), k')" "file_stored k k' s i 0 (bitmap_write (free_map k))"
    using inode_write_at_ok [OF assms(1) fm(2,4,5), of 0 "bitmap_write (free_map k)" "free_map_write 1"] length_bitmap_write [OF assms(2)]
    by auto
  then show ?thesis using fm(1) by (auto simp: numeral_2_eq_2)
qed

interpretation fm: free_map_store store_free_map "map_inv own" own for own
proof
  fix k assume I: "map_inv own k"
  then obtain s i where si: "fs_ok k" "bitmap_wf (free_map k)" "map_file k s i"
      "own = insert s (set (data_sectors (disk k) i) \<union> set (meta_sectors (disk k) i))" by (auto simp: map_inv_def)
  have fok: "file_ok (disk_size k) (disk k) s i" using si(3) by (auto simp: map_file_def)
  show "fs_ok k \<and> bitmap_wf (free_map k) \<and> free_map_file k \<noteq> 0" using si by (auto simp: map_file_def)
  show "map_inv own (k\<lparr>free_map := b\<rparr>)" if "bitmap_wf b" "bit_cnt b = bit_cnt (free_map k)" for b
    using si that map_file_cong [OF si(3), of "k\<lparr>free_map := b\<rparr>"] fok by (auto simp: fs_ok_def intro!: map_invI [of _ s i])
  have keep: "map_inv own k'" if st: "cache_step k k'" and f: "file_ok (disk_size k) (disk k') s i"
    and d: "data_sectors (disk k') i = data_sectors (disk k) i" "meta_sectors (disk k') i = meta_sectors (disk k) i" for k'
    using si map_file_cong [OF si(3), of k'] cache_stepD [OF st] cache_step_ok [OF st si(1)] f d by (auto intro!: map_invI [of _ s i])
  show "map_inv own k'" if st: "cache_step k k'" and d: "\<And>x. x \<in> own \<Longrightarrow> disk k' x = disk k x" for k'
  proof -
    have m: "data_sectors (disk k') i = data_sectors (disk k) i" "meta_sectors (disk k') i = meta_sectors (disk k) i"
      using meta_frame [OF fok, of "disk k'"] d si(4) by blast+
    moreover have "file_ok (disk_size k) (disk k') s i" using fok d [of s] si(4) unfolding file_ok_def m by simp
    ultimately show ?thesis using keep [OF st] by blast
  qed
  obtain k' where k': "store_free_map k = Some (True, k')" "file_stored k k' s i 0 (bitmap_write (free_map k))"
    using store_free_map_ok [OF si(1-3)] by blast
  have m: "meta_sectors (disk k') i = meta_sectors (disk k) i"
    using meta_frame(2) [OF fok, of "disk k'"] k'(2) file_okD(6,12) [OF fok] by (force simp: file_stored_def)
  then show "\<exists>k'. store_free_map k = Some (True, k') \<and> cache_step k k' \<and> map_inv own k' \<and> (\<forall>x. x \<notin> own \<longrightarrow> disk k' x = disk k x)"
    using k' keep [of k'] si(4) by (auto simp: file_stored_def)
qed

text \<open>A successful allocation leaves the new bitmap in the file.\<close>

lemma store_free_map_stores:
  assumes "map_inv own k" "store_free_map k = Some (True, k')"
  shows "map_stored k'"
proof -
  obtain s i where si: "fs_ok k" "bitmap_wf (free_map k)" "map_file k s i" using assms(1) by (auto simp: map_inv_def)
  have st: "file_stored k k' s i 0 (bitmap_write (free_map k))" using store_free_map_ok [OF si] assms(2) by auto
  then have c: "cache_step k k'" and b: "file_bytes (disk k') i = patch 0 (bitmap_write (free_map k)) (file_bytes (disk k) i)"
    and f: "file_ok (disk_size k) (disk k') s i"
    by (auto simp: file_stored_def)
  have "take (length (bitmap_write (free_map k))) (file_bytes (disk k') i) = bitmap_write (free_map k)"
    unfolding b patch_def by simp
  then show ?thesis using si(3) cache_stepD [OF c] f by (auto simp: map_file_def map_stored_def)
qed

lemma allocate_stores:
  assumes "map_inv own k" "0 < cnt" "free_map_allocate store_free_map cnt k = Some (True, sectors, k')"
    "cnt \<le> length (free_sectors (free_map k))"
  shows "map_stored k'"
proof -
  have I: "bitmap_wf (free_map k)" "free_map_file k \<noteq> 0" using fm.inv_ok [OF assms(1)] by blast+
  obtain b where b: "allocate_loop cnt [0..<bitmap_size (free_map k)] [] (free_map k) = Some (True, take cnt (free_sectors (free_map k)), b)"
      "bits_set (free_map k) (set (take cnt (free_sectors (free_map k)))) True b"
    using allocate_search [OF I(1) assms(2)] assms(4) by auto
  have "map_inv own (k\<lparr>free_map := b\<rparr>)" by (rule fm.inv_map [OF assms(1) bits_setD(1,2) [OF b(2)]])
  moreover have "store_free_map (k\<lparr>free_map := b\<rparr>) = Some (True, k')"
    using assms(2,3) b(1) I(2) by (auto simp: free_map_allocate_def Let_def option_bind_Some split: if_splits)
  ultimately show ?thesis by (rule store_free_map_stores)
qed

end
