(* ===== verification/Inode_Growth.thy ===== *)
theory Inode_Growth
  imports Free_Map
begin

text \<open>
  Growing a file (\<^verbatim>\<open>inode_disk_extend\<close> and the write past the end of a file in \<^verbatim>\<open>filesys/inode.c\<close>), for files of
  up to 140 blocks: the direct blocks and the indirect block.
\<close>

section \<open>Filling the tables\<close>

lemma bytes_elems_append: "length a = 4 * n \<Longrightarrow> bytes_elems (a @ b) = bytes_elems a @ bytes_elems b"
proof (induction n arbitrary: a)
  case (Suc n)
  then obtain w x y z c where "a = w # x # y # z # c" "length c = 4 * n"
    by (auto simp: length_Suc_conv numeral_eq_Suc)
  then show ?case using Suc.IH by simp
qed simp

lemma bytes_elems_take_drop:
  assumes "length bs = 4 * m" "n \<le> m"
  shows "bytes_elems (take (4 * n) bs) = take n (bytes_elems bs)" "bytes_elems (drop (4 * n) bs) = drop n (bytes_elems bs)"
proof -
  have t: "length (take (4 * n) bs) = 4 * n" using assms by simp
  have "bytes_elems bs = bytes_elems (take (4 * n) bs) @ bytes_elems (drop (4 * n) bs)"
    using bytes_elems_append [OF t, of "drop (4 * n) bs"] by simp
  moreover have "length (bytes_elems (take (4 * n) bs)) = n" using length_bytes_elems [OF t] .
  ultimately show "bytes_elems (take (4 * n) bs) = take n (bytes_elems bs)" "bytes_elems (drop (4 * n) bs) = drop n (bytes_elems bs)"
    by simp_all
qed

lemma sector_words_patch:
  assumes "length bs = BLOCK_SECTOR_SIZE" "n + length ns \<le> 128" "\<forall>x\<in>set ns. x < 2 ^ 32"
  shows "sector_words (patch (n * 4) (elems_bytes (map of_nat ns)) bs) = patch n ns (sector_words bs)"
proof -
  have l: "length bs = 4 * 128" using assms(1) by simp
  have e: "map unat (bytes_elems (elems_bytes (map of_nat ns))) = ns"
    using sector_words_elems [OF assms(3)] by (simp add: sector_words_def)
  have t: "length (take (4 * n) bs) = 4 * n" "length (elems_bytes (map of_nat ns :: 32 word list)) = 4 * length ns" using assms by simp_all
  have "4 * n + 4 * length ns = 4 * (n + length ns)" by simp
  then have d: "bytes_elems (drop (4 * n + 4 * length ns) bs) = drop (n + length ns) (bytes_elems bs)"
    using bytes_elems_take_drop(2) [OF l assms(2)] by presburger
  have "bytes_elems (patch (n * 4) (elems_bytes (map of_nat ns)) bs) =
      take n (bytes_elems bs) @ bytes_elems (elems_bytes (map of_nat ns)) @ drop (n + length ns) (bytes_elems bs)"
    using bytes_elems_append [OF t(1)] bytes_elems_append [OF t(2)] bytes_elems_take_drop(1) [OF l, of n] assms(2) d
    by (simp add: patch_def mult.commute)
  then show ?thesis using e by (simp add: sector_words_def patch_def take_map drop_map)
qed

lemma patch_snoc: "q + length a < length xs \<Longrightarrow> (patch q a xs)[q + length a := x] = patch q (a @ [x]) xs"
  by (simp add: patch_def list_update_append Cons_nth_drop_Suc [symmetric])

text \<open>A disk with the sectors \<open>S\<close> zeroed.\<close>

definition zeroed :: "nat set \<Rightarrow> (nat \<Rightarrow> byte list) \<Rightarrow> nat \<Rightarrow> byte list" where
  "zeroed S D x = (if x \<in> S then zeros else D x)"

lemma next_zeroed_step:
  assumes "fs_ok k" "s < disk_size k"
  shows "\<exists>k'. next_zeroed (s # rest) k = Some (s, rest, k') \<and> cache_step k k' \<and> disk k' = zeroed {s} (disk k)"
  using cache_write_sector [OF assms, of zeros] by (auto simp: next_zeroed_def zeroed_def fun_eq_iff)

lemma extend_dblock_loop:
  assumes "fs_ok k" "\<forall>s\<in>set sectors. s < disk_size k" "n \<le> length sectors" "q + n \<le> length (dblocks i)"
  shows "\<exists>k'. foldM (\<lambda>(i, sectors, k) j. do {
             (s, sectors, k) \<leftarrow> next_zeroed sectors k;
             Some (i\<lparr>dblocks := (dblocks i)[q + j := s]\<rparr>, sectors, k) })
           (i, sectors, k) [0..<n] = Some (i\<lparr>dblocks := patch q (take n sectors) (dblocks i)\<rparr>, drop n sectors, k') \<and>
      cache_step k k' \<and> disk k' = zeroed (set (take n sectors)) (disk k)"
  using assms(3,4)
proof (induction n)
  case 0
  then show ?case using cache_step_refl [OF assms(1)] by (simp add: zeroed_def fun_eq_iff)
next
  case (Suc n)
  let ?f = "\<lambda>(i, sectors, k) j. do { (s, sectors, k) \<leftarrow> next_zeroed sectors k; Some (i\<lparr>dblocks := (dblocks i)[q + j := s]\<rparr>, sectors, k) }"
  have "n \<le> length sectors" "q + n \<le> length (dblocks i)" using Suc.prems by simp_all
  from Suc.IH [OF this] obtain k1 where k1: "foldM ?f (i, sectors, k) [0..<n] = Some (i\<lparr>dblocks := patch q (take n sectors) (dblocks i)\<rparr>, drop n sectors, k1)"
      "cache_step k k1" "disk k1 = zeroed (set (take n sectors)) (disk k)" by blast
  let ?s = "sectors ! n"
  have d: "drop n sectors = ?s # drop (Suc n) sectors" "take (Suc n) sectors = take n sectors @ [?s]" "?s < disk_size k"
    using Suc.prems assms(2) by (simp_all add: Cons_nth_drop_Suc take_Suc_conv_app_nth)
  obtain k2 where k2: "next_zeroed (drop n sectors) k1 = Some (?s, drop (Suc n) sectors, k2)" "cache_step k1 k2" "disk k2 = zeroed {?s} (disk k1)"
    using next_zeroed_step [OF cache_step_ok [OF k1(2) assms(1)], of ?s "drop (Suc n) sectors"] d cache_stepD(9) [OF k1(2)] by auto
  have "(patch q (take n sectors) (dblocks i))[q + n := ?s] = patch q (take (Suc n) sectors) (dblocks i)"
    using patch_snoc [of q "take n sectors" "dblocks i" ?s] Suc.prems by (simp add: d(2))
  then have "foldM ?f (i, sectors, k) [0..<Suc n] = Some (i\<lparr>dblocks := patch q (take (Suc n) sectors) (dblocks i)\<rparr>, drop (Suc n) sectors, k2)"
    using k1(1) k2(1) by (simp add: foldM_append)
  moreover have "disk k2 = zeroed (set (take (Suc n) sectors)) (disk k)" using k1(3) k2(3) by (auto simp: zeroed_def fun_eq_iff d(2))
  ultimately show ?case using cache_step_trans [OF k1(2) k2(2)] by blast
qed

lemma zeroed_simps [simp]: "zeroed {} D = D" "x \<in> S \<Longrightarrow> zeroed S D x = zeros" "x \<notin> S \<Longrightarrow> zeroed S D x = D x"
  by (simp_all add: zeroed_def fun_eq_iff)

lemma extend_dblock_ok:
  assumes "fs_ok k" "\<forall>s\<in>set sectors. s < disk_size k" "to_write \<le> length sectors" "length (dblocks i) = 12"
    "n = min to_write (12 - q)" "q < 12"
  shows "\<exists>k'. inode_disk_extend_dblock i sectors q to_write k =
      Some (i\<lparr>dblocks := patch q (take n sectors) (dblocks i)\<rparr>, drop n sectors, 0, to_write - n, k') \<and>
      cache_step k k' \<and> disk k' = zeroed (set (take n sectors)) (disk k)"
proof -
  have "n \<le> length sectors" "q + n \<le> length (dblocks i)" using assms(3-6) by simp_all
  from extend_dblock_loop [OF assms(1,2) this] show ?thesis
    using assms(5,6) by (auto simp: inode_disk_extend_dblock_def Let_def)
qed

lemma zero_loop:
  assumes "fs_ok k" "\<forall>s\<in>set sectors. s < disk_size k" "n \<le> length sectors"
  shows "\<exists>k'. foldM (\<lambda>(sectors, k) _. do { (_, sectors, k) \<leftarrow> next_zeroed sectors k; Some (sectors, k) }) (sectors, k) [0..<n] =
        Some (drop n sectors, k') \<and> cache_step k k' \<and> disk k' = zeroed (set (take n sectors)) (disk k)"
  using assms(3)
proof (induction n)
  case 0
  then show ?case using cache_step_refl [OF assms(1)] by simp
next
  case (Suc n)
  let ?f = "\<lambda>(sectors, k) _. do { (_, sectors, k) \<leftarrow> next_zeroed sectors k; Some (sectors, k) }"
  have "n \<le> length sectors" using Suc.prems by simp
  from Suc.IH [OF this] obtain k1 where k1: "foldM ?f (sectors, k) [0..<n] = Some (drop n sectors, k1)"
      "cache_step k k1" "disk k1 = zeroed (set (take n sectors)) (disk k)" by blast
  let ?s = "sectors ! n"
  have d: "drop n sectors = ?s # drop (Suc n) sectors" "take (Suc n) sectors = take n sectors @ [?s]" "?s < disk_size k"
    using Suc.prems assms(2) by (simp_all add: Cons_nth_drop_Suc take_Suc_conv_app_nth)
  obtain k2 where k2: "next_zeroed (drop n sectors) k1 = Some (?s, drop (Suc n) sectors, k2)" "cache_step k1 k2" "disk k2 = zeroed {?s} (disk k1)"
    using next_zeroed_step [OF cache_step_ok [OF k1(2) assms(1)], of ?s "drop (Suc n) sectors"] d cache_stepD(9) [OF k1(2)] by auto
  then have "foldM ?f (sectors, k) [0..<Suc n] = Some (drop (Suc n) sectors, k2)"
    using k1(1) k2(1) by (simp add: foldM_append)
  moreover have "disk k2 = zeroed (set (take (Suc n) sectors)) (disk k)" using k1(3) k2(3) by (auto simp: zeroed_def fun_eq_iff d(2))
  ultimately show ?case using cache_step_trans [OF k1(2) k2(2)] by blast
qed

text \<open>The table in sector \<open>b\<close> with the entries \<open>ns\<close> from \<open>q\<close> on.\<close>

definition fill_table :: "nat \<Rightarrow> nat \<Rightarrow> nat list \<Rightarrow> (nat \<Rightarrow> byte list) \<Rightarrow> nat \<Rightarrow> byte list" where
  "fill_table b q ns D = D(b := patch (q * 4) (elems_bytes (map of_nat ns)) (D b))"

lemma extend_indblock_ok:
  assumes "fs_ok k" "\<forall>s\<in>set sectors. s < disk_size k" "n \<le> length sectors" "b < disk_size k" "q < 128" "q + n \<le> 128"
  shows "\<exists>k'. inode_disk_extend_indblock_children b sectors q n k = Some (drop n sectors, 0, 0, k') \<and> cache_step k k' \<and>
      disk k' = zeroed (set (take n sectors)) (fill_table b q (take n sectors) (disk k))"
proof -
  obtain k1 where k1: "cache_do (cache_write_partial b (elems_bytes (map of_nat (take n sectors))) (q * 4)) k = Some k1" "cache_step k k1"
      "disk k1 = fill_table b q (take n sectors) (disk k)"
    using cache_write_step [OF assms(1,4), of "q * 4" "elems_bytes (map of_nat (take n sectors))"] assms(3,6) by (auto simp: fill_table_def)
  have "\<forall>s\<in>set sectors. s < disk_size k1" using assms(2) cache_stepD(9) [OF k1(2)] by simp
  from zero_loop [OF cache_step_ok [OF k1(2) assms(1)] this assms(3)] obtain k2 where k2:
      "foldM (\<lambda>(sectors, k) _. do { (_, sectors, k) \<leftarrow> next_zeroed sectors k; Some (sectors, k) }) (sectors, k1) [0..<n] = Some (drop n sectors, k2)"
      "cache_step k1 k2" "disk k2 = zeroed (set (take n sectors)) (disk k1)" by blast
  have "inode_disk_extend_indblock_children b sectors q n k = Some (drop n sectors, 0, 0, k2)"
    using assms(3,5,6) k1(1) k2(1) by (simp add: inode_disk_extend_indblock_children_def Let_def min_def)
  then show ?thesis using k1(3) k2(3) cache_step_trans [OF k1(2) k2(2)] by simp
qed

lemma nth_patch:
  "q + length a \<le> length xs \<Longrightarrow> n < length xs \<Longrightarrow> patch q a xs ! n = (if n < q then xs ! n else if n < q + length a then a ! (n - q) else xs ! n)"
  by (auto simp: patch_def nth_append)

section \<open>Extending an inode\<close>

definition sectors_needed :: "inode_disk \<Rightarrow> int \<Rightarrow> nat" where
  "sectors_needed i len = bytes_to_data_sectors len - n_sectors i + (bytes_to_indirect_sectors len - bytes_to_indirect_sectors (id_length i))"

text \<open>
  The inode and the disk after the new \<open>sectors\<close> are entered as the blocks \<open>n0\<close> up to \<open>n1\<close>; when \<open>n1\<close> is the first
  to need the indirect block, the last of the sectors becomes the indirect block.
\<close>

definition new_direct :: "nat \<Rightarrow> nat \<Rightarrow> nat" where
  "new_direct n0 n1 = min n1 12 - min n0 12"

definition filled :: "nat \<Rightarrow> nat \<Rightarrow> nat list \<Rightarrow> inode_disk \<Rightarrow> inode_disk" where
  "filled n0 n1 sectors i = i\<lparr>dblocks := patch (min n0 12) (take (new_direct n0 n1) sectors) (dblocks i),
     indblock := (if n0 \<le> 12 \<and> 12 < n1 then sectors ! (n1 - n0) else indblock i)\<rparr>"

definition filled_disk :: "nat \<Rightarrow> nat \<Rightarrow> nat list \<Rightarrow> inode_disk \<Rightarrow> (nat \<Rightarrow> byte list) \<Rightarrow> nat \<Rightarrow> byte list" where
  "filled_disk n0 n1 sectors i D = zeroed (set (take (n1 - n0) sectors))
     (fill_table (indblock (filled n0 n1 sectors i)) (n0 - 12) (drop (new_direct n0 n1) (take (n1 - n0) sectors)) D)"

lemma fill_table_Nil [simp]: "fill_table b q [] D = D"
  by (simp add: fill_table_def elems_bytes_def)

lemma bytes_to_indirect_small:
  assumes "bytes_to_data_sectors len \<le> 140"
  shows "bytes_to_indirect_sectors len = (if bytes_to_data_sectors len \<le> 12 then 0 else 1)"
  using assms by (auto simp: bytes_to_indirect_sectors_def Let_def)

lemma fill_direct:
  assumes "fs_ok k" "\<forall>s\<in>set sectors. s < disk_size k" "length sectors = n1 - n0" "length (dblocks i) = 12" "n0 < n1" "n1 \<le> 12"
  shows "\<exists>k'. inode_disk_fill i sectors n0 (n1 - n0) k = Some (filled n0 n1 sectors i, k') \<and> cache_step k k' \<and>
     disk k' = filled_disk n0 n1 sectors i (disk k)"
proof -
  obtain k' where "inode_disk_extend_dblock i sectors n0 (n1 - n0) k =
      Some (i\<lparr>dblocks := patch n0 (take (n1 - n0) sectors) (dblocks i)\<rparr>, drop (n1 - n0) sectors, 0, 0, k')"
      "cache_step k k'" "disk k' = zeroed (set (take (n1 - n0) sectors)) (disk k)"
    using extend_dblock_ok [OF assms(1,2), of "n1 - n0" i "n1 - n0" n0] assms by auto
  then show ?thesis using assms(3,5,6) by (simp add: inode_disk_fill_def filled_def filled_disk_def new_direct_def)
qed

lemma fill_crossing:
  assumes ok: "fs_ok k" and s: "\<forall>s\<in>set sectors. s < disk_size k" "distinct sectors" "length sectors = Suc (n1 - n0)"
    and i: "length (dblocks i) = 12" and n: "n0 < 12" "12 < n1" "n1 \<le> 140"
  shows "\<exists>k'. inode_disk_fill i sectors n0 (n1 - n0) k = Some (filled n0 n1 sectors i, k') \<and> cache_step k k' \<and>
     disk k' = filled_disk n0 n1 sectors i (disk k)"
proof -
  define a where "a = 12 - n0"
  define b where "b = sectors ! (n1 - n0)"
  let ?j = "i\<lparr>dblocks := patch n0 (take a sectors) (dblocks i)\<rparr>" let ?B = "take (n1 - 12) (drop a sectors)"
  have l: "drop (n1 - n0) sectors = [b]" "a < n1 - n0" "n1 - n0 - a = n1 - 12" "0 < a"
    using n s(3) by (auto simp: a_def b_def intro!: nth_equalityI)
  have b: "b < disk_size k" "b \<notin> set (take (n1 - n0) sectors)"
    using s nth_mem [of "n1 - n0" sectors] by (auto simp: b_def in_set_conv_nth nth_eq_iff_index_eq)
  obtain k1 where k1: "inode_disk_extend_dblock i sectors n0 (n1 - n0) k = Some (?j, drop a sectors, 0, n1 - 12, k1)"
      "cache_step k k1" "disk k1 = zeroed (set (take a sectors)) (disk k)"
    using extend_dblock_ok [OF ok s(1), of "n1 - n0" i a n0] l i(1) n s(3) by (auto simp: a_def)
  have s1: "\<forall>s\<in>set (drop a sectors). s < disk_size k1" using s(1) cache_stepD(9) [OF k1(2)] by (auto dest: in_set_dropD)
  have "n1 - 12 \<le> length (drop a sectors)" "b < disk_size k1" "0 < (128::nat)" "0 + (n1 - 12) \<le> 128"
    using l n b s(3) cache_stepD(9) [OF k1(2)] by auto
  from extend_indblock_ok [OF cache_step_ok [OF k1(2) ok] s1 this] obtain k2 where
    k2: "inode_disk_extend_indblock_children b (drop a sectors) 0 (n1 - 12) k1 = Some (drop (n1 - 12) (drop a sectors), 0, 0, k2)"
      "cache_step k1 k2" "disk k2 = zeroed (set ?B) (fill_table b 0 ?B (disk k1))" by blast
  have nd: "new_direct n0 n1 = a" "drop a (take (n1 - n0) sectors) = ?B" "take a (take (n1 - n0) sectors) = take a sectors"
    using n l by (simp_all add: new_direct_def a_def drop_take min_def)
  have g: "filled n0 n1 sectors i = ?j\<lparr>indblock := b\<rparr>" using n by (simp add: filled_def nd b_def)
  have un: "set (take (n1 - n0) sectors) = set (take a sectors) \<union> set ?B" by (metis append_take_drop_id nd(2,3) set_append)
  have "filled_disk n0 n1 sectors i (disk k) = zeroed (set (take a sectors) \<union> set ?B) (fill_table b 0 ?B (disk k))"
    using n by (simp add: filled_disk_def nd(1,2) g un)
  then have "disk k2 = filled_disk n0 n1 sectors i (disk k)"
    using k1(3) k2(3) b(2) un by (auto simp: fill_table_def zeroed_def fun_eq_iff)
  moreover have "inode_disk_fill i sectors n0 (n1 - n0) k = Some (filled n0 n1 sectors i, k2)"
    using k1(1) k2(1) n by (simp add: inode_disk_fill_def l(1) take_sector_def g)
  ultimately show ?thesis using cache_step_trans [OF k1(2) k2(2)] by blast
qed

lemma fill_indirect:
  assumes ok: "fs_ok k" and s: "\<forall>s\<in>set sectors. s < disk_size k" "length sectors = n1 - n0 + (if n0 = 12 then 1 else 0)"
    and i: "n0 \<noteq> 12 \<Longrightarrow> indblock i < disk_size k" and n: "12 \<le> n0" "n0 < n1" "n1 \<le> 140"
  shows "\<exists>k'. inode_disk_fill i sectors n0 (n1 - n0) k = Some (filled n0 n1 sectors i, k') \<and> cache_step k k' \<and>
     disk k' = filled_disk n0 n1 sectors i (disk k)"
proof -
  define b where "b = (if n0 = 12 then sectors ! (n1 - 12) else indblock i)"
  have d: "inode_disk_extend_dblock i sectors n0 (n1 - n0) k = Some (i, sectors, n0 - 12, n1 - n0, k)"
    using n by (simp add: inode_disk_extend_dblock_def)
  have t: "\<exists>rest. take_sector (n0 - 12 = 0) (indblock i) (drop (n1 - n0) sectors) = Some (b, rest)"
    using s(2) n by (auto simp: take_sector_def b_def Cons_nth_drop_Suc [symmetric])
  have "n1 - n0 \<le> length sectors" "b < disk_size k" "n0 - 12 < 128" "n0 - 12 + (n1 - n0) \<le> 128"
    using s n i by (auto simp: b_def)
  from extend_indblock_ok [OF ok s(1) this] obtain k2 where
    k2: "inode_disk_extend_indblock_children b sectors (n0 - 12) (n1 - n0) k = Some (drop (n1 - n0) sectors, 0, 0, k2)"
      "cache_step k k2" "disk k2 = zeroed (set (take (n1 - n0) sectors)) (fill_table b (n0 - 12) (take (n1 - n0) sectors) (disk k))"
    by blast
  have g: "filled n0 n1 sectors i = i\<lparr>indblock := b\<rparr>" using n by (auto simp: filled_def new_direct_def b_def)
  have "inode_disk_fill i sectors n0 (n1 - n0) k = Some (filled n0 n1 sectors i, k2)"
    using t k2(1) n by (auto simp: inode_disk_fill_def d g)
  moreover have "new_direct n0 n1 = 0" using n by (simp add: new_direct_def)
  ultimately show ?thesis using k2 by (auto simp: filled_disk_def g)
qed

lemma inode_disk_fill_ok:
  assumes ok: "fs_ok k" and s: "\<forall>s\<in>set sectors. s < disk_size k" "distinct sectors" "length sectors = n1 - n0 + (if n0 \<le> 12 \<and> 12 < n1 then 1 else 0)"
    and i: "length (dblocks i) = 12" "12 < n0 \<Longrightarrow> indblock i < disk_size k" and n: "n0 < n1" "n1 \<le> 140"
  shows "\<exists>k'. inode_disk_fill i sectors n0 (n1 - n0) k = Some (filled n0 n1 sectors i, k') \<and> cache_step k k' \<and>
     disk k' = filled_disk n0 n1 sectors i (disk k)"
proof -
  consider "n1 \<le> 12" | "n0 < 12" "12 < n1" | "12 \<le> n0" by linarith
  then show ?thesis using fill_direct [OF ok s(1) _ i(1)] fill_crossing [OF ok s(1,2) _ i(1)] fill_indirect [OF ok s(1)] s(3) i(2) n by cases simp_all
qed

text \<open>The block map after the extension: the old blocks, then the new sectors.\<close>

lemma filled_words:
  assumes "b = indblock (filled n0 n1 sectors i)" "D' b = filled_disk n0 n1 sectors i D b" "length (D b) = BLOCK_SECTOR_SIZE"
    "b \<notin> set (take (n1 - n0) sectors)" "n0 \<le> n1" "n1 \<le> 140" "12 < n1" "\<forall>s\<in>set sectors. s < 2 ^ 32"
  shows "sector_words (D' b) = patch (n0 - 12) (drop (new_direct n0 n1) (take (n1 - n0) sectors)) (sector_words (D b))"
proof -
  let ?B = "drop (new_direct n0 n1) (take (n1 - n0) sectors)"
  have "D' b = patch ((n0 - 12) * 4) (elems_bytes (map of_nat ?B)) (D b)"
    using assms(1,2,4) by (simp add: filled_disk_def fill_table_def)
  moreover have "n0 - 12 + length ?B \<le> 128" using assms(5-7) by (auto simp: new_direct_def min_def)
  moreover have "\<forall>x\<in>set ?B. x < 2 ^ 32" using assms(8) by (meson in_set_dropD in_set_takeD)
  ultimately show ?thesis using sector_words_patch [OF assms(3)] by simp
qed

lemma filled_bmap:
  assumes b: "b = indblock (filled n0 n1 sectors i)" "12 < n1 \<Longrightarrow> D' b = filled_disk n0 n1 sectors i D b" "12 < n1 \<Longrightarrow> length (D b) = BLOCK_SECTOR_SIZE"
    "12 < n1 \<Longrightarrow> b \<notin> set (take (n1 - n0) sectors)" and n: "n0 \<le> n1" "n1 \<le> 140" and s: "\<forall>s\<in>set sectors. s < 2 ^ 32"
    and l: "n1 - n0 \<le> length sectors" "length (dblocks i) = 12"
  shows "n < n0 \<Longrightarrow> bmap D' (filled n0 n1 sectors i) n = bmap D i n"
    "n0 \<le> n \<Longrightarrow> n < n1 \<Longrightarrow> bmap D' (filled n0 n1 sectors i) n = sectors ! (n - n0)"
proof -
  have w: "sector_words (D' b) = patch (n0 - 12) (drop (new_direct n0 n1) (take (n1 - n0) sectors)) (sector_words (D b))" if "12 < n1"
    using filled_words [OF b(1)] b n s that by blast
  have lw: "length (sector_words (D b)) = 128" if "12 < n1" using length_sector_words b(3) that by blast
  have bb: "b = indblock i" if "12 < n0" using that by (simp add: b(1) filled_def)
  have nd: "length (take (new_direct n0 n1) sectors) = new_direct n0 n1" "min n0 12 + new_direct n0 n1 = min n1 12"
    using l n by (auto simp: new_direct_def min_def)
  have db: "dblocks (filled n0 n1 sectors i) = patch (min n0 12) (take (new_direct n0 n1) sectors) (dblocks i)" by (simp add: filled_def)
  show "bmap D' (filled n0 n1 sectors i) n = bmap D i n" if "n < n0"
    using that n w lw bb nd l by (auto simp: bmap_def db b(1) [symmetric] nth_patch new_direct_def)
  show "bmap D' (filled n0 n1 sectors i) n = sectors ! (n - n0)" if "n0 \<le> n" "n < n1"
  proof (cases "n < 12")
    case True
    then show ?thesis using that n nd l by (auto simp: bmap_def db nth_patch new_direct_def)
  next
    case False
    then show ?thesis using that n w lw l by (auto simp: bmap_def b(1) [symmetric] nth_patch new_direct_def min_def)
  qed
qed


section \<open>Extension with the free map\<close>

text \<open>A file and the free map (in the sectors \<open>own\<close>) whose sectors are all marked as used.\<close>

definition file_in_map :: "nat set \<Rightarrow> fs \<Rightarrow> nat \<Rightarrow> inode_disk \<Rightarrow> bool" where
  "file_in_map own k s i \<longleftrightarrow> file_ok (disk_size k) (disk k) s i \<and> bit_cnt (free_map k) \<le> disk_size k \<and>
     own \<inter> insert s (set (data_sectors (disk k) i) \<union> set (meta_sectors (disk k) i)) = {} \<and>
     (\<forall>x\<in>own \<union> insert s (set (data_sectors (disk k) i) \<union> set (meta_sectors (disk k) i)).
        x < bit_cnt (free_map k) \<and> bitmap_abs (free_map k) ! x)"

abbreviation taken_sectors :: "fs \<Rightarrow> inode_disk \<Rightarrow> int \<Rightarrow> nat list" where
  "taken_sectors k i len \<equiv> take (sectors_needed i len) (free_sectors (free_map k))"

definition grown :: "fs \<Rightarrow> inode_disk \<Rightarrow> int \<Rightarrow> inode_disk" where
  "grown k i len = filled (n_sectors i) (bytes_to_data_sectors len) (taken_sectors k i len) (i\<lparr>id_length := len\<rparr>)"

lemma data_sectors_mono: "0 \<le> a \<Longrightarrow> a \<le> b \<Longrightarrow> b < 2 ^ 31 - 511 \<Longrightarrow> bytes_to_data_sectors a \<le> bytes_to_data_sectors b"
  by (simp add: bytes_to_data_sectors_eq nat_mono zdiv_mono1)

lemma file_in_map_free:
  assumes "file_in_map own k s i" "x \<in> set (free_sectors (free_map k))"
  shows "x \<notin> own" "x \<noteq> s" "x \<notin> set (data_sectors (disk k) i)" "x \<notin> set (meta_sectors (disk k) i)" "x < disk_size k" "x < bit_cnt (free_map k)"
  using assms free_sectors_mem [of x "free_map k"] unfolding file_in_map_def by auto

lemma n_sectors_upd [simp]: "n_sectors (i\<lparr>id_length := len\<rparr>) = bytes_to_data_sectors len"
  by (simp add: n_sectors_def)

lemma meta_indirect: "12 < n_sectors i \<Longrightarrow> indblock i \<in> set (meta_sectors D i)"
proof -
  assume "12 < n_sectors i"
  moreover have "indblock i \<in> set (tables D i 12)" by (simp add: tables_def)
  ultimately show ?thesis unfolding meta_sectors_def by force
qed

lemma sectors_needed_eq:
  assumes "n_sectors i \<le> bytes_to_data_sectors len" "bytes_to_data_sectors len \<le> 140"
  shows "sectors_needed i len = bytes_to_data_sectors len - n_sectors i + (if n_sectors i \<le> 12 \<and> 12 < bytes_to_data_sectors len then 1 else 0)"
  using assms bytes_to_indirect_small [of len] bytes_to_indirect_small [of "id_length i"] by (auto simp: sectors_needed_def n_sectors_def)

lemma filled_disk_cong: "D x = E x \<Longrightarrow> filled_disk n0 n1 sectors i D x = filled_disk n0 n1 sectors i E x"
  by (auto simp: filled_disk_def zeroed_def fill_table_def)

lemma filled_disk_frame:
  assumes "x \<notin> set sectors" "12 < n0 \<Longrightarrow> x \<noteq> indblock i" "length sectors = n1 - n0 + (if n0 \<le> 12 \<and> 12 < n1 then 1 else 0)"
  shows "filled_disk n0 n1 sectors i D x = D x"
proof (cases "12 < n1")
  case True
  then have "x \<noteq> indblock (filled n0 n1 sectors i)" using assms nth_mem [of "n1 - n0" sectors] by (auto simp: filled_def)
  then show ?thesis using assms(1) by (auto simp: filled_disk_def fill_table_def zeroed_def dest: in_set_takeD)
next
  case False
  then have "drop (new_direct n0 n1) (take (n1 - n0) sectors) = []" by (auto simp: new_direct_def min_def)
  then show ?thesis using assms(1) by (auto simp: filled_disk_def zeroed_def dest: in_set_takeD)
qed

context free_map_store
begin

lemma extend_ok:
  assumes I: "I k" and f: "file_in_map own k s i" and len: "id_length i \<le> len" "len \<le> 71680"
    and free: "sectors_needed i len \<le> length (free_sectors (free_map k))"
  shows "\<exists>k'. inode_disk_extend bw i len k = Some (True, grown k i len, k') \<and> I k' \<and>
     bits_set (free_map k) (set (taken_sectors k i len)) True (free_map k') \<and> cache_step (k\<lparr>free_map := free_map k'\<rparr>) k' \<and>
     (\<forall>x. x \<notin> own \<longrightarrow> disk k' x = filled_disk (n_sectors i) (bytes_to_data_sectors len) (taken_sectors k i len) (i\<lparr>id_length := len\<rparr>) (disk k) x)"
proof -
  define n0 n1 where "n0 = n_sectors i" and "n1 = bytes_to_data_sectors len"
  let ?S = "taken_sectors k i len" let ?i = "i\<lparr>id_length := len\<rparr>"
  note kok = inv_ok [OF I]
  have fok: "file_ok (disk_size k) (disk k) s i" using f by (simp add: file_in_map_def)
  have pos: "0 \<le> id_length i" using file_okD(2) [OF fok] .
  have n: "n0 \<le> n1" "n1 \<le> 140" using data_sectors_mono [of "id_length i" len] data_sectors_mono [of len 71680] pos len
    by (auto simp: n0_def n1_def n_sectors_def bytes_to_data_sectors_eq [of 71680])
  have need: "sectors_needed i len = n1 - n0 + (if n0 \<le> 12 \<and> 12 < n1 then 1 else 0)" using sectors_needed_eq n by (simp add: n0_def n1_def)
  show ?thesis
  proof (cases "n0 = n1")
    case True
    then have "sectors_needed i len = 0" using need by auto
    moreover from this have "bytes_to_data_sectors len - bytes_to_data_sectors (id_length i) = 0"
        "bytes_to_indirect_sectors len - bytes_to_indirect_sectors (id_length i) = 0" by (simp_all add: sectors_needed_def n_sectors_def)
    moreover have "filled n0 n1 [] ?i = ?i" "filled_disk n0 n1 [] ?i (disk k) = disk k" using True by (auto simp: filled_def filled_disk_def new_direct_def)
    ultimately show ?thesis using I len kok cache_step_refl bits_set_refl
      by (simp add: inode_disk_extend_def grown_def n0_def [symmetric] n1_def [symmetric])
  next
    case False
    then have pos: "0 < sectors_needed i len" using need n by simp
    obtain k1 where k1: "free_map_allocate bw (sectors_needed i len) k = Some (True, ?S, k1)" "I k1"
        "bits_set (free_map k) (set ?S) True (free_map k1)" "cache_step (k\<lparr>free_map := free_map k1\<rparr>) k1" "\<forall>x. x \<notin> own \<longrightarrow> disk k1 x = disk k x"
      using allocate_ok [OF I pos free] by blast
    have sz: "disk_size k1 = disk_size k" using cache_stepD(9) [OF k1(4)] by simp
    have S: "x \<in> set (free_sectors (free_map k))" if "x \<in> set ?S" for x using that by (meson in_set_takeD)
    have d: "\<forall>s\<in>set ?S. s < disk_size k1" "distinct ?S" using file_in_map_free(5) [OF f S] sz by (auto simp: free_sectors_def)
    have l: "length ?S = n1 - n0 + (if n0 \<le> 12 \<and> 12 < n1 then 1 else 0)" using free need by simp
    have ind: "indblock i < disk_size k1" "indblock i \<notin> own" if "12 < n0"
      using meta_indirect [of i "disk k"] f that file_okD(9) [OF fok] unfolding n0_def file_in_map_def sz by blast+
    have db: "length (dblocks ?i) = 12"
      using bytes_inode_disk_ok [OF disk_length [of k s]] kok file_okD(1,4) [OF fok] by (auto simp: inode_disk_ok_def)
    obtain k2 where k2: "inode_disk_fill ?i ?S n0 (n1 - n0) k1 = Some (filled n0 n1 ?S ?i, k2)" "cache_step k1 k2"
        "disk k2 = filled_disk n0 n1 ?S ?i (disk k1)"
      using inode_disk_fill_ok [OF _ d l db] inv_ok [OF k1(2)] ind n False by auto
    have "I k2"
    proof (rule inv_step [OF k1(2) k2(2)])
      fix x assume "x \<in> own"
      then have "x \<notin> set ?S" "12 < n0 \<Longrightarrow> x \<noteq> indblock ?i" using file_in_map_free(1) [OF f S] ind by auto
      then show "disk k2 x = disk k1 x" unfolding k2(3) using filled_disk_frame l by blast
    qed
    moreover have fm: "free_map k2 = free_map k1" using cache_stepD(5) [OF k2(2)] .
    moreover have "bytes_to_data_sectors (id_length i) < bytes_to_data_sectors len" using n(1) False by (simp add: n0_def n1_def n_sectors_def)
    then have "inode_disk_extend bw i len k = Some (True, grown k i len, k2)"
      using k1(1) k2(1) len kok by (simp add: inode_disk_extend_def Let_def grown_def sectors_needed_def n_sectors_def n0_def n1_def fs_ok_def)
    moreover have "\<forall>x. x \<notin> own \<longrightarrow> disk k2 x = filled_disk n0 n1 ?S ?i (disk k) x"
      using k1(5) k2(3) filled_disk_cong by metis
    ultimately show ?thesis using k1(3) cache_step_trans [OF k1(4) k2(2)] unfolding n0_def n1_def by auto
  qed
qed

end

text \<open>The file after the extension, once its inode is stored: the old sectors as they were, and the new ones zero.\<close>

abbreviation new_sectors :: "fs \<Rightarrow> inode_disk \<Rightarrow> int \<Rightarrow> nat list" where
  "new_sectors k i len \<equiv> take (bytes_to_data_sectors len - n_sectors i) (taken_sectors k i len)"

lemma grown_range:
  assumes "id_length i \<le> len" "len \<le> 71680" "file_ok z D s i"
  shows "n_sectors i \<le> bytes_to_data_sectors len" "bytes_to_data_sectors len \<le> 140"
  using data_sectors_mono [of "id_length i" len] data_sectors_mono [of len 71680] file_okD(2) [OF assms(3)] assms(1,2)
  by (auto simp: n_sectors_def bytes_to_data_sectors_eq [of 71680])

lemma set_patch: "set (patch q a xs) \<subseteq> set xs \<union> set a"
  by (auto simp: patch_def dest: in_set_takeD in_set_dropD)

lemma grown_inode_ok:
  assumes "inode_disk_ok i" "bitmap_wf (free_map k)" "0 \<le> len" "len < 2 ^ 31" "sectors_needed i len \<le> length (free_sectors (free_map k))"
    "n_sectors i \<le> bytes_to_data_sectors len" "bytes_to_data_sectors len \<le> 140"
  shows "inode_disk_ok (grown k i len)"
proof -
  define S where "S = taken_sectors k i len"
  let ?n0 = "n_sectors i" let ?n1 = "bytes_to_data_sectors len"
  have less: "x < 2 ^ 32" if "x \<in> set S" for x
  proof -
    have "x \<in> set (free_sectors (free_map k))" using that unfolding S_def by (meson in_set_takeD)
    then show ?thesis using free_sectors_mem [of x "free_map k"] wf_bit_cnt [OF assms(2)] by simp
  qed
  have l: "length S = ?n1 - ?n0 + (if ?n0 \<le> 12 \<and> 12 < ?n1 then 1 else 0)" using sectors_needed_eq assms(5-7) by (simp add: S_def)
  have A: "length (take (new_direct ?n0 ?n1) S) = new_direct ?n0 ?n1" using l assms(6) by (auto simp: new_direct_def min_def)
  have A': "set (take (new_direct ?n0 ?n1) S) \<subseteq> set S" by (rule set_take_subset)
  have "min ?n0 12 + new_direct ?n0 ?n1 \<le> 12" by (simp add: new_direct_def)
  then have p: "length (patch (min ?n0 12) (take (new_direct ?n0 ?n1) S) (dblocks i)) = 12"
      "set (patch (min ?n0 12) (take (new_direct ?n0 ?n1) S) (dblocks i)) \<subseteq> set (dblocks i) \<union> set S"
    using assms(1) A A' set_patch [of "min ?n0 12" "take (new_direct ?n0 ?n1) S" "dblocks i"] by (auto simp: inode_disk_ok_def)
  have "S ! (?n1 - ?n0) < 2 ^ 32" if "?n0 \<le> 12 \<and> 12 < ?n1" using less nth_mem [of "?n1 - ?n0" S] l that by auto
  then show ?thesis using assms(1,3,4) p less by (auto simp: inode_disk_ok_def grown_def filled_def S_def [symmetric])
qed

lemma distinct_take_nth: "distinct xs \<Longrightarrow> n < length xs \<Longrightarrow> xs ! n \<notin> set (take n xs)"
  by (auto simp: in_set_conv_nth nth_eq_iff_index_eq)

lemma taken_free: "x \<in> set (taken_sectors k i len) \<Longrightarrow> x \<in> set (free_sectors (free_map k))"
  by (meson in_set_takeD)

lemma length_taken:
  assumes "n_sectors i \<le> bytes_to_data_sectors len" "bytes_to_data_sectors len \<le> 140" "sectors_needed i len \<le> length (free_sectors (free_map k))"
  shows "length (taken_sectors k i len) = bytes_to_data_sectors len - n_sectors i + (if n_sectors i \<le> 12 \<and> 12 < bytes_to_data_sectors len then 1 else 0)"
  using sectors_needed_eq assms by simp

text \<open>The indirect block of the extended inode is the old one or a new sector that is not a data sector.\<close>

lemma grown_indblock:
  assumes f: "file_in_map own k s i" and n: "n_sectors i \<le> bytes_to_data_sectors len" "bytes_to_data_sectors len \<le> 140"
    and free: "sectors_needed i len \<le> length (free_sectors (free_map k))" and i: "12 < bytes_to_data_sectors len"
  shows "indblock (grown k i len) \<notin> set (new_sectors k i len)" "indblock (grown k i len) < disk_size k" "indblock (grown k i len) \<notin> own"
    "indblock (grown k i len) \<noteq> s" "indblock (grown k i len) \<in> set (meta_sectors (disk k) i) \<union> set (taken_sectors k i len)"
    "indblock (grown k i len) \<notin> set (data_sectors (disk k) i)"
proof -
  define S where "S = taken_sectors k i len"
  let ?n0 = "n_sectors i" let ?n1 = "bytes_to_data_sectors len" let ?b = "indblock (grown k i len)"
  have dS: "distinct S" by (simp add: S_def free_sectors_def)
  have fok: "file_ok (disk_size k) (disk k) s i" using f by (simp add: file_in_map_def)
  have new: "set (take (?n1 - ?n0) S) \<subseteq> set S" by (rule set_take_subset)
  consider "?b \<in> set S" "?b \<notin> set (take (?n1 - ?n0) S)" | "?b \<in> set (meta_sectors (disk k) i)"
  proof (cases "?n0 \<le> 12")
    case True
    then have m: "?b = S ! (?n1 - ?n0)" "?n1 - ?n0 < length S" using i length_taken [OF n free] by (simp_all add: grown_def filled_def S_def)
    show ?thesis using that(1) nth_mem [OF m(2)] distinct_take_nth [OF dS m(2)] unfolding m(1) by blast
  next
    case False
    then have "?b = indblock i" by (simp add: grown_def filled_def)
    then show ?thesis using that(2) meta_indirect False by simp
  qed
  then have "?b \<notin> set (take (?n1 - ?n0) S) \<and> ?b < disk_size k \<and> ?b \<notin> own \<and> ?b \<noteq> s \<and>
      ?b \<in> set (meta_sectors (disk k) i) \<union> set S \<and> ?b \<notin> set (data_sectors (disk k) i)"
  proof cases
    case 1
    then show ?thesis using file_in_map_free [OF f taken_free] unfolding S_def by blast
  next
    case 2
    then have "?b \<notin> set S" using file_in_map_free(4) [OF f taken_free] unfolding S_def by blast
    moreover have "?b \<notin> own" using f 2 unfolding file_in_map_def by blast
    ultimately show ?thesis using 2 new file_okD(6,9,12) [OF fok] by blast
  qed
  then show "?b \<notin> set (new_sectors k i len)" "?b < disk_size k" "?b \<notin> own"
    "?b \<noteq> s" "?b \<in> set (meta_sectors (disk k) i) \<union> set (taken_sectors k i len)" "?b \<notin> set (data_sectors (disk k) i)"
    unfolding S_def by blast+
qed

lemma tables_small: "n \<le> 140 \<Longrightarrow> set (concat (map (tables D i) [0..<n])) = (if 12 < n then {indblock i} else {})"
proof (induction n)
  case (Suc n)
  then show ?case by (auto simp: tables_def)
qed simp

lemma bmap_upd_length [simp]: "bmap D (i\<lparr>id_length := len\<rparr>) = bmap D i"
  by (simp add: bmap_def fun_eq_iff)

lemma taken_less:
  assumes "bitmap_wf (free_map k)" "x \<in> set (taken_sectors k i len)"
  shows "x < 2 ^ 32"
  using free_sectors_mem [of x "free_map k"] taken_free [OF assms(2)] wf_bit_cnt [OF assms(1)] by simp

lemma grown_data:
  assumes f: "file_in_map own k s i" and ok: "fs_ok k" "bitmap_wf (free_map k)" and len: "id_length i \<le> len" "len \<le> 71680"
    and free: "sectors_needed i len \<le> length (free_sectors (free_map k))"
    and D: "\<And>x. x \<notin> own \<Longrightarrow> x \<noteq> s \<Longrightarrow> D x = filled_disk (n_sectors i) (bytes_to_data_sectors len) (taken_sectors k i len) (i\<lparr>id_length := len\<rparr>) (disk k) x"
  shows "data_sectors D (grown k i len) = data_sectors (disk k) i @ new_sectors k i len"
proof -
  define S where "S = taken_sectors k i len"
  let ?n0 = "n_sectors i" let ?n1 = "bytes_to_data_sectors len" let ?i = "i\<lparr>id_length := len\<rparr>" let ?b = "indblock (filled ?n0 ?n1 S ?i)"
  have fok: "file_ok (disk_size k) (disk k) s i" using f by (simp add: file_in_map_def)
  note n = grown_range [OF len fok]
  have g: "grown k i len = filled ?n0 ?n1 S ?i" by (simp add: grown_def S_def)
  have l: "?n1 - ?n0 \<le> length S" using length_taken [OF n free] by (simp add: S_def)
  have s: "\<forall>x\<in>set S. x < 2 ^ 32"
    using taken_less [OF ok(2)] unfolding S_def by blast
  have db: "length (dblocks ?i) = 12"
    using bytes_inode_disk_ok [OF disk_length [OF ok(1)]] file_okD(1,4) [OF fok] by (auto simp: inode_disk_ok_def)
  have b: "D ?b = filled_disk ?n0 ?n1 S ?i (disk k) ?b" "length (disk k ?b) = BLOCK_SECTOR_SIZE" "?b \<notin> set (take (?n1 - ?n0) S)" if "12 < ?n1"
    using grown_indblock [OF f n free that] D [of ?b] disk_length [OF ok(1), of ?b] by (simp_all add: g S_def [symmetric])
  have m1: "bmap D (filled ?n0 ?n1 S ?i) j = bmap (disk k) ?i j" if "j < ?n0" for j
    by (rule filled_bmap(1) [OF refl _ _ _ n s l db that]) (fact b)+
  have m2: "bmap D (filled ?n0 ?n1 S ?i) j = S ! (j - ?n0)" if "?n0 \<le> j" "j < ?n1" for j
    by (rule filled_bmap(2) [OF refl _ _ _ n s l db that]) (fact b)+
  have "data_sectors D (grown k i len) = map (bmap D (grown k i len)) [0..<?n0] @ map (bmap D (grown k i len)) [?n0..<?n1]"
    using n(1) upt_add_eq_append [of 0 ?n0 "?n1 - ?n0"] by (simp add: data_sectors_def n_sectors_def grown_def filled_def)
  moreover have "map (bmap D (grown k i len)) [0..<?n0] = data_sectors (disk k) i"
    using m1 by (simp add: data_sectors_def g)
  moreover have "map (bmap D (grown k i len)) [?n0..<?n1] = take (?n1 - ?n0) S"
    using m2 l by (intro nth_equalityI) (simp_all add: g)
  ultimately show ?thesis by (simp add: S_def)
qed

lemma grown_file_ok:
  assumes f: "file_in_map own k s i" and ok: "fs_ok k" "bitmap_wf (free_map k)" and len: "id_length i \<le> len" "len \<le> 71680"
    and free: "sectors_needed i len \<le> length (free_sectors (free_map k))"
    and D: "\<And>x. x \<notin> own \<Longrightarrow> x \<noteq> s \<Longrightarrow> D x = filled_disk (n_sectors i) (bytes_to_data_sectors len) (taken_sectors k i len) (i\<lparr>id_length := len\<rparr>) (disk k) x"
      "D s = inode_disk_bytes (grown k i len)"
  shows "set (meta_sectors D (grown k i len)) \<subseteq> set (meta_sectors (disk k) i) \<union> set (taken_sectors k i len)"
    "file_ok (disk_size k) D s (grown k i len)"
    "x \<in> set (data_sectors (disk k) i) \<Longrightarrow> D x = disk k x" "x \<in> set (new_sectors k i len) \<Longrightarrow> D x = zeros"
proof -
  define S N where "S = taken_sectors k i len" and "N = new_sectors k i len"
  let ?n0 = "n_sectors i" let ?n1 = "bytes_to_data_sectors len" let ?i = "grown k i len"
  have fok: "file_ok (disk_size k) (disk k) s i" using f by (simp add: file_in_map_def)
  note n = grown_range [OF len fok] and d = file_okD(6) [OF fok]
  have iok: "inode_disk_ok i" using bytes_inode_disk_ok [OF disk_length [OF ok(1)]] file_okD(1,4) [OF fok] by auto
  have giok: "inode_disk_ok ?i" using grown_inode_ok [OF iok ok(2)] file_okD(2) [OF fok] len free n by simp
  have NS: "set N \<subseteq> set S" unfolding N_def S_def by (rule set_take_subset)
  have fr: "x \<notin> own" "x \<noteq> s" "x \<notin> set (data_sectors (disk k) i)" "x < disk_size k" if "x \<in> set S" for x
    using file_in_map_free [OF f taken_free] that unfolding S_def by blast+
  have ds: "data_sectors D ?i = data_sectors (disk k) i @ N" using grown_data [OF f ok len free D(1)] unfolding N_def by blast
  have ms: "set (meta_sectors D ?i) = (if 12 < ?n1 then {indblock ?i} else {})"
    using tables_small [OF n(2), of D ?i] by (simp add: meta_sectors_def n_sectors_def grown_def filled_def)
  show "set (meta_sectors D ?i) \<subseteq> set (meta_sectors (disk k) i) \<union> set (taken_sectors k i len)"
    using ms grown_indblock(5) [OF f n free] by auto
  have N: "distinct N" by (simp add: N_def free_sectors_def)
  have b: "set (meta_sectors D ?i) \<inter> insert s (set (data_sectors D ?i)) = {}" "\<forall>x\<in>set (meta_sectors D ?i). x < disk_size k"
    using ms ds grown_indblock [OF f n free] unfolding N_def by (auto split: if_splits)
  have "id_length ?i = len" by (simp add: grown_def filled_def)
  moreover have "distinct (data_sectors D ?i)" using file_okD(5) [OF fok] N fr(3) NS by (auto simp: ds)
  moreover have "s \<notin> set (data_sectors D ?i)" using d fr(2) NS by (auto simp: ds)
  moreover have "\<forall>x\<in>set (data_sectors D ?i). x < disk_size k" using file_okD(8) [OF fok] fr(4) NS by (auto simp: ds)
  ultimately show "file_ok (disk_size k) D s ?i"
    using b inode_disk_roundtrip [OF giok] len file_okD(2,4) [OF fok] by (simp add: file_ok_def D(2) Int_commute ball_Un)
  show "D x = disk k x" if "x \<in> set (data_sectors (disk k) i)"
  proof -
    have "x \<notin> own" "x \<noteq> s" using f that d unfolding file_in_map_def by blast+
    moreover have "x \<notin> set S" using fr(3) that by blast
    moreover have "12 < ?n0 \<Longrightarrow> x \<noteq> indblock i" using meta_indirect [of i "disk k"] d that by blast
    ultimately show ?thesis using D(1) filled_disk_frame [of x S ?n0 "i\<lparr>id_length := len\<rparr>" ?n1 "disk k"] length_taken [OF n free] by (simp add: S_def)
  qed
  show "D x = zeros" if "x \<in> set (new_sectors k i len)"
    using that D(1) [of x] fr(1,2) [of x] NS unfolding N_def S_def filled_disk_def by auto
qed

section \<open>Writing past the end of a file\<close>

text \<open>All bytes in the sectors of a file, with those after its end.\<close>

definition sector_bytes :: "(nat \<Rightarrow> byte list) \<Rightarrow> inode_disk \<Rightarrow> byte list" where
  "sector_bytes D i = concat (map D (data_sectors D i))"

lemma concat_zeros: "concat (replicate n zeros) = replicate (512 * n) 0"
  by (induction n) (simp_all add: replicate_add [symmetric])

lemma grown_bytes:
  assumes f: "file_in_map own k s i" and ok: "fs_ok k" "bitmap_wf (free_map k)" and len: "id_length i \<le> len" "len \<le> 71680"
    and free: "sectors_needed i len \<le> length (free_sectors (free_map k))"
    and D: "\<And>x. x \<notin> own \<Longrightarrow> x \<noteq> s \<Longrightarrow> D x = filled_disk (n_sectors i) (bytes_to_data_sectors len) (taken_sectors k i len) (i\<lparr>id_length := len\<rparr>) (disk k) x"
      "D s = inode_disk_bytes (grown k i len)"
  shows "sector_bytes D (grown k i len) = sector_bytes (disk k) i @ replicate (512 * (bytes_to_data_sectors len - n_sectors i)) 0"
proof -
  define N where "N = new_sectors k i len"
  have fok: "file_ok (disk_size k) (disk k) s i" using f by (simp add: file_in_map_def)
  have N: "length N = bytes_to_data_sectors len - n_sectors i" using length_taken [OF grown_range [OF len fok] free] by (simp add: N_def)
  have "map D (data_sectors (disk k) i) = map (disk k) (data_sectors (disk k) i)"
    using grown_file_ok(3) [OF f ok len free D] by (intro map_cong) simp_all
  moreover have "D x = zeros" if "x \<in> set N" for x using grown_file_ok(4) [OF f ok len free D] that unfolding N_def by blast
  then have "map D N = replicate (bytes_to_data_sectors len - n_sectors i) zeros" using N by (intro nth_equalityI) simp_all
  moreover have "data_sectors D (grown k i len) = data_sectors (disk k) i @ N" unfolding N_def by (rule grown_data [OF f ok len free D(1)])
  ultimately show ?thesis by (simp add: sector_bytes_def concat_zeros del: map_eq_conv)
qed

lemma file_in_map_quiet: "quiet_step k k' \<Longrightarrow> file_in_map own k s i \<Longrightarrow> file_in_map own k' s i"
  using quiet_stepD [of k k'] cache_stepD(5) [of k k'] by (simp add: file_in_map_def)

context free_map_store
begin

lemma write_grows:
  assumes I: "I k" and m: "inodes k p = Some m" "deny_write_cnt m = 0" and f: "file_in_map own k (i_sector m) i"
    and len: "len = int (q + length buf)" "id_length i \<le> len" "len \<le> 71680"
    and free: "sectors_needed i len \<le> length (free_sectors (free_map k))"
  shows "\<exists>k'. inode_write_at bw p buf (int q) k = Some (int (length buf), k') \<and> I k' \<and> inodes k' = inodes k \<and>
     file_ok (disk_size k) (disk k') (i_sector m) (grown k i len) \<and>
     file_bytes (disk k') (grown k i len) = take q (sector_bytes (disk k) i @ replicate (512 * (bytes_to_data_sectors len - n_sectors i)) 0) @ buf \<and>
     bits_set (free_map k) (set (taken_sectors k i len)) True (free_map k') \<and>
     (\<forall>x. x \<notin> own \<union> insert (i_sector m) (set (data_sectors (disk k) i) \<union> set (meta_sectors (disk k) i) \<union> set (taken_sectors k i len)) \<longrightarrow> disk k' x = disk k x)"
proof -
  let ?s = "i_sector m" let ?i = "grown k i len"
  have fok: "file_ok (disk_size k) (disk k) ?s i" using f by (simp add: file_in_map_def)
  have s: "?s < disk_size k" using file_okD(4) [OF fok] .
  have s32: "s32 (int q + int (length buf)) = len" using len by simp
  obtain k1 where k1: "inode_get_data p k = Some (i, k1)" "quiet_step k k1"
    using inode_get_data_step [OF conjunct1 [OF inv_ok [OF I]] m(1) s] file_okD(1) [OF fok] by auto
  note q1 = quiet_stepD [OF k1(2)]
  have I1: "I k1" using inv_step [OF I q1(1)] q1(2) by simp
  have fm1: "free_map k1 = free_map k" using cache_stepD(5) [OF q1(1)] .
  have g1: "grown k1 i len = ?i" by (simp add: grown_def fm1)
  note f1 = file_in_map_quiet [OF k1(2) f]
  obtain k2 where k2: "inode_disk_extend bw i len k1 = Some (True, ?i, k2)" "I k2"
      "bits_set (free_map k) (set (taken_sectors k i len)) True (free_map k2)" "cache_step (k1\<lparr>free_map := free_map k2\<rparr>) k2"
      "\<forall>x. x \<notin> own \<longrightarrow> disk k2 x = filled_disk (n_sectors i) (bytes_to_data_sectors len) (taken_sectors k i len) (i\<lparr>id_length := len\<rparr>) (disk k) x"
    using extend_ok [OF I1 f1 len(2,3)] free by (auto simp: fm1 g1 q1)
  have i: "inode_disk_ok ?i"
    using grown_inode_ok [OF _ _ _ _ free grown_range [OF len(2,3) fok]] bytes_inode_disk_ok [OF disk_length [of k ?s]] inv_ok [OF I] s
      file_okD(1,2) [OF fok] len by simp
  have sz2: "disk_size k2 = disk_size k" "inodes k2 = inodes k" using cache_stepD(9,1) [OF k2(4)] q1 by simp_all
  obtain k3 where k3: "cache_do (cache_write ?s (inode_disk_bytes ?i)) k2 = Some k3" "cache_step k2 k3" "disk k3 = (disk k2)(?s := inode_disk_bytes ?i)"
    using cache_write_sector [OF conjunct1 [OF inv_ok [OF k2(2)]] _ length_inode_disk_bytes [OF i], of ?s] s sz2(1) by auto
  have own: "?s \<notin> own" "set (data_sectors (disk k) i) \<inter> own = {}" "set (taken_sectors k i len) \<inter> own = {}"
    using f file_in_map_free(1) [OF f taken_free] unfolding file_in_map_def by blast+
  have I3: "I k3" by (rule inv_step [OF k2(2) k3(2)]) (use own(1) k3(3) in auto)
  have D: "disk k3 x = filled_disk (n_sectors i) (bytes_to_data_sectors len) (taken_sectors k i len) (i\<lparr>id_length := len\<rparr>) (disk k) x"
    if "x \<notin> own" "x \<noteq> ?s" for x using k2(5) k3(3) that by simp
  have Ds: "disk k3 ?s = inode_disk_bytes ?i" by (simp add: k3(3))
  note kok = inv_ok [OF I]
  note gfo = grown_file_ok [OF f _ _ len(2,3) free D Ds] and gd = grown_data [OF f _ _ len(2,3) free D]
  have fok3: "file_ok (disk_size k3) (disk k3) ?s ?i" using gfo(2) kok cache_stepD(9) [OF k3(2)] sz2 by simp
  have idl: "id_length ?i = len" by (simp add: grown_def filled_def)
  obtain k4 where k4: "inode_write_loop (length buf) p ?i buf (int q) 0 k3 = Some (0 + int (length buf), k4)" "file_written k3 k4 ?i q buf"
    using inode_write_loop_ok [OF conjunct1 [OF inv_ok [OF I3]] _ fok3, of p q buf "length buf" 0] m(1) len(1) cache_stepD(1) [OF k3(2)] sz2 idl by auto
  note w = file_writtenD [OF k4(2) fok3]
  have frame: "disk k4 x = disk k3 x" if "x \<notin> set (data_sectors (disk k) i) \<union> set (taken_sectors k i len)" for x
    using k4(2) that gd kok set_take_subset [of _ "taken_sectors k i len"] unfolding file_written_def by auto
  have "I k4" by (rule inv_step [OF I3 w(1)]) (use frame own(2,3) in blast)
  moreover have "file_bytes (disk k4) ?i = take q (sector_bytes (disk k) i @ replicate (512 * (bytes_to_data_sectors len - n_sectors i)) 0) @ buf"
      (is "_ = take q ?Y @ buf")
  proof -
    have "sector_bytes (disk k3) ?i = ?Y" using grown_bytes [OF f _ _ len(2,3) free D Ds] kok by blast
    moreover have "nat len = q + length buf" using len(1) by simp
    ultimately have "file_bytes (disk k3) ?i = take (q + length buf) ?Y" unfolding file_bytes_def idl sector_bytes_def by presburger
    moreover have "patch q buf (take (q + length buf) Y) = take q Y @ buf" for Y by (simp add: patch_def min_def)
    ultimately show ?thesis using k4(2) unfolding file_written_def by presburger
  qed
  moreover have "disk k4 x = disk k x"
    if "x \<notin> own \<union> insert ?s (set (data_sectors (disk k) i) \<union> set (meta_sectors (disk k) i) \<union> set (taken_sectors k i len))" for x
  proof -
    have "12 < n_sectors i \<Longrightarrow> x \<noteq> indblock i" using meta_indirect [of i "disk k"] that by blast
    then have "disk k3 x = disk k x"
      using D [of x] filled_disk_frame [of x "taken_sectors k i len" "n_sectors i" "i\<lparr>id_length := len\<rparr>" "bytes_to_data_sectors len" "disk k"]
        length_taken [OF grown_range [OF len(2,3) fok] free] that by simp
    then show ?thesis using frame [of x] that by simp
  qed
  moreover have "inode_write_at bw p buf (int q) k = Some (int (length buf), k4)"
    using m k1(1) k2(1) k3(1) k4(1) by (simp add: inode_write_at_def s32)
  moreover have "free_map k4 = free_map k2" "inodes k4 = inodes k" "file_ok (disk_size k) (disk k4) ?s ?i"
    using cache_stepD(1,5,9) [OF k3(2)] cache_stepD(5) [OF w(1)] w(3,5) sz2 by simp_all
  ultimately show ?thesis using k2(3) by (intro exI [of _ k4]) simp
qed

end

end
