(* ===== verification/Inode_Release.thy ===== *)
theory Inode_Release
  imports Inode_Growth
begin

text \<open>
  Freeing the sectors of a removed file, and the limits of the inode code: what happens past the end of the device
  and of a file, when a file grows across its indirect block, and when the disk is full.
\<close>

section \<open>Past the end of the device\<close>

lemma block_read_past_end: "device_size d b \<le> s \<Longrightarrow> block_read b s d = None"
  by (cases "length (all_blocks d)") (auto simp: block_read_def device_size_def check_sector_def split: option.splits)

lemma read_entry_past_end:
  assumes "ce_sector (cache c ! i) = s" "fs_size c \<le> s"
  shows "read_cache_entry_from_disk i c = None"
  using assms block_read_past_end [of "dev c" "fs_device c" s] by (simp add: read_cache_entry_from_disk_def fs_size_def)

lemma get_cache_entry_past_end:
  assumes ok: "cache_ok c" and s: "fs_size c \<le> s"
  shows "get_cache_entry s c = None"
proof -
  note l = cache_len [OF ok]
  have sz: "fs_size (upd_entry i f c') = fs_size c'" for i f c' by (simp add: fs_size_def upd_entry_def)
  consider i where "search_cache s (cache c) 0 None = Inl i" | i where "search_cache s (cache c) 0 None = Inr (Some i)"
    | "search_cache s (cache c) 0 None = Inr None"
    by (metis Inl_Inr_False not_None_eq old.sum.exhaust)
  then show ?thesis
  proof cases
    case 1
    then have "holds s (cache c ! i)" "i < CACHE_NUM_SECTORS" using search_cache_Inl [of s "cache c" 0 None i] l by simp_all
    then show ?thesis using cache_entry_ok [OF ok] s by (fastforce simp: holds_def entry_ok_def)
  next
    case 2
    then have "i < length (cache c)" using search_cache_Inr [OF 2] by simp
    then show ?thesis using 2 read_entry_past_end [of "upd_entry i (\<lambda>e. e\<lparr>ce_sector := s, ce_free := False\<rparr>) c" i s] s
      by (simp add: get_cache_entry_def sz) (simp add: upd_entry_def)
  next
    case 3
    let ?i = "get_cache_entry_to_evict (cache c)"
    have i: "?i < CACHE_NUM_SECTORS" using evict_lru(1) [of "cache c"] l by fastforce
    have "\<not> ce_free (cache c ! ?i)" using search_cache_Inr [OF 3] i l by simp
    then obtain c' where c': "write_cache_entry_to_disk ?i c = Some c'" "cache_ok c'" "cache_frame c c'" using write_entry_ok [OF ok i] by blast
    then have "read_cache_entry_from_disk ?i (upd_entry ?i (\<lambda>e. e\<lparr>ce_sector := s\<rparr>) c') = None"
      using read_entry_past_end [of "upd_entry ?i (\<lambda>e. e\<lparr>ce_sector := s\<rparr>) c'" ?i s] s i cache_len [OF c'(2)] cache_frame_size [OF c'(3)]
      by (simp add: sz) (simp add: upd_entry_def)
    then show ?thesis using 3 c'(1) by (simp add: get_cache_entry_def Let_def)
  qed
qed

lemma cache_read_past_end: "cache_ok c \<Longrightarrow> fs_size c \<le> s \<Longrightarrow> cache_read_partial s n m c = None"
  by (simp add: cache_read_partial_def get_cache_entry_past_end)

lemma read_words_cases:
  assumes "fs_ok k" "read_words s k = Some (ws, k')"
  shows "s < disk_size k \<and> ws = sector_words (disk k s) \<and> quiet_step k k'"
proof (cases "s < disk_size k")
  case True
  then show ?thesis using read_words_step [OF assms(1) True] assms(2) by auto
next
  case False
  then have "read_words s k = None"
    using cache_read_past_end [of "bc k" s] assms(1) by (simp add: read_words_def on_cache_def cache_read_def fs_ok_def)
  then show ?thesis using assms(2) by simp
qed

section \<open>Freeing sectors\<close>

text \<open>Bits of the free map are only ever cleared.\<close>

definition only_clears :: "fs \<Rightarrow> fs \<Rightarrow> bool" where
  "only_clears k k' \<longleftrightarrow> bit_cnt (free_map k') = bit_cnt (free_map k) \<and> disk_size k' = disk_size k \<and>
     (\<forall>j<bit_cnt (free_map k). bitmap_abs (free_map k') ! j \<longrightarrow> bitmap_abs (free_map k) ! j)"

lemma only_clears_refl: "only_clears k k"
  by (simp add: only_clears_def)

lemma only_clears_trans: "only_clears k k' \<Longrightarrow> only_clears k' k'' \<Longrightarrow> only_clears k k''"
  by (auto simp: only_clears_def)

context free_map_store
begin

lemma inv_quiet: "I k \<Longrightarrow> quiet_step k k' \<Longrightarrow> I k'"
  using inv_step quiet_stepD(1,2) by metis

lemma read_words_inv: "I k \<Longrightarrow> read_words s k = Some (ws, k') \<Longrightarrow> I k' \<and> only_clears k k'"
  using read_words_cases [of k s ws k'] inv_ok [of k] inv_quiet [of k k'] quiet_stepD(4) [of k k'] cache_stepD(5) [OF quiet_stepD(1) [of k k']]
  by (auto simp: only_clears_def)

lemma release_cases:
  assumes I: "I k" and r: "free_map_release bw s 1 k = Some k'"
  shows "s < bit_cnt (free_map k)" "bitmap_abs (free_map k) ! s" "I k'" "bits_set (free_map k) {s} False (free_map k')" "only_clears k k'"
    "\<forall>x. x \<notin> own \<longrightarrow> disk k' x = disk k x"
proof -
  have wf: "bitmap_wf (free_map k)" using inv_ok [OF I] by blast
  have le: "s \<le> bit_cnt (free_map k)" "u32 (s + 1) \<le> bit_cnt (free_map k)"
    using r by (auto simp: free_map_release_def bitmap_all_def bitmap_contains_def option_bind_Some split: if_splits)
  then have s: "s < bit_cnt (free_map k)" using u32_in_range [OF wf, of s] wf by (cases "s = bit_cnt (free_map k)") (auto simp: bitmap_wf_def u32_def)
  then have "bitmap_all (free_map k) s 1 = Some (bitmap_abs (free_map k) ! s)"
    using bitmap_contains_ok [OF wf, of s 1 False] by (simp add: bitmap_all_def range_is_def)
  then have u: "bitmap_abs (free_map k) ! s" using r by (auto simp: free_map_release_def split: if_splits)
  have ok: "I k'" "bits_set (free_map k) {s} False (free_map k')" "cache_step (k\<lparr>free_map := free_map k'\<rparr>) k'" "\<forall>x. x \<notin> own \<longrightarrow> disk k' x = disk k x"
    using release_ok [OF I s u] r by auto
  then show "s < bit_cnt (free_map k)" "bitmap_abs (free_map k) ! s" "I k'" "bits_set (free_map k) {s} False (free_map k')"
      "\<forall>x. x \<notin> own \<longrightarrow> disk k' x = disk k x" using s u by blast+
  show "only_clears k k'" using bits_setD [OF ok(2)] cache_stepD(9) [OF ok(3)] by (auto simp: only_clears_def split: if_splits)
qed

lemma free_sector_cases:
  assumes "I k" "inode_disk_free_sector bw s left k = Some (left', k')" "0 < left" "left < 2 ^ 32"
  shows "left' = left - 1" "I k'" "only_clears k k'" "bitmap_abs (free_map k) ! s" "\<not> bitmap_abs (free_map k') ! s" "s < bit_cnt (free_map k)"
proof -
  have r: "free_map_release bw s 1 k = Some k'" "left' = u32 (left + (2 ^ 32 - 1))"
    using assms(2) by (auto simp: inode_disk_free_sector_def option_bind_Some)
  have "left + (2 ^ 32 - 1) = 2 ^ 32 + (left - 1)" using assms(3) by simp
  then have "left' = (2 ^ 32 + (left - 1)) mod 2 ^ 32" using r(2) unfolding u32_def by presburger
  then show "left' = left - 1" using assms(4) by (simp only: mod_add_self1) simp
  note c = release_cases [OF assms(1) r(1)]
  show "I k'" "only_clears k k'" "bitmap_abs (free_map k) ! s" "s < bit_cnt (free_map k)" using c by blast+
  show "\<not> bitmap_abs (free_map k') ! s" using bits_setD(3) [OF c(4), of s] c(1) by simp
qed

lemma free_table_cases:
  assumes "I k" "free_table bw n table left k = Some (left', k')" "n \<le> left" "left < 2 ^ 32"
  shows "left' = left - n \<and> I k' \<and> only_clears k k'"
  using assms(2,3)
proof (induction n arbitrary: left' k')
  case 0
  then show ?case using assms(1) only_clears_refl by (simp add: free_table_def)
next
  case (Suc n)
  then obtain l1 k1 s where k1: "free_table bw n table left k = Some (l1, k1)" "inode_disk_free_sector bw s l1 k1 = Some (left', k')"
    by (auto simp: free_table_def foldM_append option_bind_Some)
  have c: "l1 = left - n" "I k1" "only_clears k k1" using Suc.IH [OF k1(1)] Suc.prems(2) by auto
  then show ?case using free_sector_cases [OF c(2) k1(2)] Suc.prems(2) assms(4) only_clears_trans by auto
qed

text \<open>The loop over the doubly indirect block frees its first entry a second time, which fails.\<close>

lemma free_doubly_none:
  assumes "I k" "129 < left" "left < 2 ^ 32"
  shows "free_doubly_loop n bw ws left k = None"
proof (cases n)
  case 0
  then show ?thesis using assms(2) by simp
next
  case (Suc n')
  show ?thesis
  proof (rule ccontr)
    assume "free_doubly_loop n bw ws left k \<noteq> None"
    then obtain k' where "free_doubly_loop (Suc n') bw ws left k = Some k'" using Suc by auto
    then obtain nested k1 l2 k2 l3 k3 where r: "read_words (ws ! 0) k = Some (nested, k1)" "inode_disk_free_sector bw (ws ! 0) left k1 = Some (l2, k2)"
        "free_table bw (if l2 < 128 then l2 else 128) nested l2 k2 = Some (l3, k3)" "free_doubly_loop n' bw ws l3 k3 = Some k'"
      using assms(2) by (auto simp: option_bind_Some Let_def)
    have I1: "I k1" using read_words_inv [OF assms(1) r(1)] by blast
    note f = free_sector_cases [OF I1 r(2)]
    have l2: "l2 = left - 1" "I k2" "\<not> bitmap_abs (free_map k2) ! (ws ! 0)" "ws ! 0 < bit_cnt (free_map k2)"
      using f assms(2,3) by (auto simp: only_clears_def)
    have l3: "l3 = l2 - 128" "I k3" "only_clears k2 k3" using free_table_cases [OF l2(2) r(3)] l2(1) assms(2,3) by auto
    then have pos: "0 < l3" "l3 < 2 ^ 32" using l2(1) assms(2,3) by simp_all
    obtain n'' where n'': "n' = Suc n''" using r(4) pos by (cases n') auto
    obtain nested' k4 l5 k5 where r': "read_words (ws ! 0) k3 = Some (nested', k4)" "inode_disk_free_sector bw (ws ! 0) l3 k4 = Some (l5, k5)"
      using r(4) pos by (auto simp: option_bind_Some Let_def n'')
    have I4: "I k4" "only_clears k3 k4" using read_words_inv [OF l3(2) r'(1)] by blast+
    have "bitmap_abs (free_map k4) ! (ws ! 0)" using free_sector_cases(4) [OF I4(1) r'(2) pos] .
    then show False using only_clears_trans [OF l3(3) I4(2)] l2(3,4) by (auto simp: only_clears_def)
  qed
qed

end

lemma u32_wrap:
  assumes "a < 2 ^ 32" "b \<le> 2 ^ 32"
  shows "u32 (a + (2 ^ 32 - b)) = (if b \<le> a then a - b else a + 2 ^ 32 - b)"
proof (cases "b \<le> a")
  case True
  then have "a + (2 ^ 32 - b) = 2 ^ 32 + (a - b)" using assms by simp
  then have "u32 (a + (2 ^ 32 - b)) = (2 ^ 32 + (a - b)) mod 2 ^ 32" unfolding u32_def by presburger
  also have "\<dots> = a - b" using assms(1) by (simp only: mod_add_self1) simp
  finally show ?thesis using True by simp
next
  case False
  then have "a + (2 ^ 32 - b) = a + 2 ^ 32 - b" "a + 2 ^ 32 - b < 2 ^ 32" using assms by simp_all
  then show ?thesis using False by simp
qed

context free_map_store
begin

lemma free_table_ok:
  assumes "I k" "n \<le> length table" "distinct (take n table)" "n \<le> left" "left < 2 ^ 32"
    "\<forall>x\<in>set (take n table). x < bit_cnt (free_map k) \<and> bitmap_abs (free_map k) ! x"
  shows "\<exists>k'. free_table bw n table left k = Some (left - n, k') \<and> I k' \<and> bits_set (free_map k) (set (take n table)) False (free_map k') \<and>
     (\<forall>x. x \<notin> own \<longrightarrow> disk k' x = disk k x)"
  using assms(2-4,6)
proof (induction n)
  case 0
  then show ?case using assms(1) inv_ok bits_set_refl by (simp add: free_table_def)
next
  case (Suc n)
  let ?s = "table ! n"
  have t: "take (Suc n) table = take n table @ [?s]" using Suc.prems(1) by (simp add: take_Suc_conv_app_nth)
  obtain k1 where k1: "free_table bw n table left k = Some (left - n, k1)" "I k1" "bits_set (free_map k) (set (take n table)) False (free_map k1)"
      "\<forall>x. x \<notin> own \<longrightarrow> disk k1 x = disk k x" using Suc t by auto
  have s: "?s < bit_cnt (free_map k1)" "bitmap_abs (free_map k1) ! ?s"
    using bits_setD(2) [OF k1(3)] bits_setD(3) [OF k1(3), of ?s] Suc.prems(2,4) t by simp_all
  obtain k2 where k2: "free_map_release bw ?s 1 k1 = Some k2" "I k2" "bits_set (free_map k1) {?s} False (free_map k2)"
      "\<forall>x. x \<notin> own \<longrightarrow> disk k2 x = disk k1 x" using release_ok [OF k1(2) s] by blast
  have "u32 (left - n + (2 ^ 32 - 1)) = left - Suc n" using u32_wrap [of "left - n" 1] Suc.prems(3) assms(5) by simp
  then have "free_table bw (Suc n) table left k = Some (left - Suc n, k2)"
    using k1(1) k2(1) Suc.prems(1) by (simp add: free_table_def foldM_append inode_disk_free_sector_def)
  then show ?case using k1(4) k2(2,4) bits_set_trans [OF k1(3) k2(3)] t by auto
qed

lemma free_direct_ok:
  assumes I: "I k" and i: "length (dblocks i) = 12" "bytes_to_sectors (id_length i) \<le> 24"
    and n: "n = min (bytes_to_sectors (id_length i)) 12" "distinct (take n (dblocks i))"
      "\<forall>x\<in>set (take n (dblocks i)). x < bit_cnt (free_map k) \<and> bitmap_abs (free_map k) ! x"
  shows "\<exists>k'. inode_disk_free bw i k = Some k' \<and> I k' \<and> bits_set (free_map k) (set (take n (dblocks i))) False (free_map k') \<and>
     (\<forall>x. x \<notin> own \<longrightarrow> disk k' x = disk k x)"
proof -
  define T where "T = bytes_to_sectors (id_length i)"
  have T: "T \<le> 24" "n = (if T < 12 then T else 12)" "n \<le> T" "n \<le> 12" using i(2) n(1) by (auto simp: T_def)
  obtain k' where k': "free_table bw n (dblocks i) T k = Some (T - n, k')" "I k'"
      "bits_set (free_map k) (set (take n (dblocks i))) False (free_map k')" "\<forall>x. x \<notin> own \<longrightarrow> disk k' x = disk k x"
    using free_table_ok [OF I, of n "dblocks i" T] n(2,3) T i(1) by auto
  define l where "l = u32 (T - n + (2 ^ 32 - 12))"
  have "l = 0 \<or> 2 ^ 31 \<le> l" using u32_wrap [of "T - n" 12] T by (auto simp: l_def)
  then have "inode_disk_free bw i k = Some k'"
    using k'(1) T(2) by (simp add: inode_disk_free_def Let_def T_def [symmetric] l_def)
  then show ?thesis using k' by blast
qed

lemma free_large_none:
  assumes I: "I k" and T: "24 < bytes_to_sectors (id_length i)" "bytes_to_sectors (id_length i) \<le> 153"
  shows "inode_disk_free bw i k = None"
proof (rule ccontr)
  define T where "T = bytes_to_sectors (id_length i)"
  assume "inode_disk_free bw i k \<noteq> None"
  then obtain k' where k': "inode_disk_free bw i k = Some k'" by auto
  have l2: "\<not> (T - 24 = 0 \<or> 2 ^ 31 \<le> T - 24)" "(if T < 12 then T else 12) = 12" using assms(2,3) by (auto simp: T_def)
  have l3: "u32 (T - 12 + (2 ^ 32 - 12)) = T - 24" using u32_wrap [of "T - 12" 12] assms(2,3) by (simp add: T_def)
  obtain l1 k1 where k1: "free_table bw 12 (dblocks i) T k = Some (l1, k1)" using k' T(1) by (auto simp: inode_disk_free_def Let_def T_def option_bind_Some)
  have c1: "l1 = T - 12" "I k1" using free_table_cases [OF I k1] T by (auto simp: T_def)
  have e: "inode_disk_free bw i k = do {
      (ws, k) \<leftarrow> read_words (indblock i) k1;
      (left, k) \<leftarrow> inode_disk_free_sector bw (indblock i) (T - 24) k;
      (left, k) \<leftarrow> free_table bw (if left < 141 then left else 141) ws left k;
      let left = u32 (left + (2 ^ 32 - 141));
      if left = 0 then Some k else do {
         (ws, k) \<leftarrow> read_words (doubly_indblock i) k;
         (left, k) \<leftarrow> inode_disk_free_sector bw (doubly_indblock i) left k;
         free_doubly_loop left bw ws left k } }"
    by (simp only: inode_disk_free_def Let_def T_def [symmetric] l2 k1 c1(1) Option.bind.bind_lunit prod.case l3 if_False)
  obtain ws k2 l3 k3 l4 k4 where r: "read_words (indblock i) k1 = Some (ws, k2)" "inode_disk_free_sector bw (indblock i) (T - 24) k2 = Some (l3, k3)"
      "free_table bw (if l3 < 141 then l3 else 141) ws l3 k3 = Some (l4, k4)"
      "(let left = u32 (l4 + (2 ^ 32 - 141)) in if left = 0 then Some k4 else do {
         (ws, k) \<leftarrow> read_words (doubly_indblock i) k4;
         (left, k) \<leftarrow> inode_disk_free_sector bw (doubly_indblock i) left k;
         free_doubly_loop left bw ws left k }) = Some k'"
    using k' unfolding e by (auto simp: option_bind_Some Let_def)
  have c2: "I k2" using read_words_inv [OF c1(2) r(1)] by blast
  have c3: "l3 = T - 25" "I k3" using free_sector_cases(1,2) [OF c2 r(2)] T by (simp_all add: T_def)
  have "l3 \<le> 128" using c3(1) T by (simp add: T_def)
  then have c4: "l4 = 0" "I k4" using free_table_cases [OF c3(2) r(3)] by auto
  obtain ws' k5 l6 k6 where r': "read_words (doubly_indblock i) k4 = Some (ws', k5)"
      "inode_disk_free_sector bw (doubly_indblock i) 4294967155 k5 = Some (l6, k6)" "free_doubly_loop l6 bw ws' l6 k6 = Some k'"
    using r(4) by (auto simp: c4(1) option_bind_Some)
  have "l6 = 4294967154" "I k6" using free_sector_cases(1,2) [OF _ r'(2)] read_words_inv [OF c4(2) r'(1)] by simp_all
  then show False using free_doubly_none [of k6 l6] r'(3) by simp
qed

end

section \<open>Limits\<close>

text \<open>When the disk is too full, every bit of the free map is set except the first ones, as many as there were free sectors.\<close>

lemma allocate_failure:
  assumes wf: "bitmap_wf (free_map k)" and c: "length (free_sectors (free_map k)) < cnt"
  shows "\<exists>k'. free_map_allocate bw cnt k = Some (False, free_sectors (free_map k), k') \<and>
     bitmap_abs (free_map k') = replicate (length (free_sectors (free_map k))) False @
       replicate (bit_cnt (free_map k) - length (free_sectors (free_map k))) True"
proof -
  define S n where "S = free_sectors (free_map k)" and "n = length (free_sectors (free_map k))"
  have n: "n \<le> bit_cnt (free_map k)" unfolding n_def free_sectors_def by (metis length_filter_le length_upt minus_nat.diff_0)
  obtain b where b: "allocate_loop cnt [0..<bitmap_size (free_map k)] [] (free_map k) = Some (False, S, b)" "bits_set (free_map k) (set S) True b"
    using allocate_search [OF wf, of cnt] c by (auto simp: S_def)
  note d = bits_setD [OF b(2)]
  obtain b' where b': "foldM bitmap_reset b [0..<n] = Some b'" "bits_set b {..<n} False b'"
    using reset_loop_ok [OF d(1), of n] d(2) n by auto
  note d' = bits_setD [OF b'(2)]
  have "bitmap_abs b' = replicate n False @ replicate (bit_cnt (free_map k) - n) True"
    using n d(2,3) d'(2,3) free_sectors_mem [of _ "free_map k"] by (intro nth_equalityI) (auto simp: nth_append S_def)
  moreover have "free_map_allocate bw cnt k = Some (False, S, k\<lparr>free_map := b'\<rparr>)"
    using c b(1) b'(1) by (simp add: free_map_allocate_def S_def n_def)
  ultimately show ?thesis by (auto simp: S_def n_def)
qed

text \<open>A file with a started indirect block cannot grow past it in one step: the table is written past its end.\<close>

lemma extend_across_none:
  assumes al: "free_map_allocate bw (sectors_needed i len) k = Some (True, sectors, k1)" and oom: "\<not> oom k"
    and n: "12 < n_sectors i" "n_sectors i < 140" "140 < bytes_to_data_sectors len" and len: "id_length i \<le> len"
  shows "inode_disk_extend bw i len k = None"
proof -
  define n0 n1 where "n0 = n_sectors i" and "n1 = bytes_to_data_sectors len"
  let ?i = "i\<lparr>id_length := len\<rparr>"
  have d: "inode_disk_extend_dblock ?i sectors n0 (n1 - n0) k1 = Some (?i, sectors, n0 - 12, n1 - n0, k1)"
    using n(1) by (simp add: inode_disk_extend_dblock_def n0_def)
  have w: "cache_do (cache_write_partial b (elems_bytes (map of_nat (take m sectors))) ((n0 - 12) * 4)) k1 = None"
    if "m = min (n1 - n0) 128" "m \<le> length sectors" for b m
    using that n by (auto simp: cache_do_def cache_write_partial_def n0_def n1_def min_def)
  have "inode_disk_extend_indblock_children (indblock ?i) sectors (n0 - 12) (n1 - n0) k1 = None"
    using w [OF refl] n by (cases "min (n1 - n0) 128 \<le> length sectors") (auto simp: inode_disk_extend_indblock_children_def n0_def Let_def)
  then have "inode_disk_fill ?i sectors n0 (n1 - n0) k1 = None"
    using d n by (simp add: inode_disk_fill_def take_sector_def n0_def n1_def)
  then show ?thesis using al oom n len
    by (simp add: inode_disk_extend_def Let_def sectors_needed_def n0_def n1_def n_sectors_def)
qed

lemma write_across_none:
  assumes ok: "fs_ok k" and m: "inodes k p = Some m" "deny_write_cnt m = 0" and fok: "file_ok (disk_size k) (disk k) (i_sector m) i"
    and al: "\<And>k1. quiet_step k k1 \<Longrightarrow> \<exists>sectors k2. free_map_allocate bw (sectors_needed i len) k1 = Some (True, sectors, k2)"
    and n: "12 < n_sectors i" "n_sectors i < 140" "140 < bytes_to_data_sectors len" and len: "len = int (q + length buf)" "len < 2 ^ 31" "id_length i \<le> len"
  shows "inode_write_at bw p buf (int q) k = None"
proof -
  obtain k1 where k1: "inode_get_data p k = Some (i, k1)" "quiet_step k k1"
    using inode_get_data_step [OF ok m(1)] file_okD(1,4) [OF fok] by auto
  obtain sectors k2 where "free_map_allocate bw (sectors_needed i len) k1 = Some (True, sectors, k2)" using al [OF k1(2)] by blast
  then have "inode_disk_extend bw i len k1 = None"
    using extend_across_none [OF _ _ n len(3)] quiet_step_ok [OF k1(2) ok] by (simp add: fs_ok_def)
  moreover have "s32 (int q + int (length buf)) = len" using len(1,2) by simp
  ultimately show ?thesis using m k1(1) by (simp add: inode_write_at_def)
qed

lemma read_words_none: "fs_ok k \<Longrightarrow> disk_size k \<le> s \<Longrightarrow> read_words s k = None"
  using read_words_cases [of k s] by (cases "read_words s k") auto

text \<open>A read beyond the end of a file that meets a table entry outside the device.\<close>

lemma read_past_end_none:
  assumes ok: "fs_ok k" and m: "inodes k p = Some m" "p \<noteq> 0" and fok: "file_ok (disk_size k) (disk k) (i_sector m) i"
    and q: "71680 \<le> q" "q < 8460288" and n: "0 < n"
    and d: "doubly_indblock i < disk_size k" "disk_size k \<le> sector_words (disk k (doubly_indblock i)) ! (nat ((q - 71680) div 65536))"
  shows "inode_read_at p n q k = None"
proof -
  obtain k1 where k1: "inode_get_data p k = Some (i, k1)" "quiet_step k k1"
    using inode_get_data_step [OF ok m(1)] file_okD(1,4) [OF fok] by auto
  note q1 = quiet_stepD [OF k1(2)] and ok1 = quiet_step_ok [OF k1(2) ok]
  define s where "s = nat ((q sdiv 512) mod 2 ^ 32)"
  have s': "s = nat (q div 512)" using q by (simp add: s_def signed_divide_int_def)
  have s: "\<not> s < 12" "\<not> s - 12 < 128" "s - 12 - 128 < 16384" "(s - 12 - 128) div 128 = nat ((q - 71680) div 65536)"
  proof -
    have "140 \<le> q div 512" "q div 512 < 16524" using q by linarith+
    then show "\<not> s < 12" "\<not> s - 12 < 128" "s - 12 - 128 < 16384" unfolding s' by linarith+
    have "s - 12 - 128 = nat ((q - 71680) div 512)" unfolding s' using q by linarith
    moreover have "nat ((q - 71680) div 512) div 128 = nat ((q - 71680) div 512 div 128)" using q by (simp add: nat_div_distrib)
    moreover have "(q - 71680) div 512 div 128 = (q - 71680) div 65536" by (simp add: zdiv_zmult2_eq [symmetric])
    ultimately show "(s - 12 - 128) div 128 = nat ((q - 71680) div 65536)" by simp
  qed
  let ?ws = "sector_words (disk k (doubly_indblock i))"
  obtain k2 where k2: "read_words (doubly_indblock i) k1 = Some (?ws, k2)" "quiet_step k1 k2"
    using read_words_step [OF ok1, of "doubly_indblock i"] d(1) by (auto simp: q1)
  have "read_words (?ws ! ((s - 12 - 128) div 128)) k2 = None"
    unfolding s(4) using read_words_none [OF quiet_step_ok [OF k2(2) ok1]] d(2) quiet_stepD(4) [OF k2(2)] q1(4) by simp
  then have "byte_to_sector i q k1 = None"
    unfolding byte_to_sector_def s_def [symmetric] using s(1-3) k2(1) by (simp add: Let_def)
  moreover obtain n' where "nat n = Suc n'" using n by (metis gr0_implies_Suc zero_less_nat_eq)
  ultimately show ?thesis using m(2) k1(1) n by (simp add: inode_read_at_def)
qed

end
