(* ===== verification/Inode_Properties.thy ===== *)
theory Inode_Properties
  imports Inode_Release
begin

text \<open>
  The properties of inodes and of the free map, and an example disk of 200 sectors: the free map in sector 2 with its
  inode in sector 0, a file of 100 bytes (inode in sector 3) and a file of 13 blocks (inode in sector 5).
\<close>

section \<open>An example disk\<close>

definition demo_map_inode :: inode_disk where
  "demo_map_inode = (blank_inode_disk False)\<lparr>id_length := 28, dblocks := 2 # replicate 11 0\<rparr>"

definition demo_small_inode :: inode_disk where
  "demo_small_inode = (blank_inode_disk False)\<lparr>id_length := 100, dblocks := 4 # replicate 11 0\<rparr>"

definition demo_large_inode :: inode_disk where
  "demo_large_inode = (blank_inode_disk False)\<lparr>id_length := 6656, dblocks := [20..<32], indblock := 6\<rparr>"

definition demo_sector :: "nat \<Rightarrow> byte list" where
  "demo_sector s =
     (if s = 0 then inode_disk_bytes demo_map_inode
      else if s = 3 then inode_disk_bytes demo_small_inode
      else if s = 5 then inode_disk_bytes demo_large_inode
      else if s = 6 then elems_bytes (map of_nat (32 # replicate 127 (0 :: nat)))
      else replicate 512 (of_nat s))"

definition demo_fs :: fs where
  "demo_fs = \<lparr>
     bc = demo_cache\<lparr>fs_device := 2, dev := demo_devices\<lparr>
       blocks := [2 \<mapsto> \<lparr>block_name = ''hda'', block_type = BLOCK_FILESYS, block_size = 200, ops = Ide_operations, aux = 50, read_cnt = 0, write_cnt = 0\<rparr>],
       all_blocks := [2], disks := (\<lambda>_. demo_sector)\<rparr>\<rparr>,
     inodes = [10 \<mapsto> \<lparr>i_sector = 0, open_cnt = 1, removed = False, deny_write_cnt = 0\<rparr>,
       11 \<mapsto> \<lparr>i_sector = 3, open_cnt = 1, removed = False, deny_write_cnt = 0\<rparr>,
       12 \<mapsto> \<lparr>i_sector = 5, open_cnt = 1, removed = False, deny_write_cnt = 0\<rparr>],
     open_inodes = [12, 11, 10], files = [20 \<mapsto> \<lparr>f_inode = 10, f_pos = 0, deny_write = False\<rparr>], dirs = Map.empty,
     free_map = \<lparr>bit_cnt = 200, bits = [0xFFF0007F, 1, 0, 0, 0, 0, 0]\<rparr>, free_map_file = 20, process_dirs = [], cur_pid = None,
     next_ptr = 100, oom = False, heap_words = (\<lambda>_. 0)\<rparr>"

lemma demo_inodes_ok: "inode_disk_ok demo_map_inode" "inode_disk_ok demo_small_inode" "inode_disk_ok demo_large_inode"
  by (auto simp: inode_disk_ok_def demo_map_inode_def demo_small_inode_def demo_large_inode_def blank_inode_disk_def)

lemma length_demo_sector: "length (demo_sector s) = 512"
  by (simp add: demo_sector_def length_inode_disk_bytes demo_inodes_ok)

lemma demo_inodes_stored:
  "bytes_inode_disk (demo_sector 0) = demo_map_inode" "bytes_inode_disk (demo_sector 3) = demo_small_inode"
  "bytes_inode_disk (demo_sector 5) = demo_large_inode"
  by (simp_all add: demo_sector_def inode_disk_roundtrip demo_inodes_ok)

lemma demo_table: "sector_words (demo_sector 6) = 32 # replicate 127 0"
proof -
  have "demo_sector 6 = elems_bytes (map of_nat (32 # replicate 127 (0 :: nat)))" by (simp add: demo_sector_def)
  then show ?thesis using sector_words_elems [of "32 # replicate 127 0"] by (simp del: list.map map_replicate)
qed

lemma demo_fs_ok: "fs_ok demo_fs" "disk_size demo_fs = 200" "disk demo_fs = demo_sector"
proof -
  let ?c = "bc demo_fs"
  have l: "locate (dev ?c) 2 = Some (50, 0)" "device_size (dev ?c) 2 = 200"
    by (simp_all add: locate_def demo_fs_def demo_cache_def demo_devices_def device_size_def)
  have f: "fs_device ?c = 2" "\<And>n. disks (dev ?c) 50 n = demo_sector n" by (simp_all add: demo_fs_def demo_cache_def demo_devices_def)
  then have d: "device_data (dev ?c) 2 s = demo_sector s" for s by (simp add: device_data_def l)
  show "disk_size demo_fs = 200" by (simp add: fs_size_def f l)
  then have "cache_ok ?c" by (simp add: cache_ok_def entry_ok_def holds_def f l d length_demo_sector) (simp add: demo_fs_def demo_cache_def)
  then show "fs_ok demo_fs" by (simp add: fs_ok_def) (simp add: demo_fs_def)
  have "find (holds s) (cache ?c) = None" for s by (simp add: find_None_iff holds_def) (simp add: demo_fs_def demo_cache_def)
  then show "disk demo_fs = demo_sector" by (simp add: contents_def f d fun_eq_iff)
qed


lemma bytes_to_data_sectors_simps: "bytes_to_data_sectors 28 = 1" "bytes_to_data_sectors 100 = 1" "bytes_to_data_sectors 6656 = 13"
  by (simp_all add: bytes_to_data_sectors_eq)

lemma demo_map_layout: "n_sectors demo_map_inode = 1" "data_sectors demo_sector demo_map_inode = [2]" "meta_sectors demo_sector demo_map_inode = []"
  by (simp_all add: n_sectors_def data_sectors_def meta_sectors_def demo_map_inode_def bytes_to_data_sectors_simps bmap_def tables_def)

lemma demo_small_layout: "n_sectors demo_small_inode = 1" "data_sectors demo_sector demo_small_inode = [4]" "meta_sectors demo_sector demo_small_inode = []"
  by (simp_all add: n_sectors_def data_sectors_def meta_sectors_def demo_small_inode_def bytes_to_data_sectors_simps bmap_def tables_def)

lemma demo_large_layout:
  "n_sectors demo_large_inode = 13" "data_sectors demo_sector demo_large_inode = [20..<33]" "set (meta_sectors demo_sector demo_large_inode) = {6}"
proof -
  show n: "n_sectors demo_large_inode = 13" by (simp add: n_sectors_def demo_large_inode_def bytes_to_data_sectors_simps)
  have "bmap demo_sector demo_large_inode j = [20..<33] ! j" if "j < 13" for j
    using that by (cases "j = 12") (auto simp: bmap_def demo_large_inode_def demo_table simp del: upt_rec_numeral)
  then show "data_sectors demo_sector demo_large_inode = [20..<33]"
    unfolding data_sectors_def n by (intro nth_equalityI) (simp_all del: upt_rec_numeral)
  show "set (meta_sectors demo_sector demo_large_inode) = {6}"
  proof -
    have "indblock demo_large_inode = 6" by (simp add: demo_large_inode_def)
    then show ?thesis using tables_small [of 13 demo_sector demo_large_inode] unfolding meta_sectors_def n by simp
  qed
qed

lemma demo_files_ok: "file_ok 200 demo_sector 0 demo_map_inode" "file_ok 200 demo_sector 3 demo_small_inode" "file_ok 200 demo_sector 5 demo_large_inode"
  by (auto simp: file_ok_def demo_inodes_stored demo_map_layout demo_small_layout demo_large_layout)
    (simp_all add: demo_map_inode_def demo_small_inode_def demo_large_inode_def)

lemma demo_bits:
  "bitmap_wf (free_map demo_fs)" "bit_cnt (free_map demo_fs) = 200" "64 \<le> j \<Longrightarrow> j < 200 \<Longrightarrow> \<not> bitmap_abs (free_map demo_fs) ! j"
  "j < 7 \<or> 20 \<le> j \<and> j < 33 \<Longrightarrow> bitmap_abs (free_map demo_fs) ! j"
proof -
  show c: "bit_cnt (free_map demo_fs) = 200" by (simp add: demo_fs_def)
  show "bitmap_wf (free_map demo_fs)" by (simp add: bitmap_wf_def elem_cnt_def demo_fs_def DIV_ROUND_UP_def)
  have b: "bits (free_map demo_fs) = [0xFFF0007F, 1, 0, 0, 0, 0, 0]" by (simp add: demo_fs_def)
  show "\<not> bitmap_abs (free_map demo_fs) ! j" if "64 \<le> j" "j < 200"
  proof -
    have "j div 32 \<in> {2, 3, 4, 5, 6}" using that by auto
    then have "bits (free_map demo_fs) ! (j div 32) = 0" by (auto simp: b)
    then show ?thesis using bitmap_abs_nth [of j "free_map demo_fs"] that(2) by (simp add: c)
  qed
  show "bitmap_abs (free_map demo_fs) ! j" if "j < 7 \<or> 20 \<le> j \<and> j < 33"
  proof -
    have "j \<in> {0, 1, 2, 3, 4, 5, 6} \<union> set [20..<33]" using that unfolding set_upt by auto
    moreover have "j < bit_cnt (free_map demo_fs)" using that c by auto
    ultimately show ?thesis using bitmap_abs_nth [of j "free_map demo_fs"] by (auto simp: b)
  qed
qed

lemma demo_free: "136 \<le> length (free_sectors (free_map demo_fs))"
proof -
  have "[0..<200] = [0..<64] @ [64..<200::nat]" using upt_add_eq_append [of 0 64 136] by simp
  moreover have "filter (\<lambda>i. \<not> bitmap_abs (free_map demo_fs) ! i) [64..<200] = [64..<200]" using demo_bits(3) by (simp add: filter_id_conv)
  ultimately have "free_sectors (free_map demo_fs) = filter (\<lambda>i. \<not> bitmap_abs (free_map demo_fs) ! i) [0..<64] @ [64..<200]"
    by (simp only: free_sectors_def demo_bits(2) filter_append)
  then show ?thesis by simp
qed

lemma demo_map_inv: "map_inv {0, 2} demo_fs"
proof (rule map_invI [of _ 0 demo_map_inode])
  show "map_file demo_fs 0 demo_map_inode"
    unfolding map_file_def demo_fs_ok demo_bits(2) using demo_files_ok(1)
    by (simp add: elem_cnt_def DIV_ROUND_UP_def) (simp add: demo_fs_def demo_map_inode_def)
qed (auto simp: demo_fs_ok demo_bits demo_map_layout)

lemma demo_in_map: "file_in_map {0, 2} demo_fs 3 demo_small_inode" "file_in_map {0, 2} demo_fs 5 demo_large_inode"
  by (auto simp: file_in_map_def demo_fs_ok demo_files_ok demo_bits demo_small_layout demo_large_layout)

section \<open>Reading and writing\<close>

text \<open>
  C14: reading an open inode returns exactly the bytes of the file from the offset on, as many as asked for or as there
  are, and leaves the disk as it is; a read that reaches past the end needs the tables for the block after the end to be
  on the device.
\<close>

theorem inode_read_correct:
  assumes "fs_ok k" "inodes k p = Some m" "p \<noteq> 0" "file_ok (disk_size k) (disk k) (i_sector m) i" "0 \<le> q" "q < 2 ^ 31"
    "q + n \<le> id_length i \<or> (\<forall>x\<in>set (tables (disk k) i (nat (max q (id_length i) div 512))). x < disk_size k)"
  shows "\<exists>k'. inode_read_at p n q k = Some (take (nat n) (drop (nat q) (file_bytes (disk k) i)), k') \<and> disk k' = disk k \<and> fs_ok k'"
  using inode_read_at_ok [OF assms] quiet_stepD(2) quiet_step_ok [OF _ assms(1)] by blast

lemma demo_open:
  "inodes demo_fs 11 = Some \<lparr>i_sector = 3, open_cnt = 1, removed = False, deny_write_cnt = 0\<rparr>"
  "inodes demo_fs 12 = Some \<lparr>i_sector = 5, open_cnt = 1, removed = False, deny_write_cnt = 0\<rparr>"
  "id_length demo_small_inode = 100" "id_length demo_large_inode = 6656"
  by (simp_all add: demo_fs_def demo_small_inode_def demo_large_inode_def)

lemma demo_small_bytes: "file_bytes demo_sector demo_small_inode = replicate 100 4"
  by (simp add: file_bytes_def demo_small_layout demo_sector_def demo_open)

lemma inode_read_correct_witness:
  "\<exists>k'. inode_read_at 11 50 90 demo_fs = Some (replicate 10 4, k') \<and> disk k' = disk demo_fs \<and> fs_ok k'"
  using inode_read_correct [OF demo_fs_ok(1) demo_open(1), of demo_small_inode 90 50]
  by (simp add: demo_fs_ok demo_files_ok demo_open demo_small_bytes tables_def)

lemma other_file:
  assumes ok: "file_ok z D s j" and f: "\<And>x. x \<in> insert s (set (data_sectors D j) \<union> set (meta_sectors D j)) \<Longrightarrow> D' x = D x"
  shows "file_ok z D' s j \<and> file_bytes D' j = file_bytes D j"
proof -
  have m: "data_sectors D' j = data_sectors D j" "meta_sectors D' j = meta_sectors D j" using meta_frame [OF ok, of D'] f by blast+
  have "D' s = D s" using f by blast
  then have "file_ok z D' s j" using ok unfolding file_ok_def m by simp
  moreover have "map D' (data_sectors D j) = map D (data_sectors D j)" using f by (intro map_cong) auto
  ultimately show ?thesis by (simp add: file_bytes_def m del: map_eq_conv)
qed

text \<open>
  C15: a write within a file stores exactly its bytes: the file is the old one with the bytes replaced, reading them back
  returns what was written, and a file that shares no sector with this one keeps its bytes.
\<close>

theorem inode_write_in_place:
  assumes ok: "fs_ok k" and m: "inodes k p = Some m" "p \<noteq> 0" "deny_write_cnt m = 0" and fok: "file_ok (disk_size k) (disk k) (i_sector m) i"
    and q: "int (q + length buf) \<le> id_length i"
  shows "\<exists>k'. inode_write_at bw p buf (int q) k = Some (int (length buf), k') \<and>
     file_ok (disk_size k) (disk k') (i_sector m) i \<and> file_bytes (disk k') i = patch q buf (file_bytes (disk k) i) \<and>
     (\<exists>k''. inode_read_at p (int (length buf)) (int q) k' = Some (buf, k'')) \<and>
     (\<forall>s j. file_ok (disk_size k) (disk k) s j \<longrightarrow>
        insert s (set (data_sectors (disk k) j) \<union> set (meta_sectors (disk k) j)) \<inter> insert (i_sector m) (set (data_sectors (disk k) i)) = {} \<longrightarrow>
        file_ok (disk_size k) (disk k') s j \<and> file_bytes (disk k') j = file_bytes (disk k) j)"
proof -
  obtain k' where k': "inode_write_at bw p buf (int q) k = Some (int (length buf), k')" "file_stored k k' (i_sector m) i q buf"
    using inode_write_at_ok [OF ok m(1,3) fok q] by blast
  then have st: "cache_step k k'" "file_ok (disk_size k) (disk k') (i_sector m) i" "file_bytes (disk k') i = patch q buf (file_bytes (disk k) i)"
      "\<And>x. x \<notin> insert (i_sector m) (set (data_sectors (disk k) i)) \<Longrightarrow> disk k' x = disk k x" by (auto simp: file_stored_def)
  have "q + length buf \<le> length (file_bytes (disk k) i)" using length_file_bytes [OF ok fok] q by simp
  then have b: "take (length buf) (drop q (file_bytes (disk k') i)) = buf" by (simp add: st(3) patch_def)
  have "int q < 2 ^ 31" "int q + int (length buf) \<le> id_length i" using q file_okD(3) [OF fok] by simp_all
  then have "\<exists>k''. inode_read_at p (int (length buf)) (int q) k' = Some (buf, k'')"
    using inode_read_at_ok [OF cache_step_ok [OF st(1) ok], of p m i "int q" "int (length buf)"] m st(2) cache_stepD(1,9) [OF st(1)] b by auto
  moreover have "file_ok (disk_size k) (disk k') s j \<and> file_bytes (disk k') j = file_bytes (disk k) j"
    if j: "file_ok (disk_size k) (disk k) s j"
      "insert s (set (data_sectors (disk k) j) \<union> set (meta_sectors (disk k) j)) \<inter> insert (i_sector m) (set (data_sectors (disk k) i)) = {}" for s j
    using other_file [OF j(1)] st(4) j(2) by blast
  ultimately show ?thesis using k'(1) st(2,3) by blast
qed


lemma inode_write_in_place_witness:
  "\<exists>k'. inode_write_at store_free_map 11 [1, 2] (int 98) demo_fs = Some (2, k') \<and> file_bytes (disk k') demo_small_inode = replicate 98 4 @ [1, 2] \<and>
     file_bytes (disk k') demo_large_inode = file_bytes (disk demo_fs) demo_large_inode"
proof -
  have d: "insert 5 (set (data_sectors demo_sector demo_large_inode) \<union> set (meta_sectors demo_sector demo_large_inode)) \<inter>
      insert 3 (set (data_sectors demo_sector demo_small_inode)) = {}" by (auto simp: demo_large_layout demo_small_layout)
  let ?m = "\<lparr>i_sector = 3, open_cnt = 1, removed = False, deny_write_cnt = 0\<rparr>"
  have h: "(11::nat) \<noteq> 0" "deny_write_cnt ?m = 0" "file_ok (disk_size demo_fs) (disk demo_fs) (i_sector ?m) demo_small_inode"
      "int (98 + length [1, 2 :: byte]) \<le> id_length demo_small_inode" by (simp_all add: demo_fs_ok demo_files_ok demo_open)
  from inode_write_in_place [OF demo_fs_ok(1) demo_open(1) h, of store_free_map] obtain k' where
    k': "inode_write_at store_free_map 11 [1, 2] (int 98) demo_fs = Some (int (length [1, 2 :: byte]), k')"
      "file_bytes (disk k') demo_small_inode = patch 98 [1, 2] (file_bytes (disk demo_fs) demo_small_inode)"
      "file_bytes (disk k') demo_large_inode = file_bytes (disk demo_fs) demo_large_inode"
    using d demo_files_ok(3) unfolding demo_fs_ok by auto
  have "patch 98 [1, 2] (replicate 100 4) = replicate 98 4 @ [1, 2 :: byte]" by (simp add: patch_def)
  then have "file_bytes (disk k') demo_small_inode = replicate 98 4 @ [1, 2]" using k'(2) by (simp add: demo_fs_ok demo_small_bytes)
  moreover have "inode_write_at store_free_map 11 [1, 2] (int 98) demo_fs = Some (2, k')" using k'(1) by simp
  ultimately show ?thesis using k'(3) by blast
qed

section \<open>Growing a file\<close>

text \<open>
  C16: a write that ends past the end of a file of at most 71680 bytes (140 blocks), with enough free sectors, makes the
  file exactly as long as the write reaches. Its bytes are the old ones, then zeros from the first new sector on, then
  what was written; the sectors taken were free, exactly these are marked, and no other sector changes but those of
  the file and of the free map.
\<close>

theorem inode_write_grows:
  assumes "map_inv own k" "inodes k p = Some m" "deny_write_cnt m = 0" "file_in_map own k (i_sector m) i"
    "len = int (q + length buf)" "id_length i \<le> len" "len \<le> 71680" "sectors_needed i len \<le> length (free_sectors (free_map k))"
  shows "\<exists>k'. inode_write_at store_free_map p buf (int q) k = Some (int (length buf), k') \<and> map_inv own k' \<and>
     file_ok (disk_size k) (disk k') (i_sector m) (grown k i len) \<and> id_length (grown k i len) = len \<and>
     file_bytes (disk k') (grown k i len) = take q (sector_bytes (disk k) i @ replicate (512 * (bytes_to_data_sectors len - n_sectors i)) 0) @ buf \<and>
     bits_set (free_map k) (set (taken_sectors k i len)) True (free_map k') \<and>
     (\<forall>x. x \<notin> own \<union> insert (i_sector m) (set (data_sectors (disk k) i) \<union> set (meta_sectors (disk k) i) \<union> set (taken_sectors k i len)) \<longrightarrow>
       disk k' x = disk k x)"
proof -
  have "id_length (grown k i len) = len" by (simp add: grown_def filled_def)
  then show ?thesis using fm.write_grows [OF assms] by blast
qed

lemma inode_write_grows_witness:
  "\<exists>k' i. inode_write_at store_free_map 11 (replicate 600 9) (int 50) demo_fs = Some (600, k') \<and>
     file_ok 200 (disk k') 3 i \<and> id_length i = 650 \<and> file_bytes (disk k') i = replicate 50 4 @ replicate 600 9"
proof -
  have b: "bytes_to_data_sectors 650 = 2" by (simp add: bytes_to_data_sectors_eq)
  have "sectors_needed demo_small_inode 650 = 1"
    using sectors_needed_eq [of demo_small_inode 650] by (simp add: b demo_small_layout)
  then have "sectors_needed demo_small_inode (int (50 + length (replicate 600 (9 :: byte)))) \<le> length (free_sectors (free_map demo_fs))"
    using demo_free by simp
  moreover have "take 50 (sector_bytes (disk demo_fs) demo_small_inode @ replicate 512 0) = replicate 50 4"
    by (simp add: sector_bytes_def demo_fs_ok demo_small_layout demo_sector_def)
  ultimately show ?thesis
    using inode_write_grows [OF demo_map_inv demo_open(1), of demo_small_inode "int (50 + 600)" 50 "replicate 600 9"] demo_in_map(1)
    by (auto simp: demo_fs_ok demo_open demo_small_layout b)
qed

section \<open>The free map\<close>

text \<open>
  C17: with enough free sectors, allocation returns the first of them, marks exactly these in the free map, leaves the bytes of
  the new bitmap in the file of the free map, and changes no sector outside that file.
\<close>

theorem free_map_allocate_exact:
  assumes "map_inv own k" "0 < cnt" "cnt \<le> length (free_sectors (free_map k))"
  shows "\<exists>k'. free_map_allocate store_free_map cnt k = Some (True, take cnt (free_sectors (free_map k)), k') \<and> map_inv own k' \<and>
     bits_set (free_map k) (set (take cnt (free_sectors (free_map k)))) True (free_map k') \<and> map_stored k' \<and>
     (\<forall>x. x \<notin> own \<longrightarrow> disk k' x = disk k x)"
  using fm.allocate_ok [OF assms] allocate_stores [OF assms(1,2) _ assms(3)] by blast

lemma free_map_allocate_exact_witness:
  "\<exists>sectors k'. free_map_allocate store_free_map 100 demo_fs = Some (True, sectors, k') \<and> length sectors = 100 \<and> map_stored k' \<and> disk k' 5 = disk demo_fs 5"
  using free_map_allocate_exact [OF demo_map_inv, of 100] demo_free by force

text \<open>
  C18: when there are too few free sectors, allocation fails and leaves a wrong free map: the clean-up resets the bits from
  0 on instead of those of the sectors taken, so the first sectors of the disk, those of the free map and of
  the root directory among them, become free, and all others used.
\<close>

theorem free_map_allocate_failure_corrupts:
  assumes "bitmap_wf (free_map k)" "length (free_sectors (free_map k)) < cnt"
  shows "\<exists>k'. free_map_allocate bw cnt k = Some (False, free_sectors (free_map k), k') \<and>
     bitmap_abs (free_map k') = replicate (length (free_sectors (free_map k))) False @
       replicate (bit_cnt (free_map k) - length (free_sectors (free_map k))) True"
  using allocate_failure [OF assms] .

lemma free_map_allocate_failure_corrupts_witness:
  "\<exists>sectors k'. free_map_allocate store_free_map 1000 demo_fs = Some (False, sectors, k') \<and>
     bitmap_abs (free_map demo_fs) ! 0 \<and> \<not> bitmap_abs (free_map k') ! 0"
proof -
  have "length (free_sectors (free_map demo_fs)) \<le> 200"
    unfolding free_sectors_def demo_bits(2) by (metis length_filter_le length_upt minus_nat.diff_0)
  then obtain k' where "free_map_allocate store_free_map 1000 demo_fs = Some (False, free_sectors (free_map demo_fs), k')"
      "bitmap_abs (free_map k') = replicate (length (free_sectors (free_map demo_fs))) False @ replicate (200 - length (free_sectors (free_map demo_fs))) True"
    using free_map_allocate_failure_corrupts [OF demo_bits(1), of 1000 store_free_map] by (auto simp: demo_bits(2))
  then show ?thesis using demo_free demo_bits(4) [of 0] by (auto simp: nth_append)
qed

section \<open>Removing a file\<close>

text \<open>
  C19: freeing the sectors of a file of at most 23 blocks clears the bits of its first twelve blocks, or of all if it has
  no more, and no other bit: up to twelve blocks the file is freed exactly; beyond that, the indirect block
  and the blocks in it are lost.
\<close>

theorem inode_free_direct_only:
  assumes "map_inv own k" "length (dblocks i) = 12" "bytes_to_sectors (id_length i) \<le> 24" "n = min (bytes_to_sectors (id_length i)) 12"
    "distinct (take n (dblocks i))" "\<forall>x\<in>set (take n (dblocks i)). x < bit_cnt (free_map k) \<and> bitmap_abs (free_map k) ! x"
  shows "\<exists>k'. inode_disk_free store_free_map i k = Some k' \<and> map_inv own k' \<and>
     bits_set (free_map k) (set (take n (dblocks i))) False (free_map k')"
  using fm.free_direct_ok [OF assms] by blast

lemma inode_free_direct_only_witness:
  "\<exists>k'. inode_disk_free store_free_map demo_large_inode demo_fs = Some k' \<and> \<not> bitmap_abs (free_map k') ! 31 \<and>
     bitmap_abs (free_map k') ! 32 \<and> bitmap_abs (free_map k') ! 6"
proof -
  have d: "dblocks demo_large_inode = [20..<32]" by (simp add: demo_large_inode_def)
  have s: "bytes_to_sectors (id_length demo_large_inode) = 14"
    using bytes_to_indirect_small [of 6656] by (simp add: bytes_to_sectors_def demo_open bytes_to_data_sectors_simps)
  have t: "take 12 (dblocks demo_large_inode) = [20..<32]" by (simp add: d)
  have u: "\<forall>x\<in>set (take 12 (dblocks demo_large_inode)). x < bit_cnt (free_map demo_fs) \<and> bitmap_abs (free_map demo_fs) ! x"
    unfolding t demo_bits(2) using demo_bits(4) by auto
  have h: "length (dblocks demo_large_inode) = 12" "bytes_to_sectors (id_length demo_large_inode) \<le> 24"
      "12 = min (bytes_to_sectors (id_length demo_large_inode)) 12" "distinct (take 12 (dblocks demo_large_inode))"
    unfolding s t d by simp_all
  obtain k' where k': "inode_disk_free store_free_map demo_large_inode demo_fs = Some k'"
      "bits_set (free_map demo_fs) (set [20..<32]) False (free_map k')"
    using inode_free_direct_only [OF demo_map_inv h u] unfolding t by blast
  then show ?thesis
    using bits_setD(3) [OF k'(2), of 31] bits_setD(3) [OF k'(2), of 32] bits_setD(3) [OF k'(2), of 6] demo_bits(4) [of 32] demo_bits(4) [of 6] demo_bits(2) by simp
qed

text \<open>
  C20: freeing a file of 24 to 150 blocks always ends in a failed assertion. After the blocks in the inode twelve is subtracted
  twice from the counter of the sectors left, and after those in the indirect block its bound is subtracted again, so that
  the counter wraps around; the loop over the doubly indirect block, which a file of up to 140 blocks does not even have,
  then releases its first entry a second time, where an assertion of the free map fails, unless an
  assertion failed before. Larger files make the loop over the indirect block read past the end of the table and are not covered.
\<close>

theorem removing_large_file_faults:
  assumes "map_inv own k" "11776 < id_length i" "id_length i \<le> 76800"
  shows "inode_disk_free store_free_map i k = None"
proof -
  have n: "24 \<le> bytes_to_data_sectors (id_length i)" "bytes_to_data_sectors (id_length i) \<le> 150"
    using data_sectors_mono [of 11777 "id_length i"] data_sectors_mono [of "id_length i" 76800] assms(2,3)
    by (simp_all add: bytes_to_data_sectors_eq [of 11777] bytes_to_data_sectors_eq [of 76800])
  then have "1 \<le> bytes_to_indirect_sectors (id_length i)" "bytes_to_indirect_sectors (id_length i) \<le> 3"
    by (auto simp: bytes_to_indirect_sectors_def Let_def DIV_ROUND_UP_def)
  then have "24 < bytes_to_sectors (id_length i)" "bytes_to_sectors (id_length i) \<le> 153" using n by (simp_all add: bytes_to_sectors_def)
  then show ?thesis by (rule fm.free_large_none [OF assms(1)])
qed

lemma removing_large_file_faults_witness: "inode_disk_free store_free_map (demo_large_inode\<lparr>id_length := 20000\<rparr>) demo_fs = None"
  using removing_large_file_faults [OF demo_map_inv, of "demo_large_inode\<lparr>id_length := 20000\<rparr>"] by simp

section \<open>Past the tables\<close>

text \<open>
  C21: a file that has blocks in its indirect block cannot grow past it in one write: the entries that belong in the
  doubly indirect block are written past the end of the indirect block, where an assertion of the cache fails.
\<close>

theorem write_across_indirect_faults:
  assumes "map_inv own k" "inodes k p = Some m" "deny_write_cnt m = 0" "file_ok (disk_size k) (disk k) (i_sector m) i"
    "len = int (q + length buf)" "6144 < id_length i" "id_length i \<le> 71168" "71680 < len" "len < 2 ^ 31 - 511"
    "sectors_needed i len \<le> length (free_sectors (free_map k))"
  shows "inode_write_at store_free_map p buf (int q) k = None"
proof (rule write_across_none [OF _ assms(2-4)])
  show "fs_ok k" using fm.inv_ok [OF assms(1)] by blast
  show n: "12 < n_sectors i" "n_sectors i < 140" "140 < bytes_to_data_sectors len"
    using data_sectors_mono [of 6145 "id_length i"] data_sectors_mono [of "id_length i" 71168] data_sectors_mono [of 71681 len] assms(6-9)
    by (simp_all add: n_sectors_def bytes_to_data_sectors_eq [of 6145] bytes_to_data_sectors_eq [of 71168] bytes_to_data_sectors_eq [of 71681])
  show "len = int (q + length buf)" "len < 2 ^ 31" "id_length i \<le> len" using assms(5-9) by simp_all
  fix k1 assume q: "quiet_step k k1"
  have "free_map k1 = free_map k" using cache_stepD(5) [OF quiet_stepD(1) [OF q]] .
  moreover have "0 < sectors_needed i len" using n by (simp add: sectors_needed_def)
  ultimately show "\<exists>sectors k2. free_map_allocate store_free_map (sectors_needed i len) k1 = Some (True, sectors, k2)"
    using fm.allocate_ok [OF fm.inv_quiet [OF assms(1) q], of "sectors_needed i len"] assms(10) by auto
qed

lemma write_across_indirect_faults_witness:
  "inode_write_at store_free_map 12 [1] (int 71680) demo_fs = None"
proof -
  have b: "bytes_to_data_sectors 71681 = 141" by (simp add: bytes_to_data_sectors_eq)
  have "sectors_needed demo_large_inode 71681 = 130"
    by (simp add: sectors_needed_def b demo_large_layout bytes_to_indirect_sectors_def demo_open bytes_to_data_sectors_simps Let_def DIV_ROUND_UP_def)
  then show ?thesis
    using write_across_indirect_faults [OF demo_map_inv demo_open(2), of demo_large_inode 71681 71680 "[1]"] demo_free
    by (simp add: demo_fs_ok demo_files_ok demo_open)
qed

text \<open>
  C22: a read far past the end of a small file makes the kernel panic: its doubly indirect block is not allocated and has
  the number 0, so the inode of the free map is taken for a table, and its magic number for a sector, which is not on the
  device.
\<close>

theorem read_past_end_faults:
  assumes "fs_ok k" "inodes k p = Some m" "p \<noteq> 0" "file_ok (disk_size k) (disk k) (i_sector m) i" "0 < n"
    "doubly_indblock i = 0" "0 < disk_size k" "disk_size k \<le> INODE_MAGIC" "id_magic (bytes_inode_disk (disk k 0)) = INODE_MAGIC"
  shows "inode_read_at p n 1120256 k = None"
proof (rule read_past_end_none [OF assms(1-4)])
  have "sector_words (disk k 0) ! 16 = INODE_MAGIC"
    using assms(9) by (simp add: bytes_inode_disk_def sector_words_def Let_def)
  then show "disk_size k \<le> sector_words (disk k (doubly_indblock i)) ! nat ((1120256 - 71680) div 65536)" using assms(6,8) by simp
qed (use assms(5-7) in simp_all)

lemma read_past_end_faults_witness: "inode_read_at 11 1 1120256 demo_fs = None"
  using read_past_end_faults [OF demo_fs_ok(1) demo_open(1), of demo_small_inode 1]
  by (simp add: demo_fs_ok demo_files_ok demo_inodes_stored)
    (simp add: demo_small_inode_def demo_map_inode_def blank_inode_disk_def)

end
