(* ===== verification/Vaddr.thy ===== *)
theory Vaddr
  imports Bitmap
begin

text \<open>
  Virtual addresses (\<^verbatim>\<open>threads/vaddr.h\<close>), page directory and page table entries
  (\<^verbatim>\<open>threads/pte.h\<close>), and the memory that the kernel reaches at and above \<^verbatim>\<open>PHYS_BASE\<close>.
  Addresses and entries are 32-bit words and the functions are the bit operations of the
  headers. The lemmas give their arithmetic reading and the round trips between an address
  and the entry that holds it.
\<close>

section \<open>Addresses\<close>

type_synonym va = "32 word"

abbreviation (input) PGSIZE :: nat where "PGSIZE \<equiv> 4096"

definition BITMASK :: "nat \<Rightarrow> nat \<Rightarrow> 32 word" where
  "BITMASK shift cnt = push_bit shift (push_bit cnt 1 - 1)"

definition PGMASK :: "32 word" where
  "PGMASK = BITMASK 0 12"

definition PHYS_BASE :: va where
  "PHYS_BASE = 0xc0000000"

definition pg_ofs :: "va \<Rightarrow> 32 word" where
  "pg_ofs a = a AND PGMASK"

definition pg_no :: "va \<Rightarrow> 32 word" where
  "pg_no a = drop_bit 12 a"

definition pg_round_up :: "va \<Rightarrow> va" where
  "pg_round_up a = (a + 4096 - 1) AND NOT PGMASK"

definition pg_round_down :: "va \<Rightarrow> va" where
  "pg_round_down a = a AND NOT PGMASK"

definition is_user_vaddr :: "va \<Rightarrow> bool" where
  "is_user_vaddr a \<longleftrightarrow> a < PHYS_BASE"

definition is_kernel_vaddr :: "va \<Rightarrow> bool" where
  "is_kernel_vaddr a \<longleftrightarrow> a \<ge> PHYS_BASE"

definition ptov :: "32 word \<Rightarrow> va option" where
  "ptov paddr = do { ASSERT (paddr < PHYS_BASE); Some (paddr + PHYS_BASE) }"

definition vtop :: "va \<Rightarrow> 32 word option" where
  "vtop a = do { ASSERT (is_kernel_vaddr a); Some (a - PHYS_BASE) }"

section \<open>Page directory and page table entries\<close>

definition PTMASK :: "32 word" where
  "PTMASK = BITMASK 12 10"

definition pt_no :: "va \<Rightarrow> 32 word" where
  "pt_no a = drop_bit 12 (a AND PTMASK)"

definition pd_no :: "va \<Rightarrow> 32 word" where
  "pd_no a = drop_bit 22 a"

definition PTE_ADDR :: "32 word" where "PTE_ADDR = 0xfffff000"
definition PTE_P :: "32 word" where "PTE_P = 1"
definition PTE_W :: "32 word" where "PTE_W = 2"
definition PTE_U :: "32 word" where "PTE_U = 4"
definition PTE_A :: "32 word" where "PTE_A = 0x20"
definition PTE_D :: "32 word" where "PTE_D = 0x40"

definition pde_create :: "va \<Rightarrow> 32 word option" where
  "pde_create pt = do { ASSERT (pg_ofs pt = 0); p \<leftarrow> vtop pt; Some (p OR PTE_U OR PTE_P OR PTE_W) }"

definition pde_get_pt :: "32 word \<Rightarrow> va option" where
  "pde_get_pt pde = do { ASSERT (pde AND PTE_P \<noteq> 0); ptov (pde AND PTE_ADDR) }"

definition pte_create_kernel :: "va \<Rightarrow> bool \<Rightarrow> 32 word option" where
  "pte_create_kernel page writable = do {
     ASSERT (pg_ofs page = 0);
     p \<leftarrow> vtop page;
     Some (p OR PTE_P OR (if writable then PTE_W else 0)) }"

definition pte_create_user :: "va \<Rightarrow> bool \<Rightarrow> 32 word option" where
  "pte_create_user page writable = do { e \<leftarrow> pte_create_kernel page writable; Some (e OR PTE_U) }"

definition pte_get_page :: "32 word \<Rightarrow> va option" where
  "pte_get_page pte = ptov (pte AND PTE_ADDR)"

section \<open>Arithmetic of addresses\<close>

lemma unat_word32: "unat (a :: 32 word) < 2 ^ 32"
proof -
  have "unat a < 2 ^ LENGTH(32)" by (rule unsigned_less)
  then show ?thesis by simp
qed

lemma PGMASK_mask: "PGMASK = mask 12"
  by (simp add: PGMASK_def BITMASK_def mask_eq_exp_minus_1)

lemma PTMASK_eq: "PTMASK = push_bit 12 (mask 10)"
  by (simp add: PTMASK_def BITMASK_def mask_eq_exp_minus_1)

lemma unat_pg_ofs: "unat (pg_ofs a) = unat a mod PGSIZE"
  by (simp add: pg_ofs_def PGMASK_mask flip: take_bit_eq_mask)
     (simp add: unsigned_take_bit_eq take_bit_eq_mod unat_mod_distrib)

lemma unat_pg_no: "unat (pg_no a) = unat a div PGSIZE"
  by (simp add: pg_no_def unat_drop_bit_eq drop_bit_eq_div unat_div_distrib)

lemma unat_pd_no: "unat (pd_no a) = unat a div 2 ^ 22"
  by (simp add: pd_no_def unat_drop_bit_eq drop_bit_eq_div unat_div_distrib)

lemma pt_no_alt: "pt_no a = take_bit 10 (drop_bit 12 a)"
  by (rule bit_word_eqI)
     (auto simp: pt_no_def PTMASK_eq bit_simps)

lemma unat_pt_no: "unat (pt_no a) = unat a div PGSIZE mod 1024"
  by (simp add: pt_no_alt unsigned_take_bit_eq unat_drop_bit_eq take_bit_eq_mod drop_bit_eq_div unat_div_distrib unat_mod_distrib)

lemma pg_round_down_alt: "pg_round_down a = push_bit 12 (drop_bit 12 a)"
  by (rule bit_word_eqI) (auto simp: pg_round_down_def PGMASK_mask bit_simps)

lemma pg_round_down_plus: "pg_round_down a + pg_ofs a = a"
proof -
  have "pg_round_down a + pg_ofs a = pg_round_down a OR pg_ofs a"
    by (rule disjunctive_add) (auto simp: pg_round_down_def pg_ofs_def bit_simps)
  also have "\<dots> = a"
    by (rule bit_word_eqI) (auto simp: pg_round_down_def pg_ofs_def bit_simps)
  finally show ?thesis .
qed

lemma unat_pg_round_down: "unat (pg_round_down a) = unat a div PGSIZE * PGSIZE"
proof -
  have "unat a div PGSIZE * PGSIZE < 2 ^ 32"
    using unat_word32 [of a] div_times_less_eq_dividend [of "unat a" PGSIZE] by simp
  then show ?thesis
    by (simp add: pg_round_down_alt unsigned_push_bit_eq unat_drop_bit_eq drop_bit_eq_div push_bit_eq_mult take_bit_eq_mod unat_div_distrib unat_word_ariths)
qed

abbreviation page_aligned :: "va \<Rightarrow> bool" where
  "page_aligned a \<equiv> pg_ofs a = 0"

lemma page_aligned_iff: "page_aligned a \<longleftrightarrow> unat a mod PGSIZE = 0"
  by (simp add: unat_eq_0 flip: unat_pg_ofs)

lemma page_aligned_round_down [simp]: "page_aligned (pg_round_down a)"
  by (simp add: page_aligned_iff unat_pg_round_down)

lemma pg_round_down_id [simp]: "page_aligned a \<Longrightarrow> pg_round_down a = a"
  using pg_round_down_plus [of a] by simp

lemma pg_round_down_user [simp]: "is_user_vaddr a \<Longrightarrow> is_user_vaddr (pg_round_down a)"
  using div_times_less_eq_dividend [of "unat a" PGSIZE]
  by (simp add: is_user_vaddr_def word_less_nat_alt unat_pg_round_down)

text \<open>Directory index and table index together determine the page.\<close>

lemma page_indices:
  "pd_no a = pd_no b \<and> pt_no a = pt_no b \<longleftrightarrow> pg_round_down a = pg_round_down b"
proof -
  have split: "x div 2 ^ 22 = y div 2 ^ 22 \<and> x div PGSIZE mod 1024 = y div PGSIZE mod 1024 \<longleftrightarrow>
      x div PGSIZE = y div PGSIZE" for x y :: nat
  proof -
    have "z div 2 ^ 22 = z div PGSIZE div 1024" for z :: nat
      by (simp flip: div_mult2_eq)
    then show ?thesis by (metis div_mult_mod_eq)
  qed
  have "pd_no a = pd_no b \<and> pt_no a = pt_no b \<longleftrightarrow>
      unat (pd_no a) = unat (pd_no b) \<and> unat (pt_no a) = unat (pt_no b)" by (simp add: word_unat_eq_iff)
  also have "\<dots> \<longleftrightarrow> unat a div PGSIZE = unat b div PGSIZE"
    by (simp only: unat_pd_no unat_pt_no split)
  also have "\<dots> \<longleftrightarrow> unat (pg_round_down a) = unat (pg_round_down b)"
    by (simp add: unat_pg_round_down)
  finally show ?thesis by (simp add: word_unat_eq_iff)
qed

lemma pt_no_less: "unat (pt_no a) < 1024"
  by (simp add: unat_pt_no)

lemma pd_no_less: "unat (pd_no a) < 1024"
proof -
  have "unat a < 2 ^ 22 * 1024" using unat_word32 [of a] by simp
  then show ?thesis unfolding unat_pd_no by (simp add: less_mult_imp_div_less)
qed

lemma pd_no_user: "is_user_vaddr a \<longleftrightarrow> unat (pd_no a) < 768"
  by (simp add: is_user_vaddr_def word_less_nat_alt PHYS_BASE_def unat_pd_no less_mult_imp_div_less div_less_iff_less_mult)

section \<open>Round trips of entries\<close>

lemma ptov_vtop: "is_kernel_vaddr a \<Longrightarrow> vtop a = Some p \<Longrightarrow> ptov p = Some a"
proof -
  assume k: "is_kernel_vaddr a" and p: "vtop a = Some p"
  then have "unat p = unat a - unat PHYS_BASE"
    by (auto simp: vtop_def is_kernel_vaddr_def unat_sub)
  then have "p < PHYS_BASE"
    using unat_word32 [of a] by (simp add: word_less_nat_alt PHYS_BASE_def)
  then show ?thesis using k p by (auto simp: ptov_def vtop_def)
qed

lemma page_aligned_vtop: "page_aligned a \<Longrightarrow> page_aligned (a - PHYS_BASE)"
proof -
  assume a: "page_aligned a"
  have "a - PHYS_BASE = pg_round_down (a - PHYS_BASE)"
  proof -
    have "PHYS_BASE = push_bit 12 0xc0000" by (simp add: PHYS_BASE_def push_bit_eq_mult)
    moreover have "a = push_bit 12 (drop_bit 12 a)" using a pg_round_down_id pg_round_down_alt by metis
    ultimately have "a - PHYS_BASE = push_bit 12 (drop_bit 12 a - 0xc0000)"
      by (metis push_bit_eq_mult left_diff_distrib)
    then show ?thesis by (simp add: pg_round_down_alt) (rule bit_word_eqI, auto simp: bit_simps)
  qed
  then show ?thesis by (metis page_aligned_round_down)
qed

lemma PTE_ADDR_NOT_mask: "PTE_ADDR = NOT (mask 12)"
  by (simp add: PTE_ADDR_def mask_eq_exp_minus_1)

lemma flag_powers: "PTE_P = 2 ^ 0" "PTE_W = 2 ^ 1" "PTE_U = 2 ^ 2" "PTE_A = 2 ^ 5" "PTE_D = 2 ^ 6"
  by (simp_all add: PTE_P_def PTE_W_def PTE_U_def PTE_A_def PTE_D_def)

lemma flag_test:
  "e AND PTE_P \<noteq> 0 \<longleftrightarrow> bit e 0" "e AND PTE_W \<noteq> 0 \<longleftrightarrow> bit e 1" "e AND PTE_U \<noteq> 0 \<longleftrightarrow> bit e 2"
  "e AND PTE_A \<noteq> 0 \<longleftrightarrow> bit e 5" "e AND PTE_D \<noteq> 0 \<longleftrightarrow> bit e 6"
  unfolding flag_powers and_exp_eq_0_iff_not_bit by simp_all

lemma flag_bits:
  "bit PTE_P n \<longleftrightarrow> n = 0" "bit PTE_W n \<longleftrightarrow> n = 1" "bit PTE_U n \<longleftrightarrow> n = 2"
  "bit PTE_A n \<longleftrightarrow> n = 5" "bit PTE_D n \<longleftrightarrow> n = 6"
  unfolding flag_powers bit_exp_iff by auto

lemma PTE_ADDR_bits: "bit PTE_ADDR n \<longleftrightarrow> 12 \<le> n \<and> n < 32"
  unfolding PTE_ADDR_NOT_mask by (auto simp: bit_simps)

lemma page_aligned_bits: "page_aligned p \<longleftrightarrow> (\<forall>n<12. \<not> bit p n)"
proof -
  have "n < 12 \<Longrightarrow> n < 32" for n :: nat by simp
  then have "(\<forall>n<32. bit p n \<longrightarrow> \<not> n < 12) \<longleftrightarrow> (\<forall>n<12. \<not> bit p n)" by blast
  then show ?thesis unfolding pg_ofs_def PGMASK_mask bit_eq_iff by (simp add: bit_simps)
qed

lemma addr_of_entry:
  assumes "page_aligned p" "\<And>n. bit f n \<Longrightarrow> n < 12"
  shows "(p OR f) AND PTE_ADDR = p"
  by (rule bit_word_eqI) (use assms in \<open>auto simp: PTE_ADDR_bits page_aligned_bits bit_simps simp flip: not_less\<close>)

lemma pde_create_ok:
  assumes "page_aligned pt" "is_kernel_vaddr pt"
  shows "\<exists>e. pde_create pt = Some e \<and> e \<noteq> 0 \<and> pde_get_pt e = Some pt"
proof -
  obtain p where p: "vtop pt = Some p" "p = pt - PHYS_BASE" using assms by (auto simp: vtop_def)
  let ?e = "p OR PTE_U OR PTE_P OR PTE_W"
  have "?e AND PTE_ADDR = p"
    by (rule addr_of_entry) (use page_aligned_vtop assms p in \<open>auto simp: flag_bits bit_simps\<close>)
  moreover have "?e AND PTE_P \<noteq> 0"
    unfolding flag_test by (simp add: flag_bits bit_simps)
  ultimately show ?thesis using p ptov_vtop [OF assms(2) p(1)] assms
    by (auto simp: pde_create_def pde_get_pt_def)
qed

lemma pte_create_user_ok:
  assumes "page_aligned k" "is_kernel_vaddr k"
  shows "\<exists>e. pte_create_user k w = Some e \<and> e AND PTE_P \<noteq> 0 \<and> pte_get_page e = Some k \<and>
    (e AND PTE_W \<noteq> 0 \<longleftrightarrow> w) \<and> e AND PTE_A = 0 \<and> e AND PTE_D = 0"
proof -
  obtain p where p: "vtop k = Some p" "p = k - PHYS_BASE" using assms by (auto simp: vtop_def)
  let ?e = "p OR PTE_P OR (if w then PTE_W else 0) OR PTE_U"
  have al: "page_aligned p" using page_aligned_vtop assms p by simp
  then have a: "?e AND PTE_ADDR = p"
    by (rule addr_of_entry) (auto simp: flag_bits bit_simps split: if_splits)
  have f: "?e AND PTE_P \<noteq> 0" "?e AND PTE_W \<noteq> 0 \<longleftrightarrow> w" "\<not> ?e AND PTE_A \<noteq> 0" "\<not> ?e AND PTE_D \<noteq> 0"
    unfolding flag_test using al by (auto simp: flag_bits page_aligned_bits bit_simps)
  show ?thesis using a f p ptov_vtop [OF assms(2) p(1)] assms
    by (auto simp: pte_create_user_def pte_create_kernel_def pte_get_page_def or.assoc)
qed

text \<open>Setting and clearing a flag keeps the page and the other flags.\<close>

lemma addr_flags [simp]:
  "(e OR PTE_A) AND PTE_ADDR = e AND PTE_ADDR" "(e OR PTE_D) AND PTE_ADDR = e AND PTE_ADDR"
  "(e AND NOT PTE_A) AND PTE_ADDR = e AND PTE_ADDR" "(e AND NOT PTE_D) AND PTE_ADDR = e AND PTE_ADDR"
  by (rule bit_word_eqI, auto simp: flag_bits PTE_ADDR_bits bit_simps)+

section \<open>Memory\<close>

text \<open>
  The bytes the kernel can address. \<open>mem_put\<close> and \<open>mem_get\<close> transfer a block; 32-bit values
  are stored in little-endian order.
\<close>

type_synonym memory = "va \<Rightarrow> 8 word"

definition mem_get :: "memory \<Rightarrow> va \<Rightarrow> nat \<Rightarrow> 8 word list" where
  "mem_get m a n = map (\<lambda>i. m (a + of_nat i)) [0..<n]"

definition mem_put :: "memory \<Rightarrow> va \<Rightarrow> 8 word list \<Rightarrow> memory" where
  "mem_put m a bs = (\<lambda>x. if unat (x - a) < length bs then bs ! unat (x - a) else m x)"

definition load32 :: "memory \<Rightarrow> va \<Rightarrow> 32 word" where
  "load32 m a = bytes_word (mem_get m a 4)"

definition store32 :: "memory \<Rightarrow> va \<Rightarrow> 32 word \<Rightarrow> memory" where
  "store32 m a v = mem_put m a (word_bytes v)"

text \<open>A block that does not wrap around the address space.\<close>

definition fits :: "va \<Rightarrow> nat \<Rightarrow> bool" where
  "fits a n \<longleftrightarrow> unat a + n \<le> 2 ^ 32"

definition apart :: "va \<Rightarrow> nat \<Rightarrow> va \<Rightarrow> nat \<Rightarrow> bool" where
  "apart a n b k \<longleftrightarrow> unat a + n \<le> unat b \<or> unat b + k \<le> unat a"

lemma length_mem_get [simp]: "length (mem_get m a n) = n"
  by (simp add: mem_get_def)

lemma in_block: "fits a n \<Longrightarrow> unat (x - a) < n \<longleftrightarrow> unat a \<le> unat x \<and> unat x < unat a + n"
proof -
  assume f: "fits a n"
  show ?thesis
  proof (cases "a \<le> x")
    case True
    then show ?thesis using f by (auto simp: unat_sub word_le_nat_alt fits_def)
  next
    case False
    then have "unat (x - a) = 2 ^ 32 + unat x - unat a"
      using unat_word32 [of a] by (simp add: unat_sub_if_size word_size word_le_nat_alt)
    then show ?thesis using f False by (auto simp: word_le_nat_alt fits_def)
  qed
qed

lemma unat_offset: "fits a n \<Longrightarrow> i < n \<Longrightarrow> unat (a + of_nat i) = unat a + i"
proof -
  assume "fits a n" "i < n"
  then have i: "unat a + i < 2 ^ 32" by (simp add: fits_def)
  then have "unat (of_nat i :: 32 word) = i" by (simp add: unat_of_nat)
  then show ?thesis using i by (simp add: unat_word_ariths)
qed

lemma mem_get_put_same: "fits a (length bs) \<Longrightarrow> mem_get (mem_put m a bs) a (length bs) = bs"
proof (rule nth_equalityI)
  fix i assume f: "fits a (length bs)" and "i < length (mem_get (mem_put m a bs) a (length bs))"
  then have i: "i < length bs" by simp
  then have "i < 2 ^ 32" using f by (simp add: fits_def)
  then have "unat (of_nat i :: 32 word) = i" by (simp add: unat_of_nat)
  then show "mem_get (mem_put m a bs) a (length bs) ! i = bs ! i"
    using i by (simp add: mem_get_def mem_put_def)
qed simp

lemma mem_put_apart:
  assumes "fits a (length bs)" "fits b n" "apart a (length bs) b n"
  shows "mem_get (mem_put m a bs) b n = mem_get m b n"
proof -
  have "\<not> unat (b + of_nat i - a) < length bs" if "i < n" for i
    using assms that unat_offset [OF assms(2) that] by (auto simp: in_block apart_def)
  then show ?thesis by (simp add: mem_get_def mem_put_def)
qed

lemma load_store_same: "fits a 4 \<Longrightarrow> load32 (store32 m a v) a = v"
  using mem_get_put_same [of a "word_bytes v" m] by (simp add: load32_def store32_def bytes_word_bytes)

lemma load_store_apart: "fits a 4 \<Longrightarrow> fits b 4 \<Longrightarrow> apart a 4 b 4 \<Longrightarrow> load32 (store32 m a v) b = load32 m b"
  by (simp add: load32_def store32_def mem_put_apart)

text \<open>The entries of a table of 1024 entries that fills a page.\<close>

definition entry :: "va \<Rightarrow> 32 word \<Rightarrow> va" where
  "entry t i = t + 4 * i"

lemma page_number:
  assumes "page_aligned t"
  obtains k where "unat t = PGSIZE * k" "k < 1048576"
proof -
  obtain k where k: "unat t = PGSIZE * k" using assms by (auto simp: page_aligned_iff mod_eq_0_iff_dvd dvd_def)
  then have "k < 1048576" using unat_word32 [of t] by simp
  with k show ?thesis by (rule that)
qed

lemma page_end: "page_aligned t \<Longrightarrow> unat t + PGSIZE \<le> 2 ^ 32"
  by (erule page_number) simp

lemma unat_entry:
  assumes "page_aligned t" "unat i < 1024"
  shows "unat (entry t i) = unat t + 4 * unat i"
proof -
  have "unat t + PGSIZE \<le> 2 ^ 32" using assms(1) by (rule page_end)
  moreover have "unat (4 * i) = 4 * unat i" using assms(2) by (simp add: unat_word_ariths)
  ultimately show ?thesis using assms(2) by (simp add: entry_def unat_word_ariths)
qed

lemma fits_page: "page_aligned t \<Longrightarrow> n \<le> PGSIZE \<Longrightarrow> fits t n"
  using page_end [of t] by (simp add: fits_def)

lemma fits_entry: "page_aligned t \<Longrightarrow> unat i < 1024 \<Longrightarrow> fits (entry t i) 4"
  using fits_page [of t PGSIZE] by (simp add: unat_entry fits_def)

lemma pages_apart:
  assumes "page_aligned s" "page_aligned t" "s \<noteq> t"
  shows "unat s + PGSIZE \<le> unat t \<or> unat t + PGSIZE \<le> unat s"
proof -
  obtain j k where "unat s = PGSIZE * j" "unat t = PGSIZE * k" using page_number assms(1,2) by metis
  moreover have "unat s \<noteq> unat t" using assms(3) by (simp add: word_unat_eq_iff)
  ultimately show ?thesis by auto
qed

lemma load_store_entry:
  assumes "page_aligned s" "unat i < 1024" "page_aligned t" "unat j < 1024"
  shows "load32 (store32 m (entry s i) v) (entry t j) = (if s = t \<and> i = j then v else load32 m (entry t j))"
proof (cases "s = t \<and> i = j")
  case True
  then show ?thesis using load_store_same [OF fits_entry [OF assms(1,2)]] by simp
next
  case False
  have "apart (entry s i) 4 (entry t j) 4"
  proof (cases "s = t")
    case True
    then have "unat i \<noteq> unat j" using False by (simp add: word_unat_eq_iff)
    then show ?thesis using True assms by (auto simp: apart_def unat_entry)
  next
    case False
    then show ?thesis using pages_apart [OF assms(1,3)] assms by (auto simp: apart_def unat_entry)
  qed
  then show ?thesis using False load_store_apart fits_entry assms by auto
qed

lemma load_put_page:
  assumes "page_aligned p" "length bs \<le> PGSIZE" "page_aligned t" "p \<noteq> t" "unat j < 1024"
  shows "load32 (mem_put m p bs) (entry t j) = load32 m (entry t j)"
proof -
  have "apart p (length bs) (entry t j) 4"
    using pages_apart [OF assms(1,3,4)] assms(2,5) unat_entry [OF assms(3,5)] by (auto simp: apart_def)
  then show ?thesis
    unfolding load32_def using assms by (simp add: mem_put_apart fits_entry fits_page)
qed

lemma get_store_page:
  assumes "page_aligned p" "n \<le> PGSIZE" "page_aligned t" "p \<noteq> t" "unat j < 1024"
  shows "mem_get (store32 m (entry t j) v) p n = mem_get m p n"
proof -
  have "apart (entry t j) 4 p n"
    using pages_apart [OF assms(1,3,4)] assms(2,5) unat_entry [OF assms(3,5)] by (auto simp: apart_def)
  then show ?thesis
    unfolding store32_def using assms by (simp add: mem_put_apart fits_entry fits_page)
qed

lemma get_put_page:
  assumes "page_aligned p" "length bs \<le> PGSIZE" "page_aligned t" "p \<noteq> t" "n \<le> PGSIZE"
  shows "mem_get (mem_put m p bs) t n = mem_get m t n"
  using pages_apart [OF assms(1,3,4)] assms by (intro mem_put_apart) (auto simp: apart_def fits_page)

lemma mem_get_sub: "mem_get m (a + of_nat k) n = take n (drop k (mem_get m a (k + n)))"
  by (rule nth_equalityI) (simp_all add: mem_get_def add.assoc)

lemma take_mem_get: "k \<le> n \<Longrightarrow> take k (mem_get m a n) = mem_get m a k"
  by (simp add: mem_get_def take_map)

lemma mem_get_put_sub:
  assumes "fits a (length bs)" "k + n \<le> length bs"
  shows "mem_get (mem_put m a bs) (a + of_nat k) n = take n (drop k bs)"
proof -
  have "mem_get (mem_put m a bs) (a + of_nat k) n = take n (drop k (take (k + n) (mem_get (mem_put m a bs) a (length bs))))"
    unfolding mem_get_sub using assms(2) by (simp add: take_mem_get)
  then show ?thesis using assms by (simp add: mem_get_put_same drop_take)
qed

lemma entry_offset: "entry t j = t + of_nat (4 * unat j)"
  by (simp add: entry_def)

lemma load_put_entry:
  assumes "page_aligned p" "length bs = PGSIZE" "unat j < 1024"
  shows "load32 (mem_put m p bs) (entry p j) = bytes_word (take 4 (drop (4 * unat j) bs))"
  using assms mem_get_put_sub [of p bs "4 * unat j" 4 m] fits_page [of p PGSIZE]
  by (simp add: load32_def entry_offset del: of_nat_mult)

lemma bytes_word_zero: "bytes_word (replicate 4 0) = 0"
  by (simp add: bytes_word_def numeral_eq_Suc)

lemma load_zero_page:
  assumes "page_aligned p" "unat j < 1024"
  shows "load32 (mem_put m p (replicate PGSIZE 0)) (entry p j) = 0"
proof -
  have "min (PGSIZE - 4 * unat j) 4 = 4" using assms(2) by simp
  then show ?thesis using assms by (simp add: load_put_entry bytes_word_zero)
qed

lemma load_copy_page:
  assumes "page_aligned p" "unat j < 1024"
  shows "load32 (mem_put m p (mem_get m q PGSIZE)) (entry p j) = load32 m (entry q j)"
proof -
  have "take 4 (drop (4 * unat j) (mem_get m q PGSIZE)) = mem_get m (q + of_nat (4 * unat j)) 4"
    using assms(2) take_mem_get [of "4 * unat j + 4" PGSIZE m q] unfolding mem_get_sub
    by (simp add: take_drop add.commute [of 4] del: of_nat_mult)
  then show ?thesis using load_put_entry [OF assms(1) _ assms(2), of "mem_get m q PGSIZE" m]
    by (simp add: load32_def entry_offset del: of_nat_mult)
qed

end
