(* ===== verification/Palloc.thy ===== *)
theory Palloc
  imports Vaddr
begin

text \<open>
  The page allocator (\<^verbatim>\<open>threads/palloc.c\<close>): two pools of pages, each with a bitmap of the pages
  in use. The bitmap of a pool lies in the memory in front of its pages; the model keeps it
  as a value. The lemmas show that a pool hands out a page to one owner at a time, over the
  contract of the bitmap allocator.
\<close>

section \<open>State\<close>

record pool =
  used_map :: bitmap
  base :: va

text \<open>
  The part of the machine the memory management works on: the two pools, the bytes of
  memory, the number of pages of RAM, the page directory of the kernel and the page
  directory base register.
\<close>

record machine =
  kernel_pool :: pool
  user_pool :: pool
  ram :: memory
  init_ram_pages :: nat
  init_page_dir :: va
  cr3 :: "32 word"

definition PAL_ASSERT :: "32 word" where "PAL_ASSERT = 1"
definition PAL_ZERO :: "32 word" where "PAL_ZERO = 2"
definition PAL_USER :: "32 word" where "PAL_USER = 4"

section \<open>Operations\<close>

text \<open>
  The bitmap is created in the first pages of the pool: its elements follow the 8 bytes of its
  header.
\<close>

definition init_pool :: "memory \<Rightarrow> va \<Rightarrow> nat \<Rightarrow> pool option" where
  "init_pool m b page_cnt = (let bm_pages = DIV_ROUND_UP (bitmap_buf_size page_cnt) PGSIZE in do {
     ASSERT (bm_pages \<le> page_cnt);
     let page_cnt = page_cnt - bm_pages;
     bm \<leftarrow> bitmap_create_in_buf page_cnt (map (\<lambda>i. load32 m (b + 8 + 4 * of_nat i)) [0..<elem_cnt page_cnt])
            (bm_pages * PGSIZE);
     Some \<lparr>used_map = bm, base = b + of_nat (bm_pages * PGSIZE)\<rparr> })"

text \<open>The difference of the two pointers is signed.\<close>

definition palloc_init :: "nat \<Rightarrow> machine \<Rightarrow> machine option" where
  "palloc_init user_page_limit m = do {
     free_start \<leftarrow> ptov (1024 * 1024);
     free_end \<leftarrow> ptov (of_nat (init_ram_pages m * PGSIZE));
     let free_pages = unat (word_of_int (sint (free_end - free_start) sdiv 4096) :: 32 word);
     let user_pages = free_pages div 2;
     let user_pages = (if user_pages > user_page_limit then user_page_limit else user_pages);
     let kernel_pages = free_pages - user_pages;
     kp \<leftarrow> init_pool (ram m) free_start kernel_pages;
     up \<leftarrow> init_pool (ram m) (free_start + of_nat (kernel_pages * PGSIZE)) user_pages;
     Some (m\<lparr>kernel_pool := kp, user_pool := up\<rparr>) }"

definition the_pool :: "bool \<Rightarrow> machine \<Rightarrow> pool" where
  "the_pool user m = (if user then user_pool m else kernel_pool m)"

definition set_pool :: "bool \<Rightarrow> pool \<Rightarrow> machine \<Rightarrow> machine" where
  "set_pool user p m = (if user then m\<lparr>user_pool := p\<rparr> else m\<lparr>kernel_pool := p\<rparr>)"

definition palloc_get_multiple :: "32 word \<Rightarrow> nat \<Rightarrow> machine \<Rightarrow> (va \<times> machine) option" where
  "palloc_get_multiple flags page_cnt m =
     (let user = (flags AND PAL_USER \<noteq> 0); pool = the_pool user m in
      if page_cnt = 0 then Some (0, m)
      else do {
        (page_idx, bm) \<leftarrow> bitmap_scan_and_flip (used_map pool) 0 page_cnt False;
        let m = set_pool user (pool\<lparr>used_map := bm\<rparr>) m;
        let pages = (if page_idx \<noteq> BITMAP_ERROR then base pool + of_nat (PGSIZE * page_idx) else 0);
        if pages \<noteq> 0
        then Some (pages, if flags AND PAL_ZERO \<noteq> 0
                          then m\<lparr>ram := mem_put (ram m) pages (replicate (PGSIZE * page_cnt) 0)\<rparr> else m)
        else do { ASSERT (flags AND PAL_ASSERT = 0); Some (pages, m) } })"

definition palloc_get_page :: "32 word \<Rightarrow> machine \<Rightarrow> (va \<times> machine) option" where
  "palloc_get_page flags m = palloc_get_multiple flags 1 m"

definition page_from_pool :: "pool \<Rightarrow> va \<Rightarrow> bool" where
  "page_from_pool pool page =
     (let page_no = unat (pg_no page); start_page = unat (pg_no (base pool));
          end_page = u32 (start_page + bitmap_size (used_map pool))
      in page_no \<ge> start_page \<and> page_no < end_page)"

definition palloc_free_multiple :: "va \<Rightarrow> nat \<Rightarrow> machine \<Rightarrow> machine option" where
  "palloc_free_multiple pages page_cnt m = do {
     ASSERT (pg_ofs pages = 0);
     if pages = 0 \<or> page_cnt = 0 then Some m
     else do {
       user \<leftarrow> (if page_from_pool (kernel_pool m) pages then Some False
               else if page_from_pool (user_pool m) pages then Some True
               else None);
       let pool = the_pool user m;
       let page_idx = unat (pg_no pages - pg_no (base pool));
       let m = m\<lparr>ram := mem_put (ram m) pages (replicate (PGSIZE * page_cnt) 0xcc)\<rparr>;
       a \<leftarrow> bitmap_all (used_map pool) page_idx page_cnt;
       ASSERT a;
       bm \<leftarrow> bitmap_set_multiple (used_map pool) page_idx page_cnt False;
       Some (set_pool user (pool\<lparr>used_map := bm\<rparr>) m) } }"

definition palloc_free_page :: "va \<Rightarrow> machine \<Rightarrow> machine option" where
  "palloc_free_page page m = palloc_free_multiple page 1 m"

section \<open>The pages of a pool\<close>

definition pool_page :: "pool \<Rightarrow> nat \<Rightarrow> va" where
  "pool_page p i = base p + of_nat (PGSIZE * i)"

definition pool_pages :: "pool \<Rightarrow> va set" where
  "pool_pages p = pool_page p ` {..<bit_cnt (used_map p)}"

definition used_pages :: "pool \<Rightarrow> va set" where
  "used_pages p = pool_page p ` {i. i < bit_cnt (used_map p) \<and> bitmap_abs (used_map p) ! i}"

definition allocated :: "machine \<Rightarrow> va set" where
  "allocated m = used_pages (kernel_pool m) \<union> used_pages (user_pool m)"

definition page_run :: "va \<Rightarrow> nat \<Rightarrow> va set" where
  "page_run p n = (\<lambda>i. p + of_nat (PGSIZE * i)) ` {..<n}"

definition pool_end :: "pool \<Rightarrow> nat" where
  "pool_end p = unat (base p) + PGSIZE * bit_cnt (used_map p)"

definition pool_wf :: "pool \<Rightarrow> bool" where
  "pool_wf p \<longleftrightarrow> bitmap_wf (used_map p) \<and> page_aligned (base p) \<and> is_kernel_vaddr (base p) \<and> pool_end p \<le> 2 ^ 32"

text \<open>The pools are well formed and lie behind one another in the pages of RAM.\<close>

definition palloc_inv :: "machine \<Rightarrow> bool" where
  "palloc_inv m \<longleftrightarrow> pool_wf (kernel_pool m) \<and> pool_wf (user_pool m) \<and>
     pool_end (kernel_pool m) \<le> unat (base (user_pool m)) \<and>
     pool_end (user_pool m) \<le> unat PHYS_BASE + PGSIZE * init_ram_pages m"

declare bitmap_abs_nth [simp del]

lemma unat_pool_page: "pool_wf p \<Longrightarrow> i < bit_cnt (used_map p) \<Longrightarrow> unat (pool_page p i) = unat (base p) + PGSIZE * i"
  by (simp add: pool_page_def pool_wf_def pool_end_def unat_offset [where n = "PGSIZE * bit_cnt (used_map p)"] fits_def
      del: of_nat_mult)

lemma pool_page_facts:
  assumes "pool_wf p" "i < bit_cnt (used_map p)"
  shows "page_aligned (pool_page p i)" "is_kernel_vaddr (pool_page p i)" "pool_page p i \<noteq> 0"
proof -
  note u = unat_pool_page [OF assms]
  show "page_aligned (pool_page p i)" using assms(1) by (simp add: page_aligned_iff u pool_wf_def)
  show k: "is_kernel_vaddr (pool_page p i)"
    using assms(1) by (simp add: is_kernel_vaddr_def word_le_nat_alt u pool_wf_def)
  then show "pool_page p i \<noteq> 0" by (auto simp: is_kernel_vaddr_def PHYS_BASE_def)
qed

lemma pool_page_inj: "pool_wf p \<Longrightarrow> inj_on (pool_page p) {..<bit_cnt (used_map p)}"
  by (rule inj_onI) (metis lessThan_iff unat_pool_page add_left_cancel mult_left_cancel zero_neq_numeral)

lemma pool_page_in [intro]: "i < bit_cnt (used_map p) \<Longrightarrow> pool_page p i \<in> pool_pages p"
  by (simp add: pool_pages_def)

lemma pools_disjoint: "palloc_inv m \<Longrightarrow> pool_pages (kernel_pool m) \<inter> pool_pages (user_pool m) = {}"
proof -
  assume inv: "palloc_inv m"
  have "unat x < pool_end (kernel_pool m)" if "x \<in> pool_pages (kernel_pool m)" for x
    using that inv unat_pool_page by (auto simp: pool_pages_def pool_end_def palloc_inv_def)
  moreover have "unat (base (user_pool m)) \<le> unat x" if "x \<in> pool_pages (user_pool m)" for x
    using that inv unat_pool_page by (auto simp: pool_pages_def palloc_inv_def)
  ultimately show ?thesis using inv by (fastforce simp: palloc_inv_def)
qed

lemma used_pages_subset: "used_pages p \<subseteq> pool_pages p"
  by (auto simp: used_pages_def pool_pages_def)

lemma pool_page_used:
  "pool_wf p \<Longrightarrow> i < bit_cnt (used_map p) \<Longrightarrow> pool_page p i \<in> used_pages p \<longleftrightarrow> bitmap_abs (used_map p) ! i"
  using inj_on_image_mem_iff [OF pool_page_inj, of p i "{i. i < bit_cnt (used_map p) \<and> bitmap_abs (used_map p) ! i}"]
  by (auto simp: used_pages_def)

lemma page_run_pool: "page_run (pool_page p i) n = pool_page p ` {i..<i + n}"
proof -
  have "{i..<i + n} = (+) i ` {..<n}" by (auto simp: lessThan_atLeast0 image_add_atLeastLessThan)
  then show ?thesis by (auto simp: page_run_def pool_page_def image_image algebra_simps)
qed

text \<open>Changing the bits of a group of pages changes the used pages by that group.\<close>

lemma used_pages_set_range:
  assumes "pool_wf p" "i + n \<le> bit_cnt (used_map p)" "bitmap_wf bm"
    "bitmap_abs bm = set_range i n v (bitmap_abs (used_map p))"
  shows "used_pages (p\<lparr>used_map := bm\<rparr>) =
      (if v then used_pages p \<union> page_run (pool_page p i) n else used_pages p - page_run (pool_page p i) n)"
    "pool_wf (p\<lparr>used_map := bm\<rparr>)" "pool_pages (p\<lparr>used_map := bm\<rparr>) = pool_pages p"
    "pool_end (p\<lparr>used_map := bm\<rparr>) = pool_end p"
proof -
  let ?p = "p\<lparr>used_map := bm\<rparr>"
  have c: "bit_cnt bm = bit_cnt (used_map p)"
    using arg_cong [OF assms(4), of length] assms(2) by simp
  have pp: "pool_page ?p = pool_page p" by (simp add: pool_page_def fun_eq_iff)
  show "pool_pages ?p = pool_pages p" "pool_end ?p = pool_end p" by (simp_all add: pool_pages_def pool_end_def pp c)
  then show "pool_wf ?p" using assms(1,3) by (simp add: pool_wf_def)
  have n: "bitmap_abs bm ! k = (if i \<le> k \<and> k < i + n then v else bitmap_abs (used_map p) ! k)"
    if "k < bit_cnt bm" for k using that assms(2,4) c by (simp add: nth_set_range)
  let ?S = "{k. k < bit_cnt (used_map p) \<and> bitmap_abs (used_map p) ! k}"
  have s: "{k. k < bit_cnt bm \<and> bitmap_abs bm ! k} = (if v then ?S \<union> {i..<i + n} else ?S - {i..<i + n})"
    using n c assms(2) by (auto split: if_splits)
  show "used_pages ?p = (if v then used_pages p \<union> page_run (pool_page p i) n else used_pages p - page_run (pool_page p i) n)"
  proof (cases v)
    case True
    then show ?thesis using s by (simp add: used_pages_def pp page_run_pool image_Un)
  next
    case False
    have "pool_page p ` (?S - {i..<i + n}) = pool_page p ` ?S - pool_page p ` {i..<i + n}"
      by (rule inj_on_image_set_diff [OF pool_page_inj [OF assms(1)]]) (use assms(2) in auto)
    then show ?thesis using False s by (simp add: used_pages_def pp page_run_pool)
  qed
qed

lemma the_pool_set [simp]: "the_pool u (set_pool v p m) = (if u = v then p else the_pool u m)"
  by (simp add: the_pool_def set_pool_def)

lemma set_pool_fields [simp]:
  "ram (set_pool u p m) = ram m" "init_ram_pages (set_pool u p m) = init_ram_pages m"
  "init_page_dir (set_pool u p m) = init_page_dir m" "cr3 (set_pool u p m) = cr3 m"
  by (simp_all add: set_pool_def)

lemma the_pool_wf: "palloc_inv m \<Longrightarrow> pool_wf (the_pool u m)"
  by (simp add: palloc_inv_def the_pool_def)

lemma allocated_pools: "allocated m = used_pages (the_pool False m) \<union> used_pages (the_pool True m)"
  by (simp add: allocated_def the_pool_def)

lemma allocated_pool: "palloc_inv m \<Longrightarrow> allocated m \<inter> pool_pages (the_pool u m) = used_pages (the_pool u m)"
  using pools_disjoint [of m] used_pages_subset [of "kernel_pool m"] used_pages_subset [of "user_pool m"]
  by (auto simp: allocated_def the_pool_def)

lemma palloc_inv_set:
  assumes "palloc_inv m" "pool_wf p" "pool_end p = pool_end (the_pool u m)" "base p = base (the_pool u m)"
  shows "palloc_inv (set_pool u p m)"
  using assms by (auto simp: palloc_inv_def the_pool_def set_pool_def split: if_splits)

lemma allocated_set:
  assumes "palloc_inv m" "X \<subseteq> pool_pages (the_pool u m)"
    "used_pages p = (if v then used_pages (the_pool u m) \<union> X else used_pages (the_pool u m) - X)"
  shows "allocated (set_pool u p m) = (if v then allocated m \<union> X else allocated m - X)"
  using assms(2,3) pools_disjoint [OF assms(1)] used_pages_subset [of "kernel_pool m"] used_pages_subset [of "user_pool m"]
  by (cases u; cases v) (auto simp: allocated_def the_pool_def set_pool_def)

lemma allocated_ram [simp]: "allocated (m\<lparr>ram := r\<rparr>) = allocated m" "palloc_inv (m\<lparr>ram := r\<rparr>) = palloc_inv m"
  "the_pool u (m\<lparr>ram := r\<rparr>) = the_pool u m" "set_pool u p (m\<lparr>ram := r\<rparr>) = (set_pool u p m)\<lparr>ram := r\<rparr>"
  by (simp_all add: allocated_def palloc_inv_def the_pool_def set_pool_def)


text \<open>
  A group of pages comes from one pool: it is free before, in use after, and nothing else
  changes.
\<close>

lemma palloc_get_ok:
  assumes inv: "palloc_inv m" and cnt: "cnt \<noteq> 0" and f: "flags AND PAL_ASSERT = 0" and u: "u = (flags AND PAL_USER \<noteq> 0)"
  obtains (none) "palloc_get_multiple flags cnt m = Some (0, m)"
    "\<And>i. i + cnt \<le> bit_cnt (used_map (the_pool u m)) \<Longrightarrow> page_run (pool_page (the_pool u m) i) cnt \<inter> allocated m \<noteq> {}"
  | (some) p i m' where "palloc_get_multiple flags cnt m = Some (p, m')" "p \<noteq> 0" "page_aligned p" "is_kernel_vaddr p"
    "palloc_inv m'" "page_run p cnt \<subseteq> pool_pages (the_pool u m)" "page_run p cnt \<inter> allocated m = {}"
    "allocated m' = allocated m \<union> page_run p cnt" "\<And>w. pool_pages (the_pool w m') = pool_pages (the_pool w m)"
    "ram m' = (if flags AND PAL_ZERO \<noteq> 0 then mem_put (ram m) p (replicate (PGSIZE * cnt) 0) else ram m)"
    "init_ram_pages m' = init_ram_pages m" "init_page_dir m' = init_page_dir m" "cr3 m' = cr3 m"
    "fits p (PGSIZE * cnt)" "p = pool_page (the_pool u m') i" "i + cnt \<le> bit_cnt (used_map (the_pool u m'))"
proof -
  let ?P = "the_pool u m"
  have wf: "pool_wf ?P" "bitmap_wf (used_map ?P)" using the_pool_wf [OF inv] by (auto simp: pool_wf_def)
  have in_alloc: "pool_page ?P i \<in> allocated m \<longleftrightarrow> bitmap_abs (used_map ?P) ! i" if "i < bit_cnt (used_map ?P)" for i
    using pool_page_used [OF wf(1) that] allocated_pool [OF inv, of u] pool_page_in [OF that] by blast
  show thesis
  proof (cases "first_fit (bitmap_abs (used_map ?P)) 0 cnt False")
    case None
    have sc: "bitmap_scan_and_flip (used_map ?P) 0 cnt False = Some (BITMAP_ERROR, used_map ?P)"
      using bm.scan_flip_None [OF wf(2) _ None] by simp
    have "set_pool u (?P\<lparr>used_map := used_map ?P\<rparr>) m = m" by (simp add: set_pool_def the_pool_def)
    then have "palloc_get_multiple flags cnt m = Some (0, m)"
      using sc cnt f by (simp add: palloc_get_multiple_def u Let_def)
    moreover have "page_run (pool_page ?P i) cnt \<inter> allocated m \<noteq> {}" if i: "i + cnt \<le> bit_cnt (used_map ?P)" for i
    proof -
      have "\<not> range_is i cnt False (bitmap_abs (used_map ?P))" using None i by (simp add: first_fit_None)
      then obtain k where k: "k < cnt" "bitmap_abs (used_map ?P) ! (i + k)" by (auto simp: range_is_def)
      then have "pool_page ?P (i + k) \<in> allocated m" using in_alloc i by simp
      moreover have "pool_page ?P (i + k) \<in> page_run (pool_page ?P i) cnt" using k by (simp add: page_run_pool)
      ultimately show ?thesis by blast
    qed
    ultimately show thesis by (rule none)
  next
    case (Some i)
    obtain b' where sc: "bitmap_scan_and_flip (used_map ?P) 0 cnt False = Some (i, b')" and b': "bitmap_wf b'"
      "bitmap_abs b' = set_range i cnt True (bitmap_abs (used_map ?P))"
      using bm.scan_flip_Some [OF wf(2) _ Some] by auto
    have le: "i + cnt \<le> bit_cnt (used_map ?P)" using first_fit_bound [OF Some] by simp
    have "i \<noteq> BITMAP_ERROR" using bm.err_beyond [OF wf(2)] le by auto
    note s = bm.scan_flip_success [OF wf(2) _ sc this]
    have i: "i < bit_cnt (used_map ?P)" using le cnt by simp
    note pf = pool_page_facts [OF wf(1) i]
    let ?p = "pool_page ?P i" and ?Q = "?P\<lparr>used_map := b'\<rparr>"
    note ur = used_pages_set_range [OF wf(1) le b']
    have run: "page_run ?p cnt \<subseteq> pool_pages ?P" using le by (auto simp: page_run_pool)
    have free: "page_run ?p cnt \<inter> allocated m = {}"
    proof -
      have "pool_page ?P k \<notin> allocated m" if "k \<in> {i..<i + cnt}" for k
      proof -
        obtain d where d: "k = i + d" "d < cnt" using \<open>k \<in> {i..<i + cnt}\<close> by (metis atLeastLessThan_iff le_Suc_ex nat_add_left_cancel_less)
        then show ?thesis using in_alloc [of k] s(3) le by (simp add: range_is_def)
      qed
      then show ?thesis by (auto simp: page_run_pool)
    qed
    let ?m = "set_pool u ?Q m"
    have inv': "palloc_inv ?m" using palloc_inv_set [OF inv ur(2)] ur(4) by simp
    have al: "allocated ?m = allocated m \<union> page_run ?p cnt"
      using allocated_set [OF inv run, of ?Q True] ur(1) by simp
    have fit: "fits ?p (PGSIZE * cnt)"
      using le wf(1) by (simp add: fits_def unat_pool_page [OF wf(1) i] pool_wf_def pool_end_def)
    have pp: "pool_pages (the_pool w ?m) = pool_pages (the_pool w m)" for w using ur(3) by simp
    have same: "pool_page ?Q i = ?p" "i + cnt \<le> bit_cnt b'"
      using arg_cong [OF b'(2), of length] le by (simp_all add: pool_page_def)
    let ?m' = "if flags AND PAL_ZERO \<noteq> 0 then ?m\<lparr>ram := mem_put (ram ?m) ?p (replicate (PGSIZE * cnt) 0)\<rparr> else ?m"
    have "palloc_get_multiple flags cnt m = Some (?p, ?m')"
      using sc cnt pf(3) \<open>i \<noteq> BITMAP_ERROR\<close>
      by (simp add: palloc_get_multiple_def Let_def pool_page_def flip: u)
    from some [OF this, where i = i] show thesis using pf inv' run free al pp fit same by simp
  qed
qed

text \<open>Pages in use of one pool can be given back.\<close>

lemma unat_pg_no_pool:
  "pool_wf p \<Longrightarrow> i < bit_cnt (used_map p) \<Longrightarrow> unat (pg_no (pool_page p i)) = unat (pg_no (base p)) + i"
  by (simp add: unat_pg_no unat_pool_page)

lemma pg_no_end: "pool_wf p \<Longrightarrow> unat (pg_no (base p)) + bit_cnt (used_map p) < 2 ^ 32"
proof -
  assume "pool_wf p"
  then have "unat (base p) div PGSIZE + bit_cnt (used_map p) \<le> 2 ^ 32 div PGSIZE"
    using div_le_mono [of "unat (base p) + PGSIZE * bit_cnt (used_map p)" "2 ^ 32" PGSIZE]
    by (simp add: pool_wf_def pool_end_def)
  then show ?thesis by (simp add: unat_pg_no)
qed

lemma page_from_pool_iff:
  assumes "pool_wf p" "page_aligned a"
  shows "page_from_pool p a \<longleftrightarrow> a \<in> pool_pages p"
proof
  assume "page_from_pool p a"
  then have b: "unat (pg_no (base p)) \<le> unat (pg_no a)" "unat (pg_no a) < unat (pg_no (base p)) + bit_cnt (used_map p)"
    using pg_no_end [OF assms(1)] by (simp_all add: page_from_pool_def Let_def bitmap_size_def)
  define i where "i = unat (pg_no a) - unat (pg_no (base p))"
  then have i: "i < bit_cnt (used_map p)" "unat a div PGSIZE = unat (base p) div PGSIZE + i"
    using b by (simp_all add: unat_pg_no less_diff_conv2)
  have "unat a = unat (base p) + PGSIZE * i"
  proof -
    obtain j k where "unat a = PGSIZE * j" "unat (base p) = PGSIZE * k"
      using page_number assms by (metis pool_wf_def)
    then show ?thesis using i(2) by simp
  qed
  then have "a = pool_page p i" using unat_pool_page [OF assms(1) i(1)] by (simp add: word_unat_eq_iff)
  then show "a \<in> pool_pages p" using i by auto
next
  assume "a \<in> pool_pages p"
  then show "page_from_pool p a" using assms(1) pg_no_end [OF assms(1)]
    by (auto simp: pool_pages_def page_from_pool_def Let_def bitmap_size_def unat_pg_no_pool)
qed

lemma palloc_free_ok:
  assumes inv: "palloc_inv m" and cnt: "cnt \<noteq> 0"
    and run: "i + cnt \<le> bit_cnt (used_map (the_pool u m))" "p = pool_page (the_pool u m) i" "page_run p cnt \<subseteq> allocated m"
  shows "\<exists>m'. palloc_free_multiple p cnt m = Some m' \<and> palloc_inv m' \<and> allocated m' = allocated m - page_run p cnt \<and>
    (\<forall>w. pool_pages (the_pool w m') = pool_pages (the_pool w m)) \<and>
    ram m' = mem_put (ram m) p (replicate (PGSIZE * cnt) 0xcc) \<and>
    init_ram_pages m' = init_ram_pages m \<and> init_page_dir m' = init_page_dir m \<and> cr3 m' = cr3 m"
proof -
  let ?P = "the_pool u m"
  have wf: "pool_wf ?P" "bitmap_wf (used_map ?P)" using the_pool_wf [OF inv] by (auto simp: pool_wf_def)
  have i: "i < bit_cnt (used_map ?P)" using run cnt by simp
  note pf = pool_page_facts [OF wf(1) i]
  have inP: "p \<in> pool_pages ?P" using i run by auto
  have user: "(if page_from_pool (kernel_pool m) p then Some False else if page_from_pool (user_pool m) p then Some True
      else None) = Some u"
    using inP pools_disjoint [OF inv] pf(1) run(2) inv
    by (cases u) (auto simp: page_from_pool_iff palloc_inv_def the_pool_def)
  have idx: "unat (pg_no p - pg_no (base ?P)) = i"
    using unat_pg_no_pool [OF wf(1) i] by (simp add: run(2) unat_sub word_le_nat_alt)
  have all: "bitmap_all (used_map ?P) i cnt = Some True"
  proof -
    have "bitmap_abs (used_map ?P) ! (i + k)" if "k < cnt" for k
    proof -
      have "pool_page ?P (i + k) \<in> page_run p cnt" using that by (simp add: run(2) page_run_pool)
      then have "pool_page ?P (i + k) \<in> used_pages ?P"
        using run that allocated_pool [OF inv, of u] pool_page_in [of "i + k" ?P] by auto
      then show ?thesis using pool_page_used [OF wf(1)] run(1) that by simp
    qed
    then show ?thesis using bitmap_contains_ok [OF wf(2), of i cnt False] run(1) by (auto simp: bitmap_all_def range_is_def)
  qed
  obtain b' where b': "bitmap_set_multiple (used_map ?P) i cnt False = Some b'" "bitmap_wf b'"
    "bitmap_abs b' = set_range i cnt False (bitmap_abs (used_map ?P))"
    using bm.set_bits_ok [OF wf(2), of i cnt False] run(1) by auto
  note ur = used_pages_set_range [OF wf(1) run(1) b'(2,3)]
  have sub: "page_run p cnt \<subseteq> pool_pages ?P" using run by (auto simp: page_run_pool)
  let ?m = "(set_pool u (?P\<lparr>used_map := b'\<rparr>) m)\<lparr>ram := mem_put (ram m) p (replicate (PGSIZE * cnt) 0xcc)\<rparr>"
  have "palloc_free_multiple p cnt m = Some ?m"
    unfolding palloc_free_multiple_def Let_def user using idx all b'(1) pf cnt by (simp add: run(2))
  moreover have "palloc_inv ?m" using palloc_inv_set [OF inv ur(2)] ur(4) by simp
  moreover have "allocated ?m = allocated m - page_run p cnt"
    using allocated_set [OF inv sub, of _ False] ur(1) run(2) by simp
  ultimately show ?thesis using ur(3) by simp
qed

lemma init_pool_ok:
  assumes n: "0 < n" "n < 2 ^ 20" and b: "page_aligned b" "is_kernel_vaddr b" "unat b + PGSIZE * n < 2 ^ 32"
  shows "\<exists>p. init_pool m b n = Some p \<and> pool_wf p \<and> unat b \<le> unat (base p) \<and> pool_end p = unat b + PGSIZE * n \<and> used_pages p = {} \<and>
    bit_cnt (used_map p) = n - DIV_ROUND_UP (bitmap_buf_size n) PGSIZE"
proof -
  define k where "k = DIV_ROUND_UP (bitmap_buf_size n) PGSIZE"
  have buf: "bitmap_buf_size j = 8 + 4 * ((j + 31) div 32)" if "j < 2 ^ 20" for j
    using that div_le_mono [of "j + 31" "2 ^ 21" 32] by (simp add: bitmap_buf_size_def byte_cnt_def elem_cnt_def)
  have kn: "k \<le> n" unfolding k_def using buf [OF n(2)] n by (subst DIV_ROUND_UP_le_iff) auto
  define c where "c = n - k"
  have c: "c < 2 ^ 20" "c \<le> n" using n by (simp_all add: c_def)
  have "bitmap_buf_size c \<le> bitmap_buf_size n"
    using buf [OF c(1)] buf [OF n(2)] div_le_mono [of "c + 31" "n + 31" 32] c(2) by simp
  also have "\<dots> \<le> k * PGSIZE" unfolding k_def by (rule DIV_ROUND_UP_cover) simp
  finally have size: "bitmap_buf_size c \<le> k * PGSIZE" .
  let ?raw = "map (\<lambda>i. load32 m (b + 8 + 4 * of_nat i)) [0..<elem_cnt c]"
  obtain bm where bm: "bitmap_set_all \<lparr>bit_cnt = c, bits = ?raw\<rparr> False = Some bm" "bitmap_wf bm"
    "bitmap_abs bm = replicate c False"
    using bitmap_set_all_ok [of "\<lparr>bit_cnt = c, bits = ?raw\<rparr>" False] c by (auto simp: bitmap_wf_def)
  have cnt: "bit_cnt bm = c" using arg_cong [OF bm(3), of length] by simp
  let ?p = "\<lparr>used_map = bm, base = b + of_nat (k * PGSIZE)\<rparr>"
  have i: "init_pool m b n = Some ?p"
    using kn size bm(1) by (simp add: init_pool_def Let_def bitmap_create_in_buf_def flip: k_def c_def)
  have u: "unat (b + of_nat (k * PGSIZE)) = unat b + k * PGSIZE"
    using b(3) kn n(1) by (simp add: unat_offset [where n = "PGSIZE * n + 1"] fits_def del: of_nat_mult)
  have e: "unat b + k * PGSIZE + PGSIZE * c = unat b + PGSIZE * n" using kn by (simp add: c_def algebra_simps)
  have "page_aligned (base ?p)" using b(1) u by (simp add: page_aligned_iff)
  moreover have "is_kernel_vaddr (base ?p)" using b(2) u by (simp add: is_kernel_vaddr_def word_le_nat_alt)
  ultimately show ?thesis using i bm(2,3) u e b(3) cnt
    by (auto simp: pool_wf_def pool_end_def used_pages_def c_def k_def)
qed


lemma palloc_init_ok:
  assumes "258 \<le> init_ram_pages m" "init_ram_pages m < 2 ^ 18" "0 < limit"
  shows "\<exists>m'. palloc_init limit m = Some m' \<and> palloc_inv m' \<and> allocated m' = {} \<and> ram m' = ram m \<and>
    init_ram_pages m' = init_ram_pages m \<and> init_page_dir m' = init_page_dir m \<and> cr3 m' = cr3 m \<and>
    (let up = min limit ((init_ram_pages m - 256) div 2); kp = init_ram_pages m - 256 - up
     in bit_cnt (used_map (kernel_pool m')) = kp - DIV_ROUND_UP (bitmap_buf_size kp) PGSIZE \<and>
        bit_cnt (used_map (user_pool m')) = up - DIV_ROUND_UP (bitmap_buf_size up) PGSIZE)"
proof -
  define n where "n = init_ram_pages m"
  have n: "258 \<le> n" "n < 2 ^ 18" using assms by (simp_all add: n_def)
  let ?s = "0x100000 + PHYS_BASE" and ?e = "of_nat (n * PGSIZE) + PHYS_BASE"
  have ue: "unat (of_nat (n * PGSIZE) :: 32 word) = n * PGSIZE"
    using n by (simp add: unat_of_nat del: of_nat_mult)
  have us: "unat ?s = 0xc0100000" by (simp add: PHYS_BASE_def)
  have diff: "?e - ?s = of_nat (n * PGSIZE) - 0x100000" by simp
  have ud: "unat (of_nat (n * PGSIZE) - 0x100000 :: 32 word) = (n - 256) * PGSIZE"
    using n ue by (subst unat_sub) (auto simp: word_le_nat_alt)
  have "sint (?e - ?s) = int ((n - 256) * PGSIZE)"
  proof -
    have "uint (?e - ?s) = int ((n - 256) * PGSIZE)" unfolding diff ud [symmetric] by simp
    moreover have "int ((n - 256) * PGSIZE) < 2 ^ 31" using n by simp
    ultimately show ?thesis by (simp add: sint_uint signed_take_bit_int_eq_self)
  qed
  then have fp: "unat (word_of_int (sint (?e - ?s) sdiv 4096) :: 32 word) = n - 256"
  proof -
    define d where "d = n - 256"
    assume a: "sint (?e - ?s) = int ((n - 256) * PGSIZE)"
    have "int (d * PGSIZE) sdiv 4096 = int d" by (simp add: signed_divide_int_def sgn_if)
    then have "(word_of_int (sint (?e - ?s) sdiv 4096) :: 32 word) = of_nat d"
      unfolding a d_def [symmetric] by simp
    moreover have "unat (of_nat d :: 32 word) = d" using n by (simp add: unat_of_nat d_def del: of_nat_diff)
    ultimately show ?thesis by (simp only: d_def)
  qed
  define up where "up = (if (n - 256) div 2 > limit then limit else (n - 256) div 2)"
  define kp where "kp = n - 256 - up"
  have up: "0 < up" "up \<le> (n - 256) div 2" using n assms(3) by (auto simp: up_def)
  have kp: "0 < kp" "kp + up = n - 256" using up n by (auto simp: kp_def)
  have sum: "kp < 261888" "up < 261888" "kp + up < 261888" using kp n up(1) by simp_all
  have al: "page_aligned ?s" by (simp add: page_aligned_iff us)
  obtain k where k: "init_pool (ram m) ?s kp = Some k" "pool_wf k" "pool_end k = unat ?s + PGSIZE * kp" "used_pages k = {}"
    "bit_cnt (used_map k) = kp - DIV_ROUND_UP (bitmap_buf_size kp) PGSIZE"
    using init_pool_ok [of kp ?s "ram m"] kp sum al us by (auto simp: is_kernel_vaddr_def PHYS_BASE_def)
  let ?u = "?s + of_nat (kp * PGSIZE)"
  have uu: "unat ?u = unat ?s + kp * PGSIZE"
    using sum us by (intro unat_offset [where n = "kp * PGSIZE + 1"]) (auto simp: fits_def)
  obtain u where u: "init_pool (ram m) ?u up = Some u" "pool_wf u" "unat ?u \<le> unat (base u)"
    "pool_end u = unat ?u + PGSIZE * up" "used_pages u = {}"
    "bit_cnt (used_map u) = up - DIV_ROUND_UP (bitmap_buf_size up) PGSIZE"
  proof -
    have "page_aligned ?u" unfolding page_aligned_iff uu us by presburger
    moreover have "is_kernel_vaddr ?u" unfolding is_kernel_vaddr_def word_le_nat_alt uu us by (simp add: PHYS_BASE_def)
    moreover have "unat ?u + PGSIZE * up < 2 ^ 32" unfolding uu us using sum by simp
    moreover have "up < 2 ^ 20" using sum by simp
    ultimately show ?thesis using init_pool_ok [of up ?u "ram m"] up that by auto
  qed
  have e: "(of_nat (n * PGSIZE) :: 32 word) < PHYS_BASE" using n ue by (simp add: word_less_nat_alt PHYS_BASE_def del: of_nat_mult)
  have pe: "ptov (of_nat (init_ram_pages m * PGSIZE)) = Some ?e" and ps: "ptov (1024 * 1024) = Some ?s"
    using e by (simp_all add: ptov_def PHYS_BASE_def flip: n_def)
  have "palloc_init limit m = Some (m\<lparr>kernel_pool := k, user_pool := u\<rparr>)"
    unfolding palloc_init_def pe ps bind.bind_lunit Let_def fp kp_def [symmetric] up_def [symmetric] k(1) u(1) ..
  moreover have "pool_end k \<le> unat (base u)" using k(3) u(3) unfolding uu by simp
  moreover have "pool_end u \<le> unat PHYS_BASE + PGSIZE * init_ram_pages m"
    using u(4) kp(2) n unfolding uu us n_def [symmetric] by (simp add: PHYS_BASE_def)
  moreover have "min limit ((init_ram_pages m - 256) div 2) = up" by (simp add: up_def n_def)
  ultimately show ?thesis using k u by (auto simp: palloc_inv_def allocated_def Let_def kp_def n_def)
qed


section \<open>Single pages\<close>

lemma page_run_1 [simp]: "page_run p (Suc 0) = {p}"
  by (simp add: page_run_def lessThan_Suc)

lemma allocated_facts:
  assumes "palloc_inv m" "p \<in> allocated m"
  shows "page_aligned p" "is_kernel_vaddr p" "p \<noteq> 0"
  using assms pool_page_facts [OF the_pool_wf [OF assms(1)]]
  by (auto simp: allocated_pools used_pages_def)

text \<open>Every page of a pool is a page of RAM.\<close>

lemma pool_page_in_ram:
  assumes "palloc_inv m" "p \<in> pool_pages (the_pool u m)"
  shows "unat (drop_bit 12 (p - PHYS_BASE)) < init_ram_pages m" "page_aligned p" "is_kernel_vaddr p"
proof -
  have wf: "pool_wf (the_pool u m)" using assms(1) by (rule the_pool_wf)
  obtain i where i: "i < bit_cnt (used_map (the_pool u m))" "p = pool_page (the_pool u m) i"
    using assms(2) by (auto simp: pool_pages_def)
  show a: "page_aligned p" and k: "is_kernel_vaddr p" using pool_page_facts [OF wf i(1)] i(2) by auto
  have "pool_end (the_pool u m) \<le> unat PHYS_BASE + PGSIZE * init_ram_pages m"
    using assms(1) by (auto simp: palloc_inv_def the_pool_def pool_end_def)
  then have "unat p + PGSIZE \<le> unat PHYS_BASE + PGSIZE * init_ram_pages m"
    using unat_pool_page [OF wf i(1)] i by (simp add: pool_end_def)
  then have "unat (p - PHYS_BASE) < PGSIZE * init_ram_pages m"
    using k by (simp add: is_kernel_vaddr_def unat_sub word_le_nat_alt)
  then have "unat (p - PHYS_BASE) div PGSIZE < init_ram_pages m" by (simp add: less_mult_imp_div_less mult.commute)
  then show "unat (drop_bit 12 (p - PHYS_BASE)) < init_ram_pages m"
    using unat_pg_no [of "p - PHYS_BASE"] by (simp add: pg_no_def)
qed

lemma palloc_get_page_ok:
  assumes "palloc_inv m" "flags AND PAL_ASSERT = 0" "u = (flags AND PAL_USER \<noteq> 0)"
  obtains (none) "palloc_get_page flags m = Some (0, m)" "pool_pages (the_pool u m) \<subseteq> allocated m"
  | (some) p m' where "palloc_get_page flags m = Some (p, m')" "p \<noteq> 0" "palloc_inv m'"
    "p \<in> pool_pages (the_pool u m)" "p \<notin> allocated m" "allocated m' = insert p (allocated m)"
    "\<And>w. pool_pages (the_pool w m') = pool_pages (the_pool w m)"
    "ram m' = (if flags AND PAL_ZERO \<noteq> 0 then mem_put (ram m) p (replicate PGSIZE 0) else ram m)"
    "init_ram_pages m' = init_ram_pages m" "init_page_dir m' = init_page_dir m" "cr3 m' = cr3 m"
proof (rule palloc_get_ok [OF assms(1) one_neq_zero assms(2,3)])
  assume n: "palloc_get_multiple flags 1 m = Some (0, m)"
    "\<And>i. i + 1 \<le> bit_cnt (used_map (the_pool u m)) \<Longrightarrow> page_run (pool_page (the_pool u m) i) 1 \<inter> allocated m \<noteq> {}"
  have "pool_pages (the_pool u m) \<subseteq> allocated m" using n(2) by (auto simp: pool_pages_def)
  then show thesis using n(1) none by (simp add: palloc_get_page_def)
next
  fix p i m'
  assume s: "palloc_get_multiple flags 1 m = Some (p, m')" "p \<noteq> 0" "palloc_inv m'"
    "page_run p 1 \<subseteq> pool_pages (the_pool u m)" "page_run p 1 \<inter> allocated m = {}"
    "allocated m' = allocated m \<union> page_run p 1"
    and w: "\<And>w. pool_pages (the_pool w m') = pool_pages (the_pool w m)"
    and r: "ram m' = (if flags AND PAL_ZERO \<noteq> 0 then mem_put (ram m) p (replicate (PGSIZE * 1) 0) else ram m)"
    "init_ram_pages m' = init_ram_pages m" "init_page_dir m' = init_page_dir m" "cr3 m' = cr3 m"
  have "p \<in> pool_pages (the_pool u m)" "p \<notin> allocated m" "allocated m' = insert p (allocated m)"
    using s(4-6) by auto
  then show thesis using some [of p m'] s(1-3) w r by (simp add: palloc_get_page_def)
qed

lemma palloc_free_page_ok:
  assumes "palloc_inv m" "p \<in> allocated m"
  shows "\<exists>m'. palloc_free_page p m = Some m' \<and> palloc_inv m' \<and> allocated m' = allocated m - {p} \<and>
    (\<forall>w. pool_pages (the_pool w m') = pool_pages (the_pool w m)) \<and>
    ram m' = mem_put (ram m) p (replicate PGSIZE 0xcc) \<and>
    init_ram_pages m' = init_ram_pages m \<and> init_page_dir m' = init_page_dir m \<and> cr3 m' = cr3 m"
proof -
  obtain u i where "i < bit_cnt (used_map (the_pool u m))" "p = pool_page (the_pool u m) i"
    using assms(2) by (auto simp: allocated_pools used_pages_def)
  then show ?thesis
    using palloc_free_ok [OF assms(1) one_neq_zero, of i u p] assms(2) by (simp add: palloc_free_page_def)
qed

section \<open>Properties\<close>

text \<open>
  C26: page allocation. A call that does not ask for a panic returns in every state of the
  pools. It returns null and changes nothing exactly when the pool has no group of free pages
  of that size; otherwise the pages it returns belong to the pool, nobody else holds one of
  them, they are in use afterwards and zero if that was asked for, and giving them back
  restores the set of pages in use.
\<close>

theorem palloc_exclusive:
  assumes "palloc_inv m" "cnt \<noteq> 0" "flags AND PAL_ASSERT = 0" "pool = the_pool (flags AND PAL_USER \<noteq> 0) m"
  shows "\<exists>p m'. palloc_get_multiple flags cnt m = Some (p, m') \<and> palloc_inv m' \<and>
    (if p = 0
     then m' = m \<and> (\<forall>i. i + cnt \<le> bit_cnt (used_map pool) \<longrightarrow> page_run (pool_page pool i) cnt \<inter> allocated m \<noteq> {})
     else page_run p cnt \<subseteq> pool_pages pool \<and> page_run p cnt \<inter> allocated m = {} \<and>
       allocated m' = allocated m \<union> page_run p cnt \<and>
       (flags AND PAL_ZERO \<noteq> 0 \<longrightarrow> mem_get (ram m') p (PGSIZE * cnt) = replicate (PGSIZE * cnt) 0) \<and>
       (\<exists>m''. palloc_free_multiple p cnt m' = Some m'' \<and> palloc_inv m'' \<and> allocated m'' = allocated m))"
proof (rule palloc_get_ok [OF assms(1-3) refl])
  assume "palloc_get_multiple flags cnt m = Some (0, m)"
    "\<And>i. i + cnt \<le> bit_cnt (used_map (the_pool (flags AND PAL_USER \<noteq> 0) m)) \<Longrightarrow>
      page_run (pool_page (the_pool (flags AND PAL_USER \<noteq> 0) m) i) cnt \<inter> allocated m \<noteq> {}"
  then show ?thesis using assms by auto
next
  fix p i m'
  assume a: "palloc_get_multiple flags cnt m = Some (p, m')" "p \<noteq> 0" "palloc_inv m'"
    "page_run p cnt \<subseteq> pool_pages (the_pool (flags AND PAL_USER \<noteq> 0) m)" "page_run p cnt \<inter> allocated m = {}"
    "allocated m' = allocated m \<union> page_run p cnt"
    "ram m' = (if flags AND PAL_ZERO \<noteq> 0 then mem_put (ram m) p (replicate (PGSIZE * cnt) 0) else ram m)"
    "fits p (PGSIZE * cnt)" "p = pool_page (the_pool (flags AND PAL_USER \<noteq> 0) m') i"
    "i + cnt \<le> bit_cnt (used_map (the_pool (flags AND PAL_USER \<noteq> 0) m'))"
  have "\<exists>m''. palloc_free_multiple p cnt m' = Some m'' \<and> palloc_inv m'' \<and> allocated m'' = allocated m"
    using palloc_free_ok [OF a(3) assms(2) a(10,9)] a(5,6) by auto
  moreover have "mem_get (ram m') p (PGSIZE * cnt) = replicate (PGSIZE * cnt) 0" if "flags AND PAL_ZERO \<noteq> 0"
    using mem_get_put_same [of p "replicate (PGSIZE * cnt) 0" "ram m"] that a(7,8) by simp
  ultimately show ?thesis using a assms(4) by (intro exI [of _ p] exI [of _ m']) auto
qed

text \<open>A machine with 512 pages of RAM.\<close>

definition demo_pool :: pool where
  "demo_pool = \<lparr>used_map = \<lparr>bit_cnt = 0, bits = []\<rparr>, base = 0\<rparr>"

definition demo_machine :: machine where
  "demo_machine = \<lparr>kernel_pool = demo_pool, user_pool = demo_pool, ram = (\<lambda>_. 0), init_ram_pages = 512,
     init_page_dir = 0xc010f000, cr3 = 0x10f000\<rparr>"

lemma palloc_exclusive_witness:
  "\<exists>m p m'. palloc_init 100 demo_machine = Some m \<and> palloc_get_multiple (PAL_USER OR PAL_ZERO) 3 m = Some (p, m') \<and>
    palloc_inv m'"
proof -
  obtain m where m: "palloc_init 100 demo_machine = Some m" "palloc_inv m"
    using palloc_init_ok [of demo_machine 100] by (auto simp: demo_machine_def)
  have "(PAL_USER OR PAL_ZERO) AND PAL_ASSERT = 0" by (simp add: PAL_USER_def PAL_ZERO_def PAL_ASSERT_def)
  from palloc_exclusive [OF m(2) _ this refl, of 3] m(1) show ?thesis by auto
qed

end
