(* ===== verification/Page_Directory.thy ===== *)
theory Page_Directory
  imports Palloc
begin

text \<open>
  Page directories (\<^verbatim>\<open>userprog/pagedir.c\<close>): two-level page tables that live in pages of the
  kernel pool. The operations read and write the entries in memory. \<open>pte_of\<close> is the entry a
  directory has for an address, zero if it has none; the lemmas show that the operations
  implement a map from user pages to entries, that directories do not share tables, and that
  destroying a directory gives back every page it holds.
\<close>

section \<open>Operations\<close>

definition pagedir_create :: "machine \<Rightarrow> (va \<times> machine) option" where
  "pagedir_create m = do {
     (pd, m) \<leftarrow> palloc_get_page 0 m;
     if pd \<noteq> 0
     then Some (pd, m\<lparr>ram := mem_put (ram m) pd (mem_get (ram m) (init_page_dir m) PGSIZE)\<rparr>)
     else Some (pd, m) }"

definition destroy_table :: "va \<Rightarrow> machine \<Rightarrow> machine option" where
  "destroy_table pt m = foldM (\<lambda>m j.
     let pte = load32 (ram m) (entry pt (of_nat j)) in
     if pte AND PTE_P \<noteq> 0 then do { page \<leftarrow> pte_get_page pte; palloc_free_page page m } else Some m) m [0..<1024]"

definition destroy_entry :: "va \<Rightarrow> machine \<Rightarrow> nat \<Rightarrow> machine option" where
  "destroy_entry pd m i = (let pde = load32 (ram m) (entry pd (of_nat i)) in
     if pde AND PTE_P \<noteq> 0
     then do { pt \<leftarrow> pde_get_pt pde; m \<leftarrow> destroy_table pt m; palloc_free_page pt m }
     else Some m)"

definition pagedir_destroy :: "va \<Rightarrow> machine \<Rightarrow> machine option" where
  "pagedir_destroy pd m =
     (if pd = 0 then Some m
      else do {
        ASSERT (pd \<noteq> init_page_dir m);
        m \<leftarrow> foldM (destroy_entry pd) m [0..<unat (pd_no PHYS_BASE)];
        palloc_free_page pd m })"

text \<open>The result is the address of the entry, zero for a null pointer.\<close>

definition lookup_page :: "va \<Rightarrow> va \<Rightarrow> bool \<Rightarrow> machine \<Rightarrow> (va \<times> machine) option" where
  "lookup_page pd vaddr create m = do {
     ASSERT (pd \<noteq> 0);
     ASSERT (\<not> create \<or> is_user_vaddr vaddr);
     let pde = entry pd (pd_no vaddr);
     if load32 (ram m) pde = 0 then
       if create then do {
         (pt, m) \<leftarrow> palloc_get_page PAL_ZERO m;
         if pt = 0 then Some (0, m)
         else do {
           e \<leftarrow> pde_create pt;
           let m = m\<lparr>ram := store32 (ram m) pde e\<rparr>;
           pt \<leftarrow> pde_get_pt (load32 (ram m) pde);
           Some (entry pt (pt_no vaddr), m) } }
       else Some (0, m)
     else do {
       pt \<leftarrow> pde_get_pt (load32 (ram m) pde);
       Some (entry pt (pt_no vaddr), m) } }"

definition pagedir_set_page :: "va \<Rightarrow> va \<Rightarrow> va \<Rightarrow> bool \<Rightarrow> machine \<Rightarrow> (bool \<times> machine) option" where
  "pagedir_set_page pd upage kpage writable m = do {
     ASSERT (pg_ofs upage = 0);
     ASSERT (pg_ofs kpage = 0);
     ASSERT (is_user_vaddr upage);
     p \<leftarrow> vtop kpage;
     ASSERT (unat (drop_bit 12 p) < init_ram_pages m);
     ASSERT (pd \<noteq> init_page_dir m);
     (pte, m) \<leftarrow> lookup_page pd upage True m;
     if pte \<noteq> 0 then do {
       ASSERT (load32 (ram m) pte AND PTE_P = 0);
       e \<leftarrow> pte_create_user kpage writable;
       Some (True, m\<lparr>ram := store32 (ram m) pte e\<rparr>) }
     else Some (False, m) }"

definition pagedir_get_page :: "va \<Rightarrow> va \<Rightarrow> machine \<Rightarrow> va option" where
  "pagedir_get_page pd uaddr m = do {
     ASSERT (is_user_vaddr uaddr);
     (pte, m) \<leftarrow> lookup_page pd uaddr False m;
     if pte \<noteq> 0 \<and> load32 (ram m) pte AND PTE_P \<noteq> 0
     then do { p \<leftarrow> pte_get_page (load32 (ram m) pte); Some (p + pg_ofs uaddr) }
     else Some 0 }"

text \<open>
  The base register holds a physical address. Loading it also empties the translation buffer
  of the processor, which is not part of the model: translations are always read from the
  tables.
\<close>

definition pagedir_activate :: "va \<Rightarrow> machine \<Rightarrow> machine option" where
  "pagedir_activate pd m = (let pd = (if pd = 0 then init_page_dir m else pd) in
     do { p \<leftarrow> vtop pd; Some (m\<lparr>cr3 := p\<rparr>) })"

definition active_pd :: "machine \<Rightarrow> va option" where
  "active_pd m = ptov (cr3 m)"

definition invalidate_pagedir :: "va \<Rightarrow> machine \<Rightarrow> machine option" where
  "invalidate_pagedir pd m = do {
     a \<leftarrow> active_pd m;
     if a = pd then pagedir_activate pd m else Some m }"

definition pagedir_clear_page :: "va \<Rightarrow> va \<Rightarrow> machine \<Rightarrow> machine option" where
  "pagedir_clear_page pd upage m = do {
     ASSERT (pg_ofs upage = 0);
     ASSERT (is_user_vaddr upage);
     (pte, m) \<leftarrow> lookup_page pd upage False m;
     if pte \<noteq> 0 \<and> load32 (ram m) pte AND PTE_P \<noteq> 0
     then invalidate_pagedir pd (m\<lparr>ram := store32 (ram m) pte (load32 (ram m) pte AND NOT PTE_P)\<rparr>)
     else Some m }"

definition pagedir_is_dirty :: "va \<Rightarrow> va \<Rightarrow> machine \<Rightarrow> bool option" where
  "pagedir_is_dirty pd vpage m = do {
     (pte, m) \<leftarrow> lookup_page pd vpage False m;
     Some (pte \<noteq> 0 \<and> load32 (ram m) pte AND PTE_D \<noteq> 0) }"

definition pagedir_set_dirty :: "va \<Rightarrow> va \<Rightarrow> bool \<Rightarrow> machine \<Rightarrow> machine option" where
  "pagedir_set_dirty pd vpage dirty m = do {
     (pte, m) \<leftarrow> lookup_page pd vpage False m;
     if pte \<noteq> 0 then
       if dirty then Some (m\<lparr>ram := store32 (ram m) pte (load32 (ram m) pte OR PTE_D)\<rparr>)
       else invalidate_pagedir pd (m\<lparr>ram := store32 (ram m) pte (load32 (ram m) pte AND NOT PTE_D)\<rparr>)
     else Some m }"

definition pagedir_is_accessed :: "va \<Rightarrow> va \<Rightarrow> machine \<Rightarrow> bool option" where
  "pagedir_is_accessed pd vpage m = do {
     (pte, m) \<leftarrow> lookup_page pd vpage False m;
     Some (pte \<noteq> 0 \<and> load32 (ram m) pte AND PTE_A \<noteq> 0) }"

definition pagedir_set_accessed :: "va \<Rightarrow> va \<Rightarrow> bool \<Rightarrow> machine \<Rightarrow> machine option" where
  "pagedir_set_accessed pd vpage accessed m = do {
     (pte, m) \<leftarrow> lookup_page pd vpage False m;
     if pte \<noteq> 0 then
       if accessed then Some (m\<lparr>ram := store32 (ram m) pte (load32 (ram m) pte OR PTE_A)\<rparr>)
       else invalidate_pagedir pd (m\<lparr>ram := store32 (ram m) pte (load32 (ram m) pte AND NOT PTE_A)\<rparr>)
     else Some m }"

section \<open>The entries of a directory\<close>

definition pde_of :: "machine \<Rightarrow> va \<Rightarrow> 32 word \<Rightarrow> 32 word" where
  "pde_of m pd i = load32 (ram m) (entry pd i)"

definition pte_of :: "machine \<Rightarrow> va \<Rightarrow> va \<Rightarrow> 32 word" where
  "pte_of m pd a = (if pde_of m pd (pd_no a) = 0 then 0 else
     case pde_get_pt (pde_of m pd (pd_no a)) of None \<Rightarrow> 0 | Some pt \<Rightarrow> load32 (ram m) (entry pt (pt_no a)))"

text \<open>The tables a directory refers to for user addresses, and all pages it consists of.\<close>

definition page_tables :: "machine \<Rightarrow> va \<Rightarrow> va set" where
  "page_tables m pd = {pt. \<exists>i. unat i < 768 \<and> pde_of m pd i \<noteq> 0 \<and> pde_get_pt (pde_of m pd i) = Some pt}"

definition owned :: "machine \<Rightarrow> va \<Rightarrow> va set" where
  "owned m pd = insert pd (page_tables m pd)"

text \<open>
  A directory is a page in use whose entries for user addresses are empty or refer to different
  tables.
\<close>

definition pd_wf :: "machine \<Rightarrow> va \<Rightarrow> bool" where
  "pd_wf m pd \<longleftrightarrow> owned m pd \<subseteq> allocated m \<and> pd \<notin> page_tables m pd \<and>
     (\<forall>i. unat i < 768 \<and> pde_of m pd i \<noteq> 0 \<longrightarrow> pde_get_pt (pde_of m pd i) \<noteq> None) \<and>
     (\<forall>i j. unat i < 768 \<and> unat j < 768 \<and> pde_of m pd i \<noteq> 0 \<and> pde_of m pd j \<noteq> 0 \<and>
        pde_get_pt (pde_of m pd i) = pde_get_pt (pde_of m pd j) \<longrightarrow> i = j)"

text \<open>
  The directories \<open>D\<close> of the processes: each is well formed, no two share a page, and none
  has a page in common with the kernel's directory, which maps no user address.
\<close>

definition pds_inv :: "machine \<Rightarrow> va set \<Rightarrow> bool" where
  "pds_inv m D \<longleftrightarrow> palloc_inv m \<and> init_page_dir m \<in> allocated m \<and> cr3 m < PHYS_BASE \<and>
     (\<forall>i. unat i < 768 \<longrightarrow> pde_of m (init_page_dir m) i = 0) \<and>
     (\<forall>pd\<in>D. pd_wf m pd \<and> init_page_dir m \<notin> owned m pd) \<and>
     (\<forall>pd\<in>D. \<forall>pd'\<in>D. pd \<noteq> pd' \<longrightarrow> owned m pd \<inter> owned m pd' = {})"

text \<open>The entries of a directory for kernel addresses are empty or refer to a table.\<close>

definition kernel_half :: "machine \<Rightarrow> va set \<Rightarrow> bool" where
  "kernel_half m D \<longleftrightarrow> (\<forall>pd\<in>D. \<forall>i. 768 \<le> unat i \<and> unat i < 1024 \<longrightarrow> pde_of m pd i = 0 \<or> pde_get_pt (pde_of m pd i) \<noteq> None)"

definition same_entries :: "machine \<Rightarrow> machine \<Rightarrow> va set \<Rightarrow> bool" where
  "same_entries m m' X \<longleftrightarrow> (\<forall>t\<in>X. \<forall>j. unat j < 1024 \<longrightarrow> load32 (ram m') (entry t j) = load32 (ram m) (entry t j))"

lemma same_entries_mono: "same_entries m m' X \<Longrightarrow> Y \<subseteq> X \<Longrightarrow> same_entries m m' Y"
  unfolding same_entries_def by blast

lemma same_entries_refl [simp]: "same_entries m m X"
  by (simp add: same_entries_def)

lemma same_entries_trans: "same_entries m1 m2 X \<Longrightarrow> same_entries m2 m3 X \<Longrightarrow> same_entries m1 m3 X"
  by (simp add: same_entries_def)

lemma pde_of_same: "same_entries m m' X \<Longrightarrow> pd \<in> X \<Longrightarrow> unat i < 768 \<Longrightarrow> pde_of m' pd i = pde_of m pd i"
  by (simp add: same_entries_def pde_of_def)

lemma page_tables_same: "same_entries m m' X \<Longrightarrow> pd \<in> X \<Longrightarrow> page_tables m' pd = page_tables m pd"
  using pde_of_same [of m m' X pd] by (auto simp: page_tables_def)

lemma owned_same: "same_entries m m' X \<Longrightarrow> pd \<in> X \<Longrightarrow> owned m' pd = owned m pd"
  using page_tables_same [of m m' X pd] by (simp add: owned_def)

lemma pte_of_same:
  assumes "same_entries m m' (owned m pd)" "is_user_vaddr a"
  shows "pte_of m' pd a = pte_of m pd a"
proof -
  have u: "unat (pd_no a) < 768" using assms(2) by (simp add: pd_no_user)
  have p: "pde_of m' pd (pd_no a) = pde_of m pd (pd_no a)"
    by (rule pde_of_same [OF assms(1) _ u]) (simp add: owned_def)
  have "pt \<in> owned m pd" if "pde_of m pd (pd_no a) \<noteq> 0" "pde_get_pt (pde_of m pd (pd_no a)) = Some pt" for pt
    using that u by (auto simp: owned_def page_tables_def)
  then show ?thesis using assms(1) pt_no_less [of a] p
    by (auto simp: pte_of_def same_entries_def split: option.splits)
qed

text \<open>Well-formedness depends on the entries of the directory itself only.\<close>

lemma pd_wf_same:
  assumes "pd_wf m pd" "same_entries m m' X" "pd \<in> X" "owned m pd \<subseteq> allocated m'"
  shows "pd_wf m' pd"
proof -
  have "\<And>i. unat i < 768 \<Longrightarrow> pde_of m' pd i = pde_of m pd i" using pde_of_same [OF assms(2,3)] .
  then show ?thesis using assms(1,4) owned_same [OF assms(2,3)] page_tables_same [OF assms(2,3)]
    unfolding pd_wf_def by metis
qed

lemma pds_inv_same:
  assumes "pds_inv m D" "palloc_inv m'" "init_page_dir m' = init_page_dir m" "cr3 m' < PHYS_BASE" "init_page_dir m \<in> allocated m'"
    "same_entries m m' (insert (init_page_dir m) E)" "E \<subseteq> D"
    "\<And>pd. pd \<in> E \<Longrightarrow> owned m pd \<subseteq> allocated m'"
  shows "pds_inv m' E"
proof -
  have o: "owned m' pd = owned m pd" "pd_wf m' pd" if "pd \<in> E" for pd
  proof -
    show "owned m' pd = owned m pd" using owned_same [OF assms(6)] that by simp
    show "pd_wf m' pd" using pd_wf_same [OF _ assms(6) _ assms(8) [OF that]] assms(1,7) that
      unfolding pds_inv_def by blast
  qed
  have i: "pde_of m' (init_page_dir m) i = pde_of m (init_page_dir m) i" if "unat i < 768" for i
    by (rule pde_of_same [OF assms(6) _ that]) simp
  have inv: "\<And>pd. pd \<in> E \<Longrightarrow> init_page_dir m \<notin> owned m pd"
    "\<And>pd pd'. pd \<in> E \<Longrightarrow> pd' \<in> E \<Longrightarrow> pd \<noteq> pd' \<Longrightarrow> owned m pd \<inter> owned m pd' = {}"
    using assms(1,7) unfolding pds_inv_def by blast+
  show ?thesis unfolding pds_inv_def assms(3) using assms(1,2,4,5) o i inv by (simp add: pds_inv_def)
qed

lemma pds_invD:
  assumes "pds_inv m D"
  shows "palloc_inv m" "init_page_dir m \<in> allocated m" "cr3 m < PHYS_BASE" "pd \<in> D \<Longrightarrow> pd_wf m pd"
    "pd \<in> D \<Longrightarrow> init_page_dir m \<notin> owned m pd" "pd \<in> D \<Longrightarrow> pd' \<in> D \<Longrightarrow> pd \<noteq> pd' \<Longrightarrow> owned m pd \<inter> owned m pd' = {}"
    "unat i < 768 \<Longrightarrow> pde_of m (init_page_dir m) i = 0" "pd \<in> D \<Longrightarrow> owned m pd \<subseteq> allocated m"
  using assms unfolding pds_inv_def pd_wf_def by blast+

lemma pd_wfD:
  assumes "pd_wf m pd"
  shows "pd \<notin> page_tables m pd" "unat i < 768 \<Longrightarrow> pde_of m pd i \<noteq> 0 \<Longrightarrow> \<exists>pt. pde_get_pt (pde_of m pd i) = Some pt"
    "unat i < 768 \<Longrightarrow> unat j < 768 \<Longrightarrow> pde_of m pd i \<noteq> 0 \<Longrightarrow> pde_of m pd j \<noteq> 0 \<Longrightarrow>
      pde_get_pt (pde_of m pd i) = Some pt \<Longrightarrow> pde_get_pt (pde_of m pd j) = Some pt \<Longrightarrow> i = j"
  using assms unfolding pd_wf_def by (blast, blast, metis)

lemma owned_facts:
  assumes "pds_inv m D" "pd \<in> D" "t \<in> owned m pd"
  shows "t \<in> allocated m" "page_aligned t" "is_kernel_vaddr t" "t \<noteq> 0" "t \<noteq> init_page_dir m"
proof -
  show t: "t \<in> allocated m" using pds_invD(8) [OF assms(1,2)] assms(3) by blast
  show "page_aligned t" "is_kernel_vaddr t" "t \<noteq> 0" using allocated_facts [OF pds_invD(1) [OF assms(1)] t] by auto
  show "t \<noteq> init_page_dir m" using pds_invD(5) [OF assms(1,2)] assms(3) by blast
qed

lemma entry_nonzero: "page_aligned t \<Longrightarrow> is_kernel_vaddr t \<Longrightarrow> unat j < 1024 \<Longrightarrow> entry t j \<noteq> 0"
  using unat_entry [of t j] by (auto simp: is_kernel_vaddr_def PHYS_BASE_def word_le_nat_alt unat_eq_0)

text \<open>A lookup without creation.\<close>

lemma pt_of_entry:
  assumes "pds_inv m D" "pd \<in> D" "is_user_vaddr a" "pde_of m pd (pd_no a) \<noteq> 0"
  obtains pt where "pde_get_pt (pde_of m pd (pd_no a)) = Some pt" "pt \<in> page_tables m pd" "pt \<noteq> pd"
    "pte_of m pd a = load32 (ram m) (entry pt (pt_no a))"
proof -
  have u: "unat (pd_no a) < 768" using assms(3) by (simp add: pd_no_user)
  have wf: "pd_wf m pd" using pds_invD(4) assms by blast
  obtain pt where pt: "pde_get_pt (pde_of m pd (pd_no a)) = Some pt"
    using pd_wfD(2) [OF wf u assms(4)] by blast
  then have "pt \<in> page_tables m pd" using assms(4) u by (auto simp: page_tables_def)
  moreover then have "pt \<noteq> pd" using pd_wfD(1) [OF wf] by blast
  ultimately show ?thesis using pt assms(4) that by (auto simp: pte_of_def)
qed

lemma lookup_page_ok:
  assumes "pds_inv m D" "pd \<in> D" "is_user_vaddr a"
  shows "\<exists>p. lookup_page pd a False m = Some (p, m) \<and> pte_of m pd a = (if p = 0 then 0 else load32 (ram m) p) \<and>
    (p = 0 \<longleftrightarrow> pde_of m pd (pd_no a) = 0) \<and>
    (p \<noteq> 0 \<longrightarrow> (\<exists>pt. pde_get_pt (pde_of m pd (pd_no a)) = Some pt \<and> pt \<in> page_tables m pd \<and> p = entry pt (pt_no a)))"
proof (cases "pde_of m pd (pd_no a) = 0")
  case True
  then show ?thesis using owned_facts [OF assms(1,2), of pd]
    by (simp add: lookup_page_def pde_of_def pte_of_def owned_def)
next
  case False
  then obtain pt where pt: "pde_get_pt (pde_of m pd (pd_no a)) = Some pt" "pt \<in> page_tables m pd"
    "pte_of m pd a = load32 (ram m) (entry pt (pt_no a))" using pt_of_entry [OF assms] by metis
  have "pt \<in> owned m pd" "pd \<in> owned m pd" using pt by (auto simp: owned_def)
  note f = owned_facts [OF assms(1,2) this(1)] owned_facts [OF assms(1,2) this(2)]
  have "entry pt (pt_no a) \<noteq> 0" using entry_nonzero [OF f(2,3) pt_no_less] .
  moreover have "lookup_page pd a False m = Some (entry pt (pt_no a), m)"
    using False f pt(1) by (simp add: lookup_page_def pde_of_def Let_def)
  ultimately show ?thesis using pt False by auto
qed


section \<open>Writing an entry\<close>

lemma same_entries_store:
  assumes "page_aligned t" "unat j < 1024" "\<And>s. s \<in> X \<Longrightarrow> page_aligned s \<and> s \<noteq> t"
  shows "same_entries m (m\<lparr>ram := store32 (ram m) (entry t j) v\<rparr>) X"
  unfolding same_entries_def using assms by (auto simp: load_store_entry)

lemma store_pte:
  assumes inv: "pds_inv m D" and pd: "pd \<in> D" and a: "is_user_vaddr a"
    and pt: "pde_of m pd (pd_no a) \<noteq> 0" "pde_get_pt (pde_of m pd (pd_no a)) = Some pt"
    and m': "m' = m\<lparr>ram := store32 (ram m) (entry pt (pt_no a)) v\<rparr>"
  shows "pds_inv m' D" "\<And>pd'. pd' \<in> D \<Longrightarrow> owned m' pd' = owned m pd'"
    "\<And>b. is_user_vaddr b \<Longrightarrow> pte_of m' pd b = (if pg_round_down b = pg_round_down a then v else pte_of m pd b)"
    "\<And>pd' b. pd' \<in> D \<Longrightarrow> pd' \<noteq> pd \<Longrightarrow> is_user_vaddr b \<Longrightarrow> pte_of m' pd' b = pte_of m pd' b"
proof -
  have u: "unat (pd_no a) < 768" using a by (simp add: pd_no_user)
  have tab: "pt \<in> page_tables m pd" using pt u by (auto simp: page_tables_def)
  then have own: "pt \<in> owned m pd" by (simp add: owned_def)
  note f = owned_facts [OF inv pd own]
  have al: "page_aligned pd'" "pd' \<noteq> pt" if "pd' \<in> D" for pd'
  proof -
    show "page_aligned pd'" using owned_facts(2) [OF inv that, of pd'] by (simp add: owned_def)
    show "pd' \<noteq> pt"
    proof (cases "pd' = pd")
      case True
      then show ?thesis using tab pd_wfD(1) [OF pds_invD(4) [OF inv pd]] by blast
    next
      case False
      then show ?thesis using pds_invD(6) [OF inv that pd] own by (auto simp: owned_def)
    qed
  qed
  have ia: "page_aligned (init_page_dir m)" using allocated_facts [OF pds_invD(1,2) [OF inv]] by blast
  have se: "same_entries m m' (insert (init_page_dir m) D)"
    unfolding m' by (rule same_entries_store) (use f al ia pt_no_less in auto)
  show "pds_inv m' D"
    by (rule pds_inv_same [OF inv _ _ _ _ se]) (use pds_invD [OF inv] in \<open>auto simp: m'\<close>)
  show "owned m' pd' = owned m pd'" if "pd' \<in> D" for pd' using owned_same [OF se] that by simp
  show "pte_of m' pd' b = pte_of m pd' b" if "pd' \<in> D" "pd' \<noteq> pd" "is_user_vaddr b" for pd' b
  proof (rule pte_of_same [OF _ that(3)])
    show "same_entries m m' (owned m pd')"
      unfolding m' by (rule same_entries_store)
        (use f pt_no_less owned_facts(2) [OF inv that(1)] pds_invD(6) [OF inv that(1) pd that(2)] own in auto)
  qed
  show "pte_of m' pd b = (if pg_round_down b = pg_round_down a then v else pte_of m pd b)" if b: "is_user_vaddr b" for b
  proof -
    have ub: "unat (pd_no b) < 768" using b by (simp add: pd_no_user)
    have e: "pde_of m' pd (pd_no b) = pde_of m pd (pd_no b)" by (rule pde_of_same [OF se _ ub]) (use pd in simp)
    show ?thesis
    proof (cases "pde_of m pd (pd_no b) = 0")
      case True
      then have "pg_round_down b \<noteq> pg_round_down a" using pt page_indices [of b a] by auto
      then show ?thesis using True e by (simp add: pte_of_def)
    next
      case False
      obtain q where q: "pde_get_pt (pde_of m pd (pd_no b)) = Some q" "q \<in> page_tables m pd"
        "pte_of m pd b = load32 (ram m) (entry q (pt_no b))" using pt_of_entry [OF inv pd b False] by metis
      have qa: "page_aligned q" using owned_facts(2) [OF inv pd] q(2) by (simp add: owned_def)
      have "q = pt \<longleftrightarrow> pd_no b = pd_no a"
        using pd_wfD(3) [OF pds_invD(4) [OF inv pd] ub u False pt(1), of pt] q(1) pt(2) by auto
      then have "q = pt \<and> pt_no b = pt_no a \<longleftrightarrow> pg_round_down b = pg_round_down a" using page_indices [of b a] by simp
      moreover have "pte_of m' pd b = load32 (ram m') (entry q (pt_no b))" using e False q(1) by (simp add: pte_of_def)
      ultimately show ?thesis using q(3) load_store_entry [OF f(2) pt_no_less qa pt_no_less]
        unfolding m' by auto
    qed
  qed
qed

section \<open>Creating tables and directories\<close>

lemma pds_inv_insert:
  assumes "pds_inv m E" "pd_wf m pd" "init_page_dir m \<notin> owned m pd" "\<And>pd'. pd' \<in> E \<Longrightarrow> pd' \<noteq> pd \<Longrightarrow> owned m pd \<inter> owned m pd' = {}"
  shows "pds_inv m (insert pd E)"
  using assms unfolding pds_inv_def by blast


text \<open>A lookup that may create a table: it fails only when the kernel pool is exhausted.\<close>

lemma lookup_create:
  assumes inv: "pds_inv m D" and pd: "pd \<in> D" and a: "is_user_vaddr a"
  obtains (none) "lookup_page pd a True m = Some (0, m)" "pool_pages (kernel_pool m) \<subseteq> allocated m"
  | (some) pt m' where "lookup_page pd a True m = Some (entry pt (pt_no a), m')" "pds_inv m' D"
    "pde_of m' pd (pd_no a) \<noteq> 0" "pde_get_pt (pde_of m' pd (pd_no a)) = Some pt"
    "\<And>b. is_user_vaddr b \<Longrightarrow> pte_of m' pd b = pte_of m pd b"
    "\<And>pd' b. pd' \<in> D \<Longrightarrow> pd' \<noteq> pd \<Longrightarrow> is_user_vaddr b \<Longrightarrow> pte_of m' pd' b = pte_of m pd' b"
    "allocated m \<subseteq> allocated m'" "init_ram_pages m' = init_ram_pages m" "init_page_dir m' = init_page_dir m"
    "\<And>w. pool_pages (the_pool w m') = pool_pages (the_pool w m)"
    "\<And>pd'. pd' \<in> D \<Longrightarrow> owned m' pd' \<subseteq> owned m pd' \<union> pool_pages (kernel_pool m)"
    "\<And>p. page_aligned p \<Longrightarrow> p \<notin> pool_pages (kernel_pool m) \<Longrightarrow> p \<noteq> pd \<Longrightarrow>
      mem_get (ram m') p PGSIZE = mem_get (ram m) p PGSIZE"
proof (cases "pde_of m pd (pd_no a) = 0")
  case False
  obtain p where p: "lookup_page pd a False m = Some (p, m)" "p \<noteq> 0" "\<exists>pt. pde_get_pt (pde_of m pd (pd_no a)) = Some pt \<and> p = entry pt (pt_no a)"
    using lookup_page_ok [OF inv pd a] False by blast
  then obtain pt where pt: "pde_get_pt (pde_of m pd (pd_no a)) = Some pt" "p = entry pt (pt_no a)" by blast
  have "lookup_page pd a True m = lookup_page pd a False m" using False a by (simp add: lookup_page_def pde_of_def)
  then show thesis using some [of pt m] p pt inv False by simp
next
  case True
  have u: "unat (pd_no a) < 768" using a by (simp add: pd_no_user)
  have pdo: "pd \<in> owned m pd" by (simp add: owned_def)
  note pf = owned_facts [OF inv pd pdo]
  have flags: "PAL_ZERO AND PAL_ASSERT = 0" "False = (PAL_ZERO AND PAL_USER \<noteq> 0)" "PAL_ZERO AND PAL_ZERO \<noteq> 0"
    by (simp_all add: PAL_ZERO_def PAL_ASSERT_def PAL_USER_def)
  show thesis
  proof (rule palloc_get_page_ok [OF pds_invD(1) [OF inv] flags(1,2)])
    assume "palloc_get_page PAL_ZERO m = Some (0, m)" "pool_pages (the_pool False m) \<subseteq> allocated m"
    then show thesis using none True a pf by (simp add: lookup_page_def pde_of_def the_pool_def)
  next
    fix pt m1
    assume g: "palloc_get_page PAL_ZERO m = Some (pt, m1)" "pt \<noteq> 0" "palloc_inv m1"
      "pt \<in> pool_pages (the_pool False m)" "pt \<notin> allocated m" "allocated m1 = insert pt (allocated m)"
      and w: "\<And>w. pool_pages (the_pool w m1) = pool_pages (the_pool w m)"
      and r: "ram m1 = (if PAL_ZERO AND PAL_ZERO \<noteq> 0 then mem_put (ram m) pt (replicate PGSIZE 0) else ram m)"
      "init_ram_pages m1 = init_ram_pages m" "init_page_dir m1 = init_page_dir m" "cr3 m1 = cr3 m"
    have ptf: "page_aligned pt" "is_kernel_vaddr pt" using pool_page_in_ram [OF pds_invD(1) [OF inv] g(4)] by auto
    obtain e where e: "pde_create pt = Some e" "e \<noteq> 0" "pde_get_pt e = Some pt" using pde_create_ok [OF ptf] by blast
    define m2 where "m2 = m1\<lparr>ram := store32 (ram m1) (entry pd (pd_no a)) e\<rparr>"
    have ne: "pt \<noteq> pd" using g(5) pf(1) by blast
    have load: "load32 (ram m2) (entry t j) =
        (if t = pd \<and> j = pd_no a then e else if t = pt then 0 else load32 (ram m) (entry t j))"
      if "page_aligned t" "unat j < 1024" for t j
      using that load_store_entry [OF pf(2) pd_no_less [of a] that, of "ram m1" e] r(1) flags(3)
        load_zero_page [OF ptf(1), of j "ram m"] load_put_page [OF ptf(1) _ that(1) _ that(2), of "replicate PGSIZE 0" "ram m"]
      by (auto simp: m2_def pd_no_less)
    have pde: "pde_of m2 pd i = (if i = pd_no a then e else pde_of m pd i)" if "unat i < 768" for i
      using that load [OF pf(2), of i] ne by (auto simp: pde_of_def)
    have lk: "lookup_page pd a True m = Some (entry pt (pt_no a), m2)"
      using True a pf(4) g(1,2) e load [OF pf(2) pd_no_less] by (simp add: lookup_page_def pde_of_def m2_def Let_def)
    have pinv: "palloc_inv m2" "allocated m2 = insert pt (allocated m)" using g by (simp_all add: m2_def)
    let ?E = "D - {pd}"
    have same: "same_entries m m2 X" if "X \<subseteq> allocated m" "pd \<notin> X" for X
      unfolding same_entries_def
    proof (intro ballI allI impI)
      fix t j assume t: "t \<in> X" and j: "unat (j :: 32 word) < 1024"
      have ta: "t \<in> allocated m" using t that by blast
      have "page_aligned t" using allocated_facts(1) [OF pds_invD(1) [OF inv] ta] .
      moreover have "t \<noteq> pd" "t \<noteq> pt" using t that ta g(5) by blast+
      ultimately show "load32 (ram m2) (entry t j) = load32 (ram m) (entry t j)" using load [OF _ j] by simp
    qed
    have inE: "insert (init_page_dir m) ?E \<subseteq> allocated m" "pd \<notin> insert (init_page_dir m) ?E"
      using pds_invD(2) [OF inv] pds_invD(8) [OF inv] pf(5) by (auto simp: owned_def)
    have E: "pds_inv m2 ?E"
    proof (rule pds_inv_same [OF inv pinv(1) _ _ _ same [OF inE]])
      show "owned m pd' \<subseteq> allocated m2" if "pd' \<in> ?E" for pd' using pds_invD(8) [OF inv, of pd'] that pinv(2) by blast
    qed (use r pds_invD(2,3) [OF inv] pinv in \<open>auto simp: m2_def\<close>)
    have oE: "owned m2 pd' = owned m pd'" if "pd' \<in> ?E" for pd' using owned_same [OF same [OF inE]] that by simp
    have tabs: "page_tables m2 pd = insert pt (page_tables m pd)"
      using pde True e u unfolding page_tables_def by (auto split: if_splits)
    have own: "owned m2 pd = insert pt (owned m pd)" by (auto simp: owned_def tabs)
    have ptn: "pt \<notin> page_tables m pd" using g(5) pds_invD(8) [OF inv pd] by (auto simp: owned_def)
    have wf: "pd_wf m pd" using pds_invD(4) [OF inv pd] .
    have old: "pde_get_pt (pde_of m pd i) \<noteq> Some pt" if "unat i < 768" "pde_of m pd i \<noteq> 0" for i
      using ptn that by (auto simp: page_tables_def)
    have wf2: "pd_wf m2 pd" unfolding pd_wf_def
    proof (intro conjI allI impI)
      show "owned m2 pd \<subseteq> allocated m2" using own pinv(2) pds_invD(8) [OF inv pd] by blast
      show "pd \<notin> page_tables m2 pd" using tabs ne pd_wfD(1) [OF wf] by simp
      show "pde_get_pt (pde_of m2 pd i) \<noteq> None" if "unat i < 768 \<and> pde_of m2 pd i \<noteq> 0" for i
        using that pde [of i] e(3) pd_wfD(2) [OF wf, of i] by (cases "i = pd_no a") auto
      show "i = j" if h: "unat i < 768 \<and> unat j < 768 \<and> pde_of m2 pd i \<noteq> 0 \<and> pde_of m2 pd j \<noteq> 0 \<and>
          pde_get_pt (pde_of m2 pd i) = pde_get_pt (pde_of m2 pd j)" for i j
      proof (cases "i = pd_no a \<or> j = pd_no a")
        case True
        then show ?thesis using h pde [of i] pde [of j] e(3) old [of i] old [of j] by (auto split: if_splits)
      next
        case False
        then show ?thesis using h pde [of i] pde [of j] pd_wfD(2) [OF wf, of i] pd_wfD(3) [OF wf, of i j] by auto
      qed
    qed
    have disj: "owned m pd \<inter> owned m pd' = {}" "pt \<notin> owned m pd'" if "pd' \<in> ?E" for pd'
      using pds_invD(6) [OF inv pd, of pd'] pds_invD(8) [OF inv, of pd'] g(5) that by blast+
    have "pds_inv m2 (insert pd ?E)"
    proof (rule pds_inv_insert [OF E wf2])
      show "init_page_dir m2 \<notin> owned m2 pd"
        using own r(3) g(5) pds_invD(2) [OF inv] pds_invD(5) [OF inv pd] by (auto simp: m2_def)
      show "owned m2 pd \<inter> owned m2 pd' = {}" if "pd' \<in> ?E" for pd' using disj [OF that] oE [OF that] own by simp
    qed
    then have inv2: "pds_inv m2 D" using pd by (simp add: insert_absorb)
    show thesis
    proof (rule some [OF lk inv2])
      show "pde_of m2 pd (pd_no a) \<noteq> 0" "pde_get_pt (pde_of m2 pd (pd_no a)) = Some pt" using pde [OF u] e by auto
      show "pte_of m2 pd' b = pte_of m pd' b" if "pd' \<in> D" "pd' \<noteq> pd" "is_user_vaddr b" for pd' b
        by (rule pte_of_same [OF same that(3)]) (use that disj [of pd'] pdo pds_invD(8) [OF inv that(1)] in blast)+
      show "owned m2 pd' \<subseteq> owned m pd' \<union> pool_pages (kernel_pool m)" if "pd' \<in> D" for pd'
        using own oE [of pd'] that g(4) by (cases "pd' = pd") (auto simp: the_pool_def)
      show "mem_get (ram m2) p PGSIZE = mem_get (ram m) p PGSIZE"
        if "page_aligned p" "p \<notin> pool_pages (kernel_pool m)" "p \<noteq> pd" for p
      proof -
        have "p \<noteq> pt" using that(2) g(4) by (auto simp: the_pool_def)
        then show ?thesis
          using get_store_page [OF that(1) order_refl pf(2) that(3) pd_no_less] get_put_page [OF ptf(1) _ that(1)] r(1) flags(3)
          by (simp add: m2_def)
      qed
      show "pte_of m2 pd b = pte_of m pd b" if b: "is_user_vaddr b" for b
      proof (cases "pde_of m pd (pd_no b) = 0")
        case z: True
        then show ?thesis using pde [of "pd_no b"] b e(3) load [OF ptf(1) pt_no_less, of b] ne
          by (auto simp: pte_of_def pd_no_user)
      next
        case nz: False
        obtain q where q: "pde_get_pt (pde_of m pd (pd_no b)) = Some q" "q \<in> page_tables m pd" "q \<noteq> pd"
          "pte_of m pd b = load32 (ram m) (entry q (pt_no b))" using pt_of_entry [OF inv pd b nz] by metis
        have "pd_no b \<noteq> pd_no a" "q \<noteq> pt" using nz True q(2) ptn by auto
        moreover have "page_aligned q" using owned_facts(2) [OF inv pd] q(2) by (simp add: owned_def)
        ultimately show ?thesis using q nz pde [of "pd_no b"] b load [OF _ pt_no_less, of q b]
          by (simp add: pte_of_def pd_no_user)
      qed
    qed (use r w pinv in \<open>auto simp: m2_def\<close>)
  qed
qed


text \<open>A new directory maps no user address.\<close>

lemma pagedir_create_ok:
  assumes inv: "pds_inv m D"
  obtains (none) "pagedir_create m = Some (0, m)" "pool_pages (kernel_pool m) \<subseteq> allocated m"
  | (some) pd m' where "pagedir_create m = Some (pd, m')" "pd \<noteq> 0" "pd \<notin> allocated m" "pds_inv m' (insert pd D)"
    "allocated m' = insert pd (allocated m)" "\<And>a. is_user_vaddr a \<Longrightarrow> pte_of m' pd a = 0"
    "\<And>pd' a. pd' \<in> D \<Longrightarrow> is_user_vaddr a \<Longrightarrow> pte_of m' pd' a = pte_of m pd' a"
    "\<And>pd'. pd' \<in> D \<Longrightarrow> owned m' pd' = owned m pd'" "owned m' pd = {pd}" "pd \<in> pool_pages (kernel_pool m)"
    "\<And>w. pool_pages (the_pool w m') = pool_pages (the_pool w m)"
    "init_ram_pages m' = init_ram_pages m" "init_page_dir m' = init_page_dir m" "cr3 m' = cr3 m"
proof -
  have flags: "0 AND PAL_ASSERT = 0" "False = (0 AND PAL_USER \<noteq> 0)" by simp_all
  show thesis
  proof (rule palloc_get_page_ok [OF pds_invD(1) [OF inv] flags])
    assume "palloc_get_page 0 m = Some (0, m)" "pool_pages (the_pool False m) \<subseteq> allocated m"
    then show thesis using none by (simp add: pagedir_create_def the_pool_def)
  next
    fix pd m1
    assume g: "palloc_get_page 0 m = Some (pd, m1)" "pd \<noteq> 0" "palloc_inv m1"
      "pd \<in> pool_pages (the_pool False m)" "pd \<notin> allocated m" "allocated m1 = insert pd (allocated m)"
      and w: "\<And>w. pool_pages (the_pool w m1) = pool_pages (the_pool w m)"
      and r: "ram m1 = (if 0 AND PAL_ZERO \<noteq> 0 then mem_put (ram m) pd (replicate PGSIZE 0) else ram m)"
      "init_ram_pages m1 = init_ram_pages m" "init_page_dir m1 = init_page_dir m" "cr3 m1 = cr3 m"
    define m2 where "m2 = m1\<lparr>ram := mem_put (ram m1) pd (mem_get (ram m1) (init_page_dir m1) PGSIZE)\<rparr>"
    have pf: "page_aligned pd" using pool_page_in_ram [OF pds_invD(1) [OF inv] g(4)] by auto
    have cr: "pagedir_create m = Some (pd, m2)" using g(1,2) by (simp add: pagedir_create_def m2_def)
    have pinv: "palloc_inv m2" "allocated m2 = insert pd (allocated m)" using g by (simp_all add: m2_def)
    have ram2: "ram m2 = mem_put (ram m) pd (mem_get (ram m) (init_page_dir m) PGSIZE)" using r by (simp add: m2_def)
    have same: "same_entries m m2 X" if "X \<subseteq> allocated m" for X
      unfolding same_entries_def ram2
      using load_put_page [OF pf] allocated_facts(1) [OF pds_invD(1) [OF inv]] g(5) that by (metis in_mono length_mem_get order_refl)
    have sub: "insert (init_page_dir m) D \<subseteq> allocated m"
      using pds_invD(2) [OF inv] pds_invD(8) [OF inv] by (auto simp: owned_def)
    have E: "pds_inv m2 D"
    proof (rule pds_inv_same [OF inv pinv(1) _ _ _ same [OF sub]])
      show "owned m pd' \<subseteq> allocated m2" if "pd' \<in> D" for pd' using pds_invD(8) [OF inv that] pinv(2) by blast
    qed (use r pds_invD(2,3) [OF inv] pinv in \<open>auto simp: m2_def\<close>)
    have oD: "owned m2 pd' = owned m pd'" if "pd' \<in> D" for pd' using owned_same [OF same [OF sub]] that by simp
    have z: "pde_of m2 pd i = 0" if "unat i < 768" for i
      using load_copy_page [OF pf, of i "ram m" "init_page_dir m"] pds_invD(7) [OF inv that] that
      by (simp add: pde_of_def ram2)
    then have own: "page_tables m2 pd = {}" "owned m2 pd = {pd}" by (auto simp: page_tables_def owned_def)
    have "pd_wf m2 pd" using own z pinv(2) unfolding pd_wf_def by auto
    moreover have "init_page_dir m2 \<notin> owned m2 pd" using own g(5) pds_invD(2) [OF inv] r(3) by (auto simp: m2_def)
    moreover have "owned m2 pd \<inter> owned m2 pd' = {}" if "pd' \<in> D" for pd'
      using own oD [OF that] pds_invD(8) [OF inv that] g(5) by auto
    ultimately have inv2: "pds_inv m2 (insert pd D)" using pds_inv_insert [OF E] by blast
    show thesis
    proof (rule some [OF cr g(2,5) inv2 pinv(2)])
      show "pte_of m2 pd a = 0" if "is_user_vaddr a" for a using z that by (simp add: pte_of_def pd_no_user)
      show "pte_of m2 pd' a = pte_of m pd' a" if "pd' \<in> D" "is_user_vaddr a" for pd' a
        by (rule pte_of_same [OF same that(2)]) (rule pds_invD(8) [OF inv that(1)])
      show "pd \<in> pool_pages (kernel_pool m)" using g(4) by (simp add: the_pool_def)
    qed (use oD own r w in \<open>auto simp: m2_def\<close>)
  qed
qed

section \<open>Mappings\<close>

text \<open>
  The directories of the processes together with what they map: tables come from the kernel
  pool, every present entry refers to a page in use of the user pool, and no page is mapped
  twice.
\<close>

definition mapped :: "machine \<Rightarrow> va \<Rightarrow> va \<Rightarrow> bool" where
  "mapped m pd a \<longleftrightarrow> is_user_vaddr a \<and> pte_of m pd a AND PTE_P \<noteq> 0"

definition frame_of :: "machine \<Rightarrow> va \<Rightarrow> va \<Rightarrow> va" where
  "frame_of m pd a = (case pte_get_page (pte_of m pd a) of None \<Rightarrow> 0 | Some k \<Rightarrow> k)"

definition frames :: "machine \<Rightarrow> va \<Rightarrow> va set" where
  "frames m pd = frame_of m pd ` {a. mapped m pd a}"

definition maps_inv :: "machine \<Rightarrow> va set \<Rightarrow> bool" where
  "maps_inv m D \<longleftrightarrow> pds_inv m D \<and> init_page_dir m \<in> pool_pages (kernel_pool m) \<and>
     (\<forall>pd\<in>D. owned m pd \<subseteq> pool_pages (kernel_pool m)) \<and>
     (\<forall>pd\<in>D. \<forall>a. mapped m pd a \<longrightarrow> pte_get_page (pte_of m pd a) = Some (frame_of m pd a) \<and>
        frame_of m pd a \<in> pool_pages (user_pool m) \<inter> allocated m) \<and>
     (\<forall>pd\<in>D. \<forall>pd'\<in>D. \<forall>a b. mapped m pd a \<and> mapped m pd' b \<and> frame_of m pd a = frame_of m pd' b \<longrightarrow>
        pd = pd' \<and> pg_round_down a = pg_round_down b)"

lemma maps_invD:
  assumes "maps_inv m D"
  shows "pds_inv m D" "pd \<in> D \<Longrightarrow> owned m pd \<subseteq> pool_pages (kernel_pool m)"
    "pd \<in> D \<Longrightarrow> mapped m pd a \<Longrightarrow> pte_get_page (pte_of m pd a) = Some (frame_of m pd a)"
    "pd \<in> D \<Longrightarrow> mapped m pd a \<Longrightarrow> frame_of m pd a \<in> pool_pages (user_pool m)"
    "pd \<in> D \<Longrightarrow> mapped m pd a \<Longrightarrow> frame_of m pd a \<in> allocated m"
    "pd \<in> D \<Longrightarrow> pd' \<in> D \<Longrightarrow> mapped m pd a \<Longrightarrow> mapped m pd' b \<Longrightarrow> frame_of m pd a = frame_of m pd' b \<Longrightarrow>
       pd = pd' \<and> pg_round_down a = pg_round_down b"
    "init_page_dir m \<in> pool_pages (kernel_pool m)"
  using assms unfolding maps_inv_def by blast+

lemma pte_of_round_down [simp]: "pte_of m pd (pg_round_down a) = pte_of m pd a"
  using page_indices [of "pg_round_down a" a] by (simp add: pte_of_def split: option.splits)

text \<open>The directory of an address as a program sees it.\<close>

lemma pagedir_get_page_ok:
  assumes "maps_inv m D" "pd \<in> D" "is_user_vaddr a"
  shows "pagedir_get_page pd a m = Some (if mapped m pd a then frame_of m pd a + pg_ofs a else 0)"
proof -
  obtain p where p: "lookup_page pd a False m = Some (p, m)" "pte_of m pd a = (if p = 0 then 0 else load32 (ram m) p)"
    using lookup_page_ok [OF maps_invD(1) [OF assms(1)] assms(2,3)] by blast
  show ?thesis
  proof (cases "mapped m pd a")
    case True
    then show ?thesis using p maps_invD(3) [OF assms(1,2) True] assms(3)
      by (auto simp: pagedir_get_page_def mapped_def split: if_splits)
  next
    case False
    then show ?thesis using p assms(3) by (auto simp: pagedir_get_page_def mapped_def split: if_splits)
  qed
qed

lemma frame_plus_ofs_nonzero: "page_aligned k \<Longrightarrow> is_kernel_vaddr k \<Longrightarrow> k + pg_ofs a \<noteq> 0"
proof -
  assume k: "page_aligned k" "is_kernel_vaddr k"
  have o: "unat (pg_ofs a) < PGSIZE" by (simp add: unat_pg_ofs)
  have "unat (k + pg_ofs a) = unat k + unat (pg_ofs a)"
    using unat_offset [OF fits_page [OF k(1) order_refl] o] by simp
  moreover have "0 < unat k" using k(2) by (auto simp: is_kernel_vaddr_def word_le_nat_alt PHYS_BASE_def)
  ultimately show ?thesis by (auto simp: unat_eq_0)
qed


text \<open>The effect of changing one entry.\<close>

definition page_entry :: "32 word \<Rightarrow> va \<Rightarrow> bool" where
  "page_entry v k \<longleftrightarrow> v AND PTE_P \<noteq> 0 \<and> pte_get_page v = Some k"

lemma maps_inv_change:
  assumes inv: "maps_inv m D" and pd: "pd \<in> D" and inv': "pds_inv m' D" and al: "allocated m \<subseteq> allocated m'"
    and ipd: "init_page_dir m' = init_page_dir m"
    and pools: "\<And>w. pool_pages (the_pool w m') = pool_pages (the_pool w m)"
    and own: "\<And>pd'. pd' \<in> D \<Longrightarrow> owned m' pd' \<subseteq> owned m pd' \<union> pool_pages (kernel_pool m)"
    and pte: "\<And>pd' b. pd' \<in> D \<Longrightarrow> is_user_vaddr b \<Longrightarrow>
      pte_of m' pd' b = (if pd' = pd \<and> pg_round_down b = pg_round_down a then v else pte_of m pd' b)"
    and v: "v AND PTE_P = 0 \<or> (\<exists>k. page_entry v k \<and> k \<in> pool_pages (user_pool m) \<inter> allocated m \<and>
      (\<forall>pd'\<in>D. \<forall>b. mapped m pd' b \<and> frame_of m pd' b = k \<longrightarrow> pd' = pd \<and> pg_round_down b = pg_round_down a))"
  shows "maps_inv m' D"
proof -
  define at where "at pd' b \<longleftrightarrow> pd' = pd \<and> pg_round_down b = pg_round_down a" for pd' b
  have pp: "pool_pages (kernel_pool m') = pool_pages (kernel_pool m)" "pool_pages (user_pool m') = pool_pages (user_pool m)"
    using pools [of False] pools [of True] by (simp_all add: the_pool_def)
  have pr: "mapped m' pd' b \<longleftrightarrow> (if at pd' b then is_user_vaddr b \<and> v AND PTE_P \<noteq> 0 else mapped m pd' b)" if "pd' \<in> D" for pd' b
    using pte [OF that] by (auto simp: mapped_def at_def)
  have fr: "frame_of m' pd' b = (if at pd' b then frame_of m' pd' b else frame_of m pd' b)"
      "\<not> at pd' b \<Longrightarrow> pte_of m' pd' b = pte_of m pd' b" "at pd' b \<Longrightarrow> pte_of m' pd' b = v"
    if "pd' \<in> D" "mapped m' pd' b" for pd' b
    using pte [OF that(1)] that(2) by (auto simp: frame_of_def mapped_def at_def)
  have new: "\<exists>k. page_entry v k \<and> frame_of m' pd' b = k \<and> k \<in> pool_pages (user_pool m) \<inter> allocated m \<and>
      (\<forall>pd'\<in>D. \<forall>b. mapped m pd' b \<and> frame_of m pd' b = k \<longrightarrow> at pd' b)"
    if "pd' \<in> D" "mapped m' pd' b" "at pd' b" for pd' b
    using v pr [OF that(1), of b] fr(3) [OF that] that(2,3) by (auto simp: frame_of_def page_entry_def at_def)
  show ?thesis unfolding maps_inv_def
  proof (intro conjI ballI allI impI)
    show "pds_inv m' D" by (rule inv')
    show "init_page_dir m' \<in> pool_pages (kernel_pool m')" using maps_invD(7) [OF inv] pp ipd by simp
    show "owned m' pd' \<subseteq> pool_pages (kernel_pool m')" if "pd' \<in> D" for pd'
      using own [OF that] maps_invD(2) [OF inv that] pp by blast
    show "pte_get_page (pte_of m' pd' b) = Some (frame_of m' pd' b)" if d: "pd' \<in> D" and p: "mapped m' pd' b" for pd' b
    proof (cases "at pd' b")
      case True
      then show ?thesis using new [OF d p True] fr(3) [OF d p True] by (auto simp: page_entry_def)
    next
      case False
      then show ?thesis using fr [OF d p] pr [OF d] p maps_invD(3) [OF inv d, of b] by simp
    qed
    show "frame_of m' pd' b \<in> pool_pages (user_pool m') \<inter> allocated m'" if d: "pd' \<in> D" and p: "mapped m' pd' b" for pd' b
    proof (cases "at pd' b")
      case True
      then show ?thesis using new [OF d p True] al pp by auto
    next
      case False
      then show ?thesis using fr(1) [OF d p] pr [OF d, of b] p maps_invD(4,5) [OF inv d, of b] al pp by auto
    qed
    fix q r x y
    assume d: "q \<in> D" "r \<in> D" and h: "mapped m' q x \<and> mapped m' r y \<and> frame_of m' q x = frame_of m' r y"
    have old: "at s z" if "s \<in> D" "\<not> at s z" "mapped m' s z" "frame_of m' s z = frame_of m' t w" "t \<in> D" "mapped m' t w" "at t w" for s z t w
      using new [OF that(5,6,7)] fr(1) [OF that(1,3)] pr [OF that(1), of z] that by auto
    show "q = r" "pg_round_down x = pg_round_down y"
    proof -
      consider "at q x" "at r y" | "\<not> at q x" "\<not> at r y"
        using old [OF d(1) _ _ _ d(2)] old [OF d(2) _ _ _ d(1)] h by metis
      then have "q = r \<and> pg_round_down x = pg_round_down y"
      proof cases
        case 1
        then show ?thesis by (simp add: at_def)
      next
        case 2
        then show ?thesis
          using fr(1) [OF d(1), of x] fr(1) [OF d(2), of y] pr [OF d(1), of x] pr [OF d(2), of y] h maps_invD(6) [OF inv d, of x y] by simp
      qed
      then show "q = r" "pg_round_down x = pg_round_down y" by auto
    qed
  qed
qed


lemma pagedir_set_page_ok:
  assumes inv: "maps_inv m D" and pd: "pd \<in> D" and up: "page_aligned upage" "is_user_vaddr upage" "\<not> mapped m pd upage"
    and kp: "kpage \<in> pool_pages (user_pool m)" "kpage \<in> allocated m" "\<And>pd'. pd' \<in> D \<Longrightarrow> kpage \<notin> frames m pd'"
  obtains (none) "pagedir_set_page pd upage kpage w m = Some (False, m)" "pool_pages (kernel_pool m) \<subseteq> allocated m"
  | (some) m' e where "pagedir_set_page pd upage kpage w m = Some (True, m')" "maps_inv m' D" "page_entry e kpage"
    "(e AND PTE_W \<noteq> 0) = w" "e AND PTE_A = 0" "e AND PTE_D = 0" "allocated m \<subseteq> allocated m'"
    "\<And>pd' b. pd' \<in> D \<Longrightarrow> is_user_vaddr b \<Longrightarrow> pte_of m' pd' b = (if pd' = pd \<and> pg_round_down b = upage then e else pte_of m pd' b)"
    "\<And>w. pool_pages (the_pool w m') = pool_pages (the_pool w m)"
    "init_ram_pages m' = init_ram_pages m" "init_page_dir m' = init_page_dir m"
    "\<And>p. page_aligned p \<Longrightarrow> p \<notin> pool_pages (kernel_pool m) \<Longrightarrow> mem_get (ram m') p PGSIZE = mem_get (ram m) p PGSIZE"
proof -
  note pinv = maps_invD(1) [OF inv]
  have kram: "unat (drop_bit 12 (kpage - PHYS_BASE)) < init_ram_pages m" "page_aligned kpage" "is_kernel_vaddr kpage"
    using pool_page_in_ram [OF pds_invD(1) [OF pinv], of kpage True] kp(1) by (simp_all add: the_pool_def)
  have ni: "pd \<noteq> init_page_dir m" using owned_facts(5) [OF pinv pd, of pd] by (simp add: owned_def)
  have pre: "pagedir_set_page pd upage kpage w m = do {
     (pte, m) \<leftarrow> lookup_page pd upage True m;
     if pte \<noteq> 0 then do {
       ASSERT (load32 (ram m) pte AND PTE_P = 0);
       e \<leftarrow> pte_create_user kpage w;
       Some (True, m\<lparr>ram := store32 (ram m) pte e\<rparr>) }
     else Some (False, m) }"
    using up kram ni by (simp add: pagedir_set_page_def vtop_def)
  obtain e where e: "pte_create_user kpage w = Some e" "e AND PTE_P \<noteq> 0" "pte_get_page e = Some kpage"
    "(e AND PTE_W \<noteq> 0) = w" "e AND PTE_A = 0" "e AND PTE_D = 0" using pte_create_user_ok [OF kram(2,3)] by metis
  show thesis
  proof (rule lookup_create [OF pinv pd up(2)])
    assume "lookup_page pd upage True m = Some (0, m)" "pool_pages (kernel_pool m) \<subseteq> allocated m"
    then show thesis using none by (simp add: pre)
  next
    fix pt m1
    assume l: "lookup_page pd upage True m = Some (entry pt (pt_no upage), m1)" "pds_inv m1 D"
      and pt: "pde_of m1 pd (pd_no upage) \<noteq> 0" "pde_get_pt (pde_of m1 pd (pd_no upage)) = Some pt"
      and same: "\<And>b. is_user_vaddr b \<Longrightarrow> pte_of m1 pd b = pte_of m pd b"
      "\<And>pd' b. pd' \<in> D \<Longrightarrow> pd' \<noteq> pd \<Longrightarrow> is_user_vaddr b \<Longrightarrow> pte_of m1 pd' b = pte_of m pd' b"
      and al: "allocated m \<subseteq> allocated m1" and c: "init_ram_pages m1 = init_ram_pages m" "init_page_dir m1 = init_page_dir m"
      and w: "\<And>w. pool_pages (the_pool w m1) = pool_pages (the_pool w m)"
      and own: "\<And>pd'. pd' \<in> D \<Longrightarrow> owned m1 pd' \<subseteq> owned m pd' \<union> pool_pages (kernel_pool m)"
      and mem: "\<And>p. page_aligned p \<Longrightarrow> p \<notin> pool_pages (kernel_pool m) \<Longrightarrow> p \<noteq> pd \<Longrightarrow>
        mem_get (ram m1) p PGSIZE = mem_get (ram m) p PGSIZE"
    have pto: "pt \<in> owned m1 pd" using pt up(2) by (auto simp: owned_def page_tables_def pd_no_user)
    note ptf = owned_facts [OF l(2) pd pto]
    define m2 where "m2 = m1\<lparr>ram := store32 (ram m1) (entry pt (pt_no upage)) e\<rparr>"
    note st = store_pte [OF l(2) pd up(2) pt m2_def]
    have "load32 (ram m1) (entry pt (pt_no upage)) = pte_of m pd upage"
      using same(1) [OF up(2)] pt by (simp add: pte_of_def)
    then have "load32 (ram m1) (entry pt (pt_no upage)) AND PTE_P = 0" using up by (simp add: mapped_def)
    then have set: "pagedir_set_page pd upage kpage w m = Some (True, m2)"
      using l(1) e(1) entry_nonzero [OF ptf(2,3) pt_no_less, of upage] by (simp add: pre m2_def)
    have pte: "pte_of m2 pd' b = (if pd' = pd \<and> pg_round_down b = pg_round_down upage then e else pte_of m pd' b)"
      if "pd' \<in> D" "is_user_vaddr b" for pd' b
      using st(3) [OF that(2)] st(4) [OF that(1) _ that(2)] same that by (cases "pd' = pd") auto
    have "maps_inv m2 D"
    proof (rule maps_inv_change [OF inv pd st(1) _ _ _ _ pte])
      show "e AND PTE_P = 0 \<or> (\<exists>k. page_entry e k \<and> k \<in> pool_pages (user_pool m) \<inter> allocated m \<and>
        (\<forall>pd'\<in>D. \<forall>b. mapped m pd' b \<and> frame_of m pd' b = k \<longrightarrow> pd' = pd \<and> pg_round_down b = pg_round_down upage))"
        using e(2,3) kp by (auto simp: page_entry_def frames_def)
      show "owned m2 pd' \<subseteq> owned m pd' \<union> pool_pages (kernel_pool m)" if "pd' \<in> D" for pd'
        using st(2) [OF that] own [OF that] by simp
    qed (use al w c in \<open>simp_all add: m2_def\<close>)
    moreover have "mem_get (ram m2) p PGSIZE = mem_get (ram m) p PGSIZE"
      if p: "page_aligned p" "p \<notin> pool_pages (kernel_pool m)" for p
    proof -
      have "p \<noteq> pt" "p \<noteq> pd" using p(2) pto own [OF pd] maps_invD(2) [OF inv pd] by (auto simp: owned_def)
      then show ?thesis using get_store_page [OF p(1) order_refl ptf(2) _ pt_no_less] mem [OF p] by (simp add: m2_def)
    qed
    ultimately show thesis using some [OF set, of e] e al w pte c up(1) by (simp add: page_entry_def m2_def)
  qed
qed

lemma invalidate_pagedir_ok [simp]:
  assumes "cr3 m < PHYS_BASE" "is_kernel_vaddr pd" "pd \<noteq> 0"
  shows "invalidate_pagedir pd m = Some m"
  using assms by (auto simp: invalidate_pagedir_def active_pd_def ptov_def pagedir_activate_def vtop_def)

text \<open>Every operation that changes flags of an entry has this form.\<close>

lemma change_entry_ok:
  assumes inv: "maps_inv m D" and pd: "pd \<in> D" and a: "is_user_vaddr a"
    and p: "lookup_page pd a False m = Some (p, m)" "p \<noteq> 0"
    and v: "v AND PTE_P = 0 \<or> v AND PTE_ADDR = pte_of m pd a AND PTE_ADDR \<and> mapped m pd a"
    and m': "m' = m\<lparr>ram := store32 (ram m) p v\<rparr>"
  shows "maps_inv m' D" "invalidate_pagedir pd m' = Some m'"
    "\<And>pd' b. pd' \<in> D \<Longrightarrow> is_user_vaddr b \<Longrightarrow>
      pte_of m' pd' b = (if pd' = pd \<and> pg_round_down b = pg_round_down a then v else pte_of m pd' b)"
    "\<And>p. page_aligned p \<Longrightarrow> p \<notin> pool_pages (kernel_pool m) \<Longrightarrow> mem_get (ram m') p PGSIZE = mem_get (ram m) p PGSIZE"
proof -
  note pinv = maps_invD(1) [OF inv]
  have l: "pde_of m pd (pd_no a) \<noteq> 0" "\<exists>pt. pde_get_pt (pde_of m pd (pd_no a)) = Some pt \<and> pt \<in> page_tables m pd \<and> p = entry pt (pt_no a)"
    using lookup_page_ok [OF pinv pd a] p by auto
  then obtain pt where pt: "pde_get_pt (pde_of m pd (pd_no a)) = Some pt" "p = entry pt (pt_no a)" and tab: "pt \<in> page_tables m pd"
    by blast
  then have own: "pt \<in> owned m pd" by (simp add: owned_def)
  show "mem_get (ram m') x PGSIZE = mem_get (ram m) x PGSIZE"
    if x: "page_aligned x" "x \<notin> pool_pages (kernel_pool m)" for x
  proof -
    have "x \<noteq> pt" using x(2) own maps_invD(2) [OF inv pd] by blast
    then show ?thesis
      using get_store_page [OF x(1) order_refl owned_facts(2) [OF pinv pd own] _ pt_no_less] by (simp add: m' pt(2))
  qed
  note st = store_pte [OF pinv pd a l(1) pt(1) m' [unfolded pt(2)]]
  show pte: "pte_of m' pd' b = (if pd' = pd \<and> pg_round_down b = pg_round_down a then v else pte_of m pd' b)"
    if "pd' \<in> D" "is_user_vaddr b" for pd' b
    using st(3) [OF that(2)] st(4) [OF that(1) _ that(2)] by (cases "pd' = pd") auto
  show "maps_inv m' D"
  proof (rule maps_inv_change [OF inv pd st(1) _ _ _ _ pte])
    show "v AND PTE_P = 0 \<or> (\<exists>k. page_entry v k \<and> k \<in> pool_pages (user_pool m) \<inter> allocated m \<and>
      (\<forall>pd'\<in>D. \<forall>b. mapped m pd' b \<and> frame_of m pd' b = k \<longrightarrow> pd' = pd \<and> pg_round_down b = pg_round_down a))"
    proof (cases "v AND PTE_P = 0")
      case False
      then have h: "v AND PTE_ADDR = pte_of m pd a AND PTE_ADDR" "mapped m pd a" using v by auto
      have "page_entry v (frame_of m pd a)"
        using maps_invD(3) [OF inv pd h(2)] False h(1) by (simp add: page_entry_def pte_get_page_def)
      then show ?thesis using maps_invD(4,5) [OF inv pd h(2)] maps_invD(6) [OF inv _ pd _ h(2)] by blast
    qed simp
  qed (use st(2) m' in auto)
  show "invalidate_pagedir pd m' = Some m'"
    using pds_invD(3) [OF pinv] owned_facts [OF pinv pd, of pd] m' by (simp add: owned_def)
qed


lemma clear_flag: "e AND PTE_P = 0 \<Longrightarrow> e AND NOT PTE_P = e"
proof (rule bit_word_eqI)
  fix n assume "e AND PTE_P = 0"
  then have "\<not> bit e 0" using flag_test(1) [of e] by simp
  then show "bit (e AND NOT PTE_P) n = bit e n" if "n < LENGTH(32)"
    using that by (auto simp: bit_simps flag_bits) (metis gr0I)
qed

lemma cleared_flag: "(e AND NOT PTE_P) AND PTE_P = 0"
  using flag_test(1) [of "e AND NOT PTE_P"] by (simp add: bit_simps flag_bits)

lemma pagedir_clear_page_ok:
  assumes inv: "maps_inv m D" and pd: "pd \<in> D" and up: "page_aligned upage" "is_user_vaddr upage"
  shows "\<exists>m'. pagedir_clear_page pd upage m = Some m' \<and> maps_inv m' D \<and> allocated m' = allocated m \<and>
    (\<forall>pd'\<in>D. \<forall>b. is_user_vaddr b \<longrightarrow> pte_of m' pd' b =
      (if pd' = pd \<and> pg_round_down b = upage then pte_of m pd upage AND NOT PTE_P else pte_of m pd' b)) \<and>
    (\<forall>p. page_aligned p \<and> p \<notin> pool_pages (kernel_pool m) \<longrightarrow> mem_get (ram m') p PGSIZE = mem_get (ram m) p PGSIZE) \<and>
    (\<exists>r. m' = m\<lparr>ram := r\<rparr>)"
proof -
  obtain p where p: "lookup_page pd upage False m = Some (p, m)" "pte_of m pd upage = (if p = 0 then 0 else load32 (ram m) p)"
    using lookup_page_ok [OF maps_invD(1) [OF inv] pd up(2)] by blast
  show ?thesis
  proof (cases "p \<noteq> 0 \<and> load32 (ram m) p AND PTE_P \<noteq> 0")
    case True
    define m' where "m' = m\<lparr>ram := store32 (ram m) p (pte_of m pd upage AND NOT PTE_P)\<rparr>"
    note ch = change_entry_ok [OF inv pd up(2) p(1) _ disjI1 [OF cleared_flag] m'_def]
    have "pagedir_clear_page pd upage m = Some m'"
      using True p up ch(2) by (simp add: pagedir_clear_page_def m'_def)
    then show ?thesis using True ch up(1) by (intro exI [of _ m']) (auto simp: m'_def)
  next
    case False
    have e: "pte_of m pd upage AND PTE_P = 0" using p(2) False by (auto split: if_splits)
    have "pte_of m pd b = pte_of m pd upage" if "pg_round_down b = upage" for b
      using pte_of_round_down [of m pd b] that by simp
    moreover have "pagedir_clear_page pd upage m = Some m" using False p up by (auto simp: pagedir_clear_page_def)
    moreover have "\<exists>r. m = m\<lparr>ram := r\<rparr>" by (rule exI [of _ "ram m"]) simp
    ultimately show ?thesis using inv clear_flag [OF e] by (intro exI [of _ m]) auto
  qed
qed

end
