(* ===== verification/Kernel_Paging.thy ===== *)
theory Kernel_Paging
  imports Page_Directory
begin

text \<open>
  The kernel's own page directory (\<^verbatim>\<open>paging_init\<close> of \<^verbatim>\<open>threads/init.c\<close>): the loop
  that maps all of RAM, and the state it leaves.
\<close>

section \<open>Operations\<close>

text \<open>
  The linker's symbols for the kernel's code are the arguments \<open>text\<close> and \<open>text_end\<close>. The
  state of the loop is the machine and the local variable \<open>pt\<close>.
\<close>

definition paging_step :: "va \<Rightarrow> va \<Rightarrow> va \<Rightarrow> machine \<times> va \<Rightarrow> nat \<Rightarrow> (machine \<times> va) option" where
  "paging_step text text_end pd s page = (case s of (m, pt) \<Rightarrow> do {
     vaddr \<leftarrow> ptov (of_nat (page * PGSIZE));
     let pde_idx = pd_no vaddr;
     let pte_idx = pt_no vaddr;
     let in_kernel_text = (text \<le> vaddr \<and> vaddr < text_end);
     (m, pt) \<leftarrow> (if load32 (ram m) (entry pd pde_idx) = 0
        then do {
          (pt, m) \<leftarrow> palloc_get_page (PAL_ASSERT OR PAL_ZERO) m;
          e \<leftarrow> pde_create pt;
          Some (m\<lparr>ram := store32 (ram m) (entry pd pde_idx) e\<rparr>, pt) }
        else Some (m, pt));
     ASSERT (pt \<noteq> 0);
     e \<leftarrow> pte_create_kernel vaddr (\<not> in_kernel_text);
     Some (m\<lparr>ram := store32 (ram m) (entry pt pte_idx) e\<rparr>, pt) })"

definition paging_init :: "va \<Rightarrow> va \<Rightarrow> machine \<Rightarrow> machine option" where
  "paging_init text text_end m = do {
     (pd, m) \<leftarrow> palloc_get_page (PAL_ASSERT OR PAL_ZERO) m;
     let m = m\<lparr>init_page_dir := pd\<rparr>;
     (m, pt) \<leftarrow> foldM (paging_step text text_end pd) (m, 0) [0..<init_ram_pages m];
     p \<leftarrow> vtop (init_page_dir m);
     Some (m\<lparr>cr3 := p\<rparr>) }"

section \<open>The kernel's mapping\<close>

definition kernel_page :: "nat \<Rightarrow> va" where
  "kernel_page j = PHYS_BASE + of_nat (j * PGSIZE)"

lemma unat_kernel_page: "j < 2 ^ 18 \<Longrightarrow> unat (kernel_page j) = unat PHYS_BASE + j * PGSIZE"
  unfolding kernel_page_def by (rule unat_offset [where n = "2 ^ 30"]) (simp_all add: fits_def PHYS_BASE_def)

lemma kernel_page_facts:
  assumes "j < 2 ^ 18"
  shows "page_aligned (kernel_page j)" "is_kernel_vaddr (kernel_page j)" "unat (pd_no (kernel_page j)) = 768 + j div 1024"
    "unat (pt_no (kernel_page j)) = j mod 1024" "ptov (of_nat (j * PGSIZE)) = Some (kernel_page j)"
proof -
  note u = unat_kernel_page [OF assms]
  show "page_aligned (kernel_page j)" unfolding page_aligned_iff u by (simp add: PHYS_BASE_def)
  show "is_kernel_vaddr (kernel_page j)" unfolding is_kernel_vaddr_def word_le_nat_alt u by simp
  show "unat (pd_no (kernel_page j)) = 768 + j div 1024"
  proof -
    have "unat PHYS_BASE + j * PGSIZE = PGSIZE * (786432 + j)" by (simp add: PHYS_BASE_def)
    then have "(unat PHYS_BASE + j * PGSIZE) div 2 ^ 22 = (786432 + j) div 1024"
      using div_mult_mult1 [of PGSIZE "786432 + j" 1024] by simp
    then show ?thesis unfolding unat_pd_no u by simp
  qed
  show "unat (pt_no (kernel_page j)) = j mod 1024"
  proof -
    have "(unat PHYS_BASE + j * PGSIZE) div PGSIZE = 786432 + j" by (simp add: PHYS_BASE_def)
    moreover have "(786432 + j) mod 1024 = j mod 1024" using mod_mult_self3 [of 768 1024 j] by simp
    ultimately show ?thesis unfolding unat_pt_no u by (simp only:)
  qed
  have "unat (of_nat (j * PGSIZE) :: 32 word) = j * PGSIZE" using assms by (simp add: unat_of_nat del: of_nat_mult)
  then have "(of_nat (j * PGSIZE) :: 32 word) < PHYS_BASE"
    using assms by (simp add: word_less_nat_alt PHYS_BASE_def del: of_nat_mult)
  then show "ptov (of_nat (j * PGSIZE)) = Some (kernel_page j)" by (simp add: ptov_def kernel_page_def add.commute)
qed

lemma palloc_get_assert:
  assumes "palloc_inv m" "\<not> pool_pages (kernel_pool m) \<subseteq> allocated m"
  obtains p m' where "palloc_get_page (PAL_ASSERT OR PAL_ZERO) m = Some (p, m')" "p \<noteq> 0" "palloc_inv m'"
    "p \<in> pool_pages (kernel_pool m)" "p \<notin> allocated m" "allocated m' = insert p (allocated m)"
    "\<And>w. pool_pages (the_pool w m') = pool_pages (the_pool w m)"
    "ram m' = mem_put (ram m) p (replicate PGSIZE 0)"
    "init_ram_pages m' = init_ram_pages m" "init_page_dir m' = init_page_dir m" "cr3 m' = cr3 m"
proof -
  have flags: "PAL_ZERO AND PAL_ASSERT = 0" "False = (PAL_ZERO AND PAL_USER \<noteq> 0)" "PAL_ZERO AND PAL_ZERO \<noteq> 0"
    "(PAL_ASSERT OR PAL_ZERO) AND PAL_USER = 0" "(PAL_ASSERT OR PAL_ZERO) AND PAL_ZERO \<noteq> 0"
    by (simp_all add: PAL_ZERO_def PAL_ASSERT_def PAL_USER_def)
  have eq: "palloc_get_page (PAL_ASSERT OR PAL_ZERO) m = Some (p, m')"
    if "palloc_get_page PAL_ZERO m = Some (p, m')" "p \<noteq> 0" for p m'
    using that flags by (auto simp: palloc_get_page_def palloc_get_multiple_def Let_def option_bind_Some split: if_splits)
  show thesis
  proof (rule palloc_get_page_ok [OF assms(1) flags(1,2)])
    assume "pool_pages (the_pool False m) \<subseteq> allocated m"
    then show thesis using assms(2) by (simp add: the_pool_def)
  qed (use eq that flags in \<open>auto simp: the_pool_def\<close>)
qed


text \<open>
  The state after the first \<open>k\<close> pages: \<open>ts\<close> are the tables created so far, in the order of their
  directory entries, and nothing else is in use.
\<close>

definition kernel_entry :: "va \<Rightarrow> va \<Rightarrow> nat \<Rightarrow> 32 word \<Rightarrow> bool" where
  "kernel_entry text text_end j e \<longleftrightarrow>
     pte_create_kernel (kernel_page j) (\<not> (text \<le> kernel_page j \<and> kernel_page j < text_end)) = Some e"

definition paging_inv :: "va \<Rightarrow> va \<Rightarrow> va \<Rightarrow> nat \<Rightarrow> va list \<Rightarrow> machine \<Rightarrow> va \<Rightarrow> bool" where
  "paging_inv text text_end pd k ts m pt \<longleftrightarrow>
     palloc_inv m \<and> allocated m = insert pd (set ts) \<and> insert pd (set ts) \<subseteq> pool_pages (kernel_pool m) \<and>
     distinct (pd # ts) \<and> k \<le> 1024 * length ts \<and>
     (\<forall>i. unat i < 1024 \<longrightarrow> (if 768 \<le> unat i \<and> unat i < 768 + length ts
        then pde_of m pd i \<noteq> 0 \<and> pde_get_pt (pde_of m pd i) = Some (ts ! (unat i - 768)) else pde_of m pd i = 0)) \<and>
     (\<forall>j<k. kernel_entry text text_end j (load32 (ram m) (entry (ts ! (j div 1024)) (pt_no (kernel_page j))))) \<and>
     (ts \<noteq> [] \<longrightarrow> pt = last ts)"

lemma paging_tables:
  assumes "k mod 1024 = 0"
  shows "DIV_ROUND_UP k 1024 = k div 1024" "DIV_ROUND_UP (Suc k) 1024 = Suc (k div 1024)"
proof -
  obtain q where "k = 1024 * q" using assms by auto
  then show "DIV_ROUND_UP k 1024 = k div 1024" "DIV_ROUND_UP (Suc k) 1024 = Suc (k div 1024)"
    by (simp_all add: DIV_ROUND_UP_def)
qed

lemma paging_tables_inside:
  assumes "k mod 1024 \<noteq> 0"
  shows "DIV_ROUND_UP k 1024 = Suc (k div 1024)" "DIV_ROUND_UP (Suc k) 1024 = Suc (k div 1024)"
proof -
  obtain q r where k: "k = 1024 * q + r" "r < 1024" "r \<noteq> 0"
    using assms by (metis mult_div_mod_eq mod_less_divisor zero_less_numeral)
  have "(1024 * q + r + 1023) div 1024 = Suc q" "(1024 * q + r) div 1024 = q" "(1024 * q + r + 1024) div 1024 = Suc q"
    using k(2,3) by auto
  then show "DIV_ROUND_UP k 1024 = Suc (k div 1024)" "DIV_ROUND_UP (Suc k) 1024 = Suc (k div 1024)"
    by (simp_all add: DIV_ROUND_UP_def k(1))
qed


lemma paging_invD:
  assumes "paging_inv text text_end pd k ts m pt"
  shows "palloc_inv m" "allocated m = insert pd (set ts)" "distinct (pd # ts)" "k \<le> 1024 * length ts"
    "unat i < 1024 \<Longrightarrow> 768 \<le> unat i \<Longrightarrow> unat i < 768 + length ts \<Longrightarrow>
       pde_of m pd i \<noteq> 0 \<and> pde_get_pt (pde_of m pd i) = Some (ts ! (unat i - 768))"
    "unat i < 1024 \<Longrightarrow> unat i < 768 \<or> 768 + length ts \<le> unat i \<Longrightarrow> pde_of m pd i = 0"
    "j < k \<Longrightarrow> kernel_entry text text_end j (load32 (ram m) (entry (ts ! (j div 1024)) (pt_no (kernel_page j))))"
    "ts \<noteq> [] \<Longrightarrow> pt = last ts" "insert pd (set ts) \<subseteq> pool_pages (kernel_pool m)"
proof -
  show "pde_of m pd i = 0" if "unat i < 1024" "unat i < 768 \<or> 768 + length ts \<le> unat i"
  proof -
    have "\<not> (768 \<le> unat i \<and> unat i < 768 + length ts)" using that(2) by auto
    then show ?thesis using assms that(1) unfolding paging_inv_def by metis
  qed
qed (use assms in \<open>simp_all add: paging_inv_def\<close>)

lemma paging_aligned:
  assumes "paging_inv text text_end pd k ts m pt" "t \<in> insert pd (set ts)"
  shows "page_aligned t" "is_kernel_vaddr t" "t \<noteq> 0"
  using allocated_facts [OF paging_invD(1) [OF assms(1)], of t] paging_invD(2) [OF assms(1)] assms(2) by auto

text \<open>Storing the entry of the next page in the last table.\<close>

lemma paging_store:
  assumes inv: "paging_inv text text_end pd k ts m pt" and k: "k < 2 ^ 18" "length ts = Suc (k div 1024)"
    and e: "kernel_entry text text_end k e"
  shows "paging_inv text text_end pd (Suc k) ts (m\<lparr>ram := store32 (ram m) (entry pt (pt_no (kernel_page k))) e\<rparr>) pt"
proof -
  let ?m = "m\<lparr>ram := store32 (ram m) (entry pt (pt_no (kernel_page k))) e\<rparr>"
  have nz: "ts \<noteq> []" using k(2) by auto
  have pt: "pt = ts ! (k div 1024)" "pt \<in> set ts"
    using paging_invD(8) [OF inv nz] last_conv_nth [OF nz] k(2) nz by simp_all
  have ne: "pt \<noteq> pd" using paging_invD(3) [OF inv] pt(2) by auto
  have pa: "page_aligned pt" "page_aligned pd" using paging_aligned [OF inv] pt(2) by auto
  have pde: "pde_of ?m pd i = pde_of m pd i" if "unat i < 1024" for i
    using load_store_entry [OF pa(1) pt_no_less pa(2) that] ne by (simp add: pde_of_def)
  have new: "kernel_entry text text_end j (load32 (ram ?m) (entry (ts ! (j div 1024)) (pt_no (kernel_page j))))"
    if "j < Suc k" for j
  proof -
    have jl: "j div 1024 < length ts" using that k(2) div_le_mono [of j k 1024] by simp
    have ta: "page_aligned (ts ! (j div 1024))" using paging_aligned(1) [OF inv] jl by simp
    have j18: "j < 2 ^ 18" using that k(1) by simp
    show ?thesis
    proof (cases "j = k")
      case True
      then show ?thesis using e pt(1) load_store_entry [OF pa(1) pt_no_less pa(1) pt_no_less] by simp
    next
      case False
      have "\<not> (pt = ts ! (j div 1024) \<and> pt_no (kernel_page k) = pt_no (kernel_page j))"
      proof
        assume h: "pt = ts ! (j div 1024) \<and> pt_no (kernel_page k) = pt_no (kernel_page j)"
        then have "k div 1024 = j div 1024"
          using pt(1) jl k(2) paging_invD(3) [OF inv] by (simp add: nth_eq_iff_index_eq)
        moreover have "k mod 1024 = j mod 1024"
          using h kernel_page_facts(4) [OF k(1)] kernel_page_facts(4) [OF j18] by simp
        ultimately show False using False by (metis div_mult_mod_eq)
      qed
      then show ?thesis using load_store_entry [OF pa(1) pt_no_less ta pt_no_less] paging_invD(7) [OF inv, of j] that False
        by auto
    qed
  qed
  have "Suc k \<le> 1024 * length ts"
  proof -
    have "k < 1024 * Suc (k div 1024)" using div_mult_mod_eq [of k 1024] mod_less_divisor [of 1024 k] by simp
    then show ?thesis using k(2) by simp
  qed
  then show ?thesis unfolding paging_inv_def using inv pde new by (simp add: paging_inv_def)
qed

text \<open>Adding a table.\<close>

lemma paging_grow:
  assumes inv: "paging_inv text text_end pd k ts m pt" and len: "length ts < 256"
    and t: "t \<notin> allocated m" "t \<in> pool_pages (kernel_pool m)" "palloc_inv m1" "allocated m1 = insert t (allocated m)"
      "ram m1 = mem_put (ram m) t (replicate PGSIZE 0)" "pool_pages (kernel_pool m1) = pool_pages (kernel_pool m)"
    and e: "pde_get_pt e = Some t" "e \<noteq> 0" and i: "unat i = 768 + length ts"
  shows "paging_inv text text_end pd k (ts @ [t]) (m1\<lparr>ram := store32 (ram m1) (entry pd i) e\<rparr>) t"
proof -
  let ?m = "m1\<lparr>ram := store32 (ram m1) (entry pd i) e\<rparr>"
  have ta: "page_aligned t" using pool_page_in_ram(2) [OF paging_invD(1) [OF inv], of t False] t(2) by (simp add: the_pool_def)
  have pa: "page_aligned pd" using paging_aligned [OF inv] by simp
  have ne: "t \<noteq> pd" "t \<notin> set ts" using t(1) paging_invD(2) [OF inv] by auto
  have i1: "unat i < 1024" using i len by simp
  have load: "load32 (ram ?m) (entry p j) = (if p = pd \<and> j = i then e else load32 (ram m) (entry p j))"
    if "page_aligned p" "unat j < 1024" "p \<noteq> t" for p j
    using load_store_entry [OF pa i1 that(1,2)] load_put_page [OF ta _ that(1) _ that(2)] that(3) by (auto simp: t(5))
  have pde: "pde_of ?m pd j = (if j = i then e else pde_of m pd j)" if "unat j < 1024" for j
    using load [OF pa that] ne by (simp add: pde_of_def)
  have dir: "if 768 \<le> unat j \<and> unat j < 768 + length (ts @ [t])
        then pde_of ?m pd j \<noteq> 0 \<and> pde_get_pt (pde_of ?m pd j) = Some ((ts @ [t]) ! (unat j - 768)) else pde_of ?m pd j = 0"
    if j: "unat j < 1024" for j
  proof (cases "j = i")
    case True
    then show ?thesis using e i pde [OF j] by simp
  next
    case False
    then have "unat j \<noteq> unat i" by (simp add: word_unat_eq_iff)
    then show ?thesis using False paging_invD(5,6) [OF inv j] pde [OF j] i by (auto simp: nth_append)
  qed
  have old: "kernel_entry text text_end j (load32 (ram ?m) (entry ((ts @ [t]) ! (j div 1024)) (pt_no (kernel_page j))))"
    if "j < k" for j
  proof -
    have jl: "j div 1024 < length ts" using that paging_invD(4) [OF inv] by (simp add: div_less_iff_less_mult)
    have "ts ! (j div 1024) \<noteq> t" "ts ! (j div 1024) \<noteq> pd" using ne(2) jl paging_invD(3) [OF inv] nth_mem by fastforce+
    then show ?thesis using load [OF paging_aligned(1) [OF inv] pt_no_less] paging_invD(7) [OF inv that] jl by (simp add: nth_append)
  qed
  show ?thesis unfolding paging_inv_def
    using t(2-4,6) paging_invD(2-4,9) [OF inv] ne dir old by (auto simp: insert_commute)
qed


definition same_machine :: "machine \<Rightarrow> machine \<Rightarrow> bool" where
  "same_machine m m' \<longleftrightarrow> init_ram_pages m' = init_ram_pages m \<and> init_page_dir m' = init_page_dir m \<and> cr3 m' = cr3 m \<and>
     (\<forall>w. pool_pages (the_pool w m') = pool_pages (the_pool w m))"

lemma paging_step_ok:
  assumes inv: "paging_inv text text_end pd k ts m pt" and k: "k < 2 ^ 18" and len: "length ts = DIV_ROUND_UP k 1024"
    and room: "DIV_ROUND_UP (Suc k) 1024 < card (pool_pages (kernel_pool m))"
  shows "\<exists>m' pt' ts'. paging_step text text_end pd (m, pt) k = Some (m', pt') \<and>
    paging_inv text text_end pd (Suc k) ts' m' pt' \<and> length ts' = DIV_ROUND_UP (Suc k) 1024 \<and> same_machine m m'"
proof -
  note kp = kernel_page_facts [OF k]
  have pi: "unat (pd_no (kernel_page k)) < 1024" by (rule pd_no_less)
  obtain e where e: "kernel_entry text text_end k e"
    using kp(1,2) by (auto simp: kernel_entry_def pte_create_kernel_def vtop_def)
  show ?thesis
  proof (cases "k mod 1024 = 0")
    case True
    note n = paging_tables [OF True]
    have zero: "pde_of m pd (pd_no (kernel_page k)) = 0" using paging_invD(6) [OF inv pi] kp(3) len n by simp
    have "\<not> pool_pages (kernel_pool m) \<subseteq> allocated m"
    proof
      assume "pool_pages (kernel_pool m) \<subseteq> allocated m"
      then have "card (pool_pages (kernel_pool m)) \<le> card (set (pd # ts))"
        using paging_invD(2) [OF inv] by (intro card_mono) auto
      also have "\<dots> \<le> length (pd # ts)" by (rule card_length)
      finally show False using room len n by simp
    qed
    from palloc_get_assert [OF paging_invD(1) [OF inv] this] obtain t m1 where
      t: "palloc_get_page (PAL_ASSERT OR PAL_ZERO) m = Some (t, m1)" "t \<noteq> 0" "palloc_inv m1"
      "t \<in> pool_pages (kernel_pool m)" "t \<notin> allocated m" "allocated m1 = insert t (allocated m)"
      and w: "\<forall>w. pool_pages (the_pool w m1) = pool_pages (the_pool w m)"
      and r: "ram m1 = mem_put (ram m) t (replicate PGSIZE 0)"
      "init_ram_pages m1 = init_ram_pages m" "init_page_dir m1 = init_page_dir m" "cr3 m1 = cr3 m" by metis
    have tf: "page_aligned t" "is_kernel_vaddr t"
      using pool_page_in_ram [OF paging_invD(1) [OF inv], of t False] t(4) by (simp_all add: the_pool_def)
    obtain d where d: "pde_create t = Some d" "d \<noteq> 0" "pde_get_pt d = Some t" using pde_create_ok [OF tf] by blast
    define m2 where "m2 = m1\<lparr>ram := store32 (ram m1) (entry pd (pd_no (kernel_page k))) d\<rparr>"
    have kw: "pool_pages (kernel_pool m1) = pool_pages (kernel_pool m)" using w [rule_format, of False] by (simp add: the_pool_def)
    have "length ts < 256" using len n k div_less_iff_less_mult [of 1024 k 256] by simp
    then have g: "paging_inv text text_end pd k (ts @ [t]) m2 t"
      unfolding m2_def using paging_grow [OF inv _ t(5,4,3,6) r(1) kw d(3,2)] kp(3) len n by simp
    define m3 where "m3 = m2\<lparr>ram := store32 (ram m2) (entry t (pt_no (kernel_page k))) e\<rparr>"
    have "paging_inv text text_end pd (Suc k) (ts @ [t]) m3 t"
      unfolding m3_def using paging_store [OF g k _ e] len n by simp
    moreover have "paging_step text text_end pd (m, pt) k = Some (m3, t)"
      using zero kp(5) t(1,2) d(1) e by (simp add: paging_step_def Let_def pde_of_def kernel_entry_def m2_def m3_def del: of_nat_mult)
    moreover have "same_machine m m3" using r w by (simp add: same_machine_def m2_def m3_def)
    ultimately show ?thesis using len n by (intro exI [of _ m3] exI [of _ t] exI [of _ "ts @ [t]"]) simp
  next
    case False
    note n = paging_tables_inside [OF False]
    have nz: "pde_of m pd (pd_no (kernel_page k)) \<noteq> 0" using paging_invD(5) [OF inv pi] kp(3) len n by simp
    have "ts \<noteq> []" using len n by auto
    then have ptz: "pt \<noteq> 0" using paging_aligned(3) [OF inv, of pt] paging_invD(8) [OF inv] by auto
    define m3 where "m3 = m\<lparr>ram := store32 (ram m) (entry pt (pt_no (kernel_page k))) e\<rparr>"
    have "paging_inv text text_end pd (Suc k) ts m3 pt"
      unfolding m3_def using paging_store [OF inv k _ e] len n by simp
    moreover have "paging_step text text_end pd (m, pt) k = Some (m3, pt)"
      using nz kp(5) ptz e by (simp add: paging_step_def Let_def pde_of_def kernel_entry_def m3_def del: of_nat_mult)
    moreover have "same_machine m m3" by (simp add: same_machine_def m3_def)
    ultimately show ?thesis using len n by (intro exI [of _ m3] exI [of _ pt] exI [of _ ts]) simp
  qed
qed

lemma paging_loop_ok:
  assumes "paging_inv text text_end pd 0 [] m 0" "n < 2 ^ 18" "DIV_ROUND_UP n 1024 < card (pool_pages (kernel_pool m))" "k \<le> n"
  shows "\<exists>m' pt' ts'. foldM (paging_step text text_end pd) (m, 0) [0..<k] = Some (m', pt') \<and>
    paging_inv text text_end pd k ts' m' pt' \<and> length ts' = DIV_ROUND_UP k 1024 \<and> same_machine m m'"
  using assms(4)
proof (induction k)
  case 0
  then show ?case using assms(1) by (auto simp: same_machine_def)
next
  case (Suc k)
  then obtain m' pt' ts' where IH: "foldM (paging_step text text_end pd) (m, 0) [0..<k] = Some (m', pt')"
    "paging_inv text text_end pd k ts' m' pt'" "length ts' = DIV_ROUND_UP k 1024" "same_machine m m'" by auto
  have pools: "pool_pages (kernel_pool m') = pool_pages (kernel_pool m)"
    using IH(4) by (auto simp: same_machine_def the_pool_def split: if_splits)
  have "DIV_ROUND_UP (Suc k) 1024 \<le> DIV_ROUND_UP n 1024" using Suc(2) by (intro DIV_ROUND_UP_mono) simp
  then have "DIV_ROUND_UP (Suc k) 1024 < card (pool_pages (kernel_pool m'))" using assms(3) pools by simp
  from paging_step_ok [OF IH(2) _ IH(3) this] Suc(2) assms(2) show ?case
    using IH(1,4) by (auto simp: foldM_append same_machine_def)
qed


lemma kernel_entry_facts:
  assumes "kernel_entry text text_end j e" "j < 2 ^ 18"
  shows "page_entry e (kernel_page j)" "e AND PTE_W \<noteq> 0 \<longleftrightarrow> \<not> (text \<le> kernel_page j \<and> kernel_page j < text_end)"
    "e AND PTE_U = 0"
proof -
  note kp = kernel_page_facts [OF assms(2)]
  let ?w = "\<not> (text \<le> kernel_page j \<and> kernel_page j < text_end)"
  obtain p where p: "vtop (kernel_page j) = Some p" "p = kernel_page j - PHYS_BASE" using kp(2) by (auto simp: vtop_def)
  have e: "e = p OR PTE_P OR (if ?w then PTE_W else 0)"
    using assms(1) p kp(1) unfolding kernel_entry_def pte_create_kernel_def by simp
  have al: "page_aligned p" using page_aligned_vtop kp(1) p by simp
  then have "e AND PTE_ADDR = p"
    unfolding e by (rule addr_of_entry) (auto simp: flag_bits bit_simps split: if_splits)
  moreover have f: "e AND PTE_P \<noteq> 0" "e AND PTE_W \<noteq> 0 \<longleftrightarrow> ?w" "\<not> e AND PTE_U \<noteq> 0"
    unfolding flag_test e using al by (auto simp: flag_bits page_aligned_bits bit_simps)
  ultimately show "page_entry e (kernel_page j)" "e AND PTE_W \<noteq> 0 \<longleftrightarrow> ?w" "e AND PTE_U = 0"
    using ptov_vtop [OF kp(2) p(1)] by (simp_all add: page_entry_def pte_get_page_def)
qed

lemma allocated_regs [simp]:
  "allocated (m\<lparr>init_page_dir := p\<rparr>) = allocated m" "allocated (m\<lparr>cr3 := c\<rparr>) = allocated m"
  "palloc_inv (m\<lparr>init_page_dir := p\<rparr>) = palloc_inv m" "palloc_inv (m\<lparr>cr3 := c\<rparr>) = palloc_inv m"
  "the_pool w (m\<lparr>init_page_dir := p\<rparr>) = the_pool w m" "the_pool w (m\<lparr>cr3 := c\<rparr>) = the_pool w m"
  by (simp_all add: allocated_def palloc_inv_def the_pool_def)

lemma paging_init_ok:
  assumes "palloc_inv m" "allocated m = {}" "init_ram_pages m < 2 ^ 18"
    "DIV_ROUND_UP (init_ram_pages m) 1024 < bit_cnt (used_map (kernel_pool m))"
  shows "\<exists>m'. paging_init text text_end m = Some m' \<and> pds_inv m' {} \<and> active_pd m' = Some (init_page_dir m') \<and>
    init_ram_pages m' = init_ram_pages m \<and> (\<forall>w. pool_pages (the_pool w m') = pool_pages (the_pool w m)) \<and>
    card (allocated m') = Suc (DIV_ROUND_UP (init_ram_pages m) 1024) \<and> allocated m' \<subseteq> pool_pages (kernel_pool m) \<and>
    kernel_half m' {init_page_dir m'} \<and> (\<forall>j<init_ram_pages m. kernel_entry text text_end j (pte_of m' (init_page_dir m') (kernel_page j)))"
proof -
  let ?n = "init_ram_pages m" and ?K = "pool_pages (kernel_pool m)"
  have wf: "pool_wf (kernel_pool m)" using assms(1) by (simp add: palloc_inv_def)
  have card: "card ?K = bit_cnt (used_map (kernel_pool m))"
    unfolding pool_pages_def using card_image [OF pool_page_inj [OF wf]] by simp
  have "\<not> ?K \<subseteq> allocated m" using card assms(2,4) by auto
  from palloc_get_assert [OF assms(1) this] obtain pd m1 where
    g: "palloc_get_page (PAL_ASSERT OR PAL_ZERO) m = Some (pd, m1)" "palloc_inv m1" "pd \<in> ?K" "allocated m1 = insert pd (allocated m)"
    and w: "\<forall>w. pool_pages (the_pool w m1) = pool_pages (the_pool w m)"
    and r: "ram m1 = mem_put (ram m) pd (replicate PGSIZE 0)" "init_ram_pages m1 = init_ram_pages m" "cr3 m1 = cr3 m" by metis
  have pf: "page_aligned pd" "is_kernel_vaddr pd"
    using pool_page_in_ram [OF assms(1), of pd False] g(3) by (simp_all add: the_pool_def)
  define m2 where "m2 = m1\<lparr>init_page_dir := pd\<rparr>"
  have m2: "palloc_inv m2" "allocated m2 = {pd}" "ram m2 = ram m1" "init_ram_pages m2 = ?n"
    "\<forall>w. pool_pages (the_pool w m2) = pool_pages (the_pool w m)"
    using g assms(2) r w by (simp_all add: m2_def)
  have K2: "pool_pages (kernel_pool m2) = ?K" using m2(5) [rule_format, of False] by (simp add: the_pool_def)
  have i0: "paging_inv text text_end pd 0 [] m2 0"
    unfolding paging_inv_def using m2 K2 g(3) load_zero_page [OF pf(1)] by (simp add: pde_of_def r(1))
  obtain m3 pt ts where l: "foldM (paging_step text text_end pd) (m2, 0) [0..<?n] = Some (m3, pt)"
    "paging_inv text text_end pd ?n ts m3 pt" "length ts = DIV_ROUND_UP ?n 1024" "same_machine m2 m3"
    using paging_loop_ok [OF i0 assms(3), of ?n] K2 card assms(4) by auto
  note inv3 = paging_invD [OF l(2)]
  have ipd: "init_page_dir m3 = pd" using l(4) by (simp add: same_machine_def m2_def)
  define m4 where "m4 = m3\<lparr>cr3 := pd - PHYS_BASE\<rparr>"
  have pi: "paging_init text text_end m = Some m4"
    using g(1) l(1) pf(2) ipd m2(4) r(2) by (simp add: paging_init_def vtop_def m4_def flip: m2_def)
  have al4: "allocated m4 = insert pd (set ts)" "palloc_inv m4" "ram m4 = ram m3" "init_page_dir m4 = pd"
    using inv3(1,2) ipd by (simp_all add: m4_def)
  have cr: "cr3 m4 < PHYS_BASE" "ptov (cr3 m4) = Some pd"
    using ptov_vtop [OF pf(2), of "pd - PHYS_BASE"] pf(2) by (auto simp: m4_def vtop_def ptov_def split: if_splits)
  have "pds_inv m4 {}"
    unfolding pds_inv_def using al4 cr(1) inv3(6) by (simp add: pde_of_def)
  moreover have "kernel_entry text text_end j (pte_of m4 pd (kernel_page j))" if j: "j < ?n" for j
  proof -
    have j18: "j < 2 ^ 18" using j assms(3) by simp
    have "j div 1024 < length ts" using j inv3(4) by (simp add: div_less_iff_less_mult)
    then have "pte_of m3 pd (kernel_page j) = load32 (ram m3) (entry (ts ! (j div 1024)) (pt_no (kernel_page j)))"
      using inv3(5) [of "pd_no (kernel_page j)"] kernel_page_facts(3) [OF j18] pd_no_less [of "kernel_page j"]
      by (simp add: pte_of_def)
    moreover have "pte_of m4 pd (kernel_page j) = pte_of m3 pd (kernel_page j)" unfolding pte_of_def pde_of_def al4(3) ..
    ultimately show ?thesis using inv3(7) [OF j] by simp
  qed
  moreover have "card (allocated m4) = Suc (DIV_ROUND_UP ?n 1024)"
    using al4(1) inv3(3) l(3) distinct_card [OF inv3(3)] by simp
  moreover have "\<forall>w. pool_pages (the_pool w m4) = pool_pages (the_pool w m)"
    using l(4) m2(5) by (simp add: m4_def same_machine_def)
  moreover have "allocated m4 \<subseteq> ?K"
  proof -
    have "pool_pages (the_pool False m3) = pool_pages (the_pool False m2)" using l(4) unfolding same_machine_def by blast
    then have "pool_pages (kernel_pool m3) = ?K" using K2 by (simp add: the_pool_def)
    then show ?thesis using inv3(9) al4(1) by simp
  qed
  moreover have "kernel_half m4 {init_page_dir m4}"
  proof -
    have "pde_of m3 pd i = 0 \<or> pde_get_pt (pde_of m3 pd i) \<noteq> None" if "768 \<le> unat i" "unat i < 1024" for i
      using inv3(5,6) [of i] that by (cases "unat i < 768 + length ts") auto
    then show ?thesis by (simp add: kernel_half_def al4(4) pde_of_def al4(3))
  qed
  ultimately show ?thesis using pi cr(2) al4(4) l(4) m2(4) by (auto simp: active_pd_def same_machine_def m4_def)
qed

end
