(* ===== verification/Page_Mappings.thy ===== *)
theory Page_Mappings
  imports Kernel_Paging
begin

text \<open>
  The mappings of processes: creating a directory, taking pages from the user pool and
  destroying a directory keep the invariant of all mappings, and the properties of the page
  directories.
\<close>

section \<open>Creating a directory\<close>

lemma maps_inv_empty: "pds_inv m {} \<Longrightarrow> init_page_dir m \<in> pool_pages (kernel_pool m) \<Longrightarrow> maps_inv m {}"
  by (simp add: maps_inv_def)

text \<open>A new directory does not disturb the mappings of the others.\<close>

lemma maps_inv_create:
  assumes inv: "maps_inv m D"
  obtains (none) "pagedir_create m = Some (0, m)" "pool_pages (kernel_pool m) \<subseteq> allocated m"
  | (some) pd m' where "pagedir_create m = Some (pd, m')" "pd \<noteq> 0" "pd \<notin> D" "maps_inv m' (insert pd D)"
    "allocated m' = insert pd (allocated m)" "\<And>a. \<not> mapped m' pd a" "owned m' pd = {pd}" "pd \<notin> allocated m"
    "\<And>w. pool_pages (the_pool w m') = pool_pages (the_pool w m)"
    "\<And>pd' a. pd' \<in> D \<Longrightarrow> is_user_vaddr a \<Longrightarrow> pte_of m' pd' a = pte_of m pd' a"
proof (rule pagedir_create_ok [OF maps_invD(1) [OF inv]])
  assume "pagedir_create m = Some (0, m)" "pool_pages (kernel_pool m) \<subseteq> allocated m"
  then show thesis by (rule none)
next
  fix pd m'
  assume c: "pagedir_create m = Some (pd, m')" "pd \<noteq> 0" "pd \<notin> allocated m" "pds_inv m' (insert pd D)"
    "allocated m' = insert pd (allocated m)"
    and z: "\<And>a. is_user_vaddr a \<Longrightarrow> pte_of m' pd a = 0"
    and s: "\<And>pd' a. pd' \<in> D \<Longrightarrow> is_user_vaddr a \<Longrightarrow> pte_of m' pd' a = pte_of m pd' a"
    and o: "\<And>pd'. pd' \<in> D \<Longrightarrow> owned m' pd' = owned m pd'" "owned m' pd = {pd}" "pd \<in> pool_pages (kernel_pool m)"
    and w: "\<And>w. pool_pages (the_pool w m') = pool_pages (the_pool w m)"
    and ipd: "init_page_dir m' = init_page_dir m"
  have nD: "pd \<notin> D" using c(3) pds_invD(8) [OF maps_invD(1) [OF inv], of pd] by (auto simp: owned_def)
  have un: "\<not> mapped m' pd a" for a using z by (simp add: mapped_def)
  have pools: "pool_pages (kernel_pool m') = pool_pages (kernel_pool m)" "pool_pages (user_pool m') = pool_pages (user_pool m)"
    using w [of False] w [of True] by (simp_all add: the_pool_def)
  have mp: "mapped m' pd' a = mapped m pd' a" "mapped m pd' a \<Longrightarrow> frame_of m' pd' a = frame_of m pd' a"
    "mapped m pd' a \<Longrightarrow> pte_of m' pd' a = pte_of m pd' a" if "pd' \<in> D" for pd' a
    using s [OF that] by (auto simp: mapped_def frame_of_def)
  have "maps_inv m' (insert pd D)" unfolding maps_inv_def
  proof (intro conjI ballI allI impI)
    show "pds_inv m' (insert pd D)" by (rule c(4))
    show "init_page_dir m' \<in> pool_pages (kernel_pool m')" using maps_invD(7) [OF inv] pools ipd by simp
    show "owned m' pd' \<subseteq> pool_pages (kernel_pool m')" if "pd' \<in> insert pd D" for pd'
      using that o maps_invD(2) [OF inv, of pd'] pools by (cases "pd' = pd") auto
    show "pte_get_page (pte_of m' pd' a) = Some (frame_of m' pd' a)" "frame_of m' pd' a \<in> pool_pages (user_pool m') \<inter> allocated m'"
      if "pd' \<in> insert pd D" "mapped m' pd' a" for pd' a
      using that un mp maps_invD(3,4,5) [OF inv] pools c(5) by auto
    show "pd1 = pd2" "pg_round_down a = pg_round_down b"
      if h: "pd1 \<in> insert pd D" "pd2 \<in> insert pd D" "mapped m' pd1 a \<and> mapped m' pd2 b \<and> frame_of m' pd1 a = frame_of m' pd2 b"
      for pd1 pd2 a b
    proof -
      have d: "pd1 \<in> D" "pd2 \<in> D" using h un by auto
      then show "pd1 = pd2" "pg_round_down a = pg_round_down b"
        using h mp maps_invD(6) [OF inv d, of a b] by auto
    qed
  qed
  then show thesis using some c nD un o(2) w s by blast
qed

section \<open>Destroying a directory\<close>

text \<open>
  Each page the directory refers to is given back once. Freeing a page overwrites it, so the
  loops rely on the pages still to be read being different from the ones already freed.
\<close>

definition freed :: "machine \<Rightarrow> machine \<Rightarrow> va set \<Rightarrow> bool" where
  "freed m m' X \<longleftrightarrow> palloc_inv m' \<and> allocated m' = allocated m - X \<and> init_page_dir m' = init_page_dir m \<and>
     init_ram_pages m' = init_ram_pages m \<and> cr3 m' = cr3 m \<and>
     (\<forall>w. pool_pages (the_pool w m') = pool_pages (the_pool w m)) \<and>
     (\<forall>p. page_aligned p \<and> p \<notin> X \<longrightarrow> mem_get (ram m') p PGSIZE = mem_get (ram m) p PGSIZE)"

lemma freed_refl: "palloc_inv m \<Longrightarrow> freed m m {}"
  by (simp add: freed_def)

lemma freed_trans: "freed m m1 X \<Longrightarrow> freed m1 m2 Y \<Longrightarrow> freed m m2 (X \<union> Y)"
  by (auto simp: freed_def)

lemma freed_page:
  assumes "palloc_inv m" "p \<in> allocated m"
  shows "\<exists>m'. palloc_free_page p m = Some m' \<and> freed m m' {p}"
proof -
  obtain m' where m': "palloc_free_page p m = Some m'" "palloc_inv m'" "allocated m' = allocated m - {p}"
    "\<forall>w. pool_pages (the_pool w m') = pool_pages (the_pool w m)" "ram m' = mem_put (ram m) p (replicate PGSIZE 0xcc)"
    "init_ram_pages m' = init_ram_pages m" "init_page_dir m' = init_page_dir m" "cr3 m' = cr3 m"
    using palloc_free_page_ok [OF assms] by blast
  have "mem_get (ram m') q PGSIZE = mem_get (ram m) q PGSIZE" if "page_aligned q" "q \<noteq> p" for q
    using get_put_page [OF allocated_facts(1) [OF assms] _ that(1)] that(2) m'(5) by simp
  then show ?thesis using m' by (auto simp: freed_def)
qed

lemma mem_get_entry:
  assumes "mem_get r' p PGSIZE = mem_get r p PGSIZE" "unat j < 1024"
  shows "load32 r' (entry p j) = load32 r (entry p j)"
proof -
  have "mem_get r'' (p + of_nat (4 * unat j)) 4 = take 4 (drop (4 * unat j) (mem_get r'' p PGSIZE))" for r''
  proof -
    have "drop (4 * unat j) (mem_get r'' p (4 * unat j + 4)) = drop (4 * unat j) (take (4 * unat j + 4) (mem_get r'' p PGSIZE))"
      using assms(2) take_mem_get [of "4 * unat j + 4" PGSIZE r'' p] by simp
    then show ?thesis unfolding mem_get_sub by (simp add: drop_take)
  qed
  then show ?thesis unfolding load32_def entry_offset using assms(1) by (simp del: of_nat_mult)
qed

lemma freed_entry:
  "freed m m' X \<Longrightarrow> page_aligned t \<Longrightarrow> t \<notin> X \<Longrightarrow> unat j < 1024 \<Longrightarrow> load32 (ram m') (entry t j) = load32 (ram m) (entry t j)"
  by (rule mem_get_entry) (simp_all add: freed_def)

text \<open>The frames a table refers to.\<close>

definition table_frames :: "memory \<Rightarrow> va \<Rightarrow> nat \<Rightarrow> va set" where
  "table_frames r t n = {k. \<exists>j<n. page_entry (load32 r (entry t (of_nat j))) k}"

lemma unat_of_nat_1024 [simp]: "j < 1024 \<Longrightarrow> unat (of_nat j :: 32 word) = j"
  by (simp add: unat_of_nat)

lemma destroy_table_ok:
  assumes inv: "palloc_inv m" and t: "page_aligned t"
    and fr: "\<And>j. j < 1024 \<Longrightarrow> load32 (ram m) (entry t (of_nat j)) AND PTE_P \<noteq> 0 \<Longrightarrow>
      \<exists>k\<in>allocated m. page_entry (load32 (ram m) (entry t (of_nat j))) k \<and> k \<noteq> t"
    and inj: "\<And>i j k. i < 1024 \<Longrightarrow> j < 1024 \<Longrightarrow> page_entry (load32 (ram m) (entry t (of_nat i))) k \<Longrightarrow>
      page_entry (load32 (ram m) (entry t (of_nat j))) k \<Longrightarrow> i = j"
  shows "\<exists>m'. destroy_table t m = Some m' \<and> freed m m' (table_frames (ram m) t 1024)"
proof -
  let ?f = "\<lambda>m j. let pte = load32 (ram m) (entry t (of_nat j)) in
     if pte AND PTE_P \<noteq> 0 then do { page \<leftarrow> pte_get_page pte; palloc_free_page page m } else Some m"
  have "\<exists>m'. foldM ?f m [0..<n] = Some m' \<and> freed m m' (table_frames (ram m) t n)" if "n \<le> 1024" for n
    using that
  proof (induction n)
    case 0
    then show ?case using freed_refl [OF inv] by (simp add: table_frames_def)
  next
    case (Suc n)
    then obtain m1 where m1: "foldM ?f m [0..<n] = Some m1" "freed m m1 (table_frames (ram m) t n)" by auto
    let ?X = "table_frames (ram m) t n" and ?e = "load32 (ram m) (entry t (of_nat n))"
    have tn: "t \<notin> ?X"
    proof
      assume "t \<in> ?X"
      then obtain j where j: "j < n" "page_entry (load32 (ram m) (entry t (of_nat j))) t" by (auto simp: table_frames_def)
      then show False using fr [of j] Suc(2) by (auto simp: page_entry_def)
    qed
    have e: "load32 (ram m1) (entry t (of_nat n)) = ?e"
      using freed_entry [OF m1(2) t tn] Suc(2) by simp
    show ?case
    proof (cases "?e AND PTE_P = 0")
      case True
      then have "table_frames (ram m) t (Suc n) = ?X" by (auto simp: table_frames_def less_Suc_eq page_entry_def)
      then show ?thesis using m1 True e by (simp add: foldM_append)
    next
      case False
      obtain k where k: "k \<in> allocated m" "page_entry ?e k" using fr [OF _ False] Suc(2) by auto
      have new: "k \<notin> ?X"
      proof
        assume "k \<in> ?X"
        then obtain j where j: "j < n" "page_entry (load32 (ram m) (entry t (of_nat j))) k" by (auto simp: table_frames_def)
        then show False using inj [of j n k] k(2) Suc(2) by simp
      qed
      obtain m2 where m2: "palloc_free_page k m1 = Some m2" "freed m1 m2 {k}"
        using freed_page [of m1 k] m1(2) k(1) new by (auto simp: freed_def)
      have "table_frames (ram m) t (Suc n) = ?X \<union> {k}"
        using k(2) by (auto simp: table_frames_def less_Suc_eq page_entry_def)
      then show ?thesis using m1(1) m2 e k(2) freed_trans [OF m1(2) m2(2)] by (simp add: foldM_append page_entry_def)
    qed
  qed
  then show ?thesis unfolding destroy_table_def by blast
qed


text \<open>The addresses of a directory and its table entries.\<close>

definition page_at :: "nat \<Rightarrow> nat \<Rightarrow> va" where
  "page_at i j = of_nat (i * 2 ^ 22 + j * PGSIZE)"

lemma page_at_facts:
  assumes "i < 768" "j < 1024"
  shows "is_user_vaddr (page_at i j)" "page_aligned (page_at i j)" "pd_no (page_at i j) = of_nat i" "pt_no (page_at i j) = of_nat j"
proof -
  have u: "unat (page_at i j) = i * 2 ^ 22 + j * PGSIZE"
    using assms by (simp add: page_at_def unat_of_nat del: of_nat_add of_nat_mult)
  show "is_user_vaddr (page_at i j)" using assms by (simp add: is_user_vaddr_def word_less_nat_alt PHYS_BASE_def u)
  have "i * 2 ^ 22 + j * PGSIZE = PGSIZE * (i * 1024 + j)" by simp
  then have u': "unat (page_at i j) = PGSIZE * (i * 1024 + j)" using u by (simp only:)
  show "page_aligned (page_at i j)" unfolding page_aligned_iff u' by simp
  have "unat (pd_no (page_at i j)) = i" unfolding unat_pd_no u using assms by simp
  moreover have "i < 1024" using assms(1) by simp
  ultimately show "pd_no (page_at i j) = of_nat i" by (simp add: word_unat_eq_iff)
  have "unat (pt_no (page_at i j)) = j" unfolding unat_pt_no u' using assms by simp
  then show "pt_no (page_at i j) = of_nat j" using assms by (simp add: word_unat_eq_iff)
qed

lemma page_at_indices:
  assumes "is_user_vaddr a"
  shows "pg_round_down a = page_at (unat (pd_no a)) (unat (pt_no a))" "unat (pd_no a) < 768" "unat (pt_no a) < 1024"
proof -
  show l: "unat (pd_no a) < 768" "unat (pt_no a) < 1024" using assms pt_no_less by (simp_all add: pd_no_user)
  have "pg_round_down (page_at (unat (pd_no a)) (unat (pt_no a))) = pg_round_down a"
    using page_at_facts [OF l] page_indices [of "page_at (unat (pd_no a)) (unat (pt_no a))" a] by simp
  then show "pg_round_down a = page_at (unat (pd_no a)) (unat (pt_no a))" using page_at_facts(2) [OF l] by simp
qed


definition entry_pages :: "machine \<Rightarrow> va \<Rightarrow> nat \<Rightarrow> va set" where
  "entry_pages m pd i = (case pde_get_pt (pde_of m pd (of_nat i)) of None \<Rightarrow> {}
     | Some t \<Rightarrow> insert t (table_frames (ram m) t 1024))"

lemma entry_mapped:
  assumes inv: "maps_inv m D" and pd: "pd \<in> D" and ij: "i < 768" "j < 1024"
    and t: "pde_of m pd (of_nat i) \<noteq> 0" "pde_get_pt (pde_of m pd (of_nat i)) = Some t"
  shows "page_entry (load32 (ram m) (entry t (of_nat j))) k \<longleftrightarrow> mapped m pd (page_at i j) \<and> frame_of m pd (page_at i j) = k"
    "load32 (ram m) (entry t (of_nat j)) AND PTE_P \<noteq> 0 \<longleftrightarrow> mapped m pd (page_at i j)"
proof -
  note pa = page_at_facts [OF ij]
  have p: "pte_of m pd (page_at i j) = load32 (ram m) (entry t (of_nat j))"
    using t pa by (simp add: pte_of_def)
  then show m: "load32 (ram m) (entry t (of_nat j)) AND PTE_P \<noteq> 0 \<longleftrightarrow> mapped m pd (page_at i j)"
    using pa(1) by (simp add: mapped_def)
  show "page_entry (load32 (ram m) (entry t (of_nat j))) k \<longleftrightarrow> mapped m pd (page_at i j) \<and> frame_of m pd (page_at i j) = k"
    using m maps_invD(3) [OF inv pd, of "page_at i j"] p by (auto simp: page_entry_def)
qed

lemma present_iff: "pde_get_pt e \<noteq> None \<Longrightarrow> e AND PTE_P \<noteq> 0"
  by (auto simp: pde_get_pt_def split: if_splits)

text \<open>The pages behind different entries are different, and none is the directory.\<close>

lemma user_kernel_disjoint:
  assumes "maps_inv m D" "k \<in> pool_pages (user_pool m)" "k \<in> pool_pages (kernel_pool m)"
  shows False
  using pools_disjoint [OF pds_invD(1) [OF maps_invD(1) [OF assms(1)]]] assms(2,3) by blast

lemma entry_pages_cases:
  assumes inv: "maps_inv m D" and pd: "pd \<in> D" and i: "i < 768" and x: "x \<in> entry_pages m pd i"
  obtains (table) "pde_of m pd (of_nat i) \<noteq> 0" "pde_get_pt (pde_of m pd (of_nat i)) = Some x" "x \<in> page_tables m pd"
  | (frame) t j where "pde_of m pd (of_nat i) \<noteq> 0" "pde_get_pt (pde_of m pd (of_nat i)) = Some t" "j < 1024"
      "mapped m pd (page_at i j)" "frame_of m pd (page_at i j) = x" "x \<in> pool_pages (user_pool m)"
proof -
  obtain t where t: "pde_get_pt (pde_of m pd (of_nat i)) = Some t" "x \<in> insert t (table_frames (ram m) t 1024)"
    using x by (auto simp: entry_pages_def split: option.splits)
  have nz: "pde_of m pd (of_nat i) \<noteq> 0" using present_iff [of "pde_of m pd (of_nat i)"] t by auto
  have i': "unat (of_nat i :: 32 word) < 768" using i by simp
  show thesis
  proof (cases "x = t")
    case True
    then show thesis using table nz t(1) i' by (auto simp: page_tables_def)
  next
    case False
    then obtain j where j: "j < 1024" "page_entry (load32 (ram m) (entry t (of_nat j))) x" using t(2) by (auto simp: table_frames_def)
    then show thesis using frame [OF nz t(1) j(1)] entry_mapped(1) [OF inv pd i j(1) nz t(1), of x] maps_invD(4) [OF inv pd] by blast
  qed
qed

lemma entry_pages_disjoint:
  assumes inv: "maps_inv m D" and pd: "pd \<in> D" and ij: "i < 768" "j < 768" "i \<noteq> j"
  shows "entry_pages m pd i \<inter> entry_pages m pd j = {}"
proof -
  have wi: "unat (of_nat i :: 32 word) < 768" "unat (of_nat j :: 32 word) < 768" "(of_nat i :: 32 word) \<noteq> of_nat j"
    using ij by (simp_all add: word_unat_eq_iff)
  have ker: "t \<in> pool_pages (kernel_pool m)" if "t \<in> page_tables m pd" for t using that maps_invD(2) [OF inv pd] by (auto simp: owned_def)
  have False if "x \<in> entry_pages m pd i" "x \<in> entry_pages m pd j" for x
    using that(1)
  proof (cases rule: entry_pages_cases [OF inv pd ij(1), consumes 1, case_names table frame])
    case table
    from that(2) show False
    proof (cases rule: entry_pages_cases [OF inv pd ij(2), consumes 1, case_names table frame])
      case t2: table
      then show False using pd_wfD(3) [OF pds_invD(4) [OF maps_invD(1) [OF inv] pd] wi(1,2)] table wi(3) by blast
    next
      case frame
      then show False using user_kernel_disjoint [OF inv] ker table by blast
    qed
  next
    case (frame t k)
    from that(2) show False
    proof (cases rule: entry_pages_cases [OF inv pd ij(2), consumes 1, case_names table frame])
      case table
      then show False using user_kernel_disjoint [OF inv] ker frame by blast
    next
      case f2: (frame t' k')
      have "pg_round_down (page_at i k) = pg_round_down (page_at j k')"
        using maps_invD(6) [OF inv pd pd, of "page_at i k" "page_at j k'"] frame f2 by auto
      then have "pd_no (page_at i k) = pd_no (page_at j k')" using page_indices by blast
      then show False using page_at_facts(3) [OF ij(1)] page_at_facts(3) [OF ij(2)] frame(3) f2(3) wi(3) by simp
    qed
  qed
  then show ?thesis by blast
qed

lemma entry_pages_allocated:
  assumes inv: "maps_inv m D" and pd: "pd \<in> D" and i: "i < 768"
  shows "entry_pages m pd i \<subseteq> allocated m" "pd \<notin> entry_pages m pd i"
proof -
  note pinv = maps_invD(1) [OF inv]
  have k: "pd \<in> pool_pages (kernel_pool m)" using maps_invD(2) [OF inv pd] by (simp add: owned_def)
  have "x \<in> allocated m \<and> x \<noteq> pd" if "x \<in> entry_pages m pd i" for x
    using that
  proof (cases rule: entry_pages_cases [OF inv pd i, consumes 1, case_names table frame])
    case table
    then show ?thesis using owned_facts(1) [OF pinv pd, of x] pd_wfD(1) [OF pds_invD(4) [OF pinv pd]] by (auto simp: owned_def)
  next
    case (frame t j)
    then show ?thesis using maps_invD(5) [OF inv pd frame(4)] user_kernel_disjoint [OF inv _ k] by blast
  qed
  then show "entry_pages m pd i \<subseteq> allocated m" "pd \<notin> entry_pages m pd i" by blast+
qed

lemma destroy_entry_ok:
  assumes inv: "maps_inv m D" and pd: "pd \<in> D" and i: "i < 768" and X: "freed m m1 X"
    and disj: "X \<inter> entry_pages m pd i = {}" "pd \<notin> X"
  shows "\<exists>m2. destroy_entry pd m1 i = Some m2 \<and> freed m m2 (X \<union> entry_pages m pd i)"
proof -
  note pinv = maps_invD(1) [OF inv]
  have pda: "page_aligned pd" using owned_facts(2) [OF pinv pd] by (simp add: owned_def)
  have i': "unat (of_nat i :: 32 word) < 768" "unat (of_nat i :: 32 word) < 1024" using i by simp_all
  have e: "load32 (ram m1) (entry pd (of_nat i)) = pde_of m pd (of_nat i)"
    using freed_entry [OF X pda disj(2) i'(2)] by (simp add: pde_of_def)
  show ?thesis
  proof (cases "pde_get_pt (pde_of m pd (of_nat i))")
    case None
    then have "pde_of m pd (of_nat i) = 0" using pd_wfD(2) [OF pds_invD(4) [OF pinv pd] i'(1)] by auto
    then show ?thesis using X None e by (auto simp: destroy_entry_def entry_pages_def)
  next
    case (Some t)
    have nz: "pde_of m pd (of_nat i) AND PTE_P \<noteq> 0" "pde_of m pd (of_nat i) \<noteq> 0"
      using present_iff [of "pde_of m pd (of_nat i)"] Some by auto
    have ep: "entry_pages m pd i = insert t (table_frames (ram m) t 1024)" using Some by (simp add: entry_pages_def)
    have tX: "t \<notin> X" using disj(1) ep by blast
    have tt: "t \<in> page_tables m pd" using Some nz(2) i'(1) by (auto simp: page_tables_def)
    have to: "t \<in> owned m pd" using tt by (simp add: owned_def)
    note ta = owned_facts(2) [OF pinv pd to]
    have ld: "load32 (ram m1) (entry t (of_nat j)) = load32 (ram m) (entry t (of_nat j))" if "j < 1024" for j
      using freed_entry [OF X ta tX] that by simp
    have tf: "table_frames (ram m1) t 1024 = table_frames (ram m) t 1024" using ld by (auto simp: table_frames_def)
    have tk: "t \<notin> table_frames (ram m) t 1024"
      using entry_mapped(1) [OF inv pd i _ nz(2) Some] maps_invD(4) [OF inv pd] user_kernel_disjoint [OF inv]
        maps_invD(2) [OF inv pd] to by (fastforce simp: table_frames_def)
    obtain m2 where m2: "destroy_table t m1 = Some m2" "freed m1 m2 (table_frames (ram m1) t 1024)"
    proof -
      have "\<exists>m'. destroy_table t m1 = Some m' \<and> freed m1 m' (table_frames (ram m1) t 1024)"
      proof (rule destroy_table_ok [OF _ ta])
        show "palloc_inv m1" using X by (simp add: freed_def)
        show "\<exists>k\<in>allocated m1. page_entry (load32 (ram m1) (entry t (of_nat j))) k \<and> k \<noteq> t"
          if j: "j < 1024" "load32 (ram m1) (entry t (of_nat j)) AND PTE_P \<noteq> 0" for j
        proof -
          let ?k = "frame_of m pd (page_at i j)"
          have mp: "mapped m pd (page_at i j)" using entry_mapped(2) [OF inv pd i j(1) nz(2) Some] j ld by simp
          then have pe: "page_entry (load32 (ram m) (entry t (of_nat j))) ?k"
            using entry_mapped(1) [OF inv pd i j(1) nz(2) Some] by blast
          then have "?k \<in> table_frames (ram m) t 1024" using j(1) by (auto simp: table_frames_def)
          then have "?k \<notin> X" "?k \<noteq> t" using disj(1) ep tk by auto
          then show ?thesis using pe ld [OF j(1)] maps_invD(5) [OF inv pd mp] X by (auto simp: freed_def)
        qed
        show "a = b" if h: "a < 1024" "b < 1024" "page_entry (load32 (ram m1) (entry t (of_nat a))) k"
            "page_entry (load32 (ram m1) (entry t (of_nat b))) k" for a b k
        proof -
          have "pg_round_down (page_at i a) = pg_round_down (page_at i b)"
            using entry_mapped(1) [OF inv pd i _ nz(2) Some] h ld maps_invD(6) [OF inv pd pd] by metis
          then have "pt_no (page_at i a) = pt_no (page_at i b)" using page_indices by blast
          then show ?thesis using page_at_facts(4) [OF i h(1)] page_at_facts(4) [OF i h(2)] h(1,2)
            by (simp add: word_unat_eq_iff)
        qed
      qed
      then show ?thesis using that by blast
    qed
    have X2: "freed m m2 (X \<union> table_frames (ram m) t 1024)" using freed_trans [OF X m2(2)] tf by simp
    then have "t \<in> allocated m2" using owned_facts(1) [OF pinv pd to] tX tk by (simp add: freed_def)
    then obtain m3 where m3: "palloc_free_page t m2 = Some m3" "freed m2 m3 {t}"
      using freed_page [of m2 t] X2 by (metis freed_def)
    have "freed m m3 (X \<union> entry_pages m pd i)" using freed_trans [OF X2 m3(2)] ep by (simp add: Un_assoc)
    then show ?thesis using m2(1) m3(1) e nz(1) Some by (simp add: destroy_entry_def)
  qed
qed


lemma entry_pages_union:
  assumes inv: "maps_inv m D" and pd: "pd \<in> D"
  shows "(\<Union>i<768. entry_pages m pd i) = page_tables m pd \<union> frames m pd"
proof (intro equalityI subsetI)
  fix x assume "x \<in> (\<Union>i<768. entry_pages m pd i)"
  then obtain i where i: "i < 768" "x \<in> entry_pages m pd i" by blast
  from i(2) show "x \<in> page_tables m pd \<union> frames m pd"
    by (cases rule: entry_pages_cases [OF inv pd i(1), consumes 1, case_names table frame]) (auto simp: frames_def)
next
  fix x assume "x \<in> page_tables m pd \<union> frames m pd"
  then show "x \<in> (\<Union>i<768. entry_pages m pd i)"
  proof
    assume "x \<in> page_tables m pd"
    then obtain i where i: "unat i < 768" "pde_get_pt (pde_of m pd i) = Some x" by (auto simp: page_tables_def)
    then have "x \<in> entry_pages m pd (unat i)" by (simp add: entry_pages_def)
    then show ?thesis using i(1) by blast
  next
    assume "x \<in> frames m pd"
    then obtain a where a: "mapped m pd a" "frame_of m pd a = x" by (auto simp: frames_def)
    have ua: "is_user_vaddr a" using a(1) by (simp add: mapped_def)
    note pa = page_at_indices [OF ua]
    have mp: "mapped m pd (page_at (unat (pd_no a)) (unat (pt_no a)))" "frame_of m pd (page_at (unat (pd_no a)) (unat (pt_no a))) = x"
      using a ua by (simp_all add: mapped_def frame_of_def flip: pa(1))
    have nz: "pde_of m pd (of_nat (unat (pd_no a))) \<noteq> 0"
      using a(1) by (auto simp: mapped_def pte_of_def)
    obtain t where t: "pde_get_pt (pde_of m pd (of_nat (unat (pd_no a)))) = Some t"
      using pt_of_entry [OF maps_invD(1) [OF inv] pd ua] nz by auto
    have "page_entry (load32 (ram m) (entry t (of_nat (unat (pt_no a))))) x"
      using entry_mapped(1) [OF inv pd pa(2,3) nz t] mp by blast
    then have "x \<in> table_frames (ram m) t 1024" unfolding table_frames_def using pa(3) by blast
    then have "x \<in> entry_pages m pd (unat (pd_no a))" using t by (simp add: entry_pages_def)
    then show ?thesis using pa(2) by blast
  qed
qed

lemma pagedir_destroy_ok:
  assumes inv: "maps_inv m D" and pd: "pd \<in> D"
  shows "\<exists>m'. pagedir_destroy pd m = Some m' \<and> freed m m' (owned m pd \<union> frames m pd)"
proof -
  note pinv = maps_invD(1) [OF inv]
  have pdo: "pd \<in> owned m pd" by (simp add: owned_def)
  note pf = owned_facts [OF pinv pd pdo]
  have "\<exists>m'. foldM (destroy_entry pd) m [0..<n] = Some m' \<and> freed m m' (\<Union>i<n. entry_pages m pd i)" if "n \<le> 768" for n
    using that
  proof (induction n)
    case 0
    then show ?case using freed_refl [OF pds_invD(1) [OF pinv]] by simp
  next
    case (Suc n)
    then obtain m1 where m1: "foldM (destroy_entry pd) m [0..<n] = Some m1" "freed m m1 (\<Union>i<n. entry_pages m pd i)" by auto
    have "entry_pages m pd i \<inter> entry_pages m pd n = {}" if "i < n" for i
      using entry_pages_disjoint [OF inv pd, of i n] that Suc(2) by simp
    then have "(\<Union>i<n. entry_pages m pd i) \<inter> entry_pages m pd n = {}" by blast
    moreover have "pd \<notin> (\<Union>i<n. entry_pages m pd i)" using entry_pages_allocated(2) [OF inv pd] Suc(2) by auto
    ultimately obtain m2 where m2: "destroy_entry pd m1 n = Some m2" "freed m m2 ((\<Union>i<n. entry_pages m pd i) \<union> entry_pages m pd n)"
      using destroy_entry_ok [OF inv pd _ m1(2), of n] Suc(2) by auto
    moreover have "(\<Union>i<Suc n. entry_pages m pd i) = (\<Union>i<n. entry_pages m pd i) \<union> entry_pages m pd n"
      by (auto simp: lessThan_Suc)
    ultimately show ?case using m1(1) by (simp add: foldM_append)
  qed
  from this [of 768] obtain m1 where m1: "foldM (destroy_entry pd) m [0..<768] = Some m1" "freed m m1 (page_tables m pd \<union> frames m pd)"
    using entry_pages_union [OF inv pd] by auto
  have "pd \<notin> page_tables m pd \<union> frames m pd"
    using entry_pages_allocated(2) [OF inv pd] entry_pages_union [OF inv pd] by blast
  then have "pd \<in> allocated m1" using m1(2) pf(1) by (simp add: freed_def)
  then obtain m2 where m2: "palloc_free_page pd m1 = Some m2" "freed m1 m2 {pd}"
    using freed_page [of m1 pd] m1(2) by (metis freed_def)
  have "unat (pd_no PHYS_BASE) = 768" by (simp add: unat_pd_no PHYS_BASE_def)
  then have "pagedir_destroy pd m = Some m2" using m1(1) m2(1) pf(4,5) by (simp add: pagedir_destroy_def)
  moreover have "freed m m2 (owned m pd \<union> frames m pd)"
    using freed_trans [OF m1(2) m2(2)] by (simp add: owned_def Un_commute)
  ultimately show ?thesis by blast
qed

lemma freed_same_entries:
  assumes "palloc_inv m" "freed m m' X" "Y \<subseteq> allocated m" "X \<inter> Y = {}"
  shows "same_entries m m' Y"
  unfolding same_entries_def
proof (intro ballI allI impI)
  fix t j assume t: "t \<in> Y" and j: "unat (j :: 32 word) < 1024"
  have "page_aligned t" "t \<notin> X" using allocated_facts(1) [OF assms(1)] assms(3,4) t by blast+
  then show "load32 (ram m') (entry t j) = load32 (ram m) (entry t j)" by (rule freed_entry [OF assms(2) _ _ j])
qed

lemma maps_inv_destroy:
  assumes inv: "maps_inv m D" and pd: "pd \<in> D" and fr: "freed m m' (owned m pd \<union> frames m pd)"
  shows "maps_inv m' (D - {pd})" "\<And>pd' a. pd' \<in> D - {pd} \<Longrightarrow> is_user_vaddr a \<Longrightarrow> pte_of m' pd' a = pte_of m pd' a"
proof -
  note pinv = maps_invD(1) [OF inv]
  let ?X = "owned m pd \<union> frames m pd" and ?E = "D - {pd}"
  note f = fr [unfolded freed_def]
  have frk: "x \<notin> pool_pages (kernel_pool m)" if "x \<in> frames m pd" for x
    using that maps_invD(4) [OF inv pd] user_kernel_disjoint [OF inv] by (auto simp: frames_def)
  have init: "init_page_dir m \<notin> frames m pd"
    using frk maps_invD(7) [OF inv] by blast
  have own: "owned m pd' \<inter> ?X = {}" if "pd' \<in> ?E" for pd'
    using pds_invD(6) [OF pinv pd, of pd'] that frk maps_invD(2) [OF inv, of pd'] by blast
  have ownA: "owned m pd' \<subseteq> allocated m'" if "pd' \<in> ?E" for pd'
    using pds_invD(8) [OF pinv, of pd'] own [OF that] that f by auto
  have ini: "init_page_dir m \<notin> ?X" using init pds_invD(5) [OF pinv pd] by blast
  have "insert (init_page_dir m) ?E \<subseteq> allocated m" "?X \<inter> insert (init_page_dir m) ?E = {}"
    using pds_invD(2,8) [OF pinv] own ini by (auto simp: owned_def)
  note se = freed_same_entries [OF pds_invD(1) [OF pinv] fr this]
  show pte: "pte_of m' pd' a = pte_of m pd' a" if "pd' \<in> ?E" "is_user_vaddr a" for pd' a
    by (rule pte_of_same [OF freed_same_entries [OF pds_invD(1) [OF pinv] fr] that(2)])
      (use own [OF that(1)] pds_invD(8) [OF pinv, of pd'] that(1) in blast)+
  have dinv: "pds_inv m' ?E"
  proof (rule pds_inv_same [OF pinv _ _ _ _ se])
    show "init_page_dir m \<in> allocated m'" using ini pds_invD(2) [OF pinv] f by simp
  qed (use f pds_invD(3) [OF pinv] ownA in auto)
  have pools: "pool_pages (kernel_pool m') = pool_pages (kernel_pool m)" "pool_pages (user_pool m') = pool_pages (user_pool m)"
  proof -
    have "\<forall>w. pool_pages (the_pool w m') = pool_pages (the_pool w m)" using f by blast
    from this [rule_format, of False] this [rule_format, of True]
    show "pool_pages (kernel_pool m') = pool_pages (kernel_pool m)" "pool_pages (user_pool m') = pool_pages (user_pool m)"
      by (simp_all add: the_pool_def)
  qed
  have own': "owned m' pd' = owned m pd'" if "pd' \<in> ?E" for pd' using owned_same [OF se] that by simp
  have mp: "mapped m' pd' a = mapped m pd' a" "mapped m pd' a \<Longrightarrow> frame_of m' pd' a = frame_of m pd' a"
    "mapped m pd' a \<Longrightarrow> pte_of m' pd' a = pte_of m pd' a" if "pd' \<in> ?E" for pd' a
    using pte [OF that] by (auto simp: mapped_def frame_of_def)
  have fa: "frame_of m pd' a \<in> allocated m'" if d: "pd' \<in> ?E" and h: "mapped m pd' a" for pd' a
  proof -
    have "pd' \<in> D" using d by simp
    note k = maps_invD(4,5) [OF inv this h]
    have "frame_of m pd' a \<notin> frames m pd" using maps_invD(6) [OF inv _ pd h] d by (auto simp: frames_def)
    moreover have "frame_of m pd' a \<notin> owned m pd" using user_kernel_disjoint [OF inv k(1)] maps_invD(2) [OF inv pd] by blast
    ultimately show ?thesis using k(2) f by simp
  qed
  show "maps_inv m' ?E" unfolding maps_inv_def
  proof (intro conjI ballI allI impI)
    show "pds_inv m' ?E" by (rule dinv)
    show "init_page_dir m' \<in> pool_pages (kernel_pool m')" using maps_invD(7) [OF inv] pools f by simp
    show "owned m' pd' \<subseteq> pool_pages (kernel_pool m')" if "pd' \<in> ?E" for pd'
      using own' [OF that] maps_invD(2) [OF inv, of pd'] that pools by simp
    show "pte_get_page (pte_of m' pd' a) = Some (frame_of m' pd' a)" if "pd' \<in> ?E" "mapped m' pd' a" for pd' a
      using mp [OF that(1), of a] maps_invD(3) [OF inv, of pd' a] that by simp
    show "frame_of m' pd' a \<in> pool_pages (user_pool m') \<inter> allocated m'" if "pd' \<in> ?E" "mapped m' pd' a" for pd' a
      using mp [OF that(1), of a] maps_invD(4) [OF inv, of pd' a] fa [OF that(1), of a] pools that by simp
    show "pd1 = pd2" "pg_round_down a = pg_round_down b"
      if h: "pd1 \<in> ?E" "pd2 \<in> ?E" "mapped m' pd1 a \<and> mapped m' pd2 b \<and> frame_of m' pd1 a = frame_of m' pd2 b"
      for pd1 pd2 a b
      using h mp [OF h(1), of a] mp [OF h(2), of b] maps_invD(6) [OF inv, of pd1 pd2 a b] by auto
  qed
qed

text \<open>Changes outside the tables keep all mappings: new pages and the contents of user pages.\<close>

lemma maps_inv_frame:
  assumes inv: "maps_inv m D" and pinv': "palloc_inv m'" and al: "allocated m \<subseteq> allocated m'"
    and pools: "\<And>w. pool_pages (the_pool w m') = pool_pages (the_pool w m)"
    and regs: "init_page_dir m' = init_page_dir m" "cr3 m' < PHYS_BASE"
    and se: "same_entries m m' (allocated m \<inter> pool_pages (kernel_pool m))"
  shows "maps_inv m' D" "\<And>pd a. pd \<in> D \<Longrightarrow> is_user_vaddr a \<Longrightarrow> pte_of m' pd a = pte_of m pd a"
    "\<And>pd. pd \<in> D \<Longrightarrow> owned m' pd = owned m pd"
proof -
  note dinv = maps_invD(1) [OF inv]
  have ow: "owned m pd \<subseteq> allocated m \<inter> pool_pages (kernel_pool m)" if "pd \<in> D" for pd
    using pds_invD(8) [OF dinv that] maps_invD(2) [OF inv that] by blast
  show pte: "pte_of m' pd a = pte_of m pd a" if "pd \<in> D" "is_user_vaddr a" for pd a
    by (rule pte_of_same [OF same_entries_mono [OF se ow [OF that(1)]] that(2)])
  show o: "owned m' pd = owned m pd" if "pd \<in> D" for pd
    by (rule owned_same [OF se]) (use ow [OF that] in \<open>auto simp: owned_def\<close>)
  have sub: "insert (init_page_dir m) D \<subseteq> allocated m \<inter> pool_pages (kernel_pool m)"
    using ow maps_invD(7) [OF inv] pds_invD(2) [OF dinv] by (auto simp: owned_def)
  have dinv': "pds_inv m' D"
  proof (rule pds_inv_same [OF dinv pinv' regs _ same_entries_mono [OF se sub]])
    show "owned m pd \<subseteq> allocated m'" if "pd \<in> D" for pd using ow [OF that] al by blast
  qed (use pds_invD(2) [OF dinv] al in auto)
  have pp: "pool_pages (kernel_pool m') = pool_pages (kernel_pool m)" "pool_pages (user_pool m') = pool_pages (user_pool m)"
    using pools [of False] pools [of True] by (simp_all add: the_pool_def)
  have mp: "mapped m' pd a = mapped m pd a" "mapped m pd a \<Longrightarrow> frame_of m' pd a = frame_of m pd a"
    "mapped m pd a \<Longrightarrow> pte_of m' pd a = pte_of m pd a" if "pd \<in> D" for pd a
    using pte [OF that] by (auto simp: mapped_def frame_of_def)
  show "maps_inv m' D" unfolding maps_inv_def
  proof (intro conjI ballI allI impI)
    show "pds_inv m' D" by (rule dinv')
    show "init_page_dir m' \<in> pool_pages (kernel_pool m')" using maps_invD(7) [OF inv] pp regs by simp
    show "owned m' pd \<subseteq> pool_pages (kernel_pool m')" if "pd \<in> D" for pd using ow [OF that] o [OF that] pp by simp
    show "pte_get_page (pte_of m' pd a) = Some (frame_of m' pd a)" if "pd \<in> D" "mapped m' pd a" for pd a
      using mp [OF that(1), of a] maps_invD(3) [OF inv that(1), of a] that(2) by simp
    show "frame_of m' pd a \<in> pool_pages (user_pool m') \<inter> allocated m'" if "pd \<in> D" "mapped m' pd a" for pd a
      using mp [OF that(1), of a] maps_invD(4,5) [OF inv that(1), of a] that(2) pp al by auto
    show "pd1 = pd2" "pg_round_down a = pg_round_down b"
      if h: "pd1 \<in> D" "pd2 \<in> D" "mapped m' pd1 a \<and> mapped m' pd2 b \<and> frame_of m' pd1 a = frame_of m' pd2 b" for pd1 pd2 a b
      using h mp [OF h(1), of a] mp [OF h(2), of b] maps_invD(6) [OF inv, of pd1 pd2 a b] by auto
  qed
qed

text \<open>Taking a page from the user pool.\<close>

lemma maps_inv_get_user:
  assumes inv: "maps_inv m D" and fl: "flags AND PAL_ASSERT = 0" "flags AND PAL_USER \<noteq> 0"
  obtains (none) "palloc_get_page flags m = Some (0, m)" "pool_pages (user_pool m) \<subseteq> allocated m"
  | (some) p m' where "palloc_get_page flags m = Some (p, m')" "p \<noteq> 0" "maps_inv m' D"
    "p \<in> pool_pages (user_pool m)" "p \<notin> allocated m" "allocated m' = insert p (allocated m)"
    "\<And>w. pool_pages (the_pool w m') = pool_pages (the_pool w m)"
    "ram m' = (if flags AND PAL_ZERO \<noteq> 0 then mem_put (ram m) p (replicate PGSIZE 0) else ram m)"
    "\<And>pd a. pd \<in> D \<Longrightarrow> is_user_vaddr a \<Longrightarrow> pte_of m' pd a = pte_of m pd a"
proof -
  note dinv = maps_invD(1) [OF inv]
  have u: "True = (flags AND PAL_USER \<noteq> 0)" using fl by simp
  show thesis
  proof (rule palloc_get_page_ok [OF pds_invD(1) [OF dinv] fl(1) u])
    assume "palloc_get_page flags m = Some (0, m)" "pool_pages (the_pool True m) \<subseteq> allocated m"
    then show thesis using none by (simp add: the_pool_def)
  next
    fix p m'
    assume g: "palloc_get_page flags m = Some (p, m')" "p \<noteq> 0" "palloc_inv m'"
      "p \<in> pool_pages (the_pool True m)" "p \<notin> allocated m" "allocated m' = insert p (allocated m)"
      and w: "\<And>w. pool_pages (the_pool w m') = pool_pages (the_pool w m)"
      and r: "ram m' = (if flags AND PAL_ZERO \<noteq> 0 then mem_put (ram m) p (replicate PGSIZE 0) else ram m)"
      "init_ram_pages m' = init_ram_pages m" "init_page_dir m' = init_page_dir m" "cr3 m' = cr3 m"
    have pa: "page_aligned p" using pool_page_in_ram(2) [OF pds_invD(1) [OF dinv] g(4)] .
    have "same_entries m m' (allocated m \<inter> pool_pages (kernel_pool m))"
      unfolding same_entries_def r(1)
      using load_put_page [OF pa, of "replicate PGSIZE 0"] allocated_facts(1) [OF pds_invD(1) [OF dinv]] g(5) by auto
    note f = maps_inv_frame [OF inv g(3) _ w r(3) _ this]
    have "maps_inv m' D" "\<And>pd a. pd \<in> D \<Longrightarrow> is_user_vaddr a \<Longrightarrow> pte_of m' pd a = pte_of m pd a"
      using f(1,2) g(6) r(4) pds_invD(3) [OF dinv] by auto
    then show thesis using some [OF g(1,2)] g(4-6) w r(1) by (simp add: the_pool_def)
  qed
qed

section \<open>Properties\<close>

text \<open>
  C25: the kernel's page directory. On the machine that \<^verbatim>\<open>palloc_init\<close> leaves, \<^verbatim>\<open>paging_init\<close> does not
  panic if the kernel pool has a page for the directory and one for each 1024 pages of RAM.
  The directory it activates maps every page of RAM at \<^verbatim>\<open>PHYS_BASE\<close> plus its address, present,
  not accessible to user programs and writable exactly outside the kernel's code, and it maps
  no user address.
\<close>

theorem paging_init_maps_ram:
  assumes "palloc_inv m" "allocated m = {}" "init_ram_pages m < 2 ^ 18"
    "DIV_ROUND_UP (init_ram_pages m) 1024 < bit_cnt (used_map (kernel_pool m))"
  shows "\<exists>m'. paging_init text text_end m = Some m' \<and> active_pd m' = Some (init_page_dir m') \<and>
    (\<forall>j<init_ram_pages m. let e = pte_of m' (init_page_dir m') (PHYS_BASE + of_nat (j * PGSIZE)) in
       e AND PTE_P \<noteq> 0 \<and> pte_get_page e = Some (PHYS_BASE + of_nat (j * PGSIZE)) \<and> e AND PTE_U = 0 \<and>
       (e AND PTE_W \<noteq> 0 \<longleftrightarrow> \<not> (text \<le> PHYS_BASE + of_nat (j * PGSIZE) \<and> PHYS_BASE + of_nat (j * PGSIZE) < text_end))) \<and>
    (\<forall>a. is_user_vaddr a \<longrightarrow> pte_of m' (init_page_dir m') a = 0)"
proof -
  obtain m' where m': "paging_init text text_end m = Some m'" "pds_inv m' {}" "active_pd m' = Some (init_page_dir m')"
    "\<forall>j<init_ram_pages m. kernel_entry text text_end j (pte_of m' (init_page_dir m') (kernel_page j))"
    using paging_init_ok [OF assms] by blast
  have "pte_of m' (init_page_dir m') a = 0" if "is_user_vaddr a" for a
    using pds_invD(7) [OF m'(2)] that by (simp add: pte_of_def pd_no_user)
  moreover have "let e = pte_of m' (init_page_dir m') (kernel_page j) in
       e AND PTE_P \<noteq> 0 \<and> pte_get_page e = Some (kernel_page j) \<and> e AND PTE_U = 0 \<and>
       (e AND PTE_W \<noteq> 0 \<longleftrightarrow> \<not> (text \<le> kernel_page j \<and> kernel_page j < text_end))" if "j < init_ram_pages m" for j
    using kernel_entry_facts [OF m'(4) [rule_format, OF that]] that assms(3) by (simp add: page_entry_def Let_def)
  ultimately show ?thesis using m'(1,3) unfolding kernel_page_def by blast
qed

lemma demo_palloc:
  obtains m where "palloc_init 100 demo_machine = Some m" "palloc_inv m" "allocated m = {}" "init_ram_pages m = 512"
    "bit_cnt (used_map (kernel_pool m)) = 155" "bit_cnt (used_map (user_pool m)) = 99"
  using palloc_init_ok [of demo_machine 100]
  by (auto simp: demo_machine_def Let_def DIV_ROUND_UP_def bitmap_buf_size_def byte_cnt_def elem_cnt_def)

lemma paging_init_maps_ram_witness:
  "\<exists>m m'. palloc_init 100 demo_machine = Some m \<and> paging_init 0xc0020000 0xc0030000 m = Some m' \<and>
    pte_get_page (pte_of m' (init_page_dir m') (PHYS_BASE + of_nat (7 * PGSIZE))) = Some (PHYS_BASE + of_nat (7 * PGSIZE))"
proof (rule demo_palloc)
  fix m assume m: "palloc_init 100 demo_machine = Some m" "palloc_inv m" "allocated m = {}" "init_ram_pages m = 512"
    "bit_cnt (used_map (kernel_pool m)) = 155" "bit_cnt (used_map (user_pool m)) = 99"
  have "\<exists>m'. paging_init 0xc0020000 0xc0030000 m = Some m' \<and> active_pd m' = Some (init_page_dir m') \<and>
    (\<forall>j<init_ram_pages m. let e = pte_of m' (init_page_dir m') (PHYS_BASE + of_nat (j * PGSIZE)) in
       e AND PTE_P \<noteq> 0 \<and> pte_get_page e = Some (PHYS_BASE + of_nat (j * PGSIZE)) \<and> e AND PTE_U = 0 \<and>
       (e AND PTE_W \<noteq> 0 \<longleftrightarrow> \<not> (0xc0020000 \<le> PHYS_BASE + of_nat (j * PGSIZE) \<and> PHYS_BASE + of_nat (j * PGSIZE) < 0xc0030000))) \<and>
    (\<forall>a. is_user_vaddr a \<longrightarrow> pte_of m' (init_page_dir m') a = 0)"
    by (rule paging_init_maps_ram) (use m in \<open>simp_all add: DIV_ROUND_UP_def\<close>)
  then obtain m' where m': "paging_init 0xc0020000 0xc0030000 m = Some m'"
    "\<forall>j<init_ram_pages m. let e = pte_of m' (init_page_dir m') (PHYS_BASE + of_nat (j * PGSIZE)) in
       e AND PTE_P \<noteq> 0 \<and> pte_get_page e = Some (PHYS_BASE + of_nat (j * PGSIZE)) \<and> e AND PTE_U = 0 \<and>
       (e AND PTE_W \<noteq> 0 \<longleftrightarrow> \<not> (0xc0020000 \<le> PHYS_BASE + of_nat (j * PGSIZE) \<and> PHYS_BASE + of_nat (j * PGSIZE) < 0xc0030000))"
    by blast
  have "pte_get_page (pte_of m' (init_page_dir m') (PHYS_BASE + of_nat (7 * PGSIZE))) = Some (PHYS_BASE + of_nat (7 * PGSIZE))"
    using m'(2) [rule_format, of 7] m(4) by (simp add: Let_def)
  then show ?thesis using m(1) m'(1) by blast
qed

text \<open>A page of the user pool is never at address 0, so a translation to 0 means that there is none.\<close>

lemma translation_none:
  assumes "maps_inv m D" "pd \<in> D" "is_user_vaddr upage" "pagedir_get_page pd upage m = Some 0"
  shows "\<not> mapped m pd upage"
proof
  assume mp: "mapped m pd upage"
  have "page_aligned (frame_of m pd upage)" "is_kernel_vaddr (frame_of m pd upage)"
    using allocated_facts [OF pds_invD(1) [OF maps_invD(1) [OF assms(1)]] maps_invD(5) [OF assms(1,2) mp]] by auto
  then show False using assms(4) pagedir_get_page_ok [OF assms(1,2,3)] mp frame_plus_ofs_nonzero by simp
qed

lemma clear_restores:
  assumes "maps_inv m D" "pd \<in> D" "page_aligned upage" "is_user_vaddr upage" and un: "\<not> mapped m pd upage" and inv': "maps_inv m' D"
    and pte: "\<And>pd' b. pd' \<in> D \<Longrightarrow> is_user_vaddr b \<Longrightarrow> \<not> (pd' = pd \<and> pg_round_down b = upage) \<Longrightarrow> pte_of m' pd' b = pte_of m pd' b"
  shows "\<exists>m''. pagedir_clear_page pd upage m' = Some m'' \<and> maps_inv m'' D \<and>
      (\<forall>pd'\<in>D. \<forall>a. is_user_vaddr a \<longrightarrow> pagedir_get_page pd' a m'' = pagedir_get_page pd' a m)"
proof -
  obtain m'' where m'': "pagedir_clear_page pd upage m' = Some m''" "maps_inv m'' D"
    "\<forall>pd'\<in>D. \<forall>b. is_user_vaddr b \<longrightarrow> pte_of m'' pd' b =
      (if pd' = pd \<and> pg_round_down b = upage then pte_of m' pd upage AND NOT PTE_P else pte_of m' pd' b)"
    using pagedir_clear_page_ok [OF inv' assms(2-4)] by blast
  have "pagedir_get_page pd' a m'' = pagedir_get_page pd' a m" if "pd' \<in> D" "is_user_vaddr a" for pd' a
  proof (cases "pd' = pd \<and> pg_round_down a = upage")
    case True
    then have "\<not> mapped m'' pd' a" "\<not> mapped m pd' a"
      using m''(3) that un pte_of_round_down [of m pd a] by (auto simp: mapped_def cleared_flag)
    then show ?thesis using pagedir_get_page_ok [OF m''(2) that] pagedir_get_page_ok [OF assms(1) that] by simp
  next
    case False
    then have "pte_of m'' pd' a = pte_of m pd' a" using m''(3) pte [OF that False] that by auto
    then show ?thesis using pagedir_get_page_ok [OF m''(2) that] pagedir_get_page_ok [OF assms(1) that]
      by (simp add: mapped_def frame_of_def)
  qed
  then show ?thesis using m'' by blast
qed

text \<open>
  C23: mapping and unmapping a page. For the directory of a process, an unmapped user page and
  a page of the user pool that no process has mapped, \<^verbatim>\<open>pagedir_set_page\<close> returns. If the kernel
  pool has no page for a new table it returns false and changes nothing. Otherwise the user
  page translates to the new page, with the access asked for, and every other translation of
  this and of every other process is as before. Clearing the page again restores all
  translations.
\<close>

theorem pagedir_set_clear:
  assumes "maps_inv m D" "pd \<in> D" "page_aligned upage" "is_user_vaddr upage" "pagedir_get_page pd upage m = Some 0"
    "kpage \<in> pool_pages (user_pool m)" "kpage \<in> allocated m" "\<forall>pd'\<in>D. kpage \<notin> frames m pd'"
  shows "\<exists>ok m'. pagedir_set_page pd upage kpage w m = Some (ok, m') \<and> maps_inv m' D \<and>
    (\<not> ok \<longrightarrow> m' = m \<and> pool_pages (kernel_pool m) \<subseteq> allocated m) \<and>
    (ok \<longrightarrow> (pte_of m' pd upage AND PTE_W \<noteq> 0 \<longleftrightarrow> w)) \<and>
    (\<forall>pd'\<in>D. \<forall>a. is_user_vaddr a \<longrightarrow> pagedir_get_page pd' a m' =
      (if ok \<and> pd' = pd \<and> pg_round_down a = upage then Some (kpage + pg_ofs a) else pagedir_get_page pd' a m)) \<and>
    (\<exists>m''. pagedir_clear_page pd upage m' = Some m'' \<and> maps_inv m'' D \<and>
      (\<forall>pd'\<in>D. \<forall>a. is_user_vaddr a \<longrightarrow> pagedir_get_page pd' a m'' = pagedir_get_page pd' a m))"
proof -
  have un: "\<not> mapped m pd upage" by (rule translation_none [OF assms(1,2,4,5)])
  note clear = clear_restores [OF assms(1-4) un]
  show ?thesis
  proof (rule pagedir_set_page_ok [OF assms(1-4) un assms(6,7)])
    show "kpage \<notin> frames m pd'" if "pd' \<in> D" for pd' using assms(8) that by blast
  next
    assume n: "pagedir_set_page pd upage kpage w m = Some (False, m)" "pool_pages (kernel_pool m) \<subseteq> allocated m"
    then show ?thesis using clear [OF assms(1)] assms(1) by (intro exI [of _ False] exI [of _ m]) simp
  next
    fix m' e
    assume s: "pagedir_set_page pd upage kpage w m = Some (True, m')" "maps_inv m' D" "page_entry e kpage"
      "(e AND PTE_W \<noteq> 0) = w"
      and pte: "\<And>pd' b. pd' \<in> D \<Longrightarrow> is_user_vaddr b \<Longrightarrow>
        pte_of m' pd' b = (if pd' = pd \<and> pg_round_down b = upage then e else pte_of m pd' b)"
    have "pagedir_get_page pd' a m' =
      (if pd' = pd \<and> pg_round_down a = upage then Some (kpage + pg_ofs a) else pagedir_get_page pd' a m)"
      if "pd' \<in> D" "is_user_vaddr a" for pd' a
      using pagedir_get_page_ok [OF s(2) that] pagedir_get_page_ok [OF assms(1) that] pte [OF that] s(3) that(2)
      by (auto simp: mapped_def frame_of_def page_entry_def)
    moreover have "pte_of m' pd upage = e" using pte [OF assms(2,4)] assms(3) by simp
    moreover have "\<exists>m''. pagedir_clear_page pd upage m' = Some m'' \<and> maps_inv m'' D \<and>
      (\<forall>pd'\<in>D. \<forall>a. is_user_vaddr a \<longrightarrow> pagedir_get_page pd' a m'' = pagedir_get_page pd' a m)"
      by (rule clear [OF s(2)]) (use pte in auto)
    ultimately show ?thesis using s(1,2,4) by (intro exI [of _ True] exI [of _ m']) simp
  qed
qed


lemma pagedir_create_kernel:
  assumes inv: "pds_inv m D" and run: "pagedir_create m = Some (pd, m')" "pd \<noteq> 0" and i: "unat i < 1024"
  shows "pde_of m' pd i = pde_of m (init_page_dir m) i"
proof -
  have flags: "0 AND PAL_ASSERT = 0" "False = (0 AND PAL_USER \<noteq> 0)" by simp_all
  show ?thesis
  proof (rule palloc_get_page_ok [OF pds_invD(1) [OF inv] flags])
    assume "palloc_get_page 0 m = Some (0, m)"
    then show ?thesis using run by (simp add: pagedir_create_def)
  next
    fix p m1
    assume g: "palloc_get_page 0 m = Some (p, m1)" "p \<noteq> 0" "p \<in> pool_pages (the_pool False m)"
      and r: "ram m1 = (if 0 AND PAL_ZERO \<noteq> 0 then mem_put (ram m) p (replicate PGSIZE 0) else ram m)" "init_page_dir m1 = init_page_dir m"
    have pf: "page_aligned p" using pool_page_in_ram [OF pds_invD(1) [OF inv] g(3)] by auto
    have "pd = p" "ram m' = mem_put (ram m) p (mem_get (ram m) (init_page_dir m) PGSIZE)"
      using run g(1,2) r by (auto simp: pagedir_create_def)
    then show ?thesis using load_copy_page [OF pf, of i "ram m" "init_page_dir m"] i by (simp add: pde_of_def)
  qed
qed

text \<open>The directory of a first process after boot, and one page taken from the user pool.\<close>

lemma boot_directory:
  assumes m: "palloc_inv m" "allocated m = {}" "init_ram_pages m = 512"
    and kc: "4 < bit_cnt (used_map (kernel_pool m))" and uc: "0 < bit_cnt (used_map (user_pool m))"
  obtains m' pd kpage where "maps_inv m' {pd}" "\<And>a. \<not> mapped m' pd a" "pool_pages (user_pool m') \<inter> allocated m' = {kpage}"
    "kernel_half m' {pd}" "\<not> pool_pages (kernel_pool m') \<subseteq> allocated m'" "card (pool_pages (user_pool m')) = bit_cnt (used_map (user_pool m))"
proof -
  have cards: "card (pool_pages (kernel_pool m)) > 4" "card (pool_pages (user_pool m)) = bit_cnt (used_map (user_pool m))"
    using m(1) card_image [OF pool_page_inj, of "kernel_pool m"] card_image [OF pool_page_inj, of "user_pool m"] kc
    by (auto simp: pool_pages_def palloc_inv_def)
  have div: "DIV_ROUND_UP (init_ram_pages m) 1024 = 1" "init_ram_pages m < 2 ^ 18" using m(3) by (simp_all add: DIV_ROUND_UP_def)
  obtain m1 where m1: "pds_inv m1 {}" "\<forall>w. pool_pages (the_pool w m1) = pool_pages (the_pool w m)"
    "card (allocated m1) = 2" "allocated m1 \<subseteq> pool_pages (kernel_pool m)" "kernel_half m1 {init_page_dir m1}"
    using paging_init_ok [OF m(1,2) div(2), of 0 0] div(1) kc by auto
  have p1: "pool_pages (kernel_pool m1) = pool_pages (kernel_pool m)" "pool_pages (user_pool m1) = pool_pages (user_pool m)"
    using m1(2) [rule_format, of False] m1(2) [rule_format, of True] by (simp_all add: the_pool_def)
  have fin: "finite (allocated m1)" using m1(3) card.infinite by fastforce
  have i1: "maps_inv m1 {}" by (rule maps_inv_empty [OF m1(1)]) (use pds_invD(2) [OF m1(1)] m1(4) p1 in auto)
  show thesis
  proof (rule maps_inv_create [OF i1])
    assume "pool_pages (kernel_pool m1) \<subseteq> allocated m1"
    then have "card (pool_pages (kernel_pool m1)) \<le> card (allocated m1)" by (rule card_mono [OF fin])
    then show thesis using cards(1) m1(3) unfolding p1(1) by simp
  next
    fix pd m2
    assume cr: "pagedir_create m1 = Some (pd, m2)" "pd \<noteq> 0"
      and c: "maps_inv m2 (insert pd {})" "allocated m2 = insert pd (allocated m1)" "owned m2 pd = {pd}"
      and un: "\<And>a. \<not> mapped m2 pd a" and w: "\<And>w. pool_pages (the_pool w m2) = pool_pages (the_pool w m1)"
    have p2: "pool_pages (user_pool m2) = pool_pages (user_pool m)" "pool_pages (kernel_pool m2) = pool_pages (kernel_pool m)"
      using w [of True] w [of False] p1 by (simp_all add: the_pool_def)
    have kernel: "allocated m2 \<subseteq> pool_pages (kernel_pool m)" using c(2) m1(4) maps_invD(2) [OF c(1), of pd] p2 by (auto simp: owned_def)
    have fl: "PAL_USER AND PAL_ASSERT = 0" "PAL_USER AND PAL_USER \<noteq> 0" by (simp_all add: PAL_USER_def PAL_ASSERT_def)
    show thesis
    proof (rule maps_inv_get_user [OF c(1) fl])
      assume "pool_pages (user_pool m2) \<subseteq> allocated m2"
      then have "pool_pages (user_pool m) = {}" using p2 kernel pools_disjoint [OF m(1)] by auto
      then show thesis using cards(2) uc by simp
    next
      fix p m3
      assume g: "maps_inv m3 (insert pd {})" "p \<in> pool_pages (user_pool m2)" "allocated m3 = insert p (allocated m2)"
        and w3: "\<And>w. pool_pages (the_pool w m3) = pool_pages (the_pool w m2)"
        and pte: "\<And>pd' a. pd' \<in> insert pd {} \<Longrightarrow> is_user_vaddr a \<Longrightarrow> pte_of m3 pd' a = pte_of m2 pd' a"
        and r3: "ram m3 = (if PAL_USER AND PAL_ZERO \<noteq> 0 then mem_put (ram m2) p (replicate PGSIZE 0) else ram m2)"
      have "pool_pages (user_pool m3) = pool_pages (user_pool m2)" using w3 [of True] by (simp add: the_pool_def)
      moreover have "\<not> mapped m3 pd a" for a using un [of a] pte [of pd a] by (auto simp: mapped_def)
      moreover have "kernel_half m3 {pd}"
      proof -
        have "ram m3 = ram m2" using r3 by (simp add: PAL_USER_def PAL_ZERO_def)
        then have "pde_of m3 pd i = pde_of m1 (init_page_dir m1) i" if "unat i < 1024" for i
          using pagedir_create_kernel [OF m1(1) cr that] by (simp add: pde_of_def)
        then show ?thesis using m1(5) by (simp add: kernel_half_def)
      qed
      moreover have "pool_pages (kernel_pool m3) = pool_pages (kernel_pool m)" using w3 [of False] p2 by (simp add: the_pool_def)
      moreover have "\<not> pool_pages (kernel_pool m) \<subseteq> allocated m3"
      proof
        assume "pool_pages (kernel_pool m) \<subseteq> allocated m3"
        then have "card (pool_pages (kernel_pool m)) \<le> card (allocated m3)" using g(3) c(2) fin by (intro card_mono) auto
        also have "\<dots> \<le> 4" using g(3) c(2) m1(3) card_insert_le_m1 [of 4 "allocated m2" p] card_insert_le_m1 [of 3 "allocated m1" pd] by simp
        finally show False using cards(1) by simp
      qed
      moreover have "pool_pages (user_pool m) \<inter> allocated m3 = {p}"
        using g(2,3) kernel pools_disjoint [OF m(1)] p2 by auto
      ultimately show thesis using that [of m3 pd p] g cards p2 by simp
    qed
  qed
qed

lemma demo_directory:
  obtains m pd kpage where "maps_inv m {pd}" "\<And>a. \<not> mapped m pd a" "kpage \<in> pool_pages (user_pool m)" "kpage \<in> allocated m"
    "kernel_half m {pd}" "\<not> pool_pages (kernel_pool m) \<subseteq> allocated m" "\<not> pool_pages (user_pool m) \<subseteq> allocated m"
proof (rule demo_palloc)
  fix m assume m: "palloc_inv m" "allocated m = {}" "init_ram_pages m = 512"
    "bit_cnt (used_map (kernel_pool m)) = 155" "bit_cnt (used_map (user_pool m)) = 99"
  show thesis
  proof (rule boot_directory [OF m(1-3)])
    fix m' pd kpage
    assume d: "maps_inv m' {pd}" "pool_pages (user_pool m') \<inter> allocated m' = {kpage}"
      "kernel_half m' {pd}" "\<not> pool_pages (kernel_pool m') \<subseteq> allocated m'" "card (pool_pages (user_pool m')) = bit_cnt (used_map (user_pool m))"
      and un: "\<And>a. \<not> mapped m' pd a"
    have "pool_pages (user_pool m') \<noteq> {kpage}" using d(5) m(5) by auto
    then show thesis using that [of m' pd kpage] d un by blast
  qed (use m in simp_all)
qed

lemma pagedir_set_clear_witness:
  "\<exists>m pd kpage ok m'. maps_inv m {pd} \<and> pagedir_set_page pd 0x8048000 kpage True m = Some (ok, m') \<and> maps_inv m' {pd}"
proof (rule demo_directory)
  fix m pd kpage
  assume d: "maps_inv m {pd}" and un: "\<And>a. \<not> mapped m pd a" and k: "kpage \<in> pool_pages (user_pool m)" "kpage \<in> allocated m"
  have a: "page_aligned 0x8048000" "is_user_vaddr 0x8048000"
    by (simp_all add: pg_ofs_def PGMASK_def BITMASK_def is_user_vaddr_def PHYS_BASE_def)
  have "pagedir_get_page pd 0x8048000 m = Some 0" using pagedir_get_page_ok [OF d _ a(2)] un by simp
  moreover have "\<forall>pd'\<in>{pd}. kpage \<notin> frames m pd'" using un by (simp add: frames_def)
  ultimately show ?thesis using pagedir_set_clear [OF d _ a _ k, of pd True] d by blast
qed

text \<open>
  C24: destroying a page directory. On the directory of a process \<^verbatim>\<open>pagedir_destroy\<close> never faults: it
  frees exactly the directory, its tables and the pages they map, each once, and the
  directories of all other processes keep their translations.
\<close>

theorem pagedir_destroy_frees:
  assumes "maps_inv m D" "pd \<in> D"
  shows "\<exists>m'. pagedir_destroy pd m = Some m' \<and> allocated m' = allocated m - ({pd} \<union> page_tables m pd \<union> frames m pd) \<and>
    maps_inv m' (D - {pd}) \<and>
    (\<forall>pd'\<in>D - {pd}. \<forall>a. is_user_vaddr a \<longrightarrow> pagedir_get_page pd' a m' = pagedir_get_page pd' a m)"
proof -
  obtain m' where m': "pagedir_destroy pd m = Some m'" "freed m m' (owned m pd \<union> frames m pd)"
    using pagedir_destroy_ok [OF assms] by blast
  note d = maps_inv_destroy [OF assms m'(2)]
  have "pagedir_get_page pd' a m' = pagedir_get_page pd' a m" if "pd' \<in> D - {pd}" "is_user_vaddr a" for pd' a
    using pagedir_get_page_ok [OF d(1) that] pagedir_get_page_ok [OF assms(1) _ that(2), of pd'] d(2) [OF that] that(1)
    by (simp add: mapped_def frame_of_def)
  then show ?thesis using m' d(1) by (auto simp: freed_def owned_def)
qed

lemma pagedir_destroy_frees_witness:
  "\<exists>m pd m'. maps_inv m {pd} \<and> pagedir_destroy pd m = Some m' \<and> maps_inv m' {}"
proof (rule demo_directory)
  fix m pd kpage assume d: "maps_inv m {pd}"
  show ?thesis using pagedir_destroy_frees [OF d, of pd] d by auto
qed

end
