(* ===== verification/Swap.thy ===== *)
theory Swap
  imports Block_Device
begin

text \<open>
  The swap area (\<^verbatim>\<open>vm/swap.c\<close>): a table of slots of eight sectors each on the block device with
  the swap role. \<open>swap_page_data\<close> is what a slot holds; the lemmas show that a page that is
  written to a slot is read back and that slots do not overlap, and what happens when no slot
  is free.
\<close>

section \<open>Operations\<close>

record swap_slot =
  slot_free :: bool
  block_sector :: nat

record swap =
  swap_block :: ptr
  swap_table :: "swap_slot list"
  swap_num_pages :: int

abbreviation (input) SWAP_PAGE_ERROR :: int where "SWAP_PAGE_ERROR \<equiv> - 1"

text \<open>
  The table comes from \<^verbatim>\<open>malloc\<close>: \<open>raw\<close> are the slots in the block it returns, \<open>None\<close> a null
  pointer. The number of pages is computed in 32 bits.
\<close>

definition swalloc_init :: "swap_slot list option \<Rightarrow> devices \<Rightarrow> swap option" where
  "swalloc_init raw d = do {
     b \<leftarrow> block_get_role BLOCK_SWAP d;
     k \<leftarrow> blocks d b;
     let n = s32 (int (u32 (block_size k * BLOCK_SECTOR_SIZE) div 4096));
     t \<leftarrow> foldM (\<lambda>t i. do { ASSERT (i < length t); Some (t[i := (t ! i)\<lparr>slot_free := True\<rparr>]) })
           (case raw of None \<Rightarrow> [] | Some t \<Rightarrow> t) [0..<nat n];
     Some \<lparr>swap_block = b, swap_table = t, swap_num_pages = n\<rparr> }"

primrec swalloc_loop :: "nat \<Rightarrow> swap_slot list \<Rightarrow> nat \<Rightarrow> (int \<times> swap_slot list) option" where
  "swalloc_loop 0 t i = Some (SWAP_PAGE_ERROR, t)"
| "swalloc_loop (Suc n) t i = do {
     ASSERT (i < length t);
     if slot_free (t ! i) then Some (int i, t[i := (t ! i)\<lparr>slot_free := False\<rparr>])
     else swalloc_loop n t (Suc i) }"

definition swalloc :: "swap \<Rightarrow> (int \<times> swap) option" where
  "swalloc s = do {
     (p, t) \<leftarrow> swalloc_loop (nat (swap_num_pages s)) (swap_table s) 0;
     Some (p, s\<lparr>swap_table := t\<rparr>) }"

definition swfree :: "int \<Rightarrow> swap \<Rightarrow> swap option" where
  "swfree p s = do {
     ASSERT (0 \<le> p \<and> nat p < length (swap_table s));
     Some (s\<lparr>swap_table := (swap_table s)[nat p := (swap_table s ! nat p)\<lparr>slot_free := True\<rparr>]\<rparr>) }"

text \<open>
  The sector of a page: \<^verbatim>\<open>swap_page * PGSIZE / BLOCK_SECTOR_SIZE\<close> in this order, as the macro expands,
  converted to a sector number.
\<close>

definition swap_sector :: "int \<Rightarrow> nat \<Rightarrow> nat" where
  "swap_sector p sector_ofs = nat ((s32 (p * 4096) sdiv 512 + int sector_ofs) mod 2 ^ 32)"

abbreviation (input) PG_NUM_SECTORS :: nat where "PG_NUM_SECTORS \<equiv> 8"

primrec swap_read_loop :: "nat \<Rightarrow> int \<Rightarrow> nat \<Rightarrow> swap \<Rightarrow> devices \<Rightarrow> (byte list \<times> devices) option" where
  "swap_read_loop 0 p sector_ofs s d = Some ([], d)"
| "swap_read_loop (Suc n) p sector_ofs s d = do {
     (b, d) \<leftarrow> block_read (swap_block s) (swap_sector p sector_ofs) d;
     (bs, d) \<leftarrow> swap_read_loop n p (Suc sector_ofs) s d;
     Some (b @ bs, d) }"

definition swap_page_read :: "int \<Rightarrow> swap \<Rightarrow> devices \<Rightarrow> (byte list \<times> devices) option" where
  "swap_page_read p s d = swap_read_loop PG_NUM_SECTORS p 0 s d"

primrec swap_write_loop :: "nat \<Rightarrow> int \<Rightarrow> nat \<Rightarrow> byte list \<Rightarrow> swap \<Rightarrow> devices \<Rightarrow> devices option" where
  "swap_write_loop 0 p sector_ofs buf s d = Some d"
| "swap_write_loop (Suc n) p sector_ofs buf s d = do {
     d \<leftarrow> block_write (swap_block s) (swap_sector p sector_ofs) (take BLOCK_SECTOR_SIZE buf) d;
     swap_write_loop n p (Suc sector_ofs) (drop BLOCK_SECTOR_SIZE buf) s d }"

definition swap_page_write :: "int \<Rightarrow> byte list \<Rightarrow> swap \<Rightarrow> devices \<Rightarrow> devices option" where
  "swap_page_write p buf s d = swap_write_loop PG_NUM_SECTORS p 0 buf s d"

section \<open>Slots\<close>

text \<open>
  The table has one slot for each eight sectors of a device whose byte addresses fit an
  \<^verbatim>\<open>int\<close>.
\<close>

definition swap_ok :: "swap \<Rightarrow> devices \<Rightarrow> bool" where
  "swap_ok s d \<longleftrightarrow> locate d (swap_block s) \<noteq> None \<and> device_size d (swap_block s) < 2 ^ 22 \<and>
     swap_num_pages s = int (device_size d (swap_block s) div 8) \<and>
     length (swap_table s) = device_size d (swap_block s) div 8 \<and>
     (\<forall>x < device_size d (swap_block s). length (device_data d (swap_block s) x) = BLOCK_SECTOR_SIZE)"

definition swap_slots :: "swap \<Rightarrow> nat" where
  "swap_slots s = length (swap_table s)"

definition swap_page_data :: "swap \<Rightarrow> devices \<Rightarrow> nat \<Rightarrow> byte list" where
  "swap_page_data s d p = concat (map (device_data d (swap_block s)) [8 * p..<8 * p + 8])"

lemma swap_sector_ok:
  assumes "swap_ok s d" "p < swap_slots s" "k < 8"
  shows "swap_sector (int p) k = 8 * p + k" "8 * p + k < device_size d (swap_block s)"
proof -
  have s: "device_size d (swap_block s) < 2 ^ 22" "p < device_size d (swap_block s) div 8"
    using assms(1,2) by (simp_all add: swap_ok_def swap_slots_def)
  then have b: "8 * p + 8 \<le> device_size d (swap_block s)"
    using div_mult_mod_eq [of "device_size d (swap_block s)" 8] by linarith
  then show "8 * p + k < device_size d (swap_block s)" using assms(3) by simp
  have p: "int p * 4096 < 2 ^ 31" using b s(1) by simp
  then have "s32 (int p * 4096) = int p * 4096" by (intro s32_id) simp_all
  moreover have "int p * 4096 sdiv 512 = int (8 * p)" by (simp add: signed_divide_int_def sgn_if)
  moreover have "(int (8 * p) + int k) mod 2 ^ 32 = int (8 * p + k)" using b s(1) assms(3) by simp
  ultimately show "swap_sector (int p) k = 8 * p + k" unfolding swap_sector_def by simp
qed

lemma swap_read_loop_ok:
  assumes "swap_ok s d" "p < swap_slots s" "k + n = 8"
  shows "\<exists>d'. swap_read_loop n (int p) k s d = Some (concat (map (device_data d (swap_block s)) [8 * p + k..<8 * p + 8]), d') \<and>
    same_devices d d' \<and> disks d' = disks d"
  using assms
proof (induction n arbitrary: k d)
  case (Suc n)
  note sec = swap_sector_ok [OF Suc.prems(1,2), of k]
  have k: "k < 8" using Suc.prems(3) by simp
  obtain d1 where d1: "block_read (swap_block s) (8 * p + k) d = Some (device_data d (swap_block s) (8 * p + k), d1)"
    "same_devices d d1" "disks d1 = disks d"
    using block_read_ok [of d "swap_block s" "8 * p + k"] Suc.prems(1) sec k by (auto simp: swap_ok_def)
  note same = device_data_cong [OF d1(2,3)]
  have "swap_ok s d1" using Suc.prems(1) locate_cong [OF d1(2)] device_size_cong [OF d1(2)] same by (simp add: swap_ok_def)
  from Suc.IH [OF this Suc.prems(2), of "Suc k"] Suc.prems(3) obtain d2 where
    d2: "swap_read_loop n (int p) (Suc k) s d1 = Some (concat (map (device_data d1 (swap_block s)) [8 * p + Suc k..<8 * p + 8]), d2)"
    "same_devices d1 d2" "disks d2 = disks d1" by auto
  have "[8 * p + k..<8 * p + 8] = (8 * p + k) # [8 * p + Suc k..<8 * p + 8]" using k by (simp add: upt_rec)
  then show ?case using d1 d2 sec k same same_devices_trans by auto
qed simp

lemma swap_page_read_ok:
  assumes "swap_ok s d" "p < swap_slots s"
  shows "\<exists>d'. swap_page_read (int p) s d = Some (swap_page_data s d p, d') \<and> same_devices d d' \<and> disks d' = disks d"
  using swap_read_loop_ok [OF assms, of 0 8] by (simp add: swap_page_read_def swap_page_data_def)


lemma swap_ok_same:
  assumes "swap_ok s d" "same_devices d d'"
    "\<And>x. x < device_size d (swap_block s) \<Longrightarrow> length (device_data d' (swap_block s) x) = BLOCK_SECTOR_SIZE"
  shows "swap_ok s d'"
  using assms(1,3) locate_cong [OF assms(2)] device_size_cong [OF assms(2)] by (simp add: swap_ok_def)

lemma swap_write_loop_ok:
  assumes "swap_ok s d" "p < swap_slots s" "k + n = 8" "length buf = n * BLOCK_SECTOR_SIZE"
  shows "\<exists>d'. swap_write_loop n (int p) k buf s d = Some d' \<and> swap_ok s d' \<and> same_devices d d' \<and>
    device_data d' (swap_block s) = (\<lambda>x. if 8 * p + k \<le> x \<and> x < 8 * p + 8
      then take BLOCK_SECTOR_SIZE (drop (BLOCK_SECTOR_SIZE * (x - (8 * p + k))) buf) else device_data d (swap_block s) x)"
  using assms
proof (induction n arbitrary: k d buf)
  case 0
  then show ?case by (auto simp: fun_eq_iff)
next
  case (Suc n)
  note sec = swap_sector_ok [OF Suc.prems(1,2), of k]
  have k: "k < 8" using Suc.prems(3) by simp
  let ?b = "take BLOCK_SECTOR_SIZE buf"
  obtain d1 where d1: "block_write (swap_block s) (8 * p + k) ?b d = Some d1" "same_devices d d1"
    "device_data d1 (swap_block s) = (device_data d (swap_block s))(8 * p + k := ?b)"
    using block_write_data [of d "swap_block s" "8 * p + k" ?b] Suc.prems(1) sec k by (auto simp: swap_ok_def)
  have ok1: "swap_ok s d1"
    by (rule swap_ok_same [OF Suc.prems(1) d1(2)]) (use d1(3) Suc.prems(1,4) in \<open>simp add: swap_ok_def\<close>)
  from Suc.IH [OF this Suc.prems(2), of "Suc k" "drop BLOCK_SECTOR_SIZE buf"] Suc.prems(3,4) obtain d2 where
    d2: "swap_write_loop n (int p) (Suc k) (drop BLOCK_SECTOR_SIZE buf) s d1 = Some d2" "swap_ok s d2" "same_devices d1 d2"
    "device_data d2 (swap_block s) = (\<lambda>x. if 8 * p + Suc k \<le> x \<and> x < 8 * p + 8
      then take BLOCK_SECTOR_SIZE (drop (BLOCK_SECTOR_SIZE * (x - (8 * p + Suc k))) (drop BLOCK_SECTOR_SIZE buf))
      else device_data d1 (swap_block s) x)"
    by auto
  have "device_data d2 (swap_block s) = (\<lambda>x. if 8 * p + k \<le> x \<and> x < 8 * p + 8
      then take BLOCK_SECTOR_SIZE (drop (BLOCK_SECTOR_SIZE * (x - (8 * p + k))) buf) else device_data d (swap_block s) x)"
  proof
    fix x
    have "BLOCK_SECTOR_SIZE * (x - (8 * p + Suc k)) + BLOCK_SECTOR_SIZE = BLOCK_SECTOR_SIZE * (x - (8 * p + k))"
      if "8 * p + Suc k \<le> x"
    proof -
      have "x - (8 * p + k) = Suc (x - (8 * p + Suc k))" using that by simp
      then show ?thesis by simp
    qed
    then show "device_data d2 (swap_block s) x = (if 8 * p + k \<le> x \<and> x < 8 * p + 8
      then take BLOCK_SECTOR_SIZE (drop (BLOCK_SECTOR_SIZE * (x - (8 * p + k))) buf) else device_data d (swap_block s) x)"
      unfolding d2(4) d1(3) using k by (cases "x = 8 * p + k") (auto simp: add.commute)
  qed
  then show ?case using d1(1) d2(1-3) sec k same_devices_trans [OF d1(2) d2(3)] by simp
qed

lemma concat_chunks: "length buf = n * BLOCK_SECTOR_SIZE \<Longrightarrow>
  concat (map (\<lambda>i. take BLOCK_SECTOR_SIZE (drop (BLOCK_SECTOR_SIZE * i) buf)) [0..<n]) = buf"
proof (induction n arbitrary: buf)
  case (Suc n)
  have "[0..<Suc n] = 0 # map Suc [0..<n]" by (simp add: upt_conv_Cons map_Suc_upt del: upt_Suc)
  moreover have "drop (BLOCK_SECTOR_SIZE * Suc i) buf = drop (BLOCK_SECTOR_SIZE * i) (drop BLOCK_SECTOR_SIZE buf)" for i
    by (simp add: add.commute)
  ultimately show ?case using Suc.IH [of "drop BLOCK_SECTOR_SIZE buf"] Suc.prems by (simp add: comp_def del: upt_Suc)
qed simp

lemma swap_page_write_ok:
  assumes "swap_ok s d" "p < swap_slots s" "length buf = 4096"
  shows "\<exists>d'. swap_page_write (int p) buf s d = Some d' \<and> swap_ok s d' \<and> same_devices d d' \<and>
    (\<forall>q. swap_page_data s d' q = (if q = p then buf else swap_page_data s d q))"
proof -
  obtain d' where d': "swap_write_loop 8 (int p) 0 buf s d = Some d'" "swap_ok s d'" "same_devices d d'"
    "device_data d' (swap_block s) = (\<lambda>x. if 8 * p \<le> x \<and> x < 8 * p + 8
      then take BLOCK_SECTOR_SIZE (drop (BLOCK_SECTOR_SIZE * (x - 8 * p)) buf) else device_data d (swap_block s) x)"
    using swap_write_loop_ok [OF assms(1,2), of 0 8 buf, unfolded add_0_right] assms(3) by auto
  have "swap_page_data s d' p = buf"
  proof -
    have "[8 * p..<8 * p + 8] = map (\<lambda>i. i + 8 * p) [0..<8]" using map_add_upt [of "8 * p" 8] by (simp only: add.commute)
    then have "swap_page_data s d' p = concat (map (\<lambda>i. take BLOCK_SECTOR_SIZE (drop (BLOCK_SECTOR_SIZE * i) buf)) [0..<8])"
      unfolding swap_page_data_def d'(4) by (auto simp: comp_def intro!: arg_cong [of _ _ concat] map_cong)
    then show ?thesis using concat_chunks [of buf 8] assms(3) by simp
  qed
  moreover have "swap_page_data s d' q = swap_page_data s d q" if "q \<noteq> p" for q
    unfolding swap_page_data_def d'(4) using that by (auto intro!: arg_cong [of _ _ concat] map_cong)
  ultimately show ?thesis using d' by (auto simp: swap_page_write_def)
qed

text \<open>The first free slot.\<close>

lemma swalloc_loop_ok:
  assumes "i + n \<le> length t"
  shows "\<exists>p t'. swalloc_loop n t i = Some (p, t') \<and>
    (if p = SWAP_PAGE_ERROR then t' = t \<and> (\<forall>j. i \<le> j \<and> j < i + n \<longrightarrow> \<not> slot_free (t ! j))
     else \<exists>k. p = int k \<and> i \<le> k \<and> k < i + n \<and> slot_free (t ! k) \<and> (\<forall>j. i \<le> j \<and> j < k \<longrightarrow> \<not> slot_free (t ! j)) \<and>
       t' = t[k := (t ! k)\<lparr>slot_free := False\<rparr>])"
  using assms
proof (induction n arbitrary: i)
  case (Suc n)
  have il: "i < length t" using Suc.prems by simp
  show ?case
  proof (cases "slot_free (t ! i)")
    case True
    then show ?thesis using il by auto
  next
    case False
    obtain p t' where pt: "swalloc_loop n t (Suc i) = Some (p, t')"
      "if p = SWAP_PAGE_ERROR then t' = t \<and> (\<forall>j. Suc i \<le> j \<and> j < Suc i + n \<longrightarrow> \<not> slot_free (t ! j))
       else \<exists>k. p = int k \<and> Suc i \<le> k \<and> k < Suc i + n \<and> slot_free (t ! k) \<and> (\<forall>j. Suc i \<le> j \<and> j < k \<longrightarrow> \<not> slot_free (t ! j)) \<and>
         t' = t[k := (t ! k)\<lparr>slot_free := False\<rparr>]"
      using Suc.IH [of "Suc i"] Suc.prems by auto
    have low: "i = j \<or> Suc i \<le> j" if "i \<le> j" for j using that by auto
    have run: "swalloc_loop (Suc n) t i = Some (p, t')" using False il pt(1) by simp
    show ?thesis
    proof (cases "p = SWAP_PAGE_ERROR")
      case True
      then have "t' = t" "\<And>j. Suc i \<le> j \<Longrightarrow> j < i + Suc n \<Longrightarrow> \<not> slot_free (t ! j)" using pt(2) by auto
      then show ?thesis using run True False low by auto
    next
      case ne: False
      then obtain k where k: "p = int k" "Suc i \<le> k" "k < i + Suc n" "slot_free (t ! k)" "\<And>j. Suc i \<le> j \<Longrightarrow> j < k \<Longrightarrow> \<not> slot_free (t ! j)"
        "t' = t[k := (t ! k)\<lparr>slot_free := False\<rparr>]" using pt(2) by auto
      have "\<not> slot_free (t ! j)" if "i \<le> j" "j < k" for j using low [OF that(1)] k(5) that(2) False by auto
      then show ?thesis using run ne k by (intro exI [of _ p] exI [of _ t']) auto
    qed
  qed
qed auto

definition free_slot :: "swap \<Rightarrow> nat \<Rightarrow> bool" where
  "free_slot s p \<longleftrightarrow> p < swap_slots s \<and> slot_free (swap_table s ! p)"

lemma swap_ok_table: "length t = length (swap_table s) \<Longrightarrow> swap_ok (s\<lparr>swap_table := t\<rparr>) d = swap_ok s d"
  by (simp add: swap_ok_def)

lemma swap_page_data_table [simp]: "swap_page_data (s\<lparr>swap_table := t\<rparr>) d p = swap_page_data s d p"
  by (simp add: swap_page_data_def)

lemma swalloc_ok:
  assumes "swap_ok s d"
  obtains (full) "swalloc s = Some (SWAP_PAGE_ERROR, s)" "\<And>p. \<not> free_slot s p"
  | (slot) p s' where "swalloc s = Some (int p, s')" "free_slot s p" "swap_ok s' d" "swap_slots s' = swap_slots s"
    "\<And>q. free_slot s' q \<longleftrightarrow> free_slot s q \<and> q \<noteq> p" "swap_block s' = swap_block s" "\<And>d q. swap_page_data s' d q = swap_page_data s d q"
proof -
  have n: "nat (swap_num_pages s) = length (swap_table s)" using assms by (simp add: swap_ok_def)
  obtain p t' where pt: "swalloc_loop (length (swap_table s)) (swap_table s) 0 = Some (p, t')"
    "if p = SWAP_PAGE_ERROR then t' = swap_table s \<and> (\<forall>j. 0 \<le> j \<and> j < 0 + length (swap_table s) \<longrightarrow> \<not> slot_free (swap_table s ! j))
     else \<exists>k. p = int k \<and> 0 \<le> k \<and> k < 0 + length (swap_table s) \<and> slot_free (swap_table s ! k) \<and>
       (\<forall>j. 0 \<le> j \<and> j < k \<longrightarrow> \<not> slot_free (swap_table s ! j)) \<and>
       t' = (swap_table s)[k := (swap_table s ! k)\<lparr>slot_free := False\<rparr>]"
    using swalloc_loop_ok [of 0 "length (swap_table s)" "swap_table s"] by auto
  have run: "swalloc s = Some (p, s\<lparr>swap_table := t'\<rparr>)" using pt(1) n by (simp add: swalloc_def)
  show thesis
  proof (cases "p = SWAP_PAGE_ERROR")
    case True
    then show thesis using full run pt(2) by (simp add: free_slot_def swap_slots_def)
  next
    case False
    then obtain k where k: "p = int k" "k < length (swap_table s)" "slot_free (swap_table s ! k)"
      "t' = (swap_table s)[k := (swap_table s ! k)\<lparr>slot_free := False\<rparr>]" using pt(2) by auto
    let ?s = "s\<lparr>swap_table := t'\<rparr>"
    show thesis
    proof (rule slot [of k ?s])
      show "swap_ok ?s d" using assms k(4) by (simp add: swap_ok_table)
      show "free_slot ?s q \<longleftrightarrow> free_slot s q \<and> q \<noteq> k" for q
        using k by (auto simp: free_slot_def swap_slots_def nth_list_update)
    qed (use run k in \<open>auto simp: free_slot_def swap_slots_def\<close>)
  qed
qed

lemma swfree_ok:
  assumes "swap_ok s d" "p < swap_slots s"
  shows "\<exists>s'. swfree (int p) s = Some s' \<and> swap_ok s' d \<and> swap_slots s' = swap_slots s \<and>
    (\<forall>q. free_slot s' q \<longleftrightarrow> free_slot s q \<or> q = p) \<and> swap_block s' = swap_block s \<and>
    (\<forall>d q. swap_page_data s' d q = swap_page_data s d q)"
  using assms by (auto simp: swfree_def swap_slots_def swap_ok_table free_slot_def nth_list_update)


text \<open>The initial table: every slot is free.\<close>

lemma mark_free_ok:
  assumes "n \<le> length t"
  shows "foldM (\<lambda>t i. do { ASSERT (i < length t); Some (t[i := (t ! i)\<lparr>slot_free := True\<rparr>]) }) t [0..<n] =
    Some (map (\<lambda>x. x\<lparr>slot_free := True\<rparr>) (take n t) @ drop n t)"
  using assms
proof (induction n)
  case (Suc n)
  then have n: "n < length t" by simp
  have "(map (\<lambda>x. x\<lparr>slot_free := True\<rparr>) (take n t) @ drop n t)[n := (t ! n)\<lparr>slot_free := True\<rparr>] =
    map (\<lambda>x. x\<lparr>slot_free := True\<rparr>) (take (Suc n) t) @ drop (Suc n) t"
    using n by (simp add: list_update_append take_Suc_conv_app_nth Cons_nth_drop_Suc [symmetric])
  then show ?case using Suc n by (simp add: foldM_append nth_append)
qed simp

lemma swalloc_init_ok:
  assumes d: "locate d b \<noteq> None" "device_size d b < 2 ^ 22" "block_by_role d BLOCK_SWAP = b"
    "\<And>x. x < device_size d b \<Longrightarrow> length (device_data d b x) = BLOCK_SECTOR_SIZE"
    and t: "length t = device_size d b div 8"
  shows "\<exists>s. swalloc_init (Some t) d = Some s \<and> swap_ok s d \<and> (\<forall>p < swap_slots s. free_slot s p)"
proof -
  obtain k where k: "blocks d b = Some k"
    using d(1) by (cases "length (all_blocks d)"; cases "blocks d b") (auto simp: locate_def)
  have sz: "device_size d b = block_size k" using k by (simp add: device_size_def)
  have "u32 (block_size k * BLOCK_SECTOR_SIZE) div 4096 = block_size k div 8"
  proof -
    have "u32 (block_size k * BLOCK_SECTOR_SIZE) = block_size k * BLOCK_SECTOR_SIZE" using d(2) sz by simp
    moreover have "block_size k * BLOCK_SECTOR_SIZE div (BLOCK_SECTOR_SIZE * 8) = block_size k div 8"
      using div_mult_mult1 [of BLOCK_SECTOR_SIZE "block_size k" 8] by (simp add: mult.commute)
    ultimately show ?thesis by simp
  qed
  moreover have "s32 (int (block_size k div 8)) = int (block_size k div 8)"
    using d(2) sz by (intro s32_id) simp_all
  ultimately have n: "s32 (int (u32 (block_size k * BLOCK_SECTOR_SIZE) div 4096)) = int (length t)" using t sz by simp
  let ?s = "\<lparr>swap_block = b, swap_table = map (\<lambda>x. x\<lparr>slot_free := True\<rparr>) t, swap_num_pages = int (length t)\<rparr>"
  have "swalloc_init (Some t) d = Some ?s"
    using k d(3) n mark_free_ok [of "length t" t] by (simp add: swalloc_init_def block_get_role_def is_role_def)
  moreover have "swap_ok ?s d" using d t by (simp add: swap_ok_def)
  ultimately show ?thesis by (auto simp: free_slot_def swap_slots_def)
qed

section \<open>Properties\<close>

text \<open>
  C27: swapping a page out and in. While a slot is free, \<^verbatim>\<open>swalloc\<close> returns one that was free and
  marks exactly that one; a page written to it is read back unchanged, no other slot's
  contents change, and \<^verbatim>\<open>swfree\<close> makes the slot available again.
\<close>

theorem swap_out_in:
  assumes "swap_ok s d" "free_slot s q" "length buf = 4096"
  shows "\<exists>p s' d'. swalloc s = Some (int p, s') \<and> free_slot s p \<and> (\<forall>r. free_slot s' r \<longleftrightarrow> free_slot s r \<and> r \<noteq> p) \<and>
    swap_page_write (int p) buf s' d = Some d' \<and> swap_ok s' d' \<and>
    (\<forall>r. r \<noteq> p \<longrightarrow> swap_page_data s' d' r = swap_page_data s d r) \<and>
    (\<exists>d''. swap_page_read (int p) s' d' = Some (buf, d'')) \<and>
    (\<exists>s''. swfree (int p) s' = Some s'' \<and> (\<forall>r. free_slot s'' r \<longleftrightarrow> free_slot s r))"
proof (rule swalloc_ok [OF assms(1)])
  assume "\<And>p. \<not> free_slot s p"
  then show ?thesis using assms(2) by blast
next
  fix p s'
  assume a: "swalloc s = Some (int p, s')" "free_slot s p" "swap_ok s' d" "swap_slots s' = swap_slots s" "swap_block s' = swap_block s"
    and f: "\<And>q. free_slot s' q \<longleftrightarrow> free_slot s q \<and> q \<noteq> p" and dt: "\<And>d q. swap_page_data s' d q = swap_page_data s d q"
  have p: "p < swap_slots s'" using a(2,4) by (simp add: free_slot_def)
  obtain d' where d': "swap_page_write (int p) buf s' d = Some d'" "swap_ok s' d'"
    "\<forall>q. swap_page_data s' d' q = (if q = p then buf else swap_page_data s' d q)"
    using swap_page_write_ok [OF a(3) p assms(3)] by blast
  obtain d'' where d'': "swap_page_read (int p) s' d' = Some (buf, d'')"
    using swap_page_read_ok [OF d'(2) p] d'(3) by auto
  obtain s'' where s'': "swfree (int p) s' = Some s''" "\<forall>q. free_slot s'' q \<longleftrightarrow> free_slot s' q \<or> q = p"
    using swfree_ok [OF a(3) p] by blast
  show ?thesis
    using a d' d'' s'' f dt by (intro exI [of _ p] exI [of _ s'] exI [of _ d']) auto
qed

text \<open>A device of 64 sectors with the swap role.\<close>

definition demo_swap_devices :: devices where
  "demo_swap_devices = \<lparr>blocks = (\<lambda>b. if b = 1 then Some \<lparr>block_name = ''hdb'', block_type = BLOCK_RAW, block_size = 64,
       ops = Ide_operations, aux = 7, read_cnt = 0, write_cnt = 0\<rparr> else None),
     all_blocks = [1], block_by_role = (\<lambda>r. if r = BLOCK_SWAP then 1 else 0), partitions = (\<lambda>_. None),
     disks = (\<lambda>_ _. replicate 512 0), brk = 8, mem_full = False\<rparr>"

definition demo_swap :: swap where
  "demo_swap = \<lparr>swap_block = 1, swap_table = replicate 8 \<lparr>slot_free = True, block_sector = 0\<rparr>, swap_num_pages = 8\<rparr>"

lemma demo_swap_ok: "swap_ok demo_swap demo_swap_devices"
  by (simp add: swap_ok_def demo_swap_def demo_swap_devices_def locate_def device_size_def device_data_def)

lemma swap_out_in_witness:
  "\<exists>p s' d'. swalloc demo_swap = Some (int p, s') \<and> swap_page_write (int p) (replicate 4096 7) s' demo_swap_devices = Some d' \<and>
    (\<exists>d''. swap_page_read (int p) s' d' = Some (replicate 4096 7, d''))"
proof -
  have "free_slot demo_swap 0" by (simp add: free_slot_def swap_slots_def demo_swap_def)
  from swap_out_in [OF demo_swap_ok this, of "replicate 4096 7"] show ?thesis by auto
qed

text \<open>
  A full swap area. When no slot is free \<^verbatim>\<open>swalloc\<close> returns -1. The page fault handler's
  allocator passes that number on to \<^verbatim>\<open>swap_page_write\<close>, which addresses a sector beyond the device and
  panics.
\<close>

theorem swap_full_panics:
  assumes "swap_ok s d" "\<And>p. \<not> free_slot s p"
  shows "swalloc s = Some (SWAP_PAGE_ERROR, s) \<and> swap_page_write SWAP_PAGE_ERROR buf s d = None"
proof
  show "swalloc s = Some (SWAP_PAGE_ERROR, s)"
    by (rule swalloc_ok [OF assms(1)]) (use assms(2) in auto)
  have sec: "swap_sector SWAP_PAGE_ERROR 0 = 2 ^ 32 - 8"
    by (simp add: swap_sector_def s32_def signed_divide_int_def)
  have "device_size d (swap_block s) < 2 ^ 22" using assms(1) by (simp add: swap_ok_def)
  then have "block_write_n n (swap_block s) (2 ^ 32 - 8) buf' d = None" for n buf'
    by (cases n; cases "blocks d (swap_block s)") (auto simp: check_sector_def device_size_def)
  then have "block_write (swap_block s) (swap_sector SWAP_PAGE_ERROR 0) buf' d = None" for buf'
    unfolding sec block_write_def by blast
  then have "swap_write_loop (Suc n) SWAP_PAGE_ERROR 0 buf s d = None" for n by simp
  from this [of 7] show "swap_page_write SWAP_PAGE_ERROR buf s d = None" by (simp add: swap_page_write_def)
qed

lemma swap_full_panics_witness:
  "swap_page_write SWAP_PAGE_ERROR (replicate 4096 7) (demo_swap\<lparr>swap_table := replicate 8 \<lparr>slot_free = False, block_sector = 0\<rparr>\<rparr>)
     demo_swap_devices = None"
proof (rule conjunct2 [OF swap_full_panics])
  show "swap_ok (demo_swap\<lparr>swap_table := replicate 8 \<lparr>slot_free = False, block_sector = 0\<rparr>\<rparr>) demo_swap_devices"
    using demo_swap_ok by (simp add: swap_ok_def demo_swap_def)
qed (simp add: free_slot_def swap_slots_def)

end
