(* ===== verification/Vm.thy ===== *)
theory Vm
  imports Page_Mappings Swap Hash_Table Filesys
begin

text \<open>
  Virtual memory: the frame table (\<^verbatim>\<open>vm/frame.c\<close>), the supplemental page tables (\<^verbatim>\<open>vm/page.c\<close>) and the
  page fault handler (\<^verbatim>\<open>userprog/exception.c\<close>), over the page allocator, the page directories, the
  swap area, the hash tables and the file system. The operations run with \<^verbatim>\<open>page_lock\<close> or
  \<^verbatim>\<open>frame_lock\<close> held; the model records whether a lock is held, because acquiring a lock twice
  is a failed assertion.
\<close>

section \<open>State\<close>

datatype page_present = PRESENT_MEMORY | PRESENT_FILESYS | PRESENT_SWAP

text \<open>The members of \<^verbatim>\<open>struct page\<close> that some function reads.\<close>

record page =
  upage :: va
  kpage :: va
  present :: page_present
  writable :: bool
  page_tid :: int
  page_file :: ptr
  page_ofs :: int
  read_bytes :: nat
  zero_bytes :: nat
  swap_page :: int

record frame =
  fr_kpage :: va
  fr_page :: ptr
  last_accessed_tick :: int

text \<open>The members of \<^verbatim>\<open>struct thread\<close> that belong to a user program; a kernel thread has no process.\<close>

record vthread =
  pagedir :: va
  vprocess :: ptr
  stack_pages :: nat
  user_esp :: va

text \<open>
  The table of a process holds the addresses of its pages. \<open>heap_next\<close> is the next address that
  \<^verbatim>\<open>malloc\<close> returns, unless \<open>heap_full\<close> makes it fail.
\<close>

record vm =
  mach :: machine
  swap_area :: swap
  vfs :: fs
  pages :: "ptr \<Rightarrow> page option"
  frame_table :: "frame list"
  vthreads :: "int \<Rightarrow> vthread option"
  cur_tid :: int
  spage_tables :: "ptr \<Rightarrow> ptr hash"
  page_lock :: bool
  frame_lock :: bool
  vm_ticks :: int
  heap_next :: ptr
  heap_full :: bool

definition upd_page :: "ptr \<Rightarrow> (page \<Rightarrow> page) \<Rightarrow> vm \<Rightarrow> vm" where
  "upd_page p f v = v\<lparr>pages := (pages v)(p := map_option f (pages v p))\<rparr>"

definition set_dev :: "devices \<Rightarrow> vm \<Rightarrow> vm" where
  "set_dev d v = v\<lparr>vfs := (vfs v)\<lparr>bc := (bc (vfs v))\<lparr>dev := d\<rparr>\<rparr>\<rparr>"

abbreviation vdev :: "vm \<Rightarrow> devices" where
  "vdev v \<equiv> dev (bc (vfs v))"

definition vm_malloc :: "vm \<Rightarrow> ptr \<times> vm" where
  "vm_malloc v = (if heap_full v then (0, v) else (heap_next v, v\<lparr>heap_next := heap_next v + 1\<rparr>))"

definition acquire_page_lock :: "vm \<Rightarrow> vm option" where
  "acquire_page_lock v = do { ASSERT (\<not> page_lock v); Some (v\<lparr>page_lock := True\<rparr>) }"

definition release_page_lock :: "vm \<Rightarrow> vm option" where
  "release_page_lock v = do { ASSERT (page_lock v); Some (v\<lparr>page_lock := False\<rparr>) }"

definition acquire_frame_lock :: "vm \<Rightarrow> vm option" where
  "acquire_frame_lock v = do { ASSERT (\<not> frame_lock v); Some (v\<lparr>frame_lock := True\<rparr>) }"

definition release_frame_lock :: "vm \<Rightarrow> vm option" where
  "release_frame_lock v = do { ASSERT (frame_lock v); Some (v\<lparr>frame_lock := False\<rparr>) }"

section \<open>The frame table\<close>

definition falloc_init :: "vm \<Rightarrow> vm" where
  "falloc_init v = v\<lparr>frame_table := [], frame_lock := False\<rparr>"

text \<open>Unlinking the element at a position.\<close>

definition list_remove_at :: "nat \<Rightarrow> 'a list \<Rightarrow> 'a list" where
  "list_remove_at i xs = take i xs @ drop (Suc i) xs"

text \<open>The search for the frame to evict; the result is its position in the table.\<close>

fun evict_loop :: "frame list \<Rightarrow> nat \<Rightarrow> nat \<Rightarrow> frame \<Rightarrow> nat" where
  "evict_loop [] i lru lru_frame = lru"
| "evict_loop (f # fs) i lru lru_frame =
     (if last_accessed_tick f < last_accessed_tick lru_frame then evict_loop fs (Suc i) i f
      else evict_loop fs (Suc i) lru lru_frame)"

definition get_frame_to_evict :: "frame list \<Rightarrow> nat option" where
  "get_frame_to_evict ft = (case ft of [] \<Rightarrow> None | f # fs \<Rightarrow> Some (evict_loop fs 1 0 f))"

text \<open>
  The second half of \<^verbatim>\<open>falloc\<close>, when the user pool is exhausted: a page that is unmodified and comes from
  a file is left to the file, any other page is written to swap. The record of the page to evict is
  read again where the code reads it through the pointer, since it may be the page that asks.
\<close>

definition evict_out :: "ptr \<Rightarrow> vm \<Rightarrow> vm option" where
  "evict_out evict_page v = do {
     e \<leftarrow> pages v evict_page;
     t \<leftarrow> vthreads v (page_tid e);
     d1 \<leftarrow> pagedir_is_dirty (pagedir t) (upage e) (mach v);
     d2 \<leftarrow> (if d1 then Some True else pagedir_is_dirty (pagedir t) (kpage e) (mach v));
     if \<not> d1 \<and> \<not> d2 \<and> page_file e \<noteq> 0
     then Some (upd_page evict_page (\<lambda>r. r\<lparr>present := PRESENT_FILESYS\<rparr>) v)
     else do {
       (sp, s) \<leftarrow> swalloc (swap_area v);
       d \<leftarrow> swap_page_write sp (mem_get (ram (mach v)) (kpage e) PGSIZE) s (vdev v);
       Some (upd_page evict_page (\<lambda>r. r\<lparr>present := PRESENT_SWAP, swap_page := sp\<rparr>)
               (set_dev d (v\<lparr>swap_area := s\<rparr>))) } }"

definition evict_to :: "ptr \<Rightarrow> vm \<Rightarrow> (va \<times> vm) option" where
  "evict_to page v = do {
     i \<leftarrow> get_frame_to_evict (frame_table v);
     let evict_frame = frame_table v ! i;
     let evict_page = fr_page evict_frame;
     let rest = list_remove_at i (frame_table v);
     v \<leftarrow> evict_out evict_page (v\<lparr>frame_table := rest @ [evict_frame]\<rparr>);
     let v = v\<lparr>frame_table := rest @ [evict_frame\<lparr>fr_page := page\<rparr>]\<rparr>;
     e \<leftarrow> pages v evict_page;
     let v = upd_page page (\<lambda>r. r\<lparr>kpage := kpage e\<rparr>) v;
     let v = upd_page evict_page (\<lambda>r. r\<lparr>kpage := 0\<rparr>) v;
     m \<leftarrow> (case vthreads v (page_tid e) of None \<Rightarrow> Some (mach v)
           | Some t \<Rightarrow> pagedir_clear_page (pagedir t) (upage e) (mach v));
     v \<leftarrow> release_frame_lock (v\<lparr>mach := m\<rparr>);
     r \<leftarrow> pages v page;
     Some (kpage r, v) }"

definition falloc :: "ptr \<Rightarrow> 32 word \<Rightarrow> vm \<Rightarrow> (va \<times> vm) option" where
  "falloc page flags v = do {
     v \<leftarrow> acquire_frame_lock v;
     (k, m) \<leftarrow> palloc_get_page flags (mach v);
     let v = v\<lparr>mach := m\<rparr>;
     if k \<noteq> 0 then do {
       ASSERT (\<not> heap_full v);
       _ \<leftarrow> pages v page;
       let v = upd_page page (\<lambda>r. r\<lparr>kpage := k\<rparr>) v;
       let v = v\<lparr>frame_table := frame_table v @ [\<lparr>fr_kpage = k, fr_page = page, last_accessed_tick = vm_ticks v\<rparr>]\<rparr>;
       v \<leftarrow> release_frame_lock v;
       Some (k, v) }
     else evict_to page v }"

text \<open>\<^verbatim>\<open>get_frame\<close> gives the position of the first frame with that kernel page.\<close>

fun get_frame :: "va \<Rightarrow> frame list \<Rightarrow> nat option" where
  "get_frame k [] = None"
| "get_frame k (f # fs) = (if fr_kpage f = k then Some 0 else map_option Suc (get_frame k fs))"

definition ffree :: "va \<Rightarrow> vm \<Rightarrow> vm option" where
  "ffree k v = do {
     v \<leftarrow> acquire_frame_lock v;
     let v = (case get_frame k (frame_table v) of
                None \<Rightarrow> v | Some i \<Rightarrow> v\<lparr>frame_table := list_remove_at i (frame_table v)\<rparr>);
     release_frame_lock v }"

definition frame_tick_step :: "vm \<Rightarrow> nat \<Rightarrow> vm option" where
  "frame_tick_step v i = do {
     let f = frame_table v ! i;
     r \<leftarrow> pages v (fr_page f);
     t \<leftarrow> vthreads v (page_tid r);
     a \<leftarrow> pagedir_is_accessed (pagedir t) (upage r) (mach v);
     if a then do {
       m \<leftarrow> pagedir_set_accessed (pagedir t) (upage r) False (mach v);
       Some (v\<lparr>mach := m, frame_table := (frame_table v)[i := f\<lparr>last_accessed_tick := vm_ticks v\<rparr>]\<rparr>) }
     else Some v }"

definition frame_tick :: "vm \<Rightarrow> vm option" where
  "frame_tick v = foldM frame_tick_step v [0..<length (frame_table v)]"

section \<open>The supplemental page table\<close>

definition upage_at :: "(ptr \<Rightarrow> page option) \<Rightarrow> ptr \<Rightarrow> va" where
  "upage_at st p = (case st p of None \<Rightarrow> 0 | Some r \<Rightarrow> upage r)"

definition page_hash :: "(ptr \<Rightarrow> page option) \<Rightarrow> ptr \<Rightarrow> 32 word" where
  "page_hash st p = hash_bytes (word_bytes (upage_at st p))"

definition page_less :: "(ptr \<Rightarrow> page option) \<Rightarrow> ptr \<Rightarrow> ptr \<Rightarrow> bool" where
  "page_less st a b \<longleftrightarrow> upage_at st a < upage_at st b"

text \<open>
  A table with the functions it is created with, which read the pages the elements point to
  in the state of the call.
\<close>

definition table_in :: "(ptr \<Rightarrow> page option) \<Rightarrow> ptr hash \<Rightarrow> ptr hash" where
  "table_in st h = h\<lparr>hash_fn := page_hash st, less_fn := page_less st\<rparr>"

definition spage_init :: "vm \<Rightarrow> vm" where
  "spage_init v = v\<lparr>page_lock := False\<rparr>"

text \<open>The key of a lookup is a local variable; the model gives it the address 0, which no page has.\<close>

definition blank_page :: page where
  "blank_page = \<lparr>upage = 0, kpage = 0, present = PRESENT_MEMORY, writable = False, page_tid = 0, page_file = 0, page_ofs = 0,
     read_bytes = 0, zero_bytes = 0, swap_page = 0\<rparr>"

definition page_lookup :: "va \<Rightarrow> vm \<Rightarrow> ptr option" where
  "page_lookup uaddr v = do {
     t \<leftarrow> vthreads v (cur_tid v);
     if vprocess t \<noteq> 0 then do {
       let st = (pages v)(0 \<mapsto> blank_page\<lparr>upage := pg_round_down uaddr\<rparr>);
       e \<leftarrow> hash_find (table_in st (spage_tables v (vprocess t))) 0;
       Some (case e of None \<Rightarrow> 0 | Some p \<Rightarrow> p) }
     else Some 0 }"

definition page_exists :: "va \<Rightarrow> vm \<Rightarrow> (bool \<times> vm) option" where
  "page_exists uaddr v = do {
     v \<leftarrow> acquire_page_lock v;
     p \<leftarrow> page_lookup uaddr v;
     v \<leftarrow> release_page_lock v;
     Some (p \<noteq> 0, v) }"

definition stack_bottom :: "vm \<Rightarrow> va option" where
  "stack_bottom v = do { t \<leftarrow> vthreads v (cur_tid v); Some (PHYS_BASE - of_nat (stack_pages t * PGSIZE)) }"

definition MIN_STACK_ADDRESS :: va where
  "MIN_STACK_ADDRESS = PHYS_BASE - 8192000"

definition is_unallocated_stack_access :: "va \<Rightarrow> vm \<Rightarrow> (bool \<times> vm) option" where
  "is_unallocated_stack_access fault_addr v = do {
     v \<leftarrow> acquire_page_lock v;
     t \<leftarrow> vthreads v (cur_tid v);
     bottom \<leftarrow> stack_bottom v;
     let result = (fault_addr < bottom \<and> fault_addr \<ge> user_esp t - 32 \<and> fault_addr \<ge> MIN_STACK_ADDRESS);
     v \<leftarrow> release_page_lock v;
     Some (result, v) }"

text \<open>\<open>mem\<close> says whether the table's memory can be extended when it is resized.\<close>

definition page_add_spage_table :: "bool \<Rightarrow> ptr \<Rightarrow> vm \<Rightarrow> vm option" where
  "page_add_spage_table mem page v = do {
     t \<leftarrow> vthreads v (cur_tid v);
     if vprocess t \<noteq> 0 then do {
       (h, _) \<leftarrow> hash_insert mem (table_in (pages v) (spage_tables v (vprocess t))) page;
       Some (v\<lparr>spage_tables := (spage_tables v)(vprocess t := h)\<rparr>) }
     else Some v }"

definition install_page :: "va \<Rightarrow> va \<Rightarrow> bool \<Rightarrow> vm \<Rightarrow> (bool \<times> vm) option" where
  "install_page up kp w v = do {
     t \<leftarrow> vthreads v (cur_tid v);
     k \<leftarrow> pagedir_get_page (pagedir t) up (mach v);
     if k = 0 then do {
       (ok, m) \<leftarrow> pagedir_set_page (pagedir t) up kp w (mach v);
       Some (ok, v\<lparr>mach := m\<rparr>) }
     else Some (False, v) }"

definition page_frame_alloc :: "ptr \<Rightarrow> vm \<Rightarrow> (bool \<times> vm) option" where
  "page_frame_alloc page v = do {
     _ \<leftarrow> pages v page;
     let v = upd_page page (\<lambda>r. r\<lparr>upage := pg_round_down (upage r)\<rparr>) v;
     (k, v) \<leftarrow> falloc page (PAL_USER OR PAL_ZERO) v;
     r \<leftarrow> pages v page;
     if k \<noteq> 0 then install_page (upage r) k (writable r) v else Some (False, v) }"

definition internal_page_free :: "bool \<Rightarrow> ptr \<Rightarrow> vm \<Rightarrow> vm option" where
  "internal_page_free mem page v = do {
     t \<leftarrow> vthreads v (cur_tid v);
     if page \<noteq> 0 then do {
       r \<leftarrow> pages v page;
       m \<leftarrow> pagedir_clear_page (pagedir t) (upage r) (mach v);
       m \<leftarrow> (if present r = PRESENT_MEMORY then palloc_free_page (kpage r) m else Some m);
       v \<leftarrow> ffree (kpage r) (v\<lparr>mach := m\<rparr>);
       k \<leftarrow> file_close (page_file r) (vfs v);
       let v = v\<lparr>vfs := k\<rparr>;
       ASSERT (vprocess t \<noteq> 0);
       (h, _) \<leftarrow> hash_delete mem (table_in (pages v) (spage_tables v (vprocess t))) page;
       Some (v\<lparr>spage_tables := (spage_tables v)(vprocess t := h), pages := (pages v)(page := None)\<rparr>) }
     else Some v }"

definition page_free :: "bool \<Rightarrow> va \<Rightarrow> vm \<Rightarrow> vm option" where
  "page_free mem uaddr v = do {
     v \<leftarrow> acquire_page_lock v;
     page \<leftarrow> page_lookup uaddr v;
     v \<leftarrow> (if page \<noteq> 0 then internal_page_free mem page v else Some v);
     release_page_lock v }"

text \<open>
  \<open>raw\<close> is what the block that \<^verbatim>\<open>malloc\<close> returns happens to contain; \<^verbatim>\<open>stack_page_alloc\<close> leaves the members of a
  page that describe its file as they are.
\<close>

definition stack_page_alloc :: "bool \<Rightarrow> page \<Rightarrow> vm \<Rightarrow> (va \<times> vm) option" where
  "stack_page_alloc mem raw v = do {
     v \<leftarrow> acquire_page_lock v;
     let (page, v) = vm_malloc v;
     (result, v) \<leftarrow> (if page \<noteq> 0 then do {
         bottom \<leftarrow> stack_bottom v;
         let v = v\<lparr>pages := (pages v)(page \<mapsto> raw\<lparr>upage := bottom - of_nat PGSIZE, present := PRESENT_MEMORY, writable := True,
                                           page_tid := cur_tid v\<rparr>)\<rparr>;
         v \<leftarrow> page_add_spage_table mem page v;
         (ok, v) \<leftarrow> page_frame_alloc page v;
         v \<leftarrow> (if ok then Some (v\<lparr>vthreads := (vthreads v)(cur_tid v := map_option (\<lambda>t. t\<lparr>stack_pages := stack_pages t + 1\<rparr>) (vthreads v (cur_tid v)))\<rparr>)
               else page_free mem (of_nat page) v);
         r \<leftarrow> pages v page;
         Some (upage r, v) }
       else Some (0, v));
     v \<leftarrow> release_page_lock v;
     Some (result, v) }"

text \<open>The loop; its first argument bounds the number of pages that one call can add.\<close>

primrec stack_alloc_loop :: "nat \<Rightarrow> bool \<Rightarrow> page \<Rightarrow> va \<Rightarrow> vm \<Rightarrow> (va \<times> vm) option" where
  "stack_alloc_loop 0 mem raw uaddr v = None"
| "stack_alloc_loop (Suc n) mem raw uaddr v = do {
     bottom \<leftarrow> stack_bottom v;
     if uaddr < bottom then do {
       (r, v) \<leftarrow> stack_page_alloc mem raw v;
       if r = 0 then Some (0, v) else stack_alloc_loop n mem raw uaddr v }
     else Some (bottom, v) }"

definition stack_page_alloc_multiple :: "bool \<Rightarrow> page \<Rightarrow> va \<Rightarrow> vm \<Rightarrow> (va \<times> vm) option" where
  "stack_page_alloc_multiple mem raw uaddr v = do {
     ASSERT (uaddr < PHYS_BASE \<and> uaddr \<ge> MIN_STACK_ADDRESS);
     stack_alloc_loop 2002 mem raw uaddr v }"

definition lazy_load_segment :: "bool \<Rightarrow> page \<Rightarrow> va \<Rightarrow> ptr \<Rightarrow> int \<Rightarrow> nat \<Rightarrow> nat \<Rightarrow> bool \<Rightarrow> vm \<Rightarrow> vm option" where
  "lazy_load_segment mem raw uaddr file ofs rd zr w v = do {
     v \<leftarrow> acquire_page_lock v;
     let (page, v) = vm_malloc v;
     ASSERT (page \<noteq> 0);
     (f, k) \<leftarrow> file_reopen file (vfs v);
     let v = v\<lparr>vfs := k, pages := (pages v)(page \<mapsto> raw\<lparr>present := PRESENT_FILESYS, upage := uaddr, writable := w,
                 page_tid := cur_tid v, page_file := f, page_ofs := ofs, read_bytes := rd, zero_bytes := zr\<rparr>)\<rparr>;
     v \<leftarrow> page_add_spage_table mem page v;
     release_page_lock v }"

section \<open>Loading pages\<close>

text \<open>The data that \<^verbatim>\<open>file_read\<close> delivers is stored in the frame, then the rest is zeroed.\<close>

definition load_page_from_filesys :: "bool \<Rightarrow> ptr \<Rightarrow> vm \<Rightarrow> (bool \<times> vm) option" where
  "load_page_from_filesys mem page v = do {
     r \<leftarrow> pages v page;
     ASSERT (present r = PRESENT_FILESYS);
     (ok, v) \<leftarrow> page_frame_alloc page v;
     if \<not> ok then Some (False, v)
     else do {
       r \<leftarrow> pages v page;
       k \<leftarrow> file_seek (page_file r) (page_ofs r) (vfs v);
       (buf, k) \<leftarrow> file_read (page_file r) (s32 (int (read_bytes r))) k;
       let v = v\<lparr>vfs := k, mach := (mach v)\<lparr>ram := mem_put (ram (mach v)) (kpage r) buf\<rparr>\<rparr>;
       if int (length buf) \<noteq> s32 (int (read_bytes r))
       then do { v \<leftarrow> internal_page_free mem page v; Some (False, v) }
       else do {
         let v = v\<lparr>mach := (mach v)\<lparr>ram := mem_put (ram (mach v)) (kpage r + of_nat (read_bytes r)) (replicate (zero_bytes r) 0)\<rparr>\<rparr>;
         Some (True, upd_page page (\<lambda>r. r\<lparr>present := PRESENT_MEMORY\<rparr>) v) } } }"

definition load_page_from_swap :: "ptr \<Rightarrow> vm \<Rightarrow> (bool \<times> vm) option" where
  "load_page_from_swap page v = do {
     r \<leftarrow> pages v page;
     ASSERT (present r = PRESENT_SWAP);
     (ok, v) \<leftarrow> page_frame_alloc page v;
     if \<not> ok then Some (False, v)
     else do {
       r \<leftarrow> pages v page;
       (buf, d) \<leftarrow> swap_page_read (swap_page r) (swap_area v) (vdev v);
       let v = set_dev d v;
       let v = v\<lparr>mach := (mach v)\<lparr>ram := mem_put (ram (mach v)) (kpage r) buf\<rparr>\<rparr>;
       s \<leftarrow> swfree (swap_page r) (swap_area v);
       Some (True, upd_page page (\<lambda>r. r\<lparr>present := PRESENT_MEMORY\<rparr>) (v\<lparr>swap_area := s\<rparr>)) } }"

definition load_page_into_frame :: "bool \<Rightarrow> va \<Rightarrow> vm \<Rightarrow> (bool \<times> vm) option" where
  "load_page_into_frame mem uaddr v = do {
     v \<leftarrow> acquire_page_lock v;
     page \<leftarrow> page_lookup uaddr v;
     (result, v) \<leftarrow> (if page \<noteq> 0 then do {
         r \<leftarrow> pages v page;
         case present r of
           PRESENT_FILESYS \<Rightarrow> load_page_from_filesys mem page v
         | PRESENT_SWAP \<Rightarrow> load_page_from_swap page v
         | PRESENT_MEMORY \<Rightarrow> Some (False, v) }
       else Some (False, v));
     v \<leftarrow> release_page_lock v;
     Some (result, v) }"

text \<open>The destructor of the table of a process that ends; the elements are those \<^verbatim>\<open>hash_destroy\<close> passes on.\<close>

definition page_destructor :: "vm \<Rightarrow> ptr \<Rightarrow> vm option" where
  "page_destructor v page = do {
     v \<leftarrow> acquire_page_lock v;
     r \<leftarrow> pages v page;
     v \<leftarrow> (case present r of
            PRESENT_MEMORY \<Rightarrow> ffree (kpage r) v
          | PRESENT_SWAP \<Rightarrow> do { s \<leftarrow> swfree (swap_page r) (swap_area v); Some (v\<lparr>swap_area := s\<rparr>) }
          | PRESENT_FILESYS \<Rightarrow> Some v);
     release_page_lock (v\<lparr>pages := (pages v)(page := None)\<rparr>) }"

section \<open>Page faults\<close>

datatype fault_outcome = Resume | Exit_thread int | Thread_exit

text \<open>
  The code segment that \<^verbatim>\<open>kill\<close> looks at: user code, kernel code, which is a panic, or another
  value. The statistics and the messages are not modelled.
\<close>

definition kill :: "32 word \<Rightarrow> fault_outcome option" where
  "kill cs = (if cs = 0x1b then Some (Exit_thread (- 1)) else if cs = 0x08 then None else Some Thread_exit)"

definition page_fault :: "bool \<Rightarrow> page \<Rightarrow> va \<Rightarrow> va \<Rightarrow> 32 word \<Rightarrow> 32 word \<Rightarrow> vm \<Rightarrow> (fault_outcome \<times> vm) option" where
  "page_fault mem raw esp fault_addr error_code cs v = do {
     t \<leftarrow> vthreads v (cur_tid v);
     let v = v\<lparr>vthreads := (vthreads v)(cur_tid v \<mapsto> t\<lparr>user_esp := esp\<rparr>)\<rparr>;
     let not_present = (error_code AND 1 = 0);
     let user = (error_code AND 4 \<noteq> 0);
     if \<not> not_present then Some (Exit_thread (- 1), v)
     else do {
       (stack, v) \<leftarrow> (if user then is_unallocated_stack_access fault_addr v else Some (False, v));
       (success, v) \<leftarrow> (if user \<and> stack
          then do { (a, v) \<leftarrow> stack_page_alloc_multiple mem raw fault_addr v; Some (a \<noteq> 0, v) }
          else if is_user_vaddr fault_addr then load_page_into_frame mem fault_addr v
          else Some (False, v));
       if success then Some (Resume, v)
       else do { o' \<leftarrow> kill cs; Some (o', v) } } }"

section \<open>Looking up pages\<close>

interpretation pg: hash_contract "page_less st" "page_hash st" for st
  by unfold_locales (auto simp: page_less_def page_hash_def not_less intro: order.antisym)

lemma same_page [simp]: "pg.same st a b \<longleftrightarrow> upage_at st a = upage_at st b"
  by (auto simp: pg.same_def page_less_def)

lemma table_in_simps [simp]:
  "elems (table_in st h) = elems h" "buckets (table_in st h) = buckets h" "elem_cnt (table_in st h) = elem_cnt h"
  "bucket_cnt (table_in st h) = bucket_cnt h" "hash_fn (table_in st h) = page_hash st" "less_fn (table_in st h) = page_less st"
  "table_in st (table_in st' h) = table_in st h"
  by (simp_all add: table_in_def elems_def)

text \<open>A table is not affected by changes that keep the addresses of its pages.\<close>

lemma hash_wf_table_in:
  assumes wf: "hash_wf (table_in st h)" and same: "\<And>p. p \<in> set (elems h) \<Longrightarrow> upage_at st' p = upage_at st p"
  shows "hash_wf (table_in st' h)"
proof -
  have b: "find_bucket (table_in st' h) p = find_bucket (table_in st h) p" if "p \<in> set (elems h)" for p
    using same [OF that] by (simp add: find_bucket_def page_hash_def)
  have "p \<in> set (elems h)" if "i < length (buckets h)" "p \<in> set (buckets h ! i)" for i p
    using that nth_mem by (fastforce simp: elems_def)
  then show ?thesis using wf b same by (simp add: hash_wf_def page_less_def)
qed

lemma hash_wf_not_in:
  "hash_wf (table_in st h) \<Longrightarrow> p \<notin> set (elems h) \<Longrightarrow> hash_wf (table_in (st(p := x)) h)"
  by (erule hash_wf_table_in) (auto simp: upage_at_def)

text \<open>The state of the supplemental table \<open>h\<close> of a process whose thread is \<open>i\<close>.\<close>

definition table_ok :: "(ptr \<Rightarrow> page option) \<Rightarrow> int \<Rightarrow> ptr hash \<Rightarrow> bool" where
  "table_ok st i h \<longleftrightarrow> st 0 = None \<and> hash_wf (table_in st h) \<and> set (elems h) = {p. \<exists>r. st p = Some r \<and> page_tid r = i}"

lemma table_ok_unique:
  assumes "table_ok st i h" "st p = Some r" "st q = Some s" "page_tid r = i" "page_tid s = i" "upage r = upage s"
  shows "p = q"
proof -
  have "p \<in> set (elems h)" "q \<in> set (elems h)" using assms by (auto simp: table_ok_def)
  moreover have "upage_at st p = upage_at st q" using assms by (simp add: upage_at_def)
  ultimately show ?thesis using assms(1) by (auto simp: table_ok_def hash_wf_def page_less_def)
qed

lemma table_ok_cong:
  assumes "table_ok st i h"
    "\<And>p. map_option (\<lambda>r. (upage r, page_tid r)) (st' p) = map_option (\<lambda>r. (upage r, page_tid r)) (st p)"
  shows "table_ok st' i h"
proof -
  have u: "upage_at st' p = upage_at st p" for p
    using assms(2) [of p] by (auto simp: upage_at_def split: option.splits)
  have "(\<exists>r. st' p = Some r \<and> page_tid r = i) \<longleftrightarrow> (\<exists>r. st p = Some r \<and> page_tid r = i)" for p
    using assms(2) [of p] by (cases "st p"; cases "st' p") auto
  moreover have "st' 0 = None" using assms(1) assms(2) [of 0] by (simp add: table_ok_def)
  moreover have "hash_wf (table_in st' h)" using assms(1) u by (auto simp: table_ok_def intro: hash_wf_table_in)
  ultimately show ?thesis using assms(1) by (simp add: table_ok_def)
qed

lemma page_lookup_ok:
  assumes t: "vthreads v (cur_tid v) = Some t" "vprocess t \<noteq> 0"
    and tab: "table_ok (pages v) (cur_tid v) (spage_tables v (vprocess t))"
  obtains (none) "page_lookup a v = Some 0"
      "\<And>p r. pages v p = Some r \<Longrightarrow> page_tid r = cur_tid v \<Longrightarrow> upage r \<noteq> pg_round_down a"
  | (some) p r where "page_lookup a v = Some p" "p \<noteq> 0" "pages v p = Some r" "page_tid r = cur_tid v" "upage r = pg_round_down a"
proof -
  let ?h = "spage_tables v (vprocess t)"
  let ?st = "(pages v)(0 \<mapsto> blank_page\<lparr>upage := pg_round_down a\<rparr>)"
  have e: "set (elems ?h) = {p. \<exists>r. pages v p = Some r \<and> page_tid r = cur_tid v}" and z: "pages v 0 = None"
    using tab by (simp_all add: table_ok_def)
  then have z': "0 \<notin> set (elems ?h)" by simp
  have "hash_wf (table_in ?st ?h)" using hash_wf_not_in [OF _ z'] tab by (simp add: table_ok_def)
  then have find: "hash_find (table_in ?st ?h) 0 = Some (List.find (\<lambda>p. upage_at ?st p = pg_round_down a) (elems ?h))"
    using pg.hash_find_ok [of "table_in ?st ?h" ?st 0] by (simp add: upage_at_def)
  show thesis
  proof (cases "List.find (\<lambda>p. upage_at ?st p = pg_round_down a) (elems ?h)")
    case None
    have "upage r \<noteq> pg_round_down a" if "pages v p = Some r" "page_tid r = cur_tid v" for p r
    proof -
      have "p \<in> set (elems ?h)" using that e by blast
      then have "upage_at ?st p \<noteq> pg_round_down a" using None by (auto simp: find_None_iff)
      then show ?thesis using that z by (auto simp: upage_at_def split: if_splits)
    qed
    then show thesis using none find None t by (simp add: page_lookup_def)
  next
    case (Some p)
    then have p: "p \<in> set (elems ?h)" "upage_at ?st p = pg_round_down a" by (auto simp: find_Some_iff)
    then obtain r where "pages v p = Some r" "page_tid r = cur_tid v" "p \<noteq> 0" using e z' by auto
    then show thesis using some [of p r] p find Some t by (simp add: page_lookup_def upage_at_def)
  qed
qed

lemma page_add_spage_table_ok:
  assumes t: "vthreads v (cur_tid v) = Some t" "vprocess t \<noteq> 0"
    and tab: "table_ok ((pages v)(p := None)) (cur_tid v) (spage_tables v (vprocess t))"
    and p: "p \<noteq> 0" "pages v p = Some r" "page_tid r = cur_tid v"
    and new: "\<And>q s. pages v q = Some s \<Longrightarrow> page_tid s = cur_tid v \<Longrightarrow> q \<noteq> p \<Longrightarrow> upage s \<noteq> upage r"
  shows "\<exists>h. page_add_spage_table mem p v = Some (v\<lparr>spage_tables := (spage_tables v)(vprocess t := h)\<rparr>) \<and>
    table_ok (pages v) (cur_tid v) h"
proof -
  let ?h = "spage_tables v (vprocess t)"
  have e: "set (elems ?h) = {q. \<exists>s. ((pages v)(p := None)) q = Some s \<and> page_tid s = cur_tid v}"
    and wf: "hash_wf (table_in ((pages v)(p := None)) ?h)" and z: "pages v 0 = None"
    using tab p by (auto simp: table_ok_def)
  have np: "p \<notin> set (elems ?h)" using e by simp
  have wf': "hash_wf (table_in (pages v) ?h)" using hash_wf_not_in [OF wf np, of "Some r"] p(2) by (simp add: fun_upd_idem)
  have "List.find (\<lambda>q. upage_at (pages v) q = upage_at (pages v) p) (elems ?h) = None"
    unfolding find_None_iff using e new p(2) by (fastforce simp: upage_at_def split: if_splits)
  then obtain h where h: "hash_insert mem (table_in (pages v) ?h) p = Some (h, None)"
    "hash_wf h" "hash_fn h = page_hash (pages v)" "less_fn h = page_less (pages v)" "mset (elems h) = {#p#} + mset (elems ?h)"
    using pg.hash_insert_ok [of "table_in (pages v) ?h" "pages v" mem p] wf' by auto
  have "table_in (pages v) h = h" using h(3,4) by (simp add: table_in_def)
  moreover have "set (elems h) = insert p (set (elems ?h))" using arg_cong [OF h(5), of set_mset] by simp
  ultimately have "table_ok (pages v) (cur_tid v) h" using h(2) e z p by (auto simp: table_ok_def)
  then show ?thesis using h(1) t by (auto simp: page_add_spage_table_def)
qed

section \<open>The frame to evict\<close>

lemma evict_loop_ok:
  assumes "lru < i" "i + length fs = length ft" "fs = drop i ft" "lru_frame = ft ! lru"
    "\<And>j. j < i \<Longrightarrow> last_accessed_tick (ft ! lru) \<le> last_accessed_tick (ft ! j)"
    "\<And>j. j < lru \<Longrightarrow> last_accessed_tick (ft ! lru) < last_accessed_tick (ft ! j)"
  shows "evict_loop fs i lru lru_frame < length ft \<and>
    (\<forall>j < length ft. last_accessed_tick (ft ! evict_loop fs i lru lru_frame) \<le> last_accessed_tick (ft ! j)) \<and>
    (\<forall>j < evict_loop fs i lru lru_frame. last_accessed_tick (ft ! evict_loop fs i lru lru_frame) < last_accessed_tick (ft ! j))"
  using assms
proof (induction fs i lru lru_frame rule: evict_loop.induct)
  case (2 f fs i lru lru_frame)
  have i: "i < length ft" using "2.prems"(2) by simp
  have "drop i ft = ft ! i # drop (Suc i) ft" using i by (rule Cons_nth_drop_Suc [symmetric])
  then have f: "f = ft ! i" "fs = drop (Suc i) ft" "i < length ft" using "2.prems"(3) i by simp_all
  show ?case
  proof (cases "last_accessed_tick f < last_accessed_tick lru_frame")
    case True
    have "evict_loop (f # fs) i lru lru_frame = evict_loop fs (Suc i) i f" using True by simp
    moreover have "last_accessed_tick (ft ! i) < last_accessed_tick (ft ! j)" if "j < i" for j
      using True f "2.prems"(4,5) that by fastforce
    moreover from this have "last_accessed_tick (ft ! i) \<le> last_accessed_tick (ft ! j)" if "j < Suc i" for j
      using that by (auto simp: less_Suc_eq intro: less_imp_le)
    moreover have "Suc i + length fs = length ft" using "2.prems"(2) by simp
    ultimately show ?thesis using "2.IH"(1) [OF True lessI _ f(2,1)] by metis
  next
    case False
    have "evict_loop (f # fs) i lru lru_frame = evict_loop fs (Suc i) lru lru_frame" using False by simp
    moreover have "last_accessed_tick (ft ! lru) \<le> last_accessed_tick (ft ! j)" if "j < Suc i" for j
      using False f "2.prems"(4,5) that by (auto simp: less_Suc_eq)
    moreover have "Suc i + length fs = length ft" "lru < Suc i" using "2.prems"(1,2) by simp_all
    ultimately show ?thesis using "2.IH"(2) [OF False _ _ f(2) "2.prems"(4)] "2.prems"(6) by metis
  qed
qed simp

lemma get_frame_to_evict_ok:
  assumes "ft \<noteq> []"
  obtains i where "get_frame_to_evict ft = Some i" "i < length ft"
    "\<forall>j < length ft. last_accessed_tick (ft ! i) \<le> last_accessed_tick (ft ! j)"
    "\<forall>j < i. last_accessed_tick (ft ! i) < last_accessed_tick (ft ! j)"
proof -
  obtain f fs where ft: "ft = f # fs" using assms by (cases ft) auto
  have "evict_loop fs 1 0 f < length ft \<and>
    (\<forall>j < length ft. last_accessed_tick (ft ! evict_loop fs 1 0 f) \<le> last_accessed_tick (ft ! j)) \<and>
    (\<forall>j < evict_loop fs 1 0 f. last_accessed_tick (ft ! evict_loop fs 1 0 f) < last_accessed_tick (ft ! j))"
    by (rule evict_loop_ok) (simp_all add: ft)
  then show thesis using that [of "evict_loop fs 1 0 f"] ft by (simp add: get_frame_to_evict_def)
qed

end
