(* ===== verification/Vm_Inv.thy ===== *)
theory Vm_Inv
  imports Vm
begin

text \<open>
  The invariant of virtual memory and what the operations of \<open>Vm\<close> do to the contents of pages:
  a page that is evicted and brought in again has the contents it had, and giving a page a
  frame changes the contents of no other page.
\<close>

section \<open>The invariant\<close>

definition page_dirs :: "vm \<Rightarrow> va set" where
  "page_dirs v = {pagedir t | i t. vthreads v i = Some t \<and> vprocess t \<noteq> 0}"

definition dir_of :: "vm \<Rightarrow> page \<Rightarrow> va" where
  "dir_of v r = (case vthreads v (page_tid r) of None \<Rightarrow> 0 | Some t \<Rightarrow> pagedir t)"

text \<open>Every process has a thread, a directory and a supplemental table of its own.\<close>

definition threads_ok :: "vm \<Rightarrow> bool" where
  "threads_ok v \<longleftrightarrow>
     (\<forall>i t. vthreads v i = Some t \<and> vprocess t \<noteq> 0 \<longrightarrow> table_ok (pages v) i (spage_tables v (vprocess t))) \<and>
     (\<forall>i j t u. vthreads v i = Some t \<and> vthreads v j = Some u \<and> vprocess t \<noteq> 0 \<and> vprocess u \<noteq> 0 \<and>
        (pagedir t = pagedir u \<or> vprocess t = vprocess u) \<longrightarrow> i = j)"

definition pages_ok :: "vm \<Rightarrow> bool" where
  "pages_ok v \<longleftrightarrow> 0 < heap_next v \<and> (\<forall>p r. pages v p = Some r \<longrightarrow> 0 < p \<and> p < heap_next v \<and> page_aligned (upage r) \<and> is_user_vaddr (upage r) \<and>
     (\<exists>t. vthreads v (page_tid r) = Some t \<and> vprocess t \<noteq> 0))"

text \<open>
  The frame table lists the pages in memory: their entries map them to the frame. A page without a
  frame is not mapped; \<open>x\<close> is a page that is about to get a frame.
\<close>

definition in_frame :: "vm \<Rightarrow> frame \<Rightarrow> bool" where
  "in_frame v f \<longleftrightarrow> (\<exists>r. pages v (fr_page f) = Some r \<and> present r = PRESENT_MEMORY \<and> kpage r = fr_kpage f \<and>
     mapped (mach v) (dir_of v r) (upage r) \<and> frame_of (mach v) (dir_of v r) (upage r) = fr_kpage f)"

definition frames_ok :: "ptr \<Rightarrow> vm \<Rightarrow> bool" where
  "frames_ok x v \<longleftrightarrow> distinct (map fr_page (frame_table v)) \<and> x \<notin> fr_page ` set (frame_table v) \<and>
     (\<forall>f\<in>set (frame_table v). in_frame v f) \<and>
     (\<forall>p r. pages v p = Some r \<and> p \<notin> fr_page ` set (frame_table v) \<longrightarrow>
        \<not> mapped (mach v) (dir_of v r) (upage r) \<and> (p \<noteq> x \<longrightarrow> present r \<noteq> PRESENT_MEMORY))"

definition slots_ok :: "vm \<Rightarrow> bool" where
  "slots_ok v \<longleftrightarrow>
     (\<forall>p r. pages v p = Some r \<and> present r = PRESENT_SWAP \<longrightarrow>
        (\<exists>k. swap_page r = int k \<and> k < swap_slots (swap_area v) \<and> \<not> free_slot (swap_area v) k)) \<and>
     (\<forall>p q r s. pages v p = Some r \<and> pages v q = Some s \<and> present r = PRESENT_SWAP \<and> present s = PRESENT_SWAP \<and>
        swap_page r = swap_page s \<longrightarrow> p = q)"

definition vm_inv :: "ptr \<Rightarrow> vm \<Rightarrow> bool" where
  "vm_inv x v \<longleftrightarrow> maps_inv (mach v) (page_dirs v) \<and> kernel_half (mach v) (page_dirs v) \<and> swap_ok (swap_area v) (vdev v) \<and>
     threads_ok v \<and> pages_ok v \<and> frames_ok x v \<and> slots_ok v"

text \<open>The contents of a page that is not in its file.\<close>

definition page_data :: "vm \<Rightarrow> page \<Rightarrow> 8 word list" where
  "page_data v r = (case present r of
      PRESENT_MEMORY \<Rightarrow> mem_get (ram (mach v)) (kpage r) PGSIZE
    | PRESENT_SWAP \<Rightarrow> swap_page_data (swap_area v) (vdev v) (nat (swap_page r))
    | PRESENT_FILESYS \<Rightarrow> [])"

definition dirty :: "vm \<Rightarrow> page \<Rightarrow> bool" where
  "dirty v r \<longleftrightarrow> pte_of (mach v) (dir_of v r) (upage r) AND PTE_D \<noteq> 0"

text \<open>
  What happens to the other pages while \<open>x\<close> gets a frame: they keep their contents, except that a
  page from a file which was not modified may be dropped, to be read from the file again.
\<close>

definition dropped :: "vm \<Rightarrow> page \<Rightarrow> page \<Rightarrow> bool" where
  "dropped v r r' \<longleftrightarrow> present r = PRESENT_MEMORY \<and> present r' = PRESENT_FILESYS \<and> page_file r \<noteq> 0 \<and> \<not> dirty v r"

definition same_page_info :: "page \<Rightarrow> page \<Rightarrow> bool" where
  "same_page_info r r' \<longleftrightarrow> upage r' = upage r \<and> page_tid r' = page_tid r \<and> writable r' = writable r \<and> page_file r' = page_file r \<and>
     page_ofs r' = page_ofs r \<and> read_bytes r' = read_bytes r \<and> zero_bytes r' = zero_bytes r"

definition keeps :: "ptr \<Rightarrow> vm \<Rightarrow> vm \<Rightarrow> bool" where
  "keeps x v v' \<longleftrightarrow> (\<forall>p. p \<noteq> x \<longrightarrow> (case pages v p of None \<Rightarrow> pages v' p = None
     | Some r \<Rightarrow> (\<exists>r'. pages v' p = Some r' \<and> same_page_info r r' \<and> (page_data v' r' = page_data v r \<or> dropped v r r'))))"

section \<open>The kernel's part of the directories\<close>

definition same_kernel :: "machine \<Rightarrow> machine \<Rightarrow> va set \<Rightarrow> bool" where
  "same_kernel m m' D \<longleftrightarrow> (\<forall>pd\<in>D. \<forall>i. 768 \<le> unat i \<and> unat i < 1024 \<longrightarrow> pde_of m' pd i = pde_of m pd i)"

lemma kernel_half_same: "kernel_half m D \<Longrightarrow> same_kernel m m' D \<Longrightarrow> kernel_half m' D"
  by (simp add: kernel_half_def same_kernel_def)

lemma same_kernel_trans: "same_kernel m m1 D \<Longrightarrow> same_kernel m1 m2 D \<Longrightarrow> same_kernel m m2 D"
  by (simp add: same_kernel_def)

lemma table_not_dir:
  assumes "pds_inv m D" "pd \<in> D" "pt \<in> page_tables m pd" "pd' \<in> D"
  shows "pt \<noteq> pd'"
proof (cases "pd' = pd")
  case True
  then show ?thesis using pd_wfD(1) [OF pds_invD(4) [OF assms(1,2)]] assms(3) by blast
next
  case False
  have "pt \<in> owned m pd" "pd' \<in> owned m pd'" using assms(3) by (simp_all add: owned_def)
  then show ?thesis using pds_invD(6) [OF assms(1,2,4)] False by blast
qed

lemma dir_aligned: "pds_inv m D \<Longrightarrow> pd \<in> D \<Longrightarrow> page_aligned pd"
  using owned_facts(2) [of m D pd pd] by (simp add: owned_def)

lemma same_kernel_entry:
  assumes inv: "pds_inv m D" and pd: "pd \<in> D" and pt: "pt \<in> page_tables m pd" and j: "unat j < 1024"
  shows "same_kernel m (m\<lparr>ram := store32 (ram m) (entry pt j) e\<rparr>) D"
  unfolding same_kernel_def
proof (intro ballI allI impI)
  fix pd' i assume pd': "pd' \<in> D" and i: "768 \<le> unat (i :: 32 word) \<and> unat i < 1024"
  have "page_aligned pt" using owned_facts(2) [OF inv pd, of pt] pt by (simp add: owned_def)
  then show "pde_of (m\<lparr>ram := store32 (ram m) (entry pt j) e\<rparr>) pd' i = pde_of m pd' i"
    using table_not_dir [OF inv pd pt pd'] dir_aligned [OF inv pd'] i j by (simp add: pde_of_def load_store_entry)
qed

lemma same_kernel_put:
  assumes "pds_inv m D" "page_aligned k" "k \<notin> D" "length bs \<le> PGSIZE"
  shows "same_kernel m (m\<lparr>ram := mem_put (ram m) k bs\<rparr>) D"
  unfolding same_kernel_def
proof (intro ballI allI impI)
  fix pd i assume pd: "pd \<in> D" and i: "768 \<le> unat (i :: 32 word) \<and> unat i < 1024"
  then have "k \<noteq> pd" using assms(3) by blast
  then show "pde_of (m\<lparr>ram := mem_put (ram m) k bs\<rparr>) pd i = pde_of m pd i"
    using load_put_page [OF assms(2,4) dir_aligned [OF assms(1) pd]] i by (simp add: pde_of_def)
qed

lemma same_kernel_clear:
  assumes inv: "maps_inv m D" and pd: "pd \<in> D" and up: "is_user_vaddr a" and run: "pagedir_clear_page pd a m = Some m'"
  shows "same_kernel m m' D"
proof -
  note dinv = maps_invD(1) [OF inv]
  obtain p where p: "lookup_page pd a False m = Some (p, m)"
    "p \<noteq> 0 \<longrightarrow> (\<exists>pt. pde_get_pt (pde_of m pd (pd_no a)) = Some pt \<and> pt \<in> page_tables m pd \<and> p = entry pt (pt_no a))"
    using lookup_page_ok [OF dinv pd up] by blast
  have "pd \<in> owned m pd" by (simp add: owned_def)
  note f = owned_facts [OF dinv pd this]
  show ?thesis
  proof (cases "p \<noteq> 0 \<and> load32 (ram m) p AND PTE_P \<noteq> 0")
    case True
    then obtain pt where pt: "pt \<in> page_tables m pd" "p = entry pt (pt_no a)" using p by blast
    let ?m = "m\<lparr>ram := store32 (ram m) p (load32 (ram m) p AND NOT PTE_P)\<rparr>"
    have "m' = ?m" using run True p(1) f(3,4) pds_invD(3) [OF dinv]
      by (auto simp: pagedir_clear_page_def split: if_splits)
    then show ?thesis using same_kernel_entry [OF dinv pd pt(1) pt_no_less] pt(2) by simp
  next
    case False
    then have "m' = m" using run p(1) by (auto simp: pagedir_clear_page_def split: if_splits)
    then show ?thesis by (simp add: same_kernel_def)
  qed
qed

lemma same_kernel_lookup:
  assumes inv: "pds_inv m D" and pd: "pd \<in> D" and a: "is_user_vaddr a" and run: "lookup_page pd a True m = Some (p, m')"
  shows "same_kernel m m' D"
proof (cases "pde_of m pd (pd_no a) = 0")
  case False
  then have "m' = m" using run a by (auto simp: lookup_page_def pde_of_def split: if_splits option.splits simp: bind_eq_Some_conv)
  then show ?thesis by (simp add: same_kernel_def)
next
  case True
  have flags: "PAL_ZERO AND PAL_ASSERT = 0" "False = (PAL_ZERO AND PAL_USER \<noteq> 0)" "PAL_ZERO AND PAL_ZERO \<noteq> 0"
    by (simp_all add: PAL_ZERO_def PAL_ASSERT_def PAL_USER_def)
  have "pd \<in> owned m pd" by (simp add: owned_def)
  note f = owned_facts [OF inv pd this]
  show ?thesis
  proof (rule palloc_get_page_ok [OF pds_invD(1) [OF inv] flags(1,2)])
    assume "palloc_get_page PAL_ZERO m = Some (0, m)"
    then have "m' = m" using run True a f by (auto simp: lookup_page_def pde_of_def)
    then show ?thesis by (simp add: same_kernel_def)
  next
    fix pt m1
    assume g: "palloc_get_page PAL_ZERO m = Some (pt, m1)" "pt \<noteq> 0" "pt \<notin> allocated m" "pt \<in> pool_pages (the_pool False m)"
      and r: "ram m1 = (if PAL_ZERO AND PAL_ZERO \<noteq> 0 then mem_put (ram m) pt (replicate PGSIZE 0) else ram m)"
    have ptf: "page_aligned pt" using pool_page_in_ram [OF pds_invD(1) [OF inv] g(4)] by auto
    obtain e where e: "ram m' = store32 (ram m1) (entry pd (pd_no a)) e"
      using run True a f g(1,2) by (auto simp: lookup_page_def pde_of_def Let_def bind_eq_Some_conv)
    have u: "unat (pd_no a) < 768" using a by (simp add: pd_no_user)
    show ?thesis unfolding same_kernel_def
    proof (intro ballI allI impI)
      fix pd' i assume pd': "pd' \<in> D" and i: "768 \<le> unat (i :: 32 word) \<and> unat i < 1024"
      have al: "page_aligned pd'" by (rule dir_aligned [OF inv pd'])
      have "pd' \<in> allocated m" using owned_facts(1) [OF inv pd', of pd'] by (simp add: owned_def)
      then have ne: "pt \<noteq> pd'" using g(3) by blast
      have "pde_of m' pd' i = load32 (ram m1) (entry pd' i)"
        using load_store_entry [OF f(2) pd_no_less [of a] al, of i] i u e by (auto simp: pde_of_def)
      also have "\<dots> = pde_of m pd' i"
        using load_put_page [OF ptf _ al ne, of "replicate PGSIZE 0" i] i r flags(3) by (simp add: pde_of_def)
      finally show "pde_of m' pd' i = pde_of m pd' i" .
    qed
  qed
qed

lemma same_kernel_set:
  assumes inv: "maps_inv m D" and pd: "pd \<in> D" and run: "pagedir_set_page pd a k w m = Some (ok, m')"
  shows "same_kernel m m' D"
proof -
  note dinv = maps_invD(1) [OF inv]
  have a: "is_user_vaddr a" using run by (auto simp: pagedir_set_page_def bind_eq_Some_conv ASSERT_def split: if_splits)
  show ?thesis
  proof (rule lookup_create [OF dinv pd a])
    assume "lookup_page pd a True m = Some (0, m)"
    then have "m' = m" using run by (auto simp: pagedir_set_page_def bind_eq_Some_conv ASSERT_def split: if_splits)
    then show ?thesis by (simp add: same_kernel_def)
  next
    fix pt m1
    assume l: "lookup_page pd a True m = Some (entry pt (pt_no a), m1)" "pds_inv m1 D"
      "pde_of m1 pd (pd_no a) \<noteq> 0" "pde_get_pt (pde_of m1 pd (pd_no a)) = Some pt"
    have pt: "pt \<in> page_tables m1 pd" using l(3,4) a by (auto simp: page_tables_def pd_no_user)
    have "entry pt (pt_no a) \<noteq> 0"
      using entry_nonzero [OF _ _ pt_no_less] owned_facts(2,3) [OF l(2) pd, of pt] pt by (simp add: owned_def)
    then obtain e where "m' = m1\<lparr>ram := store32 (ram m1) (entry pt (pt_no a)) e\<rparr>"
      using run l(1) by (auto simp: pagedir_set_page_def bind_eq_Some_conv ASSERT_def split: if_splits)
    then show ?thesis
      using same_kernel_trans [OF same_kernel_lookup [OF dinv pd a l(1)]] same_kernel_entry [OF l(2) pd pt pt_no_less] by simp
  qed
qed

text \<open>The dirty bit of any address of a process can be read.\<close>

lemma pagedir_is_dirty_user:
  assumes "pds_inv m D" "pd \<in> D" "is_user_vaddr a"
  shows "pagedir_is_dirty pd a m = Some (pte_of m pd a AND PTE_D \<noteq> 0)"
  using lookup_page_ok [OF assms] by (auto simp: pagedir_is_dirty_def)

lemma pagedir_is_dirty_kernel:
  assumes "pds_inv m D" "pd \<in> D" "kernel_half m D" "\<not> is_user_vaddr a"
  shows "\<exists>b. pagedir_is_dirty pd a m = Some b"
proof -
  have "pd \<noteq> 0" using owned_facts(4) [OF assms(1,2), of pd] by (simp add: owned_def)
  moreover have "768 \<le> unat (pd_no a)" "unat (pd_no a) < 1024" using assms(4) pd_no_less by (simp_all add: pd_no_user not_less)
  then have "pde_of m pd (pd_no a) = 0 \<or> pde_get_pt (pde_of m pd (pd_no a)) \<noteq> None"
    using assms(2,3) by (auto simp: kernel_half_def)
  ultimately show ?thesis by (auto simp: pagedir_is_dirty_def lookup_page_def pde_of_def Let_def)
qed

section \<open>Consequences of the invariant\<close>

lemma vm_invD:
  assumes "vm_inv x v"
  shows "maps_inv (mach v) (page_dirs v)" "kernel_half (mach v) (page_dirs v)" "swap_ok (swap_area v) (vdev v)"
    "threads_ok v" "pages_ok v" "frames_ok x v" "slots_ok v" "pds_inv (mach v) (page_dirs v)" "palloc_inv (mach v)"
  using assms maps_invD(1) pds_invD(1) unfolding vm_inv_def by blast+

lemma pages_okD:
  assumes "pages_ok v" "pages v p = Some r"
  shows "0 < p" "p < heap_next v" "page_aligned (upage r)" "is_user_vaddr (upage r)" "dir_of v r \<in> page_dirs v"
    "\<exists>t. vthreads v (page_tid r) = Some t \<and> vprocess t \<noteq> 0 \<and> pagedir t = dir_of v r"
proof -
  obtain t where t: "vthreads v (page_tid r) = Some t" "vprocess t \<noteq> 0" using assms by (auto simp: pages_ok_def)
  show "0 < p" "p < heap_next v" "page_aligned (upage r)" "is_user_vaddr (upage r)" using assms by (auto simp: pages_ok_def)
  show "dir_of v r \<in> page_dirs v" "\<exists>t. vthreads v (page_tid r) = Some t \<and> vprocess t \<noteq> 0 \<and> pagedir t = dir_of v r"
    using t by (auto simp: page_dirs_def dir_of_def)
qed

lemma page_unique:
  assumes "vm_inv x v" "pages v p = Some r" "pages v q = Some s" "dir_of v r = dir_of v s" "upage r = upage s"
  shows "p = q"
proof -
  note po = vm_invD(5) [OF assms(1)] and th = vm_invD(4) [OF assms(1)]
  obtain t u where t: "vthreads v (page_tid r) = Some t" "vprocess t \<noteq> 0" "pagedir t = dir_of v r"
    and u: "vthreads v (page_tid s) = Some u" "vprocess u \<noteq> 0" "pagedir u = dir_of v s"
    using pages_okD(6) [OF po assms(2)] pages_okD(6) [OF po assms(3)] by blast
  then have tid: "page_tid s = page_tid r" using assms(4) th unfolding threads_ok_def by metis
  have "table_ok (pages v) (page_tid r) (spage_tables v (vprocess t))" using th t unfolding threads_ok_def by blast
  then show ?thesis by (rule table_ok_unique [OF _ assms(2,3) refl tid assms(5)])
qed

lemma frames_okD:
  assumes "frames_ok x v"
  shows "distinct (map fr_page (frame_table v))" "x \<notin> fr_page ` set (frame_table v)"
    "f \<in> set (frame_table v) \<Longrightarrow> in_frame v f"
    "pages v p = Some r \<Longrightarrow> p \<notin> fr_page ` set (frame_table v) \<Longrightarrow> \<not> mapped (mach v) (dir_of v r) (upage r)"
    "pages v p = Some r \<Longrightarrow> p \<notin> fr_page ` set (frame_table v) \<Longrightarrow> p \<noteq> x \<Longrightarrow> present r \<noteq> PRESENT_MEMORY"
  using assms unfolding frames_ok_def by blast+

lemma frame_facts:
  assumes inv: "vm_inv x v" and f: "f \<in> set (frame_table v)"
  obtains r where "pages v (fr_page f) = Some r" "present r = PRESENT_MEMORY" "kpage r = fr_kpage f" "fr_page f \<noteq> x"
    "mapped (mach v) (dir_of v r) (upage r)" "frame_of (mach v) (dir_of v r) (upage r) = fr_kpage f"
    "fr_kpage f \<in> pool_pages (user_pool (mach v))" "fr_kpage f \<in> allocated (mach v)" "page_aligned (fr_kpage f)"
    "\<not> is_user_vaddr (fr_kpage f)" "fr_kpage f \<notin> pool_pages (kernel_pool (mach v))" "fr_kpage f \<noteq> 0"
proof -
  obtain r where r: "pages v (fr_page f) = Some r" "present r = PRESENT_MEMORY" "kpage r = fr_kpage f"
    "mapped (mach v) (dir_of v r) (upage r)" "frame_of (mach v) (dir_of v r) (upage r) = fr_kpage f"
    using frames_okD(3) [OF vm_invD(6) [OF inv] f] by (auto simp: in_frame_def)
  have d: "dir_of v r \<in> page_dirs v" by (rule pages_okD(5) [OF vm_invD(5) [OF inv] r(1)])
  have k: "fr_kpage f \<in> pool_pages (user_pool (mach v))" "fr_kpage f \<in> allocated (mach v)"
    using maps_invD(4,5) [OF vm_invD(1) [OF inv] d r(4)] r(5) by auto
  have a: "page_aligned (fr_kpage f)" "is_kernel_vaddr (fr_kpage f)" "fr_kpage f \<noteq> 0"
    using allocated_facts [OF vm_invD(9) [OF inv] k(2)] by auto
  have "\<not> is_user_vaddr (fr_kpage f)" using a(2) by (simp add: is_user_vaddr_def is_kernel_vaddr_def)
  moreover have "fr_kpage f \<notin> pool_pages (kernel_pool (mach v))" using user_kernel_disjoint [OF vm_invD(1) [OF inv] k(1)] by blast
  ultimately show thesis using that r k a frames_okD(2) [OF vm_invD(6) [OF inv]] f by blast
qed

lemma frame_factsD:
  assumes inv: "vm_inv x v" and f: "f \<in> set (frame_table v)" and r: "pages v (fr_page f) = Some r"
  shows "present r = PRESENT_MEMORY" "kpage r = fr_kpage f" "fr_page f \<noteq> x"
    "mapped (mach v) (dir_of v r) (upage r)" "frame_of (mach v) (dir_of v r) (upage r) = kpage r"
    "kpage r \<in> pool_pages (user_pool (mach v))" "kpage r \<in> allocated (mach v)" "page_aligned (kpage r)"
    "kpage r \<notin> pool_pages (kernel_pool (mach v))" "kpage r \<noteq> 0"
  by (rule frame_facts [OF inv f], use r in force)+

text \<open>No two pages share a frame.\<close>

lemma frame_kpage_inj:
  assumes inv: "vm_inv x v" and f: "f \<in> set (frame_table v)" and g: "g \<in> set (frame_table v)" and eq: "fr_kpage f = fr_kpage g"
  shows "fr_page f = fr_page g"
proof -
  obtain r where r: "pages v (fr_page f) = Some r"
    "mapped (mach v) (dir_of v r) (upage r)" "frame_of (mach v) (dir_of v r) (upage r) = fr_kpage f" by (rule frame_facts [OF inv f])
  obtain s where s: "pages v (fr_page g) = Some s"
    "mapped (mach v) (dir_of v s) (upage s)" "frame_of (mach v) (dir_of v s) (upage s) = fr_kpage g" by (rule frame_facts [OF inv g])
  note po = vm_invD(5) [OF inv]
  have "dir_of v r = dir_of v s" "pg_round_down (upage r) = pg_round_down (upage s)"
    using maps_invD(6) [OF vm_invD(1) [OF inv] pages_okD(5) [OF po r(1)] pages_okD(5) [OF po s(1)] r(2) s(2)] r(3) s(3) eq by auto
  then show ?thesis using page_unique [OF inv r(1) s(1)] pages_okD(3) [OF po r(1)] pages_okD(3) [OF po s(1)] by simp
qed

lemma in_memory_frame:
  assumes "frames_ok x v" "pages v p = Some r" "present r = PRESENT_MEMORY" "p \<noteq> x"
  obtains f where "f \<in> set (frame_table v)" "fr_page f = p"
  using frames_okD(5) [OF assms(1,2)] assms(3,4) by auto

lemma list_remove_at_ok:
  assumes "i < length xs" "distinct (map g xs)"
  shows "set (list_remove_at i xs) = set xs - {xs ! i}" "distinct (map g (list_remove_at i xs))"
    "g ` set (list_remove_at i xs) = g ` set xs - {g (xs ! i)}"
proof -
  have xs: "xs = take i xs @ xs ! i # drop (Suc i) xs" by (rule id_take_nth_drop [OF assms(1)])
  define a b where "a = take i xs" and "b = drop (Suc i) xs"
  have e: "xs = a @ xs ! i # b" "list_remove_at i xs = a @ b" using xs by (simp_all add: a_def b_def list_remove_at_def)
  have d: "distinct (map g (a @ xs ! i # b))" using assms(2) by (subst (asm) e(1))
  then have n: "g (xs ! i) \<notin> g ` set (a @ b)" by auto
  have sx: "set xs = insert (xs ! i) (set (a @ b))" by (subst e(1)) simp
  show "distinct (map g (list_remove_at i xs))" using d e(2) by auto
  show "set (list_remove_at i xs) = set xs - {xs ! i}" using sx n e(2) by auto
  show "g ` set (list_remove_at i xs) = g ` set xs - {g (xs ! i)}" using sx n e(2) by auto
qed

section \<open>Eviction\<close>

text \<open>Where the evicted page \<open>e\<close> goes: to its file if it is clean, else to a free slot.\<close>

definition evicted :: "vm \<Rightarrow> page \<Rightarrow> swap \<Rightarrow> devices \<Rightarrow> page_present \<Rightarrow> int \<Rightarrow> bool" where
  "evicted v e s d P sp \<longleftrightarrow>
     P = PRESENT_FILESYS \<and> sp = swap_page e \<and> page_file e \<noteq> 0 \<and> \<not> dirty v e \<and> s = swap_area v \<and> d = vdev v \<or>
     P = PRESENT_SWAP \<and> (\<exists>k. sp = int k \<and> free_slot (swap_area v) k \<and> swap_ok s d \<and> swap_slots s = swap_slots (swap_area v) \<and>
       (\<forall>q. free_slot s q \<longleftrightarrow> free_slot (swap_area v) q \<and> q \<noteq> k) \<and>
       (\<forall>q. swap_page_data s d q = (if q = k then mem_get (ram (mach v)) (kpage e) PGSIZE else swap_page_data (swap_area v) (vdev v) q)))"

abbreviation evict_state :: "nat \<Rightarrow> ptr \<Rightarrow> page \<Rightarrow> page \<Rightarrow> machine \<Rightarrow> swap \<Rightarrow> devices \<Rightarrow> page_present \<Rightarrow> int \<Rightarrow> vm \<Rightarrow> vm" where
  "evict_state i x rx e m s d P sp v \<equiv> set_dev d (v\<lparr>mach := m, swap_area := s,
     pages := (pages v)(fr_page (frame_table v ! i) \<mapsto> e\<lparr>present := P, swap_page := sp, kpage := 0\<rparr>, x \<mapsto> rx\<lparr>kpage := kpage e\<rparr>),
     frame_table := list_remove_at i (frame_table v) @ [(frame_table v ! i)\<lparr>fr_page := x\<rparr>], frame_lock := False\<rparr>)"

lemma set_dev_simps [simp]:
  "mach (set_dev d v) = mach v" "swap_area (set_dev d v) = swap_area v" "pages (set_dev d v) = pages v"
  "frame_table (set_dev d v) = frame_table v" "vthreads (set_dev d v) = vthreads v" "cur_tid (set_dev d v) = cur_tid v"
  "spage_tables (set_dev d v) = spage_tables v" "page_lock (set_dev d v) = page_lock v" "frame_lock (set_dev d v) = frame_lock v"
  "vm_ticks (set_dev d v) = vm_ticks v" "heap_next (set_dev d v) = heap_next v" "heap_full (set_dev d v) = heap_full v"
  "vdev (set_dev d v) = d" "set_dev (vdev v) v = v"
  by (simp_all add: set_dev_def)

lemma evict_out_run:
  assumes inv: "pds_inv (mach v) (page_dirs v)" "kernel_half (mach v) (page_dirs v)" "swap_ok (swap_area v) (vdev v)" "pages_ok v"
    and e: "pages v q = Some e" "\<not> is_user_vaddr (kpage e)" and sl: "free_slot (swap_area v) z"
  obtains s d P sp where "evicted v e s d P sp"
    "evict_out q v = Some (set_dev d (v\<lparr>swap_area := s, pages := (pages v)(q \<mapsto> e\<lparr>present := P, swap_page := sp\<rparr>)\<rparr>))"
proof -
  note po = pages_okD [OF inv(4) e(1)]
  obtain t where t: "vthreads v (page_tid e) = Some t" "pagedir t = dir_of v e" using po(6) by blast
  have d1: "pagedir_is_dirty (dir_of v e) (upage e) (mach v) = Some (dirty v e)"
    using pagedir_is_dirty_user [OF inv(1) po(5,4)] by (simp add: dirty_def)
  obtain b where d2: "pagedir_is_dirty (dir_of v e) (kpage e) (mach v) = Some b"
    using pagedir_is_dirty_kernel [OF inv(1) po(5) inv(2) e(2)] by auto
  show thesis
  proof (cases "\<not> dirty v e \<and> \<not> b \<and> page_file e \<noteq> 0")
    case True
    then have "evicted v e (swap_area v) (vdev v) PRESENT_FILESYS (swap_page e)" by (simp add: evicted_def)
    moreover have "evict_out q v = Some (upd_page q (\<lambda>r. r\<lparr>present := PRESENT_FILESYS\<rparr>) v)"
      using True e(1) t d1 d2 by (simp add: evict_out_def)
    ultimately show thesis using that e(1) by (simp add: upd_page_def set_dev_def)
  next
    case False
    have len: "length (mem_get (ram (mach v)) (kpage e) PGSIZE) = 4096" by simp
    show thesis
    proof (rule swalloc_ok [OF inv(3)])
      assume "\<And>p. \<not> free_slot (swap_area v) p"
      then show thesis using sl by blast
    next
      fix k s
      assume a: "swalloc (swap_area v) = Some (int k, s)" "free_slot (swap_area v) k" "swap_ok s (vdev v)"
        "swap_slots s = swap_slots (swap_area v)"
        and fr: "\<And>q. free_slot s q \<longleftrightarrow> free_slot (swap_area v) q \<and> q \<noteq> k"
        and dt: "\<And>d q. swap_page_data s d q = swap_page_data (swap_area v) d q"
      have k: "k < swap_slots s" using a(2,4) by (simp add: free_slot_def)
      obtain d where d: "swap_page_write (int k) (mem_get (ram (mach v)) (kpage e) PGSIZE) s (vdev v) = Some d" "swap_ok s d"
        "\<forall>q. swap_page_data s d q = (if q = k then mem_get (ram (mach v)) (kpage e) PGSIZE else swap_page_data s (vdev v) q)"
        using swap_page_write_ok [OF a(3) k len] by blast
      have "evicted v e s d PRESENT_SWAP (int k)" using a d(2,3) fr dt by (auto simp: evicted_def)
      moreover have "evict_out q v = Some (upd_page q (\<lambda>r. r\<lparr>present := PRESENT_SWAP, swap_page := int k\<rparr>) (set_dev d (v\<lparr>swap_area := s\<rparr>)))"
        using False e(1) t d1 d2 a(1) d(1) by (cases "dirty v e") (auto simp: evict_out_def)
      ultimately show thesis using that e(1) by (simp add: upd_page_def set_dev_def)
    qed
  qed
qed

lemma table_irrelevant [simp]:
  "page_dirs (v\<lparr>frame_table := ft\<rparr>) = page_dirs v" "pages_ok (v\<lparr>frame_table := ft\<rparr>) = pages_ok v" "dirty (v\<lparr>frame_table := ft\<rparr>) = dirty v"
  "evicted (v\<lparr>frame_table := ft\<rparr>) = evicted v"
  by (auto simp: page_dirs_def pages_ok_def dirty_def dir_of_def evicted_def fun_eq_iff)

lemma evict_to_run:
  assumes inv: "vm_inv x v" and x: "pages v x = Some rx" and fl: "frame_lock v" and ft: "frame_table v \<noteq> []"
    and sl: "free_slot (swap_area v) z"
  obtains i e m s d P sp where "i < length (frame_table v)"
    "\<forall>j < length (frame_table v). last_accessed_tick (frame_table v ! i) \<le> last_accessed_tick (frame_table v ! j)"
    "pages v (fr_page (frame_table v ! i)) = Some e" "kpage e = fr_kpage (frame_table v ! i)"
    "pagedir_clear_page (dir_of v e) (upage e) (mach v) = Some m" "evicted v e s d P sp"
    "evict_to x v = Some (kpage e, evict_state i x rx e m s d P sp v)"
proof -
  obtain i where i: "get_frame_to_evict (frame_table v) = Some i" "i < length (frame_table v)"
    and lru: "\<forall>j < length (frame_table v). last_accessed_tick (frame_table v ! i) \<le> last_accessed_tick (frame_table v ! j)"
    by (rule get_frame_to_evict_ok [OF ft])
  define f where "f = frame_table v ! i"
  let ?v = "v\<lparr>frame_table := list_remove_at i (frame_table v) @ [f]\<rparr>"
  have fin: "f \<in> set (frame_table v)" using i(2) by (simp add: f_def)
  obtain e where e: "pages v (fr_page f) = Some e" "kpage e = fr_kpage f" "fr_page f \<noteq> x" "\<not> is_user_vaddr (fr_kpage f)"
    by (rule frame_facts [OF inv fin])
  note po = pages_okD [OF vm_invD(5) [OF inv] e(1)]
  obtain t where t: "vthreads v (page_tid e) = Some t" "pagedir t = dir_of v e" using po(6) by blast
  obtain m where m: "pagedir_clear_page (dir_of v e) (upage e) (mach v) = Some m"
    using pagedir_clear_page_ok [OF vm_invD(1) [OF inv] po(5,3,4)] by blast
  obtain s d P sp where ev: "evicted v e s d P sp"
    and out: "evict_out (fr_page f) ?v = Some (set_dev d (?v\<lparr>swap_area := s, pages := (pages v)(fr_page f \<mapsto> e\<lparr>present := P, swap_page := sp\<rparr>)\<rparr>))"
    by (rule evict_out_run [of ?v "fr_page f" e z]) (use vm_invD(2,3,5,8) [OF inv] e sl in simp_all)
  have "evict_to x v = Some (kpage e, evict_state i x rx e m s d P sp v)"
    unfolding f_def [symmetric] evict_to_def
    using i(1) e x fl t m out
    by (simp add: f_def [symmetric] release_frame_lock_def upd_page_def set_dev_def Let_def fun_upd_twist)
  from that [OF i(2) lru e(1,2) [unfolded f_def] m ev this] show thesis .
qed


section \<open>The state after an eviction\<close>

lemma page_dirs_eq: "vthreads v' = vthreads v \<Longrightarrow> page_dirs v' = page_dirs v"
  by (simp add: page_dirs_def)

lemma dir_of_eq: "vthreads v' = vthreads v \<Longrightarrow> page_tid r' = page_tid r \<Longrightarrow> dir_of v' r' = dir_of v r"
  by (simp add: dir_of_def)

text \<open>The parts of the invariant that do not depend on where pages are.\<close>

lemma threads_ok_cong:
  assumes "threads_ok v" "vthreads v' = vthreads v" "spage_tables v' = spage_tables v"
    "\<And>p. map_option (\<lambda>r. (upage r, page_tid r)) (pages v' p) = map_option (\<lambda>r. (upage r, page_tid r)) (pages v p)"
  shows "threads_ok v'"
proof -
  have "table_ok (pages v') i h" if "table_ok (pages v) i h" for i h by (rule table_ok_cong [OF that assms(4)])
  then show ?thesis using assms(1) unfolding threads_ok_def assms(2,3) by blast
qed

lemma pages_ok_cong:
  assumes "pages_ok v" "vthreads v' = vthreads v" "heap_next v' = heap_next v"
    "\<And>p. map_option (\<lambda>r. (upage r, page_tid r)) (pages v' p) = map_option (\<lambda>r. (upage r, page_tid r)) (pages v p)"
  shows "pages_ok v'"
proof -
  have "\<exists>r. pages v p = Some r \<and> upage r = upage r' \<and> page_tid r = page_tid r'" if "pages v' p = Some r'" for p r'
    using assms(4) [of p] that by (cases "pages v p") auto
  then show ?thesis using assms(1) unfolding pages_ok_def assms(2,3) by metis
qed

lemma cleared_page:
  assumes inv: "maps_inv M D" and pd: "pd \<in> D" and up: "page_aligned up" "is_user_vaddr up" and run: "pagedir_clear_page pd up M = Some m"
  shows "maps_inv m D" "\<exists>r. m = M\<lparr>ram := r\<rparr>" "same_kernel M m D"
    "pd' \<in> D \<Longrightarrow> mapped m pd' b \<longleftrightarrow> mapped M pd' b \<and> \<not> (pd' = pd \<and> pg_round_down b = up)"
    "pd' \<in> D \<Longrightarrow> mapped m pd' b \<Longrightarrow> frame_of m pd' b = frame_of M pd' b"
    "page_aligned p \<Longrightarrow> p \<notin> pool_pages (kernel_pool M) \<Longrightarrow> mem_get (ram m) p PGSIZE = mem_get (ram M) p PGSIZE"
proof -
  obtain m1 where "pagedir_clear_page pd up M = Some m1" and c: "maps_inv m1 D"
    "\<forall>pd'\<in>D. \<forall>b. is_user_vaddr b \<longrightarrow> pte_of m1 pd' b =
      (if pd' = pd \<and> pg_round_down b = up then pte_of M pd up AND NOT PTE_P else pte_of M pd' b)"
    "\<forall>p. page_aligned p \<and> p \<notin> pool_pages (kernel_pool M) \<longrightarrow> mem_get (ram m1) p PGSIZE = mem_get (ram M) p PGSIZE"
    "\<exists>r. m1 = M\<lparr>ram := r\<rparr>"
    using pagedir_clear_page_ok [OF inv pd up] by blast
  then have m: "m1 = m" using run by simp
  show "maps_inv m D" "\<exists>r. m = M\<lparr>ram := r\<rparr>" using c m by blast+
  show "same_kernel M m D" by (rule same_kernel_clear [OF inv pd up(2) run])
  show "mem_get (ram m) p PGSIZE = mem_get (ram M) p PGSIZE" if "page_aligned p" "p \<notin> pool_pages (kernel_pool M)"
    using c(3) m that by blast
  have pte: "pte_of m pd' b = (if pd' = pd \<and> pg_round_down b = up then pte_of M pd up AND NOT PTE_P else pte_of M pd' b)"
    if "pd' \<in> D" "is_user_vaddr b" using c(2) m that by blast
  show mp: "mapped m pd' b \<longleftrightarrow> mapped M pd' b \<and> \<not> (pd' = pd \<and> pg_round_down b = up)" if "pd' \<in> D"
    using pte [OF that] by (cases "pd' = pd \<and> pg_round_down b = up") (auto simp: mapped_def cleared_flag)
  show "frame_of m pd' b = frame_of M pd' b" if "pd' \<in> D" "mapped m pd' b"
    using pte [OF that(1)] that(2) mp [OF that(1)] by (auto simp: mapped_def frame_of_def)
qed

lemma evicted_swap:
  assumes "evicted v e s d P sp" "swap_ok (swap_area v) (vdev v)"
  shows "swap_ok s d" "P \<noteq> PRESENT_MEMORY" "swap_slots s = swap_slots (swap_area v)"
    "free_slot s k \<Longrightarrow> free_slot (swap_area v) k"
    "\<not> free_slot (swap_area v) k \<Longrightarrow> swap_page_data s d k = swap_page_data (swap_area v) (vdev v) k"
    "P = PRESENT_SWAP \<Longrightarrow> \<exists>k. sp = int k \<and> free_slot (swap_area v) k \<and> \<not> free_slot s k \<and>
      swap_page_data s d k = mem_get (ram (mach v)) (kpage e) PGSIZE"
    "P \<noteq> PRESENT_SWAP \<Longrightarrow> P = PRESENT_FILESYS \<and> page_file e \<noteq> 0 \<and> \<not> dirty v e"
  using assms unfolding evicted_def by auto

text \<open>\<open>v'\<close> is the state after the frame at position \<open>i\<close> went from the page \<open>q\<close> to \<open>x\<close>.\<close>

definition eviction :: "ptr \<Rightarrow> vm \<Rightarrow> ptr \<Rightarrow> page \<Rightarrow> nat \<Rightarrow> page_present \<Rightarrow> int \<Rightarrow> vm \<Rightarrow> bool" where
  "eviction x v q e i P sp v' \<longleftrightarrow> vm_inv x v \<and> i < length (frame_table v) \<and> q = fr_page (frame_table v ! i) \<and> pages v q = Some e \<and>
     kpage e = fr_kpage (frame_table v ! i) \<and>
     (\<exists>rx m s d. pages v x = Some rx \<and> pagedir_clear_page (dir_of v e) (upage e) (mach v) = Some m \<and> evicted v e s d P sp \<and>
        v' = evict_state i x rx e m s d P sp v)"

lemma evictionD:
  assumes "eviction x v q e i P sp v'"
  shows "vm_inv x v" "i < length (frame_table v)" "pages v q = Some e" "pages v x \<noteq> None" "q = fr_page (frame_table v ! i)"
    "kpage e = fr_kpage (frame_table v ! i)"
    "pages v' = (pages v)(q \<mapsto> e\<lparr>present := P, swap_page := sp, kpage := 0\<rparr>, x \<mapsto> (the (pages v x))\<lparr>kpage := kpage e\<rparr>)"
    "pagedir_clear_page (dir_of v e) (upage e) (mach v) = Some (mach v')" "vthreads v' = vthreads v" "spage_tables v' = spage_tables v"
    "heap_next v' = heap_next v" "evicted v e (swap_area v') (vdev v') P sp"
  using assms unfolding eviction_def by auto

lemma eviction_page:
  assumes ev: "eviction x v q e i P sp v'"
  shows "present e = PRESENT_MEMORY" "q \<noteq> x" "mapped (mach v) (dir_of v e) (upage e)"
    "frame_of (mach v) (dir_of v e) (upage e) = kpage e" "page_aligned (kpage e)" "kpage e \<notin> pool_pages (kernel_pool (mach v))"
    "kpage e \<in> pool_pages (user_pool (mach v))" "kpage e \<in> allocated (mach v)" "kpage e \<noteq> 0"
proof -
  note h = evictionD [OF ev]
  have "frame_table v ! i \<in> set (frame_table v)" using h(2) by simp
  then show "present e = PRESENT_MEMORY" "q \<noteq> x" "mapped (mach v) (dir_of v e) (upage e)"
    "frame_of (mach v) (dir_of v e) (upage e) = kpage e" "page_aligned (kpage e)" "kpage e \<notin> pool_pages (kernel_pool (mach v))"
    "kpage e \<in> pool_pages (user_pool (mach v))" "kpage e \<in> allocated (mach v)" "kpage e \<noteq> 0"
    using frame_factsD [OF h(1)] h(3,5) by simp_all
qed

lemma eviction_maps:
  assumes ev: "eviction x v q e i P sp v'"
  shows "maps_inv (mach v') (page_dirs v)" "same_kernel (mach v) (mach v') (page_dirs v)" "\<exists>r. mach v' = (mach v)\<lparr>ram := r\<rparr>"
    "pages v p = Some t \<Longrightarrow> mapped (mach v') (dir_of v t) (upage t) \<longleftrightarrow> mapped (mach v) (dir_of v t) (upage t) \<and> p \<noteq> q"
    "pages v p = Some t \<Longrightarrow> mapped (mach v') (dir_of v t) (upage t) \<Longrightarrow>
       frame_of (mach v') (dir_of v t) (upage t) = frame_of (mach v) (dir_of v t) (upage t)"
    "page_aligned k \<Longrightarrow> k \<notin> pool_pages (kernel_pool (mach v)) \<Longrightarrow> mem_get (ram (mach v')) k PGSIZE = mem_get (ram (mach v)) k PGSIZE"
    "pd \<in> page_dirs v \<Longrightarrow> kpage e \<notin> frames (mach v') pd"
proof -
  note h = evictionD [OF ev] and g = eviction_page [OF ev]
  note inv = vm_invD [OF h(1)]
  note po = pages_okD [OF inv(5) h(3)]
  note cl = cleared_page [OF inv(1) po(5,3,4) h(8)]
  show "maps_inv (mach v') (page_dirs v)" "same_kernel (mach v) (mach v') (page_dirs v)" "\<exists>r. mach v' = (mach v)\<lparr>ram := r\<rparr>"
    using cl(1-3) by blast+
  show "mem_get (ram (mach v')) k PGSIZE = mem_get (ram (mach v)) k PGSIZE"
    if "page_aligned k" "k \<notin> pool_pages (kernel_pool (mach v))" using cl(6) that by blast
  show "mapped (mach v') (dir_of v t) (upage t) \<longleftrightarrow> mapped (mach v) (dir_of v t) (upage t) \<and> p \<noteq> q"
    "mapped (mach v') (dir_of v t) (upage t) \<Longrightarrow> frame_of (mach v') (dir_of v t) (upage t) = frame_of (mach v) (dir_of v t) (upage t)"
    if t: "pages v p = Some t"
  proof -
    note pt = pages_okD(3,5) [OF inv(5) t]
    have "dir_of v t = dir_of v e \<and> upage t = upage e \<longleftrightarrow> p = q" using page_unique [OF h(1) t h(3)] t h(3) by auto
    then show "mapped (mach v') (dir_of v t) (upage t) \<longleftrightarrow> mapped (mach v) (dir_of v t) (upage t) \<and> p \<noteq> q"
      using cl(4) [OF pt(2), of "upage t"] pt(1) by auto
    show "mapped (mach v') (dir_of v t) (upage t) \<Longrightarrow> frame_of (mach v') (dir_of v t) (upage t) = frame_of (mach v) (dir_of v t) (upage t)"
      using cl(5) [OF pt(2)] by blast
  qed
  show "kpage e \<notin> frames (mach v') pd" if pd: "pd \<in> page_dirs v"
  proof
    assume "kpage e \<in> frames (mach v') pd"
    then obtain b where b: "mapped (mach v') pd b" "frame_of (mach v') pd b = kpage e" by (auto simp: frames_def)
    then have "mapped (mach v) pd b" "frame_of (mach v) pd b = kpage e" using cl(4,5) [OF pd, of b] by auto
    then have "pd = dir_of v e \<and> pg_round_down b = upage e"
      using maps_invD(6) [OF inv(1) pd po(5) _ g(3), of b] g(4) po(3) by simp
    then show False using b(1) cl(4) [OF pd, of b] by blast
  qed
qed

lemma eviction_frames:
  assumes ev: "eviction x v q e i P sp v'"
  shows "frames_ok x (v'\<lparr>frame_table := list_remove_at i (frame_table v)\<rparr>)" (is "frames_ok x ?w")
  unfolding frames_ok_def
proof (intro conjI ballI allI impI)
  note h = evictionD [OF ev] and g = eviction_page [OF ev] and mp = eviction_maps [OF ev]
  note inv = vm_invD [OF h(1)]
  note lr = list_remove_at_ok [OF h(2) frames_okD(1) [OF inv(6)], folded h(5)]
  have dir: "dir_of ?w = dir_of v" using h(9) by (simp add: dir_of_def fun_eq_iff)
  show "distinct (map fr_page (frame_table ?w))" using lr(2) by simp
  show "x \<notin> fr_page ` set (frame_table ?w)" using lr(3) frames_okD(2) [OF inv(6)] by simp
  show "in_frame ?w f" if "f \<in> set (frame_table ?w)" for f
  proof -
    have f: "f \<in> set (frame_table v)" "fr_page f \<noteq> q" using that lr(1,3) by auto
    obtain t where t: "pages v (fr_page f) = Some t" "present t = PRESENT_MEMORY" "kpage t = fr_kpage f" "fr_page f \<noteq> x"
      "mapped (mach v) (dir_of v t) (upage t)" "frame_of (mach v) (dir_of v t) (upage t) = fr_kpage f"
      by (rule frame_facts [OF h(1) f(1)])
    have "mapped (mach v') (dir_of v t) (upage t)" using mp(4) [OF t(1)] t(5) f(2) by simp
    then show ?thesis using t f(2) mp(5) [OF t(1)] by (simp add: in_frame_def h(7) dir)
  qed
  fix p t assume "pages ?w p = Some t \<and> p \<notin> fr_page ` set (frame_table ?w)"
  then have p: "pages v' p = Some t" "p \<notin> fr_page ` set (frame_table v) \<or> p = q" using lr(3) by auto
  obtain t0 where t0: "pages v p = Some t0" "upage t = upage t0" "page_tid t = page_tid t0" "p \<noteq> q \<Longrightarrow> p \<noteq> x \<Longrightarrow> t = t0"
    using p(1) h(3,4) by (auto simp: h(7) split: if_splits)
  have "\<not> mapped (mach v') (dir_of v t0) (upage t0)"
    using mp(4) [OF t0(1)] p(2) frames_okD(4) [OF inv(6) t0(1)] by auto
  then show "\<not> mapped (mach ?w) (dir_of ?w t) (upage t)" using t0(2,3) h(9) by (simp add: dir_of_def)
  show "present t \<noteq> PRESENT_MEMORY" if "p \<noteq> x"
    using that p t0 evicted_swap(2) [OF h(12) inv(3)] g(2) frames_okD(5) [OF inv(6) t0(1)] by (cases "p = q") (auto simp: h(7))
qed

lemma slots_ok_table [simp]: "slots_ok (v\<lparr>frame_table := ft\<rparr>) = slots_ok v"
  unfolding slots_ok_def by simp

lemma slots_okD:
  assumes "slots_ok v" "pages v p = Some t" "present t = PRESENT_SWAP"
  shows "\<exists>k. swap_page t = int k \<and> k < swap_slots (swap_area v) \<and> \<not> free_slot (swap_area v) k"
    "pages v p' = Some t' \<Longrightarrow> present t' = PRESENT_SWAP \<Longrightarrow> swap_page t = swap_page t' \<Longrightarrow> p = p'"
  using assms unfolding slots_ok_def by blast+

lemma eviction_slots:
  assumes ev: "eviction x v q e i P sp v'"
  shows "slots_ok v'"
proof -
  note h = evictionD [OF ev] and g = eviction_page [OF ev]
  note inv = vm_invD [OF h(1)]
  note sw = evicted_swap [OF h(12) inv(3)]
  have new: "P = PRESENT_SWAP \<and> p = q \<and> swap_page t = sp \<or>
      (\<exists>t0. pages v p = Some t0 \<and> present t0 = PRESENT_SWAP \<and> swap_page t = swap_page t0 \<and> p \<noteq> q)"
    if "pages v' p = Some t" "present t = PRESENT_SWAP" for p t
    using that h(4) g(2) by (auto simp: h(7) split: if_splits)
  have ne: "swap_page t \<noteq> sp" if "pages v p = Some t" "present t = PRESENT_SWAP" "P = PRESENT_SWAP" for p t
    using slots_okD(1) [OF inv(7) that(1,2)] sw(6) [OF that(3)] by auto
  show ?thesis unfolding slots_ok_def
  proof (intro conjI allI impI)
    fix p t assume "pages v' p = Some t \<and> present t = PRESENT_SWAP"
    then consider "P = PRESENT_SWAP" "swap_page t = sp"
      | t0 where "pages v p = Some t0" "present t0 = PRESENT_SWAP" "swap_page t = swap_page t0" using new by blast
    then show "\<exists>k. swap_page t = int k \<and> k < swap_slots (swap_area v') \<and> \<not> free_slot (swap_area v') k"
    proof cases
      case 1
      then show ?thesis using sw(6) sw(3) by (auto simp: free_slot_def)
    next
      case 2
      then show ?thesis using slots_okD(1) [OF inv(7) 2(1,2)] sw(3,4) by auto
    qed
  next
    fix p p' t t' assume "pages v' p = Some t \<and> pages v' p' = Some t' \<and> present t = PRESENT_SWAP \<and> present t' = PRESENT_SWAP \<and> swap_page t = swap_page t'"
    then have t: "pages v' p = Some t" "present t = PRESENT_SWAP" "pages v' p' = Some t'" "present t' = PRESENT_SWAP" "swap_page t = swap_page t'"
      by simp_all
    have "p = p'" if "pages v p = Some u" "present u = PRESENT_SWAP" "swap_page t = swap_page u"
      "pages v p' = Some u'" "present u' = PRESENT_SWAP" "swap_page t' = swap_page u'" for u u'
      using slots_okD(2) [OF inv(7) that(1,2,4,5)] that(3,6) t(5) by simp
    then show "p = p'" using new [OF t(1,2)] new [OF t(3,4)] ne [of p] ne [of p'] t(5) by metis
  qed
qed

lemma eviction_inv:
  assumes ev: "eviction x v q e i P sp v'"
  shows "vm_inv x (v'\<lparr>frame_table := list_remove_at i (frame_table v)\<rparr>)" (is "vm_inv x ?w")
proof -
  note h = evictionD [OF ev] and mp = eviction_maps [OF ev]
  note inv = vm_invD [OF h(1)]
  have info: "map_option (\<lambda>r. (upage r, page_tid r)) (pages v' p) = map_option (\<lambda>r. (upage r, page_tid r)) (pages v p)" for p
    using h(3,4) by (auto simp: h(7))
  have "page_dirs v' = page_dirs v" by (rule page_dirs_eq [OF h(9)])
  moreover have "slots_ok ?w" using eviction_slots [OF ev] by simp
  moreover have "threads_ok ?w" by (rule threads_ok_cong [OF inv(4)]) (simp_all add: h(9-11) info)
  moreover have "pages_ok ?w" by (rule pages_ok_cong [OF inv(5)]) (simp_all add: h(9-11) info)
  ultimately show ?thesis
    using mp(1) kernel_half_same [OF inv(2) mp(2)] evicted_swap(1) [OF h(12) inv(3)] eviction_frames [OF ev] by (simp add: vm_inv_def)
qed

lemma memory_page:
  assumes "vm_inv x v" "pages v p = Some t" "present t = PRESENT_MEMORY" "p \<noteq> x"
  shows "page_aligned (kpage t)" "kpage t \<in> pool_pages (user_pool (mach v))" "kpage t \<notin> pool_pages (kernel_pool (mach v))"
    "kpage t \<in> allocated (mach v)" "mapped (mach v) (dir_of v t) (upage t)" "frame_of (mach v) (dir_of v t) (upage t) = kpage t"
    "p \<in> fr_page ` set (frame_table v)"
proof -
  obtain f where f: "f \<in> set (frame_table v)" "fr_page f = p" by (rule in_memory_frame [OF vm_invD(6) [OF assms(1)] assms(2-4)])
  then show "page_aligned (kpage t)" "kpage t \<in> pool_pages (user_pool (mach v))" "kpage t \<notin> pool_pages (kernel_pool (mach v))"
    "kpage t \<in> allocated (mach v)" "mapped (mach v) (dir_of v t) (upage t)" "frame_of (mach v) (dir_of v t) (upage t) = kpage t"
    "p \<in> fr_page ` set (frame_table v)"
    using frame_factsD [OF assms(1) f(1)] assms(2) by auto
qed

lemma eviction_keeps:
  assumes ev: "eviction x v q e i P sp v'"
  shows "keeps x v v'"
  unfolding keeps_def
proof (intro allI impI)
  note h = evictionD [OF ev] and g = eviction_page [OF ev] and mp = eviction_maps [OF ev]
  note inv = vm_invD [OF h(1)]
  note sw = evicted_swap [OF h(12) inv(3)]
  fix p assume px: "p \<noteq> x"
  have same: "page_data v' t = page_data v t" if t: "pages v p = Some t" for t
  proof (cases "present t")
    case PRESENT_MEMORY
    then show ?thesis using mp(6) memory_page(1,3) [OF h(1) t _ px] by (simp add: page_data_def)
  next
    case PRESENT_SWAP
    then obtain k where "swap_page t = int k" "\<not> free_slot (swap_area v) k" using slots_okD(1) [OF inv(7) t] by blast
    then show ?thesis using PRESENT_SWAP sw(5) [of k] by (simp add: page_data_def)
  qed (simp add: page_data_def)
  have "same_page_info e (e\<lparr>present := P, swap_page := sp, kpage := 0\<rparr>)" by (simp add: same_page_info_def)
  moreover have "page_data v' (e\<lparr>present := P, swap_page := sp, kpage := 0\<rparr>) = page_data v e \<or>
      dropped v e (e\<lparr>present := P, swap_page := sp, kpage := 0\<rparr>)"
    using sw(6,7) g(1) by (cases "P = PRESENT_SWAP") (auto simp: page_data_def dropped_def)
  ultimately show "case pages v p of None \<Rightarrow> pages v' p = None
     | Some r \<Rightarrow> (\<exists>r'. pages v' p = Some r' \<and> same_page_info r r' \<and> (page_data v' r' = page_data v r \<or> dropped v r r'))"
    using px h(3) same by (cases "p = q") (auto simp: h(7) same_page_info_def split: option.splits)
qed

section \<open>Giving a page a frame\<close>

lemma mapped_eq:
  assumes "\<And>a. is_user_vaddr a \<Longrightarrow> pte_of m' pd a = pte_of m pd a"
  shows "mapped m' pd a = mapped m pd a" "mapped m pd a \<Longrightarrow> frame_of m' pd a = frame_of m pd a"
  using assms by (auto simp: mapped_def frame_of_def)

text \<open>Changes to the record of the page without a frame and to memory outside the tables.\<close>

lemma vm_inv_update:
  assumes inv: "vm_inv x v" and x: "pages v x = Some rx" "pages v' = (pages v)(x \<mapsto> r')" "upage r' = upage rx" "page_tid r' = page_tid rx"
      "present r' = PRESENT_SWAP \<Longrightarrow> present rx = PRESENT_SWAP \<and> swap_page r' = swap_page rx"
    and st: "vthreads v' = vthreads v" "spage_tables v' = spage_tables v" "heap_next v' = heap_next v" "frame_table v' = frame_table v"
      "swap_area v' = swap_area v" "swap_ok (swap_area v) (vdev v')"
    and m: "maps_inv (mach v') (page_dirs v)" "same_kernel (mach v) (mach v') (page_dirs v)"
      "\<And>pd a. pd \<in> page_dirs v \<Longrightarrow> is_user_vaddr a \<Longrightarrow> pte_of (mach v') pd a = pte_of (mach v) pd a"
  shows "vm_inv x v'"
proof -
  note iv = vm_invD [OF inv]
  have info: "map_option (\<lambda>r. (upage r, page_tid r)) (pages v' p) = map_option (\<lambda>r. (upage r, page_tid r)) (pages v p)" for p
    using x by simp
  have old: "\<exists>t0. pages v p = Some t0 \<and> upage t = upage t0 \<and> dir_of v' t = dir_of v t0 \<and> dir_of v t0 \<in> page_dirs v \<and> (p \<noteq> x \<longrightarrow> t = t0) \<and>
      (present t = PRESENT_SWAP \<longrightarrow> present t0 = PRESENT_SWAP \<and> swap_page t = swap_page t0)"
    if "pages v' p = Some t" for p t
  proof (cases "p = x")
    case True
    then show ?thesis using that x st(1) pages_okD(5) [OF iv(5) x(1)] by (simp add: dir_of_def)
  next
    case False
    then have "pages v p = Some t" using that x by simp
    then show ?thesis using st(1) pages_okD(5) [OF iv(5)] by (simp add: dir_of_def)
  qed
  have "frames_ok x v'" unfolding frames_ok_def
  proof (intro conjI ballI allI impI)
    show "distinct (map fr_page (frame_table v'))" "x \<notin> fr_page ` set (frame_table v')" using frames_okD(1,2) [OF iv(6)] st by simp_all
    show "in_frame v' f" if "f \<in> set (frame_table v')" for f
    proof -
      have f: "f \<in> set (frame_table v)" using that st by simp
      obtain t where t: "pages v (fr_page f) = Some t" "present t = PRESENT_MEMORY" "kpage t = fr_kpage f" "fr_page f \<noteq> x"
        "mapped (mach v) (dir_of v t) (upage t)" "frame_of (mach v) (dir_of v t) (upage t) = fr_kpage f"
        by (rule frame_facts [OF inv f])
      have "mapped (mach v') (dir_of v t) (upage t)" "frame_of (mach v') (dir_of v t) (upage t) = fr_kpage f"
        using mapped_eq [of "mach v'" "dir_of v t" "mach v", OF m(3) [OF pages_okD(5) [OF iv(5) t(1)]]] t(5,6) by simp_all
      then show ?thesis using t x(2) st(1) by (simp add: in_frame_def dir_of_def)
    qed
    fix p t assume h: "pages v' p = Some t \<and> p \<notin> fr_page ` set (frame_table v')"
    then obtain t0 where t0: "pages v p = Some t0" "upage t = upage t0" "dir_of v' t = dir_of v t0" "dir_of v t0 \<in> page_dirs v" "p \<noteq> x \<longrightarrow> t = t0"
      using old by blast
    have p: "p \<notin> fr_page ` set (frame_table v)" using h st by simp
    show "\<not> mapped (mach v') (dir_of v' t) (upage t)"
      using mapped_eq(1) [of "mach v'" "dir_of v t0" "mach v", OF m(3) [OF t0(4)]] t0(2,3) frames_okD(4) [OF iv(6) t0(1) p] by simp
    show "present t \<noteq> PRESENT_MEMORY" if "p \<noteq> x" using t0(1,5) frames_okD(5) [OF iv(6) t0(1) p that] that by simp
  qed
  moreover have "slots_ok v'" unfolding slots_ok_def st(5)
  proof (intro conjI allI impI)
    fix p t assume "pages v' p = Some t \<and> present t = PRESENT_SWAP"
    then show "\<exists>k. swap_page t = int k \<and> k < swap_slots (swap_area v) \<and> \<not> free_slot (swap_area v) k"
      using old slots_okD(1) [OF iv(7)] by metis
  next
    fix p q t u assume h: "pages v' p = Some t \<and> pages v' q = Some u \<and> present t = PRESENT_SWAP \<and> present u = PRESENT_SWAP \<and> swap_page t = swap_page u"
    obtain t0 u0 where "pages v p = Some t0" "present t0 = PRESENT_SWAP" "swap_page t = swap_page t0"
      "pages v q = Some u0" "present u0 = PRESENT_SWAP" "swap_page u = swap_page u0" using h old by metis
    then show "p = q" using slots_okD(2) [OF iv(7)] h by simp
  qed
  moreover have "threads_ok v'" by (rule threads_ok_cong [OF iv(4) st(1,2) info])
  moreover have "pages_ok v'" by (rule pages_ok_cong [OF iv(5) st(1,3) info])
  ultimately show ?thesis
    using m(1) kernel_half_same [OF iv(2) m(2)] st(5,6) page_dirs_eq [OF st(1)] by (simp add: vm_inv_def)
qed

text \<open>The page \<open>x\<close> got the frame \<open>k\<close>, which is not mapped yet.\<close>

definition got_frame :: "ptr \<Rightarrow> vm \<Rightarrow> va \<Rightarrow> vm \<Rightarrow> bool" where
  "got_frame x v k v' \<longleftrightarrow> (\<exists>ft f. frame_table v' = ft @ [f] \<and> fr_page f = x \<and> fr_kpage f = k \<and> vm_inv x (v'\<lparr>frame_table := ft\<rparr>)) \<and>
     pages v' x = map_option (\<lambda>r. r\<lparr>kpage := k\<rparr>) (pages v x) \<and> k \<in> pool_pages (user_pool (mach v')) \<inter> allocated (mach v') \<and>
     (\<forall>pd\<in>page_dirs v. k \<notin> frames (mach v') pd) \<and> keeps x v v' \<and>
     vthreads v' = vthreads v \<and> cur_tid v' = cur_tid v \<and> spage_tables v' = spage_tables v \<and> heap_next v' = heap_next v \<and>
     page_lock v' = page_lock v \<and> \<not> frame_lock v' \<and>
     (pool_pages (kernel_pool (mach v')) \<subseteq> allocated (mach v') \<longrightarrow> pool_pages (kernel_pool (mach v)) \<subseteq> allocated (mach v)) \<and>
     (\<forall>j. \<not> free_slot (swap_area v) j \<longrightarrow> swap_page_data (swap_area v') (vdev v') j = swap_page_data (swap_area v) (vdev v) j)"

text \<open>Memory suffices for one more page: a page of the user pool is free, or one can be evicted.\<close>

definition can_get_frame :: "vm \<Rightarrow> bool" where
  "can_get_frame v \<longleftrightarrow> (if pool_pages (user_pool (mach v)) \<subseteq> allocated (mach v)
     then frame_table v \<noteq> [] \<and> (\<exists>z. free_slot (swap_area v) z) else \<not> heap_full v)"

lemma user_flags:
  "(PAL_USER OR PAL_ZERO) AND PAL_ASSERT = 0" "(PAL_USER OR PAL_ZERO) AND PAL_USER \<noteq> 0" "(PAL_USER OR PAL_ZERO) AND PAL_ZERO \<noteq> 0"
  by (simp_all add: PAL_USER_def PAL_ZERO_def PAL_ASSERT_def)

lemma lock_irrelevant [simp]:
  "vm_inv x (v\<lparr>frame_lock := b\<rparr>) = vm_inv x v" "keeps x (v\<lparr>frame_lock := b\<rparr>) w = keeps x v w" "page_dirs (v\<lparr>frame_lock := b\<rparr>) = page_dirs v"
  "vm_inv x (v\<lparr>page_lock := b\<rparr>) = vm_inv x v" "page_dirs (v\<lparr>page_lock := b\<rparr>) = page_dirs v" "keeps x (v\<lparr>page_lock := b\<rparr>) w = keeps x v w"
  "keeps x v' (v\<lparr>page_lock := b\<rparr>) = keeps x v' v" "keeps x v' (v\<lparr>frame_lock := b\<rparr>) = keeps x v' v"
  "got_frame x (v\<lparr>frame_lock := b\<rparr>) k w = got_frame x v k w"
  by (simp_all add: vm_inv_def page_dirs_def threads_ok_def pages_ok_def frames_ok_def in_frame_def dir_of_def slots_ok_def
      keeps_def page_data_def dropped_def dirty_def got_frame_def cong: option.case_cong page_present.case_cong)

lemma evict_to_ok:
  assumes inv: "vm_inv x v" and x: "pages v x = Some rx" and fl: "frame_lock v" and ft: "frame_table v \<noteq> []"
    and sl: "free_slot (swap_area v) z"
  obtains q e i P sp v' where "evict_to x v = Some (kpage e, v')" "eviction x v q e i P sp v'" "got_frame x v (kpage e) v'"
    "\<forall>j < length (frame_table v). last_accessed_tick (frame_table v ! i) \<le> last_accessed_tick (frame_table v ! j)"
proof -
  obtain i e m s d P sp where lru: "\<forall>j < length (frame_table v). last_accessed_tick (frame_table v ! i) \<le> last_accessed_tick (frame_table v ! j)"
    and r: "i < length (frame_table v)" "pages v (fr_page (frame_table v ! i)) = Some e"
    "kpage e = fr_kpage (frame_table v ! i)" "pagedir_clear_page (dir_of v e) (upage e) (mach v) = Some m" "evicted v e s d P sp"
    and run: "evict_to x v = Some (kpage e, evict_state i x rx e m s d P sp v)"
    by (rule evict_to_run [OF inv x fl ft sl])
  define v' where "v' = evict_state i x rx e m s d P sp v"
  have ev: "eviction x v (fr_page (frame_table v ! i)) e i P sp v'"
    unfolding eviction_def using inv r x v'_def by auto
  note h = evictionD [OF ev] and g = eviction_page [OF ev] and mp = eviction_maps [OF ev]
  obtain rr where rr: "mach v' = (mach v)\<lparr>ram := rr\<rparr>" using mp(3) by blast
  have tab: "frame_table v' = list_remove_at i (frame_table v) @ [(frame_table v ! i)\<lparr>fr_page := x\<rparr>]" by (simp add: v'_def)
  have "got_frame x v (kpage e) v'" unfolding got_frame_def
  proof (intro conjI)
    show "\<exists>ft f. frame_table v' = ft @ [f] \<and> fr_page f = x \<and> fr_kpage f = kpage e \<and> vm_inv x (v'\<lparr>frame_table := ft\<rparr>)"
      using tab eviction_inv [OF ev] r(3) by auto
    show "\<forall>j. \<not> free_slot (swap_area v) j \<longrightarrow> swap_page_data (swap_area v') (vdev v') j = swap_page_data (swap_area v) (vdev v) j"
      using evicted_swap(5) [OF h(12) vm_invD(3) [OF inv]] by blast
    show "\<forall>pd\<in>page_dirs v. kpage e \<notin> frames (mach v') pd" using mp(7) by blast
    show "keeps x v v'" by (rule eviction_keeps [OF ev])
    show "kpage e \<in> pool_pages (user_pool (mach v')) \<inter> allocated (mach v')"
      "pool_pages (kernel_pool (mach v')) \<subseteq> allocated (mach v') \<longrightarrow> pool_pages (kernel_pool (mach v)) \<subseteq> allocated (mach v)"
      using g(7,8) rr by simp_all
  qed (use x in \<open>simp_all add: v'_def\<close>)
  then show thesis using that [OF _ ev _ lru] run v'_def by simp
qed

lemma keeps_memory:
  assumes inv: "vm_inv x v" and pg: "\<And>p. p \<noteq> x \<Longrightarrow> pages v' p = pages v p"
    and mem: "\<And>k. page_aligned k \<Longrightarrow> k \<in> pool_pages (user_pool (mach v)) \<Longrightarrow> k \<in> allocated (mach v) \<Longrightarrow>
      mem_get (ram (mach v')) k PGSIZE = mem_get (ram (mach v)) k PGSIZE"
    and sw: "swap_area v' = swap_area v" "vdev v' = vdev v"
  shows "keeps x v v'"
  unfolding keeps_def
proof (intro allI impI)
  fix p assume px: "p \<noteq> x"
  have "page_data v' t = page_data v t" if t: "pages v p = Some t" for t
    using memory_page(1,2,4) [OF inv t _ px] mem sw by (cases "present t") (simp_all add: page_data_def)
  then show "case pages v p of None \<Rightarrow> pages v' p = None
     | Some r \<Rightarrow> (\<exists>r'. pages v' p = Some r' \<and> same_page_info r r' \<and> (page_data v' r' = page_data v r \<or> dropped v r r'))"
    using pg [OF px] by (auto simp: same_page_info_def split: option.splits)
qed

lemma falloc_free:
  assumes inv: "vm_inv x v" and x: "pages v x = Some rx" and hf: "\<not> heap_full v"
    and g: "palloc_get_page (PAL_USER OR PAL_ZERO) (mach v) = Some (k, m)" "k \<noteq> 0" "maps_inv m (page_dirs v)"
      "k \<in> pool_pages (user_pool (mach v))" "k \<notin> allocated (mach v)" "allocated m = insert k (allocated (mach v))"
      "\<And>w. pool_pages (the_pool w m) = pool_pages (the_pool w (mach v))" "ram m = mem_put (ram (mach v)) k (replicate PGSIZE 0)"
      "\<And>pd a. pd \<in> page_dirs v \<Longrightarrow> is_user_vaddr a \<Longrightarrow> pte_of m pd a = pte_of (mach v) pd a"
    and v': "v' = v\<lparr>mach := m, pages := (pages v)(x \<mapsto> rx\<lparr>kpage := k\<rparr>), frame_lock := False,
        frame_table := frame_table v @ [\<lparr>fr_kpage = k, fr_page = x, last_accessed_tick = vm_ticks v\<rparr>]\<rparr>"
  shows "got_frame x v k v'"
proof -
  note iv = vm_invD [OF inv]
  have ka: "page_aligned k" using pool_page_in_ram(2) [OF iv(9), of k True] g(4) by (simp add: the_pool_def)
  have pools: "pool_pages (user_pool m) = pool_pages (user_pool (mach v))" "pool_pages (kernel_pool m) = pool_pages (kernel_pool (mach v))"
    using g(7) [of True] g(7) [of False] by (simp_all add: the_pool_def)
  have kk: "k \<notin> pool_pages (kernel_pool (mach v))" using user_kernel_disjoint [OF iv(1) g(4)] by blast
  have "k \<notin> page_dirs v" using g(5) owned_facts(1) [OF iv(8)] by (auto simp: owned_def)
  then have sk: "same_kernel (mach v) m (page_dirs v)"
    using same_kernel_put [OF iv(8) ka, of "replicate PGSIZE 0"] g(8) by (simp add: same_kernel_def pde_of_def)
  have "vm_inv x (v'\<lparr>frame_table := frame_table v\<rparr>)"
    by (rule vm_inv_update [OF inv x, where r' = "rx\<lparr>kpage := k\<rparr>"]) (use g iv(3) sk in \<open>simp_all add: v'\<close>)
  then have tab: "\<exists>ft f. frame_table v' = ft @ [f] \<and> fr_page f = x \<and> fr_kpage f = k \<and> vm_inv x (v'\<lparr>frame_table := ft\<rparr>)"
    by (simp add: v')
  have "keeps x v v'"
    by (rule keeps_memory [OF inv]) (use g(5,8) get_put_page [OF ka, of "replicate PGSIZE 0"] in \<open>auto simp: v'\<close>)
  moreover have "k \<notin> frames m pd" if "pd \<in> page_dirs v" for pd
    using g(5) maps_invD(5) [OF iv(1) that] mapped_eq [of m pd "mach v", OF g(9) [OF that]] by (auto simp: frames_def)
  moreover have "pool_pages (kernel_pool (mach v)) \<subseteq> allocated (mach v)" if "pool_pages (kernel_pool m) \<subseteq> allocated m"
    using that pools(2) g(6) kk by auto
  ultimately show ?thesis using tab x g(4,6) pools by (simp add: got_frame_def v')
qed

lemma falloc_evict:
  assumes inv: "vm_inv x v" and x: "pages v x = Some rx" and fl: "\<not> frame_lock v"
    and full: "pool_pages (user_pool (mach v)) \<subseteq> allocated (mach v)" and ft: "frame_table v \<noteq> []" and sl: "free_slot (swap_area v) z"
  obtains q e i P sp v' where "falloc x (PAL_USER OR PAL_ZERO) v = Some (kpage e, v')" "eviction x (v\<lparr>frame_lock := True\<rparr>) q e i P sp v'"
    "got_frame x v (kpage e) v'" "\<forall>j < length (frame_table v). last_accessed_tick (frame_table v ! i) \<le> last_accessed_tick (frame_table v ! j)"
proof (rule maps_inv_get_user [OF vm_invD(1) [OF inv] user_flags(1,2)])
  assume n: "palloc_get_page (PAL_USER OR PAL_ZERO) (mach v) = Some (0, mach v)"
  let ?v = "v\<lparr>frame_lock := True\<rparr>"
  have v: "vm_inv x ?v" "pages ?v x = Some rx" "frame_lock ?v" "frame_table ?v \<noteq> []" "free_slot (swap_area ?v) z"
    using inv x ft sl by simp_all
  show thesis
  proof (rule evict_to_ok [OF v])
    fix q e i P sp v' assume e: "evict_to x ?v = Some (kpage e, v')" "eviction x ?v q e i P sp v'" "got_frame x ?v (kpage e) v'"
      "\<forall>j < length (frame_table ?v). last_accessed_tick (frame_table ?v ! i) \<le> last_accessed_tick (frame_table ?v ! j)"
    have "falloc x (PAL_USER OR PAL_ZERO) v = Some (kpage e, v')"
      using n fl e(1) by (simp add: falloc_def acquire_frame_lock_def)
    then show thesis using that e(2-4) by simp
  qed
qed (use full in auto)

lemma falloc_ok:
  assumes inv: "vm_inv x v" and x: "pages v x = Some rx" and fl: "\<not> frame_lock v" and can: "can_get_frame v"
  shows "\<exists>k v'. falloc x (PAL_USER OR PAL_ZERO) v = Some (k, v') \<and> got_frame x v k v'"
proof (rule maps_inv_get_user [OF vm_invD(1) [OF inv] user_flags(1,2)])
  assume n: "pool_pages (user_pool (mach v)) \<subseteq> allocated (mach v)"
  then obtain z where "frame_table v \<noteq> []" "free_slot (swap_area v) z" using can by (auto simp: can_get_frame_def)
  then show ?thesis by (rule falloc_evict [OF inv x fl n]) blast
next
  fix k m
  assume g: "palloc_get_page (PAL_USER OR PAL_ZERO) (mach v) = Some (k, m)" "k \<noteq> 0" "maps_inv m (page_dirs v)"
    "k \<in> pool_pages (user_pool (mach v))" "k \<notin> allocated (mach v)" "allocated m = insert k (allocated (mach v))"
    and w: "\<And>w. pool_pages (the_pool w m) = pool_pages (the_pool w (mach v))"
    and r: "ram m = (if (PAL_USER OR PAL_ZERO) AND PAL_ZERO \<noteq> 0 then mem_put (ram (mach v)) k (replicate PGSIZE 0) else ram (mach v))"
    and pte: "\<And>pd a. pd \<in> page_dirs v \<Longrightarrow> is_user_vaddr a \<Longrightarrow> pte_of m pd a = pte_of (mach v) pd a"
  have hf: "\<not> heap_full v" using can g(4,5) by (auto simp: can_get_frame_def split: if_splits)
  have "falloc x (PAL_USER OR PAL_ZERO) v = Some (k, v\<lparr>mach := m, pages := (pages v)(x \<mapsto> rx\<lparr>kpage := k\<rparr>), frame_lock := False,
        frame_table := frame_table v @ [\<lparr>fr_kpage = k, fr_page = x, last_accessed_tick = vm_ticks v\<rparr>]\<rparr>)"
    using g(1,2) fl hf x by (simp add: falloc_def acquire_frame_lock_def release_frame_lock_def upd_page_def Let_def)
  moreover have "ram m = mem_put (ram (mach v)) k (replicate PGSIZE 0)" using r user_flags(3) by simp
  ultimately show ?thesis using falloc_free [OF inv x hf g w _ pte refl] by blast
qed

end
