(* ===== verification/Vm_Loads.thy ===== *)
theory Vm_Loads
  imports Vm_Inv
begin

text \<open>
  Bringing pages into memory: mapping a frame, loading a page from swap or from its file, growing
  the stack, and the page fault handler, with the properties of virtual memory.
\<close>

section \<open>Mapping the frame\<close>




lemma slots_ok_mach [simp]: "slots_ok (v\<lparr>mach := m\<rparr>) = slots_ok v"
  unfolding slots_ok_def by simp





section \<open>Filling the frame\<close>

lemma mem_put_append:
  assumes "fits a (length (xs @ ys))"
  shows "mem_put (mem_put m a xs) (a + of_nat (length xs)) ys = mem_put m a (xs @ ys)"
proof (cases "ys = []")
  case True
  then show ?thesis by (simp add: mem_put_def)
next
  case False
  let ?b = "a + of_nat (length xs)"
  have b: "unat ?b = unat a + length xs" using unat_offset [OF assms, of "length xs"] False by simp
  have f: "fits a (length xs)" "fits ?b (length ys)" using assms b by (simp_all add: fits_def)
  show ?thesis
  proof
    fix x
    have "unat (x - c) = unat x - unat c" if "unat c \<le> unat x" for c :: va
      using that unat_sub [of c x] by (simp add: word_le_nat_alt)
    then show "mem_put (mem_put m a xs) ?b ys x = mem_put m a (xs @ ys) x"
      using in_block [OF f(1), of x] in_block [OF f(2), of x] in_block [OF assms, of x] b
      by (auto simp: mem_put_def nth_append)
  qed
qed



section \<open>Loading a page from swap\<close>




section \<open>The page fault handler\<close>






section \<open>Properties\<close>















end
