(* ===== verification/Vm_Tick.thy ===== *)
theory Vm_Tick
  imports Vm_Loads
begin

text \<open>
  The part of the timer interrupt that works on frames (\<^verbatim>\<open>frame_tick\<close> in \<^verbatim>\<open>vm/frame.c\<close>): it records the time of the tick
  for every frame whose page was accessed since the last tick and clears the accessed bit, and does nothing else.
\<close>

definition accessed :: "vm \<Rightarrow> frame \<Rightarrow> bool" where
  "accessed v f \<longleftrightarrow> (case pages v (fr_page f) of None \<Rightarrow> False
     | Some r \<Rightarrow> pte_of (mach v) (dir_of v r) (upage r) AND PTE_A \<noteq> 0)"

lemma accessed_cleared: "(e AND NOT PTE_A) AND PTE_A = 0" "(e AND NOT PTE_A) AND PTE_P = e AND PTE_P" "(e AND NOT PTE_A) AND PTE_D = e AND PTE_D"
  by (rule bit_word_eqI, auto simp: flag_bits bit_simps)+

text \<open>Reading and clearing the accessed bit of a mapped page.\<close>

lemma pagedir_is_accessed_user:
  assumes "pds_inv m D" "pd \<in> D" "is_user_vaddr a"
  shows "pagedir_is_accessed pd a m = Some (pte_of m pd a AND PTE_A \<noteq> 0)"
  using lookup_page_ok [OF assms] by (auto simp: pagedir_is_accessed_def)

lemma clear_accessed_ok:
  assumes inv: "maps_inv m D" and pd: "pd \<in> D" and a: "page_aligned a" "mapped m pd a"
  shows "\<exists>m'. pagedir_set_accessed pd a False m = Some m' \<and> maps_inv m' D \<and> same_kernel m m' D \<and>
    (\<forall>pd'\<in>D. \<forall>b. is_user_vaddr b \<longrightarrow> pte_of m' pd' b =
      (if pd' = pd \<and> pg_round_down b = a then pte_of m pd a AND NOT PTE_A else pte_of m pd' b)) \<and>
    (\<forall>p. page_aligned p \<and> p \<notin> pool_pages (kernel_pool m) \<longrightarrow> mem_get (ram m') p PGSIZE = mem_get (ram m) p PGSIZE) \<and>
    (\<exists>r. m' = m\<lparr>ram := r\<rparr>)"
proof -
  note pinv = maps_invD(1) [OF inv]
  have u: "is_user_vaddr a" using a(2) by (simp add: mapped_def)
  obtain p where p: "lookup_page pd a False m = Some (p, m)" "pte_of m pd a = (if p = 0 then 0 else load32 (ram m) p)"
    "p \<noteq> 0 \<longrightarrow> (\<exists>pt. pde_get_pt (pde_of m pd (pd_no a)) = Some pt \<and> pt \<in> page_tables m pd \<and> p = entry pt (pt_no a))"
    using lookup_page_ok [OF pinv pd u] by blast
  have p0: "p \<noteq> 0" using p(2) a(2) by (auto simp: mapped_def)
  then obtain pt where pt: "pt \<in> page_tables m pd" "p = entry pt (pt_no a)" using p(3) by blast
  define m' where "m' = m\<lparr>ram := store32 (ram m) p (pte_of m pd a AND NOT PTE_A)\<rparr>"
  have v: "(pte_of m pd a AND NOT PTE_A) AND PTE_ADDR = pte_of m pd a AND PTE_ADDR \<and> mapped m pd a" using a(2) by simp
  note ch = change_entry_ok [OF inv pd u p(1) p0 disjI2 [OF v] m'_def]
  have "pagedir_set_accessed pd a False m = Some m'"
    using p(1,2) p0 ch(2) by (simp add: pagedir_set_accessed_def m'_def)
  moreover have "same_kernel m m' D" using same_kernel_entry [OF pinv pd pt(1) pt_no_less] pt(2) by (simp add: m'_def)
  ultimately show ?thesis using ch a(1) by (intro exI [of _ m']) (auto simp: m'_def)
qed

text \<open>Changes to flags of entries and to the times of frames keep the invariant.\<close>

definition same_frames :: "frame list \<Rightarrow> frame list \<Rightarrow> bool" where
  "same_frames fs fs' \<longleftrightarrow> map (\<lambda>f. (fr_page f, fr_kpage f)) fs' = map (\<lambda>f. (fr_page f, fr_kpage f)) fs"

lemma same_framesD:
  assumes "same_frames fs fs'"
  shows "map fr_page fs' = map fr_page fs" "f' \<in> set fs' \<Longrightarrow> \<exists>f\<in>set fs. fr_page f = fr_page f' \<and> fr_kpage f = fr_kpage f'"
proof -
  have "map fst (map (\<lambda>f. (fr_page f, fr_kpage f)) fs') = map fst (map (\<lambda>f. (fr_page f, fr_kpage f)) fs)"
    using assms by (simp add: same_frames_def)
  then show "map fr_page fs' = map fr_page fs" by (simp add: comp_def)
  assume "f' \<in> set fs'"
  then have "(fr_page f', fr_kpage f') \<in> set (map (\<lambda>f. (fr_page f, fr_kpage f)) fs)"
    using assms unfolding same_frames_def by (metis (no_types, lifting) image_eqI list.set_map)
  then show "\<exists>f\<in>set fs. fr_page f = fr_page f' \<and> fr_kpage f = fr_kpage f'" by auto
qed

lemma vm_inv_flags:
  assumes inv: "vm_inv x v" and v': "v' = v\<lparr>mach := m, frame_table := ft\<rparr>" and ft: "same_frames (frame_table v) ft"
    and m: "maps_inv m (page_dirs v)" "same_kernel (mach v) m (page_dirs v)"
      "\<And>pd a. pd \<in> page_dirs v \<Longrightarrow> is_user_vaddr a \<Longrightarrow>
        pte_of m pd a AND PTE_P = pte_of (mach v) pd a AND PTE_P \<and> pte_of m pd a AND PTE_ADDR = pte_of (mach v) pd a AND PTE_ADDR"
  shows "vm_inv x v'"
proof -
  note iv = vm_invD [OF inv]
  have mp: "mapped m pd a = mapped (mach v) pd a" if "pd \<in> page_dirs v" for pd a
    using m(3) [OF that] by (auto simp: mapped_def)
  have fr: "frame_of m pd a = frame_of (mach v) pd a" if "pd \<in> page_dirs v" "mapped (mach v) pd a" for pd a
    using m(3) [OF that(1), of a] maps_invD(3) [OF m(1) that(1), of a] maps_invD(3) [OF iv(1) that] mp [OF that(1), of a] that(2)
    by (auto simp: frame_of_def pte_get_page_def mapped_def)
  have d: "dir_of v' r = dir_of v r" "page_dirs v' = page_dirs v" for r by (simp_all add: v' dir_of_def page_dirs_def)
  have ps: "map fr_page ft = map fr_page (frame_table v)" by (rule same_framesD(1) [OF ft])
  then have im: "fr_page ` set ft = fr_page ` set (frame_table v)" by (metis list.set_map)
  have "frames_ok x v'" unfolding frames_ok_def
  proof (intro conjI ballI allI impI)
    show "distinct (map fr_page (frame_table v'))" "x \<notin> fr_page ` set (frame_table v')"
      using frames_okD(1,2) [OF iv(6)] ps im by (simp_all add: v')
    show "in_frame v' f'" if f': "f' \<in> set (frame_table v')" for f'
    proof -
      obtain f where f: "f \<in> set (frame_table v)" "fr_page f = fr_page f'" "fr_kpage f = fr_kpage f'"
        using same_framesD(2) [OF ft, of f'] f' unfolding v' by auto
      obtain r where "pages v (fr_page f) = Some r" "present r = PRESENT_MEMORY" "kpage r = fr_kpage f"
        "mapped (mach v) (dir_of v r) (upage r)" "frame_of (mach v) (dir_of v r) (upage r) = fr_kpage f" by (rule frame_facts [OF inv f(1)])
      moreover from this have "dir_of v r \<in> page_dirs v" using pages_okD(5) [OF iv(5)] by blast
      ultimately show ?thesis using mp fr f by (auto simp: in_frame_def d) (simp_all add: v')
    qed
    fix p r assume h: "pages v' p = Some r \<and> p \<notin> fr_page ` set (frame_table v')"
    then have h: "pages v p = Some r" "p \<notin> fr_page ` set (frame_table v)" using im by (simp_all add: v')
    show "\<not> mapped (mach v') (dir_of v' r) (upage r)"
      using frames_okD(4) [OF iv(6) h] mp [OF pages_okD(5) [OF iv(5) h(1)]] unfolding d by (simp add: v')
    show "present r \<noteq> PRESENT_MEMORY" if "p \<noteq> x" using frames_okD(5) [OF iv(6) h that] .
  qed
  moreover have "threads_ok v'" by (rule threads_ok_cong [OF iv(4)]) (simp_all add: v')
  moreover have "pages_ok v'" by (rule pages_ok_cong [OF iv(5)]) (simp_all add: v')
  moreover have "slots_ok v' = slots_ok v" unfolding slots_ok_def v' by simp
  then have "slots_ok v'" using iv(7) by simp
  ultimately show ?thesis
    using m(1) kernel_half_same [OF iv(2) m(2)] iv(3) by (simp add: vm_inv_def d) (simp add: v')
qed

text \<open>What the loop has done after the first \<open>n\<close> frames.\<close>

definition frames_ticked :: "nat \<Rightarrow> vm \<Rightarrow> vm \<Rightarrow> bool" where
  "frames_ticked n v v' \<longleftrightarrow> (\<exists>m ft. v' = v\<lparr>mach := m, frame_table := ft\<rparr>) \<and>
     frame_table v' = map (\<lambda>(i, f). if i < n \<and> accessed v f then f\<lparr>last_accessed_tick := vm_ticks v\<rparr> else f)
       (enumerate 0 (frame_table v)) \<and>
     (\<forall>i < length (frame_table v). accessed v' (frame_table v ! i) \<longleftrightarrow> n \<le> i \<and> accessed v (frame_table v ! i)) \<and>
     (\<forall>p r. pages v p = Some r \<longrightarrow> dirty v' r = dirty v r) \<and>
     (\<forall>p. page_aligned p \<and> p \<notin> pool_pages (kernel_pool (mach v)) \<longrightarrow>
        mem_get (ram (mach v')) p PGSIZE = mem_get (ram (mach v)) p PGSIZE) \<and>
     kernel_pool (mach v') = kernel_pool (mach v)"

lemma frames_ticked_nth:
  assumes "frames_ticked n v v'" "i < length (frame_table v)"
  shows "frame_table v' ! i = (if i < n \<and> accessed v (frame_table v ! i)
    then (frame_table v ! i)\<lparr>last_accessed_tick := vm_ticks v\<rparr> else frame_table v ! i)" "length (frame_table v') = length (frame_table v)"
  using assms by (simp_all add: frames_ticked_def nth_enumerate_eq)

lemma frames_ticked_same: "frames_ticked n v v' \<Longrightarrow> pages v' = pages v \<and> vthreads v' = vthreads v \<and> vm_ticks v' = vm_ticks v \<and> dir_of v' = dir_of v"
  by (auto simp: frames_ticked_def dir_of_def fun_eq_iff)

lemma frame_tick_step_ok:
  assumes inv: "vm_inv x v" and n: "n < length (frame_table v)"
  shows "\<exists>v'. frame_tick_step v n = Some v' \<and> vm_inv x v' \<and>
    (\<exists>m. v' = v\<lparr>mach := m, frame_table := (frame_table v)[n := (if accessed v (frame_table v ! n)
       then (frame_table v ! n)\<lparr>last_accessed_tick := vm_ticks v\<rparr> else frame_table v ! n)]\<rparr>) \<and>
    (\<forall>i < length (frame_table v). accessed v' (frame_table v ! i) \<longleftrightarrow> i \<noteq> n \<and> accessed v (frame_table v ! i)) \<and>
    (\<forall>p r. pages v p = Some r \<longrightarrow> dirty v' r = dirty v r) \<and>
    (\<forall>p. page_aligned p \<and> p \<notin> pool_pages (kernel_pool (mach v)) \<longrightarrow>
        mem_get (ram (mach v')) p PGSIZE = mem_get (ram (mach v)) p PGSIZE) \<and>
    kernel_pool (mach v') = kernel_pool (mach v)"
proof -
  let ?f = "frame_table v ! n"
  have f: "?f \<in> set (frame_table v)" using n by simp
  obtain r where r: "pages v (fr_page ?f) = Some r" "mapped (mach v) (dir_of v r) (upage r)" by (rule frame_facts [OF inv f])
  note iv = vm_invD [OF inv]
  note po = pages_okD [OF iv(5) r(1)]
  obtain t where t: "vthreads v (page_tid r) = Some t" "pagedir t = dir_of v r" using po(6) by blast
  have acc: "pagedir_is_accessed (dir_of v r) (upage r) (mach v) = Some (accessed v ?f)"
    using pagedir_is_accessed_user [OF iv(8) po(5,4)] r(1) by (simp add: accessed_def)
  show ?thesis
  proof (cases "accessed v ?f")
    case False
    then have "frame_tick_step v n = Some v" using r(1) t acc by (simp add: frame_tick_step_def Let_def)
    then show ?thesis using inv False by (auto intro!: exI [of _ v] exI [of _ "mach v"])
  next
    case True
    obtain m where m: "pagedir_set_accessed (dir_of v r) (upage r) False (mach v) = Some m" "maps_inv m (page_dirs v)"
      "same_kernel (mach v) m (page_dirs v)"
      "\<forall>pd'\<in>page_dirs v. \<forall>b. is_user_vaddr b \<longrightarrow> pte_of m pd' b =
        (if pd' = dir_of v r \<and> pg_round_down b = upage r then pte_of (mach v) (dir_of v r) (upage r) AND NOT PTE_A else pte_of (mach v) pd' b)"
      "\<forall>p. page_aligned p \<and> p \<notin> pool_pages (kernel_pool (mach v)) \<longrightarrow> mem_get (ram m) p PGSIZE = mem_get (ram (mach v)) p PGSIZE"
      "\<exists>x. m = (mach v)\<lparr>ram := x\<rparr>"
      using clear_accessed_ok [OF iv(1) po(5,3) r(2)] by blast
    define v' where "v' = v\<lparr>mach := m, frame_table := (frame_table v)[n := ?f\<lparr>last_accessed_tick := vm_ticks v\<rparr>]\<rparr>"
    have run: "frame_tick_step v n = Some v'" using r(1) t acc True m(1) by (simp add: frame_tick_step_def Let_def v'_def)
    have "same_frames (frame_table v) ((frame_table v)[n := ?f\<lparr>last_accessed_tick := vm_ticks v\<rparr>])"
      using n by (simp add: same_frames_def map_update list_update_same_conv)
    moreover have same: "pte_of m pd a AND PTE_P = pte_of (mach v) pd a AND PTE_P \<and> pte_of m pd a AND PTE_ADDR = pte_of (mach v) pd a AND PTE_ADDR \<and>
        pte_of m pd a AND PTE_D = pte_of (mach v) pd a AND PTE_D"
      if "pd \<in> page_dirs v" "is_user_vaddr a" for pd a
    proof -
      have "pte_of (mach v) pd a = pte_of (mach v) pd (upage r)" if "pg_round_down a = upage r"
        using pte_of_round_down [of "mach v" pd a] that by simp
      then show ?thesis using m(4) that by (auto simp: accessed_cleared)
    qed
    ultimately have inv': "vm_inv x v'" using vm_inv_flags [OF inv v'_def _ m(2,3)] by blast
    have dir: "dir_of v' = dir_of v" "pages v' = pages v" "mach v' = m" by (simp_all add: v'_def dir_of_def fun_eq_iff)
    have a: "accessed v' (frame_table v ! i) \<longleftrightarrow> i \<noteq> n \<and> accessed v (frame_table v ! i)" if i: "i < length (frame_table v)" for i
    proof -
      obtain s where s: "pages v (fr_page (frame_table v ! i)) = Some s" by (rule frame_facts [OF inv nth_mem [OF i]])
      note ps = pages_okD [OF iv(5) s]
      have "dir_of v s = dir_of v r \<and> upage s = upage r \<longleftrightarrow> i = n"
      proof
        assume "dir_of v s = dir_of v r \<and> upage s = upage r"
        then have "fr_page (frame_table v ! i) = fr_page ?f" using page_unique [OF inv s r(1)] by simp
        then show "i = n" using frames_okD(1) [OF iv(6)] i n by (simp add: distinct_conv_nth) metis
      qed (use s r(1) in auto)
      moreover have "pte_of m (dir_of v s) (upage s) = (if dir_of v s = dir_of v r \<and> upage s = upage r
          then pte_of (mach v) (dir_of v r) (upage r) AND NOT PTE_A else pte_of (mach v) (dir_of v s) (upage s))"
        using m(4) ps(5,4,3) by simp
      moreover have "accessed v' (frame_table v ! i) \<longleftrightarrow> pte_of m (dir_of v s) (upage s) AND PTE_A \<noteq> 0"
        "accessed v (frame_table v ! i) \<longleftrightarrow> pte_of (mach v) (dir_of v s) (upage s) AND PTE_A \<noteq> 0"
        using s by (simp_all add: accessed_def dir)
      ultimately show ?thesis by (simp add: accessed_cleared)
    qed
    have "dirty v' q = dirty v q" if "pages v p = Some q" for p q
      using same [OF pages_okD(5,4) [OF iv(5) that]] by (simp add: dirty_def dir)
    then show ?thesis using run inv' a m(5,6) True by (intro exI [of _ v']) (auto simp: v'_def)
  qed
qed

lemma frame_tick_loop:
  assumes "vm_inv x v" "n \<le> length (frame_table v)"
  shows "\<exists>v'. foldM frame_tick_step v [0..<n] = Some v' \<and> vm_inv x v' \<and> frames_ticked n v v'"
  using assms(2)
proof (induction n)
  case 0
  have "map (\<lambda>(i, f). f) (enumerate 0 (frame_table v)) = frame_table v" by (simp add: case_prod_beta' map_snd_enumerate)
  moreover have "\<exists>m ft. v = v\<lparr>mach := m, frame_table := ft\<rparr>" by (rule exI [of _ "mach v"], rule exI [of _ "frame_table v"]) simp
  ultimately show ?case using assms(1) by (auto simp: frames_ticked_def)
next
  case (Suc n)
  then obtain v1 where v1: "foldM frame_tick_step v [0..<n] = Some v1" "vm_inv x v1" "frames_ticked n v v1" by auto
  note same = frames_ticked_same [OF v1(3)]
  have len: "length (frame_table v1) = length (frame_table v)" "n < length (frame_table v)"
    using frames_ticked_nth(2) [OF v1(3), of n] Suc.prems by simp_all
  have nth: "frame_table v1 ! i = (if i < n \<and> accessed v (frame_table v ! i)
      then (frame_table v ! i)\<lparr>last_accessed_tick := vm_ticks v\<rparr> else frame_table v ! i)" if "i < length (frame_table v)" for i
    using frames_ticked_nth(1) [OF v1(3) that] .
  have acc1: "accessed w (frame_table v1 ! i) = accessed w (frame_table v ! i)" if "i < length (frame_table v)" for w i
    using nth [OF that] by (simp add: accessed_def)
  have acc: "accessed v1 (frame_table v ! i) \<longleftrightarrow> n \<le> i \<and> accessed v (frame_table v ! i)" if "i < length (frame_table v)" for i
    using v1(3) that by (simp add: frames_ticked_def)
  obtain v2 m where v2: "frame_tick_step v1 n = Some v2" "vm_inv x v2"
      "v2 = v1\<lparr>mach := m, frame_table := (frame_table v1)[n := (if accessed v1 (frame_table v1 ! n)
         then (frame_table v1 ! n)\<lparr>last_accessed_tick := vm_ticks v1\<rparr> else frame_table v1 ! n)]\<rparr>"
      "\<forall>i < length (frame_table v1). accessed v2 (frame_table v1 ! i) \<longleftrightarrow> i \<noteq> n \<and> accessed v1 (frame_table v1 ! i)"
      "\<forall>p r. pages v1 p = Some r \<longrightarrow> dirty v2 r = dirty v1 r"
      "\<forall>p. page_aligned p \<and> p \<notin> pool_pages (kernel_pool (mach v1)) \<longrightarrow> mem_get (ram (mach v2)) p PGSIZE = mem_get (ram (mach v1)) p PGSIZE"
      "kernel_pool (mach v2) = kernel_pool (mach v1)"
    using frame_tick_step_ok [OF v1(2), of n] len by auto
  have "frame_table v2 = map (\<lambda>(i, f). if i < Suc n \<and> accessed v f then f\<lparr>last_accessed_tick := vm_ticks v\<rparr> else f) (enumerate 0 (frame_table v))"
  proof (rule nth_equalityI)
    fix i assume "i < length (frame_table v2)"
    then have i: "i < length (frame_table v)" using v2(3) len by simp
    have "frame_table v2 ! i = (if i = n then if accessed v1 (frame_table v1 ! n) then (frame_table v1 ! n)\<lparr>last_accessed_tick := vm_ticks v1\<rparr>
        else frame_table v1 ! n else frame_table v1 ! i)" using v2(3) len i by (simp add: nth_list_update)
    then show "frame_table v2 ! i = map (\<lambda>(i, f). if i < Suc n \<and> accessed v f then f\<lparr>last_accessed_tick := vm_ticks v\<rparr> else f)
        (enumerate 0 (frame_table v)) ! i"
      using nth [OF i] acc1 [OF i, of v1] acc [OF i] same i by (auto simp: nth_enumerate_eq less_Suc_eq)
  qed (use v2(3) len in simp)
  moreover obtain m1 ft1 where "v1 = v\<lparr>mach := m1, frame_table := ft1\<rparr>" using v1(3) unfolding frames_ticked_def by blast
  then have "v2 = v\<lparr>mach := m, frame_table := frame_table v2\<rparr>" using v2(3) by simp
  then have "\<exists>m ft. v2 = v\<lparr>mach := m, frame_table := ft\<rparr>" by blast
  moreover have "accessed v2 (frame_table v ! i) \<longleftrightarrow> Suc n \<le> i \<and> accessed v (frame_table v ! i)" if i: "i < length (frame_table v)" for i
    using v2(4) len(1) i acc1 [OF i] acc [OF i] by auto
  ultimately have "frames_ticked (Suc n) v v2" using v1(3) v2(5-7) same by (simp add: frames_ticked_def)
  then show ?case using v1(1) v2(1,2) by (auto simp: foldM_append)
qed

lemma frame_tick_ok:
  assumes "vm_inv x v"
  shows "\<exists>v'. frame_tick v = Some v' \<and> vm_inv x v' \<and> frames_ticked (length (frame_table v)) v v'"
  using frame_tick_loop [OF assms order_refl] by (simp add: frame_tick_def)

lemma frames_ticked_data:
  assumes "vm_inv x v" "frames_ticked n v v'" "pages v p = Some r" "p \<noteq> x"
  shows "page_data v' r = page_data v r"
proof (cases "present r")
  case PRESENT_MEMORY
  obtain f where f: "f \<in> set (frame_table v)" "fr_page f = p"
    by (rule in_memory_frame [OF vm_invD(6) [OF assms(1)] assms(3) PRESENT_MEMORY assms(4)])
  have "page_aligned (kpage r)" "kpage r \<notin> pool_pages (kernel_pool (mach v))"
    using frame_factsD(8,9) [OF assms(1) f(1)] f(2) assms(3) by auto
  then show ?thesis using assms(2) PRESENT_MEMORY by (simp add: page_data_def frames_ticked_def)
qed (use assms(2) in \<open>auto simp: page_data_def frames_ticked_def\<close>)

end
